(* ===== verification/Prelude.thy ===== *)
theory Prelude
  imports Main
begin

text \<open>
  Vocabulary shared by every component: Python exceptions as values, the fallible
  result type and its sequencing, Python list indexing, and the semantics of a
  one-dimensional Triton launch (a grid of programs, each with a block of lanes
  guarded by a mask).  A tensor is modelled as the list of its elements (a matrix
  as a list of rows); element-wise torch operations are \<open>map\<close>/\<open>map2\<close>.
\<close>

named_theorems res_simps \<open>unfolding rules for fallible computations\<close>

section \<open>Errors as values\<close>

datatype py_error =
  AssertionError | ValueError | RuntimeError | IndexError | KeyError | TypeError
  | AttributeError | ZeroDivisionError | SystemExit | StructError | ReError

type_synonym 'a res = "py_error + 'a"

definition res_bind :: "'a res \<Rightarrow> ('a \<Rightarrow> 'b res) \<Rightarrow> 'b res" where
  "res_bind m k = (case m of Inl e \<Rightarrow> Inl e | Inr x \<Rightarrow> k x)"

definition ensure :: "bool \<Rightarrow> py_error \<Rightarrow> 'a res \<Rightarrow> 'a res" where
  "ensure b e k = (if b then k else Inl e)"

definition res_map :: "('a \<Rightarrow> 'b) \<Rightarrow> 'a res \<Rightarrow> 'b res" where
  "res_map f m = res_bind m (\<lambda>x. Inr (f x))"

lemma res_bind_simps [simp]:
  "res_bind (Inl e) k = Inl e" "res_bind (Inr x) k = k x"
  by (simp_all add: res_bind_def)

lemma ensure_simps [simp]:
  "ensure True e k = k" "ensure False e k = Inl e"
  by (simp_all add: ensure_def)

lemma res_bind_Inr [res_simps]:
  "res_bind m k = Inr y \<longleftrightarrow> (\<exists>x. m = Inr x \<and> k x = Inr y)"
  by (cases m) simp_all

lemma ensure_Inr [res_simps]: "ensure b e k = Inr y \<longleftrightarrow> b \<and> k = Inr y"
  by (simp add: ensure_def)

lemma ensure_Inl [res_simps]: "ensure b e k = Inl x \<longleftrightarrow> (\<not> b \<and> x = e) \<or> (b \<and> k = Inl x)"
  by (auto simp: ensure_def)

lemma res_map_Inr [res_simps]: "res_map f m = Inr y \<longleftrightarrow> (\<exists>x. m = Inr x \<and> y = f x)"
  by (cases m) (auto simp: res_map_def)

fun res_list :: "('a \<Rightarrow> 'b res) \<Rightarrow> 'a list \<Rightarrow> 'b list res" where
  "res_list f [] = Inr []"
| "res_list f (x # xs) = res_bind (f x) (\<lambda>y. res_map ((#) y) (res_list f xs))"

lemma res_list_Inr:
  "res_list f xs = Inr ys \<longleftrightarrow>
     length ys = length xs \<and> (\<forall>i < length xs. f (xs ! i) = Inr (ys ! i))"
proof (induction xs arbitrary: ys)
  case Nil
  then show ?case by auto
next
  case (Cons x xs)
  show ?case
  proof (cases ys)
    case Nil
    then show ?thesis by (auto simp: res_simps)
  next
    case (Cons z zs)
    then show ?thesis
      by (auto simp: res_simps Cons.IH nth_Cons' less_Suc_eq_0_disj)
  qed
qed

lemma res_list_cong:
  "xs = ys \<Longrightarrow> (\<And>x. x \<in> set ys \<Longrightarrow> f x = g x) \<Longrightarrow> res_list f xs = res_list g ys"
  by (induction xs arbitrary: ys) auto

section \<open>Python and tensor indexing\<close>

text \<open>\<open>xs[i]\<close>: a negative index counts from the end, out of range raises.\<close>

definition py_get :: "'a list \<Rightarrow> int \<Rightarrow> 'a res" where
  "py_get xs i =
     (let n = int (length xs); j = (if i < 0 then n + i else i)
      in ensure (0 \<le> j \<and> j < n) IndexError (Inr (xs ! nat j)))"

lemma py_get_nonneg:
  "0 \<le> i \<Longrightarrow> py_get xs i = (if nat i < length xs then Inr (xs ! nat i) else Inl IndexError)"
  by (auto simp: py_get_def Let_def ensure_def)

lemma py_get_Inr_nonneg:
  "0 \<le> i \<Longrightarrow> py_get xs i = Inr x \<longleftrightarrow> nat i < length xs \<and> x = xs ! nat i"
  by (auto simp: py_get_nonneg)

lemma py_get_in_set: "py_get xs i = Inr x \<Longrightarrow> x \<in> set xs"
  by (auto simp: py_get_def Let_def res_simps split: if_splits)

text \<open>
  A Triton load through a pointer: no bounds check.  An address outside the buffer
  reads an unknown value, here an arbitrary fixed one; nothing is proved about it.
\<close>

definition tl_load :: "'a list \<Rightarrow> int \<Rightarrow> 'a" where
  "tl_load xs i = (if 0 \<le> i \<and> nat i < length xs then xs ! nat i else undefined)"

text \<open>A masked load: lanes whose mask is off read \<open>other\<close>.\<close>

definition tl_load_mask :: "'a list \<Rightarrow> int \<Rightarrow> bool \<Rightarrow> 'a \<Rightarrow> 'a" where
  "tl_load_mask xs i m other = (if m then tl_load xs i else other)"

lemma tl_load_in: "i < length xs \<Longrightarrow> tl_load xs (int i) = xs ! i"
  by (simp add: tl_load_def)

lemma tl_load_py_get: "0 \<le> i \<Longrightarrow> py_get xs i = Inr x \<Longrightarrow> tl_load xs i = x"
  by (auto simp: py_get_nonneg tl_load_def split: if_splits)

section \<open>Element-wise Triton launches\<close>

text \<open>
  \<open>triton.cdiv(n, BLOCK)\<close> programs; program \<open>pid\<close> owns the lanes
  \<open>pid * BLOCK + arange(0, BLOCK)\<close> and stores \<open>f offs\<close> where \<open>offs < n\<close>.  The hardware
  runs the programs in any order, so a launch takes the order as a parameter.
\<close>

definition cdiv :: "nat \<Rightarrow> nat \<Rightarrow> nat" where
  "cdiv n b = (n + b - 1) div b"

definition store_lane :: "nat \<Rightarrow> (nat \<Rightarrow> 'a) \<Rightarrow> nat \<Rightarrow> 'a list \<Rightarrow> 'a list" where
  "store_lane n f i buf = (if i < n then buf[i := f i] else buf)"

definition run_block :: "nat \<Rightarrow> nat \<Rightarrow> (nat \<Rightarrow> 'a) \<Rightarrow> nat \<Rightarrow> 'a list \<Rightarrow> 'a list" where
  "run_block b n f pid buf = fold (store_lane n f) [pid * b ..< pid * b + b] buf"

definition launch_1d :: "nat list \<Rightarrow> nat \<Rightarrow> nat \<Rightarrow> (nat \<Rightarrow> 'a) \<Rightarrow> 'a list \<Rightarrow> 'a list" where
  "launch_1d pids b n f buf = fold (run_block b n f) pids buf"

definition full_grid :: "nat list \<Rightarrow> nat \<Rightarrow> nat \<Rightarrow> bool" where
  "full_grid pids n b \<longleftrightarrow> set pids = {..< cdiv n b}"

lemma length_fold_store [simp]: "length (fold (store_lane n f) is buf) = length buf"
  by (induction "is" arbitrary: buf) (simp_all add: store_lane_def)

lemma nth_fold_store:
  "j < length buf \<Longrightarrow>
     fold (store_lane n f) is buf ! j = (if j \<in> set is \<and> j < n then f j else buf ! j)"
  by (induction "is" arbitrary: buf) (auto simp: store_lane_def nth_list_update)

lemma launch_1d_fold:
  "launch_1d pids b n f buf =
     fold (store_lane n f) (concat (map (\<lambda>p. [p * b ..< p * b + b]) pids)) buf"
  unfolding launch_1d_def by (induction pids arbitrary: buf) (simp_all add: run_block_def)

lemma cdiv_covers: "0 < b \<Longrightarrow> i < n \<Longrightarrow> i div b < cdiv n b"
  unfolding cdiv_def
proof -
  assume b: "0 < b" and i: "i < n"
  have "(i + b) div b = i div b + 1" using b div_add_self2[of b i] by simp
  then have "i div b < (i + b) div b" by simp
  also have "\<dots> \<le> (n + b - 1) div b" using b i by (intro div_le_mono) simp
  finally show "i div b < (n + b - 1) div b" .
qed

text \<open>Every element is stored exactly as the element-wise function says, in any order.\<close>

lemma launch_1d_eq_map:
  assumes "0 < b" and "length buf = n" and "full_grid pids n b"
  shows "launch_1d pids b n f buf = map f [0..<n]"
proof (rule nth_equalityI)
  show "length (launch_1d pids b n f buf) = length (map f [0..<n])"
    by (simp add: launch_1d_fold assms(2))
  fix i assume "i < length (launch_1d pids b n f buf)"
  then have i: "i < n" by (simp add: launch_1d_fold assms(2))
  have "i div b \<in> set pids"
    using assms(1,3) i cdiv_covers by (simp add: full_grid_def)
  moreover have "i \<in> set [i div b * b ..< i div b * b + b]"
    using assms(1) dividend_less_div_times[of b i] by (simp add: add.commute)
  ultimately have "i \<in> set (concat (map (\<lambda>p. [p * b ..< p * b + b]) pids))"
    unfolding set_concat set_map by (intro UN_I imageI) (auto intro: imageI)
  then show "launch_1d pids b n f buf ! i = map f [0..<n] ! i"
    using i by (simp add: launch_1d_fold nth_fold_store assms(2))
qed

lemma map_upt_nth: "length xs = n \<Longrightarrow> map (\<lambda>i. f (xs ! i)) [0..<n] = map f xs"
  by (auto intro: nth_equalityI)

lemma map_upt_nth2:
  "length xs = n \<Longrightarrow> length ys = n \<Longrightarrow>
     map (\<lambda>i. f (xs ! i) (ys ! i)) [0..<n] = map2 f xs ys"
  by (auto intro: nth_equalityI)

section \<open>Scans and masks\<close>

definition cumsum :: "int list \<Rightarrow> int list" where
  "cumsum xs = map (\<lambda>i. sum_list (take (Suc i) xs)) [0..<length xs]"

definition cummax :: "int list \<Rightarrow> int list" where
  "cummax xs = map (\<lambda>i. Max (set (take (Suc i) xs))) [0..<length xs]"

definition cummin :: "int list \<Rightarrow> int list" where
  "cummin xs = map (\<lambda>i. Min (set (take (Suc i) xs))) [0..<length xs]"

lemma length_scans [simp]: "length (cumsum xs) = length xs" "length (cummax xs) = length xs"
  "length (cummin xs) = length xs"
  by (simp_all add: cumsum_def cummax_def cummin_def)

lemma set_take_Suc: "i < length xs \<Longrightarrow> set (take (Suc i) xs) = (\<lambda>j. xs ! j) ` {..i}"
  using nth_image[of "Suc i" xs] by (simp add: atLeast0LessThan lessThan_Suc_atMost)

lemma cumsum_pos_iff:
  assumes "\<forall>x\<in>set xs. 0 \<le> x" and "i < length xs"
  shows "0 < cumsum xs ! i \<longleftrightarrow> (\<exists>j\<le>i. 0 < xs ! j)"
proof -
  define ys where "ys = take (Suc i) xs"
  have nn: "\<And>x. x \<in> set ys \<Longrightarrow> 0 \<le> x" using assms(1) unfolding ys_def by (meson in_set_takeD)
  have ys: "set ys = (\<lambda>j. xs ! j) ` {..i}" unfolding ys_def using assms(2) by (rule set_take_Suc)
  have "0 \<le> sum_list ys" using nn by (rule sum_list_nonneg)
  then have "0 < sum_list ys \<longleftrightarrow> sum_list ys \<noteq> 0" by auto
  also have "\<dots> \<longleftrightarrow> (\<exists>x\<in>set ys. x \<noteq> 0)" using sum_list_nonneg_eq_0_iff[OF nn] by auto
  also have "\<dots> \<longleftrightarrow> (\<exists>x\<in>set ys. 0 < x)" using nn by (metis less_irrefl order_le_less)
  also have "\<dots> \<longleftrightarrow> (\<exists>j\<le>i. 0 < xs ! j)" unfolding ys by auto
  finally show ?thesis using assms(2) by (simp add: cumsum_def ys_def)
qed

lemma cummax_pos_iff: "i < length xs \<Longrightarrow> 0 < cummax xs ! i \<longleftrightarrow> (\<exists>j\<le>i. 0 < xs ! j)"
  by (simp add: cummax_def set_take_Suc Max_gr_iff) auto

lemma cummax_nonneg:
  assumes "\<forall>x\<in>set xs. 0 \<le> x" and "i < length xs"
  shows "0 \<le> cummax xs ! i"
proof -
  have "xs ! i \<le> Max (set (take (Suc i) xs))"
    by (rule Max_ge) (use assms(2) in \<open>auto simp: set_take_Suc\<close>)
  moreover have "0 \<le> xs ! i" using assms by simp
  ultimately show ?thesis using assms(2) by (simp add: cummax_def)
qed

lemma cumsum_Suc: "Suc i < length xs \<Longrightarrow> cumsum xs ! Suc i = cumsum xs ! i + xs ! Suc i"
  by (simp add: cumsum_def take_Suc_conv_app_nth)

lemma cumsum_0: "xs \<noteq> [] \<Longrightarrow> cumsum xs ! 0 = xs ! 0"
  by (cases xs) (simp_all add: cumsum_def del: upt_Suc)

text \<open>\<open>zeros.scatter_(0, index, src)\<close>: an index out of range raises.\<close>

definition scatter :: "'a list \<Rightarrow> int list \<Rightarrow> 'a list \<Rightarrow> 'a list res" where
  "scatter base is vs =
     ensure (\<forall>i\<in>set is. 0 \<le> i \<and> i < int (length base)) RuntimeError
       (Inr (fold (\<lambda>(i, v) b. b[nat i := v]) (zip is vs) base))"

lemma fold_scatter_length [simp]: "length (fold (\<lambda>(i, v) b. b[nat i := v]) ps base) = length base"
  by (induction ps arbitrary: base) auto

lemma fold_scatter_other:
  "\<forall>(i, v)\<in>set ps. nat i \<noteq> k \<Longrightarrow> fold (\<lambda>(i, v) b. b[nat i := v]) ps base ! k = base ! k"
  by (induction ps arbitrary: base) auto

text \<open>A cell all of whose writers agree holds their value.\<close>

lemma fold_scatter_own:
  "(i, v) \<in> set ps \<Longrightarrow> nat i < length base \<Longrightarrow> \<forall>(j, w)\<in>set ps. nat j = nat i \<longrightarrow> w = v \<Longrightarrow>
     fold (\<lambda>(i, v) b. b[nat i := v]) ps base ! nat i = v"
proof (induction ps arbitrary: base i v)
  case (Cons p ps)
  obtain j w where p: "p = (j, w)" by fastforce
  show ?case
  proof (cases "\<exists>(j', w')\<in>set ps. nat j' = nat i")
    case True
    then obtain j' w' where m: "(j', w') \<in> set ps" "nat j' = nat i" by blast
    then have w': "w' = v" using Cons.prems(3) by auto
    have "fold (\<lambda>(i, v) b. b[nat i := v]) ps (base[nat j := w]) ! nat j' = w'"
      by (rule Cons.IH) (use m w' Cons.prems in auto)
    then show ?thesis using p m w' by simp
  next
    case False
    then have "(i, v) = p" using Cons.prems(1) by auto
    moreover have "fold (\<lambda>(i, v) b. b[nat i := v]) ps (base[nat i := v]) ! nat i = base[nat i := v] ! nat i"
      by (rule fold_scatter_other) (use False in auto)
    ultimately show ?thesis using Cons.prems(2) p by auto
  qed
qed simp

section \<open>Rows of one length\<close>

lemma concat_rect_nth:
  "\<forall>r\<in>set rows. length r = cols \<Longrightarrow> i < length rows \<Longrightarrow> j < cols \<Longrightarrow>
     concat rows ! (i * cols + j) = rows ! i ! j \<and> i * cols + j < length (concat rows)"
proof (induction rows arbitrary: i)
  case (Cons r rows)
  then show ?case by (cases i) (auto simp: nth_append)
qed simp

lemma concat_block:
  assumes "\<forall>xs\<in>set xss. length xs = n" "r < length xss"
  shows "take n (drop (r * n) (concat xss)) = xss ! r"
  using assms
proof (induction xss arbitrary: r)
  case (Cons xs xss)
  then show ?case by (cases r) (auto simp: drop_append)
qed simp

lemma length_concat_uniform: "\<forall>x\<in>set xs. length (f x) = m \<Longrightarrow> length (concat (map f xs)) = length xs * m"
  by (induction xs) auto

lemma replicate_concat_nth:
  "i < length temps * rpr \<Longrightarrow> concat (map (replicate rpr) temps) ! i = temps ! (i div rpr)"
proof (induction temps arbitrary: i)
  case (Cons t temps)
  show ?case
  proof (cases "i < rpr")
    case False
    then have "0 < rpr" "i - rpr < length temps * rpr" using Cons.prems by (cases "rpr = 0"; auto)+
    moreover have "i div rpr = Suc ((i - rpr) div rpr)" using False calculation(1) by (simp add: le_div_geq)
    ultimately show ?thesis using Cons.IH False by (simp add: nth_append)
  qed (simp add: nth_append)
qed simp

lemma length_replicate_concat: "length (concat (map (replicate rpr) temps)) = length temps * rpr"
  by (induction temps) simp_all

section \<open>Machine integers\<close>

definition i64 :: "int \<Rightarrow> int" where "i64 x = signed_take_bit 63 x"

definition i32 :: "int \<Rightarrow> int" where "i32 x = signed_take_bit 31 x"

lemma i64_id: "0 \<le> x \<Longrightarrow> x < 2 ^ 63 \<Longrightarrow> i64 x = x"
  unfolding i64_def by (simp add: signed_take_bit_int_eq_self)

lemma i32_id: "0 \<le> x \<Longrightarrow> x < 2 ^ 31 \<Longrightarrow> i32 x = x"
  unfolding i32_def by (simp add: signed_take_bit_int_eq_self)

lemma i32_small: "- 1 \<le> x \<Longrightarrow> x < 2 ^ 31 \<Longrightarrow> i32 x = x"
  unfolding i32_def by (simp add: signed_take_bit_int_eq_self)

lemma i32_idem [simp]: "i32 (i32 x) = i32 x"
  by (simp add: i32_def)

lemma i64_small: "- (2 ^ 63) \<le> x \<Longrightarrow> x < 2 ^ 63 \<Longrightarrow> i64 x = x"
  unfolding i64_def by (simp add: signed_take_bit_int_eq_self)

lemma i32_range: "- (2 ^ 31) \<le> i32 x" "i32 x < 2 ^ 31"
  using signed_take_bit_int_greater_eq_minus_exp[of 31 x] signed_take_bit_int_less_exp[of 31 x]
  by (simp_all add: i32_def)

datatype int_ty = Int32 | Int64

definition wrap :: "int_ty \<Rightarrow> int \<Rightarrow> int" where
  "wrap ty x = (case ty of Int32 \<Rightarrow> i32 x | Int64 \<Rightarrow> i64 x)"

definition in_ty :: "int_ty \<Rightarrow> int \<Rightarrow> bool" where
  "in_ty ty x \<longleftrightarrow> wrap ty x = x"

lemma wrap_small: "- (2 ^ 31) \<le> x \<Longrightarrow> x < 2 ^ 31 \<Longrightarrow> wrap ty x = x"
  by (cases ty) (simp_all add: wrap_def i32_def i64_def signed_take_bit_int_eq_self)

section \<open>Tiled loops\<close>

text \<open>\<open>for v0 in range(0, n, B)\<close> with lanes \<open>v0 + arange(0, B)\<close> masked by \<open>offs < n\<close>.\<close>

definition tile :: "nat \<Rightarrow> nat \<Rightarrow> nat \<Rightarrow> nat list" where
  "tile n b k = filter (\<lambda>i. i < n) [k * b ..< k * b + b]"

lemma upt_split: "i \<le> j \<Longrightarrow> j \<le> k \<Longrightarrow> [i..<k] = [i..<j] @ [j..<k]"
  by (metis le_Suc_ex upt_add_eq_append)

lemma tile_upto: "0 < b \<Longrightarrow> concat (map (tile n b) [0..<k]) = [0..<min n (k * b)]"
proof (induction k)
  case (Suc k)
  have "tile n b k = [min n (k * b) ..< min n (Suc k * b)]"
  proof (cases "k * b \<le> n")
    case True
    have "[k * b ..< k * b + b] = [k * b ..< min n (k * b + b)] @ [min n (k * b + b) ..< k * b + b]"
      using True by (intro upt_split) auto
    moreover have "filter (\<lambda>i. i < n) [k * b ..< min n (k * b + b)] = [k * b ..< min n (k * b + b)]"
      by (simp add: filter_id_conv)
    moreover have "filter (\<lambda>i. i < n) [min n (k * b + b) ..< k * b + b] = []"
      by (simp add: filter_empty_conv) auto
    ultimately show ?thesis using True by (simp add: tile_def add.commute)
  next
    case False
    then show ?thesis by (simp add: tile_def filter_empty_conv)
  qed
  moreover have "min n (k * b) \<le> min n (Suc k * b)" by (intro min.mono) simp_all
  then have "[0..<min n (k * b)] @ [min n (k * b) ..< min n (Suc k * b)] = [0..<min n (Suc k * b)]"
    using upt_split[of 0 "min n (k * b)" "min n (Suc k * b)"] by simp
  ultimately show ?case using Suc by simp
qed simp

lemma tiles_cover: "0 < b \<Longrightarrow> concat (map (tile n b) [0..<cdiv n b]) = [0..<n]"
proof -
  assume b: "0 < b"
  have "n \<le> cdiv n b * b"
    unfolding cdiv_def using dividend_less_div_times[OF b, of "n + b - 1"] by simp
  then show ?thesis using tile_upto[OF b, of n "cdiv n b"] by simp
qed

section \<open>Arithmetic helpers\<close>

lemma div_mult_le_self: "0 < (b::int) \<Longrightarrow> a div b * b \<le> a"
  by (metis div_mult_mod_eq le_add_same_cancel1 pos_mod_sign)

lemma div_mult_gt: "0 < (b::int) \<Longrightarrow> a - b < a div b * b"
  by (metis diff_less_eq div_mult_mod_eq add_le_imp_le_left not_less pos_mod_bound)

text \<open>Python's \<open>-(-a // b)\<close> rounds up.\<close>

lemma neg_div_neg_ge: "0 < (b::int) \<Longrightarrow> a \<le> - ((- a) div b) * b"
  using div_mult_le_self[of b "- a"] by simp

lemma neg_div_neg_lt: "0 < (b::int) \<Longrightarrow> - ((- a) div b) * b < a + b"
  using div_mult_gt[of b "- a"] by simp

text \<open>\<open>int.bit_length()\<close> of a non-negative Python integer.\<close>

function bit_length :: "int \<Rightarrow> nat" where
  "bit_length n = (if n \<le> 0 then 0 else Suc (bit_length (n div 2)))"
  by pat_completeness auto
termination
  by (relation "measure nat") auto

declare bit_length.simps [simp del]

lemma bit_length_nonpos [simp]: "n \<le> 0 \<Longrightarrow> bit_length n = 0"
  by (subst bit_length.simps) simp

lemma bit_length_upper: "0 \<le> n \<Longrightarrow> n < 2 ^ bit_length n"
proof (induction n rule: bit_length.induct)
  case (1 n)
  show ?case
  proof (cases "n \<le> 0")
    case False
    then have "n div 2 < 2 ^ bit_length (n div 2)" using 1 by simp
    then have "n < 2 * 2 ^ bit_length (n div 2)" by linarith
    then show ?thesis using False by (simp add: bit_length.simps[of n])
  qed (use 1 in \<open>simp add: bit_length.simps[of n]\<close>)
qed

lemma bit_length_lower: "0 < n \<Longrightarrow> 2 ^ (bit_length n - 1) \<le> n"
proof (induction n rule: bit_length.induct)
  case (1 n)
  show ?case
  proof (cases "n div 2 \<le> 0")
    case True
    then show ?thesis using 1(2) by (simp add: bit_length.simps[of n])
  next
    case False
    then have "2 ^ (bit_length (n div 2) - 1) \<le> n div 2" using 1 by simp
    then have "2 * 2 ^ (bit_length (n div 2) - 1) \<le> n" by linarith
    moreover have "0 < bit_length (n div 2)" using False by (simp add: bit_length.simps[of "n div 2"])
    ultimately show ?thesis using 1(2)
      by (simp add: bit_length.simps[of n] flip: power_Suc)
  qed
qed

lemma bit_length_le_iff: "0 \<le> n \<Longrightarrow> n < 2 ^ k \<longleftrightarrow> bit_length n \<le> k"
proof -
  assume n: "0 \<le> n"
  have "n < 2 ^ k" if "bit_length n \<le> k"
    using bit_length_upper[OF n] power_increasing[OF that, of "2::int"] by linarith
  moreover have "bit_length n \<le> k" if "n < 2 ^ k"
  proof (rule ccontr)
    assume "\<not> bit_length n \<le> k"
    then have k: "k \<le> bit_length n - 1" and pos: "0 < n"
      using n by (auto simp: bit_length.simps[of n] split: if_splits)
    have "(2::int) ^ k \<le> 2 ^ (bit_length n - 1)" by (rule power_increasing[OF k]) simp
    then show False using bit_length_lower[OF pos] that by linarith
  qed
  ultimately show ?thesis by blast
qed

text \<open>\<open>str.lower()\<close> on the ASCII letters.\<close>

definition py_lower :: "string \<Rightarrow> string" where
  "py_lower s = map (\<lambda>c. let k = (of_char c :: nat) in
       if 65 \<le> k \<and> k \<le> 90 then char_of (k + 32) else c) s"

end
