(* ===== verification/KVLayout.thy ===== *)
theory KVLayout
  imports Prelude
begin

text \<open>
  The paged KV cache layouts of the DeepSeek-V4 sparse attention pools:
  \<open>sglang-overlay/kv_layout.py\<close> (the layout table, the page geometry and the admitted
  layout pairs) and the layout decisions at the top of
  \<open>sglang-overlay/deepseek_v4_memory_pool.py\<close> (ring sizes, layout selection and
  resolution, the geometry of one single-layer pool).  Environment variables, GPU
  facts and the answer of the FlashMLA probe are arguments.
\<close>

section \<open>The layout table\<close>

datatype kv_layout = V4 | V41 | V41_FP4

definition data_bytes :: "kv_layout \<Rightarrow> int" where
  "data_bytes l = (case l of V4 \<Rightarrow> 576 | V41 \<Rightarrow> 512 | V41_FP4 \<Rightarrow> 256)"

definition scale_bytes :: "kv_layout \<Rightarrow> int" where
  "scale_bytes l = (case l of V4 \<Rightarrow> 8 | V41 \<Rightarrow> 16 | V41_FP4 \<Rightarrow> 32)"

definition tile_size :: "kv_layout \<Rightarrow> int" where
  "tile_size l = (case l of V4 \<Rightarrow> 64 | V41 \<Rightarrow> 32 | V41_FP4 \<Rightarrow> 16)"

definition bytes_per_token :: "kv_layout \<Rightarrow> int" where
  "bytes_per_token l = data_bytes l + scale_bytes l"

definition page_align :: "kv_layout \<Rightarrow> int" where
  "page_align l = (case l of V4 \<Rightarrow> 576 | V41 \<Rightarrow> 512 | V41_FP4 \<Rightarrow> 256)"

definition page_bytes :: "kv_layout \<Rightarrow> int \<Rightarrow> int" where
  "page_bytes l page_size =
     (let raw = page_size * bytes_per_token l
      in - ((- raw) div page_align l) * page_align l)"

definition scale_offset :: "kv_layout \<Rightarrow> int \<Rightarrow> int" where
  "scale_offset l page_size = page_size * data_bytes l"

lemmas layout_defs = data_bytes_def scale_bytes_def tile_size_def bytes_per_token_def
  page_align_def

lemma layout_pos [simp]:
  "0 < data_bytes l" "0 < scale_bytes l" "0 < page_align l" "0 < bytes_per_token l"
  by (cases l; simp add: layout_defs)+

datatype layout_arg = LayoutStr string | LayoutVal kv_layout

definition parse_layout :: "layout_arg \<Rightarrow> kv_layout res" where
  "parse_layout v = (case v of
      LayoutVal l \<Rightarrow> Inr l
    | LayoutStr s \<Rightarrow>
        (let t = py_lower s in
         if t = ''v4'' then Inr V4
         else if t = ''v41'' then Inr V41
         else if t = ''v41_fp4'' then Inr V41_FP4
         else Inl ValueError))"

definition layout_value :: "kv_layout \<Rightarrow> string" where
  "layout_value l = (case l of V4 \<Rightarrow> ''v4'' | V41 \<Rightarrow> ''v41'' | V41_FP4 \<Rightarrow> ''v41_fp4'')"

definition is_valid_kv_layout_pair :: "kv_layout \<Rightarrow> kv_layout \<Rightarrow> bool" where
  "is_valid_kv_layout_pair kv extra_kv \<longleftrightarrow>
     extra_kv = kv \<or> (kv = V41 \<and> extra_kv = V41_FP4)"

definition is_valid_fork_kv_layout_pair :: "kv_layout \<Rightarrow> kv_layout \<Rightarrow> bool" where
  "is_valid_fork_kv_layout_pair kv extra_kv \<longleftrightarrow>
     is_valid_kv_layout_pair kv extra_kv \<or> (kv = V4 \<and> extra_kv = V41_FP4)"

section \<open>Indexer bytes and compress-state rings\<close>

definition get_dsv4_indexer_bytes_per_token :: "int \<Rightarrow> bool \<Rightarrow> int" where
  "get_dsv4_indexer_bytes_per_token index_head_dim use_fp4_indexer =
     (if use_fp4_indexer then index_head_dim div 2 + index_head_dim div 32
      else index_head_dim + index_head_dim div 128 * 4)"

text \<open>\<open>online\<close> is \<open>ONLINE_C128\<close>, \<open>mtp\<close> the flag \<open>SGLANG_EXPERIMENTAL_ONLINE_C128_MTP\<close>.\<close>

definition get_compress_state_ring_size ::
    "bool \<Rightarrow> bool \<Rightarrow> int \<Rightarrow> bool \<Rightarrow> int \<Rightarrow> int res" where
  "get_compress_state_ring_size online mtp compress_ratio is_speculative num_draft_tokens =
     ensure (compress_ratio \<in> {2, 4, 128}) AssertionError
      (if compress_ratio = 2 then
         (if \<not> is_speculative then Inr 2
          else Inr (2 ^ bit_length (num_draft_tokens + 1)))
       else if compress_ratio = 128 \<and> online then
         (if is_speculative \<and> \<not> mtp then Inl AssertionError else Inr 1)
       else if is_speculative then
         Inr (if compress_ratio = 4 then 16 else 256)
       else Inr (if compress_ratio = 4 then 8 else 128))"

definition get_compress_state_write_pad :: "int \<Rightarrow> int \<Rightarrow> int" where
  "get_compress_state_write_pad compress_ratio ring_size =
     (let window_size = compress_ratio * (if compress_ratio = 4 then 2 else 1)
      in if ring_size > window_size then ring_size - window_size + 2 else 0)"

section \<open>Layout selection and resolution\<close>

definition resolve_compressed_kv_layout ::
    "kv_layout \<Rightarrow> int \<Rightarrow> string option \<Rightarrow> kv_layout res" where
  "resolve_compressed_kv_layout kv compress_ratio opt =
     (let low = map_option py_lower opt in
      ensure (low \<in> {None, Some ''auto'', Some ''fp8'', Some ''fp4''}) AssertionError
       (let choice = (if low = Some ''auto'' then None else low) in
        if kv = V4 then
          (if choice = Some ''fp4'' then
             Inr (if compress_ratio \<in> {1, 2} then V41_FP4 else V4)
           else ensure (choice = None) AssertionError (Inr V4))
        else ensure (kv = V41) AssertionError
          (if choice = Some ''fp8'' then Inr V41
           else if choice = Some ''fp4'' then Inr V41_FP4
           else Inr (if compress_ratio \<in> {1, 2} then V41_FP4 else V41))))"

text \<open>
  \<open>sm100\<close>: CUDA is available, torch is a CUDA build and the device's major
  capability is 10.  \<open>supported\<close>: the answer of \<open>flashmla_supports_v41_kv_layouts\<close>.
\<close>

definition select_dsv4_kv_layout ::
    "string \<Rightarrow> string \<Rightarrow> bool \<Rightarrow> bool \<Rightarrow> (kv_layout \<times> string option) res" where
  "select_dsv4_kv_layout env_mode env_option sm100 supported =
     (let mode = py_lower env_mode; opt = py_lower env_option in
      if mode = ''fork-v4-fp4'' then Inr (V4, Some ''fp4'')
      else if mode = ''v4'' then Inr (V4, if opt = ''auto'' then None else Some opt)
      else ensure (mode = ''v41'' \<or> mode = ''auto'') AssertionError
       (if mode = ''auto'' then
          Inr (if sm100 \<and> supported then (V41, Some opt) else (V4, None))
        else ensure sm100 AssertionError (Inr (V41, Some opt))))"

section \<open>One single-layer pool\<close>

definition pool_num_pages :: "int \<Rightarrow> int \<Rightarrow> int" where
  "pool_num_pages sz page_size = (sz + page_size + 1) div page_size"

text \<open>\<open>rope_itemsize\<close> is 2 (bfloat16), \<open>scale_pad\<close> is 1 in the constructor.\<close>

definition get_bytes_per_token :: "kv_layout \<Rightarrow> int \<Rightarrow> int \<Rightarrow> int res" where
  "get_bytes_per_token l qk_nope qk_rope =
     (if l \<noteq> V4 then ensure (qk_nope + qk_rope = 512) AssertionError (Inr (bytes_per_token l))
      else Inr (qk_nope + qk_rope * 2 + qk_nope div tile_size l + 1))"

text \<open>
  The shape \<open>(num_pages, bytes_per_page_padded)\<close> of the buffer.  The second assertion
  of the source compares with the external \<open>ceil_div\<close>, an argument here.
\<close>

definition create_buffer ::
    "(int \<Rightarrow> int \<Rightarrow> int) \<Rightarrow> kv_layout \<Rightarrow> int \<Rightarrow> int \<Rightarrow> int \<Rightarrow> int \<Rightarrow> (int \<times> int) res" where
  "create_buffer ceil_div l qk_nope qk_rope page_size num_pages =
     res_bind (get_bytes_per_token l qk_nope qk_rope) (\<lambda>bpt.
       let padded = page_bytes l page_size in
       ensure (l = V4 \<longrightarrow> bpt = 448 + 64 * 2 + 8) AssertionError
        (ensure (l = V4 \<longrightarrow> padded = ceil_div (page_size * bpt) 576 * 576) AssertionError
          (Inr (num_pages, padded))))"

section \<open>Page geometry\<close>

lemma page_bytes_ge: "page_size * bytes_per_token l \<le> page_bytes l page_size"
  unfolding page_bytes_def Let_def by (rule neg_div_neg_ge) simp

lemma page_bytes_lt: "page_bytes l page_size < page_size * bytes_per_token l + page_align l"
  unfolding page_bytes_def Let_def by (rule neg_div_neg_lt) simp

lemma page_bytes_dvd: "page_align l dvd page_bytes l page_size"
  by (simp add: page_bytes_def Let_def)

text \<open>The page stride is the least multiple of the reader's TMA row stride that holds
  \<open>page_size\<close> data rows followed by \<open>page_size\<close> scale rows.\<close>

theorem page_bytes_least:
  "page_align l dvd page_bytes l page_size
   \<and> scale_offset l page_size + page_size * scale_bytes l \<le> page_bytes l page_size
   \<and> (\<forall>m. page_align l dvd m \<longrightarrow> scale_offset l page_size + page_size * scale_bytes l \<le> m
          \<longrightarrow> page_bytes l page_size \<le> m)"
proof (intro conjI allI impI)
  show "page_align l dvd page_bytes l page_size" by (rule page_bytes_dvd)
  have raw: "scale_offset l page_size + page_size * scale_bytes l = page_size * bytes_per_token l"
    by (simp add: scale_offset_def bytes_per_token_def algebra_simps)
  show "scale_offset l page_size + page_size * scale_bytes l \<le> page_bytes l page_size"
    unfolding raw by (rule page_bytes_ge)
  fix m assume dvd: "page_align l dvd m"
    and ge: "scale_offset l page_size + page_size * scale_bytes l \<le> m"
  have "page_bytes l page_size - m < page_align l"
    using page_bytes_lt[where l = l and page_size = page_size] ge raw by linarith
  moreover have "page_align l dvd page_bytes l page_size - m"
    using page_bytes_dvd dvd by (rule dvd_diff)
  ultimately show "page_bytes l page_size \<le> m"
    by (metis diff_gt_0_iff_gt not_le zdvd_not_zless)
qed

theorem page_bytes_least_witness:
  "page_bytes V41_FP4 64 = 18432 \<and> page_bytes V41_FP4 64 \<le> 18432"
  using page_bytes_least[of V41_FP4 64]
  by (simp add: page_bytes_def scale_offset_def layout_defs)

lemma pool_covers_slots:
  "0 < page_size \<Longrightarrow> 0 \<le> loc \<Longrightarrow> loc \<le> sz + 1 \<Longrightarrow> loc div page_size < pool_num_pages sz page_size"
proof -
  assume ps: "0 < page_size" and "0 \<le> loc" and le: "loc \<le> sz + 1"
  have "loc div page_size < (loc + page_size) div page_size"
    using ps div_add_self2[of page_size loc] by simp
  also have "\<dots> \<le> pool_num_pages sz page_size"
    unfolding pool_num_pages_def using ps le by (intro zdiv_mono1) auto
  finally show ?thesis .
qed

text \<open>A V4 pool passes both buffer assertions exactly for the 448 + 64 head split with an
  external \<open>ceil_div\<close> that rounds up, and the pages it allocates hold every slot
  \<open>0 .. size + 1\<close> (the tokens, and the dummy slots behind them).\<close>

theorem create_buffer_v4:
  assumes "\<And>a. ceil_div a 576 = - ((- a) div 576)" and "0 < page_size"
  shows "create_buffer ceil_div V4 448 64 page_size (pool_num_pages sz page_size)
           = Inr (pool_num_pages sz page_size, page_bytes V4 page_size)
         \<and> (\<forall>loc. 0 \<le> loc \<and> loc \<le> sz + 1 \<longrightarrow> loc div page_size < pool_num_pages sz page_size)"
  using assms pool_covers_slots
  by (simp add: create_buffer_def get_bytes_per_token_def page_bytes_def layout_defs Let_def)

theorem create_buffer_v4_witness:
  "create_buffer (\<lambda>a b. - ((- a) div b)) V4 448 64 256 (pool_num_pages 1000 256)
     = Inr (4, 149760)"
  using create_buffer_v4[of "\<lambda>a b. - ((- a) div b)" 256 1000]
  by (simp add: pool_num_pages_def page_bytes_def layout_defs Let_def)

section \<open>Layout pairs\<close>

text \<open>Whatever the environment selects, a compressed-cache layout that resolves forms a
  pair the fork's decode readers accept with the main-cache layout; and resolution fails
  exactly for an option outside auto/fp8/fp4 or for \<open>fp8\<close> beside the V4 main cache.\<close>

theorem selected_layouts_pair:
  assumes "select_dsv4_kv_layout env_mode env_option sm100 supported = Inr (kv, opt)"
  shows "(\<forall>ex. resolve_compressed_kv_layout kv ratio opt = Inr ex \<longrightarrow>
             is_valid_fork_kv_layout_pair kv ex)
       \<and> (resolve_compressed_kv_layout kv ratio opt = Inl AssertionError \<longleftrightarrow>
             map_option py_lower opt \<notin> {None, Some ''auto'', Some ''fp8'', Some ''fp4''}
             \<or> (kv = V4 \<and> map_option py_lower opt = Some ''fp8''))"
  using assms
  by (auto simp: select_dsv4_kv_layout_def resolve_compressed_kv_layout_def Let_def
        is_valid_fork_kv_layout_pair_def is_valid_kv_layout_pair_def res_simps
      split: if_splits)

theorem selected_layouts_pair_witness:
  "select_dsv4_kv_layout ''fork-v4-fp4'' ''auto'' False False = Inr (V4, Some ''fp4'')
   \<and> resolve_compressed_kv_layout V4 1 (Some ''fp4'') = Inr V41_FP4
   \<and> is_valid_fork_kv_layout_pair V4 V41_FP4"
proof -
  have sel: "select_dsv4_kv_layout ''fork-v4-fp4'' ''auto'' False False = Inr (V4, Some ''fp4'')"
    by code_simp
  moreover have res: "resolve_compressed_kv_layout V4 1 (Some ''fp4'') = Inr V41_FP4"
    by code_simp
  ultimately show ?thesis using selected_layouts_pair[OF sel, of 1] by blast
qed

section \<open>Compress-state rings\<close>

text \<open>The speculative ratio-2 ring is the smallest power of two that is at least
  two more than the draft window, it serves the draft window, and positions closer than
  the window never share a slot.\<close>

theorem ring2_serves_drafts:
  assumes "0 \<le> d" and "get_compress_state_ring_size online mtp 2 True d = Inr ring"
  shows "(\<exists>k. ring = 2 ^ k \<and> d + 2 \<le> ring \<and> (\<forall>j. d + 2 \<le> (2::int) ^ j \<longrightarrow> ring \<le> 2 ^ j))
       \<and> d \<le> get_compress_state_write_pad 2 ring
       \<and> (\<forall>p q. p < q \<longrightarrow> q \<le> p + d + 1 \<longrightarrow> p mod ring \<noteq> q mod ring)"
proof -
  have ring: "ring = 2 ^ bit_length (d + 1)"
    using assms(2) by (simp add: get_compress_state_ring_size_def)
  have ge: "d + 2 \<le> ring" using bit_length_upper[of "d + 1"] assms(1) ring by simp
  have least: "ring \<le> 2 ^ j" if "d + 2 \<le> 2 ^ j" for j
    using bit_length_le_iff[of "d + 1" j] that assms(1) ring by (simp add: power_increasing)
  have distinct: "p mod ring \<noteq> q mod ring" if "p < q" "q \<le> p + d + 1" for p q
  proof
    assume "p mod ring = q mod ring"
    then have "ring dvd q - p" by (metis mod_eq_dvd_iff)
    then show False using that ge assms(1) zdvd_not_zless[of "q - p" ring] by linarith
  qed
  show ?thesis using ring ge least distinct assms(1)
    by (auto simp: get_compress_state_write_pad_def Let_def)
qed

theorem ring2_serves_drafts_witness:
  "get_compress_state_ring_size False False 2 True 3 = Inr 8 \<and> 3 \<le> get_compress_state_write_pad 2 8"
proof -
  have r: "get_compress_state_ring_size False False 2 True 3 = Inr 8"
    by (simp add: get_compress_state_ring_size_def bit_length.simps)
  show ?thesis using ring2_serves_drafts[OF _ r] r by simp
qed

end
