(* ===== verification/EngramHash.thy ===== *)
theory EngramHash
  imports Prelude
begin

unbundle bit_operations_syntax

text \<open>
  The n-gram hash of the engram: the Triton kernel of \<open>sglang-overlay/engram_hash.py\<close>
  (\<open>_engram_hash_kernel\<close>, one lane per token) and the torch path of
  \<open>sglang-overlay/engram.py\<close> (\<open>compute_engram_hash_ids\<close>, \<open>_torch_hash_ids\<close>) that it must
  reproduce bit for bit.  Integers carry their width where the two paths could part:
  products wrap to int64, the kernel's row starts and positions to int32, the kernel's
  remainder truncates while torch's floors, and the kernel's loads are unchecked while
  torch's indexing raises.
\<close>

section \<open>Machine arithmetic\<close>

text \<open>Remainder truncated towards zero: Triton's \<open>%\<close> on int64.\<close>

definition trunc_rem :: "int \<Rightarrow> int \<Rightarrow> int" where
  "trunc_rem a b = sgn a * (\<bar>a\<bar> mod \<bar>b\<bar>)"

lemma trunc_rem_nonneg [simp]: "0 \<le> a \<Longrightarrow> 0 < b \<Longrightarrow> trunc_rem a b = a mod b"
  by (cases "a = 0") (auto simp: trunc_rem_def)

definition xor_sum :: "int list \<Rightarrow> int" where
  "xor_sum xs = fold (XOR) xs 0"

lemma fold_xor_nonneg: "\<forall>x\<in>set xs. 0 \<le> x \<Longrightarrow> 0 \<le> a \<Longrightarrow> 0 \<le> fold (XOR) xs (a::int)"
  by (induction xs arbitrary: a) auto

lemma fold_xor_acc: "fold (XOR) xs (a::int) = a XOR fold (XOR) xs 0"
proof (induction xs arbitrary: a)
  case (Cons x xs)
  show ?case using Cons[of "x XOR a"] Cons[of "x"] by (simp add: ac_simps)
qed simp

lemma fold_xor_zeros: "\<forall>x\<in>set xs. x = 0 \<Longrightarrow> fold (XOR) xs (a::int) = a"
  by (induction xs arbitrary: a) auto

section \<open>The tables and a batch\<close>

record engram_cfg =
  ngram :: nat
  heads :: nat
  pad_id :: int
  token_map :: "int list"
  multipliers :: "int list list"
  primes :: "int list list list"
  offsets :: "int list list"
  image_token_id :: "int option"
  mm_pad_shift :: int

datatype kmode = MODE_DECODE | MODE_VERIFY | MODE_EXTEND

record hash_batch =
  input_ids :: "int list"
  positions :: "int list"
  kmode_of :: kmode
  num_real :: nat
  block :: nat
  row_of :: "int list"
  starts_of :: "int list"

abbreviation num_tokens :: "hash_batch \<Rightarrow> nat" where
  "num_tokens b \<equiv> length (input_ids b)"

section \<open>The Triton kernel\<close>

text \<open>Request row and offset inside its run, for the lane of token \<open>t\<close>.\<close>

definition k_row :: "hash_batch \<Rightarrow> nat \<Rightarrow> int" where
  "k_row b t = (case kmode_of b of
      MODE_DECODE \<Rightarrow> int t
    | MODE_VERIFY \<Rightarrow> int (t div block b)
    | MODE_EXTEND \<Rightarrow> tl_load_mask (row_of b) (int t) (t < num_real b) 0)"

definition k_off :: "hash_batch \<Rightarrow> nat \<Rightarrow> int" where
  "k_off b t = (case kmode_of b of
      MODE_DECODE \<Rightarrow> 0
    | MODE_VERIFY \<Rightarrow> int t - int (t div block b) * int (block b)
    | MODE_EXTEND \<Rightarrow>
        int t - i32 (tl_load_mask (starts_of b) (k_row b t) (t < num_real b) 0))"

definition k_hrow :: "int list option \<Rightarrow> hash_batch \<Rightarrow> nat \<Rightarrow> int" where
  "k_hrow slots b t = (case slots of
      None \<Rightarrow> k_row b t
    | Some sl \<Rightarrow> tl_load_mask sl (k_row b t) (t < num_real b) 0)"

text \<open>The predecessor at shift \<open>s\<close>, and whether it is blocked by itself.\<close>

definition k_tok ::
    "engram_cfg \<Rightarrow> int list list \<Rightarrow> int list option \<Rightarrow> hash_batch \<Rightarrow> nat \<Rightarrow> nat \<Rightarrow> int" where
  "k_tok cfg hist slots b t s =
     (let n = int (ngram cfg); off = k_off b t;
          from_batch = tl_load (input_ids b) (max (int t - int s) 0);
          hcol = min (max (n - 2 - (int s - off - 1)) 0) (n - 2);
          from_hist = tl_load (tl_load hist (k_hrow slots b t)) hcol;
          tok = (if int s \<le> off then from_batch else from_hist);
          tok' = (if t < num_real b then tok else 0)
      in case image_token_id cfg of
           None \<Rightarrow> tok'
         | Some img \<Rightarrow> (if tok' \<ge> mm_pad_shift cfg then img else tok'))"

definition k_blk ::
    "engram_cfg \<Rightarrow> int list list \<Rightarrow> int list option \<Rightarrow> hash_batch \<Rightarrow> nat \<Rightarrow> nat \<Rightarrow> bool" where
  "k_blk cfg hist slots b t s =
     (let own = i32 (tl_load (positions b) (int t)) < int s \<or> \<not> t < num_real b
      in case image_token_id cfg of
           None \<Rightarrow> own
         | Some img \<Rightarrow> own \<or> k_tok cfg hist slots b t s = img)"

definition k_blocked ::
    "engram_cfg \<Rightarrow> int list list \<Rightarrow> int list option \<Rightarrow> hash_batch \<Rightarrow> nat \<Rightarrow> bool list" where
  "k_blocked cfg hist slots b t =
     map (\<lambda>x. 0 < x)
       (cumsum (map (\<lambda>s. of_bool (k_blk cfg hist slots b t s)) [0..<ngram cfg]))"

definition k_comp ::
    "engram_cfg \<Rightarrow> int list list \<Rightarrow> int list option \<Rightarrow> hash_batch \<Rightarrow> nat \<Rightarrow> nat \<Rightarrow> int" where
  "k_comp cfg hist slots b t s =
     (if k_blocked cfg hist slots b t ! s then pad_id cfg
      else tl_load (token_map cfg) (k_tok cfg hist slots b t s))"

text \<open>
  \<open>prod = comp * mult\<close>, the (i + 1)-gram XOR over the shifts up to \<open>i\<close>, bucketed by the
  primes of that n-gram size: column \<open>(i - 1) * H + h\<close> of layer \<open>l\<close>.
\<close>

definition k_layer :: "engram_cfg \<Rightarrow> (nat \<Rightarrow> int) \<Rightarrow> nat \<Rightarrow> int list" where
  "k_layer cfg cmp l =
     concat (map (\<lambda>i.
        let rolling = xor_sum (map (\<lambda>s. if s \<le> i
                then i64 (cmp s * (multipliers cfg ! l ! s)) else 0) [0..<ngram cfg])
        in map (\<lambda>h. trunc_rem rolling (primes cfg ! l ! (i - 1) ! h)
                    + offsets cfg ! l ! ((i - 1) * heads cfg + h)) [0..<heads cfg])
      [1..<ngram cfg])"

definition k_hash ::
    "engram_cfg \<Rightarrow> int list list \<Rightarrow> int list option \<Rightarrow> hash_batch \<Rightarrow> nat \<Rightarrow> int list list" where
  "k_hash cfg hist slots b t =
     map (k_layer cfg (k_comp cfg hist slots b t)) [0..<length (multipliers cfg)]"

text \<open>The launch without commit: hash ids and the predecessor table (stored as int32).\<close>

definition engram_hash_ids ::
    "engram_cfg \<Rightarrow> int list list \<Rightarrow> int list option \<Rightarrow> hash_batch
       \<Rightarrow> int list list list \<times> int list list" where
  "engram_hash_ids cfg hist slots b =
     (map (k_hash cfg hist slots b) [0..<num_tokens b],
      map (\<lambda>t. map (\<lambda>s. i32 (k_tok cfg hist slots b t s)) [0..<ngram cfg]) [0..<num_tokens b])"

section \<open>The torch path\<close>

definition torch_layer :: "engram_cfg \<Rightarrow> int list \<Rightarrow> nat \<Rightarrow> int list" where
  "torch_layer cfg compressed l =
     (let products = map2 (\<lambda>c m. i64 (c * m)) compressed (multipliers cfg ! l);
          step = (\<lambda>i (rolling, hashes).
            let rolling' = rolling XOR products ! i
            in (rolling', hashes @ [map (\<lambda>p. rolling' mod p) (primes cfg ! l ! (i - 1))]))
      in map2 (+) (concat (snd (fold step [1..<length compressed] (products ! 0, []))))
           (offsets cfg ! l))"

definition compute_engram_hash_ids ::
    "engram_cfg \<Rightarrow> int list list \<Rightarrow> bool list list \<Rightarrow> int list list list res" where
  "compute_engram_hash_ids cfg tokens blocked =
     res_list (\<lambda>(toks, blks).
        res_map (\<lambda>mapped.
            let compressed = map2 (\<lambda>b m. if b then pad_id cfg else m) blks mapped
            in map (torch_layer cfg compressed) [0..<length (multipliers cfg)])
          (res_list (py_get (token_map cfg)) toks))
       (zip tokens blocked)"

text \<open>Row and offset of a token of a verify or extend batch.\<close>

definition torch_row_off :: "hash_batch \<Rightarrow> nat \<Rightarrow> (int \<times> int) res" where
  "torch_row_off b t =
     (if kmode_of b = MODE_VERIFY then
        (let r = int (t div block b) in Inr (r, int t - r * int (block b)))
      else res_bind (py_get (row_of b) (int t)) (\<lambda>r.
           res_map (\<lambda>st. (r, int t - st)) (py_get (starts_of b) r)))"

text \<open>\<open>history\<close> is already the per-request rows of this batch.\<close>

definition torch_tokens :: "engram_cfg \<Rightarrow> int list list \<Rightarrow> hash_batch \<Rightarrow> int list list res" where
  "torch_tokens cfg history b =
     (let n = int (ngram cfg) in
      if kmode_of b = MODE_DECODE then
        ensure (length history = num_tokens b) RuntimeError
          (Inr (map2 (\<lambda>x h. x # rev h) (input_ids b) history))
      else res_map (\<lambda>toks. toks @ replicate (num_tokens b - num_real b) (replicate (ngram cfg) 0))
        (res_list (\<lambda>t.
           res_bind (torch_row_off b t) (\<lambda>(r, off).
           res_bind (py_get history r) (\<lambda>hrow.
           res_list (\<lambda>s.
             let hist_col = min (max (n - 2 - (int s - off - 1)) 0) (n - 2) in
             res_bind (py_get (input_ids b) (max (int t - int s) 0)) (\<lambda>in_batch.
             res_map (\<lambda>from_hist. if int s \<le> off then in_batch else from_hist)
               (py_get hrow hist_col))) [0..<ngram cfg])))
         [0..<num_real b]))"

definition torch_blocked :: "engram_cfg \<Rightarrow> int list list \<Rightarrow> hash_batch \<Rightarrow> bool list list" where
  "torch_blocked cfg tokens b =
     (let own = map (\<lambda>t. map (\<lambda>s. \<not> t < num_real b \<or> positions b ! t < int s) [0..<ngram cfg])
                  [0..<num_tokens b]
      in case image_token_id cfg of
           None \<Rightarrow> own
         | Some img \<Rightarrow>
             map2 (\<lambda>blks toks. map (\<lambda>x. x \<noteq> 0)
                 (cummax (map2 (\<lambda>k x. of_bool (k \<or> x = img)) blks toks))) own tokens)"

definition torch_hash_ids ::
    "engram_cfg \<Rightarrow> int list list \<Rightarrow> hash_batch \<Rightarrow> (int list list list \<times> int list list) res" where
  "torch_hash_ids cfg history b =
     res_bind (torch_tokens cfg history b) (\<lambda>tokens0.
       let tokens = (case image_token_id cfg of
             None \<Rightarrow> tokens0
           | Some img \<Rightarrow> map (map (\<lambda>x. if x \<ge> mm_pad_shift cfg then img else x)) tokens0)
       in res_map (\<lambda>ids. (ids, tokens))
            (compute_engram_hash_ids cfg tokens (torch_blocked cfg tokens b)))"

section \<open>Agreement of the predecessor tables\<close>

definition hash_batch_ok :: "hash_batch \<Rightarrow> bool" where
  "hash_batch_ok b \<longleftrightarrow>
     length (positions b) = num_tokens b \<and> num_real b \<le> num_tokens b
     \<and> (kmode_of b \<noteq> MODE_EXTEND \<longrightarrow> num_real b = num_tokens b)
     \<and> (\<forall>p\<in>set (positions b). 0 \<le> p \<and> p < 2 ^ 31)
     \<and> (\<forall>p\<in>set (starts_of b). 0 \<le> p \<and> p < 2 ^ 31)
     \<and> (\<forall>r\<in>set (row_of b). 0 \<le> r)"

definition gather_history :: "int list list \<Rightarrow> int list option \<Rightarrow> int list list res" where
  "gather_history hist slots =
     (case slots of None \<Rightarrow> Inr hist | Some sl \<Rightarrow> res_list (py_get hist) sl)"

lemma torch_row_off_eq:
  assumes "hash_batch_ok b" and "kmode_of b \<noteq> MODE_DECODE" and "t < num_real b"
    and "torch_row_off b t = Inr (r, off)"
  shows "k_row b t = r \<and> k_off b t = off \<and> 0 \<le> r"
proof (cases "kmode_of b = MODE_VERIFY")
  case True
  with assms(4) show ?thesis by (auto simp: torch_row_off_def k_row_def k_off_def Let_def)
next
  case False
  then have m: "kmode_of b = MODE_EXTEND" using assms(2) by (cases "kmode_of b") auto
  from assms(4) False obtain st where r: "py_get (row_of b) (int t) = Inr r"
    and st: "py_get (starts_of b) r = Inr st" and off: "off = int t - st"
    by (auto simp: torch_row_off_def res_simps)
  from r have rin: "t < length (row_of b)" "r = row_of b ! t" by (auto simp: py_get_Inr_nonneg)
  then have r0: "0 \<le> r" using assms(1) by (auto simp: hash_batch_ok_def)
  from st r0 have sin: "nat r < length (starts_of b)" "st = starts_of b ! nat r"
    by (auto simp: py_get_Inr_nonneg)
  then have "0 \<le> st \<and> st < 2 ^ 31" using assms(1) by (auto simp: hash_batch_ok_def)
  then have "i32 st = st" by (simp add: i32_id)
  then show ?thesis using m assms(3) off r0 rin sin
    by (simp add: k_row_def k_off_def tl_load_mask_def tl_load_def)
qed

lemma k_hrow_eq:
  assumes "gather_history hist slots = Inr hb" and "\<forall>x\<in>set (case_option [] id slots). 0 \<le> x"
    and "k_row b t = r" and "0 \<le> r" and "t < num_real b" and "py_get hb r = Inr h"
  shows "tl_load hist (k_hrow slots b t) = h"
proof (cases slots)
  case None
  then show ?thesis using assms by (simp add: gather_history_def k_hrow_def tl_load_py_get)
next
  case (Some sl)
  with assms(1) have hb: "length hb = length sl"
    "\<And>i. i < length sl \<Longrightarrow> py_get hist (sl ! i) = Inr (hb ! i)"
    by (auto simp: gather_history_def res_list_Inr)
  have rl: "nat r < length sl" "h = hb ! nat r"
    using assms(4,6) hb(1) by (auto simp: py_get_Inr_nonneg)
  then have "0 \<le> sl ! nat r" using assms(2) Some by simp
  then have "tl_load hist (sl ! nat r) = h" using hb(2)[OF rl(1)] rl(2) tl_load_py_get by metis
  then show ?thesis using Some assms(3-5) rl(1)
    by (simp add: k_hrow_def tl_load_mask_def tl_load_def)
qed

definition mask_image :: "engram_cfg \<Rightarrow> int \<Rightarrow> int" where
  "mask_image cfg x = (case image_token_id cfg of
      None \<Rightarrow> x | Some img \<Rightarrow> if x \<ge> mm_pad_shift cfg then img else x)"

definition k_tok_raw ::
    "engram_cfg \<Rightarrow> int list list \<Rightarrow> int list option \<Rightarrow> hash_batch \<Rightarrow> nat \<Rightarrow> nat \<Rightarrow> int" where
  "k_tok_raw cfg hist slots b t s =
     (if t < num_real b then
        (if int s \<le> k_off b t then tl_load (input_ids b) (max (int t - int s) 0)
         else tl_load (tl_load hist (k_hrow slots b t))
                (min (max (int (ngram cfg) - 2 - (int s - k_off b t - 1)) 0) (int (ngram cfg) - 2)))
      else 0)"

lemma k_tok_mask: "k_tok cfg hist slots b t s = mask_image cfg (k_tok_raw cfg hist slots b t s)"
  by (auto simp: k_tok_def k_tok_raw_def mask_image_def Let_def split: option.split)

lemma torch_tokens_decode:
  assumes "2 \<le> ngram cfg" "kmode_of b = MODE_DECODE" "hash_batch_ok b"
    and "gather_history hist slots = Inr hb" "\<forall>x\<in>set (case_option [] id slots). 0 \<le> x"
    and "torch_tokens cfg hb b = Inr toks" "\<forall>h\<in>set hb. length h = ngram cfg - 1"
  shows "length toks = num_tokens b
    \<and> (\<forall>t<num_tokens b. toks ! t = map (k_tok_raw cfg hist slots b t) [0..<ngram cfg])"
proof -
  from assms(2,6) have len: "length hb = num_tokens b"
    and toks: "toks = map2 (\<lambda>x h. x # rev h) (input_ids b) hb"
    by (auto simp: torch_tokens_def Let_def res_simps)
  have "toks ! t = map (k_tok_raw cfg hist slots b t) [0..<ngram cfg]" if t: "t < num_tokens b" for t
  proof -
    have real: "t < num_real b" using assms(2,3) t by (simp add: hash_batch_ok_def)
    have row: "k_row b t = int t" and off: "k_off b t = 0" using assms(2)
      by (simp_all add: k_row_def k_off_def)
    have h: "tl_load hist (k_hrow slots b t) = hb ! t"
      by (rule k_hrow_eq[OF assms(4,5) row]) (use real t len in \<open>auto simp: py_get_nonneg\<close>)
    have lh: "length (hb ! t) = ngram cfg - 1" using assms(7) t len by simp
    show ?thesis
    proof (rule nth_equalityI)
      show "length (toks ! t) = length (map (k_tok_raw cfg hist slots b t) [0..<ngram cfg])"
        using toks t len lh assms(1) by simp
      fix s assume "s < length (toks ! t)"
      then have s: "s < ngram cfg" using toks t len lh assms(1) by simp
      show "toks ! t ! s = map (k_tok_raw cfg hist slots b t) [0..<ngram cfg] ! s"
      proof (cases s)
        case 0
        then show ?thesis using toks t len s real off by (simp add: k_tok_raw_def tl_load_def)
      next
        case (Suc s')
        have "rev (hb ! t) ! s' = hb ! t ! (ngram cfg - 2 - s')"
          using s lh Suc assms(1) by (simp add: rev_nth numeral_2_eq_2)
        moreover have "tl_load (hb ! t) (int (ngram cfg - 2 - s')) = hb ! t ! (ngram cfg - 2 - s')"
          using lh s Suc assms(1) by (intro tl_load_in) simp
        moreover have "min (max (int (ngram cfg) - 2 - int s') 0) (int (ngram cfg) - 2)
            = int (ngram cfg - 2 - s')"
          using s Suc assms(1) by linarith
        ultimately show ?thesis using toks t len s real off h Suc
          by (simp add: k_tok_raw_def diff_diff_eq)
      qed
    qed
  qed
  then show ?thesis using toks len by simp
qed

lemma torch_tokens_rows:
  assumes "kmode_of b \<noteq> MODE_DECODE" and "torch_tokens cfg hb b = Inr toks"
  obtains rows where
    "toks = rows @ replicate (num_tokens b - num_real b) (replicate (ngram cfg) 0)"
    and "length rows = num_real b"
    and "\<And>t. t < num_real b \<Longrightarrow> \<exists>r off h. torch_row_off b t = Inr (r, off) \<and> py_get hb r = Inr h
       \<and> length (rows ! t) = ngram cfg
       \<and> (\<forall>s<ngram cfg. \<exists>x y. py_get (input_ids b) (max (int t - int s) 0) = Inr x
          \<and> py_get h (min (max (int (ngram cfg) - 2 - (int s - off - 1)) 0) (int (ngram cfg) - 2)) = Inr y
          \<and> rows ! t ! s = (if int s \<le> off then x else y))"
proof -
  from assms obtain rows where toks:
      "toks = rows @ replicate (num_tokens b - num_real b) (replicate (ngram cfg) 0)"
    and len: "length rows = num_real b"
    and rows: "\<And>t. t < num_real b \<Longrightarrow>
       res_bind (torch_row_off b t) (\<lambda>(r, off).
       res_bind (py_get hb r) (\<lambda>hrow.
         res_list (\<lambda>s.
             let hist_col = min (max (int (ngram cfg) - 2 - (int s - off - 1)) 0) (int (ngram cfg) - 2) in
             res_bind (py_get (input_ids b) (max (int t - int s) 0)) (\<lambda>in_batch.
             res_map (\<lambda>from_hist. if int s \<le> off then in_batch else from_hist)
               (py_get hrow hist_col))) [0..<ngram cfg])) = Inr (rows ! t)"
    by (auto simp: torch_tokens_def Let_def res_simps res_list_Inr)
  show thesis
  proof (rule that[OF toks len])
    fix t assume "t < num_real b"
    from rows[OF this] obtain r off h where ro: "torch_row_off b t = Inr (r, off)"
      and h: "py_get hb r = Inr h"
      and cols: "length (rows ! t) = ngram cfg"
        "\<And>s. s < ngram cfg \<Longrightarrow> \<exists>x y. py_get (input_ids b) (max (int t - int s) 0) = Inr x
          \<and> py_get h (min (max (int (ngram cfg) - 2 - (int s - off - 1)) 0) (int (ngram cfg) - 2)) = Inr y
          \<and> rows ! t ! s = (if int s \<le> off then x else y)"
      by (auto simp: res_simps res_list_Inr Let_def split: prod.splits)
    then show "\<exists>r off h. torch_row_off b t = Inr (r, off) \<and> py_get hb r = Inr h
       \<and> length (rows ! t) = ngram cfg
       \<and> (\<forall>s<ngram cfg. \<exists>x y. py_get (input_ids b) (max (int t - int s) 0) = Inr x
          \<and> py_get h (min (max (int (ngram cfg) - 2 - (int s - off - 1)) 0) (int (ngram cfg) - 2)) = Inr y
          \<and> rows ! t ! s = (if int s \<le> off then x else y))" by blast
  qed
qed

lemma torch_tokens_runs:
  assumes "kmode_of b \<noteq> MODE_DECODE" "hash_batch_ok b" "2 \<le> ngram cfg"
    and "gather_history hist slots = Inr hb" "\<forall>x\<in>set (case_option [] id slots). 0 \<le> x"
    and "torch_tokens cfg hb b = Inr toks"
  shows "length toks = num_tokens b
    \<and> (\<forall>t<num_tokens b. toks ! t = map (k_tok_raw cfg hist slots b t) [0..<ngram cfg])"
proof (rule torch_tokens_rows[OF assms(1,6)])
  fix rows
  assume toks: "toks = rows @ replicate (num_tokens b - num_real b) (replicate (ngram cfg) 0)"
    and len: "length rows = num_real b"
    and rows: "\<And>t. t < num_real b \<Longrightarrow> \<exists>r off h. torch_row_off b t = Inr (r, off) \<and> py_get hb r = Inr h
       \<and> length (rows ! t) = ngram cfg
       \<and> (\<forall>s<ngram cfg. \<exists>x y. py_get (input_ids b) (max (int t - int s) 0) = Inr x
          \<and> py_get h (min (max (int (ngram cfg) - 2 - (int s - off - 1)) 0) (int (ngram cfg) - 2)) = Inr y
          \<and> rows ! t ! s = (if int s \<le> off then x else y))"
  have real: "toks ! t = map (k_tok_raw cfg hist slots b t) [0..<ngram cfg]" if t: "t < num_real b" for t
  proof -
    from rows[OF t] obtain r off h where ro: "torch_row_off b t = Inr (r, off)"
      and h: "py_get hb r = Inr h" and cols: "length (rows ! t) = ngram cfg"
        "\<forall>s<ngram cfg. \<exists>x y. py_get (input_ids b) (max (int t - int s) 0) = Inr x
          \<and> py_get h (min (max (int (ngram cfg) - 2 - (int s - off - 1)) 0) (int (ngram cfg) - 2)) = Inr y
          \<and> rows ! t ! s = (if int s \<le> off then x else y)"
      by blast
    have k: "k_row b t = r" "k_off b t = off" "0 \<le> r"
      using torch_row_off_eq[OF assms(2,1) t ro] by auto
    have hh: "tl_load hist (k_hrow slots b t) = h" by (rule k_hrow_eq[OF assms(4,5) k(1,3) t h])
    have "rows ! t ! s = k_tok_raw cfg hist slots b t s" if "s < ngram cfg" for s
    proof -
      obtain x y where x: "py_get (input_ids b) (max (int t - int s) 0) = Inr x"
        and y: "py_get h (min (max (int (ngram cfg) - 2 - (int s - off - 1)) 0) (int (ngram cfg) - 2)) = Inr y"
        and v: "rows ! t ! s = (if int s \<le> off then x else y)"
        using cols(2) \<open>s < ngram cfg\<close> by blast
      have "tl_load (input_ids b) (max (int t - int s) 0) = x" by (rule tl_load_py_get[OF _ x]) simp
      moreover have "tl_load h (min (max (int (ngram cfg) - 2 - (int s - off - 1)) 0) (int (ngram cfg) - 2)) = y"
        by (rule tl_load_py_get[OF _ y]) (use assms(3) in simp)
      ultimately show ?thesis using v t k hh by (simp add: k_tok_raw_def)
    qed
    then show ?thesis using toks len t cols(1) by (auto simp: nth_append intro: nth_equalityI)
  qed
  have pad: "toks ! t = map (k_tok_raw cfg hist slots b t) [0..<ngram cfg]"
    if "\<not> t < num_real b" "t < num_tokens b" for t
    using that toks len
    by (auto simp: nth_append k_tok_raw_def map_replicate_const intro: nth_equalityI)
  show ?thesis using real pad toks len assms(2) by (auto simp: hash_batch_ok_def)
qed

definition hist_rect :: "engram_cfg \<Rightarrow> int list list \<Rightarrow> bool" where
  "hist_rect cfg hist \<longleftrightarrow> (\<forall>h\<in>set hist. length h = ngram cfg - 1)"

lemma gather_rect:
  "gather_history hist slots = Inr hb \<Longrightarrow> hist_rect cfg hist \<Longrightarrow> hist_rect cfg hb"
proof (cases slots)
  case (Some sl)
  assume "gather_history hist slots = Inr hb" and r: "hist_rect cfg hist"
  then have "length hb = length sl" and g: "\<And>i. i < length sl \<Longrightarrow> py_get hist (sl ! i) = Inr (hb ! i)"
    using Some by (auto simp: gather_history_def res_list_Inr)
  moreover have "x \<in> set hist" if "py_get hist j = Inr x" for j x
    using that by (auto simp: py_get_def Let_def res_simps split: if_splits)
  ultimately show ?thesis using r unfolding hist_rect_def by (metis in_set_conv_nth)
qed (auto simp: gather_history_def hist_rect_def)

text \<open>Both modes: the torch table is the kernel's, before the image mask.\<close>

lemma torch_tokens_eq:
  assumes "2 \<le> ngram cfg" "hash_batch_ok b" "hist_rect cfg hist"
    and "gather_history hist slots = Inr hb" "\<forall>x\<in>set (case_option [] id slots). 0 \<le> x"
    and "torch_tokens cfg hb b = Inr toks"
  shows "length toks = num_tokens b
    \<and> (\<forall>t<num_tokens b. toks ! t = map (k_tok_raw cfg hist slots b t) [0..<ngram cfg])"
proof (cases "kmode_of b = MODE_DECODE")
  case True
  show ?thesis
    by (rule torch_tokens_decode[OF assms(1) True assms(2,4,5,6)])
       (use gather_rect[OF assms(4,3)] in \<open>simp add: hist_rect_def\<close>)
next
  case False
  then show ?thesis by (rule torch_tokens_runs[OF _ assms(2,1,4,5,6)])
qed

section \<open>Agreement of the blocked shifts\<close>

lemma cumsum_blocked:
  "s < n \<Longrightarrow> map (\<lambda>x. 0 < x) (cumsum (map (\<lambda>s. of_bool (P s)) [0..<n])) ! s = (\<exists>j\<le>s. P j)"
  by (subst nth_map, simp, subst cumsum_pos_iff, auto simp: of_bool_def split: if_splits)

lemma k_blocked_iff:
  "s < ngram cfg \<Longrightarrow> k_blocked cfg hist slots b t ! s \<longleftrightarrow> (\<exists>j\<le>s. k_blk cfg hist slots b t j)"
  unfolding k_blocked_def by (rule cumsum_blocked)

lemma torch_blocked_eq:
  assumes ok: "hash_batch_ok b"
    and toks: "length toks = num_tokens b"
      "\<And>t. t < num_tokens b \<Longrightarrow> toks ! t = map (k_tok cfg hist slots b t) [0..<ngram cfg]"
    and t: "t < num_tokens b" and s: "s < ngram cfg"
  shows "torch_blocked cfg toks b ! t ! s = k_blocked cfg hist slots b t ! s"
proof -
  have pos: "i32 (tl_load (positions b) (int t)) = positions b ! t"
    using ok t by (auto simp: hash_batch_ok_def tl_load_def intro!: i32_id)
  show ?thesis
  proof (cases "image_token_id cfg")
    case None
    have "torch_blocked cfg toks b ! t ! s = (\<not> t < num_real b \<or> positions b ! t < int s)"
      using None t s by (simp add: torch_blocked_def)
    also have "\<dots> = (\<exists>j\<le>s. positions b ! t < int j \<or> \<not> t < num_real b)" by auto
    also have "\<dots> = k_blocked cfg hist slots b t ! s"
      using None pos s by (simp add: k_blocked_iff k_blk_def)
    finally show ?thesis .
  next
    case (Some img)
    define own where "own = (\<lambda>s. \<not> t < num_real b \<or> positions b ! t < int s)"
    have row: "map2 (\<lambda>k x. of_bool (k \<or> x = img) :: int) (map own [0..<ngram cfg]) (toks ! t)
        = map (\<lambda>s. of_bool (k_blk cfg hist slots b t s)) [0..<ngram cfg]"
      using Some pos by (auto simp: toks(2)[OF t] own_def k_blk_def intro!: nth_equalityI)
    have "torch_blocked cfg toks b ! t =
        map (\<lambda>x. x \<noteq> 0) (cummax (map2 (\<lambda>k x. of_bool (k \<or> x = img)) (map own [0..<ngram cfg]) (toks ! t)))"
      using Some t toks(1) by (simp add: torch_blocked_def own_def)
    then have "torch_blocked cfg toks b ! t ! s =
        (cummax (map (\<lambda>s. of_bool (k_blk cfg hist slots b t s)) [0..<ngram cfg]) ! s \<noteq> 0)"
      unfolding row using s by simp
    also have "\<dots> = (0 < cummax (map (\<lambda>s. of_bool (k_blk cfg hist slots b t s)) [0..<ngram cfg]) ! s)"
      using cummax_nonneg[of "map (\<lambda>s. of_bool (k_blk cfg hist slots b t s)) [0..<ngram cfg]" s] s
      by auto
    also have "\<dots> = (\<exists>j\<le>s. k_blk cfg hist slots b t j)"
      using s by (subst cummax_pos_iff) (auto simp: of_bool_def split: if_splits)
    also have "\<dots> = k_blocked cfg hist slots b t ! s" using s by (simp add: k_blocked_iff)
    finally show ?thesis .
  qed
qed

section \<open>Launching the kernel\<close>

text \<open>The assertions of \<open>_launch_hash_kernel\<close>, which its callers (theory EngramForward) make
  before they run \<open>engram_hash_ids\<close>: the kernel's index ranges must be powers of two.\<close>

definition pow2_check :: "nat \<Rightarrow> bool" where
  "pow2_check n \<longleftrightarrow> int n AND (int n - 1) = 0"

definition launch_ok :: "engram_cfg \<Rightarrow> int list list \<Rightarrow> bool" where
  "launch_ok cfg hist \<longleftrightarrow>
     pow2_check (ngram cfg) \<and> pow2_check (heads cfg)
     \<and> length (primes cfg) = length (multipliers cfg)
     \<and> (\<forall>l\<in>set (primes cfg). length l = ngram cfg - 1 \<and> (\<forall>r\<in>set l. length r = heads cfg))
     \<and> length (offsets cfg) = length (multipliers cfg)
     \<and> (\<forall>l\<in>set (offsets cfg). length l = (ngram cfg - 1) * heads cfg)
     \<and> (\<forall>h\<in>set hist. length h = ngram cfg - 1)"

lemma and_double: "2 * a AND (2 * b :: int) = 2 * (a AND b)" "2 * a AND (2 * b + 1 :: int) = 2 * (a AND b)"
    "(2 * a + 1) AND (2 * b :: int) = 2 * (a AND b)"
  by (subst and_rec, simp)+

lemma pow2_check_iff:
  assumes "0 < n"
  shows "pow2_check n \<longleftrightarrow> (\<exists>k. n = 2 ^ k)"
  using assms
proof (induction n rule: less_induct)
  case (less n)
  show ?case
  proof (cases "even n")
    case True
    then obtain m where m: "n = 2 * m" by blast
    then have pos: "0 < m" "m < n" using less.prems by auto
    have "int n - 1 = 2 * (int m - 1) + 1" using m by simp
    then have "int n AND (int n - 1) = 2 * (int m AND (int m - 1))" using and_double(2) [of "int m" "int m - 1"] m by simp
    then have "pow2_check n \<longleftrightarrow> pow2_check m" by (simp add: pow2_check_def)
    also have "\<dots> \<longleftrightarrow> (\<exists>k. m = 2 ^ k)" using less.IH pos by simp
    also have "\<dots> \<longleftrightarrow> (\<exists>k. n = 2 ^ k)"
    proof
      assume "\<exists>k. m = 2 ^ k"
      then show "\<exists>k. n = 2 ^ k" using m by (metis power_Suc)
    next
      assume "\<exists>k. n = 2 ^ k"
      then obtain k where k: "n = 2 ^ k" by blast
      then have "k \<noteq> 0" using True by (cases k) auto
      then show "\<exists>k. m = 2 ^ k" using k m by (cases k) auto
    qed
    finally show ?thesis .
  next
    case False
    then obtain m where m: "n = 2 * m + 1" by (metis oddE)
    have "int n = 2 * int m + 1" "int n - 1 = 2 * int m" using m by simp_all
    then have "int n AND (int n - 1) = 2 * (int m AND int m)" using and_double(3) [of "int m" "int m"] by (simp only:)
    then have "pow2_check n \<longleftrightarrow> m = 0" by (simp add: pow2_check_def)
    moreover have "(\<exists>k. n = 2 ^ k) \<longleftrightarrow> m = 0"
    proof
      assume "\<exists>k. n = 2 ^ k"
      then obtain k where "n = 2 ^ k" by blast
      then show "m = 0" using False by (cases k) (auto simp: m)
    next
      assume "m = 0"
      then have "n = 2 ^ 0" using m by simp
      then show "\<exists>k. n = 2 ^ k" by blast
    qed
    ultimately show ?thesis by blast
  qed
qed

section \<open>Agreement of the hash columns\<close>

definition cfg_ok :: "engram_cfg \<Rightarrow> bool" where
  "cfg_ok cfg \<longleftrightarrow> 2 \<le> ngram cfg \<and> 0 \<le> pad_id cfg \<and> (\<forall>c\<in>set (token_map cfg). 0 \<le> c)
     \<and> (\<forall>ms\<in>set (multipliers cfg). length ms = ngram cfg
          \<and> (\<forall>m\<in>set ms. 0 \<le> m \<and> pad_id cfg * m < 2 ^ 63
                \<and> (\<forall>c\<in>set (token_map cfg). c * m < 2 ^ 63)))
     \<and> length (primes cfg) = length (multipliers cfg)
     \<and> length (offsets cfg) = length (multipliers cfg)
     \<and> (\<forall>pl\<in>set (primes cfg). length pl = ngram cfg - 1
          \<and> (\<forall>ps\<in>set pl. length ps = heads cfg \<and> (\<forall>p\<in>set ps. 0 < p)))
     \<and> (\<forall>os\<in>set (offsets cfg). length os = (ngram cfg - 1) * heads cfg)"

text \<open>The running XOR of the torch loop, and its invariant.\<close>

definition roll :: "int list \<Rightarrow> nat \<Rightarrow> int" where
  "roll products i = fold (XOR) (take (Suc i) products) 0"

lemma roll_Suc: "Suc i < length ps \<Longrightarrow> roll ps (Suc i) = roll ps i XOR ps ! Suc i"
  unfolding roll_def by (simp add: take_Suc_conv_app_nth[of "Suc i"] xor.commute)

lemma torch_fold:
  assumes "m < length ps"
  shows "fold (\<lambda>i (rolling, hashes).
            let rolling' = rolling XOR ps ! i
            in (rolling', hashes @ [map (\<lambda>p. rolling' mod p) (pr ! (i - 1))]))
          [1..<Suc m] (ps ! 0, [])
       = (roll ps m, map (\<lambda>i. map (\<lambda>p. roll ps i mod p) (pr ! (i - 1))) [1..<Suc m])"
  using assms
proof (induction m)
  case 0
  then show ?case by (cases ps) (auto simp: roll_def)
next
  case (Suc m)
  then show ?case by (simp add: roll_Suc Let_def)
qed

lemma k_rolling_eq:
  assumes "i < length ps"
  shows "xor_sum (map (\<lambda>s. if s \<le> i then ps ! s else 0) [0..<length ps]) = roll ps i"
proof -
  have split: "[0..<length ps] = [0..<Suc i] @ [Suc i..<length ps]"
    using upt_add_eq_append[of 0 "Suc i" "length ps - Suc i"] assms
    by (simp only: le_add_diff_inverse Suc_leI zero_le)
  have first: "map (\<lambda>s. if s \<le> i then ps ! s else 0) [0..<Suc i] = take (Suc i) ps"
    using assms by (intro nth_equalityI) (auto simp del: upt_Suc)
  have rest: "\<forall>x\<in>set (map (\<lambda>s. if s \<le> i then ps ! s else 0) [Suc i..<length ps]). x = 0" by auto
  show ?thesis
    unfolding xor_sum_def split map_append fold_append comp_apply first roll_def
    by (rule fold_xor_zeros[OF rest])
qed

lemma roll_nonneg: "\<forall>p\<in>set ps. 0 \<le> p \<Longrightarrow> 0 \<le> roll ps i"
  unfolding roll_def by (rule fold_xor_nonneg) (auto dest: in_set_takeD)

lemma map2_concat_uniform:
  assumes "\<forall>xs\<in>set xss. length xs = h" "length os = length xss * h"
  shows "map2 f (concat xss) os
    = concat (map (\<lambda>i. map (\<lambda>j. f (xss ! i ! j) (os ! (i * h + j))) [0..<h]) [0..<length xss])"
  using assms
proof (induction xss arbitrary: os)
  case (Cons xs xss)
  have h: "length xs = h" "length (take h os) = h" using Cons.prems by auto
  have tail: "map2 f (concat xss) (drop h os) = concat (map (\<lambda>i. map (\<lambda>j.
      f (xss ! i ! j) (drop h os ! (i * h + j))) [0..<h]) [0..<length xss])"
    using Cons.prems by (intro Cons.IH) auto
  have hd: "map2 f xs (take h os) = map (\<lambda>j. f (xs ! j) (os ! j)) [0..<h]"
    using h by (auto intro: nth_equalityI)
  have "map2 f (concat (xs # xss)) os = map2 f xs (take h os) @ map2 f (concat xss) (drop h os)"
    using h(1) by (simp add: zip_append1)
  also have "\<dots> = concat (map (\<lambda>i. map (\<lambda>j. f ((xs # xss) ! i ! j) (os ! (i * h + j))) [0..<h])
       [0..<length (xs # xss)])"
    unfolding tail hd using Cons.prems
    by (simp add: upt_rec[of 0] map_Suc_upt[symmetric] o_def nth_drop add.assoc del: upt_Suc map_Suc_upt)
  finally show ?case .
qed simp

lemma layer_eq:
  assumes ok: "cfg_ok cfg" and l: "l < length (multipliers cfg)"
    and len: "length compressed = ngram cfg"
    and cs: "\<And>s. s < ngram cfg \<Longrightarrow> compressed ! s = cmp s"
    and rng: "\<And>s. s < ngram cfg \<Longrightarrow> cmp s = pad_id cfg \<or> cmp s \<in> set (token_map cfg)"
  shows "torch_layer cfg compressed l = k_layer cfg cmp l"
proof -
  define N where "N = ngram cfg"
  define ms where "ms = multipliers cfg ! l"
  define ps where "ps = map2 (\<lambda>c m. i64 (c * m)) compressed ms"
  define pr where "pr = primes cfg ! l"
  define os where "os = offsets cfg ! l"
  have N: "2 \<le> N" and pad: "0 \<le> pad_id cfg" and tm: "\<forall>c\<in>set (token_map cfg). 0 \<le> c"
    and ms: "length ms = N" "\<forall>m\<in>set ms. 0 \<le> m \<and> pad_id cfg * m < 2 ^ 63
                \<and> (\<forall>c\<in>set (token_map cfg). c * m < 2 ^ 63)"
    and pr: "length pr = N - 1" "\<forall>q\<in>set pr. length q = heads cfg \<and> (\<forall>p\<in>set q. 0 < p)"
    and os: "length os = (N - 1) * heads cfg"
  proof -
    have mem: "ms \<in> set (multipliers cfg)" "pr \<in> set (primes cfg)" "os \<in> set (offsets cfg)"
      using ok l by (auto simp: cfg_ok_def ms_def pr_def os_def)
    show "2 \<le> N" "0 \<le> pad_id cfg" "\<forall>c\<in>set (token_map cfg). 0 \<le> c"
      using ok by (auto simp: cfg_ok_def N_def)
    show "length ms = N" "\<forall>m\<in>set ms. 0 \<le> m \<and> pad_id cfg * m < 2 ^ 63
                \<and> (\<forall>c\<in>set (token_map cfg). c * m < 2 ^ 63)"
      using ok mem(1) unfolding cfg_ok_def N_def by blast+
    show "length pr = N - 1" "\<forall>q\<in>set pr. length q = heads cfg \<and> (\<forall>p\<in>set q. 0 < p)"
      using ok mem(2) unfolding cfg_ok_def N_def by blast+
    show "length os = (N - 1) * heads cfg" using ok mem(3) unfolding cfg_ok_def N_def by blast
  qed
  have lps: "length ps = N" using len ms(1) by (simp add: ps_def N_def)
  have ps: "ps ! s = i64 (cmp s * ms ! s)" and psnn: "0 \<le> ps ! s" if "s < N" for s
  proof -
    show p: "ps ! s = i64 (cmp s * ms ! s)"
      using that len ms(1) cs by (simp add: ps_def N_def)
    have "0 \<le> cmp s * ms ! s \<and> cmp s * ms ! s < 2 ^ 63"
      using rng[of s] that pad tm ms by (auto simp: N_def)
    then show "0 \<le> ps ! s" unfolding p by (simp add: i64_id)
  qed
  have nn: "0 \<le> roll ps i" for i
    by (rule roll_nonneg) (use psnn lps in \<open>auto simp: in_set_conv_nth\<close>)
  have "torch_layer cfg compressed l =
      map2 (+) (concat (map (\<lambda>i. map (\<lambda>p. roll ps i mod p) (pr ! (i - 1))) [1..<N])) os"
  proof -
    have "[1..<length compressed] = [1..<Suc (N - 1)]" using len N by (simp add: N_def)
    then show ?thesis using torch_fold[of "N - 1" ps pr] N lps
      by (simp only: torch_layer_def Let_def ms_def[symmetric] ps_def[symmetric] pr_def[symmetric]
          os_def[symmetric] snd_conv) (simp add: Let_def del: upt_Suc)
  qed
  also have "map (\<lambda>i. map (\<lambda>p. roll ps i mod p) (pr ! (i - 1))) [1..<N]
      = map (\<lambda>k. map (\<lambda>p. roll ps (Suc k) mod p) (pr ! k)) [0..<N - 1]"
    using N by (auto intro: nth_equalityI)
  also have "map2 (+) (concat \<dots>) os =
      concat (map (\<lambda>k. map (\<lambda>h. roll ps (Suc k) mod (pr ! k ! h) + os ! (k * heads cfg + h))
        [0..<heads cfg]) [0..<N - 1])"
  proof -
    have lq: "length (pr ! k) = heads cfg" if "k < N - 1" for k using pr that by auto
    show ?thesis
      by (subst map2_concat_uniform[where h = "heads cfg"])
         (use lq os in \<open>auto intro!: arg_cong[where f = concat] nth_equalityI\<close>)
  qed
  also have "\<dots> = concat (map (\<lambda>i. map (\<lambda>h. roll ps i mod (pr ! (i - 1) ! h)
        + os ! ((i - 1) * heads cfg + h)) [0..<heads cfg]) [1..<N])"
    using N by (auto intro!: arg_cong[where f = concat] nth_equalityI)
  also have "\<dots> = k_layer cfg cmp l"
  proof -
    have "xor_sum (map (\<lambda>s. if s \<le> i then i64 (cmp s * (multipliers cfg ! l ! s)) else 0) [0..<N]) = roll ps i"
      if "i < N" for i
    proof -
      have "map (\<lambda>s. if s \<le> i then i64 (cmp s * (multipliers cfg ! l ! s)) else 0) [0..<N]
          = map (\<lambda>s. if s \<le> i then ps ! s else 0) [0..<length ps]"
        using ps lps by (auto simp: ms_def)
      then show ?thesis using k_rolling_eq[of i ps] that lps by metis
    qed
    moreover have "trunc_rem (roll ps i) (pr ! (i - 1) ! h) = roll ps i mod (pr ! (i - 1) ! h)"
      if "i \<in> set [1..<N]" "h < heads cfg" for i h
    proof -
      have "pr ! (i - 1) \<in> set pr" using that pr(1) by auto
      then show ?thesis using pr(2) nn that by auto
    qed
    ultimately show ?thesis
      unfolding k_layer_def Let_def N_def[symmetric] pr_def os_def
      by (auto intro!: arg_cong[where f = concat])
  qed
  finally show ?thesis .
qed

lemma torch_tokens_nonneg:
  assumes "\<forall>x\<in>set (input_ids b). 0 \<le> x" and "\<forall>h\<in>set hb. \<forall>x\<in>set h. 0 \<le> x"
    and "torch_tokens cfg hb b = Inr toks" and "r \<in> set toks" and "x \<in> set r"
  shows "0 \<le> x"
proof (cases "kmode_of b = MODE_DECODE")
  case True
  with assms show ?thesis
    by (fastforce simp: torch_tokens_def Let_def res_simps set_zip dest: nth_mem)
next
  case False
  show ?thesis
  proof (rule torch_tokens_rows[OF False assms(3)])
    fix rows
    assume toks: "toks = rows @ replicate (num_tokens b - num_real b) (replicate (ngram cfg) 0)"
      and len: "length rows = num_real b"
      and rows: "\<And>t. t < num_real b \<Longrightarrow> \<exists>r off h. torch_row_off b t = Inr (r, off) \<and> py_get hb r = Inr h
       \<and> length (rows ! t) = ngram cfg
       \<and> (\<forall>s<ngram cfg. \<exists>x y. py_get (input_ids b) (max (int t - int s) 0) = Inr x
          \<and> py_get h (min (max (int (ngram cfg) - 2 - (int s - off - 1)) 0) (int (ngram cfg) - 2)) = Inr y
          \<and> rows ! t ! s = (if int s \<le> off then x else y))"
    have "0 \<le> rows ! t ! s" if t: "t < num_real b" and s: "s < length (rows ! t)" for t s
    proof -
      obtain h x y i j where "py_get hb i = Inr h" "py_get h j = Inr y"
        "x \<in> set (input_ids b)" "rows ! t ! s = x \<or> rows ! t ! s = y"
        using rows[OF t] s by (metis py_get_in_set)
      then show ?thesis using assms(1,2) by (metis py_get_in_set)
    qed
    then show "0 \<le> x" using assms(4,5) toks len by (auto simp: in_set_conv_nth)
  qed
qed

section \<open>The kernel reproduces the torch path\<close>

text \<open>C1. Whenever the torch reference succeeds on the gathered history, the Triton kernel
  computes the same hash ids for every token, layer and column, and the same predecessor
  table, in decode, verify and extend batches, with and without image tokens.  The
  hypotheses are the constructor's: look-back products fit in int64, ids are not
  negative, row starts and positions fit in int32.\<close>

theorem engram_kernel_matches_torch:
  assumes "cfg_ok cfg" "hash_batch_ok b" "hist_rect cfg hist"
    and "\<forall>x\<in>set (case_option [] id slots). 0 \<le> x"
    and "\<forall>x\<in>set (input_ids b). 0 \<le> x" "\<forall>h\<in>set hist. \<forall>x\<in>set h. 0 \<le> x"
    and "\<forall>img. image_token_id cfg = Some img \<longrightarrow> 0 \<le> img"
    and "gather_history hist slots = Inr hb"
    and "torch_hash_ids cfg hb b = Inr (ids, toks)"
  shows "engram_hash_ids cfg hist slots b = (ids, map (map i32) toks)"
proof -
  have n2: "2 \<le> ngram cfg" using assms(1) by (simp add: cfg_ok_def)
  from assms(9) obtain toks0 where t0: "torch_tokens cfg hb b = Inr toks0"
    and toks: "toks = map (map (mask_image cfg)) toks0"
    and ids: "compute_engram_hash_ids cfg toks (torch_blocked cfg toks b) = Inr ids"
    by (cases "image_token_id cfg")
       (auto simp: torch_hash_ids_def res_simps Let_def mask_image_def[abs_def] map_idI)
  have hbnn: "\<forall>h\<in>set hb. \<forall>x\<in>set h. 0 \<le> x"
  proof (cases slots)
    case (Some sl)
    then show ?thesis using assms(6,8)
      by (auto simp: gather_history_def res_list_Inr in_set_conv_nth) (metis nth_mem py_get_in_set)
  qed (use assms(6,8) in \<open>simp add: gather_history_def\<close>)
  have len0: "length toks0 = num_tokens b"
    and row0: "\<And>t. t < num_tokens b \<Longrightarrow> toks0 ! t = map (k_tok_raw cfg hist slots b t) [0..<ngram cfg]"
    using torch_tokens_eq[OF n2 assms(2,3,8,4) t0] by auto
  have len: "length toks = num_tokens b"
    and row: "\<And>t. t < num_tokens b \<Longrightarrow> toks ! t = map (k_tok cfg hist slots b t) [0..<ngram cfg]"
    using len0 row0 by (auto simp: toks k_tok_mask)
  have tokn: "0 \<le> k_tok cfg hist slots b t s" if "t < num_tokens b" "s < ngram cfg" for t s
  proof -
    have "0 \<le> k_tok_raw cfg hist slots b t s"
    proof (rule torch_tokens_nonneg[OF assms(5) hbnn t0])
      show "toks0 ! t \<in> set toks0" using that len0 by simp
      show "k_tok_raw cfg hist slots b t s \<in> set (toks0 ! t)" using that row0 by simp
    qed
    then show ?thesis using assms(7) by (auto simp: k_tok_mask mask_image_def split: option.splits)
  qed
  let ?bl = "torch_blocked cfg toks b"
  have bl: "length ?bl = num_tokens b" "\<And>t. t < num_tokens b \<Longrightarrow> length (?bl ! t) = ngram cfg"
    using len row by (auto simp: torch_blocked_def Let_def split: option.splits)
  have lids: "length ids = num_tokens b"
    and idr: "\<And>t. t < num_tokens b \<Longrightarrow> \<exists>mapped.
        res_list (py_get (token_map cfg)) (toks ! t) = Inr mapped \<and>
        ids ! t = map (torch_layer cfg (map2 (\<lambda>b m. if b then pad_id cfg else m) (?bl ! t) mapped))
           [0..<length (multipliers cfg)]"
    using ids bl(1) len by (auto simp: compute_engram_hash_ids_def res_list_Inr res_simps Let_def)
  have "ids ! t = k_hash cfg hist slots b t" if t: "t < num_tokens b" for t
  proof -
    obtain mapped where m: "res_list (py_get (token_map cfg)) (toks ! t) = Inr mapped"
      and it: "ids ! t = map (torch_layer cfg (map2 (\<lambda>b m. if b then pad_id cfg else m) (?bl ! t) mapped))
           [0..<length (multipliers cfg)]" using idr[OF t] by blast
    have lm: "length mapped = ngram cfg"
      and mp: "\<And>s. s < ngram cfg \<Longrightarrow> py_get (token_map cfg) (k_tok cfg hist slots b t s) = Inr (mapped ! s)"
      using m row[OF t] by (auto simp: res_list_Inr)
    have "torch_layer cfg (map2 (\<lambda>b m. if b then pad_id cfg else m) (?bl ! t) mapped) l
        = k_layer cfg (k_comp cfg hist slots b t) l" if l: "l < length (multipliers cfg)" for l
    proof (rule layer_eq[OF assms(1) l])
      show "length (map2 (\<lambda>b m. if b then pad_id cfg else m) (?bl ! t) mapped) = ngram cfg"
        using lm bl(2)[OF t] by simp
      fix s assume s: "s < ngram cfg"
      have c: "k_comp cfg hist slots b t s = (if ?bl ! t ! s then pad_id cfg else mapped ! s)"
        using torch_blocked_eq[OF assms(2) len row t s] tl_load_py_get[OF tokn[OF t s] mp[OF s]]
        by (simp add: k_comp_def)
      then show "map2 (\<lambda>b m. if b then pad_id cfg else m) (?bl ! t) mapped ! s
          = k_comp cfg hist slots b t s" using lm bl(2)[OF t] s by simp
      show "k_comp cfg hist slots b t s = pad_id cfg \<or> k_comp cfg hist slots b t s \<in> set (token_map cfg)"
        using c py_get_in_set[OF mp[OF s]] by auto
    qed
    then show ?thesis unfolding it k_hash_def by simp
  qed
  then have "map (k_hash cfg hist slots b) [0..<num_tokens b] = ids"
    using lids by (auto intro: nth_equalityI)
  moreover have "map (\<lambda>t. map (\<lambda>s. i32 (k_tok cfg hist slots b t s)) [0..<ngram cfg]) [0..<num_tokens b]
      = map (map i32) toks"
    using len row by (auto intro: nth_equalityI)
  ultimately show ?thesis by (simp add: engram_hash_ids_def)
qed

definition demo_cfg :: engram_cfg where
  "demo_cfg = \<lparr>ngram = 2, heads = 2, pad_id = 0, token_map = [0, 1, 2, 1],
     multipliers = [[3, 5]], primes = [[[5, 7]]], offsets = [[0, 5]],
     image_token_id = Some 3, mm_pad_shift = 1000000\<rparr>"

definition demo_batch :: hash_batch where
  "demo_batch = \<lparr>input_ids = [2, 1000005, 1], positions = [1, 2, 0], kmode_of = MODE_EXTEND,
     num_real = 3, block = 1, row_of = [0, 0, 1], starts_of = [0, 2]\<rparr>"

theorem engram_kernel_matches_torch_witness:
  "\<exists>ids toks. torch_hash_ids demo_cfg [[1], [2]] demo_batch = Inr (ids, toks)
     \<and> engram_hash_ids demo_cfg [[0], [1], [2]] (Some [1, 2]) demo_batch = (ids, map (map i32) toks)"
proof -
  have "torch_hash_ids demo_cfg [[1], [2]] demo_batch
      = Inr (the (case torch_hash_ids demo_cfg [[1], [2]] demo_batch of Inr x \<Rightarrow> Some x | _ \<Rightarrow> None))"
    by code_simp
  then obtain ids toks where t: "torch_hash_ids demo_cfg [[1], [2]] demo_batch = Inr (ids, toks)"
    by (metis surj_pair)
  have "engram_hash_ids demo_cfg [[0], [1], [2]] (Some [1, 2]) demo_batch = (ids, map (map i32) toks)"
    by (rule engram_kernel_matches_torch[OF _ _ _ _ _ _ _ _ t])
       (simp_all add: cfg_ok_def hash_batch_ok_def hist_rect_def demo_cfg_def demo_batch_def
          gather_history_def py_get_def Let_def res_map_def)
  then show ?thesis using t by blast
qed

end
