(* ===== verification/EngramHistory.thy ===== *)
theory EngramHistory
  imports EngramHash
begin

text \<open>
  The per-request n-gram history of \<open>sglang-overlay/engram.py\<close> (\<open>EngramHasher\<close>) and its two
  device writers in \<open>sglang-overlay/engram_hash.py\<close>: the decode kernel that hashes and
  commits in one launch, and \<open>_engram_commit_history_kernel\<close>, which advances a row past the
  accepted draft tokens.  A history row is oldest first and \<open>n - 1\<close> wide.  The abstract
  state of a request is the list of all its tokens; the invariant says a row holds the
  newest ones, and the specification of a hash depends on that list alone.
\<close>

section \<open>What a hash must be: the specification over a request's tokens\<close>

definition spec_blocked :: "engram_cfg \<Rightarrow> int list \<Rightarrow> nat \<Rightarrow> nat \<Rightarrow> bool" where
  "spec_blocked cfg xs p s \<longleftrightarrow>
     (\<exists>j\<le>s. p < j \<or> (j \<le> p \<and> image_token_id cfg = Some (mask_image cfg (xs ! (p - j)))))"

definition spec_comp :: "engram_cfg \<Rightarrow> int list \<Rightarrow> nat \<Rightarrow> nat \<Rightarrow> int" where
  "spec_comp cfg xs p s =
     (if spec_blocked cfg xs p s then pad_id cfg
      else tl_load (token_map cfg) (mask_image cfg (xs ! (p - s))))"

definition spec_hash :: "engram_cfg \<Rightarrow> int list \<Rightarrow> nat \<Rightarrow> int list list" where
  "spec_hash cfg xs p = map (k_layer cfg (spec_comp cfg xs p)) [0..<length (multipliers cfg)]"

text \<open>Row \<open>h\<close> holds the newest \<open>n - 1\<close> of the tokens \<open>xs\<close> (up to the image mask).\<close>

definition hist_ok :: "engram_cfg \<Rightarrow> int list \<Rightarrow> int list \<Rightarrow> bool" where
  "hist_ok cfg h xs \<longleftrightarrow> length h = ngram cfg - 1
     \<and> (\<forall>s. 0 < s \<longrightarrow> s < ngram cfg \<longrightarrow> s \<le> length xs \<longrightarrow>
          mask_image cfg (h ! (ngram cfg - 1 - s)) = mask_image cfg (xs ! (length xs - s)))"

lemma k_layer_cong:
  "(\<And>s. s < ngram cfg \<Longrightarrow> c s = c' s) \<Longrightarrow> k_layer cfg c l = k_layer cfg c' l"
proof -
  assume c: "\<And>s. s < ngram cfg \<Longrightarrow> c s = c' s"
  have "map (\<lambda>s. if s \<le> i then i64 (c s * (multipliers cfg ! l ! s)) else 0) [0..<ngram cfg]
      = map (\<lambda>s. if s \<le> i then i64 (c' s * (multipliers cfg ! l ! s)) else 0) [0..<ngram cfg]" for i
    using c by simp
  then show ?thesis unfolding k_layer_def by metis
qed

text \<open>
  Token \<open>t\<close> of a batch is at position \<open>p\<close> of the request whose tokens are \<open>xs\<close>: its position
  says so, and the predecessors in the batch or in the history row are the request's.
\<close>

definition lane_at :: "engram_cfg \<Rightarrow> int list list \<Rightarrow> int list option \<Rightarrow> hash_batch \<Rightarrow> nat
    \<Rightarrow> int list \<Rightarrow> nat \<Rightarrow> nat \<Rightarrow> bool" where
  "lane_at cfg hist slots b t xs p off \<longleftrightarrow>
     t < num_real b \<and> t < num_tokens b \<and> i32 (tl_load (positions b) (int t)) = int p
     \<and> k_off b t = int off \<and> off \<le> t \<and> off \<le> p \<and> p < length xs
     \<and> (\<forall>s\<le>off. input_ids b ! (t - s) = xs ! (p - s))
     \<and> hist_ok cfg (tl_load hist (k_hrow slots b t)) (take (p - off) xs)"

lemma lane_pred:
  assumes "2 \<le> ngram cfg" "lane_at cfg hist slots b t xs p off" "s < ngram cfg" "s \<le> p"
  shows "k_tok cfg hist slots b t s = mask_image cfg (xs ! (p - s))"
proof (cases "s \<le> off")
  case True
  with assms show ?thesis
    by (auto simp: k_tok_mask k_tok_raw_def lane_at_def tl_load_def nat_diff_distrib
        intro!: arg_cong[where f = "mask_image cfg"] split: if_splits)
next
  case False
  define h where "h = tl_load hist (k_hrow slots b t)"
  have h: "hist_ok cfg h (take (p - off) xs)" and off: "k_off b t = int off" "off \<le> p" "p < length xs"
    and real: "t < num_real b" using assms(2) by (auto simp: lane_at_def h_def)
  have idx: "min (max (int (ngram cfg) - 2 - (int s - int off - 1)) 0) (int (ngram cfg) - 2)
      = int (ngram cfg - 1 - (s - off))" using False assms(3) by linarith
  have "tl_load h (int (ngram cfg - 1 - (s - off))) = h ! (ngram cfg - 1 - (s - off))"
    by (rule tl_load_in) (use h False assms(1,3) in \<open>auto simp: hist_ok_def\<close>)
  then have "k_tok cfg hist slots b t s = mask_image cfg (h ! (ngram cfg - 1 - (s - off)))"
    using real False off(1) unfolding k_tok_mask k_tok_raw_def h_def[symmetric] idx[symmetric] by simp
  also have "\<dots> = mask_image cfg (take (p - off) xs ! (length (take (p - off) xs) - (s - off)))"
  proof -
    have "0 < s - off" "s - off < ngram cfg" "s - off \<le> length (take (p - off) xs)"
      using False assms(3,4) off by auto
    then show ?thesis using h unfolding hist_ok_def by blast
  qed
  also have "\<dots> = mask_image cfg (xs ! (p - s))" using False assms(4) off by simp
  finally show ?thesis .
qed

lemma hash_path_independent:
  assumes "2 \<le> ngram cfg" "lane_at cfg hist slots b t xs p off"
  shows "k_hash cfg hist slots b t = spec_hash cfg xs p"
proof -
  have pos: "i32 (tl_load (positions b) (int t)) = int p" and real: "t < num_real b"
    using assms(2) by (auto simp: lane_at_def)
  have blk: "k_blk cfg hist slots b t j \<longleftrightarrow>
      p < j \<or> (j \<le> p \<and> image_token_id cfg = Some (mask_image cfg (xs ! (p - j))))"
    if "j < ngram cfg" for j
    using lane_pred[OF assms that] pos real
    by (cases "j \<le> p") (auto simp: k_blk_def Let_def split: option.splits)
  have "k_comp cfg hist slots b t s = spec_comp cfg xs p s" if s: "s < ngram cfg" for s
  proof -
    have "k_blocked cfg hist slots b t ! s \<longleftrightarrow> spec_blocked cfg xs p s"
      using blk s by (auto simp: k_blocked_iff spec_blocked_def)
    moreover have "s \<le> p" if "\<not> spec_blocked cfg xs p s"
      using that by (force simp: spec_blocked_def)
    ultimately show ?thesis using lane_pred[OF assms s] by (auto simp: k_comp_def spec_comp_def)
  qed
  then show ?thesis unfolding k_hash_def spec_hash_def by (auto intro!: k_layer_cong)
qed

text \<open>C2. Path independence: the ids the kernel computes for a token depend only on the
  request's tokens and the position, not on whether the token arrives in a prefill chunk,
  a verify block or a decode step, nor on how much of its look-back is in the batch.\<close>

theorem engram_hash_path_independent:
  assumes "2 \<le> ngram cfg" "lane_at cfg hist slots b t xs p off"
  shows "k_hash cfg hist slots b t = spec_hash cfg xs p"
  by (rule hash_path_independent[OF assms])

text \<open>The same token of the same request, decoded alone and inside a verify block.\<close>

theorem engram_hash_path_independent_witness:
  "k_hash demo_cfg [[0], [1]] (Some [1])
      \<lparr>input_ids = [2], positions = [1], kmode_of = MODE_DECODE, num_real = 1, block = 1,
       row_of = [], starts_of = []\<rparr> 0 = spec_hash demo_cfg [1, 2] 1
   \<and> k_hash demo_cfg [[0], [0]] (Some [1])
      \<lparr>input_ids = [1, 2], positions = [0, 1], kmode_of = MODE_VERIFY, num_real = 2, block = 2,
       row_of = [], starts_of = []\<rparr> 1 = spec_hash demo_cfg [1, 2] 1"
  by (intro conjI engram_hash_path_independent[where off = 0] engram_hash_path_independent[where off = 1])
     (auto simp: lane_at_def demo_cfg_def tl_load_def i32_id k_off_def k_hrow_def k_row_def
        tl_load_mask_def hist_ok_def mask_image_def less_Suc_eq)

section \<open>The decode launch that hashes and commits\<close>

text \<open>Columns \<open>N - 2 - s\<close> of the row take \<open>tok\<close> at shift \<open>s\<close>, for \<open>s \<le> N - 2\<close>.\<close>

definition k_commit_row ::
    "engram_cfg \<Rightarrow> int list list \<Rightarrow> int list option \<Rightarrow> hash_batch \<Rightarrow> nat \<Rightarrow> int list" where
  "k_commit_row cfg hist slots b t =
     map (\<lambda>c. i32 (k_tok cfg hist slots b t (ngram cfg - 2 - c))) [0..<ngram cfg - 1]"

definition k_live :: "hash_batch \<Rightarrow> int list \<Rightarrow> nat \<Rightarrow> bool" where
  "k_live b out_loc t \<longleftrightarrow> t < num_real b \<and> out_loc ! t \<noteq> 0"

text \<open>
  One program: its lanes read the history before any of them stores.  \<open>out\<close> is the
  uninitialised output tensor.
\<close>

definition commit_program ::
    "engram_cfg \<Rightarrow> int list option \<Rightarrow> int list \<Rightarrow> hash_batch \<Rightarrow> nat \<Rightarrow> nat
      \<Rightarrow> int list list \<times> int list list list \<Rightarrow> int list list \<times> int list list list" where
  "commit_program cfg slots out_loc b block_t pid = (\<lambda>(hist, out).
     let lanes = filter (\<lambda>t. t < num_tokens b) [pid * block_t ..< pid * block_t + block_t]
     in (fold (\<lambda>t h. if k_live b out_loc t
                     then h[nat (k_hrow slots b t) := k_commit_row cfg hist slots b t] else h)
           lanes hist,
         fold (\<lambda>t o'. o'[t := k_hash cfg hist slots b t]) lanes out))"

definition engram_hash_ids_and_commit ::
    "nat list \<Rightarrow> nat \<Rightarrow> engram_cfg \<Rightarrow> int list option \<Rightarrow> int list \<Rightarrow> hash_batch
      \<Rightarrow> int list list \<times> int list list list \<Rightarrow> int list list \<times> int list list list" where
  "engram_hash_ids_and_commit pids block_t cfg slots out_loc b st =
     fold (commit_program cfg slots out_loc b block_t) pids st"

text \<open>Live rows own distinct history rows that exist.\<close>

definition live_rows_ok :: "int list option \<Rightarrow> int list \<Rightarrow> hash_batch \<Rightarrow> nat \<Rightarrow> bool" where
  "live_rows_ok slots out_loc b rows \<longleftrightarrow>
     (\<forall>t<num_tokens b. k_live b out_loc t \<longrightarrow> 0 \<le> k_hrow slots b t \<and> nat (k_hrow slots b t) < rows)
     \<and> (\<forall>t<num_tokens b. \<forall>u<num_tokens b. k_live b out_loc t \<longrightarrow> k_live b out_loc u \<longrightarrow> t \<noteq> u
          \<longrightarrow> k_hrow slots b t \<noteq> k_hrow slots b u)"

lemma k_tok_row_cong:
  assumes "tl_load hist (k_hrow slots b t) = tl_load hist' (k_hrow slots b t)"
  shows "k_tok cfg hist slots b t s = k_tok cfg hist' slots b t s"
  using assms by (simp add: k_tok_def Let_def)

lemma k_hash_row_cong:
  assumes "tl_load hist (k_hrow slots b t) = tl_load hist' (k_hrow slots b t)"
  shows "k_hash cfg hist slots b t = k_hash cfg hist' slots b t"
    and "k_commit_row cfg hist slots b t = k_commit_row cfg hist' slots b t"
proof -
  note tok = k_tok_row_cong[OF assms, of cfg]
  have blk: "k_blk cfg hist slots b t s = k_blk cfg hist' slots b t s" for s
    unfolding k_blk_def tok[of s] ..
  then have "k_blk cfg hist slots b t = k_blk cfg hist' slots b t" ..
  then have "k_comp cfg hist slots b t = k_comp cfg hist' slots b t"
    by (auto simp: k_comp_def k_blocked_def tok)
  then show "k_hash cfg hist slots b t = k_hash cfg hist' slots b t" by (simp add: k_hash_def)
  show "k_commit_row cfg hist slots b t = k_commit_row cfg hist' slots b t"
    by (simp add: k_commit_row_def tok)
qed

text \<open>Storing rows of distinct lanes.\<close>

lemma fold_rows_length [simp]:
  "length (fold (\<lambda>t h. if P t then h[f t := g t] else h) ts hist) = length hist"
  by (induction ts arbitrary: hist) auto

lemma fold_out_length [simp]: "length (fold (\<lambda>t o'. o'[t := g t]) ts out) = length out"
  by (induction ts arbitrary: out) auto

lemma fold_rows_other:
  "\<forall>t\<in>set ts. P t \<longrightarrow> f t \<noteq> r \<Longrightarrow>
     fold (\<lambda>t h. if P t then h[f t := g t] else h) ts hist ! r = hist ! r"
  by (induction ts arbitrary: hist) auto

lemma fold_rows_same:
  assumes "t \<in> set ts" "P t" "f t < length hist" "distinct ts"
    and "\<forall>u\<in>set ts. P u \<longrightarrow> u \<noteq> t \<longrightarrow> f u \<noteq> f t"
  shows "fold (\<lambda>t h. if P t then h[f t := g t] else h) ts hist ! f t = g t"
  using assms
proof (induction ts arbitrary: hist)
  case (Cons u us)
  show ?case
  proof (cases "u = t")
    case True
    then have "\<forall>v\<in>set us. P v \<longrightarrow> f v \<noteq> f t" using Cons.prems by auto
    then show ?thesis using True Cons.prems(2,3) by (simp add: fold_rows_other)
  next
    case False
    then show ?thesis using Cons.prems by (auto intro!: Cons.IH)
  qed
qed simp

definition program_lanes :: "hash_batch \<Rightarrow> nat \<Rightarrow> nat \<Rightarrow> nat list" where
  "program_lanes b block_t pid = filter (\<lambda>t. t < num_tokens b) [pid * block_t ..< pid * block_t + block_t]"

lemma in_program_lanes:
  assumes "0 < block_t"
  shows "t \<in> set (program_lanes b block_t pid) \<longleftrightarrow> t < num_tokens b \<and> t div block_t = pid"
proof -
  have "pid * block_t \<le> t \<and> t < pid * block_t + block_t \<longleftrightarrow> t div block_t = pid"
    using assms div_times_less_eq_dividend[of t block_t] dividend_less_div_times[OF assms, of t]
    by (auto simp: div_nat_eqI mult.commute add.commute)
  then show ?thesis by (auto simp: program_lanes_def)
qed

lemma distinct_program_lanes [simp]: "distinct (program_lanes b block_t pid)"
  by (simp add: program_lanes_def)

lemma commit_program_eq:
  "commit_program cfg slots out_loc b block_t pid (hist, out) =
     (fold (\<lambda>t h. if k_live b out_loc t
              then h[nat (k_hrow slots b t) := k_commit_row cfg hist slots b t] else h)
        (program_lanes b block_t pid) hist,
      fold (\<lambda>t o'. o'[t := k_hash cfg hist slots b t]) (program_lanes b block_t pid) out)"
  by (simp add: commit_program_def program_lanes_def Let_def)

lemma commit_program_length [simp]:
  "length (fst (commit_program cfg slots out_loc b block_t pid st)) = length (fst st)"
  "length (snd (commit_program cfg slots out_loc b block_t pid st)) = length (snd st)"
  by (cases st, simp add: commit_program_eq)+

lemma commit_launch_length [simp]:
  "length (fst (engram_hash_ids_and_commit pids block_t cfg slots out_loc b st)) = length (fst st)"
  "length (snd (engram_hash_ids_and_commit pids block_t cfg slots out_loc b st)) = length (snd st)"
  unfolding engram_hash_ids_and_commit_def
  by (induction pids arbitrary: st) simp_all

text \<open>A row that no live lane of a program owns survives it.\<close>

lemma commit_program_hist_other:
  "\<forall>t\<in>set (program_lanes b block_t pid). k_live b out_loc t \<longrightarrow> nat (k_hrow slots b t) \<noteq> r \<Longrightarrow>
     fst (commit_program cfg slots out_loc b block_t pid st) ! r = fst st ! r"
  by (cases st) (simp add: commit_program_eq fold_rows_other)

lemma commit_program_hist_own:
  assumes "live_rows_ok slots out_loc b (length (fst st))"
    and "t \<in> set (program_lanes b block_t pid)" "k_live b out_loc t" "0 < block_t"
  shows "fst (commit_program cfg slots out_loc b block_t pid st) ! nat (k_hrow slots b t)
       = k_commit_row cfg (fst st) slots b t"
proof -
  have lane: "u < num_tokens b" if "u \<in> set (program_lanes b block_t pid)" for u
    using that by (simp add: program_lanes_def)
  have "nat (k_hrow slots b u) \<noteq> nat (k_hrow slots b t)"
    if "u \<in> set (program_lanes b block_t pid)" "k_live b out_loc u" "u \<noteq> t" for u
    using assms(1,3) lane[OF that(1)] lane[OF assms(2)] that(2,3) unfolding live_rows_ok_def
    by (metis eq_nat_nat_iff)
  then have "fold (\<lambda>t h. if k_live b out_loc t
      then h[nat (k_hrow slots b t) := k_commit_row cfg (fst st) slots b t] else h)
      (program_lanes b block_t pid) (fst st) ! nat (k_hrow slots b t)
      = k_commit_row cfg (fst st) slots b t"
    by (intro fold_rows_same[where f = "\<lambda>t. nat (k_hrow slots b t)" and P = "k_live b out_loc"])
       (use assms lane[OF assms(2)] in \<open>auto simp: live_rows_ok_def\<close>)
  then show ?thesis using commit_program_eq[of cfg slots out_loc b block_t pid "fst st" "snd st"] by simp
qed

lemma commit_program_out:
  assumes "t < length (snd st)"
  shows "snd (commit_program cfg slots out_loc b block_t pid st) ! t =
     (if t \<in> set (program_lanes b block_t pid) then k_hash cfg (fst st) slots b t else snd st ! t)"
proof -
  have "t < length out \<Longrightarrow> fold (\<lambda>t o'. o'[t := f t]) ts out ! t = (if t \<in> set ts then f t else out ! t)"
    for f :: "nat \<Rightarrow> int list list" and ts out
    by (induction ts arbitrary: out) (auto simp: nth_list_update)
  then show ?thesis using assms by (cases st) (simp add: commit_program_eq)
qed

lemma launch_hist_other:
  assumes "0 < block_t"
    and "\<forall>t<num_tokens b. t div block_t \<in> set pids \<longrightarrow> k_live b out_loc t \<longrightarrow> nat (k_hrow slots b t) \<noteq> r"
  shows "fst (engram_hash_ids_and_commit pids block_t cfg slots out_loc b st) ! r = fst st ! r"
  using assms(2) unfolding engram_hash_ids_and_commit_def
proof (induction pids arbitrary: st)
  case (Cons pid pids)
  then show ?case
    using commit_program_hist_other[of b block_t pid out_loc slots r cfg st] assms(1)
    by (auto simp: in_program_lanes)
qed simp

lemma launch_out_other:
  assumes "0 < block_t" "t < length (snd st)" "t div block_t \<notin> set pids"
  shows "snd (engram_hash_ids_and_commit pids block_t cfg slots out_loc b st) ! t = snd st ! t"
  using assms(2,3) unfolding engram_hash_ids_and_commit_def
  by (induction pids arbitrary: st) (auto simp: commit_program_out in_program_lanes[OF assms(1)])

lemma live_row_load:
  "live_rows_ok slots out_loc b (length h) \<Longrightarrow> length h' = length h \<Longrightarrow> t < num_tokens b \<Longrightarrow>
     k_live b out_loc t \<Longrightarrow> h' ! nat (k_hrow slots b t) = h ! nat (k_hrow slots b t) \<Longrightarrow>
     tl_load h' (k_hrow slots b t) = tl_load h (k_hrow slots b t)"
  by (auto simp: live_rows_ok_def tl_load_def)

lemma launch_own:
  assumes "0 < block_t" "live_rows_ok slots out_loc b (length (fst st))"
    and "t < num_tokens b" "k_live b out_loc t" "length (snd st) = num_tokens b"
    and "distinct pids" "t div block_t \<in> set pids"
  shows "fst (engram_hash_ids_and_commit pids block_t cfg slots out_loc b st) ! nat (k_hrow slots b t)
           = k_commit_row cfg (fst st) slots b t
       \<and> snd (engram_hash_ids_and_commit pids block_t cfg slots out_loc b st) ! t
           = k_hash cfg (fst st) slots b t"
  using assms(2,5-7)
proof (induction pids arbitrary: st)
  case (Cons pid pids)
  define st' where "st' = commit_program cfg slots out_loc b block_t pid st"
  have ok: "live_rows_ok slots out_loc b (length (fst st'))" "length (snd st') = num_tokens b"
    using Cons.prems by (simp_all add: st'_def)
  have step: "engram_hash_ids_and_commit (pid # pids) block_t cfg slots out_loc b st
      = engram_hash_ids_and_commit pids block_t cfg slots out_loc b st'"
    by (simp add: engram_hash_ids_and_commit_def st'_def)
  have apart: "nat (k_hrow slots b u) \<noteq> nat (k_hrow slots b t)"
    if "u < num_tokens b" "k_live b out_loc u" "u \<noteq> t" for u
    using Cons.prems(1) assms(3,4) that unfolding live_rows_ok_def by (metis eq_nat_nat_iff)
  show ?case
  proof (cases "t div block_t = pid")
    case True
    then have lane: "t \<in> set (program_lanes b block_t pid)"
      using assms(1,3) by (simp add: in_program_lanes)
    have "t div block_t \<notin> set pids" using True Cons.prems(3) by auto
    then have "fst (engram_hash_ids_and_commit pids block_t cfg slots out_loc b st') ! nat (k_hrow slots b t)
          = fst st' ! nat (k_hrow slots b t)"
      and "snd (engram_hash_ids_and_commit pids block_t cfg slots out_loc b st') ! t = snd st' ! t"
      using assms(1,3) ok apart by (auto intro!: launch_hist_other launch_out_other)
    then show ?thesis
      using step lane commit_program_hist_own[OF Cons.prems(1) lane assms(4,1)]
        Cons.prems(2) assms(3)
      by (simp add: st'_def commit_program_out)
  next
    case False
    then have in_tl: "t div block_t \<in> set pids" using Cons.prems(4) by auto
    have "\<forall>u\<in>set (program_lanes b block_t pid). k_live b out_loc u \<longrightarrow>
        nat (k_hrow slots b u) \<noteq> nat (k_hrow slots b t)"
      using apart False by (metis in_program_lanes[OF assms(1)])
    then have "fst st' ! nat (k_hrow slots b t) = fst st ! nat (k_hrow slots b t)"
      unfolding st'_def by (rule commit_program_hist_other)
    then have row: "tl_load (fst st') (k_hrow slots b t) = tl_load (fst st) (k_hrow slots b t)"
      by (intro live_row_load[OF Cons.prems(1) _ assms(3,4)]) (simp_all add: st'_def)
    show ?thesis
      using Cons.IH[OF ok _ in_tl] Cons.prems(3) step k_hash_row_cong[OF row, of cfg] by simp
  qed
qed simp

text \<open>C11. The decode launch reads and writes the same history rows, yet the order in which
  its programs run is unobservable: every live row is hashed from, and advanced from, the
  history before the launch, and no other row (the dummy row, an idle slot) is written.\<close>

theorem hash_commit_order_free:
  assumes "0 < block_t" "distinct pids" "full_grid pids (num_tokens b) block_t"
    and "live_rows_ok slots out_loc b (length hist)" "length out = num_tokens b"
    and "engram_hash_ids_and_commit pids block_t cfg slots out_loc b (hist, out) = (hist', out')"
  shows "(\<forall>t<num_tokens b. k_live b out_loc t \<longrightarrow>
            out' ! t = k_hash cfg hist slots b t
            \<and> hist' ! nat (k_hrow slots b t) = k_commit_row cfg hist slots b t)
       \<and> (\<forall>r. (\<forall>t<num_tokens b. k_live b out_loc t \<longrightarrow> nat (k_hrow slots b t) \<noteq> r) \<longrightarrow>
            hist' ! r = hist ! r)"
proof -
  have "t div block_t \<in> set pids" if "t < num_tokens b" for t
    using assms(1,3) cdiv_covers that by (simp add: full_grid_def)
  then show ?thesis
    using launch_own[of block_t slots out_loc b "(hist, out)" _ pids cfg]
      launch_hist_other[OF assms(1), of b pids out_loc slots _ cfg "(hist, out)"] assms
    by simp
qed

theorem hash_commit_order_free_witness:
  "let b = \<lparr>input_ids = [2, 1, 1], positions = [1, 4, 0], kmode_of = MODE_DECODE, num_real = 3,
             block = 1, row_of = [], starts_of = []\<rparr>;
       r = engram_hash_ids_and_commit [1, 0] 2 demo_cfg (Some [2, 1, 1]) [7, 8, 0] b
             ([[0], [1], [2]], [[], [], []])
   in snd r ! 0 = k_hash demo_cfg [[0], [1], [2]] (Some [2, 1, 1]) b 0 \<and> fst r ! 0 = [0]"
proof -
  define b where "b = \<lparr>input_ids = [2, 1, 1], positions = [1, 4, 0], kmode_of = MODE_DECODE,
      num_real = 3, block = 1, row_of = [], starts_of = []\<rparr>"
  define r where "r = engram_hash_ids_and_commit [1, 0] 2 demo_cfg (Some [2, 1, 1]) [7, 8, 0] b
             ([[0], [1], [2]], [[], [], []])"
  have ok: "live_rows_ok (Some [2, 1, 1]) [7, 8, 0] b (length [[0], [1], [2 :: int]])"
    by (simp add: live_rows_ok_def b_def k_live_def k_hrow_def k_row_def tl_load_mask_def tl_load_def
        All_less_Suc numeral_3_eq_3)
  have grid: "full_grid [1, 0] (num_tokens b) 2"
  proof -
    have "cdiv (num_tokens b) 2 = 2" by (simp add: b_def cdiv_def Suc_div_eq_add3_div_numeral)
    then show ?thesis by (auto simp: full_grid_def)
  qed
  have len: "length [[], [], []] = num_tokens b" by (simp add: b_def)
  have n: "num_tokens b = 3" by (simp add: b_def)
  have live: "k_live b [7, 8, 0] 0" by (simp add: b_def k_live_def)
  have row: "\<forall>t<3. k_live b [7, 8, 0] t \<longrightarrow> nat (k_hrow (Some [2, 1, 1]) b t) \<noteq> 0"
    by (simp add: b_def k_live_def k_hrow_def k_row_def tl_load_mask_def tl_load_def All_less_Suc
        numeral_3_eq_3)
  have "engram_hash_ids_and_commit [1, 0] 2 demo_cfg (Some [2, 1, 1]) [7, 8, 0] b
      ([[0], [1], [2]], [[], [], []]) = (fst r, snd r)" by (simp add: r_def)
  note all = hash_commit_order_free[OF _ _ grid ok len this, unfolded n]
  have "snd r ! 0 = k_hash demo_cfg [[0], [1], [2]] (Some [2, 1, 1]) b 0" using all live by simp
  moreover have "fst r ! 0 = [0]" using all row by simp
  ultimately have "snd r ! 0 = k_hash demo_cfg [[0], [1], [2]] (Some [2, 1, 1]) b 0 \<and> fst r ! 0 = [0]"
    by simp
  then show ?thesis by (simp add: r_def b_def Let_def)
qed

end
