(* ===== verification/EngramForward.thy ===== *)
theory EngramForward
  imports EngramHistory
begin

unbundle bit_operations_syntax

text \<open>
  The history life cycle of \<open>sglang-overlay/engram.py\<close>: \<open>EngramHasher.init_history\<close>,
  \<open>forward\<close> (mode dispatch, kernel or torch path, decode and extend commits) and
  \<open>commit_after_verify\<close> with its kernel \<open>_engram_commit_history_kernel\<close>, and the engine's
  step relation over them: whatever sequence of decode, verify and extend steps runs, in
  whatever order the launches' programs run, every live slot's row holds the newest
  tokens of its request.
\<close>

section \<open>Advancing rows past the accepted drafts\<close>

text \<open>One program: the whole row is read before any lane stores.\<close>

definition commit_values :: "nat \<Rightarrow> int list \<Rightarrow> int list \<Rightarrow> int \<Rightarrow> nat \<Rightarrow> int" where
  "commit_values width old toks commit col =
     (let source_col = commit + int col
      in if source_col < int width then tl_load old source_col
         else tl_load toks (source_col - int width))"

definition commit_history_kernel ::
    "nat \<Rightarrow> int list list \<Rightarrow> int list \<Rightarrow> int list \<Rightarrow> nat \<Rightarrow> int list list \<Rightarrow> int list list" where
  "commit_history_kernel width tokens slots commits row hist =
     hist[nat (slots ! row) :=
            map (commit_values width (tl_load hist (slots ! row)) (tokens ! row) (commits ! row))
              [0..<width]]"

text \<open>One program per row; the grid runs in the order \<open>pids\<close>.\<close>

definition engram_commit_history ::
    "nat list \<Rightarrow> nat \<Rightarrow> int list list \<Rightarrow> int list list \<Rightarrow> int list \<Rightarrow> int list \<Rightarrow> int list list" where
  "engram_commit_history pids width hist verify_ids slots commits =
     (if slots = [] \<or> width = 0 then hist
      else fold (commit_history_kernel width verify_ids slots commits) pids hist)"

definition gather1 :: "'a list \<Rightarrow> int \<Rightarrow> 'a res" where
  "gather1 xs i = ensure (0 \<le> i \<and> i < int (length xs)) RuntimeError (Inr (xs ! nat i))"

text \<open>\<open>history[rows] = values\<close>: rows are stored in order (torch leaves the order of
  duplicates open; nothing below relies on it), a negative row counts from the end.\<close>

definition put_row :: "int list \<Rightarrow> int list list \<Rightarrow> nat \<Rightarrow> int list list \<Rightarrow> int list list" where
  "put_row rows vals i hist =
     hist[nat (if rows ! i < 0 then int (length hist) + rows ! i else rows ! i) := vals ! i]"

definition index_put :: "int list list \<Rightarrow> int list \<Rightarrow> int list list \<Rightarrow> int list list res" where
  "index_put hist rows vals =
     ensure (length vals = length rows) RuntimeError
       (ensure (\<forall>r\<in>set rows. - int (length hist) \<le> r \<and> r < int (length hist)) IndexError
         (Inr (fold (put_row rows vals) [0..<length rows] hist)))"

text \<open>The non-CUDA branch of \<open>commit_after_verify\<close>.\<close>

definition commit_after_verify_torch ::
    "nat \<Rightarrow> int list list \<Rightarrow> int list list \<Rightarrow> int list \<Rightarrow> int list \<Rightarrow> int list list res" where
  "commit_after_verify_torch n1 hist verify_ids req commits =
     res_bind (res_list (py_get hist) req) (\<lambda>rows.
     ensure (length rows = length verify_ids \<and> length commits = length verify_ids) RuntimeError
       (res_bind (res_list (\<lambda>(window, c). res_list (\<lambda>col. gather1 window (c + int col)) [0..<n1])
            (zip (map2 (@) rows verify_ids) commits))
          (\<lambda>vals. index_put hist req vals)))"

definition commit_after_verify ::
    "bool \<Rightarrow> nat list \<Rightarrow> nat \<Rightarrow> int list list option \<Rightarrow> int list list \<Rightarrow> int list \<Rightarrow> int list
       \<Rightarrow> int list list res" where
  "commit_after_verify is_cuda pids n1 history verify_ids req commits =
     (case history of None \<Rightarrow> Inl AssertionError
      | Some hist \<Rightarrow>
          if is_cuda then Inr (engram_commit_history pids n1 hist verify_ids req commits)
          else commit_after_verify_torch n1 hist verify_ids req commits)"

text \<open>Both branches slide the window \<open>old @ block\<close> by the commit length.\<close>

definition slide :: "nat \<Rightarrow> int list \<Rightarrow> int list \<Rightarrow> int \<Rightarrow> int list" where
  "slide width old toks c = take width (drop (nat c) (old @ toks))"

lemma slide_nth:
  "length old = width \<Longrightarrow> 0 \<le> c \<Longrightarrow> c \<le> int (length toks) \<Longrightarrow> i < width \<Longrightarrow>
     slide width old toks c ! i = (old @ toks) ! (nat c + i)"
  by (simp add: slide_def del: drop_append take_append)

lemma length_slide [simp]:
  "length old = width \<Longrightarrow> 0 \<le> c \<Longrightarrow> c \<le> int (length toks) \<Longrightarrow> length (slide width old toks c) = width"
  by (simp add: slide_def)

lemma commit_values_slide:
  assumes "length old = width" "0 \<le> c" "c \<le> int (length toks)"
  shows "map (commit_values width old toks c) [0..<width] = slide width old toks c"
proof (rule nth_equalityI)
  show "length (map (commit_values width old toks c) [0..<width]) = length (slide width old toks c)"
    using assms by (simp add: slide_def)
  fix col assume "col < length (map (commit_values width old toks c) [0..<width])"
  then have col: "col < width" by simp
  obtain k where k: "c = int k" using assms(2) nonneg_int_cases by blast
  have "commit_values width old toks c col = (old @ toks) ! (k + col)"
  proof (cases "k + col < width")
    case True
    then have "tl_load old (int (k + col)) = old ! (k + col)" using assms(1) by (intro tl_load_in) simp
    then show ?thesis using True assms(1) k by (simp add: commit_values_def nth_append)
  next
    case False
    then have "tl_load toks (int (k + col - width)) = toks ! (k + col - width)"
      using assms(3) k col by (intro tl_load_in) simp
    moreover have "c + int col - int width = int (k + col - width)" using False k by simp
    ultimately show ?thesis using False assms(1) k by (simp add: commit_values_def nth_append)
  qed
  then show "map (commit_values width old toks c) [0..<width] ! col = slide width old toks c ! col"
    using col k slide_nth[OF assms col] by simp
qed

lemma slide_gather:
  assumes "length old = width" "length toks = m"
    "res_list (\<lambda>col. gather1 (old @ toks) (c + int col)) [0..<width] = Inr vals" "0 < width"
  shows "0 \<le> c \<and> c \<le> int m \<and> vals = slide width old toks c"
proof -
  have v: "length vals = width" "\<And>i. i < width \<Longrightarrow> gather1 (old @ toks) (c + int i) = Inr (vals ! i)"
    using assms(3) by (auto simp: res_list_Inr)
  have c: "0 \<le> c" using v(2)[of 0] assms(4) by (simp add: gather1_def ensure_Inr)
  have "c + int (width - 1) < int (width + m)"
    using v(2)[of "width - 1"] assms(1,2,4) by (simp add: gather1_def ensure_Inr)
  then have m: "c \<le> int m" using assms(4) by linarith
  have "vals = slide width old toks c"
  proof (rule nth_equalityI)
    show "length vals = length (slide width old toks c)" using v(1) c m assms by (simp add: slide_def)
    fix i assume "i < length vals"
    then have i: "i < width" using v by simp
    have "nat (c + int i) = nat c + i" using c by simp
    then show "vals ! i = slide width old toks c ! i"
      using v(2)[OF i] slide_nth[OF assms(1) c _ i, of toks] m assms(2) by (simp add: gather1_def ensure_Inr)
  qed
  then show ?thesis using c m by simp
qed

text \<open>Scattering rows to distinct slots, in any order.\<close>

lemma fold_slots_length [simp]:
  "length (fold (\<lambda>i h. h[f i := g h i]) is hist) = length hist"
  by (induction "is" arbitrary: hist) auto

lemma fold_slots_other:
  "\<forall>i\<in>set is. f i \<noteq> r \<Longrightarrow> fold (\<lambda>i h. h[f i := g h i]) is hist ! r = hist ! r"
  by (induction "is" arbitrary: hist) auto

lemma fold_slots_own:
  assumes "distinct is" "i \<in> set is" "f i < length hist"
    and "\<And>h j. j \<in> set is \<Longrightarrow> length h = length hist \<Longrightarrow> h ! f j = hist ! f j \<Longrightarrow> g h j = g hist j"
    and "\<forall>j\<in>set is. \<forall>k\<in>set is. j \<noteq> k \<longrightarrow> f j \<noteq> f k"
  shows "fold (\<lambda>i h. h[f i := g h i]) is hist ! f i = g hist i"
  using assms
proof (induction "is" arbitrary: hist)
  case (Cons a as)
  show ?case
  proof (cases "a = i")
    case True
    then have "\<forall>j\<in>set as. f j \<noteq> f i" using Cons.prems(1,5) by auto
    then show ?thesis using True Cons.prems(3) by (simp add: fold_slots_other)
  next
    case False
    let ?h = "hist[f a := g hist a]"
    have keep: "?h ! f j = hist ! f j" if "j \<in> set as" for j
      using Cons.prems(1,5) that by (metis distinct.simps(2) list.set_intros nth_list_update_neq)
    have i: "i \<in> set as" using False Cons.prems(2) by simp
    have "fold (\<lambda>i h. h[f i := g h i]) as ?h ! f i = g ?h i"
    proof (rule Cons.IH)
      fix h j assume "j \<in> set as" "length h = length ?h" "h ! f j = ?h ! f j"
      then show "g h j = g ?h j" using Cons.prems(4)[of j h] Cons.prems(4)[of j ?h] keep by simp
    next
      show "distinct as" using Cons.prems(1) by simp
      show "i \<in> set as" by (rule i)
      show "f i < length ?h" using Cons.prems(3) by simp
      show "\<forall>j\<in>set as. \<forall>k\<in>set as. j \<noteq> k \<longrightarrow> f j \<noteq> f k" using Cons.prems(5) by simp
    qed
    also have "g ?h i = g hist i" using Cons.prems(4)[of i ?h] keep[OF i] Cons.prems(2) by simp
    finally show ?thesis by simp
  qed
qed simp

definition distinct_slots :: "int list \<Rightarrow> nat \<Rightarrow> bool" where
  "distinct_slots slots rows \<longleftrightarrow> distinct slots \<and> (\<forall>s\<in>set slots. 0 \<le> s \<and> s < int rows)"

lemma distinct_slots_neq:
  "distinct_slots slots rows \<Longrightarrow> i < length slots \<Longrightarrow> j < length slots \<Longrightarrow> i \<noteq> j \<Longrightarrow>
     nat (slots ! i) \<noteq> nat (slots ! j)"
  by (metis distinct_slots_def eq_nat_nat_iff nth_eq_iff_index_eq nth_mem)

lemma distinct_slots_nat:
  "distinct_slots slots rows \<Longrightarrow> i < length slots \<Longrightarrow> 0 \<le> slots ! i \<and> nat (slots ! i) < rows"
  using nth_mem[of i slots] unfolding distinct_slots_def by (metis nat_less_iff)

lemma commit_kernel_eq:
  "commit_history_kernel width toks slots commits =
     (\<lambda>i h. h[nat (slots ! i) := map (commit_values width (tl_load h (slots ! i)) (toks ! i) (commits ! i))
        [0..<width]])"
  by (rule ext)+ (simp add: commit_history_kernel_def)

lemma engram_commit_history_rows:
  assumes "distinct_slots slots (length hist)" "distinct pids" "set pids = {..<length slots}"
    and "\<forall>h\<in>set hist. length h = width" "0 < width"
    and "\<And>i. i < length slots \<Longrightarrow> 0 \<le> commits ! i \<and> commits ! i \<le> int (length (toks ! i))"
  defines "h' \<equiv> engram_commit_history pids width hist toks slots commits"
  shows "length h' = length hist"
    and "i < length slots \<Longrightarrow>
      h' ! nat (slots ! i) = slide width (hist ! nat (slots ! i)) (toks ! i) (commits ! i)"
    and "(\<forall>i<length slots. nat (slots ! i) \<noteq> r) \<Longrightarrow> h' ! r = hist ! r"
proof -
  let ?g = "\<lambda>h i. map (commit_values width (tl_load h (slots ! i)) (toks ! i) (commits ! i)) [0..<width]"
  have h': "h' = (if slots = [] then hist else fold (\<lambda>i h. h[nat (slots ! i) := ?g h i]) pids hist)"
    using assms(5) unfolding h'_def engram_commit_history_def commit_kernel_eq by simp
  show "length h' = length hist" unfolding h' by simp
  show "(\<forall>i<length slots. nat (slots ! i) \<noteq> r) \<Longrightarrow> h' ! r = hist ! r"
    unfolding h' using assms(3) by (auto intro!: fold_slots_other)
  assume i: "i < length slots"
  have load: "tl_load h (slots ! j) = h ! nat (slots ! j)"
    if "j < length slots" "length h = length hist" for h :: "int list list" and j
    using distinct_slots_nat[OF assms(1) that(1)] that(2) by (simp add: tl_load_def)
  have "fold (\<lambda>i h. h[nat (slots ! i) := ?g h i]) pids hist ! nat (slots ! i) = ?g hist i"
    by (rule fold_slots_own[where g = ?g and f = "\<lambda>i. nat (slots ! i)"])
       (use assms(2,3) i load distinct_slots_nat[OF assms(1)] distinct_slots_neq[OF assms(1)] in auto)
  also have "\<dots> = slide width (hist ! nat (slots ! i)) (toks ! i) (commits ! i)"
    using load[OF i] assms(4,6) i distinct_slots_nat[OF assms(1) i] by (simp add: commit_values_slide)
  finally show "h' ! nat (slots ! i) = slide width (hist ! nat (slots ! i)) (toks ! i) (commits ! i)"
    unfolding h' using i by auto
qed

lemma index_put_rows:
  assumes "index_put hist rows vals = Inr h'" "distinct_slots rows (length hist)"
  shows "length h' = length hist"
    and "i < length rows \<Longrightarrow> h' ! nat (rows ! i) = vals ! i"
    and "(\<forall>i<length rows. nat (rows ! i) \<noteq> r) \<Longrightarrow> h' ! r = hist ! r"
proof -
  have put: "fold (put_row rows vals) [0..<length rows] hist
      = fold (\<lambda>i h. h[nat (rows ! i) := vals ! i]) [0..<length rows] hist"
  proof (rule fold_cong)
    fix i assume "i \<in> set [0..<length rows]"
    then have "\<not> rows ! i < 0" using distinct_slots_nat[OF assms(2)] by force
    then show "put_row rows vals i = (\<lambda>h. h[nat (rows ! i) := vals ! i])"
      by (intro ext) (simp add: put_row_def)
  qed simp_all
  have h': "h' = fold (\<lambda>i h. h[nat (rows ! i) := vals ! i]) [0..<length rows] hist"
    using assms(1) put by (simp add: index_put_def ensure_Inr)
  show "length h' = length hist" by (simp add: h')
  show "i < length rows \<Longrightarrow> h' ! nat (rows ! i) = vals ! i" unfolding h'
    using distinct_slots_nat[OF assms(2)] distinct_slots_neq[OF assms(2)]
    by (intro fold_slots_own[where g = "\<lambda>_ i. vals ! i" and f = "\<lambda>i. nat (rows ! i)"]) auto
  show "(\<forall>i<length rows. nat (rows ! i) \<noteq> r) \<Longrightarrow> h' ! r = hist ! r" unfolding h'
    by (intro fold_slots_other) auto
qed

text \<open>Committing after verify: when the torch branch returns a history, the kernel, its
  programs in any order, produces the same one (live slots distinct, one program each).\<close>

theorem commit_kernel_matches_torch:
  assumes "distinct_slots req (length hist)" "distinct pids" "set pids = {..<length req}"
    and "\<forall>h\<in>set hist. length h = n1" "0 < n1"
    and "commit_after_verify False pids n1 (Some hist) verify_ids req commits = Inr hist'"
  shows "commit_after_verify True pids n1 (Some hist) verify_ids req commits = Inr hist'"
proof -
  obtain rows vals where rows: "res_list (py_get hist) req = Inr rows"
    and len: "length rows = length verify_ids" "length commits = length verify_ids"
    and vals: "res_list (\<lambda>(window, c). res_list (\<lambda>col. gather1 window (c + int col)) [0..<n1])
            (zip (map2 (@) rows verify_ids) commits) = Inr vals"
    and put: "index_put hist req vals = Inr hist'"
    using assms(6) by (auto simp: commit_after_verify_def commit_after_verify_torch_def res_simps)
  have lreq: "length req = length rows" using rows by (simp add: res_list_Inr)
  have row: "rows ! i = hist ! nat (req ! i)" if "i < length req" for i
    using rows that distinct_slots_nat[OF assms(1) that] by (auto simp: res_list_Inr py_get_Inr_nonneg)
  have width: "length (hist ! nat (req ! i)) = n1" if "i < length req" for i
    using assms(4) distinct_slots_nat[OF assms(1) that] by simp
  have val: "0 \<le> commits ! i \<and> commits ! i \<le> int (length (verify_ids ! i))
      \<and> vals ! i = slide n1 (hist ! nat (req ! i)) (verify_ids ! i) (commits ! i)"
    if i: "i < length req" for i
  proof -
    have "res_list (\<lambda>col. gather1 (rows ! i @ verify_ids ! i) (commits ! i + int col)) [0..<n1]
        = Inr (vals ! i)"
      using vals i lreq len by (auto simp: res_list_Inr)
    then show ?thesis using slide_gather[OF _ refl _ assms(5)] row[OF i] width[OF i] by metis
  qed
  let ?k = "engram_commit_history pids n1 hist verify_ids req commits"
  note kern = engram_commit_history_rows[OF assms(1-5), of commits verify_ids]
  have cb: "\<And>i. i < length req \<Longrightarrow> 0 \<le> commits ! i \<and> commits ! i \<le> int (length (verify_ids ! i))"
    using val by blast
  note torch = index_put_rows[OF put assms(1)]
  have "?k = hist'"
  proof (rule nth_equalityI)
    show "length ?k = length hist'" using kern(1)[OF cb] torch(1) by simp
    fix r assume "r < length ?k"
    show "?k ! r = hist' ! r"
    proof (cases "\<exists>i<length req. nat (req ! i) = r")
      case True
      then obtain i where i: "i < length req" "nat (req ! i) = r" by blast
      then show ?thesis using kern(2)[OF cb i(1)] torch(2)[OF i(1)] val[OF i(1)] by simp
    next
      case False
      then show ?thesis using kern(3)[OF cb, of r] torch(3)[of r] by auto
    qed
  qed
  then show ?thesis by (simp add: commit_after_verify_def)
qed

theorem commit_kernel_matches_torch_witness:
  "commit_after_verify True [1, 0] 2 (Some [[1, 2], [3, 4], [0, 0]]) [[5, 6, 7], [8, 9, 10]] [1, 0] [2, 1]
     = Inr [[2, 8], [5, 6], [0, 0]]"
  by (rule commit_kernel_matches_torch)
     (auto simp: distinct_slots_def commit_after_verify_def commit_after_verify_torch_def py_get_def
        Let_def res_map_def gather1_def index_put_def put_row_def upt_rec ensure_def)

section \<open>What the commits do to the history invariant\<close>

lemma mask_image_idem [simp]: "mask_image cfg (mask_image cfg x) = mask_image cfg x"
  by (simp add: mask_image_def split: option.split)

lemma hist_ok_empty [simp]: "length h = ngram cfg - 1 \<Longrightarrow> hist_ok cfg h []"
  by (simp add: hist_ok_def)

lemma hist_ok_slide:
  assumes "hist_ok cfg h xs" "0 \<le> c" "c \<le> int (length toks)"
  shows "hist_ok cfg (slide (ngram cfg - 1) h toks c) (xs @ take (nat c) toks)"
  unfolding hist_ok_def
proof (intro conjI allI impI)
  have lh: "length h = ngram cfg - 1" using assms(1) by (simp add: hist_ok_def)
  then show "length (slide (ngram cfg - 1) h toks c) = ngram cfg - 1" using assms by simp
  fix s assume s: "0 < s" "s < ngram cfg" and sx: "s \<le> length (xs @ take (nat c) toks)"
  have c: "nat c \<le> length toks" using assms(3) by simp
  have "slide (ngram cfg - 1) h toks c ! (ngram cfg - 1 - s) = (h @ toks) ! (nat c + (ngram cfg - 1 - s))"
    using s by (intro slide_nth[OF lh assms(2,3)]) simp
  moreover have "mask_image cfg ((h @ toks) ! (nat c + (ngram cfg - 1 - s)))
      = mask_image cfg ((xs @ take (nat c) toks) ! (length (xs @ take (nat c) toks) - s))"
  proof (cases "s \<le> nat c")
    case True
    have "nat c + (ngram cfg - 1 - s) = length h + (nat c - s)"
      "length (xs @ take (nat c) toks) - s = length xs + (nat c - s)" using True s lh c by auto
    then have "(h @ toks) ! (nat c + (ngram cfg - 1 - s)) = toks ! (nat c - s)"
      "(xs @ take (nat c) toks) ! (length (xs @ take (nat c) toks) - s) = take (nat c) toks ! (nat c - s)"
      by (metis nth_append_length_plus)+
    moreover have "nat c - s < nat c" using True s by simp
    ultimately show ?thesis by (simp only: nth_take)
  next
    case False
    then have "0 < s - nat c" "s - nat c < ngram cfg" "s - nat c \<le> length xs" using s sx c by auto
    then have "mask_image cfg (h ! (ngram cfg - 1 - (s - nat c))) = mask_image cfg (xs ! (length xs - (s - nat c)))"
      using assms(1) unfolding hist_ok_def by blast
    moreover have "nat c + (ngram cfg - 1 - s) = ngram cfg - 1 - (s - nat c)"
      "length (xs @ take (nat c) toks) - s = length xs - (s - nat c)"
      "ngram cfg - 1 - (s - nat c) < length h" "length xs - (s - nat c) < length xs"
      using False s c sx lh by auto
    ultimately show ?thesis by (simp only: nth_append if_True)
  qed
  ultimately show "mask_image cfg (slide (ngram cfg - 1) h toks c ! (ngram cfg - 1 - s))
      = mask_image cfg ((xs @ take (nat c) toks) ! (length (xs @ take (nat c) toks) - s))" by simp
qed

text \<open>Token ids and the image id fit the int32 columns.\<close>

definition tokens32 :: "engram_cfg \<Rightarrow> int list \<Rightarrow> bool" where
  "tokens32 cfg xs \<longleftrightarrow> (\<forall>x\<in>set xs. 0 \<le> x \<and> x < 2 ^ 31)
     \<and> (\<forall>img. image_token_id cfg = Some img \<longrightarrow> 0 \<le> img \<and> img < 2 ^ 31)"

lemma tokens32_mask: "tokens32 cfg xs \<Longrightarrow> x \<in> set xs \<Longrightarrow> i32 (mask_image cfg x) = mask_image cfg x"
  by (auto simp: tokens32_def mask_image_def i32_id split: option.split)

lemma hist_ok_commit_row:
  assumes "2 \<le> ngram cfg" "lane_at cfg hist slots b t xs p off" "tokens32 cfg xs"
  shows "hist_ok cfg (k_commit_row cfg hist slots b t) (take (Suc p) xs)"
  unfolding hist_ok_def
proof (intro conjI allI impI)
  show "length (k_commit_row cfg hist slots b t) = ngram cfg - 1" by (simp add: k_commit_row_def)
  have p: "p < length xs" using assms(2) by (simp add: lane_at_def)
  fix s assume s: "0 < s" "s < ngram cfg" "s \<le> length (take (Suc p) xs)"
  then have sp: "s - 1 \<le> p" by auto
  have "k_commit_row cfg hist slots b t ! (ngram cfg - 1 - s) = i32 (k_tok cfg hist slots b t (s - 1))"
  proof -
    have "ngram cfg - 2 - (ngram cfg - 1 - s) = s - 1" "ngram cfg - 1 - s < ngram cfg - 1"
      using s by auto
    then show ?thesis by (simp add: k_commit_row_def)
  qed
  also have "\<dots> = mask_image cfg (xs ! (p - (s - 1)))"
    using lane_pred[OF assms(1,2) _ sp] s tokens32_mask[OF assms(3)] p by simp
  finally show "mask_image cfg (k_commit_row cfg hist slots b t ! (ngram cfg - 1 - s))
      = mask_image cfg (take (Suc p) xs ! (length (take (Suc p) xs) - s))"
    using s p by (simp add: Suc_diff_le)
qed

section \<open>\<open>EngramHasher.forward\<close>\<close>

datatype forward_mode =
    ForwardDecode
  | TargetVerify (draft_token_num: nat)
  | ForwardExtend (extend_seq_lens: "int list") (extend_start_loc: "int list")
  | OtherMode

record forward_batch =
  mode_of :: forward_mode
  req_pool_indices :: "int list"
  fb_positions :: "int list"
  out_cache_loc :: "int list option"
  ngram_history :: "int list list option"

text \<open>\<open>init_history\<close>: zeros with a spare row for graph padding.\<close>

definition init_history :: "nat \<Rightarrow> engram_cfg \<Rightarrow> int list list \<times> int" where
  "init_history num_req_slots cfg =
     (replicate (num_req_slots + 1) (replicate (ngram cfg - 1) 0), int num_req_slots)"

definition repeat_interleave :: "nat \<Rightarrow> int list \<Rightarrow> int list res" where
  "repeat_interleave bs lens =
     ensure (length lens = bs \<and> (\<forall>l\<in>set lens. 0 \<le> l)) RuntimeError
       (Inr (concat (map (\<lambda>i. replicate (nat (lens ! i)) (int i)) [0..<bs])))"

text \<open>The batch \<open>forward\<close> builds for each mode, with the rows and tokens to commit.\<close>

definition decode_batch :: "forward_batch \<Rightarrow> int list \<Rightarrow> hash_batch" where
  "decode_batch fb ids = \<lparr>input_ids = ids, positions = fb_positions fb, kmode_of = MODE_DECODE,
     num_real = length ids, block = 1, row_of = [], starts_of = []\<rparr>"

definition verify_batch :: "nat \<Rightarrow> forward_batch \<Rightarrow> int list \<Rightarrow> hash_batch" where
  "verify_batch blk fb ids = \<lparr>input_ids = ids, positions = fb_positions fb, kmode_of = MODE_VERIFY,
     num_real = length ids, block = blk, row_of = [], starts_of = []\<rparr>"

definition extend_batch :: "int list \<Rightarrow> int list \<Rightarrow> forward_batch \<Rightarrow> int list \<Rightarrow> hash_batch" where
  "extend_batch row starts fb ids = \<lparr>input_ids = ids, positions = fb_positions fb,
     kmode_of = MODE_EXTEND, num_real = length row, block = 1, row_of = row, starts_of = starts\<rparr>"

text \<open>\<open>self.history[commit_rows] = last_tokens[:, : n - 1].flip(-1)\<close>, padded rows redirected.\<close>

definition forward_commit ::
    "nat \<Rightarrow> int \<Rightarrow> int list list \<Rightarrow> int list list \<Rightarrow> int list \<Rightarrow> int list option \<Rightarrow> int list option
       \<Rightarrow> int list list res" where
  "forward_commit n pad_row hist tokens commit_rows commit_last out_loc =
     (res_bind (case commit_last of None \<Rightarrow> Inr tokens | Some cl \<Rightarrow> res_list (py_get tokens) cl) (\<lambda>last_tokens.
         res_bind (case out_loc of
             None \<Rightarrow> Inr commit_rows
           | Some ol \<Rightarrow> res_bind (case commit_last of None \<Rightarrow> Inr ol | Some cl \<Rightarrow> res_list (py_get ol) cl) (\<lambda>ol'.
               ensure (length ol' = length commit_rows) RuntimeError
                 (Inr (map2 (\<lambda>o' r. if o' = 0 then pad_row else r) ol' commit_rows)))) (\<lambda>rows.
         index_put hist rows (map (\<lambda>tk. map i32 (rev (take (n - 1) tk))) last_tokens))))"

definition clamp :: "int \<Rightarrow> int \<Rightarrow> int \<Rightarrow> int" where
  "clamp lo hi x = min (max x lo) hi"

definition extend_rows :: "int \<Rightarrow> int list \<Rightarrow> int list \<Rightarrow> int list" where
  "extend_rows pad_row lens slots = map2 (\<lambda>l r. if 0 < l then r else pad_row) lens slots"

definition extend_last :: "nat \<Rightarrow> int list \<Rightarrow> int list \<Rightarrow> int list" where
  "extend_last num_tok starts lens = map2 (\<lambda>s l. clamp 0 (int num_tok - 1) (s + l - 1)) starts lens"

definition hash_ids_of ::
    "bool \<Rightarrow> engram_cfg \<Rightarrow> int list list \<Rightarrow> int list option \<Rightarrow> hash_batch
       \<Rightarrow> (int list list list \<times> int list list) res" where
  "hash_ids_of is_cuda cfg history slots b =
     (if is_cuda then ensure (launch_ok cfg history) AssertionError (Inr (engram_hash_ids cfg history slots b))
      else res_bind (gather_history history slots) (\<lambda>h. torch_hash_ids cfg h b))"

definition engram_forward ::
    "bool \<Rightarrow> nat list \<Rightarrow> engram_cfg \<Rightarrow> int \<Rightarrow> int list list option \<Rightarrow> int list \<Rightarrow> forward_batch
       \<Rightarrow> (int list list list \<times> int list list) res" where
  "engram_forward is_cuda pids cfg pad_row history ids fb =
    (case history of None \<Rightarrow> Inl AssertionError | Some hist \<Rightarrow>
     let n = ngram cfg; slots = req_pool_indices fb; bs = length slots; ol = out_cache_loc fb in
     if ids = [] then Inr ([], hist)
     else case mode_of fb of
       ForwardDecode \<Rightarrow>
         (let b = decode_batch fb ids in
          if is_cuda then (case ol of
              None \<Rightarrow> Inl AssertionError
            | Some o' \<Rightarrow> ensure (launch_ok cfg hist \<and> length o' = length ids) AssertionError
                (let r = engram_hash_ids_and_commit pids 32 cfg (Some slots) o' b
                      (hist, replicate (length ids) [])
                 in Inr (snd r, fst r)))
          else res_bind (hash_ids_of False cfg hist (Some slots) b) (\<lambda>(hs, toks).
               res_map (\<lambda>h'. (hs, h')) (forward_commit n pad_row hist toks slots None ol)))
     | TargetVerify blk \<Rightarrow>
         ensure (length ids = bs * blk) AssertionError
           (res_map (\<lambda>(hs, toks). (hs, hist))
             (hash_ids_of is_cuda cfg hist (Some slots) (verify_batch blk fb ids)))
     | ForwardExtend lens starts \<Rightarrow>
         res_bind (repeat_interleave bs lens) (\<lambda>row.
         ensure (length starts = bs) RuntimeError
         (let (history', hs_slots) = (case ngram_history fb of None \<Rightarrow> (hist, Some slots) | Some nh \<Rightarrow> (nh, None))
          in res_bind (hash_ids_of is_cuda cfg history' hs_slots (extend_batch row starts fb ids)) (\<lambda>(hs, toks).
             res_map (\<lambda>h'. (hs, h'))
               (forward_commit n pad_row hist toks (extend_rows pad_row lens slots)
                  (Some (extend_last (length ids) starts lens)) ol))))
     | OtherMode \<Rightarrow> Inl AssertionError)"

end
