(* ===== verification/EngramEngine.thy ===== *)
theory EngramEngine
  imports EngramForward
begin

text \<open>
  The engine that drives \<open>EngramHasher\<close>: request slots are admitted and released, extend
  steps carry the scheduler's predecessors (\<open>ngram_history\<close>), decode steps hash and commit
  in one launch, verify steps commit the accepted drafts.  \<open>seqs\<close> is the abstract state:
  the tokens each live slot's row must stand for.  The table is the concrete one.
\<close>

section \<open>The contract of a history row\<close>

text \<open>What a client of the history relies on: advancing a row by the first \<open>c\<close> tokens of a
  block makes it stand for the request's tokens followed by those.\<close>

locale ngram_row =
  fixes rep :: "'row \<Rightarrow> 'tok list \<Rightarrow> bool"
    and advance :: "'row \<Rightarrow> 'tok list \<Rightarrow> nat \<Rightarrow> 'row"
  assumes advance_rep: "rep h xs \<Longrightarrow> c \<le> length ts \<Longrightarrow> rep (advance h ts c) (xs @ take c ts)"
begin

lemma advance_run:
  "rep h xs \<Longrightarrow> \<forall>(ts, c)\<in>set blocks. c \<le> length ts \<Longrightarrow>
     rep (fold (\<lambda>(ts, c) r. advance r ts c) blocks h)
       (xs @ concat (map (\<lambda>(ts, c). take c ts) blocks))"
proof (induction blocks arbitrary: h xs)
  case (Cons b bs)
  obtain ts c where b: "b = (ts, c)" by fastforce
  have "rep (advance h ts c) (xs @ take c ts)" using Cons.prems b by (auto intro: advance_rep)
  then show ?case using Cons.IH[of "advance h ts c" "xs @ take c ts"] Cons.prems b by simp
qed simp

lemma advance_none: "rep h xs \<Longrightarrow> rep (advance h ts 0) xs"
  using advance_rep[of h xs 0 ts] by simp

lemma advance_split:
  "rep h xs \<Longrightarrow> c \<le> length ts \<Longrightarrow> d \<le> length us \<Longrightarrow>
     rep (advance (advance h ts c) us d) ((xs @ take c ts) @ take d us)"
  by (intro advance_rep)

end

interpretation slid: ngram_row "hist_ok cfg" "\<lambda>h ts c. slide (ngram cfg - 1) h ts (int c)" for cfg
proof
  fix h xs ts :: "int list" and c assume "hist_ok cfg h xs" "c \<le> length ts"
  then show "hist_ok cfg (slide (ngram cfg - 1) h ts (int c)) (xs @ take c ts)"
    using hist_ok_slide[of cfg h xs "int c" ts] by simp
qed

section \<open>Rows and runs of an extend batch\<close>

lemma repeat_nth:
  assumes "i < n" "j < f i"
  shows "concat (map (\<lambda>k. replicate (f k) (int k)) [0..<n]) ! (sum_list (map f [0..<i]) + j) = int i
     \<and> sum_list (map f [0..<i]) + j < length (concat (map (\<lambda>k. replicate (f k) (int k)) [0..<n]))"
  using assms(1)
proof (induction n)
  case (Suc n)
  let ?c = "\<lambda>n. concat (map (\<lambda>k. replicate (f k) (int k)) [0..<n])"
  have len: "length (?c n) = sum_list (map f [0..<n])"
    by (simp add: length_concat o_def)
  show ?case
  proof (cases "i < n")
    case True
    then show ?thesis using Suc.IH by (simp add: nth_append)
  next
    case False
    then have "i = n" using Suc.prems by simp
    then show ?thesis using assms(2) len by (simp add: nth_append_length_plus flip: len)
  qed
qed simp

text \<open>The scheduler's layout of an extend batch: runs back to back, in request order.\<close>

definition extend_layout :: "int list \<Rightarrow> int list \<Rightarrow> bool" where
  "extend_layout lens starts \<longleftrightarrow> length starts = length lens \<and> (\<forall>l\<in>set lens. 0 \<le> l)
     \<and> (\<forall>i<length lens. starts ! i = sum_list (take i lens) \<and> starts ! i < 2 ^ 31)"

text \<open>Request \<open>i\<close> runs tokens \<open>pre ..< pre + len\<close> of \<open>ys\<close>, and the row supplied with it
  holds the tokens before.\<close>

definition extend_req ::
    "engram_cfg \<Rightarrow> int list list \<Rightarrow> int list \<Rightarrow> int list \<Rightarrow> int \<Rightarrow> int \<Rightarrow> nat \<Rightarrow> int list \<Rightarrow> nat \<Rightarrow> bool" where
  "extend_req cfg nh ids ps start len i ys pre \<longleftrightarrow>
     0 \<le> start \<and> nat (start + len) \<le> length ids \<and> pre + nat len \<le> length ys
     \<and> (\<forall>j<nat len. ids ! (nat start + j) = ys ! (pre + j)
          \<and> nat start + j < length ps \<and> ps ! (nat start + j) = int (pre + j))
     \<and> length ys < 2 ^ 31 \<and> i < length nh \<and> hist_ok cfg (nh ! i) (take pre ys)"

lemma extend_lane:
  assumes "repeat_interleave bs lens = Inr row" "extend_layout lens starts" "i < bs" "j < nat (lens ! i)"
    and "extend_req cfg nh ids (fb_positions fb) (starts ! i) (lens ! i) i ys pre"
  shows "lane_at cfg nh None (extend_batch row starts fb ids) (nat (starts ! i) + j) ys (pre + j) j"
proof -
  let ?b = "extend_batch row starts fb ids"
  have bs: "length lens = bs" and nn: "\<forall>l\<in>set lens. 0 \<le> l"
    and row: "row = concat (map (\<lambda>i. replicate (nat (lens ! i)) (int i)) [0..<bs])"
    using assms(1) by (auto simp: repeat_interleave_def ensure_Inr)
  have nnk: "\<And>k. k < bs \<Longrightarrow> 0 \<le> lens ! k" using nn bs by simp
  have ls: "length starts = bs" using assms(2) bs by (simp add: extend_layout_def)
  have sti: "starts ! i = sum_list (take i lens)" "starts ! i < 2 ^ 31"
    using assms(2,3) unfolding extend_layout_def bs by blast+
  have "take i lens = map (\<lambda>k. lens ! k) [0..<i]"
    using assms(3) bs by (simp add: list_eq_iff_nth_eq)
  then have "nat (sum_list (take i lens)) = sum_list (map (\<lambda>k. nat (lens ! k)) [0..<i])"
  proof -
    have "int (sum_list (map (\<lambda>k. nat (lens ! k)) [0..<m])) = sum_list (map (\<lambda>k. lens ! k) [0..<m])"
      if "m \<le> i" for m
      using that by (induction m) (use nnk assms(3) in auto)
    from this[of i] \<open>take i lens = _\<close> show ?thesis by (metis nat_int order_refl)
  qed
  then have st: "nat (starts ! i) = sum_list (map (\<lambda>k. nat (lens ! k)) [0..<i])" using sti by simp
  define t where "t = nat (starts ! i) + j"
  have r: "row ! t = int i" "t < length row"
    using repeat_nth[of i bs j "\<lambda>k. nat (lens ! k)"] assms(3,4) st row t_def by auto
  have q: "0 \<le> starts ! i" "t < length ids" "pre + nat (lens ! i) \<le> length ys" "length ys < 2 ^ 31"
    "fb_positions fb ! t = int (pre + j)" "t < length (fb_positions fb)" "i < length nh"
    "hist_ok cfg (nh ! i) (take pre ys)"
    using assms(4,5) unfolding extend_req_def t_def by auto
  have kr: "k_row ?b t = int i"
    using r by (simp add: k_row_def extend_batch_def tl_load_mask_def tl_load_def)
  have ko: "k_off ?b t = int j"
    using kr r q(1) sti(2) ls assms(3) t_def
    by (simp add: k_off_def extend_batch_def tl_load_mask_def tl_load_def i32_id)
  have pj: "i32 (int (pre + j)) = int (pre + j)" using q assms(4) by (intro i32_id) auto
  have toks: "ids ! (t - s) = ys ! (pre + j - s)" if "s \<le> j" for s
  proof -
    have "j - s < nat (lens ! i)" using assms(4) by simp
    then have "ids ! (nat (starts ! i) + (j - s)) = ys ! (pre + (j - s))"
      using assms(5) unfolding extend_req_def by blast
    then show ?thesis using that t_def by simp
  qed
  have kh: "tl_load nh (k_hrow None ?b t) = nh ! i" using kr q(7) by (simp add: k_hrow_def tl_load_def)
  have "input_ids ?b = ids" "positions ?b = fb_positions fb" "num_real ?b = length row"
    by (simp_all add: extend_batch_def)
  moreover have "tl_load (fb_positions fb) (int t) = int (pre + j)"
    using q(5,6) by (simp add: tl_load_def)
  ultimately have "lane_at cfg nh None ?b t ys (pre + j) j"
    unfolding lane_at_def using r q toks ko kh pj t_def assms(4) by simp
  then show ?thesis by (simp add: t_def)
qed

section \<open>The engine\<close>

record engine =
  table :: "int list list"
  seqs :: "nat \<Rightarrow> int list option"

text \<open>\<open>grow old new live slot tok\<close>: each live lane's slot gains its tokens, others keep theirs.\<close>

definition grow ::
    "(nat \<Rightarrow> int list option) \<Rightarrow> (nat \<Rightarrow> int list option) \<Rightarrow> nat set \<Rightarrow> (nat \<Rightarrow> nat) \<Rightarrow> (nat \<Rightarrow> int list) \<Rightarrow> bool" where
  "grow old new live slot toks \<longleftrightarrow>
     (\<forall>i\<in>live. \<exists>xs. old (slot i) = Some xs \<and> new (slot i) = Some (xs @ toks i))
     \<and> (\<forall>r. r \<notin> slot ` live \<longrightarrow> new r = old r)"

definition grid_of :: "nat list \<Rightarrow> nat \<Rightarrow> bool" where
  "grid_of pids n \<longleftrightarrow> distinct pids \<and> full_grid pids n 32"

definition live_decode :: "forward_batch \<Rightarrow> int list \<Rightarrow> int list \<Rightarrow> nat set" where
  "live_decode fb ol ids = {t. t < length ids \<and> ol ! t \<noteq> 0}"

inductive engine_step :: "engram_cfg \<Rightarrow> nat \<Rightarrow> engine \<Rightarrow> engine \<Rightarrow> bool" for cfg pad where
  admit: "slot < pad \<Longrightarrow> seqs e slot = None \<Longrightarrow>
    engine_step cfg pad e (e\<lparr>seqs := (seqs e)(slot \<mapsto> [])\<rparr>)"
| release: "engine_step cfg pad e (e\<lparr>seqs := (seqs e)(slot := None)\<rparr>)"
| decode: "mode_of fb = ForwardDecode \<Longrightarrow> forward_batch.out_cache_loc fb = Some ol \<Longrightarrow> grid_of pids (length ids) \<Longrightarrow>
    length (req_pool_indices fb) = length ids \<Longrightarrow> length (fb_positions fb) = length ids \<Longrightarrow>
    live_rows_ok (Some (req_pool_indices fb)) ol (decode_batch fb ids) pad \<Longrightarrow>
    \<forall>t\<in>live_decode fb ol ids. \<exists>xs. seqs e (nat (req_pool_indices fb ! t)) = Some xs
        \<and> fb_positions fb ! t = int (length xs) \<and> tokens32 cfg (xs @ [ids ! t]) \<and> length xs < 2 ^ 31 \<Longrightarrow>
    engram_forward True pids cfg (int pad) (Some (table e)) ids fb = Inr (hs, table') \<Longrightarrow>
    grow (seqs e) seqs' (live_decode fb ol ids) (\<lambda>t. nat (req_pool_indices fb ! t)) (\<lambda>t. [ids ! t]) \<Longrightarrow>
    engine_step cfg pad e \<lparr>table = table', seqs = seqs'\<rparr>"
| verify: "distinct_slots req pad \<Longrightarrow> distinct pids \<Longrightarrow> set pids = {..<length req} \<Longrightarrow>
    \<forall>i<length req. 0 \<le> commits ! i \<and> commits ! i \<le> int (length (blocks ! i)) \<Longrightarrow>
    commit_after_verify True pids (ngram cfg - 1) (Some (table e)) blocks req commits = Inr table' \<Longrightarrow>
    grow (seqs e) seqs' {..<length req} (\<lambda>i. nat (req ! i)) (\<lambda>i. take (nat (commits ! i)) (blocks ! i)) \<Longrightarrow>
    engine_step cfg pad e \<lparr>table = table', seqs = seqs'\<rparr>"
| extend: "mode_of fb = ForwardExtend lens starts \<Longrightarrow> ngram_history fb = Some nh \<Longrightarrow>
    forward_batch.out_cache_loc fb = Some ol \<Longrightarrow> length ol = length ids \<Longrightarrow>
    extend_layout lens starts \<Longrightarrow> distinct_slots (req_pool_indices fb) pad \<Longrightarrow>
    \<forall>i<length lens. 0 < lens ! i \<longrightarrow> ol ! nat (starts ! i + lens ! i - 1) \<noteq> 0 
        \<and> extend_req cfg nh ids (fb_positions fb) (starts ! i) (lens ! i) i (ys i) (pre i) \<and> tokens32 cfg (ys i) \<Longrightarrow>
    engram_forward True pids cfg (int pad) (Some (table e)) ids fb = Inr (hs, table') \<Longrightarrow>
    \<forall>i<length lens. 0 < lens ! i \<longrightarrow>
        seqs' (nat (req_pool_indices fb ! i)) = Some (take (pre i + nat (lens ! i)) (ys i)) \<Longrightarrow>
    \<forall>r. (\<forall>i<length lens. 0 < lens ! i \<longrightarrow> nat (req_pool_indices fb ! i) \<noteq> r) \<longrightarrow> seqs' r = seqs e r \<Longrightarrow>
    engine_step cfg pad e \<lparr>table = table', seqs = seqs'\<rparr>"

definition engine_start :: "engram_cfg \<Rightarrow> nat \<Rightarrow> engine" where
  "engine_start cfg slots = \<lparr>table = fst (init_history slots cfg), seqs = (\<lambda>_. None)\<rparr>"

text \<open>The invariant: rows keep their width, and a live slot's row holds its newest tokens.\<close>

definition engine_inv :: "engram_cfg \<Rightarrow> nat \<Rightarrow> engine \<Rightarrow> bool" where
  "engine_inv cfg pad e \<longleftrightarrow> length (table e) = pad + 1
     \<and> (\<forall>r<pad. length (table e ! r) = ngram cfg - 1)
     \<and> (\<forall>r xs. seqs e r = Some xs \<longrightarrow> r < pad \<and> hist_ok cfg (table e ! r) xs)"

lemma engine_inv_start: "engine_inv cfg pad (engine_start cfg pad)"
  by (auto simp: engine_inv_def engine_start_def init_history_def nth_Cons')

text \<open>A step that replaces the rows of the grown slots keeps the invariant.\<close>

lemma engine_inv_grow:
  assumes "engine_inv cfg pad e" "length table' = length (table e)"
    and "grow (seqs e) seqs' live slot toks"
    and "\<And>i xs. i \<in> live \<Longrightarrow> seqs e (slot i) = Some xs \<Longrightarrow> hist_ok cfg (table' ! slot i) (xs @ toks i)"
    and "\<And>r. r \<notin> slot ` live \<Longrightarrow> table' ! r = table e ! r"
  shows "engine_inv cfg pad \<lparr>table = table', seqs = seqs'\<rparr>"
proof -
  have "r < pad \<and> hist_ok cfg (table' ! r) xs" if "seqs' r = Some xs" for r xs
  proof (cases "r \<in> slot ` live")
    case True
    then obtain i where i: "i \<in> live" "r = slot i" by blast
    then obtain ys where ys: "seqs e r = Some ys" "seqs' r = Some (ys @ toks i)"
      using assms(3) unfolding grow_def by blast
    then have "hist_ok cfg (table' ! r) (ys @ toks i)" using assms(4)[OF i(1)] i(2) by simp
    moreover have "r < pad" using assms(1) ys(1) unfolding engine_inv_def by blast
    ultimately show ?thesis using ys(2) that by simp
  next
    case False
    then have "seqs e r = Some xs" "table' ! r = table e ! r"
      using assms(3,5) that unfolding grow_def by auto
    then show ?thesis using assms(1) unfolding engine_inv_def by simp
  qed
  moreover have "length (table' ! r) = ngram cfg - 1" if "r < pad" for r
  proof (cases "r \<in> slot ` live")
    case True
    then obtain i where i: "i \<in> live" "r = slot i" by blast
    then obtain ys where "seqs e r = Some ys" using assms(3) unfolding grow_def by blast
    then have "hist_ok cfg (table' ! r) (ys @ toks i)" using assms(4)[OF i(1)] i(2) by simp
    then show ?thesis by (simp add: hist_ok_def)
  qed (use assms(1,5) that in \<open>simp add: engine_inv_def\<close>)
  ultimately show ?thesis using assms(1,2) by (simp add: engine_inv_def)
qed

lemma decode_lane:
  assumes "engine_inv cfg pad e" "seqs e (nat (req_pool_indices fb ! t)) = Some xs"
    and "fb_positions fb ! t = int (length xs)" "length xs < 2 ^ 31" "t < length ids"
    and "length (req_pool_indices fb) = length ids" "length (fb_positions fb) = length ids"
    and "0 \<le> req_pool_indices fb ! t"
  shows "lane_at cfg (table e) (Some (req_pool_indices fb)) (decode_batch fb ids) t
           (xs @ [ids ! t]) (length xs) 0"
proof -
  have row: "k_hrow (Some (req_pool_indices fb)) (decode_batch fb ids) t = req_pool_indices fb ! t"
    using assms(5,6) by (simp add: k_hrow_def k_row_def decode_batch_def tl_load_mask_def tl_load_def)
  have r: "nat (req_pool_indices fb ! t) < length (table e)"
    "hist_ok cfg (table e ! nat (req_pool_indices fb ! t)) xs"
    using assms(1,2) unfolding engine_inv_def by (metis Suc_eq_plus1 less_SucI, blast)
  have "tl_load (table e) (req_pool_indices fb ! t) = table e ! nat (req_pool_indices fb ! t)"
    using r(1) assms(8) by (simp add: tl_load_def)
  then show ?thesis using assms(3-5,7) row r(2)
    by (simp add: lane_at_def decode_batch_def k_off_def tl_load_def i32_id)
qed

lemma decode_row:
  "t < length ids \<Longrightarrow> length (req_pool_indices fb) = length ids \<Longrightarrow>
     k_hrow (Some (req_pool_indices fb)) (decode_batch fb ids) t = req_pool_indices fb ! t"
  by (simp add: k_hrow_def k_row_def decode_batch_def tl_load_mask_def tl_load_def)

lemma decode_live:
  "t < length ids \<Longrightarrow> k_live (decode_batch fb ids) ol t \<longleftrightarrow> t \<in> live_decode fb ol ids"
  by (simp add: k_live_def decode_batch_def live_decode_def)

lemma forward_decode_cuda:
  assumes "mode_of fb = ForwardDecode" "forward_batch.out_cache_loc fb = Some ol" "ids \<noteq> []"
    and "engram_forward True pids cfg pad (Some hist) ids fb = Inr (hs, table')"
  shows "(table', hs) = engram_hash_ids_and_commit pids 32 cfg (Some (req_pool_indices fb)) ol
           (decode_batch fb ids) (hist, replicate (length ids) [])"
  using assms by (auto simp: engram_forward_def Let_def ensure_Inr)

lemma grid_covers: "grid_of pids n \<Longrightarrow> t < n \<Longrightarrow> t div 32 \<in> set pids"
  using cdiv_covers[of 32 t n] by (simp add: grid_of_def full_grid_def)

lemma decode_step:
  assumes "2 \<le> ngram cfg" "engine_inv cfg pad e"
    and "mode_of fb = ForwardDecode" "forward_batch.out_cache_loc fb = Some ol" "grid_of pids (length ids)"
    and "length (req_pool_indices fb) = length ids" "length (fb_positions fb) = length ids"
    and "live_rows_ok (Some (req_pool_indices fb)) ol (decode_batch fb ids) pad"
    and live: "\<forall>t\<in>live_decode fb ol ids. \<exists>xs. seqs e (nat (req_pool_indices fb ! t)) = Some xs
        \<and> fb_positions fb ! t = int (length xs) \<and> tokens32 cfg (xs @ [ids ! t]) \<and> length xs < 2 ^ 31"
    and "engram_forward True pids cfg (int pad) (Some (table e)) ids fb = Inr (hs, table')"
  shows "length table' = length (table e)"
    and "t \<in> live_decode fb ol ids \<Longrightarrow> seqs e (nat (req_pool_indices fb ! t)) = Some xs \<Longrightarrow>
      hist_ok cfg (table' ! nat (req_pool_indices fb ! t)) (xs @ [ids ! t])
      \<and> hs ! t = spec_hash cfg (xs @ [ids ! t]) (length xs)"
    and "r \<notin> (\<lambda>t. nat (req_pool_indices fb ! t)) ` live_decode fb ol ids \<Longrightarrow> table' ! r = table e ! r"
proof -
  let ?b = "decode_batch fb ids"
  let ?sl = "Some (req_pool_indices fb)"
  have nt: "num_tokens ?b = length ids" by (simp add: decode_batch_def)
  have eq: "(table', hs) = (if ids = [] then (table e, [])
      else engram_hash_ids_and_commit pids 32 cfg ?sl ol ?b (table e, replicate (length ids) []))"
  proof (cases "ids = []")
    case True
    then show ?thesis using assms(10) by (simp add: engram_forward_def Let_def)
  next
    case False
    then show ?thesis using forward_decode_cuda[OF assms(3,4) False assms(10)] by simp
  qed
  have st: "table' = fst (engram_hash_ids_and_commit pids 32 cfg ?sl ol ?b (table e, replicate (length ids) []))"
    "hs = snd (engram_hash_ids_and_commit pids 32 cfg ?sl ol ?b (table e, replicate (length ids) []))"
    if "ids \<noteq> []" using eq that by (simp_all, metis fst_conv, metis snd_conv)
  have ok: "live_rows_ok ?sl ol ?b (length (table e))"
    using assms(2,8) unfolding live_rows_ok_def engine_inv_def by (metis less_SucI Suc_eq_plus1)
  show "length table' = length (table e)"
    using eq st by (cases "ids = []") simp_all
  show "r \<notin> (\<lambda>t. nat (req_pool_indices fb ! t)) ` live_decode fb ol ids \<Longrightarrow> table' ! r = table e ! r"
  proof -
    assume r: "r \<notin> (\<lambda>t. nat (req_pool_indices fb ! t)) ` live_decode fb ol ids"
    show "table' ! r = table e ! r"
    proof (cases "ids = []")
      case False
      have "k_live ?b ol t \<longrightarrow> nat (k_hrow ?sl ?b t) \<noteq> r" if "t < num_tokens ?b" for t
        using r that nt decode_live decode_row[OF _ assms(6)] by (metis image_eqI)
      then show ?thesis using st(1)[OF False]
          launch_hist_other[of 32 ?b pids ol ?sl r cfg "(table e, replicate (length ids) [])"] by simp
    qed (use eq in simp)
  qed
  assume t: "t \<in> live_decode fb ol ids" and xs: "seqs e (nat (req_pool_indices fb ! t)) = Some xs"
  have tl: "t < length ids" using t by (simp add: live_decode_def)
  then have ne: "ids \<noteq> []" by auto
  have p: "fb_positions fb ! t = int (length xs)" "tokens32 cfg (xs @ [ids ! t])" "length xs < 2 ^ 31"
    using live t xs by auto
  have kl: "k_live ?b ol t" using t tl decode_live by simp
  have nn: "0 \<le> req_pool_indices fb ! t"
    using assms(8) kl tl nt decode_row[OF tl assms(6)] unfolding live_rows_ok_def by metis
  note lane = decode_lane[OF assms(2) xs p(1,3) tl assms(6,7) nn]
  have "table' ! nat (req_pool_indices fb ! t) = k_commit_row cfg (table e) ?sl ?b t
      \<and> hs ! t = k_hash cfg (table e) ?sl ?b t"
    using launch_own[of 32 ?sl ol ?b "(table e, replicate (length ids) [])" t pids cfg]
      ok kl tl nt assms(5) grid_covers[OF assms(5) tl] st[OF ne] decode_row[OF tl assms(6)]
    by (simp add: grid_of_def)
  then show "hist_ok cfg (table' ! nat (req_pool_indices fb ! t)) (xs @ [ids ! t])
      \<and> hs ! t = spec_hash cfg (xs @ [ids ! t]) (length xs)"
    using hist_ok_commit_row[OF assms(1) lane p(2)] hash_path_independent[OF assms(1) lane] by simp
qed

lemma flip_tokens:
  "map i32 (rev (take (ngram cfg - 1) (map (\<lambda>s. i32 (k_tok cfg hist slots b t s)) [0..<ngram cfg])))
     = k_commit_row cfg hist slots b t"
  by (rule nth_equalityI) (auto simp: k_commit_row_def rev_nth take_map)

lemma index_put_own:
  assumes "index_put hist rows vals = Inr h'" "i < length rows" "0 \<le> rows ! i"
    and "\<forall>j<length rows. 0 \<le> rows ! j \<and> (j \<noteq> i \<longrightarrow> rows ! j \<noteq> rows ! i)"
  shows "h' ! nat (rows ! i) = vals ! i"
proof -
  have put: "fold (put_row rows vals) [0..<length rows] hist
      = fold (\<lambda>i h. if True then h[nat (rows ! i) := vals ! i] else h) [0..<length rows] hist"
    by (rule fold_cong) (use assms(4) in \<open>auto simp: put_row_def fun_eq_iff not_less\<close>)
  have "nat (rows ! i) < length hist"
  proof -
    have "rows ! i < int (length hist)"
      using assms(1,2) nth_mem[of i rows] by (simp add: index_put_def ensure_Inr)
    then show ?thesis using assms(3) by simp
  qed
  moreover have "\<forall>u<length rows. u \<noteq> i \<longrightarrow> nat (rows ! u) \<noteq> nat (rows ! i)"
    using assms(3,4) by (metis eq_nat_nat_iff)
  ultimately have "fold (\<lambda>i h. if True then h[nat (rows ! i) := vals ! i] else h) [0..<length rows] hist
      ! nat (rows ! i) = vals ! i"
    using assms(2) by (intro fold_rows_same[where P = "\<lambda>_. True" and f = "\<lambda>i. nat (rows ! i)"]) auto
  then show ?thesis using assms(1) put by (simp add: index_put_def ensure_Inr)
qed

lemma index_put_other:
  assumes "index_put hist rows vals = Inr h'"
    and "\<forall>j<length rows. 0 \<le> rows ! j \<and> nat (rows ! j) \<noteq> r"
  shows "h' ! r = hist ! r" "length h' = length hist"
proof -
  have put: "fold (put_row rows vals) [0..<length rows] hist
      = fold (\<lambda>i h. if True then h[nat (rows ! i) := vals ! i] else h) [0..<length rows] hist"
    by (rule fold_cong) (use assms(2) in \<open>auto simp: put_row_def fun_eq_iff not_less\<close>)
  then have h': "h' = fold (\<lambda>i h. if True then h[nat (rows ! i) := vals ! i] else h) [0..<length rows] hist"
    using assms(1) by (simp add: index_put_def ensure_Inr)
  show "h' ! r = hist ! r" unfolding h' by (rule fold_rows_other) (use assms(2) in auto)
  show "length h' = length hist" unfolding h' by (rule fold_rows_length)
qed

lemma index_put_length: "index_put hist rows vals = Inr h' \<Longrightarrow> length h' = length hist"
proof -
  assume "index_put hist rows vals = Inr h'"
  moreover have "length (fold (put_row rows vals) is hist) = length hist" for "is"
    by (induction "is" arbitrary: hist) (simp_all add: put_row_def)
  ultimately show ?thesis by (auto simp: index_put_def ensure_Inr)
qed

lemma forward_extend_cuda:
  assumes "mode_of fb = ForwardExtend lens starts" "ngram_history fb = Some nh"
    and "forward_batch.out_cache_loc fb = Some ol" "ids \<noteq> []"
    and "engram_forward True pids cfg pad (Some hist) ids fb = Inr (hs, table')"
  obtains row where "repeat_interleave (length (req_pool_indices fb)) lens = Inr row"
    and "hs = fst (engram_hash_ids cfg nh None (extend_batch row starts fb ids))"
    and "forward_commit (ngram cfg) pad hist (snd (engram_hash_ids cfg nh None (extend_batch row starts fb ids)))
           (extend_rows pad lens (req_pool_indices fb)) (Some (extend_last (length ids) starts lens))
           (Some ol) = Inr table'"
proof -
  obtain row where "repeat_interleave (length (req_pool_indices fb)) lens = Inr row"
    and "(case engram_hash_ids cfg nh None (extend_batch row starts fb ids) of (hs', toks) \<Rightarrow>
        res_map (\<lambda>h'. (hs', h')) (forward_commit (ngram cfg) pad hist toks
          (extend_rows pad lens (req_pool_indices fb)) (Some (extend_last (length ids) starts lens))
          (Some ol))) = Inr (hs, table')"
    using assms by (auto simp: engram_forward_def Let_def hash_ids_of_def res_bind_Inr ensure_Inr)
  then show thesis by (intro that) (auto simp: res_simps split_beta)
qed

lemma extend_commit_rows:
  assumes "forward_commit n pad hist tokens (extend_rows pad lens slots)
      (Some (extend_last num starts lens)) (Some ol) = Inr table'"
    and "length lens = length slots" "length starts = length slots" "length ol = num" "0 < num"
    and "\<And>i. i < length lens \<Longrightarrow> 0 < lens ! i \<Longrightarrow>
      0 \<le> starts ! i \<and> nat (starts ! i + lens ! i) \<le> num \<and> ol ! nat (starts ! i + lens ! i - 1) \<noteq> 0"
  obtains rows last where "rows = map (\<lambda>i. if 0 < lens ! i then slots ! i else pad) [0..<length slots]"
    and "length last = length slots"
    and "\<And>i. i < length slots \<Longrightarrow> 0 < lens ! i \<Longrightarrow>
       py_get tokens (starts ! i + lens ! i - 1) = Inr (last ! i)"
    and "index_put hist rows (map (\<lambda>tk. map i32 (rev (take (n - 1) tk))) last) = Inr table'"
proof -
  let ?cl = "extend_last num starts lens"
  have lcl: "length ?cl = length slots" using assms(2,3) by (simp add: extend_last_def)
  obtain last ol' where last: "res_list (py_get tokens) ?cl = Inr last"
    and ol': "res_list (py_get ol) ?cl = Inr ol'"
    and put: "index_put hist (map2 (\<lambda>o' r. if o' = 0 then pad else r) ol' (extend_rows pad lens slots))
        (map (\<lambda>tk. map i32 (rev (take (n - 1) tk))) last) = Inr table'"
    using assms(1) by (auto simp: forward_commit_def res_simps)
  have cl: "?cl ! i = starts ! i + lens ! i - 1" if "i < length slots" "0 < lens ! i" for i
    using assms(2,3,5) assms(6)[of i] that by (auto simp: extend_last_def clamp_def)
  have rows: "map2 (\<lambda>o' r. if o' = 0 then pad else r) ol' (extend_rows pad lens slots)
      = map (\<lambda>i. if 0 < lens ! i then slots ! i else pad) [0..<length slots]"
  proof (rule nth_equalityI)
    have lo: "length ol' = length slots" using ol' lcl by (simp add: res_list_Inr)
    then show "length (map2 (\<lambda>o' r. if o' = 0 then pad else r) ol' (extend_rows pad lens slots))
        = length (map (\<lambda>i. if 0 < lens ! i then slots ! i else pad) [0..<length slots])"
      using assms(2) by (simp add: extend_rows_def)
    fix i assume "i < length (map2 (\<lambda>o' r. if o' = 0 then pad else r) ol' (extend_rows pad lens slots))"
    then have i: "i < length slots" using lo assms(2) by (simp add: extend_rows_def)
    have "ol' ! i \<noteq> 0" if "0 < lens ! i"
    proof -
      have "py_get ol (starts ! i + lens ! i - 1) = Inr (ol' ! i)"
        using ol' lcl i cl[OF i that] by (auto simp: res_list_Inr)
      then show ?thesis using assms(2) assms(6)[of i] i that by (simp add: py_get_Inr_nonneg)
    qed
    then show "map2 (\<lambda>o' r. if o' = 0 then pad else r) ol' (extend_rows pad lens slots) ! i
        = map (\<lambda>i. if 0 < lens ! i then slots ! i else pad) [0..<length slots] ! i"
      using i lo assms(2) by (auto simp: extend_rows_def)
  qed
  show thesis
  proof (rule that[OF rows])
    show "length last = length slots" using last lcl by (simp add: res_list_Inr)
    fix i assume i: "i < length slots" "0 < lens ! i"
    have "py_get tokens (?cl ! i) = Inr (last ! i)" using last lcl i(1) by (simp add: res_list_Inr)
    then show "py_get tokens (starts ! i + lens ! i - 1) = Inr (last ! i)" using cl[OF i] by simp
  qed (rule put)
qed

lemma extend_step:
  assumes "2 \<le> ngram cfg" "engine_inv cfg pad e"
    and m: "mode_of fb = ForwardExtend lens starts" "ngram_history fb = Some nh"
      "forward_batch.out_cache_loc fb = Some ol" "length ol = length ids"
    and lay: "extend_layout lens starts" "distinct_slots (req_pool_indices fb) pad"
    and req: "\<forall>i<length lens. 0 < lens ! i \<longrightarrow> ol ! nat (starts ! i + lens ! i - 1) \<noteq> 0
        \<and> extend_req cfg nh ids (fb_positions fb) (starts ! i) (lens ! i) i (ys i) (pre i) \<and> tokens32 cfg (ys i)"
    and fwd: "engram_forward True pids cfg (int pad) (Some (table e)) ids fb = Inr (hs, table')"
    and ne: "ids \<noteq> []"
  shows "length table' = length (table e)"
    and "i < length lens \<Longrightarrow> 0 < lens ! i \<Longrightarrow>
      hist_ok cfg (table' ! nat (req_pool_indices fb ! i)) (take (pre i + nat (lens ! i)) (ys i))"
    and "i < length lens \<Longrightarrow> j < nat (lens ! i) \<Longrightarrow> hs ! (nat (starts ! i) + j) = spec_hash cfg (ys i) (pre i + j)"
    and "r < pad \<Longrightarrow> (\<forall>i<length lens. 0 < lens ! i \<longrightarrow> nat (req_pool_indices fb ! i) \<noteq> r) \<Longrightarrow> table' ! r = table e ! r"
proof -
  let ?sl = "req_pool_indices fb"
  obtain row where row: "repeat_interleave (length ?sl) lens = Inr row"
    and hs: "hs = fst (engram_hash_ids cfg nh None (extend_batch row starts fb ids))"
    and fc: "forward_commit (ngram cfg) (int pad) (table e)
           (snd (engram_hash_ids cfg nh None (extend_batch row starts fb ids)))
           (extend_rows (int pad) lens ?sl) (Some (extend_last (length ids) starts lens)) (Some ol) = Inr table'"
    using forward_extend_cuda[OF m(1-3) ne fwd] by blast
  let ?b = "extend_batch row starts fb ids"
  have ll: "length lens = length ?sl" "length starts = length ?sl"
    using row lay(1) by (auto simp: repeat_interleave_def ensure_Inr extend_layout_def)
  have er: "extend_req cfg nh ids (fb_positions fb) (starts ! i) (lens ! i) i (ys i) (pre i)"
    if "i < length lens" "0 < lens ! i" for i using req that by blast
  obtain rows last where rows: "rows = map (\<lambda>i. if 0 < lens ! i then ?sl ! i else int pad) [0..<length ?sl]"
    and ll': "length last = length ?sl"
    and last: "\<And>i. i < length ?sl \<Longrightarrow> 0 < lens ! i \<Longrightarrow>
       py_get (snd (engram_hash_ids cfg nh None ?b)) (starts ! i + lens ! i - 1) = Inr (last ! i)"
    and put: "index_put (table e) rows (map (\<lambda>tk. map i32 (rev (take (ngram cfg - 1) tk))) last) = Inr table'"
    by (rule extend_commit_rows[OF fc ll m(4)]) (use ne req er in \<open>auto simp: extend_req_def\<close>)
  have slot: "0 \<le> ?sl ! i \<and> ?sl ! i < int pad" if "i < length ?sl" for i
    using lay(2) nth_mem[OF that] unfolding distinct_slots_def by blast
  show "length table' = length (table e)" by (rule index_put_length[OF put])
  show "i < length lens \<Longrightarrow> j < nat (lens ! i) \<Longrightarrow> hs ! (nat (starts ! i) + j) = spec_hash cfg (ys i) (pre i + j)"
  proof -
    assume i: "i < length lens" and j: "j < nat (lens ! i)"
    note lane = extend_lane[OF row lay(1) _ j er]
    have hash_ids_lane: "lane_at cfg nh None ?b (nat (starts ! i) + j) (ys i) (pre i + j) j"
      by (rule lane) (use i j ll in auto)
    then have "nat (starts ! i) + j < num_tokens ?b" by (simp add: lane_at_def)
    then show ?thesis using hash_path_independent[OF assms(1) hash_ids_lane]
      by (simp add: hs engram_hash_ids_def)
  qed
  show "r < pad \<Longrightarrow> (\<forall>i<length lens. 0 < lens ! i \<longrightarrow> nat (?sl ! i) \<noteq> r) \<Longrightarrow> table' ! r = table e ! r"
    by (rule index_put_other(1)[OF put]) (use ll rows slot in auto)
  assume i: "i < length lens" and pos: "0 < lens ! i"
  define t where "t = nat (starts ! i) + (nat (lens ! i) - 1)"
  have j: "nat (lens ! i) - 1 < nat (lens ! i)" using pos by simp
  have lane: "lane_at cfg nh None ?b t (ys i) (pre i + (nat (lens ! i) - 1)) (nat (lens ! i) - 1)"
    unfolding t_def by (rule extend_lane[OF row lay(1) _ j er[OF i pos]]) (use i ll in simp)
  have st: "0 \<le> starts ! i" using er[OF i pos] by (simp add: extend_req_def)
  have t: "starts ! i + lens ! i - 1 = int t" using st pos by (simp add: t_def)
  have "last ! i = map (\<lambda>s. i32 (k_tok cfg nh None ?b t s)) [0..<ngram cfg]"
    using last[of i] i pos ll t lane by (auto simp: py_get_Inr_nonneg engram_hash_ids_def)
  then have "map i32 (rev (take (ngram cfg - 1) (last ! i))) = k_commit_row cfg nh None ?b t"
    by (simp only: flip_tokens)
  moreover have "table' ! nat (rows ! i) = map (\<lambda>tk. map i32 (rev (take (ngram cfg - 1) tk))) last ! i"
  proof (rule index_put_own[OF put])
    have "?sl ! j \<noteq> ?sl ! i" if "j < length ?sl" "j \<noteq> i" for j
      using lay(2) that i ll by (auto simp: distinct_slots_def nth_eq_iff_index_eq)
    moreover have "int pad \<noteq> ?sl ! i" using slot[of i] i ll by auto
    ultimately show "\<forall>j<length rows. 0 \<le> rows ! j \<and> (j \<noteq> i \<longrightarrow> rows ! j \<noteq> rows ! i)"
      using rows i ll pos slot by auto
  qed (use rows i ll pos slot in auto)
  ultimately have "table' ! nat (?sl ! i) = k_commit_row cfg nh None ?b t"
    using rows i ll pos ll' by simp
  moreover have "Suc (pre i + (nat (lens ! i) - 1)) = pre i + nat (lens ! i)" using pos by simp
  ultimately show "hist_ok cfg (table' ! nat (?sl ! i)) (take (pre i + nat (lens ! i)) (ys i))"
    using hist_ok_commit_row[OF assms(1) lane] req i pos by metis
qed

lemma verify_step:
  assumes "2 \<le> ngram cfg" "engine_inv cfg pad e" "distinct_slots req pad" "distinct pids"
    and "set pids = {..<length req}" "\<forall>r\<in>set (table e). length r = ngram cfg - 1"
    and "\<forall>i<length req. 0 \<le> commits ! i \<and> commits ! i \<le> int (length (blocks ! i))"
    and "commit_after_verify True pids (ngram cfg - 1) (Some (table e)) blocks req commits = Inr table'"
  shows "length table' = length (table e)"
    and "i < length req \<Longrightarrow> seqs e (nat (req ! i)) = Some xs \<Longrightarrow>
      hist_ok cfg (table' ! nat (req ! i)) (xs @ take (nat (commits ! i)) (blocks ! i))"
    and "r \<notin> (\<lambda>i. nat (req ! i)) ` {..<length req} \<Longrightarrow> table' ! r = table e ! r"
proof -
  have t': "table' = engram_commit_history pids (ngram cfg - 1) (table e) blocks req commits"
    using assms(8) by (simp add: commit_after_verify_def)
  have ds: "distinct_slots req (length (table e))"
    using assms(2,3) by (auto simp: distinct_slots_def engine_inv_def)
  have w: "0 < ngram cfg - 1" using assms(1) by simp
  have cb: "\<And>i. i < length req \<Longrightarrow> 0 \<le> commits ! i \<and> commits ! i \<le> int (length (blocks ! i))"
    using assms(7) by blast
  note rows = engram_commit_history_rows[OF ds assms(4-6) w cb]
  show "length table' = length (table e)" unfolding t' by (rule rows(1))
  show "r \<notin> (\<lambda>i. nat (req ! i)) ` {..<length req} \<Longrightarrow> table' ! r = table e ! r"
    unfolding t' by (rule rows(3)) auto
  assume i: "i < length req" and xs: "seqs e (nat (req ! i)) = Some xs"
  have row: "engram_commit_history pids (ngram cfg - 1) (table e) blocks req commits ! nat (req ! i)
      = slide (ngram cfg - 1) (table e ! nat (req ! i)) (blocks ! i) (commits ! i)"
    by (rule rows(2)) (use i in auto)
  have "hist_ok cfg (table e ! nat (req ! i)) xs" using assms(2) xs unfolding engine_inv_def by blast
  moreover have "nat (commits ! i) \<le> length (blocks ! i)" "int (nat (commits ! i)) = commits ! i"
    using cb[OF i] by auto
  ultimately show "hist_ok cfg (table' ! nat (req ! i)) (xs @ take (nat (commits ! i)) (blocks ! i))"
    unfolding t' row using slid.advance_rep by metis
qed

lemma forward_empty:
  "mode_of fb = ForwardExtend lens starts \<Longrightarrow>
     engram_forward True pids cfg pad (Some hist) [] fb = Inr (hs, table') \<Longrightarrow> table' = hist"
  by (simp add: engram_forward_def Let_def)

lemma extend_req_empty:
  "extend_req cfg nh [] ps start len i ys pre \<Longrightarrow> 0 < len \<Longrightarrow> False"
  by (auto simp: extend_req_def)

text \<open>The pad row has the rows' width in every reachable state, so the launch assertions hold.\<close>

definition table_rect :: "engram_cfg \<Rightarrow> engine \<Rightarrow> bool" where
  "table_rect cfg e \<longleftrightarrow> (\<forall>r\<in>set (table e). length r = ngram cfg - 1)"

lemma table_rectI:
  assumes "length table' = length (table e)" "table_rect cfg e"
    and "\<And>r. r < length (table e) \<Longrightarrow> table' ! r = table e ! r \<or> length (table' ! r) = ngram cfg - 1"
  shows "table_rect cfg \<lparr>table = table', seqs = seqs'\<rparr>"
  using assms by (fastforce simp: table_rect_def in_set_conv_nth)

lemma index_put_range:
  assumes "index_put hist rows vals = Inr h'" "\<forall>v\<in>set vals. P v" "\<forall>h\<in>set hist. P h"
  shows "\<forall>h\<in>set h'. P h"
proof -
  have len: "length vals = length rows" and h': "h' = fold (put_row rows vals) [0..<length rows] hist"
    using assms(1) by (auto simp: index_put_def ensure_Inr)
  have "set is \<subseteq> {..<length rows} \<Longrightarrow> \<forall>h\<in>set hist. P h \<Longrightarrow> \<forall>h\<in>set (fold (put_row rows vals) is hist). P h"
    for "is" hist
  proof (induction "is" arbitrary: hist)
    case (Cons i js)
    have "P (vals ! i)" using Cons.prems(1) len assms(2) by simp
    then have "\<forall>h\<in>set (put_row rows vals i hist). P h"
      using Cons.prems(2) unfolding put_row_def
      by (auto dest!: set_update_subset_insert[THEN subsetD])
    then show ?case using Cons.IH Cons.prems(1) by simp
  qed simp
  then show ?thesis using assms(3) h' by (metis atLeast_upt order_refl)
qed

text \<open>Every kind of step keeps the invariant and the shape of the table.\<close>

lemma engine_step_inv:
  assumes "2 \<le> ngram cfg" "engine_step cfg pad e e'" "engine_inv cfg pad e \<and> table_rect cfg e"
  shows "engine_inv cfg pad e'"
  using assms(2)
proof cases
  case (admit slot)
  then show ?thesis using assms(3) by (auto simp: engine_inv_def)
next
  case (release slot)
  then show ?thesis using assms(3) by (auto simp: engine_inv_def)
next
  case (decode fb ol pids ids hs table' seqs')
  have inv: "engine_inv cfg pad e" using assms(3) by simp
  note st = decode_step[OF assms(1) inv decode(2-9)]
  show ?thesis unfolding decode(1)
    by (rule engine_inv_grow[OF inv st(1) decode(10)]) (use st(2,3) in auto)
next
  case (verify req pids commits blocks table' seqs')
  have inv: "engine_inv cfg pad e" and rect: "\<forall>r\<in>set (table e). length r = ngram cfg - 1"
    using assms(3) by (auto simp: table_rect_def)
  note st = verify_step[OF assms(1) inv verify(2-4) rect verify(5,6)]
  show ?thesis unfolding verify(1)
    by (rule engine_inv_grow[OF inv st(1) verify(7)]) (use st(2,3) in auto)
next
  case (extend fb lens starts nh ol ids ys pre pids hs table' seqs')
  have inv: "engine_inv cfg pad e" using assms(3) by simp
  let ?sl = "req_pool_indices fb"
  show ?thesis
  proof (cases "ids = []")
    case True
    then have "table' = table e" using forward_empty extend(2,9) by metis
    moreover have "seqs' = seqs e"
      using extend(8,11) True extend_req_empty by (metis ext)
    ultimately show ?thesis using inv extend(1) by (simp add: engine_inv_def)
  next
    case False
    note st = extend_step[OF assms(1) inv extend(2-9) False]
    have lens: "length lens \<le> length ?sl"
    proof -
      obtain row where "repeat_interleave (length ?sl) lens = Inr row"
        using forward_extend_cuda[OF extend(2,3,4) False extend(9)] by blast
      then show ?thesis by (simp add: repeat_interleave_def ensure_Inr)
    qed
    have slot: "nat (?sl ! i) < pad" if "i < length lens" for i
      using distinct_slots_nat[OF extend(7)] that lens by simp
    have own: "r < pad \<and> hist_ok cfg (table' ! r) xs" if r: "seqs' r = Some xs" for r xs
    proof (cases "\<exists>i<length lens. 0 < lens ! i \<and> nat (?sl ! i) = r")
      case True
      then obtain i where "i < length lens" "0 < lens ! i" "nat (?sl ! i) = r" by blast
      then show ?thesis using extend(10) r st(2) slot by fastforce
    next
      case False
      then have "seqs e r = Some xs" using extend(11) r by auto
      then show ?thesis using inv st(4)[of r] False unfolding engine_inv_def by auto
    qed
    have "length (table' ! r) = ngram cfg - 1" if "r < pad" for r
    proof (cases "\<exists>i<length lens. 0 < lens ! i \<and> nat (?sl ! i) = r")
      case True
      then show ?thesis using st(2) by (auto simp: hist_ok_def)
    next
      case False
      then show ?thesis using inv st(4)[OF that] that unfolding engine_inv_def by auto
    qed
    then show ?thesis unfolding extend(1) engine_inv_def using own st(1) inv
      by (simp add: engine_inv_def)
  qed
qed

lemma forward_commit_rect:
  assumes "forward_commit n pad hist tokens rows cl ol = Inr table'"
    and "\<forall>tk\<in>set tokens. length tk = n" "\<forall>h\<in>set hist. length h = n - 1"
  shows "\<forall>h\<in>set table'. length h = n - 1"
proof -
  obtain last rows' where last: "(case cl of None \<Rightarrow> Inr tokens | Some c \<Rightarrow> res_list (py_get tokens) c) = Inr last"
    and put: "index_put hist rows' (map (\<lambda>tk. map i32 (rev (take (n - 1) tk))) last) = Inr table'"
    using assms(1) by (auto simp: forward_commit_def res_bind_Inr)
  have "set last \<subseteq> set tokens"
  proof
    fix x assume "x \<in> set last"
    then show "x \<in> set tokens" using last
      by (cases cl) (auto simp: res_list_Inr in_set_conv_nth[of x last] intro: py_get_in_set)
  qed
  then show ?thesis using assms(2,3) by (intro index_put_range[OF put]) auto
qed

lemma engine_step_rect:
  assumes "2 \<le> ngram cfg" "engine_step cfg pad e e'" "engine_inv cfg pad e" "table_rect cfg e"
  shows "table_rect cfg e'"
  using assms(2)
proof cases
  case (decode fb ol pids ids hs table' seqs')
  note st = decode_step[OF assms(1,3) decode(2-9)]
  show ?thesis unfolding decode(1)
  proof (rule table_rectI[OF st(1) assms(4)])
    fix r assume "r < length (table e)"
    show "table' ! r = table e ! r \<or> length (table' ! r) = ngram cfg - 1"
    proof (cases "r \<in> (\<lambda>t. nat (req_pool_indices fb ! t)) ` live_decode fb ol ids")
      case True
      then obtain t xs where "t \<in> live_decode fb ol ids" "r = nat (req_pool_indices fb ! t)"
        "seqs e (nat (req_pool_indices fb ! t)) = Some xs" using decode(8) by blast
      then show ?thesis using st(2) unfolding hist_ok_def by blast
    qed (use st(3) in blast)
  qed
next
  case (verify req pids commits blocks table' seqs')
  have rect: "\<forall>r\<in>set (table e). length r = ngram cfg - 1" using assms(4) by (simp add: table_rect_def)
  note st = verify_step[OF assms(1,3) verify(2-4) rect verify(5,6)]
  show ?thesis unfolding verify(1)
  proof (rule table_rectI[OF st(1) assms(4)])
    fix r assume "r < length (table e)"
    show "table' ! r = table e ! r \<or> length (table' ! r) = ngram cfg - 1"
    proof (cases "r \<in> (\<lambda>i. nat (req ! i)) ` {..<length req}")
      case True
      then obtain i xs where "i < length req" "r = nat (req ! i)" "seqs e (nat (req ! i)) = Some xs"
        using verify(7) unfolding grow_def by blast
      then show ?thesis using st(2) unfolding hist_ok_def by blast
    qed (use st(3) in blast)
  qed
next
  case (extend fb lens starts nh ol ids ys pre pids hs table' seqs')
  have rect: "\<forall>r\<in>set (table e). length r = ngram cfg - 1" using assms(4) by (simp add: table_rect_def)
  show ?thesis
  proof (cases "ids = []")
    case True
    then show ?thesis using forward_empty extend(1,2,9) assms(4) by (metis engine.select_convs(1) table_rect_def)
  next
    case False
    obtain row where "forward_commit (ngram cfg) (int pad) (table e)
        (snd (engram_hash_ids cfg nh None (extend_batch row starts fb ids)))
        (extend_rows (int pad) lens (req_pool_indices fb)) (Some (extend_last (length ids) starts lens))
        (Some ol) = Inr table'"
      using forward_extend_cuda[OF extend(2,3,4) False extend(9)] by blast
    then have "\<forall>h\<in>set table'. length h = ngram cfg - 1"
      by (rule forward_commit_rect) (use rect in \<open>auto simp: engram_hash_ids_def\<close>)
    then show ?thesis using extend(1) by (simp add: table_rect_def)
  qed
qed (use assms(4) in \<open>auto simp: table_rect_def\<close>)

lemma engine_reach_inv:
  assumes "2 \<le> ngram cfg" "(engine_step cfg pad)\<^sup>*\<^sup>* (engine_start cfg pad) e"
  shows "engine_inv cfg pad e \<and> table_rect cfg e"
  using assms(2)
proof induction
  case base
  then show ?case using engine_inv_start
    by (auto simp: table_rect_def engine_start_def init_history_def)
next
  case (step e e')
  then show ?case using engine_step_inv[OF assms(1)] engine_step_rect[OF assms(1)] by blast
qed

text \<open>C3. In every state the engine can reach, by any sequence of admissions, extend, decode
  and verify steps with their launches in any program order, a decode step hashes each live
  token as the specification says and leaves its row standing for the grown sequence.\<close>

theorem engine_decode_hashes_spec:
  assumes "2 \<le> ngram cfg" "(engine_step cfg pad)\<^sup>*\<^sup>* (engine_start cfg pad) e"
    and "mode_of fb = ForwardDecode" "forward_batch.out_cache_loc fb = Some ol" "grid_of pids (length ids)"
    and "length (req_pool_indices fb) = length ids" "length (fb_positions fb) = length ids"
    and "live_rows_ok (Some (req_pool_indices fb)) ol (decode_batch fb ids) pad"
    and "\<forall>t\<in>live_decode fb ol ids. \<exists>xs. seqs e (nat (req_pool_indices fb ! t)) = Some xs
        \<and> fb_positions fb ! t = int (length xs) \<and> tokens32 cfg (xs @ [ids ! t]) \<and> length xs < 2 ^ 31"
    and "engram_forward True pids cfg (int pad) (Some (table e)) ids fb = Inr (hs, table')"
    and "t \<in> live_decode fb ol ids" "seqs e (nat (req_pool_indices fb ! t)) = Some xs"
  shows "hs ! t = spec_hash cfg (xs @ [ids ! t]) (length xs)
       \<and> hist_ok cfg (table' ! nat (req_pool_indices fb ! t)) (xs @ [ids ! t])"
  using decode_step(2)[OF assms(1) conjunct1[OF engine_reach_inv[OF assms(1,2)]] assms(3-12)] by simp

definition demo_decode :: forward_batch where
  "demo_decode = \<lparr>mode_of = ForwardDecode, req_pool_indices = [0], fb_positions = [0],
     out_cache_loc = Some [5], ngram_history = None\<rparr>"

definition demo_admitted :: engine where
  "demo_admitted = (engine_start demo_cfg 1)\<lparr>seqs := (\<lambda>_. None)(0 \<mapsto> [])\<rparr>"

lemma demo_reach: "(engine_step demo_cfg 1)\<^sup>*\<^sup>* (engine_start demo_cfg 1) demo_admitted"
proof -
  have "engine_step demo_cfg 1 (engine_start demo_cfg 1) demo_admitted"
    using admit[of 0 1 "engine_start demo_cfg 1" demo_cfg]
    by (simp add: demo_admitted_def engine_start_def)
  then show ?thesis by blast
qed

lemma demo_launch_ok: "launch_ok demo_cfg [[0], [0]]"
  by (simp add: launch_ok_def pow2_check_def demo_cfg_def)

theorem engine_decode_hashes_spec_witness:
  "\<exists>hs table'. engram_forward True [0] demo_cfg 1 (Some [[0], [0]]) [2] demo_decode = Inr (hs, table')
     \<and> hs ! 0 = spec_hash demo_cfg [2] 0 \<and> hist_ok demo_cfg (table' ! 0) [2]"
proof -
  have tab: "table demo_admitted = [[0], [0]]" "seqs demo_admitted 0 = Some []"
    by (simp_all add: demo_admitted_def engine_start_def init_history_def demo_cfg_def)
  obtain hs table' where f: "engram_forward True [0] demo_cfg 1 (Some [[0], [0]]) [2] demo_decode = Inr (hs, table')"
    using demo_launch_ok by (simp add: engram_forward_def demo_decode_def Let_def ensure_def)
  have live: "live_decode demo_decode [5] [2] = {0}" by (auto simp: live_decode_def)
  have rows: "live_rows_ok (Some [0]) [5] (decode_batch demo_decode [2]) 1"
    by (simp add: live_rows_ok_def decode_batch_def k_hrow_def k_row_def tl_load_mask_def tl_load_def)
  have grid: "grid_of [0] 1" by (auto simp: grid_of_def full_grid_def cdiv_def)
  have "hs ! 0 = spec_hash demo_cfg ([] @ [[2] ! 0]) (length ([] :: int list))
      \<and> hist_ok demo_cfg (table' ! nat (req_pool_indices demo_decode ! 0)) ([] @ [[2] ! 0])"
    by (rule engine_decode_hashes_spec[OF _ demo_reach, where fb = demo_decode and ol = "[5]" and ids = "[2]"
          and pids = "[0]" and t = 0])
       (use f tab live rows grid in \<open>simp_all add: demo_decode_def tokens32_def demo_cfg_def\<close>)
  then show ?thesis using f by (simp add: demo_decode_def)
qed

text \<open>An extend step (a prefill chunk, a prefix hit or a re-run after retraction) hashes
  every token of every request from the scheduler's predecessors exactly as the specification
  over the whole request says, and its row then stands for the request up to the chunk's end.\<close>

theorem engine_extend_hashes_spec:
  assumes "2 \<le> ngram cfg" "(engine_step cfg pad)\<^sup>*\<^sup>* (engine_start cfg pad) e"
    and "mode_of fb = ForwardExtend lens starts" "ngram_history fb = Some nh"
      "forward_batch.out_cache_loc fb = Some ol" "length ol = length ids"
    and "extend_layout lens starts" "distinct_slots (req_pool_indices fb) pad"
    and "\<forall>i<length lens. 0 < lens ! i \<longrightarrow> ol ! nat (starts ! i + lens ! i - 1) \<noteq> 0
        \<and> extend_req cfg nh ids (fb_positions fb) (starts ! i) (lens ! i) i (ys i) (pre i) \<and> tokens32 cfg (ys i)"
    and "engram_forward True pids cfg (int pad) (Some (table e)) ids fb = Inr (hs, table')" "ids \<noteq> []"
    and "i < length lens" "j < nat (lens ! i)"
  shows "hs ! (nat (starts ! i) + j) = spec_hash cfg (ys i) (pre i + j)
       \<and> hist_ok cfg (table' ! nat (req_pool_indices fb ! i)) (take (pre i + nat (lens ! i)) (ys i))"
proof -
  note st = extend_step[OF assms(1) conjunct1[OF engine_reach_inv[OF assms(1,2)]] assms(3-11)]
  show ?thesis using st(2)[OF assms(12)] st(3)[OF assms(12,13)] assms(13) by simp
qed

definition demo_extend :: forward_batch where
  "demo_extend = \<lparr>mode_of = ForwardExtend [2] [0], req_pool_indices = [0], fb_positions = [1, 2],
     out_cache_loc = Some [5, 6], ngram_history = Some [[1]]\<rparr>"

theorem engine_extend_hashes_spec_witness:
  "\<exists>hs table'. engram_forward True [0] demo_cfg 1 (Some [[0], [0]]) [2, 1] demo_extend = Inr (hs, table')
     \<and> hs ! 1 = spec_hash demo_cfg [1, 2, 1] 2 \<and> hist_ok demo_cfg (table' ! 0) [1, 2, 1]"
proof -
  have tab: "table demo_admitted = [[0], [0]]"
    by (simp add: demo_admitted_def engine_start_def init_history_def demo_cfg_def)
  have lok: "launch_ok demo_cfg [[1]]" by (simp add: launch_ok_def pow2_check_def demo_cfg_def)
  obtain hs table' where f: "engram_forward True [0] demo_cfg 1 (Some [[0], [0]]) [2, 1] demo_extend = Inr (hs, table')"
    using lok by (simp add: engram_forward_def demo_extend_def Let_def ensure_def hash_ids_of_def
        repeat_interleave_def forward_commit_def engram_hash_ids_def extend_last_def extend_rows_def clamp_def
        extend_batch_def py_get_def res_map_def index_put_def put_row_def)
  have req: "extend_req demo_cfg [[1]] [2, 1] [1, 2] 0 2 0 [1, 2, 1] 1"
    by (auto simp: extend_req_def demo_cfg_def hist_ok_def mask_image_def less_2_cases_iff)
  have "hs ! (nat ([0] ! 0) + 1) = spec_hash demo_cfg [1, 2, 1] (1 + 1)
      \<and> hist_ok demo_cfg (table' ! nat (req_pool_indices demo_extend ! 0)) (take (1 + nat ([2] ! 0)) [1, 2, 1])"
    by (rule engine_extend_hashes_spec[OF _ demo_reach, where fb = demo_extend and ol = "[5, 6]"
          and ids = "[2, 1]" and lens = "[2]" and starts = "[0]" and nh = "[[1]]" and pids = "[0]"
          and ys = "\<lambda>_. [1, 2, 1]" and pre = "\<lambda>_. 1"])
       (use f tab req in \<open>simp_all add: demo_extend_def tokens32_def demo_cfg_def extend_layout_def
          distinct_slots_def\<close>)
  then show ?thesis using f by (simp add: demo_extend_def numeral_2_eq_2 numeral_3_eq_3)
qed

end
