(* ===== verification/EngramLayout.thy ===== *)
theory EngramLayout
  imports EngramHash
begin

text \<open>
  How the engram's hash is parametrised (\<open>sglang-overlay/engram.py\<close>): the prime bucket
  counts of \<open>EngramLayout.build\<close>, the compressed vocabulary of
  \<open>build_compressed_token_map\<close>, the multipliers of \<open>compute_hash_multipliers\<close> and the
  constructor of \<open>EngramHasher\<close> that puts them together.  External: sympy's \<open>isprime\<close>, the
  tokenizer's \<open>decode\<close>/\<open>id_to_token\<close>/normalizer, numpy's random generator.  A text is the
  list of its code points.
\<close>

section \<open>The prime layout\<close>

text \<open>The search loop may run forever, so its result is an option.\<close>

partial_function (option) search_prime :: "(int \<Rightarrow> bool) \<Rightarrow> int set \<Rightarrow> int \<Rightarrow> int option" where
  "search_prime isprime seen candidate =
     (if \<not> isprime candidate \<or> candidate \<in> seen then search_prime isprime seen (candidate + 1)
      else Some candidate)"

definition find_next_prime :: "(int \<Rightarrow> bool) \<Rightarrow> int \<Rightarrow> int set \<Rightarrow> int option" where
  "find_next_prime isprime start seen = search_prime isprime seen (start + 1)"

primrec draw_heads :: "(int \<Rightarrow> bool) \<Rightarrow> nat \<Rightarrow> int \<Rightarrow> int set \<Rightarrow> (int list \<times> int set) option" where
  "draw_heads isprime 0 current seen = Some ([], seen)"
| "draw_heads isprime (Suc k) current seen =
     Option.bind (find_next_prime isprime current seen) (\<lambda>p.
       Option.bind (draw_heads isprime k p (insert p seen)) (\<lambda>(ps, s). Some (p # ps, s)))"

primrec draw_many :: "(int set \<Rightarrow> ('a \<times> int set) option) \<Rightarrow> nat \<Rightarrow> int set \<Rightarrow> ('a list \<times> int set) option" where
  "draw_many draw 0 seen = Some ([], seen)"
| "draw_many draw (Suc k) seen =
     Option.bind (draw seen) (\<lambda>(x, s). Option.bind (draw_many draw k s) (\<lambda>(xs, s'). Some (x # xs, s')))"

record engram_layout =
  max_ngram_size :: nat
  layer_ids :: "int list"
  num_embeddings :: "int list"
  lay_primes :: "int list list list"
  n_heads :: nat
  head_dim :: nat

definition build_layout ::
    "(int \<Rightarrow> bool) \<Rightarrow> int list \<Rightarrow> int list \<Rightarrow> nat \<Rightarrow> nat \<Rightarrow> nat \<Rightarrow> int \<Rightarrow> engram_layout option" where
  "build_layout isprime lids nemb max_ngram nh hdim vocab_size =
     Option.bind (draw_many (draw_many (draw_heads isprime nh (vocab_size - 1)) (max_ngram - 1)) (length lids) {})
       (\<lambda>(ps, seen). Some \<lparr>max_ngram_size = max_ngram, layer_ids = lids, num_embeddings = nemb,
          lay_primes = ps, n_heads = nh, head_dim = hdim\<rparr>)"

record engram_config =
  engram_layer_ids :: "int list"
  engram_num_embeddings :: "int list"
  engram_max_ngram_size :: nat
  engram_n_heads :: nat
  engram_head_dim :: nat
  engram_vocab_size :: int

text \<open>\<open>None\<close> outside: the search does not end; \<open>None\<close> inside: the model has no engram layer.\<close>

definition build_engram_layout :: "(int \<Rightarrow> bool) \<Rightarrow> engram_config \<Rightarrow> engram_layout option option" where
  "build_engram_layout isprime c =
     (if engram_layer_ids c = [] then Some None
      else map_option Some (build_layout isprime (engram_layer_ids c) (engram_num_embeddings c)
             (engram_max_ngram_size c) (engram_n_heads c) (engram_head_dim c) (engram_vocab_size c)))"

text \<open>What \<open>isprime\<close> is documented to decide.\<close>

definition prime_int :: "int \<Rightarrow> bool" where
  "prime_int p \<longleftrightarrow> 1 < p \<and> (\<forall>d. 0 < d \<longrightarrow> d dvd p \<longrightarrow> d = 1 \<or> d = p)"

lemma prime_divisor:
  assumes "1 < (n::int)"
  shows "\<exists>p. prime_int p \<and> p dvd n"
proof -
  define k where "k = (LEAST k::nat. 1 < int k \<and> int k dvd n)"
  have "1 < int (nat n) \<and> int (nat n) dvd n" using assms by simp
  then have k: "1 < int k \<and> int k dvd n" unfolding k_def by (rule LeastI)
  have "d = 1 \<or> d = int k" if d: "0 < d" "d dvd int k" for d
  proof (rule ccontr)
    assume "\<not> (d = 1 \<or> d = int k)"
    then have "1 < d" "d < int k" using d zdvd_imp_le[OF d(2)] k by auto
    then have "1 < int (nat d) \<and> int (nat d) dvd n" using d k by (auto intro: dvd_trans)
    then have "k \<le> nat d" unfolding k_def by (rule Least_le)
    then show False using \<open>d < int k\<close> \<open>1 < d\<close> by linarith
  qed
  then have "prime_int (int k)" using k by (simp add: prime_int_def)
  then show ?thesis using k by blast
qed

lemma prime_above: "\<exists>p. prime_int p \<and> m < p"
proof -
  define n where "n = nat (max m 1)"
  obtain p where p: "prime_int p" "p dvd int (fact n) + 1"
    using prime_divisor[of "int (fact n) + 1"] fact_gt_zero[of n] by auto
  have "int n < p"
  proof (rule ccontr)
    assume "\<not> int n < p"
    then have "nat p dvd fact n" using p(1) by (intro dvd_fact) (auto simp: prime_int_def)
    then have "int (nat p) dvd int (fact n)" by presburger
    then have "p dvd int (fact n)" using p(1) by (simp add: prime_int_def)
    then have "p dvd 1" using p(2) dvd_add_right_iff by blast
    then show False using p(1) zdvd_imp_le[of p 1] by (auto simp: prime_int_def)
  qed
  then have "m < p" by (simp add: n_def split: if_splits)
  then show ?thesis using p(1) by blast
qed

lemma next_prime_exists: "\<exists>p. prime_int p \<and> m < p \<and> (\<forall>q. m < q \<longrightarrow> q < p \<longrightarrow> \<not> prime_int q)"
proof -
  define k where "k = (LEAST k::nat. prime_int (m + 1 + int k))"
  obtain p where "prime_int p" "m < p" using prime_above by blast
  then have "prime_int (m + 1 + int (nat (p - m - 1)))" by simp
  then have "prime_int (m + 1 + int k)" unfolding k_def by (rule LeastI)
  moreover have "\<not> prime_int q" if "m < q" "q < m + 1 + int k" for q
  proof
    assume "prime_int q"
    then have "prime_int (m + 1 + int (nat (q - m - 1)))" using that by simp
    then have "k \<le> nat (q - m - 1)" unfolding k_def by (rule Least_le)
    then show False using that by linarith
  qed
  ultimately show ?thesis by (intro exI[of _ "m + 1 + int k"]) simp
qed

lemma search_prime_Some:
  assumes "isprime p" "p \<notin> seen" "c \<le> p" "\<forall>q. c \<le> q \<longrightarrow> q < p \<longrightarrow> \<not> isprime q \<or> q \<in> seen"
  shows "search_prime isprime seen c = Some p"
  using assms(3,4)
proof (induction "nat (p - c)" arbitrary: c)
  case 0
  then show ?case using assms(1,2) by (simp add: search_prime.simps)
next
  case (Suc n)
  then have "\<not> isprime c \<or> c \<in> seen" by simp
  moreover have "search_prime isprime seen (c + 1) = Some p" by (rule Suc.hyps(1)) (use Suc in auto)
  ultimately show ?case by (subst search_prime.simps) auto
qed

text \<open>\<open>consec m ps\<close>: \<open>ps\<close> are the first \<open>length ps\<close> primes above \<open>m\<close>, in order.\<close>

fun consec :: "int \<Rightarrow> int list \<Rightarrow> bool" where
  "consec m [] \<longleftrightarrow> True"
| "consec m (p # ps) \<longleftrightarrow> prime_int p \<and> m < p \<and> (\<forall>q. m < q \<longrightarrow> q < p \<longrightarrow> \<not> prime_int q) \<and> consec p ps"

lemma consec_append: "consec m (xs @ ys) \<longleftrightarrow> consec m xs \<and> consec (last (m # xs)) ys"
  by (induction xs arbitrary: m) auto

lemma consec_last: "consec m ps \<Longrightarrow> m \<le> last (m # ps)"
proof (induction ps arbitrary: m)
  case (Cons p ps)
  then show ?case using Cons.IH[of p] by fastforce
qed simp

lemma consec_set: "consec m ps \<Longrightarrow> set ps = {q. prime_int q \<and> m < q \<and> q \<le> last (m # ps)}"
proof (induction ps arbitrary: m)
  case (Cons p ps)
  have l: "p \<le> last (p # ps)" using Cons.prems consec_last by simp
  have "set ps = {q. prime_int q \<and> p < q \<and> q \<le> last (p # ps)}" by (rule Cons.IH) (use Cons.prems in simp)
  then have "set (p # ps) = insert p {q. prime_int q \<and> p < q \<and> q \<le> last (p # ps)}" by (simp only: list.set)
  also have "\<dots> = {q. prime_int q \<and> m < q \<and> q \<le> last (p # ps)}"
    using Cons.prems l by (auto simp: not_less[symmetric])
  finally show ?case by simp
qed auto

lemma consec_sorted: "consec m ps \<Longrightarrow> sorted_wrt (<) (m # ps)"
proof (induction ps arbitrary: m)
  case (Cons p ps)
  have "sorted_wrt (<) (p # ps)" by (rule Cons.IH) (use Cons.prems in simp)
  moreover have "m < p" using Cons.prems by simp
  ultimately show ?case by auto
qed simp

lemma find_next_consec:
  assumes "\<forall>c. isprime c = prime_int c" "base \<le> cur" "cur \<le> m"
  shows "\<exists>p. find_next_prime isprime cur {q. prime_int q \<and> base < q \<and> q \<le> m} = Some p \<and> consec m [p]
     \<and> insert p {q. prime_int q \<and> base < q \<and> q \<le> m} = {q. prime_int q \<and> base < q \<and> q \<le> p}"
proof -
  obtain p where p: "prime_int p" "m < p" "\<forall>q. m < q \<longrightarrow> q < p \<longrightarrow> \<not> prime_int q" using next_prime_exists by blast
  have "find_next_prime isprime cur {q. prime_int q \<and> base < q \<and> q \<le> m} = Some p"
    unfolding find_next_prime_def by (rule search_prime_Some) (use assms p in \<open>auto simp: not_le[symmetric]\<close>)
  moreover have "insert p {q. prime_int q \<and> base < q \<and> q \<le> m} = {q. prime_int q \<and> base < q \<and> q \<le> p}"
  proof (rule set_eqI)
    fix q
    show "q \<in> insert p {q. prime_int q \<and> base < q \<and> q \<le> m} \<longleftrightarrow> q \<in> {q. prime_int q \<and> base < q \<and> q \<le> p}"
      using p assms(2,3) by (cases "m < q"; cases "q < p") auto
  qed
  ultimately show ?thesis using p by auto
qed

lemma draw_heads_consec:
  assumes "\<forall>c. isprime c = prime_int c" "base \<le> cur" "cur \<le> m"
  shows "\<exists>ps. draw_heads isprime k cur {q. prime_int q \<and> base < q \<and> q \<le> m}
       = Some (ps, {q. prime_int q \<and> base < q \<and> q \<le> last (m # ps)}) \<and> length ps = k \<and> consec m ps"
  using assms(2,3)
proof (induction k arbitrary: cur m)
  case 0
  then show ?case by simp
next
  case (Suc k)
  obtain p where p: "find_next_prime isprime cur {q. prime_int q \<and> base < q \<and> q \<le> m} = Some p" "consec m [p]"
    "insert p {q. prime_int q \<and> base < q \<and> q \<le> m} = {q. prime_int q \<and> base < q \<and> q \<le> p}"
    using find_next_consec[OF assms(1) Suc.prems] by blast
  have "base \<le> p" using p(2) Suc.prems by simp
  then obtain ps where "draw_heads isprime k p {q. prime_int q \<and> base < q \<and> q \<le> p}
       = Some (ps, {q. prime_int q \<and> base < q \<and> q \<le> last (p # ps)})" "length ps = k" "consec p ps"
    using Suc.IH[of p p] by blast
  then show ?case using p by auto
qed

text \<open>Repeating a draw that continues the sequence continues the sequence.\<close>

lemma draw_many_consec:
  assumes "\<And>m. base \<le> m \<Longrightarrow> \<exists>x. draw {q. prime_int q \<and> base < q \<and> q \<le> m}
       = Some (x, {q. prime_int q \<and> base < q \<and> q \<le> last (m # flat x)}) \<and> shape x \<and> consec m (flat x)"
    and "base \<le> m"
  shows "\<exists>xs. draw_many draw k {q. prime_int q \<and> base < q \<and> q \<le> m}
       = Some (xs, {q. prime_int q \<and> base < q \<and> q \<le> last (m # concat (map flat xs))})
       \<and> (length xs = k \<and> (\<forall>x\<in>set xs. shape x)) \<and> consec m (concat (map flat xs))"
  using assms(2)
proof (induction k arbitrary: m)
  case 0
  then show ?case by simp
next
  case (Suc k)
  obtain x where x: "draw {q. prime_int q \<and> base < q \<and> q \<le> m}
       = Some (x, {q. prime_int q \<and> base < q \<and> q \<le> last (m # flat x)})" "shape x" "consec m (flat x)"
    using assms(1)[OF Suc.prems] by blast
  define m' where "m' = last (m # flat x)"
  have "base \<le> m'" using consec_last[OF x(3)] Suc.prems by (simp add: m'_def)
  then obtain xs where xs: "draw_many draw k {q. prime_int q \<and> base < q \<and> q \<le> m'}
       = Some (xs, {q. prime_int q \<and> base < q \<and> q \<le> last (m' # concat (map flat xs))})"
     "length xs = k" "\<forall>x\<in>set xs. shape x" "consec m' (concat (map flat xs))"
    using Suc.IH[of m'] by blast
  have "last (m' # concat (map flat xs)) = last (m # concat (map flat (x # xs)))"
    by (simp add: m'_def last_append)
  moreover have "consec m (concat (map flat (x # xs)))" using x(3) xs(4) by (simp add: consec_append m'_def)
  ultimately show ?case using x(1,2) xs(1-3) unfolding m'_def[symmetric]
    by (intro exI[of _ "x # xs"]) (simp add: m'_def[symmetric])
qed

lemma build_layout_consec:
  assumes "\<forall>c. isprime c = prime_int c"
  shows "\<exists>lay. build_layout isprime lids nemb n nh hdim V = Some lay
     \<and> max_ngram_size lay = n \<and> layer_ids lay = lids \<and> num_embeddings lay = nemb \<and> n_heads lay = nh
     \<and> length (lay_primes lay) = length lids
     \<and> (\<forall>pl\<in>set (lay_primes lay). length pl = n - 1 \<and> (\<forall>ps\<in>set pl. length ps = nh))
     \<and> consec (V - 1) (concat (map concat (lay_primes lay)))"
proof -
  let ?b = "V - 1"
  have heads: "\<exists>ps. draw_heads isprime nh ?b {q. prime_int q \<and> ?b < q \<and> q \<le> m}
       = Some (ps, {q. prime_int q \<and> ?b < q \<and> q \<le> last (m # ps)}) \<and> length ps = nh \<and> consec m ps"
    if "?b \<le> m" for m
    by (rule draw_heads_consec[OF assms order.refl that])
  have ngrams: "\<exists>xs. draw_many (draw_heads isprime nh ?b) (n - 1) {q. prime_int q \<and> ?b < q \<and> q \<le> m}
       = Some (xs, {q. prime_int q \<and> ?b < q \<and> q \<le> last (m # concat xs)})
       \<and> (length xs = n - 1 \<and> (\<forall>x\<in>set xs. length x = nh)) \<and> consec m (concat xs)" if "?b \<le> m" for m
    using draw_many_consec[where flat = "\<lambda>x. x" and shape = "\<lambda>x. length x = nh", OF heads that] by simp
  have e: "{q. prime_int q \<and> ?b < q \<and> q \<le> ?b} = {}" by auto
  obtain xs where "draw_many (draw_many (draw_heads isprime nh ?b) (n - 1)) (length lids) {}
        = Some (xs, {q. prime_int q \<and> ?b < q \<and> q \<le> last (?b # concat (map concat xs))})"
      "length xs = length lids" "\<forall>x\<in>set xs. length x = n - 1 \<and> (\<forall>y\<in>set x. length y = nh)"
      "consec ?b (concat (map concat xs))"
    using draw_many_consec[where flat = concat and k = "length lids" and m = ?b
        and shape = "\<lambda>xs. length xs = n - 1 \<and> (\<forall>x\<in>set xs. length x = nh)", OF ngrams order.refl]
    unfolding e by blast
  then show ?thesis by (intro exI[of _ "\<lparr>max_ngram_size = n, layer_ids = lids, num_embeddings = nemb,
        lay_primes = xs, n_heads = nh, head_dim = hdim\<rparr>"]) (simp add: build_layout_def)
qed

text \<open>C16. The layout is always built, and its primes, read in (layer, n-gram size, head) order,
  are the first ones from the vocabulary size on: ascending, none repeated, none skipped.\<close>

theorem layout_draws_consecutive_primes:
  assumes "\<forall>c. isprime c = prime_int c"
  shows "\<exists>lay. build_layout isprime lids nemb n nh hdim V = Some lay
     \<and> length (lay_primes lay) = length lids
     \<and> (\<forall>pl\<in>set (lay_primes lay). length pl = n - 1 \<and> (\<forall>ps\<in>set pl. length ps = nh))
     \<and> sorted_wrt (<) (concat (map concat (lay_primes lay)))
     \<and> set (concat (map concat (lay_primes lay)))
         = {q. prime_int q \<and> V \<le> q \<and> q \<le> last ((V - 1) # concat (map concat (lay_primes lay)))}"
proof -
  obtain lay where lay: "build_layout isprime lids nemb n nh hdim V = Some lay"
    "length (lay_primes lay) = length lids"
    "\<forall>pl\<in>set (lay_primes lay). length pl = n - 1 \<and> (\<forall>ps\<in>set pl. length ps = nh)"
    and c: "consec (V - 1) (concat (map concat (lay_primes lay)))"
    using build_layout_consec[OF assms] by blast
  have "sorted_wrt (<) (concat (map concat (lay_primes lay)))" using consec_sorted[OF c] by simp
  moreover have "(V - 1 < q) = (V \<le> q)" for q by auto
  ultimately show ?thesis using lay consec_set[OF c] by (intro exI[of _ lay]) simp
qed

text \<open>Two layers, one n-gram size, two heads above a vocabulary of five.\<close>

theorem layout_draws_consecutive_primes_witness:
  "\<exists>lay. build_layout prime_int [1, 14] [10, 20] 2 2 256 5 = Some lay \<and> length (lay_primes lay) = 2
     \<and> sorted_wrt (<) (concat (map concat (lay_primes lay)))"
  using layout_draws_consecutive_primes[of prime_int "[1, 14]" "[10, 20]" 2 2 256 5] by fastforce

section \<open>The compressed vocabulary\<close>

record tokenizer =
  decode :: "nat \<Rightarrow> int list"
  id_to_token :: "nat \<Rightarrow> int list option"
  normalize_str :: "int list \<Rightarrow> int list"
  tok_len :: nat

text \<open>A token that decodes to a partial UTF-8 sequence (U+FFFD) is keyed by its raw form.\<close>

definition token_key :: "tokenizer \<Rightarrow> nat \<Rightarrow> int list option" where
  "token_key tk t =
     (let s = decode tk t in
      if 65533 \<in> set s then id_to_token tk t
      else let normalized = normalize_str tk s in Some (if normalized \<noteq> [] then normalized else s))"

text \<open>The dict keeps its insertion order, so it is an association list.\<close>

definition map_token ::
    "(nat \<Rightarrow> 'k) \<Rightarrow> nat \<Rightarrow> ('k \<times> int) list \<times> int list \<Rightarrow> ('k \<times> int) list \<times> int list" where
  "map_token key t = (\<lambda>(key_to_new, lookup).
     case map_of key_to_new (key t) of
       Some new_id \<Rightarrow> (key_to_new, lookup[t := new_id])
     | None \<Rightarrow> let new_id = int (length key_to_new)
               in (key_to_new @ [(key t, new_id)], lookup[t := new_id]))"

definition build_compressed_token_map :: "tokenizer \<Rightarrow> int list \<times> int" where
  "build_compressed_token_map tk =
     (let (key_to_new, lookup) = fold (map_token (token_key tk)) [0..<tok_len tk] ([], replicate (tok_len tk) 0)
      in (lookup, int (length key_to_new)))"

definition map_inv :: "(nat \<Rightarrow> 'k) \<Rightarrow> nat \<Rightarrow> nat \<Rightarrow> ('k \<times> int) list \<times> int list \<Rightarrow> bool" where
  "map_inv key n k = (\<lambda>(d, lookup). length lookup = n \<and> distinct (map fst d)
     \<and> map snd d = map int [0..<length d] \<and> set (map fst d) = key ` {..<k}
     \<and> (\<forall>t<k. map_of d (key t) = Some (lookup ! t)
           \<and> (key t \<notin> key ` {..<t} \<longrightarrow> lookup ! t = int (card (key ` {..<t})))))"

lemma map_inv_card: "map_inv key n k (d, lookup) \<Longrightarrow> length d = card (key ` {..<k})"
  unfolding map_inv_def using distinct_card[of "map fst d"] by simp

lemma map_token_inv:
  assumes "map_inv key n k (d, lookup)" "k < n"
  shows "map_inv key n (Suc k) (map_token key k (d, lookup))"
proof (cases "map_of d (key k)")
  case None
  note I = assms(1)[unfolded map_inv_def, simplified]
  have new: "key k \<notin> key ` {..<k}" using None I by (metis list.set_map map_of_eq_None_iff)
  have old: "key t \<noteq> key k" if "t < k" for t using new that by (metis imageI lessThan_iff)
  show ?thesis
    unfolding map_token_def map_inv_def using None I new old assms(2) map_inv_card[OF assms(1)]
    by (auto simp: Let_def map_of_append less_Suc_eq lessThan_Suc map_add_def dest: sym[of "key _"])
next
  case (Some i)
  note I = assms(1)[unfolded map_inv_def, simplified]
  have "key k \<in> fst ` set d" using map_of_SomeD[OF Some] by force
  then have "key k \<in> key ` {..<k}" using I by simp
  then show ?thesis
    unfolding map_token_def map_inv_def using Some I assms(2)
    by (auto simp: less_Suc_eq lessThan_Suc insert_absorb)
qed

lemma map_tokens_inv:
  assumes "k \<le> n"
  shows "map_inv key n k (fold (map_token key) [0..<k] ([], replicate n 0))"
  using assms
proof (induction k)
  case 0
  then show ?case by (simp add: map_inv_def)
next
  case (Suc k)
  obtain d lookup where f: "fold (map_token key) [0..<k] ([], replicate n 0) = (d, lookup)" by fastforce
  have "map_inv key n (Suc k) (map_token key k (d, lookup))"
    by (rule map_token_inv) (use Suc f in simp_all)
  then show ?case using f by simp
qed

lemma map_of_index:
  assumes "distinct (map fst d)" "map snd d = map int [0..<length d]" "map_of d a = Some i" "map_of d b = Some i"
  shows "a = b"
proof -
  have "(a, i) \<in> set d" "(b, i) \<in> set d" using assms(3,4) by (auto dest: map_of_SomeD)
  then obtain j k where jk: "j < length d" "d ! j = (a, i)" "k < length d" "d ! k = (b, i)"
    by (auto simp: in_set_conv_nth)
  have sn: "snd (d ! m) = int m" if "m < length d" for m
    using arg_cong[OF assms(2), of "\<lambda>xs. xs ! m"] that by simp
  have "int j = i" "int k = i" using sn[OF jk(1)] sn[OF jk(3)] jk(2,4) by simp_all
  then have "j = k" by linarith
  then show ?thesis using jk by simp
qed

lemma token_map_facts:
  assumes "build_compressed_token_map tk = (lookup, V)"
  shows "length lookup = tok_len tk" "V = int (card (token_key tk ` {..<tok_len tk}))"
    and "\<And>t. t < tok_len tk \<Longrightarrow> 0 \<le> lookup ! t \<and> lookup ! t < V"
    and "\<And>t u. t < tok_len tk \<Longrightarrow> u < tok_len tk \<Longrightarrow> lookup ! t = lookup ! u \<longleftrightarrow> token_key tk t = token_key tk u"
    and "\<And>t. t < tok_len tk \<Longrightarrow> token_key tk t \<notin> token_key tk ` {..<t} \<Longrightarrow>
           lookup ! t = int (card (token_key tk ` {..<t}))"
proof -
  let ?key = "token_key tk"
  obtain d where f: "fold (map_token ?key) [0..<tok_len tk] ([], replicate (tok_len tk) 0) = (d, lookup)"
    and V: "V = int (length d)"
    using assms by (auto simp: build_compressed_token_map_def Let_def split: prod.splits)
  have inv: "map_inv ?key (tok_len tk) (tok_len tk) (d, lookup)"
    using map_tokens_inv[OF order.refl, of ?key "tok_len tk"] f by simp
  note I = inv[unfolded map_inv_def, simplified]
  show "length lookup = tok_len tk" using I by simp
  show "V = int (card (?key ` {..<tok_len tk}))" using V map_inv_card[OF inv] by simp
  show "0 \<le> lookup ! t \<and> lookup ! t < V" if "t < tok_len tk" for t
  proof -
    have "(?key t, lookup ! t) \<in> set d" using I that by (auto dest: map_of_SomeD)
    then have "lookup ! t \<in> set (map snd d)" by force
    then show ?thesis using I V by auto
  qed
  show "lookup ! t = lookup ! u \<longleftrightarrow> ?key t = ?key u" if "t < tok_len tk" "u < tok_len tk" for t u
  proof -
    have m: "map_of d (?key t) = Some (lookup ! t)" "map_of d (?key u) = Some (lookup ! u)" using I that by blast+
    show ?thesis
    proof
      assume "lookup ! t = lookup ! u"
      then show "?key t = ?key u" using map_of_index[of d "?key t" "lookup ! t" "?key u"] m I by simp
    next
      assume "?key t = ?key u"
      then have "Some (lookup ! t) = Some (lookup ! u)" using m by metis
      then show "lookup ! t = lookup ! u" by simp
    qed
  qed
  show "lookup ! t = int (card (?key ` {..<t}))" if "t < tok_len tk" "?key t \<notin> ?key ` {..<t}" for t
    using I that by blast
qed

text \<open>The compressed vocabulary: ids are dense in \<open>[0, size)\<close>, two tokens share one exactly
  when they normalise to the same key, a fresh key gets the number of keys before it, and
  the reported size is the number of distinct keys.\<close>

theorem token_map_first_come:
  assumes "build_compressed_token_map tk = (lookup, V)"
  shows "length lookup = tok_len tk \<and> V = int (card (token_key tk ` {..<tok_len tk}))
     \<and> (\<forall>t<tok_len tk. 0 \<le> lookup ! t \<and> lookup ! t < V
          \<and> (token_key tk t \<notin> token_key tk ` {..<t} \<longrightarrow> lookup ! t = int (card (token_key tk ` {..<t})))
          \<and> (\<forall>u<tok_len tk. lookup ! t = lookup ! u \<longleftrightarrow> token_key tk t = token_key tk u))"
  using token_map_facts[OF assms] by blast

definition demo_tokenizer :: tokenizer where
  "demo_tokenizer = \<lparr>decode = (\<lambda>t. [[65], [97], [98], [65533]] ! t), id_to_token = (\<lambda>t. Some [255]),
     normalize_str = map (\<lambda>c. if c = 65 then 97 else c), tok_len = 4\<rparr>"

theorem token_map_first_come_witness:
  "build_compressed_token_map demo_tokenizer = ([0, 0, 1, 2], 3)
     \<and> [0, 0, 1, 2] ! 3 < (3 :: int) \<and> [0, 0, 1, 2] ! 0 = ([0, 0, 1, 2] ! 1 :: int)"
proof -
  have b: "build_compressed_token_map demo_tokenizer = ([0, 0, 1, 2], 3)" by code_simp
  then show ?thesis using token_map_first_come[OF b] by (simp add: demo_tokenizer_def)
qed

section \<open>Multipliers and the constructor\<close>

text \<open>\<open>rng seed high size\<close> is \<open>np.random.default_rng(seed).integers(0, high, size)\<close>.\<close>

definition compute_hash_multipliers ::
    "(int \<Rightarrow> int \<Rightarrow> nat \<Rightarrow> int list) \<Rightarrow> int list \<Rightarrow> nat \<Rightarrow> int \<Rightarrow> int list list res" where
  "compute_hash_multipliers rng lids n vocab_size =
     ensure (vocab_size \<noteq> 0) ZeroDivisionError
      (let max_long = 2 ^ 63 - 1; multiplier_bound = max 1 (max_long div vocab_size div 2)
       in ensure (lids \<noteq> []) RuntimeError
           (Inr (map (\<lambda>l. map (\<lambda>v. i64 (i64 (v * 2) + 1)) (rng (10007 * l) multiplier_bound n)) lids)))"

definition hasher_init ::
    "tokenizer \<Rightarrow> (int \<Rightarrow> int \<Rightarrow> nat \<Rightarrow> int list) \<Rightarrow> int \<Rightarrow> engram_layout \<Rightarrow> int \<Rightarrow> int \<Rightarrow> engram_cfg res" where
  "hasher_init tk rng mm_shift lay pad compressed_vocab_size =
     (let (tmap, vocab_size) = build_compressed_token_map tk in
      ensure (vocab_size = compressed_vocab_size) AssertionError
       (res_bind (py_get tmap pad) (\<lambda>padc.
         let flat = map concat (lay_primes lay);
             offs = map (\<lambda>sizes. map i64 (cumsum (0 # butlast sizes))) flat
         in res_map (\<lambda>ms. \<lparr>ngram = max_ngram_size lay, heads = n_heads lay, pad_id = padc, token_map = tmap,
                 multipliers = ms, primes = lay_primes lay, offsets = offs, image_token_id = None,
                 mm_pad_shift = mm_shift\<rparr>)
              (compute_hash_multipliers rng (layer_ids lay) (max_ngram_size lay) vocab_size))))"

text \<open>\<open>from_config\<close> then sets the image token of a vision model.\<close>

definition hasher_from_config ::
    "tokenizer \<Rightarrow> (int \<Rightarrow> int \<Rightarrow> nat \<Rightarrow> int list) \<Rightarrow> int \<Rightarrow> engram_layout \<Rightarrow> int \<Rightarrow> int
       \<Rightarrow> string \<Rightarrow> int \<Rightarrow> int \<Rightarrow> engram_cfg res" where
  "hasher_from_config tk rng mm_shift lay pad compressed model_type vision_n_layers image_id =
     res_map (\<lambda>c. c\<lparr>image_token_id :=
         (if model_type = ''deepseek_v41'' \<and> vision_n_layers > 0 then Some image_id else None)\<rparr>)
       (hasher_init tk rng mm_shift lay pad compressed)"

definition rng_ok :: "(int \<Rightarrow> int \<Rightarrow> nat \<Rightarrow> int list) \<Rightarrow> bool" where
  "rng_ok rng \<longleftrightarrow> (\<forall>seed high size. 0 < high \<longrightarrow>
      length (rng seed high size) = size \<and> (\<forall>v\<in>set (rng seed high size). 0 \<le> v \<and> v < high))"

lemma multiplier_fits:
  assumes "0 < V" "V < 2 ^ 63" "b = max 1 ((2 ^ 63 - 1) div V div 2)" "0 \<le> v" "v < b" "0 \<le> c" "c < V"
  shows "i64 (i64 (v * 2) + 1) = 2 * v + 1" "c * (2 * v + 1) < 2 ^ 63"
proof -
  let ?M = "(2 ^ 63 - 1 :: int)"
  have "?M div V \<le> ?M div 1" by (rule zdiv_mono2) (use assms(1) in auto)
  then have q: "?M div V \<le> ?M" by simp
  have b: "2 * b \<le> ?M div V \<or> b = 1" using assms(3) by (auto simp: max_def)
  then have "2 * v + 2 \<le> ?M + 1" using assms(5) q by auto
  then show "i64 (i64 (v * 2) + 1) = 2 * v + 1" using assms(4) by (simp add: i64_id mult.commute)
  show "c * (2 * v + 1) < 2 ^ 63"
  proof (cases "b = 1")
    case True
    then have "v = 0" using assms by linarith
    then show ?thesis using assms by simp
  next
    case False
    then have "2 * v + 1 \<le> ?M div V" using b assms(5) by linarith
    then have "c * (2 * v + 1) \<le> V * (?M div V)" using assms(1,4,6,7) by (intro mult_mono) auto
    also have "\<dots> \<le> ?M"
      using pos_mod_sign[OF assms(1), of ?M] mult_div_mod_eq[of V ?M] by linarith
    finally show ?thesis by simp
  qed
qed

lemma hasher_init_fields:
  assumes "hasher_init tk rng mm lay pad cvs = Inr cfg"
  obtains tmap V padc where "build_compressed_token_map tk = (tmap, V)" "V \<noteq> 0" "py_get tmap pad = Inr padc"
    "layer_ids lay \<noteq> []" "ngram cfg = max_ngram_size lay" "heads cfg = n_heads lay" "pad_id cfg = padc"
    "token_map cfg = tmap" "primes cfg = lay_primes lay"
    "offsets cfg = map (\<lambda>pl. map i64 (cumsum (0 # butlast (concat pl)))) (lay_primes lay)"
    "multipliers cfg = map (\<lambda>l. map (\<lambda>v. i64 (i64 (v * 2) + 1))
        (rng (10007 * l) (max 1 ((2 ^ 63 - 1) div V div 2)) (max_ngram_size lay))) (layer_ids lay)"
  using assms
  by (auto simp: hasher_init_def compute_hash_multipliers_def Let_def res_simps split: prod.splits)

lemma layout_primes_pos:
  assumes "\<forall>c. isprime c = prime_int c" "build_layout isprime lids nemb n nh hdim V = Some lay"
    and "pl \<in> set (lay_primes lay)" "ps \<in> set pl" "p \<in> set ps"
  shows "1 < p"
proof -
  have "consec (V - 1) (concat (map concat (lay_primes lay)))"
    using build_layout_consec[OF assms(1), of lids nemb n nh hdim V] assms(2) by auto
  moreover have "p \<in> set (concat (map concat (lay_primes lay)))" using assms(3-5) by auto
  ultimately have "prime_int p" using consec_set by blast
  then show ?thesis by (simp add: prime_int_def)
qed

lemma hasher_cfg_ok:
  assumes "\<forall>c. isprime c = prime_int c" "build_layout isprime lids nemb n nh hdim B = Some lay" "rng_ok rng"
    and "2 \<le> n" "0 < nh" "int (tok_len tk) < 2 ^ 63"
    and "hasher_init tk rng mm lay pad cvs = Inr cfg"
  shows "cfg_ok cfg"
proof -
  obtain tmap V padc where h: "build_compressed_token_map tk = (tmap, V)" "V \<noteq> 0" "py_get tmap pad = Inr padc"
    "layer_ids lay \<noteq> []" "ngram cfg = max_ngram_size lay" "heads cfg = n_heads lay" "pad_id cfg = padc"
    "token_map cfg = tmap" "primes cfg = lay_primes lay"
    "offsets cfg = map (\<lambda>pl. map i64 (cumsum (0 # butlast (concat pl)))) (lay_primes lay)"
    "multipliers cfg = map (\<lambda>l. map (\<lambda>v. i64 (i64 (v * 2) + 1))
        (rng (10007 * l) (max 1 ((2 ^ 63 - 1) div V div 2)) (max_ngram_size lay))) (layer_ids lay)"
    by (rule hasher_init_fields[OF assms(7)])
  have lay: "max_ngram_size lay = n" "n_heads lay = nh" "length (lay_primes lay) = length (layer_ids lay)"
    "\<forall>pl\<in>set (lay_primes lay). length pl = n - 1 \<and> (\<forall>ps\<in>set pl. length ps = nh)"
    using build_layout_consec[OF assms(1), of lids nemb n nh hdim B] assms(2) by auto
  note tm = token_map_facts[OF h(1)]
  have rngV: "0 \<le> c \<and> c < V" if "c \<in> set tmap" for c
    using that tm(1,3) by (auto simp: in_set_conv_nth)
  have "card (token_key tk ` {..<tok_len tk}) \<le> tok_len tk"
    using card_image_le[of "{..<tok_len tk}" "token_key tk"] by simp
  then have V: "0 < V" "V < 2 ^ 63" using tm(2) h(2) assms(6) by linarith+
  have padc: "padc \<in> set tmap" by (rule py_get_in_set[OF h(3)])
  define b where "b = max 1 ((2 ^ 63 - 1) div V div 2)"
  have mult: "length ms = n \<and> (\<forall>m\<in>set ms. 0 \<le> m \<and> (\<forall>c\<in>set tmap. c * m < 2 ^ 63))"
    if ms: "ms \<in> set (multipliers cfg)" for ms
  proof -
    obtain l where l: "ms = map (\<lambda>v. i64 (i64 (v * 2) + 1)) (rng (10007 * l) b n)"
      using ms h(11) lay(1) by (auto simp: b_def)
    have "0 < b" by (simp add: b_def)
    then have r: "length (rng (10007 * l) b n) = n" "\<forall>v\<in>set (rng (10007 * l) b n). 0 \<le> v \<and> v < b"
      using assms(3) by (auto simp: rng_ok_def)
    have "0 \<le> i64 (i64 (v * 2) + 1) \<and> (\<forall>c\<in>set tmap. c * i64 (i64 (v * 2) + 1) < 2 ^ 63)"
      if v: "v \<in> set (rng (10007 * l) b n)" for v
    proof -
      have nv: "0 \<le> v" "v < b" using r(2) v by auto
      have "i64 (i64 (v * 2) + 1) = 2 * v + 1" by (rule multiplier_fits(1)[OF V b_def nv order.refl V(1)])
      moreover have "c * (2 * v + 1) < 2 ^ 63" if "c \<in> set tmap" for c
        using multiplier_fits(2)[OF V b_def nv] rngV[OF that] by simp
      ultimately show ?thesis using nv by simp
    qed
    then show ?thesis using r(1) unfolding l by auto
  qed
  have offs: "length os = (n - 1) * nh" if hos: "os \<in> set (offsets cfg)" for os
  proof -
    obtain pl where pl: "pl \<in> set (lay_primes lay)" "os = map i64 (cumsum (0 # butlast (concat pl)))"
      using hos h(10) by auto
    have "length (concat pl) = (n - 1) * nh"
      using lay(4) pl(1) by (simp add: length_concat map_eq_conv[THEN iffD2] sum_list_triv cong: map_cong)
    moreover have "0 < (n - 1) * nh" using assms(4,5) by simp
    ultimately show ?thesis using pl(2) by simp
  qed
  have pos: "0 < p" if "pl \<in> set (lay_primes lay)" "ps \<in> set pl" "p \<in> set ps" for pl ps p
    using layout_primes_pos[OF assms(1,2) that] by simp
  have n: "ngram cfg = n" "heads cfg = nh" using h(5,6) lay(1,2) by simp_all
  have "length (multipliers cfg) = length (lay_primes lay)" using h(11) lay(3) by simp
  moreover have "\<forall>ms\<in>set (multipliers cfg). length ms = n \<and> (\<forall>m\<in>set ms. 0 \<le> m \<and> padc * m < 2 ^ 63
      \<and> (\<forall>c\<in>set tmap. c * m < 2 ^ 63))"
    using mult padc by blast
  moreover have "\<forall>pl\<in>set (lay_primes lay). length pl = n - 1 \<and> (\<forall>ps\<in>set pl. length ps = nh \<and> (\<forall>p\<in>set ps. 0 < p))"
    using lay(4) pos by blast
  moreover have "\<forall>os\<in>set (offsets cfg). length os = (n - 1) * nh" using offs by blast
  moreover have "\<forall>c\<in>set tmap. 0 \<le> c" using rngV by blast
  moreover have "length (offsets cfg) = length (lay_primes lay)" using h(10) by simp
  ultimately show ?thesis unfolding cfg_ok_def n h(7-9) using assms(4) padc by simp
qed

text \<open>Given the shapes, the launch asserts no more than powers of two and the width of the history.\<close>

lemma cfg_ok_launch:
  assumes "cfg_ok cfg" "0 < heads cfg"
  shows "launch_ok cfg hist \<longleftrightarrow> (\<exists>j. ngram cfg = 2 ^ j) \<and> (\<exists>k. heads cfg = 2 ^ k) \<and> (\<forall>h\<in>set hist. length h = ngram cfg - 1)"
  using assms unfolding cfg_ok_def launch_ok_def by (simp add: pow2_check_iff)

lemma hasher_sizes:
  assumes "\<forall>c. isprime c = prime_int c" "build_layout isprime lids nemb n nh hdim B = Some lay"
    and "hasher_init tk rng mm lay pad cvs = Inr cfg"
  shows "ngram cfg = n" "heads cfg = nh"
proof -
  have "max_ngram_size lay = n" "n_heads lay = nh"
    using build_layout_consec[OF assms(1), of lids nemb n nh hdim B] assms(2) by auto
  then show "ngram cfg = n" "heads cfg = nh"
    using hasher_init_fields(1)[OF assms(3)] by (metis hasher_init_fields[OF assms(3)])+
qed

text \<open>C14. Every hasher the constructor returns meets the conditions under which the hash kernel
  agrees with the torch path: whatever the tokenizer and the generator, no look-back product
  leaves int64, and the shapes of primes, offsets and multipliers match.  So the assertions of the
  kernel's launch pass exactly when the n-gram size and the number of heads are powers of two and
  the history rows have n - 1 entries; the constructor does not ask for the powers of two, and a
  hasher of other sizes fails at its first CUDA batch.\<close>

theorem hasher_cfg_wellformed:
  assumes "\<forall>c. isprime c = prime_int c" "build_layout isprime lids nemb n nh hdim B = Some lay" "rng_ok rng"
    and "2 \<le> n" "0 < nh" "int (tok_len tk) < 2 ^ 63"
    and "hasher_from_config tk rng mm lay pad cvs mtype vision img = Inr cfg"
  shows "cfg_ok cfg \<and> image_token_id cfg = (if mtype = ''deepseek_v41'' \<and> 0 < vision then Some img else None)
     \<and> (\<forall>hist. launch_ok cfg hist \<longleftrightarrow> (\<exists>j. n = 2 ^ j) \<and> (\<exists>k. nh = 2 ^ k) \<and> (\<forall>h\<in>set hist. length h = n - 1))"
proof -
  obtain c where c: "hasher_init tk rng mm lay pad cvs = Inr c"
    and cfg: "cfg = c\<lparr>image_token_id := (if mtype = ''deepseek_v41'' \<and> 0 < vision then Some img else None)\<rparr>"
    using assms(7) by (auto simp: hasher_from_config_def res_simps)
  have "cfg_ok c" by (rule hasher_cfg_ok[OF assms(1-6) c])
  then have ok: "cfg_ok cfg" by (simp add: cfg cfg_ok_def)
  have n: "ngram cfg = n" "heads cfg = nh" using hasher_sizes[OF assms(1,2) c] by (simp_all add: cfg)
  show ?thesis using ok cfg_ok_launch[OF ok, unfolded n, OF assms(5)] by (simp add: cfg)
qed

definition demo_rng :: "int \<Rightarrow> int \<Rightarrow> nat \<Rightarrow> int list" where
  "demo_rng seed high k = replicate k (seed mod high)"

lemma demo_hasher:
  assumes "build_layout prime_int [1, 14] [10, 20] 2 2 256 5 = Some lay"
  shows "\<exists>cfg. hasher_init demo_tokenizer demo_rng 9 lay 2 3 = Inr cfg"
proof -
  have b: "build_compressed_token_map demo_tokenizer = ([0, 0, 1, 2], 3)" by code_simp
  have "layer_ids lay = [1, 14]"
    using build_layout_consec[of prime_int "[1, 14]" "[10, 20]" 2 2 256 5] assms by auto
  then show ?thesis by (simp add: hasher_init_def b compute_hash_multipliers_def py_get_def Let_def res_map_def)
qed

lemma demo_rng_ok: "rng_ok demo_rng"
  by (auto simp: rng_ok_def demo_rng_def)

theorem hasher_cfg_wellformed_witness:
  "\<exists>lay cfg. hasher_from_config demo_tokenizer demo_rng 9 lay 2 3 ''deepseek_v41'' 1 7 = Inr cfg
     \<and> cfg_ok cfg \<and> image_token_id cfg = Some 7 \<and> launch_ok cfg [[3], [0]]"
proof -
  obtain lay where lay: "build_layout prime_int [1, 14] [10, 20] 2 2 256 5 = Some lay"
    using build_layout_consec[of prime_int "[1, 14]" "[10, 20]" 2 2 256 5] by blast
  obtain c where "hasher_init demo_tokenizer demo_rng 9 lay 2 3 = Inr c" using demo_hasher[OF lay] by blast
  then have h: "hasher_from_config demo_tokenizer demo_rng 9 lay 2 3 ''deepseek_v41'' 1 7 = Inr (c\<lparr>image_token_id := Some 7\<rparr>)"
    by (simp add: hasher_from_config_def res_map_def)
  have "\<exists>j. (2 :: nat) = 2 ^ j" by (rule exI [of _ 1]) simp
  then show ?thesis
    using hasher_cfg_wellformed[OF _ lay demo_rng_ok _ _ _ h] h
    by (intro exI [of _ lay] exI [of _ "c\<lparr>image_token_id := Some 7\<rparr>"]) (simp add: demo_tokenizer_def)
qed

section \<open>Where the ids point\<close>

lemma buckets_in_range:
  assumes "length rs = length pr" "\<forall>ps\<in>set pr. \<forall>p\<in>set ps. (0::int) < p"
  shows "list_all2 (\<lambda>x p. 0 \<le> x \<and> x < p) (concat (map2 (\<lambda>r ps. map (\<lambda>p. r mod p) ps) rs pr)) (concat pr)"
  using assms
proof (induction rs pr rule: list_induct2)
  case (Cons r rs ps pr)
  have "list_all2 (\<lambda>x p. 0 \<le> x \<and> x < p) (map (\<lambda>p. r mod p) ps) ps"
    using Cons.prems by (auto simp: list_all2_conv_all_nth)
  then show ?case using Cons by (simp add: list_all2_appendI)
qed simp

lemma offset_at:
  assumes "c < length flat"
  shows "cumsum (0 # butlast flat) ! c = sum_list (take c flat)"
proof -
  have "c < length (0 # butlast flat)" using assms by simp
  then have "cumsum (0 # butlast flat) ! c = sum_list (take (Suc c) (0 # butlast flat))"
    unfolding cumsum_def by (subst nth_map) (simp_all del: upt_Suc)
  then show ?thesis using assms by (simp add: take_butlast)
qed

lemma torch_layer_range:
  assumes "\<forall>ps\<in>set (primes cfg ! l). \<forall>p\<in>set ps. 0 < p" "length (primes cfg ! l) = length compressed - 1"
    and "length (multipliers cfg ! l) = length compressed" "0 < length compressed"
    and "offsets cfg ! l = map i64 (cumsum (0 # butlast (concat (primes cfg ! l))))"
    and "sum_list (concat (primes cfg ! l)) < 2 ^ 63" "c < length (concat (primes cfg ! l))"
  shows "sum_list (take c (concat (primes cfg ! l))) \<le> torch_layer cfg compressed l ! c"
    and "torch_layer cfg compressed l ! c < sum_list (take (Suc c) (concat (primes cfg ! l)))"
proof -
  define pr where "pr = primes cfg ! l"
  define flat where "flat = concat pr"
  define ps where "ps = map2 (\<lambda>c m. i64 (c * m)) compressed (multipliers cfg ! l)"
  define N where "N = length compressed - 1"
  have lps: "length ps = Suc N" and lpr: "length pr = N" and cl: "length compressed = Suc N"
    using assms(2-4) by (auto simp: ps_def N_def pr_def)
  define hs where "hs = concat (map2 (\<lambda>r qs. map (\<lambda>p. r mod p) qs) (map (roll ps) [1..<Suc N]) pr)"
  have hs: "concat (snd (fold (\<lambda>i (rolling, hashes).
            let rolling' = rolling XOR ps ! i
            in (rolling', hashes @ [map (\<lambda>p. rolling' mod p) (pr ! (i - 1))]))
          [1..<Suc N] (ps ! 0, []))) = hs"
    unfolding hs_def using torch_fold[of N ps pr] lps lpr
    by (auto intro!: arg_cong[where f = concat] nth_equalityI simp del: upt_Suc)
  have "list_all2 (\<lambda>x p. 0 \<le> x \<and> x < p) hs flat"
    unfolding hs_def flat_def by (rule buckets_in_range) (use lpr assms(1) in \<open>auto simp: pr_def simp del: upt_Suc\<close>)
  then have r: "length hs = length flat" "0 \<le> hs ! c" "hs ! c < flat ! c"
    using assms(7) by (auto simp: list_all2_conv_all_nth flat_def pr_def)
  have c: "c < length flat" using assms(7) by (simp add: flat_def pr_def)
  have nn: "\<forall>p\<in>set flat. 0 \<le> p" using assms(1) by (fastforce simp: flat_def pr_def)
  have split: "sum_list flat = sum_list (take c flat) + sum_list (drop c flat)"
    using sum_list_append[of "take c flat" "drop c flat"] by simp
  have "0 \<le> sum_list (take c flat)" "0 \<le> sum_list (drop c flat)"
    using nn by (auto intro!: sum_list_nonneg dest: in_set_takeD in_set_dropD)
  then have off: "i64 (sum_list (take c flat)) = sum_list (take c flat)"
    using assms(6) split by (intro i64_id) (simp_all add: flat_def pr_def)
  have lo: "length (offsets cfg ! l) = length flat" using c by (simp add: assms(5) flat_def pr_def)
  have "torch_layer cfg compressed l = map2 (+) hs (offsets cfg ! l)"
    unfolding torch_layer_def Let_def cl ps_def[symmetric] pr_def[symmetric] using hs by (simp only: Let_def)
  then have "torch_layer cfg compressed l ! c = hs ! c + offsets cfg ! l ! c" using r(1) lo c by simp
  also have "offsets cfg ! l ! c = sum_list (take c flat)"
  proof -
    have "length (cumsum (0 # butlast flat)) = length flat" using c by simp
    then show ?thesis using c offset_at[OF c] off by (simp add: assms(5) flat_def[symmetric] pr_def[symmetric])
  qed
  finally have t: "torch_layer cfg compressed l ! c = hs ! c + sum_list (take c flat)" .
  show "sum_list (take c (concat (primes cfg ! l))) \<le> torch_layer cfg compressed l ! c"
    using t r(2) by (simp add: flat_def pr_def)
  show "torch_layer cfg compressed l ! c < sum_list (take (Suc c) (concat (primes cfg ! l)))"
    using t r(3) c by (simp add: take_Suc_conv_app_nth flat_def pr_def)
qed

lemma sum_take_mono:
  assumes "\<forall>p\<in>set xs. (0::int) \<le> p" "a \<le> b"
  shows "sum_list (take a xs) \<le> sum_list (take b xs)"
proof -
  have "take b xs = take a xs @ take (b - a) (drop a xs)" using assms(2) by (metis le_add_diff_inverse take_add)
  moreover have "0 \<le> sum_list (take (b - a) (drop a xs))"
    using assms(1) by (intro sum_list_nonneg) (meson in_set_dropD in_set_takeD)
  ultimately show ?thesis by simp
qed

text \<open>C15. Where the ids point: with the constructor's parameters, the id of head \<open>c\<close> of a layer
  lies in that head's own block of the layer's table, the blocks being laid end to end from
  row 0; so no two heads share a row, and every id is below the sum of the primes.  The id is a row of
  the layer's table whenever the configured table has a row for every bucket (the number of
  rows is read from the configuration and not compared with the primes).\<close>

theorem hash_ids_in_head_blocks:
  assumes "\<forall>c. isprime c = prime_int c" "build_layout isprime lids nemb n nh hdim B = Some lay" "rng_ok rng"
    and "2 \<le> n" "0 < nh" "int (tok_len tk) < 2 ^ 63" "hasher_init tk rng mm lay pad cvs = Inr cfg"
    and "\<forall>pl\<in>set (lay_primes lay). sum_list (concat pl) < 2 ^ 63"
    and "compute_engram_hash_ids cfg tokens blocked = Inr ids" "length blocked = length tokens"
    and "\<forall>r\<in>set tokens. length r = n" "\<forall>r\<in>set blocked. length r = n"
  shows "\<forall>t<length tokens. \<forall>l<length lids. \<forall>c<(n - 1) * nh.
     sum_list (take c (concat (primes cfg ! l))) \<le> ids ! t ! l ! c
     \<and> ids ! t ! l ! c < sum_list (take (Suc c) (concat (primes cfg ! l)))
     \<and> (\<forall>c'<(n - 1) * nh. c' \<noteq> c \<longrightarrow> ids ! t ! l ! c' \<noteq> ids ! t ! l ! c)
     \<and> 0 \<le> ids ! t ! l ! c \<and> ids ! t ! l ! c < sum_list (concat (primes cfg ! l))
     \<and> (sum_list (concat (primes cfg ! l)) \<le> num_embeddings lay ! l \<longrightarrow> ids ! t ! l ! c < num_embeddings lay ! l)"
proof (intro allI impI)
  fix t l c assume t: "t < length tokens" and l: "l < length lids" and c: "c < (n - 1) * nh"
  have ok: "cfg_ok cfg" by (rule hasher_cfg_ok[OF assms(1-7)])
  obtain lay' where "build_layout isprime lids nemb n nh hdim B = Some lay'" "max_ngram_size lay' = n"
    "layer_ids lay' = lids" "n_heads lay' = nh" "length (lay_primes lay') = length lids"
    using build_layout_consec[OF assms(1), of lids nemb n nh hdim B] by blast
  then have lay: "max_ngram_size lay = n" "layer_ids lay = lids" "n_heads lay = nh" "length (lay_primes lay) = length lids"
    using assms(2) by simp_all
  have f: "ngram cfg = n" "heads cfg = nh" "primes cfg = lay_primes lay"
    "offsets cfg = map (\<lambda>pl. map i64 (cumsum (0 # butlast (concat pl)))) (lay_primes lay)"
    by (rule hasher_init_fields[OF assms(7)], use lay in simp)+
  have lm: "length (multipliers cfg) = length lids" "length (offsets cfg) = length lids"
    using ok lay(4) f(3) by (simp_all add: cfg_ok_def)
  have mem: "primes cfg ! l \<in> set (primes cfg)" "multipliers cfg ! l \<in> set (multipliers cfg)"
    using l lm lay(4) f(3) by auto
  have pl: "length (primes cfg ! l) = n - 1" "\<forall>ps\<in>set (primes cfg ! l). length ps = nh \<and> (\<forall>p\<in>set ps. 0 < p)"
    using ok mem(1) f by (simp_all add: cfg_ok_def)
  have ml: "length (multipliers cfg ! l) = n" using ok mem(2) f by (simp add: cfg_ok_def)
  have fl: "length (concat (primes cfg ! l)) = (n - 1) * nh"
    using pl by (simp add: length_concat map_eq_conv[THEN iffD2] sum_list_triv cong: map_cong)
  obtain mapped where m: "res_list (py_get (token_map cfg)) (tokens ! t) = Inr mapped"
    and it: "ids ! t = map (torch_layer cfg (map2 (\<lambda>b m. if b then pad_id cfg else m) (blocked ! t) mapped))
        [0..<length (multipliers cfg)]"
    using assms(9,10) t by (auto simp: compute_engram_hash_ids_def res_list_Inr res_simps Let_def)
  define comp where "comp = map2 (\<lambda>b m. if b then pad_id cfg else m) (blocked ! t) mapped"
  have lc: "length comp = n" using m t assms(10-12) by (simp add: comp_def res_list_Inr)
  have e: "ids ! t ! l = torch_layer cfg comp l" using it l lm by (simp add: comp_def)
  have s: "sum_list (concat (primes cfg ! l)) < 2 ^ 63" using assms(8) mem(1) f(3) by simp
  have o: "offsets cfg ! l = map i64 (cumsum (0 # butlast (concat (primes cfg ! l))))"
    using l lay(4) by (simp add: f)
  have "0 < length comp" using lc assms(4) by simp
  then have r: "sum_list (take c (concat (primes cfg ! l))) \<le> ids ! t ! l ! c
     \<and> ids ! t ! l ! c < sum_list (take (Suc c) (concat (primes cfg ! l)))" if "c < (n - 1) * nh" for c
    unfolding e using torch_layer_range[of cfg l comp c] pl ml lc o s that fl by simp
  have pos: "\<forall>p\<in>set (concat (primes cfg ! l)). 0 \<le> p" using pl(2) by fastforce
  note mono = sum_take_mono[OF pos]
  have ne: "ids ! t ! l ! c' \<noteq> ids ! t ! l ! c" if "c' < (n - 1) * nh" "c' \<noteq> c" for c'
  proof (cases "c' < c")
    case True
    then show ?thesis using r[OF that(1)] r[OF c] mono[of "Suc c'" c] by force
  next
    case False
    then show ?thesis using r[OF that(1)] r[OF c] mono[of "Suc c" c'] that(2) by force
  qed
  have "ids ! t ! l ! c < sum_list (concat (primes cfg ! l))" "0 \<le> ids ! t ! l ! c"
    using r[OF c] mono[of "Suc c" "length (concat (primes cfg ! l))"] mono[of 0 c] c fl by simp_all
  then show "sum_list (take c (concat (primes cfg ! l))) \<le> ids ! t ! l ! c
     \<and> ids ! t ! l ! c < sum_list (take (Suc c) (concat (primes cfg ! l)))
     \<and> (\<forall>c'<(n - 1) * nh. c' \<noteq> c \<longrightarrow> ids ! t ! l ! c' \<noteq> ids ! t ! l ! c)
     \<and> 0 \<le> ids ! t ! l ! c \<and> ids ! t ! l ! c < sum_list (concat (primes cfg ! l))
     \<and> (sum_list (concat (primes cfg ! l)) \<le> num_embeddings lay ! l \<longrightarrow> ids ! t ! l ! c < num_embeddings lay ! l)"
    using r[OF c] ne by auto
qed

definition trial_prime :: "int \<Rightarrow> bool" where
  "trial_prime p \<longleftrightarrow> 1 < p \<and> (\<forall>d\<in>set [2..p - 1]. p mod d \<noteq> 0)"

lemma trial_prime: "trial_prime p = prime_int p"
proof
  assume t: "trial_prime p"
  then show "prime_int p" unfolding prime_int_def
  proof (intro conjI allI impI)
    fix d assume d: "0 < d" "d dvd p"
    then have "d \<le> p" using t by (simp add: trial_prime_def zdvd_imp_le)
    moreover have "d \<notin> {2..p - 1}" using d(2) t by (auto simp: trial_prime_def dvd_eq_mod_eq_0)
    ultimately show "d = 1 \<or> d = p" using d(1) by auto
  qed (simp add: trial_prime_def)
next
  assume "prime_int p"
  have "\<not> d dvd p" if "d \<in> {2..p - 1}" for d
  proof
    assume "d dvd p"
    moreover have "0 < d" "d \<noteq> 1" "d \<noteq> p" using that by auto
    ultimately show False using \<open>prime_int p\<close> unfolding prime_int_def by blast
  qed
  then show "trial_prime p" using \<open>prime_int p\<close> by (simp add: prime_int_def trial_prime_def dvd_eq_mod_eq_0)
qed

lemmas search_prime_steps =
  search_prime.simps[of _ _ 5] search_prime.simps[of _ _ 6] search_prime.simps[of _ _ 7]
  search_prime.simps[of _ _ 8] search_prime.simps[of _ _ 9] search_prime.simps[of _ _ 10]
  search_prime.simps[of _ _ 11] search_prime.simps[of _ _ 12] search_prime.simps[of _ _ 13]

lemma trial_prime_small:
  "trial_prime 5" "\<not> trial_prime 6" "trial_prime 7" "\<not> trial_prime 8" "\<not> trial_prime 9" "\<not> trial_prime 10"
  "trial_prime 11" "\<not> trial_prime 12" "trial_prime 13"
  by code_simp+

theorem hash_ids_in_head_blocks_witness:
  "\<exists>lay cfg ids. hasher_init demo_tokenizer demo_rng 9 lay 2 3 = Inr cfg \<and> num_embeddings lay = [12, 24]
     \<and> compute_engram_hash_ids cfg [[3, 0]] [[False, True]] = Inr ids
     \<and> 0 \<le> ids ! 0 ! 1 ! 0 \<and> ids ! 0 ! 1 ! 0 < 11 \<and> 11 \<le> ids ! 0 ! 1 ! 1 \<and> ids ! 0 ! 1 ! 1 < 24"
proof -
  have ip: "\<forall>c. trial_prime c = prime_int c" using trial_prime by simp
  define lay where "lay = \<lparr>max_ngram_size = 2, layer_ids = [1, 14], num_embeddings = [12, 24],
     lay_primes = [[[5, 7]], [[11, 13]]], n_heads = 2, head_dim = 256\<rparr>"
  have b: "build_layout trial_prime [1, 14] [12, 24] 2 2 256 5 = Some lay"
    by (simp add: lay_def build_layout_def numeral_2_eq_2 find_next_prime_def search_prime_steps trial_prime_small)
  have tm: "build_compressed_token_map demo_tokenizer = ([0, 0, 1, 2], 3)" by code_simp
  obtain cfg where cfg: "hasher_init demo_tokenizer demo_rng 9 lay 2 3 = Inr cfg"
    and p: "primes cfg = lay_primes lay" "token_map cfg = [0, 0, 1, 2]"
    by (simp add: hasher_init_def tm compute_hash_multipliers_def py_get_def Let_def res_map_def lay_def)
  obtain ids where ids: "compute_engram_hash_ids cfg [[3, 0]] [[False, True]] = Inr ids"
    by (simp add: compute_engram_hash_ids_def p py_get_def Let_def res_map_def)
  have "int (tok_len demo_tokenizer) < 2 ^ 63" by (simp add: demo_tokenizer_def)
  then have H: "\<forall>t<length [[3, 0 :: int]]. \<forall>l<length [1, 14 :: int]. \<forall>c<(2 - 1) * 2.
     sum_list (take c (concat (primes cfg ! l))) \<le> ids ! t ! l ! c
     \<and> ids ! t ! l ! c < sum_list (take (Suc c) (concat (primes cfg ! l)))
     \<and> (sum_list (concat (primes cfg ! l)) \<le> num_embeddings lay ! l \<longrightarrow> ids ! t ! l ! c < num_embeddings lay ! l)"
    using hash_ids_in_head_blocks[OF ip b demo_rng_ok _ _ _ cfg _ ids] by (simp add: lay_def)
  have P: "concat (primes cfg ! 1) = [11, 13]" "num_embeddings lay = [12, 24]" by (simp_all add: p lay_def)
  have "sum_list (take 0 (concat (primes cfg ! 1))) \<le> ids ! 0 ! 1 ! 0
     \<and> ids ! 0 ! 1 ! 0 < sum_list (take (Suc 0) (concat (primes cfg ! 1)))"
    "sum_list (take 1 (concat (primes cfg ! 1))) \<le> ids ! 0 ! 1 ! 1
     \<and> (sum_list (concat (primes cfg ! 1)) \<le> num_embeddings lay ! 1 \<longrightarrow> ids ! 0 ! 1 ! 1 < num_embeddings lay ! 1)"
    using H by force+
  then show ?thesis using cfg ids P by (intro exI [of _ lay] exI [of _ cfg] exI [of _ ids]) simp
qed

end
