(* ===== verification/EngramTable.thy ===== *)
theory EngramTable
  imports Prelude Complex_Main
begin

text \<open>
  The engram's embedding tables (\<open>sglang-overlay/engram.py\<close>, \<open>EngramEmbedding\<close> and the layout
  choice of \<open>_HostTable\<close>): which rank owns which rows, what each rank's loader writes, and
  the look-up in its four forms (one shared host table, sharded rows with an all-reduce,
  prefill context parallelism, data parallelism).  The model is the whole group: one
  \<open>embedding\<close> record per rank.  External, as arguments: \<open>bf16\<close> rounding, the
  \<open>engram_gather\<close> kernel and the collectives.  Index tensors are flattened.
\<close>

section \<open>Shards\<close>

datatype host_layout = Shared | Private

record embedding =
  emb_dim :: nat
  emb_tp :: int
  emb_start :: int
  emb_rows :: int
  emb_host :: "host_layout option"

definition embedding_init :: "int \<Rightarrow> nat \<Rightarrow> int \<Rightarrow> host_layout option \<Rightarrow> int \<Rightarrow> embedding" where
  "embedding_init num dm tp host rank =
     (let row_start = num * rank div tp; row_end = num * (rank + 1) div tp
      in \<lparr>emb_dim = dm, emb_tp = tp, emb_start = row_start, emb_rows = row_end - row_start, emb_host = host\<rparr>)"

text \<open>\<open>_HostTable.choose_layout\<close>, with the two sysfs knobs as arguments.\<close>

definition choose_layout :: "string \<Rightarrow> string \<Rightarrow> string \<Rightarrow> string" where
  "choose_layout requested shmem_enabled enabled =
     (if requested \<noteq> ''auto'' then requested
      else if shmem_enabled \<in> {''advise'', ''always'', ''within_size'', ''force''} then ''shared''
      else if enabled \<in> {''madvise'', ''always''} then ''private''
      else ''shared'')"

definition is_shared :: "embedding \<Rightarrow> bool" where
  "is_shared e \<longleftrightarrow> emb_host e = Some Shared"

text \<open>\<open>_init_host_table\<close>: the mapping's rows, its size, and where the scales start in it.\<close>

definition host_bytes :: "int \<Rightarrow> embedding \<Rightarrow> int \<Rightarrow> int \<times> int \<times> int" where
  "host_bytes num e fp8_block =
     (let n = (if emb_host e = Some Shared then num else emb_rows e);
          w_bytes = n * int (emb_dim e); s_bytes = n * (int (emb_dim e) div fp8_block)
      in (n, max 1 (w_bytes + s_bytes), w_bytes))"

text \<open>Rows a parameter holds after a rank's loader ran: \<open>copy_\<close> needs equal shapes.\<close>

definition load_rows :: "embedding \<Rightarrow> 'r list \<Rightarrow> 'r list \<Rightarrow> 'r list res" where
  "load_rows e param loaded =
     (let rows = take (nat (emb_rows e)) (drop (nat (emb_start e)) loaded)
      in if is_shared e then
           ensure (length (take (nat (emb_rows e)) (drop (nat (emb_start e)) param)) = length rows) RuntimeError
             (Inr (take (nat (emb_start e)) param @ rows @ drop (nat (emb_start e) + length rows) param))
         else ensure (length param = length rows) RuntimeError (Inr rows))"

section \<open>Look-up\<close>

definition dequant :: "(real \<Rightarrow> real) \<Rightarrow> nat \<Rightarrow> real list \<times> real list \<Rightarrow> real list" where
  "dequant bf16 blk = (\<lambda>(w, s). map (\<lambda>j. bf16 (w ! j * s ! (j div blk))) [0..<length w])"

text \<open>A table row is its fp8 values and its block scales; \<open>gather\<close> is the kernel, called with the
  row range this rank holds.\<close>

type_synonym table = "(real list \<times> real list) list"
type_synonym gather = "table \<Rightarrow> int list \<Rightarrow> (int \<times> int) option \<Rightarrow> real list list"

definition owned_rows ::
    "(real \<Rightarrow> real) \<Rightarrow> nat \<Rightarrow> gather \<Rightarrow> bool \<Rightarrow> embedding \<Rightarrow> table \<Rightarrow> int list \<Rightarrow> real list list" where
  "owned_rows bf16 blk gather on_cuda e tab indices =
     (if emb_rows e = 0 then map (\<lambda>_. replicate (emb_dim e) 0) indices
      else if emb_host e = None \<and> \<not> on_cuda then
        map (\<lambda>i. let loc = i - emb_start e; owned = 0 \<le> loc \<and> loc < emb_rows e;
                     loc = (if owned then loc else 0); values = dequant bf16 blk (tab ! nat loc)
                 in if owned then values else map (\<lambda>_. 0) values) indices
      else gather tab indices (Some (emb_start e, emb_start e + emb_rows e)))"

definition lookup_group ::
    "(real list list list \<Rightarrow> real list list) \<Rightarrow> (embedding \<Rightarrow> table \<Rightarrow> int list \<Rightarrow> real list list)
       \<Rightarrow> embedding list \<Rightarrow> table list \<Rightarrow> int list list \<Rightarrow> real list list list" where
  "lookup_group all_reduce owned es tabs idxs =
     (let values = map (\<lambda>r. owned (es ! r) (tabs ! r) (idxs ! r)) [0..<length es]
      in map (\<lambda>r. if idxs ! r = [] then [] else if emb_tp (es ! r) > 1 then all_reduce values else values ! r)
           [0..<length es])"

text \<open>The parallel setting: prefill context parallelism (\<open>cp_of r\<close> is rank \<open>r\<close>'s context-parallel
  rank), data parallelism (\<open>dp_gather\<close>, \<open>dp_scatter\<close>, \<open>reduce_scatter\<close>).\<close>

record dp_env =
  dp_size :: int
  dp_of :: "nat \<Rightarrow> nat"
  dp_gather :: "int list list \<Rightarrow> int list"
  dp_scatter :: "nat \<Rightarrow> real list list \<Rightarrow> real list list"
  dp_reduce_scatter :: "nat \<Rightarrow> real list list list \<Rightarrow> real list list"
  dp_max_len :: bool
  dp_gatherv :: bool

definition dp_sharded_lookup ::
    "(real list list list \<Rightarrow> real list list) \<Rightarrow> (embedding \<Rightarrow> table \<Rightarrow> int list \<Rightarrow> real list list)
       \<Rightarrow> dp_env option \<Rightarrow> embedding list \<Rightarrow> table list \<Rightarrow> int list list \<Rightarrow> nat \<Rightarrow> real list list res" where
  "dp_sharded_lookup all_reduce owned fb es tabs idxs r =
     (case fb of None \<Rightarrow> Inl AssertionError
      | Some d \<Rightarrow>
        (let ids_global = dp_gather d idxs; rows = length ids_global; n_local = length (idxs ! dp_of d r)
         in if rows = 0 then Inr []
            else let values = map (\<lambda>q. owned (es ! q) (tabs ! q) ids_global) [0..<length es]
                 in Inr (if (dp_max_len d \<and> emb_tp (es ! r) = dp_size d \<and> int rows = emb_tp (es ! r) * int n_local)
                              \<or> dp_gatherv d
                         then dp_reduce_scatter d r values
                         else dp_scatter d r (all_reduce values))))"

text \<open>\<open>EngramEmbedding.forward\<close> on rank \<open>r\<close> of the group; \<open>idxs\<close> lists the index tensors of
  the ranks (by context- or data-parallel rank where those are on).\<close>

definition embedding_forward ::
    "gather \<Rightarrow> (real list list list \<Rightarrow> real list list) \<Rightarrow> (embedding \<Rightarrow> table \<Rightarrow> int list \<Rightarrow> real list list)
       \<Rightarrow> bool \<Rightarrow> (nat \<Rightarrow> nat) \<Rightarrow> int \<Rightarrow> dp_env option \<Rightarrow> embedding list \<Rightarrow> table list \<Rightarrow> int list list \<Rightarrow> nat
       \<Rightarrow> real list list res" where
  "embedding_forward gather all_reduce owned cp_all cp_of dp fb es tabs idxs r =
     (let e = es ! r in
      if is_shared e then
        (if idxs ! r = [] then Inr [] else Inr (gather (tabs ! r) (idxs ! r) None))
      else if cp_all \<and> emb_tp e > 1 then
        (let local_rows = length (idxs ! cp_of r); all_indices = concat idxs
         in Inr (take local_rows (drop (cp_of r * local_rows)
              (lookup_group all_reduce owned es tabs (replicate (length es) all_indices) ! r))))
      else if emb_tp e > 1 \<and> dp > 1 then dp_sharded_lookup all_reduce owned fb es tabs idxs r
      else Inr (lookup_group all_reduce owned es tabs idxs ! r))"

section \<open>The shards tile the table\<close>

lemma shard_mono: "0 \<le> num \<Longrightarrow> 0 < tp \<Longrightarrow> r \<le> r' \<Longrightarrow> num * r div tp \<le> num * r' div (tp::int)"
  by (intro zdiv_mono1 mult_left_mono) auto

lemma shard_cover:
  assumes "0 < tp" "0 \<le> i" "i < num"
  shows "\<exists>r<nat tp. num * int r div tp \<le> i \<and> i < num * (int r + 1) div tp"
proof -
  define P where "P = (\<lambda>k::nat. i < num * (int k + 1) div tp)"
  have "P (nat tp - 1)" using assms by (simp add: P_def of_nat_diff)
  then have least: "P (LEAST k. P k)" "(LEAST k. P k) \<le> nat tp - 1" by (rule LeastI, rule Least_le)
  define r where "r = (LEAST k. P k)"
  have "num * int r div tp \<le> i"
  proof (cases r)
    case 0
    then show ?thesis using assms(2) by simp
  next
    case (Suc k)
    then have "\<not> P k" unfolding r_def using not_less_Least[of k P] by simp
    then show ?thesis using Suc by (simp add: P_def add.commute)
  qed
  then show ?thesis using least assms(1) by (intro exI[of _ r]) (auto simp: r_def P_def)
qed

lemma shard_unique:
  assumes "0 < tp" "0 \<le> num" "num * int r div tp \<le> i" "i < num * (int r + 1) div tp"
    and "num * int q div tp \<le> i" "i < num * (int q + 1) div (tp::int)"
  shows "q = r"
proof (rule ccontr)
  assume "q \<noteq> r"
  then have "int r + 1 \<le> int q \<or> int q + 1 \<le> int r" by linarith
  then show False
    using shard_mono[OF assms(2,1), of "int r + 1" "int q"] shard_mono[OF assms(2,1), of "int q + 1" "int r"] assms(3-6)
    by linarith
qed

text \<open>What a rank's table is once the checkpoint \<open>full\<close> has been loaded.\<close>

definition held :: "embedding \<Rightarrow> 'r list \<Rightarrow> 'r list" where
  "held e full = (if is_shared e then full else take (nat (emb_rows e)) (drop (nat (emb_start e)) full))"

lemma shard_bounds:
  assumes "0 < tp" "0 \<le> num" "r < nat tp"
  shows "0 \<le> num * int r div tp" "num * int r div tp \<le> num * (int r + 1) div tp" "num * (int r + 1) div tp \<le> num"
proof -
  show "num * int r div tp \<le> num * (int r + 1) div tp" by (rule shard_mono[OF assms(2,1)]) simp
  show "0 \<le> num * int r div tp" using assms by (simp add: pos_imp_zdiv_nonneg_iff)
  have "num * (int r + 1) div tp \<le> num * tp div tp" by (rule shard_mono[OF assms(2,1)]) (use assms in linarith)
  then show "num * (int r + 1) div tp \<le> num" using assms(1) by simp
qed

text \<open>Loading a shared table: every rank writes its own rows of the one mapping.\<close>

definition load_shared :: "embedding list \<Rightarrow> nat list \<Rightarrow> 'r list \<Rightarrow> 'r list \<Rightarrow> 'r list res" where
  "load_shared es order full param = fold (\<lambda>r m. res_bind m (\<lambda>p. load_rows (es ! r) p full)) order (Inr param)"

lemma load_shared_step:
  assumes "0 < tp" "e = embedding_init num dm tp (Some Shared) (int r)" "r < nat tp" "length full = nat num" "0 \<le> num"
    and "length p = nat num"
  shows "\<exists>p'. load_rows e p full = Inr p' \<and> length p' = nat num
     \<and> (\<forall>i<nat num. p' ! i = (if num * int r div tp \<le> int i \<and> int i < num * (int r + 1) div tp then full ! i else p ! i))"
proof -
  define lo where "lo = nat (num * int r div tp)"
  define hi where "hi = nat (num * (int r + 1) div tp)"
  note b = shard_bounds[OF assms(1,5,3)]
  have lh: "lo \<le> hi" "hi \<le> nat num" using b by (auto simp: lo_def hi_def)
  have e: "is_shared e" "nat (emb_start e) = lo" "nat (emb_rows e) = hi - lo"
    using b by (auto simp: assms(2) embedding_init_def is_shared_def Let_def lo_def hi_def nat_diff_distrib)
  define rows where "rows = take (hi - lo) (drop lo full)"
  have lr: "length rows = hi - lo" unfolding rows_def using lh assms(4) by (simp add: min_def) linarith
  define p' where "p' = take lo p @ rows @ drop (lo + length rows) p"
  have "load_rows e p full = Inr p'"
    using e lr lh assms(6) by (simp add: load_rows_def rows_def[symmetric] p'_def Let_def)
  moreover have "length p' = nat num" using lr lh assms(6) by (simp add: p'_def)
  moreover have "p' ! i = (if num * int r div tp \<le> int i \<and> int i < num * (int r + 1) div tp then full ! i else p ! i)"
    if "i < nat num" for i
  proof -
    have "(num * int r div tp \<le> int i) = (lo \<le> i)" "(int i < num * (int r + 1) div tp) = (i < hi)"
      using b by (auto simp: lo_def hi_def)
    moreover have "rows ! (i - lo) = full ! i" if "lo \<le> i" "i < hi" using that lh assms(4) by (simp add: rows_def)
    ultimately show ?thesis using that lr lh assms(6) by (auto simp: p'_def nth_append)
  qed
  ultimately show ?thesis by blast
qed

lemma load_shared_rows:
  assumes "0 < tp" "es = map (\<lambda>r. embedding_init num dm tp (Some Shared) (int r)) [0..<nat tp]" "set order \<subseteq> {..<nat tp}"
    and "length full = nat num" "0 \<le> num" "length p = nat num"
  shows "\<exists>p'. load_shared es order full p = Inr p' \<and> length p' = nat num
     \<and> (\<forall>i<nat num. p' ! i = (if \<exists>r\<in>set order. num * int r div tp \<le> int i \<and> int i < num * (int r + 1) div tp
            then full ! i else p ! i))"
  using assms(3,6)
proof (induction order arbitrary: p)
  case Nil
  then show ?case by (simp add: load_shared_def)
next
  case (Cons r order)
  have "es ! r = embedding_init num dm tp (Some Shared) (int r)" "r < nat tp" using Cons.prems assms(2) by auto
  then obtain p1 where p1: "load_rows (es ! r) p full = Inr p1" "length p1 = nat num"
     "\<forall>i<nat num. p1 ! i = (if num * int r div tp \<le> int i \<and> int i < num * (int r + 1) div tp then full ! i else p ! i)"
    using load_shared_step[OF assms(1) _ _ assms(4,5) Cons.prems(2)] by metis
  obtain p2 where p2: "load_shared es order full p1 = Inr p2" "length p2 = nat num"
     "\<forall>i<nat num. p2 ! i = (if \<exists>r\<in>set order. num * int r div tp \<le> int i \<and> int i < num * (int r + 1) div tp
            then full ! i else p1 ! i)"
    using Cons.IH[of p1] Cons.prems p1(2) by auto
  have "load_shared es (r # order) full p = Inr p2" using p1(1) p2(1) by (simp add: load_shared_def)
  then show ?case using p2 p1(3) by auto
qed

text \<open>Loading: in whatever order the ranks run, a shared mapping ends up holding every row of
  the checkpoint; a private or device shard ends up with exactly its own rows.\<close>

theorem tables_loaded:
  assumes "0 < tp" "0 \<le> num" "length full = nat num" "set order = {..<nat tp}" "length p = nat num"
    and "length q = nat (emb_rows (embedding_init num dm tp host (int r)))" "r < nat tp" "host \<noteq> Some Shared"
  shows "load_shared (map (\<lambda>r. embedding_init num dm tp (Some Shared) (int r)) [0..<nat tp]) order full p = Inr full
     \<and> load_rows (embedding_init num dm tp host (int r)) q full = Inr (held (embedding_init num dm tp host (int r)) full)"
proof
  let ?es = "map (\<lambda>r. embedding_init num dm tp (Some Shared) (int r)) [0..<nat tp]"
  obtain p' where p': "load_shared ?es order full p = Inr p'" "length p' = nat num"
     "\<forall>i<nat num. p' ! i = (if \<exists>r\<in>set order. num * int r div tp \<le> int i \<and> int i < num * (int r + 1) div tp
            then full ! i else p ! i)"
    using load_shared_rows[OF assms(1) refl _ assms(3,2,5)] assms(4) by blast
  have "p' ! i = full ! i" if "i < nat num" for i
  proof -
    have "int i < num" using that by simp
    then have "\<exists>r<nat tp. num * int r div tp \<le> int i \<and> int i < num * (int r + 1) div tp"
      by (intro shard_cover[OF assms(1)]) simp_all
    then have "\<exists>r\<in>set order. num * int r div tp \<le> int i \<and> int i < num * (int r + 1) div tp"
      using assms(4) by blast
    then show ?thesis using p'(3) that by simp
  qed
  then have "p' = full" using p'(2) assms(3) by (auto intro: nth_equalityI)
  then show "load_shared ?es order full p = Inr full" using p'(1) by simp
  let ?e = "embedding_init num dm tp host (int r)"
  note b = shard_bounds[OF assms(1,2,7)]
  have "\<not> is_shared ?e" using assms(8) by (simp add: is_shared_def embedding_init_def Let_def)
  moreover have "length (held ?e full) = nat (emb_rows ?e)"
    using b assms(3,8) by (simp add: held_def is_shared_def embedding_init_def Let_def)
  ultimately show "load_rows ?e q full = Inr (held ?e full)"
    using assms(6) by (simp add: load_rows_def held_def Let_def)
qed

theorem tables_loaded_witness:
  "load_shared (map (\<lambda>r. embedding_init 5 4 2 (Some Shared) (int r)) [0..<2]) [1, 0] [10, 11, 12, 13, 14::int] [0, 0, 0, 0, 0]
     = Inr [10, 11, 12, 13, 14]
   \<and> load_rows (embedding_init 5 4 2 None 1) [0, 0, 0] [10, 11, 12, 13, 14::int] = Inr [12, 13, 14]"
proof -
  have "set [1, 0] = {..<nat 2}" by auto
  moreover have "length [0, 0, 0 :: int] = nat (emb_rows (embedding_init 5 4 2 None (int 1)))"
    by (simp add: embedding_init_def Let_def)
  moreover have "held (embedding_init 5 4 2 None (int 1)) [10, 11, 12, 13, 14::int] = [12, 13, 14]"
    by (simp add: held_def is_shared_def embedding_init_def Let_def)
  ultimately show ?thesis
    using tables_loaded[of 2 5 "[10, 11, 12, 13, 14::int]" "[1, 0]" "[0, 0, 0, 0, 0]" "[0, 0, 0]" 4 None 1] by simp
qed

section \<open>A look-up returns the rows of the whole table\<close>

text \<open>What the external pieces are relied on for: \<open>engram_gather\<close> dequantizes the rows in its range and
  zeroes the rest; an all-reduce returns the one contribution that is not zero.\<close>

definition gather_ok :: "(real \<Rightarrow> real) \<Rightarrow> nat \<Rightarrow> nat \<Rightarrow> gather \<Rightarrow> bool" where
  "gather_ok bf16 blk dm gather \<longleftrightarrow>
     (\<forall>tab ids lo hi. int (length tab) = hi - lo \<longrightarrow> gather tab ids (Some (lo, hi))
         = map (\<lambda>i. if lo \<le> i \<and> i < hi then dequant bf16 blk (tab ! nat (i - lo)) else replicate dm 0) ids)
   \<and> (\<forall>tab ids. (\<forall>i\<in>set ids. 0 \<le> i \<and> i < int (length tab)) \<longrightarrow>
         gather tab ids None = map (\<lambda>i. dequant bf16 blk (tab ! nat i)) ids)"

definition reduce_ok :: "nat \<Rightarrow> (real list list list \<Rightarrow> real list list) \<Rightarrow> bool" where
  "reduce_ok dm all_reduce \<longleftrightarrow> (\<forall>vals n. vals \<noteq> [] \<and> (\<forall>v\<in>set vals. length v = n) \<longrightarrow>
     length (all_reduce vals) = n
     \<and> (\<forall>i<n. \<forall>r<length vals. (\<forall>q<length vals. q \<noteq> r \<longrightarrow> vals ! q ! i = replicate dm 0)
          \<longrightarrow> all_reduce vals ! i = vals ! r ! i))"

lemma owned_row_at:
  assumes "gather_ok bf16 blk dm gather" "0 < tp" "0 \<le> num" "r < nat tp" "e = embedding_init num dm tp host (int r)"
    and "host \<noteq> Some Shared" "length full = nat num" "\<forall>(w, s)\<in>set full. length w = dm"
  shows "owned_rows bf16 blk gather cuda e (held e full) ids
     = map (\<lambda>i. if num * int r div tp \<le> i \<and> i < num * (int r + 1) div tp
                then dequant bf16 blk (full ! nat i) else replicate dm 0) ids"
proof -
  define lo where "lo = num * int r div tp"
  define hi where "hi = num * (int r + 1) div tp"
  have b: "0 \<le> lo" "lo \<le> hi" "hi \<le> num" using shard_bounds[OF assms(2-4)] by (simp_all add: lo_def hi_def)
  have e: "emb_rows e = hi - lo" "emb_start e = lo" "emb_dim e = dm" "emb_host e = host" "\<not> is_shared e"
    using assms(6) by (auto simp: assms(5) embedding_init_def Let_def lo_def hi_def is_shared_def)
  have tab: "held e full = take (nat (hi - lo)) (drop (nat lo) full)" using e by (simp add: held_def)
  have len: "int (length (held e full)) = hi - lo" using b assms(7) by (simp add: tab)
  have at: "held e full ! nat (i - lo) = full ! nat i" if "lo \<le> i" "i < hi" for i
  proof -
    have "nat lo + nat (i - lo) = nat i" using that b by linarith
    then show ?thesis using that b assms(7) by (simp add: tab)
  qed
  show ?thesis unfolding lo_def[symmetric] hi_def[symmetric]
  proof (cases "hi - lo = 0")
    case True
    then show "owned_rows bf16 blk gather cuda e (held e full) ids
     = map (\<lambda>i. if lo \<le> i \<and> i < hi then dequant bf16 blk (full ! nat i) else replicate dm 0) ids"
      using e by (auto simp: owned_rows_def)
  next
    case False
    then have pos: "0 < hi - lo" using b by simp
    show "owned_rows bf16 blk gather cuda e (held e full) ids
     = map (\<lambda>i. if lo \<le> i \<and> i < hi then dequant bf16 blk (full ! nat i) else replicate dm 0) ids"
    proof (cases "host = None \<and> \<not> cuda")
      case True
      have "held e full ! 0 \<in> set (held e full)" using len pos by (intro nth_mem) linarith
      then have "held e full ! 0 \<in> set full" unfolding tab by (meson in_set_dropD in_set_takeD)
      then have z: "map (\<lambda>_. 0) (dequant bf16 blk (held e full ! 0)) = replicate dm (0::real)"
        using assms(8) by (auto simp: dequant_def map_replicate_const split: prod.splits)
      show ?thesis
        unfolding owned_rows_def using True pos e z at by (auto simp: Let_def)
    next
      case False
      then have "owned_rows bf16 blk gather cuda e (held e full) ids = gather (held e full) ids (Some (lo, lo + (hi - lo)))"
        using pos e by (auto simp: owned_rows_def)
      also have "\<dots> = map (\<lambda>i. if lo \<le> i \<and> i < hi then dequant bf16 blk (held e full ! nat (i - lo)) else replicate dm 0) ids"
        using assms(1) len unfolding gather_ok_def by simp
      finally show ?thesis using at by (simp cong: if_cong)
    qed
  qed
qed

text \<open>Every rank looks up the same ids: the reduction is the row of the one owner.\<close>

lemma reduced_rows:
  assumes "gather_ok bf16 blk dm gather" "reduce_ok dm all_reduce" "0 < tp" "0 \<le> num" "host \<noteq> Some Shared"
    and "length full = nat num" "\<forall>(w, s)\<in>set full. length w = dm"
    and "es = map (\<lambda>r. embedding_init num dm tp host (int r)) [0..<nat tp]"
  shows "length (all_reduce (map (\<lambda>r. owned_rows bf16 blk gather cuda (es ! r) (held (es ! r) full) ids) [0..<length es])) = length ids"
    and "k < length ids \<Longrightarrow> 0 \<le> ids ! k \<Longrightarrow> ids ! k < num \<Longrightarrow>
       all_reduce (map (\<lambda>r. owned_rows bf16 blk gather cuda (es ! r) (held (es ! r) full) ids) [0..<length es]) ! k
         = dequant bf16 blk (full ! nat (ids ! k))"
proof -
  let ?vals = "map (\<lambda>r. owned_rows bf16 blk gather cuda (es ! r) (held (es ! r) full) ids) [0..<length es]"
  have le: "length es = nat tp" by (simp add: assms(8))
  have row: "?vals ! r = map (\<lambda>i. if num * int r div tp \<le> i \<and> i < num * (int r + 1) div tp
                then dequant bf16 blk (full ! nat i) else replicate dm 0) ids" if "r < nat tp" for r
    using that le owned_row_at[OF assms(1,3,4) that refl assms(5-7)] by (simp add: assms(8))
  have lens: "\<forall>v\<in>set ?vals. length v = length ids"
    using row le by (metis (no_types, lifting) in_set_conv_nth length_map length_upt minus_nat.diff_0)
  have ne: "?vals \<noteq> []" using assms(3) le by simp
  note red = assms(2)[unfolded reduce_ok_def, rule_format, OF conjI[OF ne lens]]
  show "length (all_reduce ?vals) = length ids" using red by blast
  assume k: "k < length ids" "0 \<le> ids ! k" "ids ! k < num"
  obtain r where r: "r < nat tp" "num * int r div tp \<le> ids ! k" "ids ! k < num * (int r + 1) div tp"
    using shard_cover[OF assms(3) k(2,3)] by blast
  have "?vals ! q ! k = replicate dm 0" if "q < length ?vals" "q \<noteq> r" for q
  proof -
    have q: "q < nat tp" using that le by simp
    have n: "\<not> (num * int q div tp \<le> ids ! k \<and> ids ! k < num * (int q + 1) div tp)"
      using shard_unique[OF assms(3,4) r(2,3)] that(2) by blast
    show ?thesis unfolding row[OF q] nth_map[OF k(1)] by (simp only: n if_False)
  qed
  moreover have "r < length ?vals" using r(1) le by simp
  ultimately have "all_reduce ?vals ! k = ?vals ! r ! k" using red k(1) by blast
  then show "all_reduce ?vals ! k = dequant bf16 blk (full ! nat (ids ! k))" using row[OF r(1)] r k(1) by simp
qed

text \<open>The collectives of the data-parallel attention group, as documented.  The gathered ids hold
  this rank's ids at \<open>off\<close>; under MAX_LEN padding every data-parallel rank has the same stride of the
  buffer.  The scatter copies the rank's own slice out of a buffer.  The reduce-scatter sums and then
  hands out equal chunks in tensor-parallel order, whatever the slices are, except when the sized
  (gatherv) variant is active, which hands out the data-parallel slices.  With as many tensor- as
  data-parallel ranks the two numberings agree.\<close>

definition dp_ok :: "(real list list list \<Rightarrow> real list list) \<Rightarrow> int \<Rightarrow> dp_env \<Rightarrow> int list list \<Rightarrow> nat \<Rightarrow> bool" where
  "dp_ok all_reduce tp d idxs r \<longleftrightarrow>
     (let own = idxs ! dp_of d r; n = length own; ids = dp_gather d idxs; rows = length ids in
      \<exists>off. take n (drop off ids) = own \<and> off + n \<le> rows
        \<and> (\<forall>v. length v = rows \<longrightarrow> dp_scatter d r v = take n (drop off v))
        \<and> (dp_max_len d \<longrightarrow> (\<exists>stride. int rows = dp_size d * int stride \<and> off = dp_of d r * stride))
        \<and> (tp = dp_size d \<longrightarrow> dp_of d r = r)
        \<and> (dp_gatherv d \<longrightarrow> (\<forall>vals. dp_reduce_scatter d r vals = take n (drop off (all_reduce vals))))
        \<and> (\<not> dp_gatherv d \<longrightarrow> (\<forall>vals m. vals \<noteq> [] \<longrightarrow> int rows = tp * int m \<longrightarrow> (\<forall>v\<in>set vals. length v = rows)
              \<longrightarrow> dp_reduce_scatter d r vals = take m (drop (r * m) (all_reduce vals)))))"

text \<open>The ids rank \<open>r\<close> asks for.\<close>

definition own_ids :: "bool \<Rightarrow> (nat \<Rightarrow> nat) \<Rightarrow> int \<Rightarrow> dp_env option \<Rightarrow> embedding list \<Rightarrow> int list list \<Rightarrow> nat \<Rightarrow> int list" where
  "own_ids cp_all cp_of dp fb es idxs r =
     (if is_shared (es ! r) then idxs ! r
      else if cp_all \<and> emb_tp (es ! r) > 1 then idxs ! cp_of r
      else if emb_tp (es ! r) > 1 \<and> dp > 1 then idxs ! dp_of (the fb) r else idxs ! r)"

definition forward_env_ok ::
    "(real list list list \<Rightarrow> real list list) \<Rightarrow> bool \<Rightarrow> (nat \<Rightarrow> nat) \<Rightarrow> int \<Rightarrow> dp_env option \<Rightarrow> embedding list
       \<Rightarrow> int list list \<Rightarrow> nat \<Rightarrow> bool" where
  "forward_env_ok all_reduce cp_all cp_of dp fb es idxs r \<longleftrightarrow>
     (if is_shared (es ! r) then r < length idxs
      else if cp_all \<and> emb_tp (es ! r) > 1 then
        cp_of r < length idxs \<and> (\<forall>ids\<in>set idxs. length ids = length (idxs ! cp_of r))
      else if emb_tp (es ! r) > 1 \<and> dp > 1 then
        (\<exists>d. fb = Some d \<and> dp_of d r < length idxs \<and> dp_ok all_reduce (emb_tp (es ! r)) d idxs r)
      else length idxs = length es \<and> (\<forall>ids\<in>set idxs. ids = idxs ! r))"

lemma take_drop_map_at:
  assumes "length v = length ids" "\<And>k. k < length ids \<Longrightarrow> ids ! k \<in> good \<Longrightarrow> v ! k = f (ids ! k)"
    and "take n (drop off ids) = own" "length own = n" "off + n \<le> length ids" "set own \<subseteq> good"
  shows "take n (drop off v) = map f own"
proof (rule nth_equalityI)
  show "length (take n (drop off v)) = length (map f own)" using assms by simp
  fix k assume "k < length (take n (drop off v))"
  then have k: "k < n" using assms(1,5) by simp
  then have o: "own ! k = ids ! (off + k)" using assms(3,5) by (metis add.commute add_leE drop_drop nth_drop nth_take)
  have "own ! k \<in> good" using assms(4,6) k by auto
  then have "v ! (off + k) = f (ids ! (off + k))" using assms(2)[of "off + k"] o k assms(5) by simp
  then show "take n (drop off v) ! k = map f own ! k" using k o assms(1,4,5) by simp
qed

text \<open>The values one look-up reduces, when every rank is given the ids \<open>ids\<close>.\<close>

lemma group_rows:
  assumes "gather_ok bf16 blk dm gather" "reduce_ok dm all_reduce" "0 < tp" "0 \<le> num" "host \<noteq> Some Shared"
    and "length full = nat num" "\<forall>(w, s)\<in>set full. length w = dm"
    and "es = map (\<lambda>r. embedding_init num dm tp host (int r)) [0..<nat tp]" "r < nat tp"
    and "length idxs = length es" "\<forall>ids'\<in>set idxs. ids' = ids"
  shows "length (lookup_group all_reduce (owned_rows bf16 blk gather cuda) es (map (\<lambda>e. held e full) es) idxs ! r) = length ids"
    and "k < length ids \<Longrightarrow> 0 \<le> ids ! k \<Longrightarrow> ids ! k < num \<Longrightarrow>
       lookup_group all_reduce (owned_rows bf16 blk gather cuda) es (map (\<lambda>e. held e full) es) idxs ! r ! k
         = dequant bf16 blk (full ! nat (ids ! k))"
proof -
  let ?own = "owned_rows bf16 blk gather cuda"
  have le: "length es = nat tp" by (simp add: assms(8))
  have id: "idxs ! q = ids" if "q < nat tp" for q using that assms(10,11) le by simp
  have vals: "map (\<lambda>r. ?own (es ! r) (map (\<lambda>e. held e full) es ! r) (idxs ! r)) [0..<length es]
      = map (\<lambda>r. ?own (es ! r) (held (es ! r) full) ids) [0..<length es]" (is "?v = ?v'")
    using id le by auto
  have tp: "emb_tp (es ! r) = tp" using assms(9) by (simp add: assms(8) embedding_init_def Let_def)
  have lk: "lookup_group all_reduce ?own es (map (\<lambda>e. held e full) es) idxs ! r
      = (if ids = [] then [] else if tp > 1 then all_reduce ?v' else ?v' ! r)"
    unfolding lookup_group_def Let_def vals using assms(9) le id[OF assms(9)] tp by simp
  note red = reduced_rows[OF assms(1-8), where cuda = cuda and ids = ids]
  have one: "?v' ! r = map (\<lambda>i. if 0 \<le> i \<and> i < num then dequant bf16 blk (full ! nat i) else replicate dm 0) ids"
    if "tp = 1"
  proof -
    have r0: "r = 0" using assms(9) that by simp
    have "0 < nat tp" using assms(3) by simp
    then show ?thesis using owned_row_at[OF assms(1,3,4), of 0 "es ! 0" host full cuda ids] assms(5-7) le
      by (simp add: r0 that assms(8))
  qed
  show "length (lookup_group all_reduce ?own es (map (\<lambda>e. held e full) es) idxs ! r) = length ids"
    unfolding lk using red(1) one assms(3) by (cases "tp = 1") auto
  assume k: "k < length ids" "0 \<le> ids ! k" "ids ! k < num"
  then show "lookup_group all_reduce ?own es (map (\<lambda>e. held e full) es) idxs ! r ! k
         = dequant bf16 blk (full ! nat (ids ! k))"
    unfolding lk using red(2)[OF k] one assms(3) by (cases "tp = 1") auto
qed

text \<open>Where the look-up chooses the reduce-scatter, its chunk is the rank's own slice.\<close>

lemma reduce_scatter_is_scatter:
  assumes ok: "dp_ok all_reduce tp d idxs r" and tp: "0 < tp"
    and choice: "(dp_max_len d \<and> tp = dp_size d \<and> int (length (dp_gather d idxs)) = tp * int (length (idxs ! dp_of d r)))
       \<or> dp_gatherv d"
    and vals: "vals \<noteq> []" "\<forall>v\<in>set vals. length v = length (dp_gather d idxs)"
    and sum: "length (all_reduce vals) = length (dp_gather d idxs)"
  shows "dp_reduce_scatter d r vals = dp_scatter d r (all_reduce vals)"
proof -
  let ?n = "length (idxs ! dp_of d r)" and ?rows = "length (dp_gather d idxs)"
  obtain off where off: "\<forall>v. length v = ?rows \<longrightarrow> dp_scatter d r v = take ?n (drop off v)"
    "dp_max_len d \<longrightarrow> (\<exists>stride. int ?rows = dp_size d * int stride \<and> off = dp_of d r * stride)"
    "tp = dp_size d \<longrightarrow> dp_of d r = r"
    "dp_gatherv d \<longrightarrow> (\<forall>vals. dp_reduce_scatter d r vals = take ?n (drop off (all_reduce vals)))"
    "\<not> dp_gatherv d \<longrightarrow> (\<forall>vals m. vals \<noteq> [] \<longrightarrow> int ?rows = tp * int m \<longrightarrow> (\<forall>v\<in>set vals. length v = ?rows)
       \<longrightarrow> dp_reduce_scatter d r vals = take m (drop (r * m) (all_reduce vals)))"
    using ok unfolding dp_ok_def Let_def by blast
  show ?thesis
  proof (cases "dp_gatherv d")
    case True
    then show ?thesis using off(1,4) sum by simp
  next
    case False
    then have c: "dp_max_len d" "tp = dp_size d" "int ?rows = tp * int ?n" using choice by blast+
    obtain stride where st: "int ?rows = dp_size d * int stride" "off = dp_of d r * stride" using off(2) c(1) by blast
    have "stride = ?n" using st(1) c(2,3) tp by simp
    then have "off = r * ?n" using st(2) off(3) c(2) by simp
    then show ?thesis using off(1,5) False c(3) vals sum by simp
  qed
qed

text \<open>C12. Whatever the layout (sharded in device memory, one private shard per rank, one shared
  table) and the parallel mode (tensor, prefill context, data), a look-up on any rank returns
  the checkpoint's rows for that rank's ids, dequantized.  In the data-parallel mode the collectives
  are only assumed to do what they document: the reduce-scatter returns equal chunks of the sum
  (or the sized slices), and the look-up takes it exactly where that is the rank's own slice.\<close>

theorem lookup_returns_table_rows:
  assumes "gather_ok bf16 blk dm gather" "reduce_ok dm all_reduce" "0 < tp" "0 \<le> num"
    and "length full = nat num" "\<forall>(w, s)\<in>set full. length w = dm"
    and "es = map (\<lambda>r. embedding_init num dm tp host (int r)) [0..<nat tp]" "r < nat tp"
    and "forward_env_ok all_reduce cp_all cp_of dp fb es idxs r"
    and "\<forall>i\<in>set (own_ids cp_all cp_of dp fb es idxs r). 0 \<le> i \<and> i < num"
  shows "embedding_forward gather all_reduce (owned_rows bf16 blk gather cuda) cp_all cp_of dp fb es
            (map (\<lambda>e. held e full) es) idxs r
       = Inr (map (\<lambda>i. dequant bf16 blk (full ! nat i)) (own_ids cp_all cp_of dp fb es idxs r))"
proof -
  let ?own = "owned_rows bf16 blk gather cuda" and ?tabs = "map (\<lambda>e. held e full) es"
  let ?f = "\<lambda>i. dequant bf16 blk (full ! nat i)"
  have le: "length es = nat tp" by (simp add: assms(7))
  have e: "emb_tp (es ! r) = tp" "is_shared (es ! r) \<longleftrightarrow> host = Some Shared"
    using assms(8) by (simp_all add: assms(7) embedding_init_def Let_def is_shared_def)
  consider (shared) "host = Some Shared" | (cp) "host \<noteq> Some Shared" "cp_all \<and> tp > 1"
    | (dp) "host \<noteq> Some Shared" "\<not> (cp_all \<and> tp > 1)" "tp > 1 \<and> dp > 1"
    | (plain) "host \<noteq> Some Shared" "\<not> (cp_all \<and> tp > 1)" "\<not> (tp > 1 \<and> dp > 1)" by blast
  then show ?thesis
  proof cases
    case shared
    have "held (es ! r) full = full" using e shared by (simp add: held_def)
    moreover have "gather full (idxs ! r) None = map ?f (idxs ! r)"
      using assms(1,4,5,10) e(2) shared unfolding gather_ok_def own_ids_def by simp
    ultimately show ?thesis using shared e(2) assms(8) le by (simp add: embedding_forward_def own_ids_def)
  next
    case cp
    let ?all = "concat idxs" and ?n = "length (idxs ! cp_of r)"
    have own: "own_ids cp_all cp_of dp fb es idxs r = idxs ! cp_of r" using cp e by (simp add: own_ids_def)
    have "forward_env_ok all_reduce cp_all cp_of dp fb es idxs r
        = (cp_of r < length idxs \<and> (\<forall>ids\<in>set idxs. length ids = ?n))"
      using cp e by (simp add: forward_env_ok_def)
    then have env: "cp_of r < length idxs" "\<forall>ids\<in>set idxs. length ids = ?n"
      using assms(9) by blast+
    have slice: "take ?n (drop (cp_of r * ?n) ?all) = idxs ! cp_of r"
      by (rule concat_block[OF env(2,1)])
    have "(cp_of r + 1) * ?n \<le> length idxs * ?n" using env(1) by (intro mult_le_mono1) simp
    moreover have "length ?all = length idxs * ?n"
      using env(2) by (simp add: length_concat sum_list_triv cong: map_cong)
    ultimately have fit: "cp_of r * ?n + ?n \<le> length ?all" by simp
    note g = group_rows[OF assms(1-4) cp(1) assms(5-8), where idxs = "replicate (length es) ?all" and ids = ?all and cuda = cuda]
    have "take ?n (drop (cp_of r * ?n) (lookup_group all_reduce ?own es ?tabs (replicate (length es) ?all) ! r))
        = map ?f (idxs ! cp_of r)"
      by (rule take_drop_map_at[where good = "{i. 0 \<le> i \<and> i < num}", OF _ _ slice _ fit])
         (use g assms(10) own in auto)
    then show ?thesis unfolding own using cp e by (simp add: embedding_forward_def Let_def)
  next
    case dp
    obtain d where d: "fb = Some d" "dp_of d r < length idxs" "dp_ok all_reduce tp d idxs r"
      using assms(9) dp e by (auto simp: forward_env_ok_def)
    let ?n = "length (idxs ! dp_of d r)" and ?all = "dp_gather d idxs"
    have own: "own_ids cp_all cp_of dp fb es idxs r = idxs ! dp_of d r" using dp e d(1) by (auto simp: own_ids_def)
    obtain off where off: "take ?n (drop off ?all) = idxs ! dp_of d r" "off + ?n \<le> length ?all"
      "\<forall>v. length v = length ?all \<longrightarrow> dp_scatter d r v = take ?n (drop off v)"
      using d(3) unfolding dp_ok_def Let_def by blast
    let ?vals = "map (\<lambda>q. ?own (es ! q) (?tabs ! q) ?all) [0..<length es]"
    have vals: "?vals = map (\<lambda>q. ?own (es ! q) (held (es ! q) full) ?all) [0..<length es]" by simp
    note red = reduced_rows[OF assms(1-4) dp(1) assms(5-7), where cuda = cuda and ids = ?all, folded vals]
    have "length v = length ?all" if "v \<in> set ?vals" for v
      using that owned_row_at(1)[OF assms(1,3,4) _ _ dp(1) assms(5,6), where cuda = cuda and ids = ?all]
      by (auto simp: assms(7))
    then have len: "\<forall>v\<in>set ?vals. length v = length ?all" by blast
    have "dp_scatter d r (all_reduce ?vals) = take ?n (drop off (all_reduce ?vals))"
      using off(3) red(1) by blast
    also have "\<dots> = map ?f (idxs ! dp_of d r)"
      by (rule take_drop_map_at[where good = "{i. 0 \<le> i \<and> i < num}", OF _ _ off(1) _ off(2)])
         (use red assms(10) own in auto)
    finally have s: "dp_scatter d r (all_reduce ?vals) = map ?f (idxs ! dp_of d r)" .
    moreover have "idxs ! dp_of d r = []" if "length ?all = 0" using off(2) that by simp
    moreover have "?vals \<noteq> []" using assms(3) le by simp
    moreover note reduce_scatter_is_scatter[OF d(3) assms(3) _ _ len red(1)]
    ultimately show ?thesis unfolding own using dp e d(1)
      by (auto simp: embedding_forward_def dp_sharded_lookup_def Let_def)
  next
    case plain
    have own: "own_ids cp_all cp_of dp fb es idxs r = idxs ! r" using plain e by (auto simp: own_ids_def)
    have c: "\<not> is_shared (es ! r)" "\<not> (cp_all \<and> emb_tp (es ! r) > 1)" "\<not> (emb_tp (es ! r) > 1 \<and> dp > 1)"
      using plain e by simp_all
    have "forward_env_ok all_reduce cp_all cp_of dp fb es idxs r
        = (length idxs = length es \<and> (\<forall>ids\<in>set idxs. ids = idxs ! r))"
      by (simp only: forward_env_ok_def c if_False)
    then have env: "length idxs = length es" "\<forall>ids\<in>set idxs. ids = idxs ! r"
      using assms(9) by blast+
    note g = group_rows[OF assms(1-4) plain(1) assms(5-8) env, where cuda = cuda]
    have "lookup_group all_reduce ?own es ?tabs idxs ! r = map ?f (idxs ! r)"
      by (rule nth_equalityI) (use g assms(10) own in auto)
    then show ?thesis using plain e by (auto simp: embedding_forward_def own Let_def)
  qed
qed

definition demo_gather :: gather where
  "demo_gather tab ids rng = map (\<lambda>i. case rng of None \<Rightarrow> dequant id 2 (tab ! nat i)
     | Some (lo, hi) \<Rightarrow> if lo \<le> i \<and> i < hi then dequant id 2 (tab ! nat (i - lo)) else replicate 2 0) ids"

definition demo_reduce :: "real list list list \<Rightarrow> real list list" where
  "demo_reduce vals = map (\<lambda>i. case filter (\<lambda>v. v ! i \<noteq> replicate 2 0) vals of [] \<Rightarrow> replicate 2 0 | v # vs \<Rightarrow> v ! i)
     [0..<length (hd vals)]"

lemma demo_gather_ok: "gather_ok id 2 2 demo_gather"
  by (simp add: gather_ok_def demo_gather_def)

lemma demo_reduce_ok: "reduce_ok 2 demo_reduce"
  unfolding reduce_ok_def
proof (intro allI impI conjI)
  fix vals :: "real list list list" and n assume v: "vals \<noteq> [] \<and> (\<forall>v\<in>set vals. length v = n)"
  then have h: "length (hd vals) = n" by simp
  then show "length (demo_reduce vals) = n" by (simp add: demo_reduce_def)
  fix i r assume i: "i < n" "r < length vals" and z: "\<forall>q<length vals. q \<noteq> r \<longrightarrow> vals ! q ! i = replicate 2 0"
  let ?f = "filter (\<lambda>v. v ! i \<noteq> replicate 2 0) vals"
  have all: "x ! i = vals ! r ! i" if "x \<in> set ?f" for x
    using that z by (auto simp: in_set_conv_nth)
  show "demo_reduce vals ! i = vals ! r ! i"
  proof (cases ?f)
    case Nil
    then have "vals ! r ! i = replicate 2 0" using i(2) by (auto simp: filter_empty_conv)
    then show ?thesis using Nil i(1) h by (simp add: demo_reduce_def)
  next
    case (Cons v vs)
    then have "v ! i = vals ! r ! i" using all[of v] by simp
    then show ?thesis using Cons i(1) h by (simp add: demo_reduce_def)
  qed
qed

text \<open>Two ranks of a data-parallel attention group over a table of three rows, one scale each.  With
  MAX_LEN padding both hold two ids and the look-up takes the reduce-scatter; with unequal counts (one
  and two ids) it takes the scatter of the summed buffer.\<close>

definition demo_dp :: "bool \<Rightarrow> dp_env" where
  "demo_dp equal =
     \<lparr>dp_size = 2, dp_of = id, dp_gather = concat,
      dp_scatter = (\<lambda>r v. if equal then take 2 (drop (2 * r) v) else if r = 0 then take 1 v else take 2 (drop 1 v)),
      dp_reduce_scatter = (\<lambda>r vals. let v = demo_reduce vals; m = length v div 2 in take m (drop (r * m) v)),
      dp_max_len = equal, dp_gatherv = False\<rparr>"

definition demo_table :: table where
  "demo_table = [([1, 2], [1]), ([3, 4], [2]), ([5, 6], [3])]"

definition demo_ids :: "bool \<Rightarrow> int list list" where
  "demo_ids equal = (if equal then [[1, 0], [2, 0]] else [[1], [2, 0]])"

lemma demo_dp_ok: "dp_ok demo_reduce 2 (demo_dp equal) (demo_ids equal) 1"
proof -
  have chunk: "dp_reduce_scatter (demo_dp equal) 1 vals = take m (drop (1 * m) (demo_reduce vals))"
    if "vals \<noteq> []" "int n = 2 * int m" "\<forall>v\<in>set vals. length v = n" for vals n m
  proof -
    have "length (demo_reduce vals) = n" using that(1,3) demo_reduce_ok unfolding reduce_ok_def by blast
    then have "length (demo_reduce vals) div 2 = m" using that(2) by simp
    then show ?thesis by (simp add: demo_dp_def Let_def)
  qed
  have "dp_of (demo_dp equal) 1 = 1" "\<not> dp_gatherv (demo_dp equal)" "dp_size (demo_dp equal) = 2"
    by (simp_all add: demo_dp_def)
  then show ?thesis unfolding dp_ok_def Let_def
    using chunk by (intro exI [of _ "if equal then 2 else 1"] conjI) (auto simp: demo_dp_def demo_ids_def)
qed

theorem lookup_returns_table_rows_witness:
  "(\<forall>equal. embedding_forward demo_gather demo_reduce (owned_rows id 2 demo_gather False) False id 2 (Some (demo_dp equal))
      (map (\<lambda>r. embedding_init 3 2 2 None (int r)) [0..<2])
      (map (\<lambda>e. held e demo_table) (map (\<lambda>r. embedding_init 3 2 2 None (int r)) [0..<2])) (demo_ids equal) 1
    = Inr [[15, 18], [1, 2]])"
proof
  fix equal
  let ?es = "map (\<lambda>r. embedding_init 3 2 2 None (int r)) [0..<nat 2]"
  have n: "?es ! 1 = embedding_init 3 2 2 None 1" "length ?es = 2" by (simp_all add: numeral_2_eq_2)
  have e: "emb_tp (?es ! 1) = 2" "\<not> is_shared (?es ! 1)" by (simp_all add: n(1) is_shared_def embedding_init_def Let_def)
  have own: "own_ids False id 2 (Some (demo_dp equal)) ?es (demo_ids equal) 1 = [2, 0]"
    unfolding own_ids_def using e by (simp add: demo_dp_def demo_ids_def)
  have env: "forward_env_ok demo_reduce False id 2 (Some (demo_dp equal)) ?es (demo_ids equal) 1"
    unfolding forward_env_ok_def e(1) using e demo_dp_ok [of equal] by (simp add: demo_dp_def demo_ids_def)
  have rows: "map (\<lambda>i. dequant id 2 (demo_table ! nat i)) [2, 0] = [[15, 18], [1, 2]]"
    by (simp add: dequant_def demo_table_def)
  have "embedding_forward demo_gather demo_reduce (owned_rows id 2 demo_gather False) False id 2 (Some (demo_dp equal)) ?es
      (map (\<lambda>e. held e demo_table) ?es) (demo_ids equal) 1
      = Inr (map (\<lambda>i. dequant id 2 (demo_table ! nat i)) (own_ids False id 2 (Some (demo_dp equal)) ?es (demo_ids equal) 1))"
    by (rule lookup_returns_table_rows[OF demo_gather_ok demo_reduce_ok _ _ _ _ refl _ env])
      (use own in \<open>simp_all add: demo_table_def\<close>)
  then show "embedding_forward demo_gather demo_reduce (owned_rows id 2 demo_gather False) False id 2 (Some (demo_dp equal))
      (map (\<lambda>r. embedding_init 3 2 2 None (int r)) [0..<2])
      (map (\<lambda>e. held e demo_table) (map (\<lambda>r. embedding_init 3 2 2 None (int r)) [0..<2])) (demo_ids equal) 1
    = Inr [[15, 18], [1, 2]]" unfolding own rows by simp
qed

end
