(* ===== verification/EngramPack.thy ===== *)
theory EngramPack
  imports Prelude
begin

text \<open>
  The offline repacking of one rank's embedding rows (\<open>scripts/pack_engram.py\<close>): where the two
  tensors lie in the checkpoint file, and the packed shard of 264-byte records (256 weight
  bytes, 8 scale bytes) behind a 4096-byte header.  Files are lists of bytes; the JSON
  parser is external (the parsed index and header are arguments).
\<close>

section \<open>Locating the tensors\<close>

record tensor_meta =
  dtype :: string
  meta_shape :: "nat list"
  data_start :: nat

definition HEADER_BYTES :: nat where "HEADER_BYTES = 4096"
definition ROW_BYTES :: nat where "ROW_BYTES = 264"
definition WEIGHT_BYTES :: nat where "WEIGHT_BYTES = 256"
definition SCALE_BYTES :: nat where "SCALE_BYTES = 8"
definition MAGIC :: nat where "MAGIC = 0x31344E4531565344"

definition dict_get :: "('k \<rightharpoonup> 'v) \<Rightarrow> 'k \<Rightarrow> 'v res" where
  "dict_get d k = (case d k of None \<Rightarrow> Inl KeyError | Some v \<Rightarrow> Inr v)"

text \<open>\<open>parsed name\<close> is the length field and the parsed header of shard \<open>name\<close>.\<close>

definition tensor_span ::
    "(string \<rightharpoonup> string) \<Rightarrow> (string \<Rightarrow> nat \<times> (string \<rightharpoonup> tensor_meta)) \<Rightarrow> string
       \<Rightarrow> (string \<times> nat \<times> nat \<times> nat) res" where
  "tensor_span index parsed prefix =
     res_bind (dict_get index (prefix @ ''weight'')) (\<lambda>name.
     res_bind (dict_get index (prefix @ ''scale'')) (\<lambda>sname.
     ensure (sname = name) AssertionError
      (let (len, header) = parsed name in
       res_bind (dict_get header (prefix @ ''weight'')) (\<lambda>weight.
       res_bind (dict_get header (prefix @ ''scale'')) (\<lambda>scale.
       ensure (dtype weight = ''F8_E4M3'' \<and> dtype scale = ''F8_E8M0'') AssertionError
        (res_bind (py_get (meta_shape weight) 1) (\<lambda>w1. res_bind (py_get (meta_shape scale) 1) (\<lambda>s1.
         ensure (w1 = WEIGHT_BYTES \<and> s1 = SCALE_BYTES) AssertionError
          (let base = 8 + len in
           Inr (name, meta_shape weight ! 0, base + data_start weight, base + data_start scale))))))))))"

section \<open>Writing the shard\<close>

text \<open>\<open>struct.pack_into('<6Q', \<dots>)\<close>.\<close>

fun le_bytes :: "nat \<Rightarrow> nat \<Rightarrow> nat list" where
  "le_bytes 0 x = []"
| "le_bytes (Suc k) x = x mod 256 # le_bytes k (x div 256)"

fun le_value :: "nat list \<Rightarrow> nat" where
  "le_value [] = 0"
| "le_value (b # bs) = b + 256 * le_value bs"

definition pack_header :: "nat list \<Rightarrow> nat list res" where
  "pack_header vals = ensure (\<forall>x\<in>set vals. x < 2 ^ 64) StructError
     (let bytes = concat (map (le_bytes 8) vals) in Inr (bytes @ replicate (HEADER_BYTES - length bytes) 0))"

definition read_at :: "nat list \<Rightarrow> nat \<Rightarrow> nat \<Rightarrow> nat list" where
  "read_at src off n = take n (drop off src)"

text \<open>\<open>block[:, :256] = weights.reshape(n, 256); block[:, 256:] = scales.reshape(n, 8)\<close>.\<close>

definition pack_block :: "nat \<Rightarrow> nat list \<Rightarrow> nat list \<Rightarrow> nat list" where
  "pack_block n weights scales = concat (map (\<lambda>k.
      take WEIGHT_BYTES (drop (k * WEIGHT_BYTES) weights) @ take SCALE_BYTES (drop (k * SCALE_BYTES) scales)) [0..<n])"

function pack_chunks :: "nat list \<Rightarrow> nat \<Rightarrow> nat \<Rightarrow> nat \<Rightarrow> nat \<Rightarrow> nat \<Rightarrow> nat list res" where
  "pack_chunks src weight_off scale_off chunk_rows hi start =
     (if start < hi \<and> 0 < chunk_rows then
        (let stop = min (start + chunk_rows) hi; n = stop - start;
             weights = read_at src (weight_off + start * WEIGHT_BYTES) (n * WEIGHT_BYTES);
             scales = read_at src (scale_off + start * SCALE_BYTES) (n * SCALE_BYTES)
         in ensure (length weights = n * WEIGHT_BYTES \<and> length scales = n * SCALE_BYTES) SystemExit
             (res_map ((@) (pack_block n weights scales))
               (pack_chunks src weight_off scale_off chunk_rows hi (start + chunk_rows))))
      else Inr [])"
  by pat_completeness auto
termination
  by (relation "measure (\<lambda>(src, weight_off, scale_off, chunk_rows, hi, start). hi - start)") auto

declare pack_chunks.simps [simp del]

text \<open>The result, and what \<open>target\<close> holds afterwards: the partial file is renamed only when it
  is complete.\<close>

definition pack_layer ::
    "nat list \<Rightarrow> nat \<Rightarrow> nat \<Rightarrow> nat \<Rightarrow> nat \<Rightarrow> nat \<Rightarrow> nat \<Rightarrow> nat \<Rightarrow> nat list option \<Rightarrow> unit res \<times> nat list option" where
  "pack_layer src rows weight_off scale_off layer_id rank tp chunk_rows target =
     (if tp = 0 then (Inl ZeroDivisionError, target)
      else let lo = rows * rank div tp; hi = rows * (rank + 1) div tp; count = hi - lo;
               expected = HEADER_BYTES + count * ROW_BYTES
           in if map_option length target = Some expected then (Inr (), target)
              else case pack_header [MAGIC, layer_id, lo, hi, rows, ROW_BYTES] of
                     Inl e \<Rightarrow> (Inl e, target)
                   | Inr header \<Rightarrow>
                       if chunk_rows = 0 then (Inl ValueError, target)
                       else case pack_chunks src weight_off scale_off chunk_rows hi lo of
                              Inl e \<Rightarrow> (Inl e, target)
                            | Inr body \<Rightarrow> (Inr (), Some (header @ body)))"

text \<open>\<open>main\<close>: the space check, then every layer.\<close>

definition pack_need :: "nat list \<Rightarrow> nat \<Rightarrow> nat \<Rightarrow> nat" where
  "pack_need row_counts rank tp =
     sum_list (map (\<lambda>rows. HEADER_BYTES + (rows * (rank + 1) div tp - rows * rank div tp) * ROW_BYTES) row_counts)"

section \<open>What a shard holds\<close>

lemmas size_defs = HEADER_BYTES_def ROW_BYTES_def WEIGHT_BYTES_def SCALE_BYTES_def

lemma length_le_bytes [simp]: "length (le_bytes k x) = k"
  by (induction k arbitrary: x) auto

lemma le_value_bytes: "x < 256 ^ k \<Longrightarrow> le_value (le_bytes k x) = x"
proof (induction k arbitrary: x)
  case (Suc k)
  then have "x div 256 < 256 ^ k" by (simp add: less_mult_imp_div_less mult.commute)
  then show ?case using Suc.IH by simp
qed simp

definition record_of :: "nat list \<Rightarrow> nat \<Rightarrow> nat \<Rightarrow> nat \<Rightarrow> nat list" where
  "record_of src weight_off scale_off row =
     read_at src (weight_off + row * WEIGHT_BYTES) WEIGHT_BYTES @ read_at src (scale_off + row * SCALE_BYTES) SCALE_BYTES"

lemma read_at_sub: "k + m \<le> n \<Longrightarrow> take m (drop k (read_at src off n)) = read_at src (off + k) m"
  by (simp add: read_at_def drop_take min_def add.commute)

lemma read_at_full: "length (read_at src off n) = n \<Longrightarrow> k + m \<le> n \<Longrightarrow> length (read_at src (off + k) m) = m"
  by (simp add: read_at_def)

lemma pack_block_records:
  "pack_block n (read_at src (wo + start * WEIGHT_BYTES) (n * WEIGHT_BYTES)) (read_at src (so + start * SCALE_BYTES) (n * SCALE_BYTES))
     = concat (map (record_of src wo so) [start..<start + n])"
proof -
  have "take WEIGHT_BYTES (drop (k * WEIGHT_BYTES) (read_at src (wo + start * WEIGHT_BYTES) (n * WEIGHT_BYTES)))
      @ take SCALE_BYTES (drop (k * SCALE_BYTES) (read_at src (so + start * SCALE_BYTES) (n * SCALE_BYTES)))
      = record_of src wo so (start + k)" if "k < n" for k
  proof -
    have "k * m + m \<le> n * m" for m using that mult_le_mono1[of "Suc k" n m] by simp
    then show ?thesis by (simp add: read_at_sub record_of_def algebra_simps)
  qed
  moreover have "[start..<start + n] = map (\<lambda>k. start + k) [0..<n]"
    by (induction n) auto
  ultimately show ?thesis unfolding pack_block_def
    by (auto intro!: arg_cong[where f = concat])
qed

lemma pack_chunks_records:
  "pack_chunks src wo so c hi start = Inr body \<Longrightarrow> 0 < c \<Longrightarrow>
     body = concat (map (record_of src wo so) [start..<hi])
     \<and> (\<forall>row. start \<le> row \<and> row < hi \<longrightarrow> length (record_of src wo so row) = ROW_BYTES)"
proof (induction src wo so c hi start arbitrary: body rule: pack_chunks.induct)
  case (1 src wo so c hi start)
  show ?case
  proof (cases "start < hi")
    case True
    define stop where "stop = min (start + c) hi"
    let ?n = "stop - start"
    let ?w = "read_at src (wo + start * WEIGHT_BYTES) (?n * WEIGHT_BYTES)"
    let ?s = "read_at src (so + start * SCALE_BYTES) (?n * SCALE_BYTES)"
    obtain rest where r: "pack_chunks src wo so c hi (start + c) = Inr rest"
      and len: "length ?w = ?n * WEIGHT_BYTES" "length ?s = ?n * SCALE_BYTES"
      and body: "body = pack_block ?n ?w ?s @ rest"
      using "1.prems" True by (subst (asm) pack_chunks.simps) (auto simp: res_simps Let_def stop_def)
    have ih: "rest = concat (map (record_of src wo so) [start + c..<hi])"
      "\<forall>row. start + c \<le> row \<and> row < hi \<longrightarrow> length (record_of src wo so row) = ROW_BYTES"
      using "1.IH"[OF _ refl refl refl refl r] True "1.prems"(2) by blast+
    have st: "start \<le> stop" "stop \<le> hi" "stop = hi \<or> stop = start + c" using True by (auto simp: stop_def)
    have "[start..<hi] = [start..<stop] @ [stop..<hi]" using st(1,2) by (metis le_Suc_ex upt_add_eq_append)
    moreover have "[stop..<hi] = [start + c..<hi]" using st(3) by (auto simp: stop_def)
    ultimately have "body = concat (map (record_of src wo so) [start..<hi])"
      using body ih(1) pack_block_records[of ?n src wo start so] st(1) by simp
    moreover have "length (record_of src wo so row) = ROW_BYTES" if "start \<le> row" "row < hi" for row
    proof (cases "row < stop")
      case True
      then have k: "row - start < ?n" using that by simp
      have fit: "(row - start) * m + m \<le> ?n * m" for m using k mult_le_mono1[of "Suc (row - start)" ?n m] by simp
      have "length (read_at src (wo + start * WEIGHT_BYTES + (row - start) * WEIGHT_BYTES) WEIGHT_BYTES) = WEIGHT_BYTES"
        by (rule read_at_full[OF len(1) fit])
      moreover have "length (read_at src (so + start * SCALE_BYTES + (row - start) * SCALE_BYTES) SCALE_BYTES) = SCALE_BYTES"
        by (rule read_at_full[OF len(2) fit])
      moreover have "start * m + (row - start) * m = row * m" for m
        using that(1) by (simp flip: add_mult_distrib)
      ultimately show ?thesis by (simp add: record_of_def size_defs add.assoc)
    next
      case False
      then show ?thesis using ih(2) that st(3) by auto
    qed
    ultimately show ?thesis by blast
  next
    case False
    then show ?thesis using "1.prems" by (subst (asm) pack_chunks.simps) auto
  qed
qed

lemma concat_uniform:
  assumes "\<forall>x\<in>set xs. length (f x) = m" "k < length xs"
  shows "take m (drop (k * m) (concat (map f xs))) = f (xs ! k)"
  using assms
proof (induction xs arbitrary: k)
  case (Cons x xs)
  then show ?case by (cases k) (auto simp: drop_append)
qed simp

lemma pack_chunks_length:
  assumes "pack_chunks src wo so c hi lo = Inr body" "0 < c"
  shows "length body = (hi - lo) * ROW_BYTES"
proof -
  note rec = pack_chunks_records[OF assms]
  have "length (concat (map (record_of src wo so) [lo..<hi])) = length [lo..<hi] * ROW_BYTES"
    by (rule length_concat_uniform) (use rec in auto)
  then show ?thesis using rec by simp
qed

lemma pack_header_bytes:
  assumes "pack_header vals = Inr header" "length vals = 6"
  shows "header = concat (map (le_bytes 8) vals) @ replicate (HEADER_BYTES - 48) 0"
    "\<forall>x\<in>set vals. x < 2 ^ 64" "length (concat (map (le_bytes 8) vals)) = 48" "length header = HEADER_BYTES"
proof -
  show l: "length (concat (map (le_bytes 8) vals)) = 48"
    using length_concat_uniform[of vals "le_bytes 8" 8] assms(2) by simp
  show h: "header = concat (map (le_bytes 8) vals) @ replicate (HEADER_BYTES - 48) 0"
    using assms(1) l unfolding pack_header_def ensure_Inr Let_def by simp
  show "\<forall>x\<in>set vals. x < 2 ^ 64" using assms(1) unfolding pack_header_def ensure_Inr by blast
  show "length header = HEADER_BYTES" using l h by (simp add: HEADER_BYTES_def)
qed

text \<open>C17. Packing round trip: when a layer is packed afresh, the file has exactly the expected size,
  its header reads back as the six fields, and the record of each owned row is that row's 256
  weight bytes and 8 scale bytes of the checkpoint -- whatever the chunk size; and a failed run
  leaves the target as it was.\<close>

theorem pack_layer_roundtrip:
  assumes "pack_layer src rows wo so layer rank tp c target = (out, target')"
    and "map_option length target \<noteq> Some (HEADER_BYTES + (rows * (rank + 1) div tp - rows * rank div tp) * ROW_BYTES)"
  shows "case out of
       Inl e \<Rightarrow> target' = target
     | Inr _ \<Rightarrow> \<exists>bytes. target' = Some bytes
          \<and> length bytes = HEADER_BYTES + (rows * (rank + 1) div tp - rows * rank div tp) * ROW_BYTES
          \<and> map (\<lambda>i. le_value (read_at bytes (i * 8) 8)) [0..<6]
              = [MAGIC, layer, rows * rank div tp, rows * (rank + 1) div tp, rows, ROW_BYTES]
          \<and> (\<forall>row. rows * rank div tp \<le> row \<and> row < rows * (rank + 1) div tp \<longrightarrow>
               read_at bytes (HEADER_BYTES + (row - rows * rank div tp) * ROW_BYTES) ROW_BYTES
                 = read_at src (wo + row * WEIGHT_BYTES) WEIGHT_BYTES @ read_at src (so + row * SCALE_BYTES) SCALE_BYTES)"
proof (cases out)
  case (Inl e)
  then show ?thesis using assms by (auto simp: pack_layer_def Let_def split: if_splits sum.splits)
next
  case (Inr u)
  define lo where "lo = rows * rank div tp"
  define hi where "hi = rows * (rank + 1) div tp"
  let ?fields = "[MAGIC, layer, lo, hi, rows, ROW_BYTES]"
  obtain header body where h: "pack_header ?fields = Inr header" and b: "pack_chunks src wo so c hi lo = Inr body"
    and c: "0 < c" and t: "target' = Some (header @ body)"
    using assms Inr by (auto simp: pack_layer_def Let_def lo_def hi_def split: if_splits sum.splits)
  note rec = pack_chunks_records[OF b c]
  define enc where "enc = concat (map (le_bytes 8) ?fields)"
  note ph = pack_header_bytes[OF h, folded enc_def]
  have lh: "length header = HEADER_BYTES" and lenc: "length enc = 48" using ph by simp_all
  have head: "header = enc @ replicate (HEADER_BYTES - 48) 0" and small: "\<forall>x\<in>set ?fields. x < 2 ^ 64"
    using ph(1,2) by simp_all
  have lb: "length body = (hi - lo) * ROW_BYTES" by (rule pack_chunks_length[OF b c])
  have field: "le_value (read_at (header @ body) (i * 8) 8) = ?fields ! i" if i: "i < 6" for i
  proof -
    have "read_at (header @ body) (i * 8) 8 = take 8 (drop (i * 8) enc)"
      using i lenc by (simp add: read_at_def head)
    also have "\<dots> = le_bytes 8 (?fields ! i)"
      unfolding enc_def by (rule concat_uniform) (use i in simp_all)
    moreover have "?fields ! i \<in> set ?fields" using i by (intro nth_mem) simp
    then have "?fields ! i < 2 ^ 64" using small by blast
    then have "?fields ! i < 256 ^ 8" by simp
    ultimately show ?thesis by (simp add: le_value_bytes)
  qed
  have "map (\<lambda>i. le_value (read_at (header @ body) (i * 8) 8)) [0..<6] = ?fields"
    by (rule nth_equalityI) (use field in simp_all)
  moreover have "read_at (header @ body) (HEADER_BYTES + (row - lo) * ROW_BYTES) ROW_BYTES = record_of src wo so row"
    if r: "lo \<le> row" "row < hi" for row
  proof -
    have "read_at (header @ body) (HEADER_BYTES + (row - lo) * ROW_BYTES) ROW_BYTES
        = take ROW_BYTES (drop ((row - lo) * ROW_BYTES) body)" using lh by (simp add: read_at_def)
    also have "\<dots> = record_of src wo so ([lo..<hi] ! (row - lo))"
      unfolding conjunct1[OF rec] by (rule concat_uniform) (use rec r in auto)
    finally show ?thesis using r by simp
  qed
  ultimately show ?thesis unfolding Inr t record_of_def lo_def[symmetric] hi_def[symmetric]
    using lh lb by simp
qed

text \<open>Two rows in a file of equal bytes, packed by the second of two ranks.\<close>

theorem pack_layer_roundtrip_witness:
  "\<exists>bytes. pack_layer (replicate 1000 7) 2 0 512 9 1 2 5 None = (Inr (), Some bytes) \<and> length bytes = 4360
     \<and> read_at bytes 4096 264 = replicate 264 7"
proof -
  obtain bytes where p: "pack_layer (replicate 1000 7) 2 0 512 9 1 2 5 None = (Inr (), Some bytes)"
    by (simp add: pack_layer_def Let_def pack_header_def MAGIC_def size_defs pack_chunks.simps read_at_def res_map_def)
  have r: "read_at (replicate 1000 7) (0 + 1 * WEIGHT_BYTES) WEIGHT_BYTES
      @ read_at (replicate 1000 7) (512 + 1 * SCALE_BYTES) SCALE_BYTES = replicate 264 (7::nat)"
    by (simp add: read_at_def size_defs flip: replicate_add)
  show ?thesis
    using pack_layer_roundtrip[OF p] p r by (auto simp: size_defs)
qed

lemma pack_chunks_complete:
  "0 < c \<Longrightarrow> wo + hi * WEIGHT_BYTES \<le> length src \<Longrightarrow> so + hi * SCALE_BYTES \<le> length src \<Longrightarrow>
     \<exists>body. pack_chunks src wo so c hi start = Inr body"
proof (induction src wo so c hi start rule: pack_chunks.induct)
  case (1 src wo so c hi start)
  show ?case
  proof (cases "start < hi")
    case True
    define stop where "stop = min (start + c) hi"
    let ?n = "stop - start"
    have st: "start \<le> stop" "stop \<le> hi" using True by (auto simp: stop_def)
    have fit: "start * m + ?n * m \<le> hi * m" for m
      using st mult_le_mono1[of "start + ?n" hi m] by (simp flip: add_mult_distrib)
    have "length (read_at src (wo + start * WEIGHT_BYTES) (?n * WEIGHT_BYTES)) = ?n * WEIGHT_BYTES"
      "length (read_at src (so + start * SCALE_BYTES) (?n * SCALE_BYTES)) = ?n * SCALE_BYTES"
      using "1.prems"(2,3) fit[of WEIGHT_BYTES] fit[of SCALE_BYTES] by (simp_all add: read_at_def)
    moreover obtain rest where "pack_chunks src wo so c hi (start + c) = Inr rest"
      using "1.IH"[OF _ refl refl refl refl] True "1.prems" by blast
    ultimately show ?thesis using True "1.prems"(1)
      by (subst pack_chunks.simps) (simp add: Let_def stop_def res_map_def)
  next
    case False
    then show ?thesis by (subst pack_chunks.simps) simp
  qed
qed

text \<open>Packing completes: when the checkpoint file holds all its rows (and the sizes fit the
  header's fields), packing a layer with any positive chunk size ends with the shard written.\<close>

theorem pack_layer_completes:
  assumes "0 < tp" "rank < tp" "0 < c" "layer < 2 ^ 64" "rows < 2 ^ 64"
    and "wo + rows * WEIGHT_BYTES \<le> length src" "so + rows * SCALE_BYTES \<le> length src"
  shows "\<exists>bytes. pack_layer src rows wo so layer rank tp c target = (Inr (), Some bytes)
     \<and> length bytes = HEADER_BYTES + (rows * (rank + 1) div tp - rows * rank div tp) * ROW_BYTES"
proof -
  define lo where "lo = rows * rank div tp"
  define hi where "hi = rows * (rank + 1) div tp"
  have "rows * (rank + 1) \<le> rows * tp" using assms(2) by (intro mult_le_mono2) simp
  then have "hi \<le> rows * tp div tp" unfolding hi_def by (rule div_le_mono)
  then have hi: "hi \<le> rows" using assms(1) by simp
  moreover have "lo \<le> hi" unfolding lo_def hi_def by (intro div_le_mono mult_le_mono2) simp
  ultimately have "\<forall>x\<in>set [MAGIC, layer, lo, hi, rows, ROW_BYTES]. x < 2 ^ 64"
    using assms(4,5) by (auto simp: MAGIC_def ROW_BYTES_def)
  then obtain header where h: "pack_header [MAGIC, layer, lo, hi, rows, ROW_BYTES] = Inr header"
    unfolding pack_header_def Let_def ensure_def by simp
  have "wo + hi * WEIGHT_BYTES \<le> length src" "so + hi * SCALE_BYTES \<le> length src"
    using assms(6,7) hi mult_le_mono1[OF hi, of WEIGHT_BYTES] mult_le_mono1[OF hi, of SCALE_BYTES] by linarith+
  then obtain body where b: "pack_chunks src wo so c hi lo = Inr body" using pack_chunks_complete[OF assms(3)] by blast
  show ?thesis
  proof (cases "map_option length target = Some (HEADER_BYTES + (hi - lo) * ROW_BYTES)")
    case True
    then show ?thesis using assms(1) by (auto simp: pack_layer_def Let_def lo_def hi_def)
  next
    case False
    then have "pack_layer src rows wo so layer rank tp c target = (Inr (), Some (header @ body))"
      using assms(1,3) h b unfolding pack_layer_def Let_def lo_def[symmetric] hi_def[symmetric] by auto
    moreover have "length (header @ body) = HEADER_BYTES + (hi - lo) * ROW_BYTES"
      using pack_header_bytes(4)[OF h] pack_chunks_length[OF b assms(3)] by simp
    ultimately show ?thesis by (auto simp: lo_def hi_def)
  qed
qed

theorem pack_layer_completes_witness:
  "\<exists>bytes. pack_layer (replicate 1000 7) 2 0 512 9 1 2 5 None = (Inr (), Some bytes) \<and> length bytes = 4360"
  using pack_layer_completes[of 2 1 5 9 2 0 "replicate 1000 7" 512 None] by (simp add: size_defs)

end
