(* ===== verification/EngramBackend.thy ===== *)
theory EngramBackend
  imports EngramTable
begin

text \<open>
  The file-backed replacement of \<open>EngramEmbedding._owned_rows\<close>
  (\<open>adapter/engram_backend.py\<close>, \<open>install.owned\<close>): staging buffers per (device, capacity), one
  \<open>Work\<close> descriptor per (device, count) holding pointers into a staging buffer, a host
  callback that fills the buffer through those pointers, and a gather over the staged rows.
  A pointer is the address of a buffer.  External: the native row store (\<open>store\<close> maps a row
  id to its weight and scale values), the gather kernel.
\<close>

section \<open>State and the operation\<close>

record stage =
  st_ids :: "int list"
  st_w :: "real list list"
  st_s :: "real list list"
  st_dw :: "real list list"
  st_ds :: "real list list"

record backend =
  bk_staging :: "nat \<times> nat \<rightharpoonup> nat"
  bk_works :: "nat \<times> nat \<rightharpoonup> nat \<times> nat"
  bk_bufs :: "nat \<Rightarrow> stage"
  bk_next :: nat

definition backend_start :: "(nat \<Rightarrow> stage) \<Rightarrow> backend" where
  "backend_start bufs = \<lparr>bk_staging = Map.empty, bk_works = Map.empty, bk_bufs = bufs, bk_next = 0\<rparr>"

definition stage_capacity :: "nat \<Rightarrow> nat" where
  "stage_capacity count = 2 ^ bit_length (int count - 1)"

definition new_stage :: "nat \<Rightarrow> stage" where
  "new_stage capacity = \<lparr>st_ids = replicate capacity 0, st_w = replicate capacity [], st_s = replicate capacity [],
     st_dw = replicate capacity [], st_ds = replicate capacity []\<rparr>"

text \<open>\<open>buf[:n].copy_(vals)\<close> for \<open>n = len(vals)\<close>.\<close>

definition put_prefix :: "'a list \<Rightarrow> 'a list \<Rightarrow> 'a list" where
  "put_prefix vals buf = vals @ drop (length vals) buf"

definition ensure_stage :: "nat \<times> nat \<Rightarrow> backend \<Rightarrow> backend" where
  "ensure_stage key b =
     (if bk_staging b key = None
      then b\<lparr>bk_staging := (bk_staging b)(key \<mapsto> bk_next b), bk_bufs := (bk_bufs b)(bk_next b := new_stage (snd key)),
             bk_next := bk_next b + 1\<rparr>
      else b)"

definition ensure_work :: "nat \<times> nat \<Rightarrow> nat \<Rightarrow> backend \<Rightarrow> backend" where
  "ensure_work work_key buf b =
     (if bk_works b work_key = None then b\<lparr>bk_works := (bk_works b)(work_key \<mapsto> (buf, snd work_key))\<rparr> else b)"

text \<open>\<open>row_store_lookup(work)\<close>, run by the stream.\<close>

definition run_lookup :: "(int \<Rightarrow> real list \<times> real list) \<Rightarrow> nat \<times> nat \<Rightarrow> (nat \<Rightarrow> stage) \<Rightarrow> nat \<Rightarrow> stage" where
  "run_lookup store work bufs =
     (let (buf, count) = work; st = bufs buf; rows = map store (take count (st_ids st))
      in bufs(buf := st\<lparr>st_w := put_prefix (map fst rows) (st_w st), st_s := put_prefix (map snd rows) (st_s st)\<rparr>))"

definition owned_backend ::
    "(int \<Rightarrow> real list \<times> real list) \<Rightarrow> gather \<Rightarrow> nat \<Rightarrow> bool \<Rightarrow> bool \<Rightarrow> int list \<Rightarrow> backend
       \<Rightarrow> real list list res \<times> backend" where
  "owned_backend store gather dev capturing launch_error indices b =
     (let count = length indices in
      if count = 0 then (Inr [], b)
      else let key = (dev, stage_capacity count); work_key = (dev, count) in
      if bk_staging b key = None \<and> capturing then (Inl RuntimeError, b)
      else let b = ensure_stage key b;
               buf = the (bk_staging b key);
               b = ensure_work work_key buf b;
               st = bk_bufs b buf;
               bufs = (bk_bufs b)(buf := st\<lparr>st_ids := put_prefix indices (st_ids st)\<rparr>)
      in if launch_error then (Inl RuntimeError, b\<lparr>bk_bufs := bufs\<rparr>)
      else let bufs = run_lookup store (the (bk_works b work_key)) bufs;
               st = bufs buf;
               st = st\<lparr>st_dw := put_prefix (take count (st_w st)) (st_dw st),
                       st_ds := put_prefix (take count (st_s st)) (st_ds st)\<rparr>
      in (Inr (gather (zip (st_dw st) (st_ds st)) (map int [0..<count]) None), b\<lparr>bk_bufs := bufs(buf := st)\<rparr>))"

text \<open>\<open>install.init\<close>: the rows this rank asks the store for, and its share of the host's cache.\<close>

definition backend_range :: "int \<Rightarrow> int \<Rightarrow> int \<Rightarrow> int \<times> int" where
  "backend_range num tp rank = (num * rank div tp, num * (rank + 1) div tp)"

definition cache_budget :: "int \<Rightarrow> int \<Rightarrow> int \<Rightarrow> int" where
  "cache_budget gib tp nnodes =
     (let ranks_per_host = max 1 (tp div max 1 nnodes) in gib div (2 * ranks_per_host))"

section \<open>The descriptors always point at their own buffers\<close>

definition stage_fits :: "nat \<Rightarrow> stage \<Rightarrow> bool" where
  "stage_fits cap st \<longleftrightarrow> length (st_ids st) = cap \<and> length (st_w st) = cap \<and> length (st_s st) = cap
     \<and> length (st_dw st) = cap \<and> length (st_ds st) = cap"

definition bk_inv :: "backend \<Rightarrow> bool" where
  "bk_inv b \<longleftrightarrow>
     (\<forall>k buf. bk_staging b k = Some buf \<longrightarrow> buf < bk_next b \<and> stage_fits (snd k) (bk_bufs b buf))
   \<and> (\<forall>dev count w. bk_works b (dev, count) = Some w \<longrightarrow>
        snd w = count \<and> bk_staging b (dev, stage_capacity count) = Some (fst w))
   \<and> (\<forall>k k' buf. bk_staging b k = Some buf \<longrightarrow> bk_staging b k' = Some buf \<longrightarrow> k = k')"

lemma bk_invD:
  assumes "bk_inv b"
  shows "bk_staging b k = Some buf \<Longrightarrow> buf < bk_next b" "bk_staging b k = Some buf \<Longrightarrow> stage_fits (snd k) (bk_bufs b buf)"
    "bk_works b (dev, count) = Some w \<Longrightarrow> w = (the (bk_staging b (dev, stage_capacity count)), count)"
    "bk_works b (dev, count) = Some w \<Longrightarrow> bk_staging b (dev, stage_capacity count) = Some (fst w)"
    "bk_staging b k = Some buf \<Longrightarrow> bk_staging b k' = Some buf \<Longrightarrow> k = k'"
  using assms unfolding bk_inv_def by (blast, blast, metis option.sel prod.collapse, blast, blast)

lemma bk_inv_start: "bk_inv (backend_start bufs)"
  by (simp add: bk_inv_def backend_start_def)

lemma count_le_capacity: "count \<le> stage_capacity count"
proof (cases count)
  case (Suc n)
  have "int n < 2 ^ bit_length (int n)" by (rule bit_length_upper) simp
  then have "int n < int (2 ^ bit_length (int n))" by simp
  then show ?thesis using Suc by (simp add: stage_capacity_def)
qed simp

lemma length_put_prefix: "length vals \<le> length buf \<Longrightarrow> length (put_prefix vals buf) = length buf"
  by (simp add: put_prefix_def)

lemma take_put_prefix: "length vals = n \<Longrightarrow> take n (put_prefix vals buf) = vals"
  by (simp add: put_prefix_def)

lemma ensure_stage_inv:
  assumes "bk_inv b"
  shows "bk_inv (ensure_stage (dev, cap) b)" "\<exists>buf. bk_staging (ensure_stage (dev, cap) b) (dev, cap) = Some buf"
proof -
  show "\<exists>buf. bk_staging (ensure_stage (dev, cap) b) (dev, cap) = Some buf"
    by (auto simp: ensure_stage_def)
  show "bk_inv (ensure_stage (dev, cap) b)"
  proof (cases "bk_staging b (dev, cap)")
    case None
    have fresh: "buf \<noteq> bk_next b" if "bk_staging b k = Some buf" for k buf
      using bk_invD(1)[OF assms that] by simp
    have w: "bk_works b (d, c) = Some w \<Longrightarrow> (d, stage_capacity c) \<noteq> (dev, cap)" for d c w
      using bk_invD(4)[OF assms] None by fastforce
    show ?thesis unfolding bk_inv_def
    proof (intro conjI allI impI)
      fix k buf assume k: "bk_staging (ensure_stage (dev, cap) b) k = Some buf"
      show "buf < bk_next (ensure_stage (dev, cap) b)"
        using k None bk_invD(1)[OF assms, of k buf] by (auto simp: ensure_stage_def split: if_splits)
      show "stage_fits (snd k) (bk_bufs (ensure_stage (dev, cap) b) buf)"
        using k None bk_invD(2)[OF assms, of k buf] fresh[of k buf]
        by (auto simp: ensure_stage_def stage_fits_def new_stage_def split: if_splits)
    next
      fix d c w assume "bk_works (ensure_stage (dev, cap) b) (d, c) = Some w"
      then have "bk_works b (d, c) = Some w" using None by (simp add: ensure_stage_def)
      note w' = bk_invD(3)[OF assms this] bk_invD(4)[OF assms this] w[OF this]
      show "snd w = c" by (subst w'(1)) simp
      show "bk_staging (ensure_stage (dev, cap) b) (d, stage_capacity c) = Some (fst w)"
        using w'(2,3) None by (auto simp: ensure_stage_def)
    next
      fix k k' buf assume "bk_staging (ensure_stage (dev, cap) b) k = Some buf" "bk_staging (ensure_stage (dev, cap) b) k' = Some buf"
      moreover have "bk_staging b k \<noteq> Some (bk_next b)" "bk_staging b k' \<noteq> Some (bk_next b)" using fresh by blast+
      ultimately show "k = k'" using None bk_invD(5)[OF assms, of k buf k'] by (auto simp: ensure_stage_def split: if_splits)
    qed
  qed (use assms in \<open>simp add: ensure_stage_def\<close>)
qed

lemma ensure_work_inv:
  assumes "bk_inv b" "bk_staging b (dev, stage_capacity count) = Some buf"
  shows "bk_inv (ensure_work (dev, count) buf b)"
    "bk_works (ensure_work (dev, count) buf b) (dev, count) = Some (buf, count)"
    "bk_staging (ensure_work (dev, count) buf b) = bk_staging b" "bk_bufs (ensure_work (dev, count) buf b) = bk_bufs b"
proof -
  show "bk_staging (ensure_work (dev, count) buf b) = bk_staging b" "bk_bufs (ensure_work (dev, count) buf b) = bk_bufs b"
    by (simp_all add: ensure_work_def)
  show "bk_works (ensure_work (dev, count) buf b) (dev, count) = Some (buf, count)"
    using bk_invD(3)[OF assms(1), of dev count] assms(2) by (auto simp: ensure_work_def)
  show "bk_inv (ensure_work (dev, count) buf b)"
    using assms unfolding bk_inv_def ensure_work_def by (auto split: if_splits)
qed

lemma bufs_update_inv:
  assumes "bk_inv b" "\<And>k. bk_staging b k = Some buf \<Longrightarrow> stage_fits (snd k) st"
  shows "bk_inv (b\<lparr>bk_bufs := (bk_bufs b)(buf := st)\<rparr>)"
  using assms unfolding bk_inv_def by auto

text \<open>A row the store serves: this rank's row of the checkpoint, or zeros.\<close>

definition store_ok :: "(int \<Rightarrow> real list \<times> real list) \<Rightarrow> nat \<Rightarrow> int \<Rightarrow> int \<Rightarrow> table \<Rightarrow> bool" where
  "store_ok store dm lo hi full \<longleftrightarrow>
     (\<forall>i. store i = (if lo \<le> i \<and> i < hi then full ! nat i else (replicate dm 0, snd (store i))))"

lemma owned_backend_run:
  assumes "bk_inv b" "bk_staging b (dev, stage_capacity (length indices)) = None \<longrightarrow> \<not> capturing"
    and "indices \<noteq> []"
  shows "bk_inv (snd (owned_backend store gather dev capturing launch_error indices b))"
    and "\<not> launch_error \<Longrightarrow> \<exists>rest. fst (owned_backend store gather dev capturing launch_error indices b)
       = Inr (gather (map store indices @ rest) (map int [0..<length indices]) None)"
proof -
  define c where "c = length indices"
  define cap where "cap = stage_capacity c"
  define b1 where "b1 = ensure_stage (dev, cap) b"
  have cc: "0 < c" "c \<le> cap" using assms(3) count_le_capacity by (simp_all add: c_def cap_def)
  have i1: "bk_inv b1" unfolding b1_def by (rule ensure_stage_inv(1)[OF assms(1)])
  obtain buf where buf: "bk_staging b1 (dev, cap) = Some buf"
    using ensure_stage_inv(2)[OF assms(1)] unfolding b1_def by blast
  define b2 where "b2 = ensure_work (dev, c) buf b1"
  note w = ensure_work_inv[OF i1 buf[unfolded cap_def], folded b2_def]
  have buf2: "bk_staging b2 (dev, cap) = Some buf" using buf w(3) by simp
  define st where "st = bk_bufs b2 buf"
  have fits: "stage_fits cap st" using bk_invD(2)[OF w(1) buf2] by (simp add: st_def)
  have only: "snd k = cap" if "bk_staging b2 k = Some buf" for k using bk_invD(5)[OF w(1) that buf2] by simp
  define st1 where "st1 = st\<lparr>st_ids := put_prefix indices (st_ids st)\<rparr>"
  define rows where "rows = map store indices"
  define st2 where "st2 = st1\<lparr>st_w := put_prefix (map fst rows) (st_w st), st_s := put_prefix (map snd rows) (st_s st)\<rparr>"
  define st3 where "st3 = st2\<lparr>st_dw := put_prefix (map fst rows) (st_dw st), st_ds := put_prefix (map snd rows) (st_ds st)\<rparr>"
  have lr: "length rows = c" by (simp add: rows_def c_def)
  have f1: "stage_fits cap st1" and f3: "stage_fits cap st3"
    using fits cc lr by (auto simp: st1_def st2_def st3_def stage_fits_def c_def length_put_prefix)
  have look: "run_lookup store (buf, c) ((bk_bufs b2)(buf := st1)) = (bk_bufs b2)(buf := st2)"
    by (simp add: run_lookup_def Let_def st1_def st2_def rows_def take_put_prefix c_def)
  have dev: "st2\<lparr>st_dw := put_prefix (take c (st_w st2)) (st_dw st2), st_ds := put_prefix (take c (st_s st2)) (st_ds st2)\<rparr> = st3"
    using lr by (simp add: st3_def st2_def st1_def take_put_prefix)
  have go: "owned_backend store gather dev capturing launch_error indices b =
      (if launch_error then (Inl RuntimeError, b2\<lparr>bk_bufs := (bk_bufs b2)(buf := st1)\<rparr>)
       else (Inr (gather (zip (st_dw st3) (st_ds st3)) (map int [0..<c]) None), b2\<lparr>bk_bufs := (bk_bufs b2)(buf := st3)\<rparr>))"
  proof -
    have nc: "\<not> (bk_staging b (dev, cap) = None \<and> capturing)"
      using assms(2) unfolding c_def cap_def by blast
    have c0: "c \<noteq> 0" using cc(1) by simp
    show ?thesis unfolding owned_backend_def Let_def c_def[symmetric] cap_def[symmetric] if_not_P[OF nc] if_not_P[OF c0]
    by (simp add: b1_def[symmetric] buf b2_def[symmetric] w(2) st_def[symmetric] st1_def[symmetric] look dev)
  qed
  show "bk_inv (snd (owned_backend store gather dev capturing launch_error indices b))"
    unfolding go using bufs_update_inv[OF w(1)] f1 f3 only by simp
  have "zip (st_dw st3) (st_ds st3) = rows @ zip (drop c (st_dw st)) (drop c (st_ds st))"
    using lr by (simp add: st3_def st2_def st1_def put_prefix_def zip_map_fst_snd)
  then show "\<not> launch_error \<Longrightarrow> \<exists>rest. fst (owned_backend store gather dev capturing launch_error indices b)
       = Inr (gather (map store indices @ rest) (map int [0..<length indices]) None)"
    unfolding go by (auto simp: rows_def c_def)
qed

text \<open>C13. The replacement computes what it replaces: in every state the backend can reach, with the
  staging warmed before graph capture, its gather returns exactly the rows of the original
  \<open>_owned_rows\<close>, and its descriptors keep pointing at their own buffers, also after a failed
  launch.\<close>

theorem backend_matches_owned_rows:
  assumes "bk_inv b" "bk_staging b (dev, stage_capacity (length indices)) = None \<longrightarrow> \<not> capturing"
    and "gather_ok bf16 blk dm gather" "bf16 0 = 0"
    and "0 < tp" "0 \<le> num" "r < nat tp" "length full = nat num" "\<forall>(w, s)\<in>set full. length w = dm"
    and "store_ok store dm (fst (backend_range num tp (int r))) (snd (backend_range num tp (int r))) full"
  shows "bk_inv (snd (owned_backend store gather dev capturing launch_error indices b))
     \<and> (\<not> launch_error \<longrightarrow> fst (owned_backend store gather dev capturing launch_error indices b)
          = Inr (owned_rows bf16 blk gather True (embedding_init num dm tp None (int r))
                  (held (embedding_init num dm tp None (int r)) full) indices))"
proof (cases "indices = []")
  case True
  then show ?thesis using assms(1) owned_row_at[OF assms(3,5,6,7) refl _ assms(8,9), of None True "[]"]
    by (simp add: owned_backend_def Let_def)
next
  case False
  have own: "owned_rows bf16 blk gather True (embedding_init num dm tp None (int r))
        (held (embedding_init num dm tp None (int r)) full) indices
     = map (\<lambda>i. dequant bf16 blk (store i)) indices"
  proof -
    have "dequant bf16 blk (store i) = (if num * int r div tp \<le> i \<and> i < num * (int r + 1) div tp
        then dequant bf16 blk (full ! nat i) else replicate dm 0)" for i
    proof -
      have "store i = (if num * int r div tp \<le> i \<and> i < num * (int r + 1) div tp then full ! nat i
          else (replicate dm 0, snd (store i)))"
        using assms(10) by (simp only: store_ok_def backend_range_def fst_conv snd_conv)
      moreover have "dequant bf16 blk (replicate dm 0, s) = replicate dm 0" for s
        using assms(4) by (auto simp: dequant_def intro: nth_equalityI)
      ultimately show ?thesis by (metis (no_types, lifting))
    qed
    then show ?thesis using owned_row_at[OF assms(3,5,6,7) refl _ assms(8,9), of None True indices] by simp
  qed
  have "fst (owned_backend store gather dev capturing launch_error indices b)
      = Inr (map (\<lambda>i. dequant bf16 blk (store i)) indices)" if nl: "\<not> launch_error"
  proof -
    obtain rest where "fst (owned_backend store gather dev capturing launch_error indices b)
       = Inr (gather (map store indices @ rest) (map int [0..<length indices]) None)"
      using owned_backend_run(2)[OF assms(1,2) False nl] by blast
    moreover have "gather (map store indices @ rest) (map int [0..<length indices]) None
        = map (\<lambda>i. dequant bf16 blk ((map store indices @ rest) ! nat i)) (map int [0..<length indices])"
      using assms(3) unfolding gather_ok_def by simp
    moreover have "\<dots> = map (\<lambda>i. dequant bf16 blk (store i)) indices"
      by (rule nth_equalityI) (simp_all add: nth_append)
    ultimately show ?thesis by simp
  qed
  then show ?thesis using owned_backend_run(1)[OF assms(1,2) False] own by simp
qed

text \<open>The first rank of two, a table of two rows; ids 1 and 0 on a fresh backend.\<close>

theorem backend_matches_owned_rows_witness:
  "fst (owned_backend (\<lambda>i. if i = 0 then ([1, 2], [3]) else ([0, 0], [0])) demo_gather 0 False False [1, 0]
      (backend_start (\<lambda>_. new_stage 0))) = Inr [[0, 0], [3, 6]]"
proof -
  let ?store = "\<lambda>i. if i = 0 then ([1, 2], [3]) else ([0, 0 :: real], [0 :: real])"
  let ?full = "[([1, 2 :: real], [3 :: real]), ([5, 6], [7])]"
  have st: "store_ok ?store 2 (fst (backend_range 2 2 (int 0))) (snd (backend_range 2 2 (int 0))) ?full"
    by (auto simp: store_ok_def backend_range_def numeral_2_eq_2)
  have "owned_rows id 2 demo_gather True (embedding_init 2 2 2 None (int 0)) (held (embedding_init 2 2 2 None (int 0)) ?full) [1, 0]
      = [[0, 0], [3, 6]]"
    by (simp add: owned_rows_def embedding_init_def held_def is_shared_def Let_def demo_gather_def dequant_def numeral_2_eq_2)
  then show ?thesis
    using backend_matches_owned_rows[OF bk_inv_start[of "\<lambda>_. new_stage 0"] _ demo_gather_ok _ _ _ _ _ _ st,
      where capturing = False and launch_error = False and dev = 0 and indices = "[1, 0]"]
    by simp
qed

text \<open>The budget divides \<open>tp_size\<close> by \<open>NNODES\<close> rounding down: when it does not divide evenly, a host
  that runs two ranks can hand out twice what it was given (three ranks, two hosts).\<close>

lemma cache_budget_per_host:
  assumes "0 < nodes" "nodes dvd tp" "0 < tp" "0 \<le> gib"
  shows "2 * (tp div nodes) * cache_budget gib tp nodes \<le> gib"
proof -
  have "1 \<le> tp div nodes" using assms(1-3) by (auto elim: dvdE simp: zero_less_mult_iff)
  then have "cache_budget gib tp nodes = gib div (2 * (tp div nodes))"
    using assms(1) by (simp add: cache_budget_def Let_def max_absorb2)
  moreover have "2 * (tp div nodes) * (gib div (2 * (tp div nodes))) \<le> gib"
    using \<open>1 \<le> tp div nodes\<close> pos_mod_sign[of "2 * (tp div nodes)" gib] mult_div_mod_eq[of "2 * (tp div nodes)" gib]
    by linarith
  ultimately show ?thesis by simp
qed

lemma cache_budget_overcommits: "2 * 2 * cache_budget 64 3 2 = 2 * (64 :: int)"
  by code_simp

end
