(* ===== verification/PagedTokens.thy ===== *)
theory PagedTokens
  imports KVLayout
begin

text \<open>
  Moving packed tokens between paged KV buffers: \<open>copy_packed_tokens\<close> of
  \<open>sglang-overlay/dsv41_request_window.py\<close> on the page geometry of \<open>kv_layout.py\<close>.  A
  buffer is a list of pages of bytes; token \<open>loc\<close> is the data row and the scale row of slot
  \<open>loc mod page_size\<close> in page \<open>loc div page_size\<close>.  The interface other components rely on
  is the locale \<open>token_store\<close>; its interpretation here is on the byte buffers.
\<close>

section \<open>The interface of a token store\<close>

text \<open>Copy the listed (source, destination) pairs, one after the other.\<close>

definition copy_all ::
    "('b \<Rightarrow> nat \<Rightarrow> 't) \<Rightarrow> ('b \<Rightarrow> nat \<Rightarrow> 't \<Rightarrow> 'b) \<Rightarrow> 'b \<Rightarrow> (nat \<times> nat) list \<Rightarrow> 'b \<Rightarrow> 'b" where
  "copy_all get put src ps dst = fold (\<lambda>(i, j) b. put b j (get src i)) ps dst"

locale token_store =
  fixes get :: "'b \<Rightarrow> nat \<Rightarrow> 't"
    and put :: "'b \<Rightarrow> nat \<Rightarrow> 't \<Rightarrow> 'b"
    and fits :: "'b \<Rightarrow> nat \<Rightarrow> bool"
    and token :: "'t \<Rightarrow> bool"
  assumes fits_put: "fits b n \<Longrightarrow> token t \<Longrightarrow> fits (put b i t) n"
    and get_token: "token (get b i)"
    and get_put_same: "fits b n \<Longrightarrow> i < n \<Longrightarrow> token t \<Longrightarrow> get (put b i t) i = t"
    and get_put_other: "fits b n \<Longrightarrow> i < n \<Longrightarrow> j < n \<Longrightarrow> i \<noteq> j \<Longrightarrow> token t \<Longrightarrow> get (put b i t) j = get b j"
begin

lemma copy_all_fits: "fits dst n \<Longrightarrow> fits (copy_all get put src ps dst) n"
  unfolding copy_all_def
  by (induction ps arbitrary: dst) (auto intro: fits_put get_token)

lemma copy_all_other:
  "fits dst n \<Longrightarrow> j < n \<Longrightarrow> \<forall>(i', j')\<in>set ps. j' < n \<Longrightarrow> j \<notin> snd ` set ps \<Longrightarrow> get (copy_all get put src ps dst) j = get dst j"
  unfolding copy_all_def
proof (induction ps arbitrary: dst)
  case (Cons p ps)
  obtain i k where p: "p = (i, k)" by fastforce
  have "fits (put dst k (get src i)) n" using Cons.prems(1) by (auto intro: fits_put get_token)
  then have "get (fold (\<lambda>(i, j) b. put b j (get src i)) ps (put dst k (get src i))) j
      = get (put dst k (get src i)) j" using Cons by simp
  also have "\<dots> = get dst j" using Cons.prems p get_token by (intro get_put_other) auto
  finally show ?case using p by simp
qed simp

text \<open>A destination that no other pair writes holds its source's token.\<close>

lemma copy_all_own:
  assumes "fits dst n" "j < n" "(i, j) \<in> set ps" "\<forall>(i', j')\<in>set ps. j' < n \<and> (j' = j \<longrightarrow> i' = i)"
  shows "get (copy_all get put src ps dst) j = get src i"
  using assms unfolding copy_all_def
proof (induction ps arbitrary: dst)
  case (Cons p ps)
  obtain k l where p: "p = (k, l)" by fastforce
  let ?d = "put dst l (get src k)"
  have fit: "fits ?d n" using Cons.prems(1) by (auto intro: fits_put get_token)
  show ?case
  proof (cases "(i, j) \<in> set ps")
    case True
    then show ?thesis using Cons.IH[OF fit Cons.prems(2)] Cons.prems(4) p by auto
  next
    case False
    then have eq: "k = i" "l = j" using Cons.prems(3) p by auto
    have "j \<notin> snd ` set ps" using False Cons.prems(4) by auto
    then have "get (copy_all get put src ps ?d) j = get ?d j" using fit Cons.prems(2,4) p by (intro copy_all_other) auto
    then show ?thesis using eq p get_put_same[OF Cons.prems(1,2) get_token, of src i]
      by (simp add: copy_all_def)
  qed
qed simp

text \<open>Copying back what was copied restores the token.\<close>

lemma copy_all_roundtrip:
  assumes "fits dst n" "fits src m" "i < m" "j < n"
  shows "get (copy_all get put (copy_all get put src [(i, j)] dst) [(j, i)] src) i = get src i"
  using assms copy_all_own[OF assms(2,3), of j "[(j, i)]"] copy_all_own[OF assms(1,4), of i "[(i, j)]"]
  by simp

end

section \<open>Packed tokens in pages of bytes\<close>

type_synonym paged = "int list list"

definition upd2 :: "paged \<Rightarrow> nat \<Rightarrow> nat \<Rightarrow> int \<Rightarrow> paged" where
  "upd2 b p c v = b[p := (b ! p)[c := v]]"

text \<open>\<open>b[page, off + arange(width)] = values\<close> for one token.\<close>

definition write_row :: "nat \<Rightarrow> nat \<Rightarrow> int list \<Rightarrow> paged \<Rightarrow> paged" where
  "write_row p off vs b = fold (\<lambda>c b. upd2 b p (off + c) (vs ! c)) [0..<length vs] b"

definition read_row :: "nat \<Rightarrow> nat \<Rightarrow> nat \<Rightarrow> paged \<Rightarrow> int list" where
  "read_row p off w b = map (\<lambda>c. b ! p ! (off + c)) [0..<w]"

definition norm_idx :: "nat \<Rightarrow> int \<Rightarrow> nat" where
  "norm_idx n i = nat (if i < 0 then int n + i else i)"

text \<open>One of the two passes: gather every source row, then store the destination rows.\<close>

definition pass_ok :: "int \<Rightarrow> int \<Rightarrow> int \<Rightarrow> int list \<Rightarrow> paged \<Rightarrow> bool" where
  "pass_ok page_size width base locs b \<longleftrightarrow>
     (\<forall>loc\<in>set locs. - int (length b) \<le> loc div page_size \<and> loc div page_size < int (length b)
        \<and> base + loc mod page_size * width + width
            \<le> int (length (b ! norm_idx (length b) (loc div page_size))))"

definition copy_pass ::
    "int \<Rightarrow> int \<Rightarrow> int \<Rightarrow> int list \<Rightarrow> int list \<Rightarrow> paged \<Rightarrow> paged \<Rightarrow> paged res" where
  "copy_pass page_size width base src_loc dst_loc src dst =
     ensure (length src_loc = length dst_loc) RuntimeError
      (ensure (pass_ok page_size width base src_loc src \<and> pass_ok page_size width base dst_loc dst) IndexError
        (let vals = map (\<lambda>loc. read_row (norm_idx (length src) (loc div page_size))
               (nat (base + loc mod page_size * width)) (nat width) src) src_loc
         in Inr (fold (\<lambda>(loc, v) b. write_row (norm_idx (length dst) (loc div page_size))
                 (nat (base + loc mod page_size * width)) v b) (zip dst_loc vals) dst)))"

definition copy_packed_tokens ::
    "paged \<Rightarrow> paged \<Rightarrow> int list \<Rightarrow> int list \<Rightarrow> int \<Rightarrow> kv_layout \<Rightarrow> paged res" where
  "copy_packed_tokens src dst src_loc dst_loc page_size layout =
     (if src_loc = [] then Inr dst
      else res_bind (copy_pass page_size (data_bytes layout) 0 src_loc dst_loc src dst) (\<lambda>dst'.
           copy_pass page_size (scale_bytes layout) (page_size * data_bytes layout) src_loc dst_loc src dst'))"

section \<open>Byte buffers are a token store\<close>

text \<open>Slot offsets inside a page.\<close>

definition data_off :: "nat \<Rightarrow> kv_layout \<Rightarrow> nat \<Rightarrow> nat" where
  "data_off ps l loc = loc mod ps * nat (data_bytes l)"

definition scale_off :: "nat \<Rightarrow> kv_layout \<Rightarrow> nat \<Rightarrow> nat" where
  "scale_off ps l loc = ps * nat (data_bytes l) + loc mod ps * nat (scale_bytes l)"

definition tok_get :: "nat \<Rightarrow> kv_layout \<Rightarrow> paged \<Rightarrow> nat \<Rightarrow> int list \<times> int list" where
  "tok_get ps l b loc =
     (read_row (loc div ps) (data_off ps l loc) (nat (data_bytes l)) b,
      read_row (loc div ps) (scale_off ps l loc) (nat (scale_bytes l)) b)"

definition tok_put :: "nat \<Rightarrow> kv_layout \<Rightarrow> paged \<Rightarrow> nat \<Rightarrow> int list \<times> int list \<Rightarrow> paged" where
  "tok_put ps l b loc t =
     write_row (loc div ps) (scale_off ps l loc) (snd t)
       (write_row (loc div ps) (data_off ps l loc) (fst t) b)"

definition tok_ok :: "kv_layout \<Rightarrow> int list \<times> int list \<Rightarrow> bool" where
  "tok_ok l t \<longleftrightarrow> length (fst t) = nat (data_bytes l) \<and> length (snd t) = nat (scale_bytes l)"

text \<open>\<open>rows\<close> tokens fit: their pages exist and are at least \<open>page_bytes\<close> long.\<close>

definition pages_fit :: "nat \<Rightarrow> kv_layout \<Rightarrow> paged \<Rightarrow> nat \<Rightarrow> bool" where
  "pages_fit ps l b rows \<longleftrightarrow> 0 < ps \<and> (\<forall>i<rows. i div ps < length b)
     \<and> (\<forall>p\<in>set b. nat (page_bytes l (int ps)) \<le> length p)"

lemma upd2_nth:
  "p < length b \<Longrightarrow> c < length (b ! p) \<Longrightarrow>
     upd2 b p c v ! q ! k = (if q = p \<and> k = c then v else b ! q ! k)"
  by (auto simp: upd2_def nth_list_update)

lemma upd2_length [simp]:
  "length (upd2 b p c v) = length b" "length (upd2 b p c v ! q) = length (b ! q)"
proof -
  show "length (upd2 b p c v) = length b" by (simp add: upd2_def)
  show "length (upd2 b p c v ! q) = length (b ! q)"
    by (cases "q = p"; cases "p < length b") (auto simp: upd2_def not_less list_update_beyond)
qed

lemma write_row_length [simp]:
  "length (write_row p off vs b) = length b" "length (write_row p off vs b ! q) = length (b ! q)"
proof -
  have "length (fold (\<lambda>c b. upd2 b p (off + c) (vs ! c)) is b) = length b
      \<and> length (fold (\<lambda>c b. upd2 b p (off + c) (vs ! c)) is b ! q) = length (b ! q)" for "is"
    by (induction "is" arbitrary: b) auto
  then show "length (write_row p off vs b) = length b" "length (write_row p off vs b ! q) = length (b ! q)"
    by (simp_all add: write_row_def)
qed

lemma write_row_nth:
  assumes "p < length b" "off + length vs \<le> length (b ! p)"
  shows "write_row p off vs b ! q ! k
       = (if q = p \<and> off \<le> k \<and> k < off + length vs then vs ! (k - off) else b ! q ! k)"
proof -
  have "n \<le> length vs \<Longrightarrow> fold (\<lambda>c b. upd2 b p (off + c) (vs ! c)) [0..<n] b ! q ! k
      = (if q = p \<and> off \<le> k \<and> k < off + n then vs ! (k - off) else b ! q ! k)" for n
  proof (induction n)
    case (Suc n)
    let ?b = "fold (\<lambda>c b. upd2 b p (off + c) (vs ! c)) [0..<n] b"
    have len: "length (fold (\<lambda>c b. upd2 b p (off + c) (vs ! c)) is b) = length b
      \<and> length (fold (\<lambda>c b. upd2 b p (off + c) (vs ! c)) is b ! p) = length (b ! p)" for "is"
      by (induction "is" arbitrary: b) auto
    have "upd2 ?b p (off + n) (vs ! n) ! q ! k = (if q = p \<and> k = off + n then vs ! n else ?b ! q ! k)"
      using assms Suc.prems len by (intro upd2_nth) auto
    then show ?case using Suc by (auto simp: less_Suc_eq)
  qed simp
  then show ?thesis by (simp add: write_row_def)
qed

lemma read_row_write_same:
  "p < length b \<Longrightarrow> off + length vs \<le> length (b ! p) \<Longrightarrow> w = length vs \<Longrightarrow>
     read_row p off w (write_row p off vs b) = vs"
  by (auto intro!: nth_equalityI simp: read_row_def write_row_nth)

lemma read_row_write_other:
  "p < length b \<Longrightarrow> off + length vs \<le> length (b ! p) \<Longrightarrow>
     q \<noteq> p \<or> off' + w \<le> off \<or> off + length vs \<le> off' \<Longrightarrow>
     read_row q off' w (write_row p off vs b) = read_row q off' w b"
  by (auto simp: read_row_def write_row_nth)

text \<open>Where the rows of a slot lie.\<close>

lemma page_bytes_nat:
  "ps * nat (data_bytes l) + ps * nat (scale_bytes l) \<le> nat (page_bytes l (int ps))"
proof -
  have "int ps * (data_bytes l + scale_bytes l) \<le> page_bytes l (int ps)"
    using page_bytes_ge[of "int ps" l] by (simp add: bytes_per_token_def)
  moreover have "int (ps * nat (data_bytes l) + ps * nat (scale_bytes l))
      = int ps * (data_bytes l + scale_bytes l)"
    by (simp add: distrib_left less_imp_le)
  ultimately show ?thesis by linarith
qed

lemma slot_row_le:
  assumes "0 < ps"
  shows "loc mod ps * w + w \<le> ps * (w::nat)"
proof -
  have "Suc (loc mod ps) * w \<le> ps * w" using assms by (intro mult_le_mono1) (simp add: Suc_leI)
  then show ?thesis by simp
qed

lemma slot_rows_apart:
  assumes "loc mod ps \<noteq> loc' mod ps"
  shows "loc mod ps * w + w \<le> loc' mod ps * w \<or> loc' mod ps * w + w \<le> loc mod ps * (w::nat)"
proof -
  have "Suc a * w \<le> b * w" if "a < b" for a b :: nat using that by (intro mult_le_mono1) simp
  then show ?thesis using assms by (metis add.commute linorder_neqE_nat mult_Suc)
qed

lemma pages_fit_slot:
  assumes "pages_fit ps l b n" "i < n"
  shows "i div ps < length b"
    and "data_off ps l i + nat (data_bytes l) \<le> scale_off ps l j"
    and "data_off ps l i + nat (data_bytes l) \<le> length (b ! (i div ps))"
    and "scale_off ps l i + nat (scale_bytes l) \<le> length (b ! (i div ps))"
proof -
  have ps: "0 < ps" using assms(1) by (simp add: pages_fit_def)
  show i: "i div ps < length b" using assms by (simp add: pages_fit_def)
  then have "nat (page_bytes l (int ps)) \<le> length (b ! (i div ps))"
    using assms(1) by (simp add: pages_fit_def)
  then have len: "ps * nat (data_bytes l) + ps * nat (scale_bytes l) \<le> length (b ! (i div ps))"
    using page_bytes_nat[of ps l] by linarith
  note d = slot_row_le[OF ps, of i "nat (data_bytes l)"]
  note sc = slot_row_le[OF ps, of i "nat (scale_bytes l)"]
  show "data_off ps l i + nat (data_bytes l) \<le> scale_off ps l j" using d by (simp add: data_off_def scale_off_def)
  show "data_off ps l i + nat (data_bytes l) \<le> length (b ! (i div ps))" using d len by (simp add: data_off_def)
  show "scale_off ps l i + nat (scale_bytes l) \<le> length (b ! (i div ps))" using sc len by (simp add: scale_off_def)
qed

lemma tok_put_length [simp]:
  "length (tok_put ps l b i t) = length b" "length (tok_put ps l b i t ! q) = length (b ! q)"
  by (simp_all add: tok_put_def)

lemma pages_fit_put: "pages_fit ps l b n \<Longrightarrow> pages_fit ps l (tok_put ps l b i t) n"
  unfolding pages_fit_def by (metis in_set_conv_nth tok_put_length)

lemma tok_get_put_same:
  assumes "pages_fit ps l b n" "i < n" "tok_ok l t"
  shows "tok_get ps l (tok_put ps l b i t) i = t"
proof -
  note fit = pages_fit_slot[OF assms(1,2)]
  let ?b = "write_row (i div ps) (data_off ps l i) (fst t) b"
  have len: "length (fst t) = nat (data_bytes l)" "length (snd t) = nat (scale_bytes l)"
    using assms(3) by (simp_all add: tok_ok_def)
  have "read_row (i div ps) (data_off ps l i) (nat (data_bytes l)) (tok_put ps l b i t)
      = read_row (i div ps) (data_off ps l i) (nat (data_bytes l)) ?b"
    unfolding tok_put_def using fit len by (intro read_row_write_other) auto
  also have "\<dots> = fst t" using fit len by (intro read_row_write_same) auto
  finally have "read_row (i div ps) (data_off ps l i) (nat (data_bytes l)) (tok_put ps l b i t) = fst t" .
  moreover have "read_row (i div ps) (scale_off ps l i) (nat (scale_bytes l)) (tok_put ps l b i t) = snd t"
    unfolding tok_put_def using fit len by (intro read_row_write_same) auto
  ultimately show ?thesis by (simp add: tok_get_def)
qed

lemma slot_offs_apart:
  assumes "i \<noteq> j" "i div ps = j div ps"
  shows "data_off ps l j + nat (data_bytes l) \<le> data_off ps l i \<or> data_off ps l i + nat (data_bytes l) \<le> data_off ps l j"
    and "scale_off ps l j + nat (scale_bytes l) \<le> scale_off ps l i \<or> scale_off ps l i + nat (scale_bytes l) \<le> scale_off ps l j"
proof -
  have m: "i mod ps \<noteq> j mod ps" using assms by (metis div_mult_mod_eq)
  show "data_off ps l j + nat (data_bytes l) \<le> data_off ps l i \<or> data_off ps l i + nat (data_bytes l) \<le> data_off ps l j"
    using slot_rows_apart[OF m, of "nat (data_bytes l)"] by (auto simp: data_off_def)
  show "scale_off ps l j + nat (scale_bytes l) \<le> scale_off ps l i \<or> scale_off ps l i + nat (scale_bytes l) \<le> scale_off ps l j"
    using slot_rows_apart[OF m, of "nat (scale_bytes l)"] by (auto simp: scale_off_def)
qed

lemma tok_get_put_other:
  assumes "pages_fit ps l b n" "i < n" "j < n" "i \<noteq> j" "tok_ok l t"
  shows "tok_get ps l (tok_put ps l b i t) j = tok_get ps l b j"
proof -
  note fi = pages_fit_slot[OF assms(1,2)] and fj = pages_fit_slot[OF assms(1,3)]
  have len: "length (fst t) = nat (data_bytes l)" "length (snd t) = nat (scale_bytes l)"
    using assms(5) by (simp_all add: tok_ok_def)
  let ?b = "write_row (i div ps) (data_off ps l i) (fst t) b"
  have apart: "i div ps \<noteq> j div ps \<or>
     (data_off ps l j + nat (data_bytes l) \<le> data_off ps l i \<or> data_off ps l i + nat (data_bytes l) \<le> data_off ps l j)
     \<and> (scale_off ps l j + nat (scale_bytes l) \<le> scale_off ps l i \<or> scale_off ps l i + nat (scale_bytes l) \<le> scale_off ps l j)"
    using slot_offs_apart[OF assms(4)] by blast
  have "read_row (j div ps) (data_off ps l j) (nat (data_bytes l)) (tok_put ps l b i t)
      = read_row (j div ps) (data_off ps l j) (nat (data_bytes l)) ?b"
    unfolding tok_put_def using fi fj(2)[of i] len by (intro read_row_write_other) auto
  also have "\<dots> = read_row (j div ps) (data_off ps l j) (nat (data_bytes l)) b"
    using fi len apart by (intro read_row_write_other) auto
  finally have d: "read_row (j div ps) (data_off ps l j) (nat (data_bytes l)) (tok_put ps l b i t)
      = read_row (j div ps) (data_off ps l j) (nat (data_bytes l)) b" .
  have "read_row (j div ps) (scale_off ps l j) (nat (scale_bytes l)) (tok_put ps l b i t)
      = read_row (j div ps) (scale_off ps l j) (nat (scale_bytes l)) ?b"
    unfolding tok_put_def using fi len apart by (intro read_row_write_other) auto
  also have "\<dots> = read_row (j div ps) (scale_off ps l j) (nat (scale_bytes l)) b"
    using fi len fi(2)[of j] by (intro read_row_write_other) auto
  finally show ?thesis using d by (simp add: tok_get_def)
qed

lemma tok_ok_get: "tok_ok l (tok_get ps l b i)"
  by (simp add: tok_ok_def tok_get_def read_row_def)

interpretation packed: token_store "tok_get ps l" "tok_put ps l" "pages_fit ps l" "tok_ok l" for ps l
  by unfold_locales
     (auto intro: pages_fit_put tok_ok_get tok_get_put_same tok_get_put_other)

section \<open>The two passes copy whole tokens\<close>

lemma upd2_commute:
  "p \<noteq> q \<or> c \<noteq> d \<Longrightarrow> upd2 (upd2 b p c v) q d w = upd2 (upd2 b q d w) p c v"
  by (cases "p = q"; cases "p < length b") (auto simp: upd2_def list_update_swap not_less list_update_beyond)

lemma write_row_commute:
  assumes "p \<noteq> q \<or> o1 + length vs \<le> o2 \<or> o2 + length ws \<le> o1"
  shows "write_row p o1 vs \<circ> write_row q o2 ws = write_row q o2 ws \<circ> write_row p o1 vs"
proof -
  let ?f = "\<lambda>c b. upd2 b p (o1 + c) (vs ! c)" and ?g = "\<lambda>c b. upd2 b q (o2 + c) (ws ! c)"
  have one: "?f c \<circ> fold ?g [0..<length ws] = fold ?g [0..<length ws] \<circ> ?f c" if "c < length vs" for c
    by (rule fold_commute) (use assms that in \<open>auto simp: fun_eq_iff intro!: upd2_commute\<close>)
  have "fold ?g [0..<length ws] \<circ> fold ?f [0..<length vs] = fold ?f [0..<length vs] \<circ> fold ?g [0..<length ws]"
    by (rule fold_commute) (use one in auto)
  then show ?thesis by (simp add: fun_eq_iff write_row_def)
qed

lemma fold_split_commute:
  assumes "\<And>x y. x \<in> set xs \<Longrightarrow> y \<in> set xs \<Longrightarrow> f x \<circ> g y = g y \<circ> f x"
  shows "fold f xs (fold g xs b) = fold (\<lambda>x b. f x (g x b)) xs b"
  using assms
proof (induction xs arbitrary: b)
  case (Cons x xs)
  have "f x \<circ> fold g xs = fold g xs \<circ> f x"
    by (rule fold_commute) (rule Cons.prems; simp)
  then have "f x (fold g xs c) = fold g xs (f x c)" for c by (simp add: fun_eq_iff)
  moreover have "g x (f x b) = f x (g x b)"
    using Cons.prems[of x x] by (metis comp_apply list.set_intros(1))
  ultimately show ?case using Cons.IH[of "f x (g x b)"] Cons.prems by simp
qed simp

lemma data_scale_commute:
  assumes "0 < ps" "tok_ok l t" "tok_ok l u"
  shows "write_row (i div ps) (scale_off ps l i) (snd t) \<circ> write_row (j div ps) (data_off ps l j) (fst u)
       = write_row (j div ps) (data_off ps l j) (fst u) \<circ> write_row (i div ps) (scale_off ps l i) (snd t)"
proof (rule write_row_commute)
  have "data_off ps l j + nat (data_bytes l) \<le> scale_off ps l i"
    using slot_row_le[OF assms(1), of j "nat (data_bytes l)"] by (simp add: data_off_def scale_off_def)
  then show "i div ps \<noteq> j div ps \<or> scale_off ps l i + length (snd t) \<le> data_off ps l j
      \<or> data_off ps l j + length (fst u) \<le> scale_off ps l i"
    using assms(3) by (simp add: tok_ok_def)
qed

lemma nat_slot: "nat (int base + int loc mod int ps * int w) = base + loc mod ps * w"
  by (metis nat_int of_nat_add of_nat_mod of_nat_mult)

lemma copy_pass_eq:
  assumes "length is = length js" "\<And>i. i \<in> set is \<Longrightarrow> i div ps < length src \<and> base + i mod ps * w + w \<le> length (src ! (i div ps))"
    and "\<And>j. j \<in> set js \<Longrightarrow> j div ps < length dst \<and> base + j mod ps * w + w \<le> length (dst ! (j div ps))"
  shows "copy_pass (int ps) (int w) (int base) (map int is) (map int js) src dst
     = Inr (fold (\<lambda>(i, j). write_row (j div ps) (base + j mod ps * w) (read_row (i div ps) (base + i mod ps * w) w src))
          (zip is js) dst)"
proof -
  have norm: "norm_idx n (int i div int ps) = i div ps" for n i
    by (simp add: norm_idx_def flip: zdiv_int)
  have ok: "pass_ok (int ps) (int w) (int base) (map int ks) b"
    if "\<And>i. i \<in> set ks \<Longrightarrow> i div ps < length b \<and> base + i mod ps * w + w \<le> length (b ! (i div ps))" for ks b
    unfolding pass_ok_def
  proof (intro ballI)
    fix loc assume "loc \<in> set (map int ks)"
    then obtain i where i: "loc = int i" "i \<in> set ks" by auto
    have "int (base + i mod ps * w + w) \<le> int (length (b ! (i div ps)))"
      using that[OF i(2)] by (simp only: of_nat_le_iff)
    then have "int base + int i mod int ps * int w + int w \<le> int (length (b ! (i div ps)))"
      by (simp only: of_nat_add of_nat_mult of_nat_mod)
    then show "- int (length b) \<le> loc div int ps \<and> loc div int ps < int (length b)
        \<and> int base + loc mod int ps * int w + int w \<le> int (length (b ! norm_idx (length b) (loc div int ps)))"
      using that[OF i(2)] i(1) norm[of "length b" i] by (simp flip: zdiv_int)
  qed
  have "pass_ok (int ps) (int w) (int base) (map int is) src" "pass_ok (int ps) (int w) (int base) (map int js) dst"
    using ok assms(2,3) by blast+
  moreover have "fold (\<lambda>(loc, v) b. write_row (norm_idx (length dst) (loc div int ps))
        (nat (int base + loc mod int ps * int w)) v b)
      (zip (map int js) (map (\<lambda>loc. read_row (norm_idx (length src) (loc div int ps))
               (nat (int base + loc mod int ps * int w)) (nat (int w)) src) (map int is))) d
    = fold (\<lambda>(i, j). write_row (j div ps) (base + j mod ps * w) (read_row (i div ps) (base + i mod ps * w) w src))
          (zip is js) d" for d
    using assms(1) by (induction "is" js arbitrary: d rule: list_induct2) (simp_all add: norm nat_slot)
  ultimately show ?thesis using assms(1) by (simp add: copy_pass_def Let_def)
qed

lemma copy_packed_eq:
  assumes "pages_fit ps l src m" "pages_fit ps l dst n" "length is = length js"
    and "\<forall>i\<in>set is. i < m" "\<forall>j\<in>set js. j < n"
  shows "copy_packed_tokens src dst (map int is) (map int js) (int ps) l
     = Inr (copy_all (tok_get ps l) (tok_put ps l) src (zip is js) dst)"
proof -
  let ?dw = "nat (data_bytes l)" and ?sw = "nat (scale_bytes l)"
  have ps: "0 < ps" using assms(1) by (simp add: pages_fit_def)
  define gd where "gd = (\<lambda>(i, j). write_row (j div ps) (data_off ps l j) (fst (tok_get ps l src i)))"
  define gs where "gs = (\<lambda>(i, j). write_row (j div ps) (scale_off ps l j) (snd (tok_get ps l src i)))"
  have dw: "int ?dw = data_bytes l" "int ?sw = scale_bytes l" by (simp_all add: less_imp_le)
  have fits: "i div ps < length b \<and> i mod ps * ?dw + ?dw \<le> length (b ! (i div ps))
      \<and> ps * ?dw + i mod ps * ?sw + ?sw \<le> length (b ! (i div ps))"
    if "pages_fit ps l b k" "i < k" for b k i
    using pages_fit_slot[OF that] by (simp add: data_off_def scale_off_def)
  define d1 where "d1 = fold gd (zip is js) dst"
  have len1: "length d1 = length dst \<and> length (d1 ! q) = length (dst ! q)" for q
  proof -
    have "length (fold gd xs d) = length d \<and> length (fold gd xs d ! q) = length (d ! q)" for xs d
      by (induction xs arbitrary: d) (auto simp: gd_def split: prod.splits)
    then show ?thesis by (simp add: d1_def)
  qed
  have p1: "copy_pass (int ps) (data_bytes l) 0 (map int is) (map int js) src dst = Inr d1"
  proof -
    have "copy_pass (int ps) (int ?dw) (int 0) (map int is) (map int js) src dst
      = Inr (fold (\<lambda>(i, j). write_row (j div ps) (0 + j mod ps * ?dw) (read_row (i div ps) (0 + i mod ps * ?dw) ?dw src)) (zip is js) dst)"
      by (rule copy_pass_eq[OF assms(3)]) (use fits assms in auto)
    then show ?thesis unfolding dw
      by (simp add: d1_def gd_def tok_get_def data_off_def case_prod_beta)
  qed
  have p2: "copy_pass (int ps) (scale_bytes l) (int ps * data_bytes l) (map int is) (map int js) src d1
      = Inr (fold gs (zip is js) d1)"
  proof -
    have "copy_pass (int ps) (int ?sw) (int (ps * ?dw)) (map int is) (map int js) src d1
      = Inr (fold (\<lambda>(i, j). write_row (j div ps) (ps * ?dw + j mod ps * ?sw) (read_row (i div ps) (ps * ?dw + i mod ps * ?sw) ?sw src)) (zip is js) d1)"
      by (rule copy_pass_eq[OF assms(3)]) (use fits assms len1 in auto)
    then show ?thesis unfolding of_nat_mult dw
      by (simp add: gs_def tok_get_def scale_off_def case_prod_beta)
  qed
  have "fold gs (zip is js) (fold gd (zip is js) dst) = fold (\<lambda>x b. gs x (gd x b)) (zip is js) dst"
  proof (rule fold_split_commute)
    fix x y :: "nat \<times> nat"
    obtain i j i' j' where "x = (i, j)" "y = (i', j')" by fastforce
    then show "gs x \<circ> gd y = gd y \<circ> gs x"
      using data_scale_commute[OF ps tok_ok_get tok_ok_get] by (simp add: gs_def gd_def)
  qed
  also have "\<dots> = copy_all (tok_get ps l) (tok_put ps l) src (zip is js) dst"
    unfolding copy_all_def by (rule fold_cong) (auto simp: gs_def gd_def tok_put_def)
  finally show ?thesis using p1 p2 d1_def assms(3)
    by (cases "is = []") (simp_all add: copy_packed_tokens_def copy_all_def)
qed

text \<open>Copying packed tokens: with every location in range, each destination slot that is
  written from one source only ends up with that source's data row and scale row, whatever the
  layout, and every other slot of the destination keeps both of its rows.\<close>

theorem copy_packed_tokens_copies:
  assumes "pages_fit ps l src m" "pages_fit ps l dst n" "length is = length js"
    and "\<forall>i\<in>set is. i < m" "\<forall>j\<in>set js. j < n" "k < length js"
    and "\<forall>k'<length js. js ! k' = js ! k \<longrightarrow> is ! k' = is ! k"
    and "slot < n" "slot \<notin> set js"
  shows "\<exists>dst'. copy_packed_tokens src dst (map int is) (map int js) (int ps) l = Inr dst'
     \<and> tok_get ps l dst' (js ! k) = tok_get ps l src (is ! k)
     \<and> tok_get ps l dst' slot = tok_get ps l dst slot"
proof -
  let ?d = "copy_all (tok_get ps l) (tok_put ps l) src (zip is js) dst"
  have jn: "\<forall>(i', j')\<in>set (zip is js). j' < n" using assms(5) by (auto dest: set_zip_rightD)
  have "tok_get ps l ?d (js ! k) = tok_get ps l src (is ! k)"
  proof (rule packed.copy_all_own[OF assms(2)])
    show "(is ! k, js ! k) \<in> set (zip is js)" using assms(3,6) by (auto simp: set_zip)
    show "\<forall>(i', j')\<in>set (zip is js). j' < n \<and> (j' = js ! k \<longrightarrow> i' = is ! k)"
      using assms(5,7) by (auto simp: set_zip)
  qed (use assms(5,6) in auto)
  moreover have "tok_get ps l ?d slot = tok_get ps l dst slot"
    using assms(9) by (intro packed.copy_all_other[OF assms(2,8) jn]) (auto dest: set_zip_rightD)
  ultimately show ?thesis using copy_packed_eq[OF assms(1-5)] by blast
qed

theorem copy_packed_tokens_copies_witness:
  "\<exists>dst'. copy_packed_tokens [replicate 512 7] [replicate 512 0, replicate 512 1] (map int [0]) (map int [1])
        (int 1) V41_FP4 = Inr dst'
     \<and> tok_get 1 V41_FP4 dst' ([1] ! 0) = tok_get 1 V41_FP4 [replicate 512 7] ([0] ! 0)
     \<and> tok_get 1 V41_FP4 dst' 0 = tok_get 1 V41_FP4 [replicate 512 0, replicate 512 1] 0"
  by (rule copy_packed_tokens_copies[where m = 1 and n = 2])
     (auto simp: pages_fit_def page_bytes_def layout_defs less_2_cases_iff)

end
