(* ===== verification/WindowLayout.thy ===== *)
theory WindowLayout
  imports Prelude
begin

text \<open>
  The sliding-window layout of \<open>sglang-overlay/dsv41_request_window.py\<close>:
  \<open>_first_row_offsets\<close> (runs of equal request ids in a batch) and \<open>window_layout\<close> (which
  workspace row each query reads for each look-back, which history row each workspace row
  is filled from, which queries are written back).  Tensors are lists; the int32 casts are
  written out.
\<close>

section \<open>Runs of a batch\<close>

definition run_starts :: "int list \<Rightarrow> bool list" where
  "run_starts req = map (\<lambda>i. i = 0 \<or> req ! i \<noteq> req ! (i - 1)) [0..<length req]"

definition run_ends :: "int list \<Rightarrow> bool list" where
  "run_ends req = map (\<lambda>i. Suc i = length req \<or> run_starts req ! Suc i) [0..<length req]"

definition first_row_offsets :: "int list \<Rightarrow> int list \<times> int list \<times> int list" where
  "first_row_offsets req =
     (let n = length req; offset = map int [0..<n]; starts = run_starts req; ends = run_ends req;
          group = map (\<lambda>x. x - 1) (cumsum (map of_bool starts));
          group_first = cummax (map2 (\<lambda>b x. if b then x else 0) starts offset);
          group_last = rev (cummin (rev (map2 (\<lambda>b x. if b then x else int n - 1) ends offset)))
      in (group, group_first, group_last))"

definition run_group :: "int list \<Rightarrow> nat \<Rightarrow> int" where
  "run_group req i = fst (first_row_offsets req) ! i"

definition run_first :: "int list \<Rightarrow> nat \<Rightarrow> int" where
  "run_first req i = fst (snd (first_row_offsets req)) ! i"

definition run_last :: "int list \<Rightarrow> nat \<Rightarrow> int" where
  "run_last req i = snd (snd (first_row_offsets req)) ! i"

lemma first_row_offsets_length [simp]:
  "length (fst (first_row_offsets req)) = length req"
  "length (fst (snd (first_row_offsets req))) = length req"
  "length (snd (snd (first_row_offsets req))) = length req"
  by (simp_all add: first_row_offsets_def Let_def run_starts_def run_ends_def)

lemma run_group_0: "req \<noteq> [] \<Longrightarrow> run_group req 0 = 0"
  by (simp add: run_group_def first_row_offsets_def Let_def cumsum_0 run_starts_def hd_map hd_conv_nth
      flip: hd_conv_nth)

lemma run_group_Suc:
  "Suc i < length req \<Longrightarrow> run_group req (Suc i) = run_group req i + of_bool (req ! Suc i \<noteq> req ! i)"
  by (simp add: run_group_def first_row_offsets_def Let_def cumsum_Suc run_starts_def)

lemma run_group_nonneg: "i < length req \<Longrightarrow> 0 \<le> run_group req i \<and> run_group req i \<le> int i"
proof (induction i)
  case 0
  then show ?case using run_group_0[of req] by auto
next
  case (Suc i)
  then show ?case using run_group_Suc[of i req] by auto
qed

lemma run_group_mono: "i \<le> j \<Longrightarrow> j < length req \<Longrightarrow> run_group req i \<le> run_group req j"
proof (induction j)
  case (Suc j)
  then show ?case using run_group_Suc[of j req] by (cases "i = Suc j") auto
qed simp

text \<open>Same group iff nothing changes in between.\<close>

lemma run_group_eq_iff:
  "i \<le> j \<Longrightarrow> j < length req \<Longrightarrow>
     run_group req i = run_group req j \<longleftrightarrow> (\<forall>k. i < k \<longrightarrow> k \<le> j \<longrightarrow> req ! k = req ! (k - 1))"
proof (induction j)
  case (Suc j)
  show ?case
  proof (cases "i = Suc j")
    case False
    then have ij: "i \<le> j" "j < length req" using Suc.prems by auto
    have mono: "run_group req i \<le> run_group req j" by (rule run_group_mono[OF ij])
    have "run_group req i = run_group req (Suc j) \<longleftrightarrow>
        run_group req i = run_group req j \<and> req ! Suc j = req ! j"
      using run_group_Suc[OF Suc.prems(2)] mono by auto
    also have "\<dots> \<longleftrightarrow> (\<forall>k. i < k \<longrightarrow> k \<le> Suc j \<longrightarrow> req ! k = req ! (k - 1))"
    proof -
      have "(\<forall>k. i < k \<longrightarrow> k \<le> Suc j \<longrightarrow> req ! k = req ! (k - 1))
        \<longleftrightarrow> (\<forall>k. i < k \<longrightarrow> k \<le> j \<longrightarrow> req ! k = req ! (k - 1)) \<and> req ! Suc j = req ! j"
        using ij(1) by (metis diff_Suc_1 le_Suc_eq le_imp_less_Suc less_Suc_eq_le)
      then show ?thesis using Suc.IH[OF ij] by blast
    qed
    finally show ?thesis .
  qed simp
qed simp

lemma run_group_req:
  assumes "run_group req i = run_group req j" "i < length req" "j < length req"
  shows "req ! i = req ! j"
proof -
  have up: "req ! i = req ! (i + d)"
    if "\<forall>k. i < k \<longrightarrow> k \<le> i + d \<longrightarrow> req ! k = req ! (k - 1)" for i d
    using that
  proof (induction d)
    case (Suc d)
    then have "req ! i = req ! (i + d)" by simp
    moreover have "req ! (i + Suc d) = req ! (i + d)" using Suc.prems[rule_format, of "i + Suc d"] by simp
    ultimately show ?case by simp
  qed simp
  show ?thesis
  proof (cases "i \<le> j")
    case True
    then obtain d where "j = i + d" using le_Suc_ex by blast
    then show ?thesis using run_group_eq_iff[OF True assms(3)] assms(1) up[of i d] by simp
  next
    case False
    then have le: "j \<le> i" by simp
    then obtain d where "i = j + d" using le_Suc_ex by blast
    then show ?thesis using run_group_eq_iff[OF le assms(2)] assms(1) up[of j d] by simp
  qed
qed

text \<open>\<open>group_first\<close> and \<open>group_last\<close> are the ends of the run.\<close>

lemma run_first_props:
  assumes "i < length req"
  shows "\<exists>f\<le>i. run_first req i = int f \<and> run_group req f = run_group req i
     \<and> (f = 0 \<or> run_group req (f - 1) \<noteq> run_group req i)"
proof -
  let ?ys = "map2 (\<lambda>b x. if b then x else 0) (run_starts req) (map int [0..<length req])"
  have ys: "?ys ! j = (if j = 0 \<or> req ! j \<noteq> req ! (j - 1) then int j else 0)" if "j < length req" for j
    using that by (simp add: run_starts_def)
  have len: "length ?ys = length req" by (simp add: run_starts_def)
  have max: "run_first req i = Max ((\<lambda>j. ?ys ! j) ` {..i})"
    using assms len by (simp add: run_first_def first_row_offsets_def Let_def cummax_def
        set_take_Suc[of i ?ys] del: set_take_Suc)
  then have "run_first req i \<in> (\<lambda>j. ?ys ! j) ` {..i}" using Max_in[of "(\<lambda>j. ?ys ! j) ` {..i}"] by simp
  then obtain j where j: "j \<le> i" "run_first req i = ?ys ! j" by auto
  define f where "f = (if j = 0 \<or> req ! j \<noteq> req ! (j - 1) then j else 0)"
  have f: "f \<le> i" "run_first req i = int f" "f = 0 \<or> req ! f \<noteq> req ! (f - 1)"
    using j ys[of j] assms by (auto simp: f_def)
  have "req ! k = req ! (k - 1)" if "f < k" "k \<le> i" for k
  proof (rule ccontr)
    assume "req ! k \<noteq> req ! (k - 1)"
    then have "?ys ! k = int k" using ys[of k] that assms by simp
    moreover have "?ys ! k \<le> run_first req i" unfolding max using that by (intro Max_ge) auto
    ultimately show False using f(2) that by simp
  qed
  then have g: "run_group req f = run_group req i" using run_group_eq_iff[OF f(1) assms] by blast
  have "run_group req (f - 1) \<noteq> run_group req i" if f0: "f \<noteq> 0"
  proof -
    obtain e where e: "f = Suc e" using f0 not0_implies_Suc by blast
    then have "run_group req f = run_group req e + 1"
      using run_group_Suc[of e req] f(1,3) assms by simp
    then show ?thesis using e g by simp
  qed
  then have "f = 0 \<or> run_group req (f - 1) \<noteq> run_group req i" by blast
  then show ?thesis by (intro exI[of _ f] conjI f(1,2) g)
qed

lemma run_first_const:
  assumes "run_group req i = run_group req j" "i < length req" "j < length req"
  shows "run_first req i = run_first req j"
proof -
  have le: "run_first req i \<le> run_first req j"
    if gr: "run_group req i = run_group req j" and il: "i < length req" and jl: "j < length req" for i j
  proof -
    obtain f where f: "f \<le> i" "run_first req i = int f" "run_group req f = run_group req i"
      using run_first_props[OF il] by blast
    obtain h where h: "h \<le> j" "run_first req j = int h" "run_group req h = run_group req j"
      "h = 0 \<or> run_group req (h - 1) \<noteq> run_group req j"
      using run_first_props[OF jl] by blast
    have "f \<le> h"
    proof (rule ccontr)
      assume "\<not> f \<le> h"
      obtain e where e: "e \<le> i" "run_first req i = int e" "e = 0 \<or> run_group req (e - 1) \<noteq> run_group req i"
        using run_first_props[OF il] by blast
      have "e = f" using e(2) f(2) by simp
      then have "h \<le> f - 1" "f \<noteq> 0" using \<open>\<not> f \<le> h\<close> by auto
      then have "run_group req h \<le> run_group req (f - 1)" "run_group req (f - 1) \<le> run_group req f"
        using f(1) il by (auto intro!: run_group_mono)
      then have "run_group req (f - 1) = run_group req i" using h(3) gr f(3) by simp
      then show False using e(3) \<open>e = f\<close> \<open>f \<noteq> 0\<close> by simp
    qed
    then show ?thesis using f(2) h(2) by simp
  qed
  show ?thesis using le[OF assms] le[OF assms(1)[symmetric] assms(3,2)] by simp
qed

lemma rev_cummin_nth:
  assumes "i < length ys"
  shows "rev (cummin (rev ys)) ! i = Min ((\<lambda>j. ys ! j) ` {i..<length ys})"
proof -
  let ?n = "length ys"
  have "rev (cummin (rev ys)) ! i = cummin (rev ys) ! (?n - 1 - i)"
    using assms by (simp add: rev_nth)
  also have "\<dots> = Min (set (take (Suc (?n - 1 - i)) (rev ys)))"
  proof -
    have "?n - 1 - i < ?n" using assms by simp
    then show ?thesis by (simp add: cummin_def del: diff_diff_left)
  qed
  also have "set (take (Suc (?n - 1 - i)) (rev ys)) = (\<lambda>j. ys ! j) ` {i..<?n}"
  proof -
    have "take (Suc (?n - 1 - i)) (rev ys) = rev (drop i ys)" using assms by (simp add: take_rev)
    moreover have "drop i ys = map ((!) ys) [i..<?n]" by (rule nth_equalityI) (use assms in auto)
    ultimately show ?thesis by simp
  qed
  finally show ?thesis .
qed

lemma run_last_props:
  assumes "i < length req"
  shows "\<exists>g. i \<le> g \<and> g < length req \<and> run_last req i = int g \<and> run_group req g = run_group req i
     \<and> (Suc g < length req \<longrightarrow> run_group req (Suc g) \<noteq> run_group req i)"
proof -
  let ?n = "length req"
  let ?ys = "map2 (\<lambda>b x. if b then x else int ?n - 1) (run_ends req) (map int [0..<?n])"
  have ys: "?ys ! j = (if Suc j = ?n \<or> req ! Suc j \<noteq> req ! j then int j else int ?n - 1)" if "j < ?n" for j
    using that by (auto simp: run_ends_def run_starts_def)
  have len: "length ?ys = ?n" by (simp add: run_ends_def)
  have min: "run_last req i = Min ((\<lambda>j. ?ys ! j) ` {i..<?n})"
  proof -
    have "run_last req i = rev (cummin (rev ?ys)) ! i"
      unfolding run_last_def first_row_offsets_def Let_def snd_conv ..
    also have "\<dots> = Min ((\<lambda>j. ?ys ! j) ` {i..<length ?ys})"
      by (rule rev_cummin_nth) (use assms len in simp)
    finally show ?thesis unfolding len .
  qed
  then have "run_last req i \<in> (\<lambda>j. ?ys ! j) ` {i..<?n}"
    using Min_in[of "(\<lambda>j. ?ys ! j) ` {i..<?n}"] assms by simp
  then obtain j where j: "i \<le> j" "j < ?n" "run_last req i = ?ys ! j" by auto
  define g where "g = (if Suc j = ?n \<or> req ! Suc j \<noteq> req ! j then j else ?n - 1)"
  have g: "i \<le> g" "g < ?n" "run_last req i = int g" "Suc g = ?n \<or> req ! Suc g \<noteq> req ! g"
    using j ys[OF j(2)] assms by (auto simp: g_def)
  have "req ! k = req ! (k - 1)" if "i < k" "k \<le> g" for k
  proof (rule ccontr)
    assume "req ! k \<noteq> req ! (k - 1)"
    moreover have k1: "k - 1 < ?n" "Suc (k - 1) = k" "i \<le> k - 1" using that g(2) by auto
    ultimately have "?ys ! (k - 1) = int (k - 1)" using ys[OF k1(1)] by simp
    moreover have "run_last req i \<le> ?ys ! (k - 1)"
      unfolding min by (rule Min_le) (use k1 in \<open>simp_all only: finite_imageI finite_atLeastLessThan image_eqI atLeastLessThan_iff\<close>)
    ultimately show False using g(3) that by simp
  qed
  then have gg: "run_group req i = run_group req g" using run_group_eq_iff[OF g(1,2)] by blast
  have "run_group req (Suc g) \<noteq> run_group req i" if "Suc g < ?n"
    using run_group_Suc[OF that] g(4) that gg by simp
  then show ?thesis using g gg by (intro exI[of _ g]) simp
qed

lemma run_last_ge:
  assumes "run_group req i = run_group req j" "i < length req" "j < length req"
  shows "int j \<le> run_last req i"
proof -
  obtain g where g: "i \<le> g" "g < length req" "run_last req i = int g" "run_group req g = run_group req i"
    "Suc g < length req \<longrightarrow> run_group req (Suc g) \<noteq> run_group req i"
    using run_last_props[OF assms(2)] by blast
  have "j \<le> g"
  proof (rule ccontr)
    assume "\<not> j \<le> g"
    then have "run_group req (Suc g) \<le> run_group req j" "run_group req g \<le> run_group req (Suc g)"
      using assms(3) by (auto intro!: run_group_mono)
    then show False using g(4,5) assms(1,3) \<open>\<not> j \<le> g\<close> by simp
  qed
  then show ?thesis using g(3) by simp
qed

section \<open>The layout\<close>

record window_layout_rec =
  wl_req :: "int list"
  wl_pos :: "int list"
  write_loc :: "int list"
  indices :: "int list list"
  lengths :: "int list"
  history_req :: "int list"
  history_pos :: "int list"
  history_loc :: "int list"
  history_valid :: "bool list"
  commit_mask :: "bool list"
  wl_size :: int

text \<open>The fields, from the run offsets and the per-group values.\<close>

definition build_window ::
    "nat \<Rightarrow> int list \<times> int list \<times> int list \<Rightarrow> int list \<Rightarrow> int list \<Rightarrow> nat \<Rightarrow> int \<Rightarrow> int list option
       \<Rightarrow> int list \<Rightarrow> int list \<Rightarrow> int list \<Rightarrow> bool list \<Rightarrow> int list option \<Rightarrow> window_layout_rec" where
  "build_window groups offs req pos window cap floor first_pos g_req g_first g_live g_floor =
    (let (group, group_first, group_last) = offs;
         n = length pos;
         history_rows = int groups * int window;
         seen = (\<lambda>i c. pos ! i - int c);
         valid = (\<lambda>i c. 0 \<le> seen i c \<and> (case floor of None \<Rightarrow> True | Some fl \<Rightarrow> fl ! i \<le> seen i c));
         old_loc = (\<lambda>i c. group ! i * int window + (seen i c - (first_pos ! i - int window)));
         new_loc = (\<lambda>i c. history_rows + group_first ! i + seen i c - first_pos ! i);
         h_pos = (\<lambda>r. g_first ! (r div window) - int window + int (r mod window))
     in \<lparr>wl_req = req, wl_pos = pos,
          write_loc = map (\<lambda>i. i32 (history_rows + int i)) [0..<n],
          indices = map (\<lambda>i. map (\<lambda>c. i32 (if valid i c
              then (if seen i c < first_pos ! i then old_loc i c else new_loc i c) else -1)) [0..<window]) [0..<n],
          lengths = map (\<lambda>i. i32 (sum_list (map (\<lambda>c. of_bool (valid i c)) [0..<window]))) [0..<n],
          history_req = map (\<lambda>r. g_req ! (r div window)) [0..<groups * window],
          history_pos = map h_pos [0..<groups * window],
          history_loc = map int [0..<groups * window],
          history_valid = map (\<lambda>r. 0 \<le> h_pos r \<and> g_live ! (r div window)
              \<and> (case g_floor of None \<Rightarrow> True | Some fl \<Rightarrow> fl ! (r div window) \<le> h_pos r)) [0..<groups * window],
          commit_mask = map (\<lambda>i. group_last ! i - int i < cap) [0..<n],
          wl_size = history_rows + int n\<rparr>)"

definition window_groups ::
    "int list \<Rightarrow> int list \<Rightarrow> nat \<Rightarrow> int \<Rightarrow> int list option \<Rightarrow> nat \<Rightarrow> window_layout_rec res" where
  "window_groups req pos window cap floor groups =
     (let offs = first_row_offsets req; group = fst offs; group_first = fst (snd offs);
          first_pos = map (\<lambda>i. pos ! i - (int i - group_first ! i)) [0..<length pos]
      in res_bind (scatter (replicate groups 0) group req) (\<lambda>g_req.
         res_bind (scatter (replicate groups 0) group first_pos) (\<lambda>g_first.
         res_bind (scatter (replicate groups False) group (replicate (length pos) True)) (\<lambda>g_live.
         res_bind (case floor of None \<Rightarrow> Inr None | Some fl \<Rightarrow> res_map Some (scatter (replicate groups 0) group fl)) (\<lambda>g_floor.
         Inr (build_window groups offs req pos window cap floor first_pos g_req g_first g_live g_floor))))))"

text \<open>\<open>floor\<close> is per query; the groups are fixed by the caller or one per query.\<close>

definition window_layout ::
    "int list \<Rightarrow> int list \<Rightarrow> nat \<Rightarrow> int \<Rightarrow> int list option \<Rightarrow> nat option \<Rightarrow> window_layout_rec res" where
  "window_layout req pos window cap floor num_groups =
     (if length pos = 0 then Inl ValueError
      else ensure (length req = length pos \<and> (\<forall>fl. floor = Some fl \<longrightarrow> length fl = length pos)) RuntimeError
        (window_groups req pos window cap floor (case num_groups of None \<Rightarrow> length pos | Some g \<Rightarrow> g)))"

section \<open>What the indices mean\<close>

text \<open>Positions advance by one inside a run, and a run has one floor.\<close>

definition window_batch :: "int list \<Rightarrow> int list \<Rightarrow> int list option \<Rightarrow> bool" where
  "window_batch req pos floor \<longleftrightarrow>
     (\<forall>i. Suc i < length req \<longrightarrow> req ! Suc i = req ! i \<longrightarrow>
        pos ! Suc i = pos ! i + 1 \<and> (\<forall>fl. floor = Some fl \<longrightarrow> fl ! Suc i = fl ! i))"

lemma run_pos:
  assumes "window_batch req pos floor" "run_group req i = run_group req j" "i \<le> j" "j < length req"
  shows "pos ! j = pos ! i + int (j - i)" "floor = Some fl \<Longrightarrow> fl ! j = fl ! i"
proof -
  have step: "\<forall>k. i < k \<longrightarrow> k \<le> j \<longrightarrow> req ! k = req ! (k - 1)"
    using run_group_eq_iff[OF assms(3,4)] assms(2) by simp
  have "pos ! (i + d) = pos ! i + int d \<and> (floor = Some fl \<longrightarrow> fl ! (i + d) = fl ! i)" if "i + d \<le> j" for d
    using that
  proof (induction d)
    case (Suc d)
    have "req ! Suc (i + d) = req ! (i + d)" using step[rule_format, of "Suc (i + d)"] Suc.prems by simp
    moreover have "Suc (i + d) < length req" using Suc.prems assms(4) by simp
    ultimately have "pos ! Suc (i + d) = pos ! (i + d) + 1 \<and> (\<forall>fl. floor = Some fl \<longrightarrow> fl ! Suc (i + d) = fl ! (i + d))"
      using assms(1) unfolding window_batch_def by blast
    then show ?case using Suc by simp
  qed simp
  from this[of "j - i"] show "pos ! j = pos ! i + int (j - i)" "floor = Some fl \<Longrightarrow> fl ! j = fl ! i"
    using assms(3) by simp_all
qed

definition first_pos_of :: "int list \<Rightarrow> int list \<Rightarrow> nat \<Rightarrow> int" where
  "first_pos_of req pos i = pos ! i - (int i - run_first req i)"

lemma first_pos_const:
  assumes "window_batch req pos floor" "run_group req i = run_group req j" "i < length req" "j < length req"
  shows "first_pos_of req pos i = first_pos_of req pos j" "floor = Some fl \<Longrightarrow> fl ! i = fl ! j"
proof -
  have f: "run_first req i = run_first req j" by (rule run_first_const[OF assms(2-4)])
  have "pos ! i - int i = pos ! j - int j \<and> (floor = Some fl \<longrightarrow> fl ! i = fl ! j)"
  proof (cases "i \<le> j")
    case True
    then show ?thesis using run_pos[OF assms(1,2) True assms(4)] by (simp add: of_nat_diff)
  next
    case False
    then have le: "j \<le> i" by simp
    then show ?thesis using run_pos[OF assms(1) assms(2)[symmetric] le assms(3)] by (simp add: of_nat_diff)
  qed
  then show "first_pos_of req pos i = first_pos_of req pos j" "floor = Some fl \<Longrightarrow> fl ! i = fl ! j"
    using f by (simp_all add: first_pos_of_def)
qed

text \<open>A scatter over groups whose members agree.\<close>

lemma scatter_group:
  assumes "scatter base (fst (first_row_offsets req)) vs = Inr out" "length vs = length req"
    and "i < length req" "\<And>j. j < length req \<Longrightarrow> run_group req j = run_group req i \<Longrightarrow> vs ! j = vs ! i"
  shows "out ! nat (run_group req i) = vs ! i \<and> nat (run_group req i) < length base"
proof -
  let ?g = "fst (first_row_offsets req)"
  have out: "out = fold (\<lambda>(i, v) b. b[nat i := v]) (zip ?g vs) base"
    and rng: "\<forall>i\<in>set ?g. 0 \<le> i \<and> i < int (length base)"
    using assms(1) by (auto simp: scatter_def ensure_Inr)
  have g: "?g ! j = run_group req j" for j by (simp add: run_group_def)
  have "run_group req i \<in> set ?g" using assms(3) g by (metis first_row_offsets_length(1) nth_mem)
  then have lt: "nat (run_group req i) < length base" using rng by force
  have "out ! nat (run_group req i) = vs ! i" unfolding out
  proof (rule fold_scatter_own[OF _ lt])
    show "(run_group req i, vs ! i) \<in> set (zip ?g vs)"
      using assms(2,3) g by (auto simp: set_zip)
    show "\<forall>(j, w)\<in>set (zip ?g vs). nat j = nat (run_group req i) \<longrightarrow> w = vs ! i"
    proof clarify
      fix j w assume jw: "(j, w) \<in> set (zip ?g vs)" and eq: "nat j = nat (run_group req i)"
      then obtain k where k: "k < length req" "j = run_group req k" "w = vs ! k"
        using assms(2) g by (auto simp: set_zip)
      have "run_group req k = run_group req i"
        using eq k run_group_nonneg[OF k(1)] run_group_nonneg[OF assms(3)] by (metis eq_nat_nat_iff)
      then show "w = vs ! i" using assms(4) k by simp
    qed
  qed
  then show ?thesis using lt by simp
qed

text \<open>What a workspace row is filled from: the history of a request, or a query of the batch.\<close>

definition row_source :: "window_layout_rec \<Rightarrow> int \<Rightarrow> int \<times> int" where
  "row_source L r =
     (let h = length (history_loc L) in
      if r < int h then (history_req L ! nat r, history_pos L ! nat r)
      else (wl_req L ! (nat r - h), wl_pos L ! (nat r - h)))"

definition visible :: "int list \<Rightarrow> int list option \<Rightarrow> nat \<Rightarrow> nat \<Rightarrow> bool" where
  "visible pos floor i c \<longleftrightarrow> 0 \<le> pos ! i - int c
     \<and> (case floor of None \<Rightarrow> True | Some fl \<Rightarrow> fl ! i \<le> pos ! i - int c)"

text \<open>The fields of a layout that was returned.\<close>

definition layout_fields ::
    "nat \<Rightarrow> int list \<Rightarrow> int list \<Rightarrow> nat \<Rightarrow> int \<Rightarrow> int list option \<Rightarrow> window_layout_rec \<Rightarrow> bool" where
  "layout_fields groups req pos window cap floor L \<longleftrightarrow>
     length req = length pos \<and> req \<noteq> []
   \<and> wl_req L = req \<and> wl_pos L = pos \<and> history_loc L = map int [0..<groups * window]
   \<and> wl_size L = int (groups * window + length req)
   \<and> write_loc L = map (\<lambda>i. i32 (int (groups * window + i))) [0..<length req]
   \<and> indices L = map (\<lambda>i. map (\<lambda>c. i32 (if visible pos floor i c
        then (if pos ! i - int c < first_pos_of req pos i
              then run_group req i * int window + (pos ! i - int c - (first_pos_of req pos i - int window))
              else int (groups * window) + run_first req i + (pos ! i - int c) - first_pos_of req pos i)
        else -1)) [0..<window]) [0..<length req]
   \<and> (\<forall>i<length req. nat (run_group req i) < groups)
   \<and> (\<forall>i<length req. \<forall>c<window. (let r = nat (run_group req i) * window + c in
        history_req L ! r = req ! i \<and> history_pos L ! r = first_pos_of req pos i - int window + int c
        \<and> history_valid L ! r = (0 \<le> first_pos_of req pos i - int window + int c
           \<and> (case floor of None \<Rightarrow> True | Some fl \<Rightarrow> fl ! i \<le> first_pos_of req pos i - int window + int c))))
   \<and> commit_mask L = map (\<lambda>i. run_last req i - int i < cap) [0..<length req]
   \<and> length (history_req L) = groups * window \<and> length (history_pos L) = groups * window
   \<and> length (history_valid L) = groups * window"

lemma layout_fieldsD:
  assumes "layout_fields groups req pos window cap floor L"
  shows "length req = length pos" "req \<noteq> []"
    "wl_req L = req" "wl_pos L = pos" "history_loc L = map int [0..<groups * window]"
    "wl_size L = int (groups * window + length req)"
    "write_loc L = map (\<lambda>i. i32 (int (groups * window + i))) [0..<length req]"
    "indices L = map (\<lambda>i. map (\<lambda>c. i32 (if visible pos floor i c
        then (if pos ! i - int c < first_pos_of req pos i
              then run_group req i * int window + (pos ! i - int c - (first_pos_of req pos i - int window))
              else int (groups * window) + run_first req i + (pos ! i - int c) - first_pos_of req pos i)
        else -1)) [0..<window]) [0..<length req]"
    "\<forall>i<length req. nat (run_group req i) < groups"
    "\<forall>i<length req. \<forall>c<window. (let r = nat (run_group req i) * window + c in
        history_req L ! r = req ! i \<and> history_pos L ! r = first_pos_of req pos i - int window + int c
        \<and> history_valid L ! r = (0 \<le> first_pos_of req pos i - int window + int c
           \<and> (case floor of None \<Rightarrow> True | Some fl \<Rightarrow> fl ! i \<le> first_pos_of req pos i - int window + int c)))"
    "commit_mask L = map (\<lambda>i. run_last req i - int i < cap) [0..<length req]"
    "length (history_req L) = groups * window" "length (history_pos L) = groups * window"
    "length (history_valid L) = groups * window"
  using assms unfolding layout_fields_def by blast+

lemma window_layout_fields:
  assumes "window_layout req pos window cap floor num_groups = Inr L" "window_batch req pos floor"
  obtains groups where "layout_fields groups req pos window cap floor L"
proof -
  define groups where "groups = (case num_groups of None \<Rightarrow> length pos | Some g \<Rightarrow> g)"
  let ?n = "length pos"
  have n: "?n \<noteq> 0" and len: "length req = ?n"
    and fllen: "\<forall>fl. floor = Some fl \<longrightarrow> length fl = ?n"
    and wg: "window_groups req pos window cap floor groups = Inr L"
    using assms(1) by (auto simp: window_layout_def ensure_Inr groups_def[symmetric] split: if_splits)
  let ?g = "fst (first_row_offsets req)"
  have fp: "map (\<lambda>i. pos ! i - (int i - fst (snd (first_row_offsets req)) ! i)) [0..<?n]
      = map (first_pos_of req pos) [0..<?n]"
    by (simp add: first_pos_of_def run_first_def)
  obtain g_req g_first g_live g_floor where
      gr: "scatter (replicate groups 0) ?g req = Inr g_req"
    and gf: "scatter (replicate groups 0) ?g (map (first_pos_of req pos) [0..<?n]) = Inr g_first"
    and gl: "scatter (replicate groups False) ?g (replicate ?n True) = Inr g_live"
    and gfl: "(case floor of None \<Rightarrow> Inr None | Some fl \<Rightarrow> res_map Some (scatter (replicate groups 0) ?g fl)) = Inr g_floor"
    and L0: "L = build_window groups (first_row_offsets req) req pos window cap floor
        (map (first_pos_of req pos) [0..<?n]) g_req g_first g_live g_floor"
    using wg unfolding window_groups_def Let_def fp by (auto simp: res_bind_Inr)
  note L = L0[unfolded build_window_def Let_def case_prod_beta]
  note grp = scatter_group
  have lt: "nat (run_group req i) < groups" if "i < length req" for i
    using grp[OF gl _ that] len that by simp
  have cells: "g_req ! nat (run_group req i) = req ! i" "g_first ! nat (run_group req i) = first_pos_of req pos i"
    "g_live ! nat (run_group req i)" "\<And>fl. floor = Some fl \<Longrightarrow> \<exists>fo. g_floor = Some fo \<and> fo ! nat (run_group req i) = fl ! i"
    "floor = None \<Longrightarrow> g_floor = None"
    if i: "i < length req" for i
  proof -
    show "g_req ! nat (run_group req i) = req ! i"
      using grp[OF gr refl i] run_group_req i by blast
    show "g_first ! nat (run_group req i) = first_pos_of req pos i"
    proof -
      have "g_first ! nat (run_group req i) = map (first_pos_of req pos) [0..<?n] ! i
          \<and> nat (run_group req i) < length (replicate groups (0::int))"
      proof (rule grp[OF gf _ i])
        fix j assume "j < length req" "run_group req j = run_group req i"
        then show "map (first_pos_of req pos) [0..<?n] ! j = map (first_pos_of req pos) [0..<?n] ! i"
          using first_pos_const(1)[OF assms(2), of j i] i len by simp
      qed (simp add: len)
      then show ?thesis using i len by simp
    qed
    show "g_live ! nat (run_group req i)" using grp[OF gl _ i] i len by simp
    show "floor = None \<Longrightarrow> g_floor = None" using gfl by simp
    fix fl assume fl: "floor = Some fl"
    then obtain fo where "scatter (replicate groups 0) ?g fl = Inr fo" "g_floor = Some fo"
      using gfl by (auto simp: res_map_Inr)
    moreover have "fo ! nat (run_group req i) = fl ! i \<and> nat (run_group req i) < length (replicate groups (0::int))"
      if "scatter (replicate groups 0) ?g fl = Inr fo" for fo
    proof (rule grp[OF that _ i])
      fix j assume "j < length req" "run_group req j = run_group req i"
      then show "fl ! j = fl ! i" using first_pos_const(2)[OF assms(2) _ _ i fl, of j] by simp
    qed (use fl fllen len in simp)
    ultimately show "\<exists>fo. g_floor = Some fo \<and> fo ! nat (run_group req i) = fl ! i" by blast
  qed
  have hist: "let r = nat (run_group req i) * window + c in
        history_req L ! r = req ! i \<and> history_pos L ! r = first_pos_of req pos i - int window + int c
        \<and> history_valid L ! r = (0 \<le> first_pos_of req pos i - int window + int c
           \<and> (case floor of None \<Rightarrow> True | Some fl \<Rightarrow> fl ! i \<le> first_pos_of req pos i - int window + int c))"
    if i: "i < length req" and c: "c < window" for i c
  proof -
    define r where "r = nat (run_group req i) * window + c"
    have "nat (run_group req i) * window + c < nat (run_group req i) * window + window" using c by simp
    also have "\<dots> \<le> groups * window"
      using mult_le_mono1[of "Suc (nat (run_group req i))" groups window] lt[OF i] by simp
    finally have r: "r < groups * window" "r div window = nat (run_group req i)" "r mod window = c"
      using c by (simp_all add: r_def)
    show ?thesis unfolding Let_def r_def[symmetric] using r cells[OF i]
      by (cases floor) (auto simp: L)
  qed
  have ind: "indices L = map (\<lambda>i. map (\<lambda>c. i32 (if visible pos floor i c
        then (if pos ! i - int c < first_pos_of req pos i
              then run_group req i * int window + (pos ! i - int c - (first_pos_of req pos i - int window))
              else int (groups * window) + run_first req i + (pos ! i - int c) - first_pos_of req pos i)
        else -1)) [0..<window]) [0..<length req]"
    unfolding L len by (simp add: visible_def run_group_def run_first_def)
  have "layout_fields groups req pos window cap floor L"
    unfolding layout_fields_def
    by (intro conjI ind allI impI len lt hist) (use n len in \<open>auto simp: L run_last_def\<close>)
  then show thesis by (rule that)
qed

text \<open>The first query of a run, and the position it has.\<close>

lemma first_pos_props:
  assumes "window_batch req pos floor" "i < length req"
  obtains f where "f \<le> i" "run_first req i = int f" "run_group req f = run_group req i"
    "first_pos_of req pos i = pos ! f" "pos ! i = pos ! f + int (i - f)"
proof -
  obtain f where f: "f \<le> i" "run_first req i = int f" "run_group req f = run_group req i"
    using run_first_props[OF assms(2)] by blast
  have "pos ! i = pos ! f + int (i - f)" by (rule run_pos(1)[OF assms(1) f(3,1) assms(2)])
  moreover from this have "first_pos_of req pos i = pos ! f"
    using f(1,2) by (simp add: first_pos_of_def of_nat_diff)
  ultimately show thesis using that f by blast
qed

lemma window_old_row:
  assumes "window_layout req pos window cap floor ng = Inr L" "window_batch req pos floor" "wl_size L < 2 ^ 31"
    and "i < length req" "c < window" "visible pos floor i c" "pos ! i - int c < first_pos_of req pos i"
  shows "0 \<le> indices L ! i ! c \<and> indices L ! i ! c < int (length (history_loc L))
     \<and> row_source L (indices L ! i ! c) = (req ! i, pos ! i - int c)
     \<and> history_valid L ! nat (indices L ! i ! c)"
proof -
  obtain groups where F: "layout_fields groups req pos window cap floor L"
    by (rule window_layout_fields[OF assms(1,2)])
  note len = layout_fieldsD(1)[OF F] and wl = layout_fieldsD(3,4)[OF F] and loc = layout_fieldsD(5)[OF F]
    and size = layout_fieldsD(6)[OF F] and wloc = layout_fieldsD(7)[OF F] and ind = layout_fieldsD(8)[OF F]
    and lt = layout_fieldsD(9)[OF F, rule_format] and hist = layout_fieldsD(10)[OF F, rule_format]
  obtain f where f: "f \<le> i" "first_pos_of req pos i = pos ! f" "pos ! i = pos ! f + int (i - f)"
    by (rule first_pos_props[OF assms(2,4)])
  define d where "d = nat (pos ! i - int c - (first_pos_of req pos i - int window))"
  have dw: "d < window" and dint: "int d = pos ! i - int c - (first_pos_of req pos i - int window)"
    using assms(5,7) f unfolding d_def by linarith+
  define r where "r = nat (run_group req i) * window + d"
  have g0: "int (nat (run_group req i)) = run_group req i" using run_group_nonneg[OF assms(4)] by simp
  have rlt: "r < groups * window"
    using mult_le_mono1[of "Suc (nat (run_group req i))" groups window] lt[OF assms(4)] dw
    by (simp add: r_def)
  have "run_group req i * int window + (pos ! i - int c - (first_pos_of req pos i - int window)) = int r"
    unfolding r_def of_nat_add of_nat_mult g0 dint ..
  moreover have "i32 (int r) = int r"
  proof (rule i32_small)
    have "int r < int (groups * window)" using rlt by (simp only: of_nat_less_iff)
    then show "int r < 2 ^ 31" using size assms(3) by linarith
  qed simp
  ultimately have ix: "indices L ! i ! c = int r" using ind assms(4-7) by simp
  have "history_req L ! r = req ! i" "history_pos L ! r = pos ! i - int c" "history_valid L ! r"
    using hist[OF assms(4) dw] dint assms(6) unfolding Let_def r_def[symmetric] visible_def
    by (auto split: option.splits)
  moreover have "int r < int (length (history_loc L))" using rlt loc by (simp del: of_nat_mult)
  ultimately show ?thesis using ix by (simp add: row_source_def)
qed

lemma window_new_row:
  assumes "window_layout req pos window cap floor ng = Inr L" "window_batch req pos floor" "wl_size L < 2 ^ 31"
    and "i < length req" "c < window" "visible pos floor i c" "\<not> pos ! i - int c < first_pos_of req pos i"
  obtains j where "j \<le> i" "indices L ! i ! c = int (length (history_loc L) + j)" "req ! j = req ! i"
    "pos ! j = pos ! i - int c" "write_loc L ! j = indices L ! i ! c"
proof -
  obtain groups where F: "layout_fields groups req pos window cap floor L"
    by (rule window_layout_fields[OF assms(1,2)])
  note len = layout_fieldsD(1)[OF F] and wl = layout_fieldsD(3,4)[OF F] and loc = layout_fieldsD(5)[OF F]
    and size = layout_fieldsD(6)[OF F] and wloc = layout_fieldsD(7)[OF F] and ind = layout_fieldsD(8)[OF F]
    and lt = layout_fieldsD(9)[OF F, rule_format] and hist = layout_fieldsD(10)[OF F, rule_format]
  obtain f where f: "f \<le> i" "run_first req i = int f" "run_group req f = run_group req i"
      "first_pos_of req pos i = pos ! f" "pos ! i = pos ! f + int (i - f)"
    by (rule first_pos_props[OF assms(2,4)])
  have ci: "c \<le> i - f" using assms(7) f by linarith
  define j where "j = i - c"
  have j: "f \<le> j" "j \<le> i" "int j = int i - int c" using ci f(1) by (auto simp: j_def)
  have "run_group req f \<le> run_group req j" "run_group req j \<le> run_group req i"
    using j assms(4) by (auto intro!: run_group_mono)
  then have g: "run_group req j = run_group req i" using f(3) by simp
  have rj: "req ! j = req ! i" by (rule run_group_req[OF g]) (use j assms(4) in auto)
  have pj: "pos ! j = pos ! i - int c"
    using run_pos(1)[OF assms(2) g j(2) assms(4)] j by (simp add: of_nat_diff)
  have exp: "int (groups * window) + run_first req i + (pos ! i - int c) - first_pos_of req pos i = int (groups * window + j)"
    using f j by (simp add: of_nat_diff)
  have i32: "i32 (int (groups * window + j)) = int (groups * window + j)"
  proof (rule i32_small)
    show "- 1 \<le> int (groups * window + j)" by linarith
    show "int (groups * window + j) < 2 ^ 31" using j(2) assms(3,4) size by linarith
  qed
  have "indices L ! i ! c = i32 (int (groups * window) + run_first req i + (pos ! i - int c) - first_pos_of req pos i)"
    using ind assms(4-7) by simp
  then have ix: "indices L ! i ! c = int (groups * window + j)" by (simp only: exp i32)
  have "write_loc L ! j = indices L ! i ! c" using wloc ix i32 j(2) assms(4) by simp
  then show thesis using that[of j] j(2) ix rj pj loc by simp
qed

text \<open>C6. Window attention reads the right keys: for every query and every look-back inside the
  window, the index is \<open>-1\<close> exactly when the position is before the sequence or below the
  floor; otherwise it is a workspace row that is filled from the same request at exactly that
  position, either a valid history row or the row another query of the batch writes.\<close>

theorem window_indices_resolve:
  assumes "window_layout req pos window cap floor ng = Inr L" "window_batch req pos floor" "wl_size L < 2 ^ 31"
    and "i < length req" "c < window"
  shows "if visible pos floor i c
     then row_source L (indices L ! i ! c) = (req ! i, pos ! i - int c)
        \<and> 0 \<le> indices L ! i ! c \<and> indices L ! i ! c < wl_size L
        \<and> (if indices L ! i ! c < int (length (history_loc L))
           then history_valid L ! nat (indices L ! i ! c)
           else \<exists>j\<le>i. write_loc L ! j = indices L ! i ! c)
     else indices L ! i ! c = -1"
proof (cases "visible pos floor i c")
  case True
  obtain groups where F: "layout_fields groups req pos window cap floor L"
    by (rule window_layout_fields[OF assms(1,2)])
  note len = layout_fieldsD(1)[OF F] and wl = layout_fieldsD(3,4)[OF F] and loc = layout_fieldsD(5)[OF F]
    and size = layout_fieldsD(6)[OF F] and wloc = layout_fieldsD(7)[OF F] and ind = layout_fieldsD(8)[OF F]
    and lt = layout_fieldsD(9)[OF F, rule_format] and hist = layout_fieldsD(10)[OF F, rule_format]
  show ?thesis
  proof (cases "pos ! i - int c < first_pos_of req pos i")
    case old: True
    then show ?thesis using window_old_row[OF assms True old] True loc size by auto
  next
    case False
    obtain j where j: "j \<le> i" "indices L ! i ! c = int (length (history_loc L) + j)" "req ! j = req ! i"
      "pos ! j = pos ! i - int c" "write_loc L ! j = indices L ! i ! c"
      using window_new_row[OF assms True False] by blast
    have src: "row_source L (int (length (history_loc L) + j)) = (wl_req L ! j, wl_pos L ! j)"
      by (simp add: row_source_def Let_def del: of_nat_add)
    have "indices L ! i ! c < wl_size L" using j(1,2) loc size assms(4) by simp
    then show ?thesis using True j src wl by (auto simp del: of_nat_add)
  qed
next
  case False
  obtain groups where F: "layout_fields groups req pos window cap floor L"
    by (rule window_layout_fields[OF assms(1,2)])
  show ?thesis using layout_fieldsD(8)[OF F] False assms(4,5) i32_small[of "-1"] by simp
qed

theorem window_indices_resolve_witness:
  "\<exists>L. window_layout [4, 4, 9] [6, 7, 0] 3 2 None None = Inr L
     \<and> row_source L (indices L ! 1 ! 2) = (4, 5) \<and> row_source L (indices L ! 1 ! 1) = (4, 6)
     \<and> indices L ! 2 ! 1 = -1"
proof -
  obtain L where L: "window_layout [4, 4, 9] [6, 7, 0] 3 2 None None = Inr L" and sz: "wl_size L = 12"
    by (simp add: window_layout_def window_groups_def first_row_offsets_def run_starts_def run_ends_def
        cumsum_def cummax_def cummin_def scatter_def ensure_def Let_def build_window_def upt_rec)
  have wb: "window_batch [4, 4, 9] [6, 7, 0] None"
    by (auto simp: window_batch_def less_Suc_eq numeral_3_eq_3)
  note res = window_indices_resolve[OF L wb]
  have "row_source L (indices L ! 1 ! 2) = (4, 5)" using res[of 1 2] sz by (simp add: visible_def)
  moreover have "row_source L (indices L ! 1 ! 1) = (4, 6)" using res[of 1 1] sz by (simp add: visible_def)
  moreover have "indices L ! 2 ! 1 = -1" using res[of 2 1] sz by (simp add: visible_def)
  ultimately show ?thesis using L by blast
qed

end
