(* ===== verification/RequestWindow.thy ===== *)
theory RequestWindow
  imports PagedTokens WindowLayout
begin

text \<open>
  The request-owned sliding window of \<open>sglang-overlay/dsv41_request_window.py\<close>
  (\<open>class RequestWindow\<close>): every request slot owns a ring of \<open>capacity\<close> token rows per
  layer, tagged with the position each row holds.  \<open>buffer\<close> assembles the history part of a
  workspace from the rings (and refuses when a tag is not the position asked for), \<open>commit\<close>
  writes the batch's rows back.  \<open>pool_factory\<close> and the capture flags are arguments.
\<close>

section \<open>State and operations\<close>

record rwin =
  rw_capacity :: nat
  rw_page_size :: nat
  rw_num_slots :: nat
  rw_state :: "paged list"
  rw_kv_layout :: kv_layout
  rw_tags :: "int list list"
  rw_workspace :: "(int \<times> paged) option"
  rw_layout :: "(nat \<times> window_layout_rec) option"
  rw_prepared :: "(nat \<times> bool) option"

definition rw_rows :: "rwin \<Rightarrow> nat" where
  "rw_rows w = rw_num_slots w * rw_capacity w"

definition zero_row :: "rwin \<Rightarrow> int" where "zero_row w = int (rw_rows w)"

definition sink_row :: "rwin \<Rightarrow> int" where "sink_row w = int (rw_rows w) + 1"

type_synonym pool_factory = "int \<Rightarrow> nat \<Rightarrow> paged list"

definition ensure_workspace :: "pool_factory \<Rightarrow> bool \<Rightarrow> int \<Rightarrow> rwin \<Rightarrow> rwin res" where
  "ensure_workspace pf capturing rows w =
     (if (\<exists>ws. rw_workspace w = Some ws \<and> rows \<le> fst ws) then Inr w
      else ensure (\<not> capturing) AssertionError
        (let ps = int (rw_page_size w); sz = ((rows + ps - 1) div ps) * ps
         in res_map (\<lambda>b. w\<lparr>rw_workspace := Some (sz, b)\<rparr>) (py_get (pf sz 1) 0)))"

definition rw_init ::
    "pool_factory \<Rightarrow> bool \<Rightarrow> nat \<Rightarrow> nat \<Rightarrow> nat \<Rightarrow> nat \<Rightarrow> kv_layout \<Rightarrow> int option \<Rightarrow> rwin res" where
  "rw_init pf capturing num_slots layers page_size capacity l workspace_rows =
     (let cap = (capacity + page_size - 1) div page_size * page_size;
          rows = num_slots * cap;
          w = \<lparr>rw_capacity = cap, rw_page_size = page_size, rw_num_slots = num_slots,
               rw_state = pf (int (rows + page_size)) layers, rw_kv_layout = l,
               rw_tags = replicate layers (replicate (rows + page_size) (-1)),
               rw_workspace = None, rw_layout = None, rw_prepared = None\<rparr>
      in case workspace_rows of
           None \<Rightarrow> Inr w
         | Some r \<Rightarrow> if r = 0 then Inr w else ensure_workspace pf capturing r w)"

text \<open>\<open>xs[idx] = vals\<close> on one row of tags.\<close>

definition put_ints :: "int list \<Rightarrow> int list \<Rightarrow> int list \<Rightarrow> int list res" where
  "put_ints xs idx vals =
     ensure (\<forall>i\<in>set idx. - int (length xs) \<le> i \<and> i < int (length xs)) IndexError
       (Inr (fold (\<lambda>(i, v) b. b[norm_idx (length xs) i := v]) (zip idx vals) xs))"

definition slot_rows :: "rwin \<Rightarrow> int list \<Rightarrow> int list" where
  "slot_rows w slots = concat (map (\<lambda>s. map (\<lambda>c. s * int (rw_capacity w) + int c) [0..<rw_capacity w]) slots)"

definition reset :: "int list \<Rightarrow> rwin \<Rightarrow> rwin res" where
  "reset slots w =
     (let loc = slot_rows w slots
      in res_map (\<lambda>tags. w\<lparr>rw_tags := tags, rw_prepared := None\<rparr>)
           (res_list (\<lambda>tg. put_ints tg loc (replicate (length loc) (-1))) (rw_tags w)))"

text \<open>A layout is an object: \<open>id\<close> is its identity.\<close>

definition activate :: "pool_factory \<Rightarrow> bool \<Rightarrow> nat \<times> window_layout_rec \<Rightarrow> rwin \<Rightarrow> rwin res" where
  "activate pf capturing lay w =
     (if map_option fst (rw_layout w) = Some (fst lay) then Inr w
      else let w' = w\<lparr>rw_layout := Some lay, rw_prepared := None\<rparr>
           in case rw_workspace w' of
                None \<Rightarrow> ensure_workspace pf capturing (wl_size (snd lay)) w'
              | Some ws \<Rightarrow> ensure (wl_size (snd lay) \<le> fst ws) RuntimeError (Inr w'))"

definition ring_row :: "rwin \<Rightarrow> int \<Rightarrow> int \<Rightarrow> int" where
  "ring_row w req pos = req * int (rw_capacity w) + pos mod int (rw_capacity w)"

definition initialize_dummy_history :: "rwin \<Rightarrow> rwin res" where
  "initialize_dummy_history w =
     (case rw_layout w of None \<Rightarrow> Inl AttributeError
      | Some (_, L) \<Rightarrow>
          (let loc = map2 (ring_row w) (history_req L) (history_pos L);
               st = map (map (\<lambda>p. replicate (length p) 0)) (rw_state w)
           in res_map (\<lambda>tags. w\<lparr>rw_tags := tags, rw_state := st, rw_prepared := None\<rparr>)
                (res_list (\<lambda>tg. put_ints (replicate (length tg) (-1)) loc (history_pos L)) (rw_tags w))))"

definition history_src :: "window_layout_rec \<Rightarrow> rwin \<Rightarrow> int list" where
  "history_src L w =
     map (\<lambda>r. if history_valid L ! r then ring_row w (history_req L ! r) (history_pos L ! r) else zero_row w)
       [0..<length (history_valid L)]"

definition check_tags :: "nat \<Rightarrow> window_layout_rec \<Rightarrow> rwin \<Rightarrow> unit res" where
  "check_tags layer L w =
     res_bind (py_get (rw_tags w) (int layer)) (\<lambda>tg.
     res_bind (res_list (py_get tg) (history_src L w)) (\<lambda>vals.
       ensure (\<forall>r<length vals. history_valid L ! r \<longrightarrow> vals ! r = history_pos L ! r) RuntimeError (Inr ())))"

definition buffer :: "bool \<Rightarrow> nat \<Rightarrow> rwin \<Rightarrow> (paged \<times> rwin) res" where
  "buffer in_capture layer w =
     (if rw_prepared w = Some (layer, in_capture) then
        (case rw_workspace w of None \<Rightarrow> Inl AttributeError | Some ws \<Rightarrow> Inr (snd ws, w))
      else case rw_layout w of None \<Rightarrow> Inl RuntimeError
      | Some (_, L) \<Rightarrow>
          res_bind (if in_capture then Inr () else check_tags layer L w) (\<lambda>_.
          res_bind (py_get (rw_state w) (int layer)) (\<lambda>kv.
          case rw_workspace w of None \<Rightarrow> Inl AttributeError
          | Some ws \<Rightarrow> res_map (\<lambda>b. (b, w\<lparr>rw_workspace := Some (fst ws, b), rw_prepared := Some (layer, in_capture)\<rparr>))
              (copy_packed_tokens kv (snd ws) (history_src L w) (history_loc L)
                 (int (rw_page_size w)) (rw_kv_layout w)))))"

definition commit_dst :: "window_layout_rec \<Rightarrow> rwin \<Rightarrow> int list" where
  "commit_dst L w =
     map (\<lambda>i. if commit_mask L ! i then ring_row w (wl_req L ! i) (wl_pos L ! i) else sink_row w)
       [0..<length (commit_mask L)]"

definition commit :: "bool \<Rightarrow> nat \<Rightarrow> rwin \<Rightarrow> rwin res" where
  "commit in_capture layer w =
     (case rw_layout w of None \<Rightarrow> Inl AttributeError
      | Some (_, L) \<Rightarrow>
          res_bind (buffer in_capture layer w) (\<lambda>(wb, w1).
          res_bind (py_get (rw_state w1) (int layer)) (\<lambda>kv.
          res_bind (copy_packed_tokens wb kv (write_loc L) (commit_dst L w) (int (rw_page_size w)) (rw_kv_layout w)) (\<lambda>kv'.
          res_bind (py_get (rw_tags w1) (int layer)) (\<lambda>tg.
          res_map (\<lambda>tg'. w1\<lparr>rw_state := (rw_state w1)[layer := kv'], rw_tags := (rw_tags w1)[layer := tg']\<rparr>)
            (put_ints tg (commit_dst L w) (wl_pos L)))))))"

section \<open>The ring invariant\<close>

text \<open>\<open>kv layer req pos\<close> is the token the layer has for that position.\<close>

type_synonym kv_spec = "nat \<Rightarrow> int \<Rightarrow> int \<Rightarrow> int list \<times> int list"

definition rw_shape :: "rwin \<Rightarrow> bool" where
  "rw_shape w \<longleftrightarrow> 0 < rw_capacity w \<and> 2 \<le> rw_page_size w
     \<and> length (rw_tags w) = length (rw_state w)
     \<and> (\<forall>tg\<in>set (rw_tags w). length tg = rw_rows w + rw_page_size w)
     \<and> (\<forall>b\<in>set (rw_state w). pages_fit (rw_page_size w) (rw_kv_layout w) b (rw_rows w + rw_page_size w))"

text \<open>A row whose tag is the position asked for holds that position's token, for every
  position outside \<open>excl\<close> (the positions a batch is about to rewrite).\<close>

definition ring_inv :: "(int \<times> int) set \<Rightarrow> kv_spec \<Rightarrow> nat \<Rightarrow> rwin \<Rightarrow> bool" where
  "ring_inv excl kv layer w \<longleftrightarrow>
     (\<forall>s p. 0 \<le> s \<longrightarrow> s < int (rw_num_slots w) \<longrightarrow> 0 \<le> p \<longrightarrow> (s, p) \<notin> excl \<longrightarrow>
        rw_tags w ! layer ! nat (ring_row w s p) = p \<longrightarrow>
        tok_get (rw_page_size w) (rw_kv_layout w) (rw_state w ! layer) (nat (ring_row w s p)) = kv layer s p)"

lemma ring_row_bounds:
  assumes "0 \<le> s" "s < int (rw_num_slots w)" "0 < rw_capacity w"
  shows "0 \<le> ring_row w s p" "nat (ring_row w s p) < rw_rows w"
proof -
  let ?c = "int (rw_capacity w)"
  have m: "0 \<le> p mod ?c" "p mod ?c < ?c" using assms(3) by simp_all
  then show "0 \<le> ring_row w s p" using assms(1) by (simp add: ring_row_def)
  have "s * ?c + p mod ?c < (s + 1) * ?c" using m by (simp add: distrib_right)
  also have "\<dots> \<le> int (rw_num_slots w) * ?c" using assms(2) by (intro mult_right_mono) auto
  finally show "nat (ring_row w s p) < rw_rows w"
    using \<open>0 \<le> ring_row w s p\<close> by (simp add: ring_row_def rw_rows_def nat_less_iff)
qed

lemma ring_row_inj:
  assumes "ring_row w s p = ring_row w s' p'" "0 < rw_capacity w"
  shows "s = s'" "p mod int (rw_capacity w) = p' mod int (rw_capacity w)"
proof -
  let ?c = "int (rw_capacity w)"
  have "(s * ?c + p mod ?c) div ?c = s" "(s' * ?c + p' mod ?c) div ?c = s'" using assms(2) by simp_all
  then show "s = s'" using assms(1) unfolding ring_row_def by metis
  then show "p mod ?c = p' mod ?c" using assms(1) by (simp add: ring_row_def)
qed

text \<open>A window with an activated layout whose requests are slots of the window.\<close>

definition rw_active :: "rwin \<Rightarrow> nat \<Rightarrow> window_layout_rec \<Rightarrow> bool" where
  "rw_active w i L \<longleftrightarrow> rw_layout w = Some (i, L)
     \<and> (\<exists>sz b. rw_workspace w = Some (sz, b) \<and> wl_size L \<le> sz
          \<and> pages_fit (rw_page_size w) (rw_kv_layout w) b (nat sz))
     \<and> (\<forall>r\<in>set (wl_req L). 0 \<le> r \<and> r < int (rw_num_slots w))
     \<and> (\<forall>r<length (history_valid L). history_valid L ! r \<longrightarrow>
          0 \<le> history_pos L ! r \<and> 0 \<le> history_req L ! r \<and> history_req L ! r < int (rw_num_slots w))"

lemma history_src_bounds:
  assumes "rw_shape w" "rw_active w lid L" "r < length (history_valid L)"
  shows "0 \<le> history_src L w ! r" "nat (history_src L w ! r) < rw_rows w + rw_page_size w"
proof -
  have "0 < rw_capacity w" "2 \<le> rw_page_size w" using assms(1) by (simp_all add: rw_shape_def)
  moreover have "history_valid L ! r \<Longrightarrow> 0 \<le> history_req L ! r \<and> history_req L ! r < int (rw_num_slots w)"
    using assms(2,3) unfolding rw_active_def by blast
  ultimately show "0 \<le> history_src L w ! r" "nat (history_src L w ! r) < rw_rows w + rw_page_size w"
    using assms(3) ring_row_bounds[of "history_req L ! r" w "history_pos L ! r"]
    by (cases "history_valid L ! r"; simp add: history_src_def zero_row_def trans_less_add1)+
qed

lemma check_tags_ok:
  assumes "check_tags layer L w = Inr ()" "rw_shape w" "rw_active w lid L" "layer < length (rw_state w)"
    and "r < length (history_valid L)" "history_valid L ! r"
  shows "rw_tags w ! layer ! nat (history_src L w ! r) = history_pos L ! r"
proof -
  obtain tg vals where tg: "py_get (rw_tags w) (int layer) = Inr tg"
    and vals: "res_list (py_get tg) (history_src L w) = Inr vals"
    and ok: "\<forall>r<length vals. history_valid L ! r \<longrightarrow> vals ! r = history_pos L ! r"
    using assms(1) by (auto simp: check_tags_def res_bind_Inr ensure_Inr)
  have lv: "length vals = length (history_valid L)" using vals by (simp add: res_list_Inr history_src_def)
  have "py_get tg (history_src L w ! r) = Inr (vals ! r)"
    using vals assms(5) by (simp add: res_list_Inr history_src_def)
  moreover have "tg = rw_tags w ! layer" using tg by (simp add: py_get_Inr_nonneg)
  ultimately show ?thesis
    using ok lv assms(5,6) history_src_bounds(1)[OF assms(2,3,5)] by (simp add: py_get_Inr_nonneg)
qed

lemma buffer_copy:
  assumes "rw_shape w" "rw_active w lid L" "layer < length (rw_state w)"
    and "window_layout req pos window cap floor ng = Inr L" "window_batch req pos floor"
    and "rw_prepared w \<noteq> Some (layer, False)" "buffer False layer w = Inr (b, w')"
    and "r < length (history_valid L)"
  shows "tok_get (rw_page_size w) (rw_kv_layout w) b r
       = tok_get (rw_page_size w) (rw_kv_layout w) (rw_state w ! layer) (nat (history_src L w ! r))"
    and "check_tags layer L w = Inr ()"
proof -
  let ?ps = "rw_page_size w" and ?l = "rw_kv_layout w"
  obtain groups where F: "layout_fields groups req pos window cap floor L"
    by (rule window_layout_fields[OF assms(4,5)])
  have h: "length (history_valid L) = groups * window" and loc: "history_loc L = map int [0..<groups * window]"
    and sz: "wl_size L = int (groups * window + length req)"
    using layout_fieldsD(14,5,6)[OF F] by simp_all
  obtain ws where ws: "rw_workspace w = Some ws" "wl_size L \<le> fst ws" "pages_fit ?ps ?l (snd ws) (nat (fst ws))"
    and lay: "rw_layout w = Some (lid, L)"
    using assms(2) unfolding rw_active_def by fastforce
  obtain kv where kv: "py_get (rw_state w) (int layer) = Inr kv"
    and copy: "copy_packed_tokens kv (snd ws) (history_src L w) (history_loc L) (int ?ps) ?l = Inr b"
    and ct: "check_tags layer L w = Inr ()"
    using assms(6,7) ws(1) lay by (auto simp: buffer_def res_bind_Inr res_map_Inr)
  show "check_tags layer L w = Inr ()" by (rule ct)
  have kv': "kv = rw_state w ! layer" using kv by (simp add: py_get_Inr_nonneg)
  then have fit: "pages_fit ?ps ?l kv (rw_rows w + ?ps)" using assms(1,3) by (simp add: rw_shape_def)
  define sr where "sr = map (\<lambda>r. nat (history_src L w ! r)) [0..<groups * window]"
  have lsr: "length sr = length [0..<groups * window]" by (simp add: sr_def)
  have src: "history_src L w = map int sr"
    using history_src_bounds(1)[OF assms(1,2)] h
    by (intro nth_equalityI) (auto simp: sr_def history_src_def[of L w, THEN arg_cong[of _ _ length]])
  have isb: "\<forall>i\<in>set sr. i < rw_rows w + ?ps"
    using history_src_bounds(2)[OF assms(1,2)] h by (auto simp: sr_def)
  have n: "groups * window \<le> nat (fst ws)" using ws(2) sz by linarith
  then have jsb: "\<forall>j\<in>set [0..<groups * window]. j < nat (fst ws)" by auto
  have b: "b = copy_all (tok_get ?ps ?l) (tok_put ?ps ?l) kv (zip sr [0..<groups * window]) (snd ws)"
    using copy copy_packed_eq[OF fit ws(3) lsr isb jsb] unfolding src loc by simp
  have r: "r < groups * window" using assms(8) h by simp
  have "tok_get ?ps ?l b r = tok_get ?ps ?l kv (sr ! r)" unfolding b
  proof (rule packed.copy_all_own[OF ws(3)])
    show "r < nat (fst ws)" using r n by simp
    show "(sr ! r, r) \<in> set (zip sr [0..<groups * window])" using r lsr by (force simp: set_zip)
    show "\<forall>(i', j')\<in>set (zip sr [0..<groups * window]). j' < nat (fst ws) \<and> (j' = r \<longrightarrow> i' = sr ! r)"
      using n by (auto simp: set_zip)
  qed
  then show "tok_get ?ps ?l b r = tok_get ?ps ?l (rw_state w ! layer) (nat (history_src L w ! r))"
    using r kv' by (simp add: sr_def)
qed

text \<open>C7. When \<open>buffer\<close> returns outside graph capture, every valid history row of the workspace
  holds exactly the token of the request and position the layout names for it: stale rings,
  rings of another request and overwritten positions are refused, never read.\<close>

theorem buffer_serves_history:
  assumes "rw_shape w" "rw_active w lid L" "layer < length (rw_state w)"
    and "window_layout req pos window cap floor ng = Inr L" "window_batch req pos floor"
    and "ring_inv {} kv layer w"
    and "rw_prepared w \<noteq> Some (layer, False)" "buffer False layer w = Inr (b, w')"
    and "r < length (history_valid L)" "history_valid L ! r"
  shows "tok_get (rw_page_size w) (rw_kv_layout w) b r = kv layer (history_req L ! r) (history_pos L ! r)"
proof -
  note copy = buffer_copy[OF assms(1-5,7-9)]
  have rng: "0 \<le> history_pos L ! r" "0 \<le> history_req L ! r" "history_req L ! r < int (rw_num_slots w)"
    using assms(2,9,10) unfolding rw_active_def by blast+
  have src: "history_src L w ! r = ring_row w (history_req L ! r) (history_pos L ! r)"
    using assms(9,10) by (simp add: history_src_def)
  have "rw_tags w ! layer ! nat (ring_row w (history_req L ! r) (history_pos L ! r)) = history_pos L ! r"
    using check_tags_ok[OF copy(2) assms(1-3,9,10)] src by simp
  then show ?thesis using copy(1) src assms(6) rng unfolding ring_inv_def by simp
qed

section \<open>Writing back\<close>

text \<open>What the caller guarantees of a batch: one run per request, non-negative positions.\<close>

definition batch_ok :: "int list \<Rightarrow> int list \<Rightarrow> bool" where
  "batch_ok req pos \<longleftrightarrow> (\<forall>p\<in>set pos. 0 \<le> p)
     \<and> (\<forall>i<length req. \<forall>j<length req. req ! i = req ! j \<longrightarrow> run_group req i = run_group req j)"

definition committed :: "int list \<Rightarrow> nat \<Rightarrow> nat \<Rightarrow> bool" where
  "committed req cap i \<longleftrightarrow> i < length req \<and> run_last req i - int i < int cap"

lemma same_run_pos:
  assumes "batch_ok req pos" "window_batch req pos floor" "i < length req" "j < length req" "req ! i = req ! j"
  shows "pos ! i - int i = pos ! j - int j"
proof -
  have g: "run_group req i = run_group req j" using assms(1,3-5) unfolding batch_ok_def by blast
  show ?thesis
  proof (cases "i \<le> j")
    case True
    then show ?thesis using run_pos(1)[OF assms(2) g True assms(4)] by (simp add: of_nat_diff)
  next
    case False
    then show ?thesis using run_pos(1)[OF assms(2) g[symmetric] _ assms(3)] by (simp add: of_nat_diff)
  qed
qed

text \<open>Committed queries of a batch land on different ring rows.\<close>

lemma committed_inj:
  assumes "batch_ok req pos" "window_batch req pos floor" "0 < rw_capacity w"
    and "committed req (rw_capacity w) i" "committed req (rw_capacity w) j"
    and "ring_row w (req ! i) (pos ! i) = ring_row w (req ! j) (pos ! j)"
  shows "i = j"
proof -
  let ?c = "int (rw_capacity w)"
  have len: "i < length req" "j < length req" using assms(4,5) by (simp_all add: committed_def)
  have r: "req ! i = req ! j" and m: "pos ! i mod ?c = pos ! j mod ?c"
    using ring_row_inj[OF assms(6,3)] by simp_all
  have g: "run_group req i = run_group req j" using assms(1) len r unfolding batch_ok_def by blast
  have "?c dvd pos ! i - pos ! j" using m by (simp add: mod_eq_dvd_iff)
  moreover have "pos ! i - pos ! j = int i - int j" using same_run_pos[OF assms(1,2) len r] by linarith
  ultimately have dvd: "?c dvd int i - int j" by simp
  have lt: "int j - int i < ?c" "int i - int j < ?c"
    using run_last_ge[OF g len] run_last_ge[OF g[symmetric] len(2,1)] assms(4,5)
    by (simp_all add: committed_def)
  have "\<not> 0 < int i - int j" using dvd lt(2) zdvd_not_zless by blast
  moreover have "\<not> 0 < int j - int i" using dvd lt(1) zdvd_not_zless dvd_diff_commute by metis
  ultimately show ?thesis by simp
qed

text \<open>Every query's ring row is written by a committed query of the same run.\<close>

lemma committed_covers:
  assumes "window_batch req pos floor" "0 < rw_capacity w" "i < length req"
  obtains j where "committed req (rw_capacity w) j" "i \<le> j"
    "ring_row w (req ! j) (pos ! j) = ring_row w (req ! i) (pos ! i)"
proof -
  let ?c = "rw_capacity w"
  obtain g where g: "i \<le> g" "g < length req" "run_last req i = int g" "run_group req g = run_group req i"
    using run_last_props[OF assms(3)] by blast
  define j where "j = i + (g - i) div ?c * ?c"
  have "(g - i) div ?c * ?c \<le> g - i" by (rule div_times_less_eq_dividend)
  then have jg: "j \<le> g" "i \<le> j" using g(1) unfolding j_def by linarith+
  have gj: "g - j < ?c"
  proof -
    have "g - j = (g - i) mod ?c" using g(1) by (simp add: j_def minus_div_mult_eq_mod[symmetric])
    then show ?thesis using assms(2) by simp
  qed
  have "run_group req i \<le> run_group req j" "run_group req j \<le> run_group req g"
    using jg g(2) by (auto intro!: run_group_mono)
  then have gr: "run_group req i = run_group req j" using g(4) by simp
  have jl: "j < length req" using jg g(2) by simp
  obtain g' where g': "j \<le> g'" "g' < length req" "run_last req j = int g'" "run_group req g' = run_group req j"
    using run_last_props[OF jl] by blast
  have "int g' \<le> int g" using run_last_ge[of req i g'] g' gr g(3) assms(3) by simp
  then have com: "committed req ?c j" using g'(3) gj jl jg by (simp add: committed_def)
  have "pos ! j = pos ! i + int (j - i)" by (rule run_pos(1)[OF assms(1) gr jg(2) jl])
  then have "pos ! j = pos ! i + int ((g - i) div ?c) * int ?c" by (simp add: j_def)
  then have "pos ! j mod int ?c = pos ! i mod int ?c" by simp
  moreover have "req ! i = req ! j" by (rule run_group_req[OF gr assms(3) jl])
  ultimately have "ring_row w (req ! j) (pos ! j) = ring_row w (req ! i) (pos ! i)" by (simp add: ring_row_def)
  then show thesis using that com jg(2) by blast
qed

lemma put_ints_eq:
  assumes "\<forall>i\<in>set idx. 0 \<le> i \<and> i < int (length xs)"
  shows "put_ints xs idx vals = Inr (fold (\<lambda>(i, v) b. b[nat i := v]) (zip idx vals) xs)"
proof -
  have "fold (\<lambda>(i, v) b. b[norm_idx (length xs) i := v]) (zip idx vals) xs
      = fold (\<lambda>(i, v) b. b[nat i := v]) (zip idx vals) xs"
    by (rule fold_cong) (use assms in \<open>auto simp: norm_idx_def dest!: set_zip_leftD\<close>)
  moreover have "\<forall>i\<in>set idx. - int (length xs) \<le> i \<and> i < int (length xs)" using assms by force
  ultimately show ?thesis by (simp add: put_ints_def)
qed

lemma put_ints_own:
  assumes "put_ints xs idx vals = Inr xs'" "\<forall>i\<in>set idx. 0 \<le> i \<and> i < int (length xs)"
    and "length idx = length vals" "k < length idx" "\<And>k'. k' < length idx \<Longrightarrow> idx ! k' = idx ! k \<Longrightarrow> k' = k"
  shows "xs' ! nat (idx ! k) = vals ! k"
proof -
  have xs': "xs' = fold (\<lambda>(i, v) b. b[nat i := v]) (zip idx vals) xs"
    using assms(1) put_ints_eq[OF assms(2)] by simp
  have nn: "0 \<le> idx ! j \<and> idx ! j < int (length xs)" if "j < length idx" for j using assms(2) that by simp
  show ?thesis unfolding xs'
  proof (rule fold_scatter_own)
    show "(idx ! k, vals ! k) \<in> set (zip idx vals)" using assms(3,4) by (auto simp: set_zip)
    show "nat (idx ! k) < length xs" using nn[OF assms(4)] by linarith
    show "\<forall>(j, w)\<in>set (zip idx vals). nat j = nat (idx ! k) \<longrightarrow> w = vals ! k"
    proof clarify
      fix j w assume "(j, w) \<in> set (zip idx vals)" and eq: "nat j = nat (idx ! k)"
      then obtain m where m: "m < length idx" "j = idx ! m" "w = vals ! m" by (auto simp: set_zip)
      then have "idx ! m = idx ! k" using eq nn[OF m(1)] nn[OF assms(4)] by (metis eq_nat_nat_iff)
      then show "w = vals ! k" using assms(5)[OF m(1)] m(3) by simp
    qed
  qed
qed

lemma put_ints_other:
  assumes "put_ints xs idx vals = Inr xs'" "\<forall>i\<in>set idx. 0 \<le> i \<and> i < int (length xs)"
    and "\<And>k. k < length idx \<Longrightarrow> nat (idx ! k) \<noteq> q"
  shows "xs' ! q = xs ! q"
proof -
  have "xs' = fold (\<lambda>(i, v) b. b[nat i := v]) (zip idx vals) xs"
    using assms(1) put_ints_eq[OF assms(2)] by simp
  moreover have "\<forall>(i, v)\<in>set (zip idx vals). nat i \<noteq> q" using assms(3) by (auto simp: set_zip)
  ultimately show ?thesis by (simp only: fold_scatter_other)
qed

text \<open>Before a commit: the workspace was prepared for this layer and holds the batch's tokens.\<close>

definition commit_ready :: "bool \<Rightarrow> kv_spec \<Rightarrow> nat \<Rightarrow> rwin \<Rightarrow> int list \<Rightarrow> int list \<Rightarrow> window_layout_rec \<Rightarrow> bool" where
  "commit_ready ic kv layer w req pos L \<longleftrightarrow> layer < length (rw_state w)
     \<and> rw_prepared w = Some (layer, ic) \<and> wl_size L < 2 ^ 31
     \<and> (\<forall>sz b. rw_workspace w = Some (sz, b) \<longrightarrow> (\<forall>i<length req.
          tok_get (rw_page_size w) (rw_kv_layout w) b (length (history_loc L) + i) = kv layer (req ! i) (pos ! i)))"

lemma commit_effect:
  assumes "rw_shape w" "rw_active w lid L" "commit_ready ic kv layer w req pos L"
    and "window_layout req pos window (int (rw_capacity w)) floor ng = Inr L" "window_batch req pos floor"
    and "batch_ok req pos"
  obtains w' where "commit ic layer w = Inr w'"
    "rw_capacity w' = rw_capacity w" "rw_page_size w' = rw_page_size w" "rw_num_slots w' = rw_num_slots w"
    "rw_kv_layout w' = rw_kv_layout w"
    "\<And>m. m \<noteq> layer \<Longrightarrow> rw_state w' ! m = rw_state w ! m \<and> rw_tags w' ! m = rw_tags w ! m"
    "\<And>i. committed req (rw_capacity w) i \<Longrightarrow> (let q = nat (ring_row w (req ! i) (pos ! i)) in
        rw_tags w' ! layer ! q = pos ! i
        \<and> tok_get (rw_page_size w) (rw_kv_layout w) (rw_state w' ! layer) q = kv layer (req ! i) (pos ! i))"
    "\<And>q. q < rw_rows w \<Longrightarrow> (\<And>i. committed req (rw_capacity w) i \<Longrightarrow> q \<noteq> nat (ring_row w (req ! i) (pos ! i))) \<Longrightarrow>
        rw_tags w' ! layer ! q = rw_tags w ! layer ! q
        \<and> tok_get (rw_page_size w) (rw_kv_layout w) (rw_state w' ! layer) q
          = tok_get (rw_page_size w) (rw_kv_layout w) (rw_state w ! layer) q"
proof -
  let ?ps = "rw_page_size w" and ?l = "rw_kv_layout w" and ?n = "length req" and ?cap = "rw_capacity w"
  have cap: "0 < ?cap" and ps2: "2 \<le> ?ps" using assms(1) by (simp_all add: rw_shape_def)
  have layer: "layer < length (rw_state w)" "layer < length (rw_tags w)"
    using assms(1,3) by (simp_all add: commit_ready_def rw_shape_def)
  obtain groups where F: "layout_fields groups req pos window (int ?cap) floor L"
    by (rule window_layout_fields[OF assms(4,5)])
  define h where "h = groups * window"
  note lf = layout_fieldsD[OF F, folded h_def]
  have wl: "wl_req L = req" "wl_pos L = pos" "length pos = ?n" "length (history_loc L) = h" "wl_size L = int (h + ?n)"
    using lf(1,3-6) by simp_all
  obtain sz wb where ws: "rw_workspace w = Some (sz, wb)" "wl_size L \<le> sz" "pages_fit ?ps ?l wb (nat sz)"
    and lay: "rw_layout w = Some (lid, L)" and reqs: "\<forall>r\<in>set req. 0 \<le> r \<and> r < int (rw_num_slots w)"
    using assms(2) wl(1) unfolding rw_active_def by blast
  let ?dst = "commit_dst L w"
  have cm: "commit_mask L = map (\<lambda>i. run_last req i - int i < int ?cap) [0..<?n]" by (rule lf(11))
  have ldst: "length ?dst = ?n" by (simp add: commit_dst_def cm)
  have dst: "?dst ! i = (if committed req ?cap i then ring_row w (req ! i) (pos ! i) else sink_row w)"
    if "i < ?n" for i using that by (simp add: commit_dst_def cm wl committed_def)
  have ring: "0 \<le> ring_row w (req ! i) p \<and> nat (ring_row w (req ! i) p) < rw_rows w" if "i < ?n" for i p
    using ring_row_bounds[OF _ _ cap, of "req ! i" p] reqs nth_mem[OF that] by blast
  have dstb: "0 \<le> ?dst ! i \<and> nat (?dst ! i) < rw_rows w + ?ps" if "i < ?n" for i
    using dst[OF that] ring[OF that] ps2 by (auto simp: sink_row_def nat_add_distrib trans_less_add1)
  have uniq: "k' = k" if "k < ?n" "committed req ?cap k" "k' < ?n" "?dst ! k' = ?dst ! k" for k k'
  proof -
    have ck: "committed req ?cap k'"
    proof (rule ccontr)
      assume "\<not> committed req ?cap k'"
      then have "sink_row w = ring_row w (req ! k) (pos ! k)" using that dst by simp
      then show False using ring[OF that(1), of "pos ! k"] by (auto simp: sink_row_def)
    qed
    have "ring_row w (req ! k') (pos ! k') = ring_row w (req ! k) (pos ! k)"
      using dst[OF that(1)] dst[OF that(3)] that(2,4) ck by simp
    then show ?thesis by (rule committed_inj[OF assms(6,5) cap ck that(2)])
  qed
  define dn where "dn = map (\<lambda>i. nat (?dst ! i)) [0..<?n]"
  have dn: "?dst = map int dn" "length dn = ?n" using ldst dstb by (auto simp: dn_def intro!: nth_equalityI)
  have dni: "dn ! i = nat (?dst ! i)" if "i < ?n" for i using that by (simp add: dn_def)
  have wloc: "write_loc L = map int [h..<h + ?n]"
  proof (rule nth_equalityI)
    show "length (write_loc L) = length (map int [h..<h + ?n])" using lf(7) by simp
    fix i assume "i < length (write_loc L)"
    then have i: "i < ?n" using lf(7) by simp
    have "i32 (int (h + i)) = int (h + i)"
      by (rule i32_small) (use i wl(5) assms(3) in \<open>auto simp: commit_ready_def\<close>)
    then show "write_loc L ! i = map int [h..<h + ?n] ! i" using lf(7) i by simp
  qed
  have n: "h + ?n \<le> nat sz" using ws(2) wl(5) by linarith
  define kvb where "kvb = rw_state w ! layer"
  have fit: "pages_fit ?ps ?l kvb (rw_rows w + ?ps)" using assms(1) layer by (simp add: rw_shape_def kvb_def)
  define kv' where "kv' = copy_all (tok_get ?ps ?l) (tok_put ?ps ?l) wb (zip [h..<h + ?n] dn) kvb"
  have sb: "\<forall>i\<in>set [h..<h + ?n]. i < nat sz" using n by auto
  have db: "\<forall>j\<in>set dn. j < rw_rows w + ?ps" using dstb by (auto simp: dn_def)
  have copy: "copy_packed_tokens wb kvb (write_loc L) ?dst (int ?ps) ?l = Inr kv'"
    unfolding wloc dn(1) kv'_def by (rule copy_packed_eq[OF ws(3) fit _ sb db]) (simp add: dn(2))
  have zb: "\<forall>(i', j')\<in>set (zip [h..<h + ?n] dn). j' < rw_rows w + ?ps" using db by (auto dest: set_zip_rightD)
  have tgl: "length (rw_tags w ! layer) = rw_rows w + ?ps" using assms(1) layer by (simp add: rw_shape_def)
  have idx: "\<forall>i\<in>set ?dst. 0 \<le> i \<and> i < int (length (rw_tags w ! layer))"
  proof
    fix x assume "x \<in> set ?dst"
    then obtain i where "i < ?n" "x = ?dst ! i" using ldst by (metis in_set_conv_nth)
    then show "0 \<le> x \<and> x < int (length (rw_tags w ! layer))" using dstb[of i] tgl by (auto simp: nat_less_iff)
  qed
  have lvals: "length ?dst = length pos" using ldst wl by simp
  obtain tg' where put: "put_ints (rw_tags w ! layer) ?dst pos = Inr tg'"
    using put_ints_eq[OF idx] by blast
  note tg_own = put_ints_own[OF put idx lvals] and tg_other = put_ints_other[OF put idx]
  define w' where "w' = w\<lparr>rw_state := (rw_state w)[layer := kv'], rw_tags := (rw_tags w)[layer := tg']\<rparr>"
  have com: "commit ic layer w = Inr w'"
    using assms(3) ws(1) lay layer copy put wl(2)
    by (simp add: commit_def buffer_def commit_ready_def py_get_nonneg kvb_def w'_def res_map_def)
  show thesis
  proof (rule that[OF com])
    fix i assume c: "committed req ?cap i"
    then have i: "i < ?n" by (simp add: committed_def)
    have di: "?dst ! i = ring_row w (req ! i) (pos ! i)" using dst[OF i] c by simp
    have "tg' ! nat (?dst ! i) = pos ! i" using tg_own[of i] uniq[OF i c] ldst i by simp
    moreover have "tok_get ?ps ?l kv' (nat (?dst ! i)) = tok_get ?ps ?l wb (h + i)"
      unfolding kv'_def
    proof (rule packed.copy_all_own[OF fit])
      show "nat (?dst ! i) < rw_rows w + ?ps" using dstb[OF i] by simp
      show "(h + i, nat (?dst ! i)) \<in> set (zip [h..<h + ?n] dn)"
        using i dn(2) dni[OF i] by (force simp: set_zip)
      show "\<forall>(i', j')\<in>set (zip [h..<h + ?n] dn). j' < rw_rows w + ?ps \<and> (j' = nat (?dst ! i) \<longrightarrow> i' = h + i)"
      proof clarify
        fix i' j' assume "(i', j') \<in> set (zip [h..<h + ?n] dn)"
        then obtain k where k: "k < ?n" "i' = h + k" "j' = nat (?dst ! k)"
          using dn(2) dni by (auto simp: set_zip)
        have "k = i" if "nat (?dst ! k) = nat (?dst ! i)"
          using that uniq[OF i c k(1)] dstb[OF k(1)] dstb[OF i] by (metis eq_nat_nat_iff)
        then show "j' < rw_rows w + ?ps \<and> (j' = nat (?dst ! i) \<longrightarrow> i' = h + i)"
          using k dstb[OF k(1)] by auto
      qed
    qed
    moreover have "tok_get ?ps ?l wb (h + i) = kv layer (req ! i) (pos ! i)"
      using assms(3) ws(1) i wl(4) by (simp add: commit_ready_def)
    ultimately show "let q = nat (ring_row w (req ! i) (pos ! i)) in rw_tags w' ! layer ! q = pos ! i
        \<and> tok_get ?ps ?l (rw_state w' ! layer) q = kv layer (req ! i) (pos ! i)"
      using layer di by (simp add: w'_def)
  next
    fix q assume q: "q < rw_rows w" and none: "\<And>i. committed req ?cap i \<Longrightarrow> q \<noteq> nat (ring_row w (req ! i) (pos ! i))"
    have ne: "nat (?dst ! k) \<noteq> q" if "k < ?n" for k
      using dst[OF that] none[of k] q by (auto simp: sink_row_def)
    have "tg' ! q = rw_tags w ! layer ! q" by (rule tg_other) (use ne ldst in simp)
    moreover have "q \<notin> snd ` set (zip [h..<h + ?n] dn)"
    proof
      assume "q \<in> snd ` set (zip [h..<h + ?n] dn)"
      then have "q \<in> set dn" by (auto dest: set_zip_rightD)
      then show False using ne dni dn(2) by (metis in_set_conv_nth)
    qed
    then have "tok_get ?ps ?l kv' q = tok_get ?ps ?l kvb q" unfolding kv'_def
      using packed.copy_all_other[OF fit _ zb] q by simp
    ultimately show "rw_tags w' ! layer ! q = rw_tags w ! layer ! q
        \<and> tok_get ?ps ?l (rw_state w' ! layer) q = tok_get ?ps ?l (rw_state w ! layer) q"
      using layer by (simp add: w'_def kvb_def)
  qed (simp_all add: w'_def)
qed

lemma ring_row_cong: "rw_capacity w' = rw_capacity w \<Longrightarrow> ring_row w' = ring_row w"
  by (simp add: ring_row_def fun_eq_iff)

text \<open>C8. \<open>commit\<close> returns, and afterwards the layer's rings serve every position again: the rows
  of the batch carry the new tokens (a rejected draft that is written over included), no row
  keeps a tag of a token it no longer holds, and the other layers are untouched.\<close>

theorem commit_restores_rings:
  assumes "rw_shape w" "rw_active w lid L" "commit_ready ic kv layer w req pos L"
    and "window_layout req pos window (int (rw_capacity w)) floor ng = Inr L" "window_batch req pos floor"
    and "batch_ok req pos"
    and "ring_inv (set (zip req pos)) kv layer w"
  shows "\<exists>w'. commit ic layer w = Inr w' \<and> ring_inv {} kv layer w'
     \<and> (\<forall>i. committed req (rw_capacity w) i \<longrightarrow> rw_tags w' ! layer ! nat (ring_row w (req ! i) (pos ! i)) = pos ! i)
     \<and> (\<forall>m. m \<noteq> layer \<longrightarrow> ring_inv {} kv m w \<longrightarrow> ring_inv {} kv m w')"
proof -
  obtain w' where com: "commit ic layer w = Inr w'"
    and same: "rw_capacity w' = rw_capacity w" "rw_page_size w' = rw_page_size w" "rw_num_slots w' = rw_num_slots w"
      "rw_kv_layout w' = rw_kv_layout w"
    and others: "\<And>m. m \<noteq> layer \<Longrightarrow> rw_state w' ! m = rw_state w ! m \<and> rw_tags w' ! m = rw_tags w ! m"
    and own: "\<And>i. committed req (rw_capacity w) i \<Longrightarrow> (let q = nat (ring_row w (req ! i) (pos ! i)) in
        rw_tags w' ! layer ! q = pos ! i
        \<and> tok_get (rw_page_size w) (rw_kv_layout w) (rw_state w' ! layer) q = kv layer (req ! i) (pos ! i))"
    and keep: "\<And>q. q < rw_rows w \<Longrightarrow> (\<And>i. committed req (rw_capacity w) i \<Longrightarrow> q \<noteq> nat (ring_row w (req ! i) (pos ! i))) \<Longrightarrow>
        rw_tags w' ! layer ! q = rw_tags w ! layer ! q
        \<and> tok_get (rw_page_size w) (rw_kv_layout w) (rw_state w' ! layer) q
          = tok_get (rw_page_size w) (rw_kv_layout w) (rw_state w ! layer) q"
    by (rule commit_effect[OF assms(1-6)]) blast
  have cap: "0 < rw_capacity w" using assms(1) by (simp add: rw_shape_def)
  have rr: "ring_row w' = ring_row w" by (rule ring_row_cong[OF same(1)])
  have reqs: "\<forall>r\<in>set req. 0 \<le> r \<and> r < int (rw_num_slots w)"
  proof -
    obtain groups where F: "layout_fields groups req pos window (int (rw_capacity w)) floor L"
      by (rule window_layout_fields[OF assms(4,5)])
    then show ?thesis using assms(2) layout_fieldsD(3)[OF F] unfolding rw_active_def by simp
  qed
  have inv: "tok_get (rw_page_size w) (rw_kv_layout w) (rw_state w' ! layer) (nat (ring_row w s p)) = kv layer s p"
    if s: "0 \<le> s" "s < int (rw_num_slots w)" and p: "0 \<le> p"
      and tag: "rw_tags w' ! layer ! nat (ring_row w s p) = p" for s p
  proof (cases "\<exists>i. committed req (rw_capacity w) i \<and> nat (ring_row w s p) = nat (ring_row w (req ! i) (pos ! i))")
    case True
    then obtain i where i: "committed req (rw_capacity w) i" "nat (ring_row w s p) = nat (ring_row w (req ! i) (pos ! i))"
      by blast
    then have "i < length req" by (simp add: committed_def)
    then have "0 \<le> req ! i \<and> req ! i < int (rw_num_slots w)" using reqs by simp
    then have "0 \<le> ring_row w (req ! i) (pos ! i)" using ring_row_bounds(1)[OF _ _ cap] by blast
    then have "ring_row w s p = ring_row w (req ! i) (pos ! i)"
      using i(2) ring_row_bounds(1)[OF s cap] by (metis eq_nat_nat_iff)
    then have "s = req ! i" using ring_row_inj(1)[OF _ cap] by blast
    moreover have "p = pos ! i" using own[OF i(1)] i(2) tag by (simp add: Let_def)
    ultimately show ?thesis using own[OF i(1)] by (simp add: Let_def)
  next
    case False
    have q: "nat (ring_row w s p) < rw_rows w" by (rule ring_row_bounds(2)[OF s cap])
    have k: "rw_tags w' ! layer ! nat (ring_row w s p) = rw_tags w ! layer ! nat (ring_row w s p)"
      "tok_get (rw_page_size w) (rw_kv_layout w) (rw_state w' ! layer) (nat (ring_row w s p))
        = tok_get (rw_page_size w) (rw_kv_layout w) (rw_state w ! layer) (nat (ring_row w s p))"
      using keep[OF q] False by blast+
    have "(s, p) \<notin> set (zip req pos)"
    proof
      assume "(s, p) \<in> set (zip req pos)"
      then obtain i where i: "i < length req" "s = req ! i" "p = pos ! i" by (auto simp: set_zip)
      obtain j where "committed req (rw_capacity w) j" "ring_row w (req ! j) (pos ! j) = ring_row w (req ! i) (pos ! i)"
        by (rule committed_covers[OF assms(5) cap i(1)])
      then show False using False i by auto
    qed
    then show ?thesis using assms(7) s p tag k unfolding ring_inv_def by simp
  qed
  have "ring_inv {} kv layer w'" unfolding ring_inv_def rr same using inv by blast
  moreover have "rw_tags w' ! layer ! nat (ring_row w (req ! i) (pos ! i)) = pos ! i"
    if "committed req (rw_capacity w) i" for i using own[OF that] by (simp add: Let_def)
  moreover have "ring_inv {} kv m w'" if "m \<noteq> layer" "ring_inv {} kv m w" for m
    using that others[OF that(1)] unfolding ring_inv_def rr same by simp
  ultimately show ?thesis using com by blast
qed

section \<open>A window of one slot\<close>

definition demo_page :: "int list" where "demo_page = replicate 768 0"

definition demo_layout :: window_layout_rec where
  "demo_layout = (case window_layout [0] [1] 1 2 None None of Inr L \<Rightarrow> L | Inl _ \<Rightarrow> undefined)"

definition demo_window :: rwin where
  "demo_window = \<lparr>rw_capacity = 2, rw_page_size = 2, rw_num_slots = 1,
     rw_state = [[demo_page, demo_page]], rw_kv_layout = V41_FP4, rw_tags = [[0, -1, -1, -1]],
     rw_workspace = Some (2, [demo_page]), rw_layout = Some (0, demo_layout), rw_prepared = None\<rparr>"

definition demo_kv :: kv_spec where
  "demo_kv layer r p = tok_get 2 V41_FP4 [demo_page, demo_page] 0"

lemma demo_layout_eq:
  "window_layout [0] [1] 1 2 None None = Inr demo_layout"
  "demo_layout = \<lparr>wl_req = [0], wl_pos = [1], write_loc = [1], indices = [[1]], lengths = [1],
     history_req = [0], history_pos = [0], history_loc = [0], history_valid = [True],
     commit_mask = [True], wl_size = 2\<rparr>"
  by (simp_all add: demo_layout_def window_layout_def window_groups_def first_row_offsets_def run_starts_def
      run_ends_def cumsum_def cummax_def cummin_def scatter_def ensure_def Let_def build_window_def i32_id)

lemma demo_page_length [simp]: "length demo_page = 768"
  by (simp add: demo_page_def)

lemma demo_fits: "pages_fit 2 V41_FP4 [demo_page, demo_page] 4" "pages_fit 2 V41_FP4 [demo_page] 2"
  by (auto simp: pages_fit_def page_bytes_def layout_defs)

lemma demo_shape: "rw_shape demo_window" "rw_active demo_window 0 demo_layout"
  using demo_fits
  by (auto simp: rw_shape_def rw_active_def demo_window_def rw_rows_def demo_layout_eq(2))

lemma demo_batch_ok: "window_batch [0] [1] None" "batch_ok [0] [1]"
  by (auto simp: window_batch_def batch_ok_def)

lemma demo_zero_row: "i < 4 \<Longrightarrow> tok_get 2 V41_FP4 [demo_page, demo_page] i = (replicate 256 0, replicate 32 0)"
proof -
  assume i: "i < 4"
  note fit = pages_fit_slot[OF demo_fits(1) i]
  have pg: "[demo_page, demo_page] ! (i div 2) = demo_page" using fit(1) by (auto simp: less_Suc_eq numeral_2_eq_2)
  show ?thesis using fit(3,4) unfolding tok_get_def read_row_def pg
    by (auto simp: demo_page_def layout_defs intro!: nth_equalityI)
qed

lemma demo_ring: "ring_inv {} demo_kv 0 demo_window"
  unfolding ring_inv_def
proof (intro allI impI)
  fix s p assume s: "0 \<le> s" "s < int (rw_num_slots demo_window)" and "0 \<le> (p::int)"
  have "nat (ring_row demo_window s p) < rw_rows demo_window"
    by (rule ring_row_bounds(2)[OF s]) (simp add: demo_window_def)
  then have "nat (ring_row demo_window s p) < 4" by (simp add: rw_rows_def demo_window_def)
  then show "tok_get (rw_page_size demo_window) (rw_kv_layout demo_window) (rw_state demo_window ! 0)
      (nat (ring_row demo_window s p)) = demo_kv 0 s p"
    by (simp add: demo_window_def demo_kv_def demo_zero_row)
qed

theorem buffer_serves_history_witness:
  "\<exists>b w'. buffer False 0 demo_window = Inr (b, w')
     \<and> tok_get 2 V41_FP4 b 0 = (replicate 256 0, replicate 32 0)"
proof -
  have copy: "copy_packed_tokens [demo_page, demo_page] [demo_page] (map int [0]) (map int [0]) (int 2) V41_FP4
      = Inr (copy_all (tok_get 2 V41_FP4) (tok_put 2 V41_FP4) [demo_page, demo_page] (zip [0] [0]) [demo_page])"
    by (rule copy_packed_eq[OF demo_fits]) auto
  have src: "history_src demo_layout demo_window = [0]"
    by (simp add: history_src_def demo_layout_eq(2) ring_row_def demo_window_def)
  obtain b w' where buf: "buffer False 0 demo_window = Inr (b, w')"
  proof -
    have sel: "rw_prepared demo_window = None" "rw_layout demo_window = Some (0, demo_layout)"
      "rw_state demo_window = [[demo_page, demo_page]]" "rw_workspace demo_window = Some (2, [demo_page])"
      "rw_tags demo_window = [[0, -1, -1, -1]]" "rw_page_size demo_window = 2" "rw_kv_layout demo_window = V41_FP4"
      by (simp_all add: demo_window_def)
    have "check_tags 0 demo_layout demo_window = Inr ()"
    proof -
      have "history_valid demo_layout = [True]" "history_pos demo_layout = [0]" by (simp_all add: demo_layout_eq(2))
      then show ?thesis by (simp add: check_tags_def src sel py_get_nonneg res_map_def)
    qed
    moreover have "history_loc demo_layout = [0]" by (simp add: demo_layout_eq(2))
    ultimately have "buffer False 0 demo_window = Inr (copy_all (tok_get 2 V41_FP4) (tok_put 2 V41_FP4)
        [demo_page, demo_page] (zip [0] [0]) [demo_page], demo_window\<lparr>rw_workspace := Some (2,
          copy_all (tok_get 2 V41_FP4) (tok_put 2 V41_FP4) [demo_page, demo_page] (zip [0] [0]) [demo_page]),
        rw_prepared := Some (0, False)\<rparr>)"
      using copy by (simp add: buffer_def src sel py_get_nonneg res_map_def)
    then show ?thesis by (rule that)
  qed
  have "tok_get (rw_page_size demo_window) (rw_kv_layout demo_window) b 0
      = demo_kv 0 (history_req demo_layout ! 0) (history_pos demo_layout ! 0)"
    by (rule buffer_serves_history[OF demo_shape _ demo_layout_eq(1) demo_batch_ok(1) demo_ring _ buf])
       (simp_all add: demo_window_def demo_layout_eq(2))
  then show ?thesis using buf by (simp add: demo_window_def demo_kv_def demo_zero_row)
qed

theorem commit_restores_rings_witness:
  "\<exists>w'. commit False 0 (demo_window\<lparr>rw_prepared := Some (0, False)\<rparr>) = Inr w' \<and> rw_tags w' ! 0 ! 1 = 1"
proof -
  let ?w = "demo_window\<lparr>rw_prepared := Some (0, False)\<rparr>"
  define kv where "kv = (\<lambda>(l::nat) (s::int) (p::int). tok_get 2 V41_FP4 [demo_page] 1)"
  have shape: "rw_shape ?w" "rw_active ?w 0 demo_layout"
    using demo_shape by (simp_all add: rw_shape_def rw_active_def rw_rows_def)
  have one: "tok_get 2 V41_FP4 [demo_page] 1 = (replicate 256 0, replicate 32 0)"
    using pages_fit_slot(3,4)[OF demo_fits(2), of 1]
    by (auto simp: tok_get_def read_row_def demo_page_def layout_defs intro!: nth_equalityI)
  have ready: "commit_ready False kv 0 ?w [0] [1] demo_layout"
    by (simp add: commit_ready_def demo_window_def demo_layout_eq(2) kv_def)
  have ring: "ring_inv (set (zip [0] [1])) kv 0 ?w"
  proof -
    have "kv 0 = demo_kv 0" by (simp add: fun_eq_iff kv_def demo_kv_def demo_zero_row one[unfolded One_nat_def])
    then show ?thesis using demo_ring by (simp add: ring_inv_def ring_row_def)
  qed
  have lay: "window_layout [0] [1] 1 (int (rw_capacity ?w)) None None = Inr demo_layout"
    using demo_layout_eq(1) by (simp add: demo_window_def)
  obtain w' where w': "commit False 0 ?w = Inr w'"
    and "\<forall>i. committed [0] (rw_capacity ?w) i \<longrightarrow> rw_tags w' ! 0 ! nat (ring_row ?w ([0] ! i) ([1] ! i)) = [1] ! i"
    using commit_restores_rings[OF shape ready lay demo_batch_ok ring] by blast
  moreover have "committed [0] (rw_capacity ?w) 0"
    using run_last_props[of 0 "[0]"] by (auto simp: committed_def demo_window_def)
  ultimately have "rw_tags w' ! 0 ! nat (ring_row ?w ([0] ! 0) ([1] ! 0)) = [1] ! 0" by blast
  then show ?thesis using w' by (simp add: ring_row_def demo_window_def)
qed

section \<open>Releasing slots\<close>

lemma put_ints_all:
  assumes "\<forall>i\<in>set idx. 0 \<le> i \<and> i < int (length xs)"
  obtains xs' where "put_ints xs idx (replicate (length idx) v) = Inr xs'" "length xs' = length xs"
    "\<And>q. q < length xs \<Longrightarrow> xs' ! q = (if int q \<in> set idx then v else xs ! q)"
proof -
  let ?r = "fold (\<lambda>(i, v) b. b[nat i := v]) (zip idx (replicate (length idx) v)) xs"
  have "?r ! q = (if int q \<in> set idx then v else xs ! q)" if q: "q < length xs" for q
  proof (cases "int q \<in> set idx")
    case True
    have "?r ! nat (int q) = v"
    proof (rule fold_scatter_own)
      show "(int q, v) \<in> set (zip idx (replicate (length idx) v))"
        using True by (simp add: set_zip in_set_conv_nth) (metis nth_replicate)
      show "nat (int q) < length xs" using q by simp
      show "\<forall>(j, w)\<in>set (zip idx (replicate (length idx) v)). nat j = nat (int q) \<longrightarrow> w = v"
        by (auto dest!: set_zip_rightD)
    qed
    then show ?thesis using True by simp
  next
    case False
    have "\<forall>(i, w)\<in>set (zip idx (replicate (length idx) v)). nat i \<noteq> q"
      using False assms by (auto dest!: set_zip_leftD)
    then show ?thesis using False by (simp add: fold_scatter_other)
  qed
  then show thesis using that[OF put_ints_eq[OF assms]] by simp
qed

lemma slot_rows_iff:
  assumes "0 < rw_capacity w"
  shows "x \<in> set (slot_rows w slots) \<longleftrightarrow> (\<exists>s\<in>set slots. \<exists>p. x = ring_row w s p)"
proof
  assume "x \<in> set (slot_rows w slots)"
  then obtain s c where sc: "s \<in> set slots" "c < rw_capacity w" "x = s * int (rw_capacity w) + int c"
    by (auto simp: slot_rows_def)
  then have "x = ring_row w s (int c)" by (simp add: ring_row_def)
  then show "\<exists>s\<in>set slots. \<exists>p. x = ring_row w s p" using sc(1) by blast
next
  assume "\<exists>s\<in>set slots. \<exists>p. x = ring_row w s p"
  then obtain s p where sp: "s \<in> set slots" "x = ring_row w s p" by blast
  have "0 \<le> p mod int (rw_capacity w)" "p mod int (rw_capacity w) < int (rw_capacity w)" using assms by simp_all
  then obtain c where "p mod int (rw_capacity w) = int c" "c < rw_capacity w"
    by (metis nonneg_int_cases of_nat_less_iff)
  then have "x \<in> set (map (\<lambda>c. s * int (rw_capacity w) + int c) [0..<rw_capacity w])"
    using sp(2) by (simp add: ring_row_def)
  then show "x \<in> set (slot_rows w slots)" using sp(1) by (simp add: slot_rows_def) blast
qed

text \<open>Releasing slots: \<open>reset\<close> returns, no position of a released slot is found in any
  layer any more (so \<open>buffer\<close> cannot serve the previous owner's tokens), every other slot keeps
  all its tags, and the next \<open>buffer\<close> call revalidates.\<close>

theorem reset_forgets_slots:
  assumes "rw_shape w" "\<forall>s\<in>set slots. 0 \<le> s \<and> s < int (rw_num_slots w)"
  shows "\<exists>w'. reset slots w = Inr w' \<and> rw_prepared w' = None \<and> rw_state w' = rw_state w
     \<and> (\<forall>layer<length (rw_tags w). \<forall>s p. 0 \<le> s \<longrightarrow> s < int (rw_num_slots w) \<longrightarrow>
          rw_tags w' ! layer ! nat (ring_row w s p)
            = (if s \<in> set slots then -1 else rw_tags w ! layer ! nat (ring_row w s p)))"
proof -
  let ?loc = "slot_rows w slots"
  have cap: "0 < rw_capacity w" using assms(1) by (simp add: rw_shape_def)
  have idx: "\<forall>i\<in>set ?loc. 0 \<le> i \<and> i < int (length tg)" if "tg \<in> set (rw_tags w)" for tg
  proof
    fix i assume "i \<in> set ?loc"
    then obtain s p where sp: "s \<in> set slots" "i = ring_row w s p" using slot_rows_iff[OF cap] by blast
    have "length tg = rw_rows w + rw_page_size w" using assms(1) that by (simp add: rw_shape_def)
    then show "0 \<le> i \<and> i < int (length tg)"
      using ring_row_bounds[OF _ _ cap, of s p] assms(2) sp by auto
  qed
  define f where "f = (\<lambda>tg. put_ints tg ?loc (replicate (length ?loc) (-1)))"
  have "\<exists>tg'. f tg = Inr tg' \<and> length tg' = length tg \<and>
      (\<forall>q<length tg. tg' ! q = (if int q \<in> set ?loc then -1 else tg ! q))" if "tg \<in> set (rw_tags w)" for tg
    unfolding f_def by (rule put_ints_all[OF idx[OF that], of "-1"]) blast
  then obtain g where g: "\<And>tg. tg \<in> set (rw_tags w) \<Longrightarrow> f tg = Inr (g tg)
      \<and> (\<forall>q<length tg. g tg ! q = (if int q \<in> set ?loc then -1 else tg ! q))" by metis
  have tags: "res_list f (rw_tags w) = Inr (map g (rw_tags w))"
    using g by (simp add: res_list_Inr)
  define w' where "w' = w\<lparr>rw_tags := map g (rw_tags w), rw_prepared := None\<rparr>"
  have "reset slots w = Inr w'" using tags by (simp add: reset_def f_def w'_def res_map_def)
  moreover have "rw_tags w' ! layer ! nat (ring_row w s p)
      = (if s \<in> set slots then -1 else rw_tags w ! layer ! nat (ring_row w s p))"
    if "layer < length (rw_tags w)" "0 \<le> s" "s < int (rw_num_slots w)" for layer s p
  proof -
    note rb = ring_row_bounds[OF that(2,3) cap, of p]
    have tg: "rw_tags w ! layer \<in> set (rw_tags w)" using that(1) by simp
    then have "nat (ring_row w s p) < length (rw_tags w ! layer)"
      using rb(2) assms(1) by (simp add: rw_shape_def)
    then have "g (rw_tags w ! layer) ! nat (ring_row w s p)
        = (if ring_row w s p \<in> set ?loc then -1 else rw_tags w ! layer ! nat (ring_row w s p))"
      using g[OF tg] rb(1) by simp
    moreover have "ring_row w s p \<in> set ?loc \<longleftrightarrow> s \<in> set slots"
      using slot_rows_iff[OF cap] ring_row_inj(1)[OF _ cap] by metis
    ultimately show ?thesis using that(1) by (simp add: w'_def)
  qed
  ultimately show ?thesis by (intro exI[of _ w']) (simp add: w'_def)
qed

theorem reset_forgets_slots_witness:
  "\<exists>w'. reset [0] demo_window = Inr w' \<and> rw_tags w' ! 0 ! 0 = -1"
proof -
  obtain w' where w': "reset [0] demo_window = Inr w'"
    and "\<forall>layer<length (rw_tags demo_window). \<forall>s p. 0 \<le> s \<longrightarrow> s < int (rw_num_slots demo_window) \<longrightarrow>
          rw_tags w' ! layer ! nat (ring_row demo_window s p)
            = (if s \<in> set [0] then -1 else rw_tags demo_window ! layer ! nat (ring_row demo_window s p))"
    using reset_forgets_slots[OF demo_shape(1), of "[0]"] by (auto simp: demo_window_def)
  from this(2)[rule_format, of 0 0 0] have "rw_tags w' ! 0 ! nat (ring_row demo_window 0 0) = -1"
    by (simp add: demo_window_def)
  then show ?thesis using w' by (simp add: ring_row_def)
qed

end
