(* ===== verification/FastArgmax.thy ===== *)
theory FastArgmax
  imports Prelude
begin

text \<open>
  Row-wise argmax of the speculative verify logits: the two-stage kernels of
  \<open>sglang-overlay/fast_argmax.py\<close> against \<open>torch.argmax\<close>.  Logits are a linear order with a
  least element (minus infinity); NaN is outside the model.
\<close>

section \<open>The kernels\<close>

text \<open>One tile of a part: the maximum of its lanes and the lowest lane that has it.\<close>

definition tile_argmax :: "('a::{linorder,order_bot}) list \<Rightarrow> nat \<Rightarrow> nat \<Rightarrow> nat \<Rightarrow> 'a \<times> nat" where
  "tile_argmax xs block hi off =
     (let lanes = [off..<off + block];
          v = (\<lambda>i. if i < hi then xs ! i else bot);
          cur_v = Max (v ` set lanes);
          cur_i = Min ((\<lambda>i. if v i = cur_v then i else length xs) ` set lanes)
      in (cur_v, cur_i))"

definition better :: "('a::linorder) \<times> nat \<Rightarrow> 'a \<times> nat \<Rightarrow> 'a \<times> nat" where
  "better best cur =
     (let take = fst best < fst cur \<or> (fst cur = fst best \<and> snd cur < snd best)
      in if take then cur else best)"

definition tile_starts :: "nat \<Rightarrow> nat \<Rightarrow> nat \<Rightarrow> nat list" where
  "tile_starts start hi block = map (\<lambda>k. start + k * block) [0..<cdiv (hi - start) block]"

definition argmax_partial :: "('a::{linorder,order_bot}) list \<Rightarrow> nat \<Rightarrow> nat \<Rightarrow> nat \<Rightarrow> 'a \<times> nat" where
  "argmax_partial xs splits block part =
     (let n = length xs; per = cdiv n splits; start = part * per; hi = min (start + per) n
      in fold (\<lambda>off best. better best (tile_argmax xs block hi off)) (tile_starts start hi block) (bot, n))"

text \<open>\<open>0x7FFFFFFF\<close> stands for no index.\<close>

definition argmax_final :: "(('a::linorder) \<times> nat) list \<Rightarrow> nat" where
  "argmax_final parts =
     (let best_v = Max (fst ` set parts)
      in Min ((\<lambda>(v, i). if v = best_v then i else 2 ^ 31 - 1) ` set parts))"

definition fast_row_argmax :: "nat \<Rightarrow> nat \<Rightarrow> ('a::{linorder,order_bot}) list \<Rightarrow> nat" where
  "fast_row_argmax splits block xs = argmax_final (map (argmax_partial xs splits block) [0..<splits])"

text \<open>\<open>torch.argmax\<close>: strict \<open>>\<close>, so the first maximum.\<close>

definition torch_argmax :: "('a::linorder) list \<Rightarrow> nat" where
  "torch_argmax xs = fold (\<lambda>i b. if xs ! b < xs ! i then i else b) [1..<length xs] 0"

text \<open>The speculative shapes that take the split kernel.\<close>

definition row_argmax ::
    "bool \<Rightarrow> nat \<Rightarrow> nat \<Rightarrow> ('a::{linorder,order_bot}) list list \<Rightarrow> nat list" where
  "row_argmax is_cuda splits block logits =
     (if is_cuda \<and> length logits \<le> 64 \<and> (\<forall>r\<in>set logits. 4096 \<le> length r)
      then map (fast_row_argmax splits block) logits else map torch_argmax logits)"

section \<open>Correctness\<close>

definition is_argmax :: "('a::{linorder,order_bot}) list \<Rightarrow> nat set \<Rightarrow> 'a \<times> nat \<Rightarrow> bool" where
  "is_argmax xs S b \<longleftrightarrow> (\<forall>j\<in>S. xs ! j \<le> fst b)
     \<and> (if S = {} then b = (bot, length xs)
        else snd b \<in> S \<and> xs ! snd b = fst b \<and> (\<forall>j\<in>S. xs ! j = fst b \<longrightarrow> snd b \<le> j))"

lemma is_argmax_nonempty:
  "S \<noteq> {} \<Longrightarrow> is_argmax xs S (v, i) \<longleftrightarrow>
     i \<in> S \<and> xs ! i = v \<and> (\<forall>j\<in>S. xs ! j \<le> v) \<and> (\<forall>j\<in>S. xs ! j = v \<longrightarrow> i \<le> j)"
  by (auto simp: is_argmax_def)

lemma is_argmax_unique:
  "is_argmax xs S b \<Longrightarrow> is_argmax xs S c \<Longrightarrow> b = c"
proof -
  assume bc: "is_argmax xs S b" "is_argmax xs S c"
  show "b = c"
  proof (cases "S = {}")
    case False
    then have b: "snd b \<in> S" "xs ! snd b = fst b" "\<forall>j\<in>S. xs ! j \<le> fst b" "\<forall>j\<in>S. xs ! j = fst b \<longrightarrow> snd b \<le> j"
      and c: "snd c \<in> S" "xs ! snd c = fst c" "\<forall>j\<in>S. xs ! j \<le> fst c" "\<forall>j\<in>S. xs ! j = fst c \<longrightarrow> snd c \<le> j"
      using bc unfolding is_argmax_def by auto
    have "fst b = fst c" using b(1-3) c(1-3) by (metis order_antisym)
    moreover from this have "snd b = snd c" using b c by (metis order_antisym)
    ultimately show ?thesis by (simp add: prod_eq_iff)
  qed (use bc in \<open>simp add: is_argmax_def\<close>)
qed

lemma better_argmax:
  assumes "is_argmax xs S b" "is_argmax xs T c" "T \<noteq> {}" "\<forall>j\<in>S \<union> T. j < length xs"
  shows "is_argmax xs (S \<union> T) (better b c)"
proof -
  have c: "snd c \<in> T" "xs ! snd c = fst c" "\<forall>j\<in>T. xs ! j \<le> fst c" "\<forall>j\<in>T. xs ! j = fst c \<longrightarrow> snd c \<le> j"
    using assms(2,3) unfolding is_argmax_def by auto
  show ?thesis
  proof (cases "S = {}")
    case True
    then have b: "b = (bot, length xs)" using assms(1) by (simp add: is_argmax_def)
    have "better b c = c"
      using assms(4) c(1) b bot.not_eq_extremum[of "fst c"] by (auto simp: better_def Let_def)
    then show ?thesis using assms(2) True by simp
  next
    case False
    then have b: "snd b \<in> S" "xs ! snd b = fst b" "\<forall>j\<in>S. xs ! j \<le> fst b" "\<forall>j\<in>S. xs ! j = fst b \<longrightarrow> snd b \<le> j"
      using assms(1) unfolding is_argmax_def by auto
    show ?thesis
    proof (cases "fst b < fst c \<or> (fst c = fst b \<and> snd c < snd b)")
      case True
      then have r: "better b c = c" by (simp add: better_def Let_def)
      show ?thesis unfolding r is_argmax_def using b c True
        by (auto intro: order_trans less_imp_le dest: leD)
    next
      case keep: False
      then have r: "better b c = b" by (auto simp: better_def Let_def)
      have "fst c \<le> fst b" "fst c = fst b \<Longrightarrow> snd b \<le> snd c" using keep by auto
      then show ?thesis unfolding r is_argmax_def using b c
        by (auto intro: order_trans) (metis order_antisym order_trans)+
    qed
  qed
qed

lemma tile_is_argmax:
  assumes "off < hi" "hi \<le> length xs" "0 < block"
  shows "is_argmax xs {off..<min (off + block) hi} (tile_argmax xs block hi off)"
proof -
  let ?L = "{off..<off + block}" and ?T = "{off..<min (off + block) hi}"
  define v where "v = (\<lambda>i. if i < hi then xs ! i else bot)"
  define m where "m = Max (v ` ?L)"
  define f where "f = (\<lambda>i. if v i = m then i else length xs)"
  have L: "finite ?L" "off \<in> ?L" using assms(3) by auto
  have T: "off \<in> ?T" "?T \<subseteq> ?L" using assms by auto
  have vT: "v j = xs ! j" if "j \<in> ?T" for j using that by (simp add: v_def)
  have le: "v j \<le> m" if "j \<in> ?L" for j unfolding m_def using that by (intro Max_ge) auto
  obtain k where k: "k \<in> ?T" "xs ! k = m"
  proof -
    have "m \<in> v ` ?L" unfolding m_def using L by (intro Max_in) auto
    then obtain k where k: "k \<in> ?L" "v k = m" by blast
    show thesis
    proof (cases "k < hi")
      case True
      then show ?thesis using that[of k] k vT[of k] by auto
    next
      case False
      then have "m = bot" using k(2) by (simp add: v_def)
      then have "v off = m" using le[OF L(2)] by (simp add: bot.extremum_unique)
      then show ?thesis using that[of off] T(1) vT[OF T(1)] by simp
    qed
  qed
  define i where "i = Min (f ` ?L)"
  have i_le: "i \<le> j" if "j \<in> ?T" "xs ! j = m" for j
  proof -
    have "f j = j" using that vT by (simp add: f_def)
    moreover have "i \<le> f j" unfolding i_def using that(1) T(2) by (intro Min_le) auto
    ultimately show ?thesis by simp
  qed
  have "i \<in> f ` ?L" unfolding i_def using L by (intro Min_in) auto
  then obtain l where l: "l \<in> ?L" "i = f l" by blast
  have ik: "i \<le> k" using i_le[OF k] .
  have khi: "k < hi" "k < length xs" using k(1) assms(2) by auto
  have il: "i = l" "v l = m" using l ik khi by (auto simp: f_def split: if_splits)
  then have "i \<in> ?T" "xs ! i = m" using l(1) ik khi by (auto simp: v_def)
  moreover have "tile_argmax xs block hi off = (m, i)"
    by (simp add: tile_argmax_def Let_def v_def[symmetric] m_def i_def f_def)
  moreover have "xs ! j \<le> m" if "j \<in> ?T" for j using le[of j] vT[OF that] T(2) that by auto
  moreover have "?T \<noteq> {}" using T(1) by blast
  ultimately show ?thesis using i_le by (metis is_argmax_nonempty)
qed

lemma partial_is_argmax:
  assumes "hi \<le> length xs" "0 < block" "start \<le> hi"
  shows "is_argmax xs {start..<hi}
     (fold (\<lambda>off best. better best (tile_argmax xs block hi off)) (tile_starts start hi block) (bot, length xs))"
proof -
  let ?f = "\<lambda>off best. better best (tile_argmax xs block hi off)"
  have "k \<le> cdiv (hi - start) block \<Longrightarrow>
      is_argmax xs {start..<min (start + k * block) hi}
        (fold ?f (map (\<lambda>k. start + k * block) [0..<k]) (bot, length xs))" for k
  proof (induction k)
    case 0
    then show ?case by (simp add: is_argmax_def)
  next
    case (Suc k)
    let ?off = "start + k * block"
    have "k * block < hi - start"
    proof -
      have "k < (hi - start + block - 1) div block" using Suc.prems by (simp add: cdiv_def)
      then have "Suc k * block \<le> hi - start + block - 1"
        using assms(2) by (metis Suc_leI less_eq_div_iff_mult_less_eq)
      then show ?thesis using assms(2) by simp
    qed
    then have off: "?off < hi" by linarith
    have un: "{start..<min ?off hi} \<union> {?off..<min (?off + block) hi} = {start..<min (start + Suc k * block) hi}"
      using off by auto
    have "is_argmax xs ({start..<min ?off hi} \<union> {?off..<min (?off + block) hi})
        (better (fold ?f (map (\<lambda>k. start + k * block) [0..<k]) (bot, length xs)) (tile_argmax xs block hi ?off))"
      by (rule better_argmax[OF Suc.IH tile_is_argmax]) (use Suc.prems off assms in auto)
    then show ?case unfolding un by simp
  qed
  from this[OF order_refl] have
    "is_argmax xs {start..<min (start + cdiv (hi - start) block * block) hi}
       (fold ?f (tile_starts start hi block) (bot, length xs))" by (simp add: tile_starts_def)
  moreover have "hi \<le> start + cdiv (hi - start) block * block"
  proof -
    have "hi - start \<le> cdiv (hi - start) block * block"
      unfolding cdiv_def using dividend_less_div_times[OF assms(2), of "hi - start + block - 1"] by simp
    then show ?thesis by simp
  qed
  then have "min (start + cdiv (hi - start) block * block) hi = hi" by simp
  ultimately show ?thesis by simp
qed

lemma torch_is_argmax:
  assumes "xs \<noteq> []"
  shows "is_argmax (xs :: ('a::{linorder,order_bot}) list) {..<length xs} (xs ! torch_argmax xs, torch_argmax xs)"
proof -
  have "k \<le> length xs - 1 \<Longrightarrow> is_argmax xs {..<Suc k}
     (let b = fold (\<lambda>i b. if xs ! b < xs ! i then i else b) [1..<Suc k] 0 in (xs ! b, b))" for k
  proof (induction k)
    case 0
    then show ?case by (auto simp: is_argmax_def)
  next
    case (Suc k)
    define b where "b = fold (\<lambda>i b. if xs ! b < xs ! i then i else b) [1..<Suc k] 0"
    define c where "c = (if xs ! b < xs ! Suc k then Suc k else b)"
    have ne: "{..<Suc k} \<noteq> {}" "{..<Suc (Suc k)} \<noteq> {}" by auto
    have "is_argmax xs {..<Suc k} (xs ! b, b)" using Suc by (simp add: b_def Let_def)
    then have b: "b < Suc k" "\<forall>j<Suc k. xs ! j \<le> xs ! b" "\<forall>j<Suc k. xs ! j = xs ! b \<longrightarrow> b \<le> j"
      unfolding is_argmax_nonempty[OF ne(1)] by auto
    have split: "j = Suc k \<or> j < Suc k" if "j \<in> {..<Suc (Suc k)}" for j using that by auto
    have "xs ! j \<le> xs ! c \<and> (xs ! j = xs ! c \<longrightarrow> c \<le> j)" if j: "j \<in> {..<Suc (Suc k)}" for j
    proof (cases "xs ! b < xs ! Suc k")
      case True
      then have "xs ! i < xs ! Suc k" if "i < Suc k" for i using b(2) that order_le_less_trans by blast
      then show ?thesis using split[OF j] True unfolding c_def by (metis order.strict_implies_order order_less_irrefl order_refl)
    next
      case False
      then show ?thesis using split[OF j] b unfolding c_def by (metis le_less_linear less_imp_le_nat linorder_not_less)
    qed
    moreover have "c \<in> {..<Suc (Suc k)}" using b(1) by (auto simp: c_def)
    ultimately have "is_argmax xs {..<Suc (Suc k)} (xs ! c, c)" unfolding is_argmax_nonempty[OF ne(2)] by blast
    moreover have "fold (\<lambda>i b. if xs ! b < xs ! i then i else b) [1..<Suc (Suc k)] 0 = c"
    proof -
      have "[1..<Suc (Suc k)] = [1..<Suc k] @ [Suc k]" by simp
      then show ?thesis unfolding c_def b_def by (simp only: fold_append comp_apply fold_simps)
    qed
    ultimately show ?case by (simp only: Let_def)
  qed
  from this[of "length xs - 1"] show ?thesis using assms by (simp add: torch_argmax_def Let_def)
qed

lemma fast_argmax_correct:
  assumes "xs \<noteq> []" "length xs < 2 ^ 31 - 1" "0 < splits" "0 < block"
  shows "fast_row_argmax splits block xs = torch_argmax xs"
proof -
  let ?n = "length xs" and ?per = "cdiv (length xs) splits"
  let ?p = "argmax_partial xs splits block"
  let ?R = "\<lambda>k. {k * ?per..<min (k * ?per + ?per) ?n}"
  have part: "is_argmax xs (?R k) (?p k)" for k
  proof (cases "k * ?per \<le> ?n")
    case True
    then show ?thesis unfolding argmax_partial_def Let_def by (intro partial_is_argmax) (use assms in auto)
  next
    case False
    have "cdiv 0 block = 0" using assms(4) by (simp add: cdiv_def)
    then show ?thesis using False by (simp add: argmax_partial_def Let_def tile_starts_def is_argmax_def)
  qed
  define a where "a = torch_argmax xs"
  have a: "a < ?n" "\<forall>j<?n. xs ! j \<le> xs ! a" "\<forall>j<?n. xs ! j = xs ! a \<longrightarrow> a \<le> j"
  proof -
    have "{..<?n} \<noteq> {}" using assms(1) by auto
    then show "a < ?n" "\<forall>j<?n. xs ! j \<le> xs ! a" "\<forall>j<?n. xs ! j = xs ! a \<longrightarrow> a \<le> j"
      using torch_is_argmax[OF assms(1)] by (auto simp: is_argmax_nonempty a_def)
  qed
  have per: "0 < ?per" "?n \<le> splits * ?per"
  proof -
    have "?n - 1 < cdiv ?n splits * splits" unfolding cdiv_def
      using dividend_less_div_times[OF assms(3), of "?n + splits - 1"] assms(1,3) by (cases xs) auto
    then show "?n \<le> splits * ?per" by (simp add: mult.commute)
    then show "0 < ?per" using assms(1) by (cases "?per") auto
  qed
  have vle: "fst (?p k) \<le> xs ! a" for k
    using part[of k] a(2) unfolding is_argmax_def by (cases "?R k = {}") auto
  define k where "k = a div ?per"
  have ak: "a \<in> ?R k"
    using per(1) a(1) dividend_less_div_times[OF per(1), of a] by (simp add: k_def add.commute)
  have ks: "k < splits" using per a(1) unfolding k_def
    by (metis div_less_iff_less_mult order_less_le_trans)
  have pk: "?p k = (xs ! a, a)"
  proof (rule is_argmax_unique[OF part])
    show "is_argmax xs (?R k) (xs ! a, a)" using ak a unfolding is_argmax_def by auto
  qed
  let ?P = "set (map ?p [0..<splits])"
  have mx: "Max (fst ` ?P) = xs ! a"
  proof (rule Max_eqI)
    show "xs ! a \<in> fst ` ?P" using pk ks by (auto intro!: rev_image_eqI[of "?p k"])
  qed (use vle in auto)
  have "Min ((\<lambda>(v, i). if v = xs ! a then i else 2 ^ 31 - 1) ` ?P) = a"
  proof (rule Min_eqI)
    fix y assume "y \<in> (\<lambda>(v, i). if v = xs ! a then i else 2 ^ 31 - 1) ` ?P"
    then obtain q where "q \<in> ?P" "y = (\<lambda>(v, i). if v = xs ! a then i else 2 ^ 31 - 1) q" by blast
    then obtain l where "y = (\<lambda>(v, i). if v = xs ! a then i else 2 ^ 31 - 1) (?p l)"
      unfolding set_map by blast
    then have l: "y = (if fst (?p l) = xs ! a then snd (?p l) else 2 ^ 31 - 1)" by (simp only: split_beta)
    have "a \<le> snd (?p l)" if "fst (?p l) = xs ! a"
    proof (cases "?R l = {}")
      case True
      then show ?thesis using part[of l] a(1) unfolding is_argmax_def by auto
    next
      case False
      then have "snd (?p l) < ?n" "xs ! snd (?p l) = xs ! a" using part[of l] that unfolding is_argmax_def by auto
      then show ?thesis using a(3) by blast
    qed
    then show "a \<le> y" using l a(1) assms(2) by auto
  next
    show "a \<in> (\<lambda>(v, i). if v = xs ! a then i else 2 ^ 31 - 1) ` ?P"
    proof (rule rev_image_eqI)
      show "?p k \<in> ?P" using ks by simp
    qed (simp add: pk)
  qed simp
  then show ?thesis by (simp add: fast_row_argmax_def argmax_final_def Let_def mx a_def del: set_map)
qed

lemma row_argmax_eq:
  "\<forall>r\<in>set logits. r \<noteq> [] \<and> length r < 2 ^ 31 - 1 \<Longrightarrow> row_argmax is_cuda 64 2048 logits = map torch_argmax logits"
  by (auto simp: row_argmax_def fast_argmax_correct)

lemma torch_argmax_less: "xs \<noteq> [] \<Longrightarrow> torch_argmax (xs :: ('a::{linorder,order_bot}) list) < length xs"
  using torch_is_argmax[of xs] by (auto simp: is_argmax_def split: if_splits)

text \<open>C31. The split argmax is \<open>torch.argmax\<close>: for every row, number of splits and tile size,
  empty trailing splits and rows of minus infinity included, the index is the first maximum.\<close>

theorem fast_row_argmax_eq:
  assumes "xs \<noteq> []" "length xs < 2 ^ 31 - 1" "0 < splits" "0 < block"
  shows "fast_row_argmax splits block xs = torch_argmax xs"
  by (rule fast_argmax_correct[OF assms])

theorem fast_row_argmax_eq_witness:
  "fast_row_argmax 4 2 [3, 7, 0, 7, (5::nat)] = 1"
proof -
  have "torch_argmax [3, 7, 0, 7, (5::nat)] = 1" by (simp add: torch_argmax_def upt_rec)
  then show ?thesis using fast_row_argmax_eq[of "[3, 7, 0, 7, (5::nat)]" 4 2] by simp
qed

end
