(* ===== verification/DsparkAccept.thy ===== *)
theory DsparkAccept
  imports FastArgmax Complex_Main
begin

text \<open>
  Acceptance of speculative drafts: \<open>sglang-overlay/dspark_accept.py\<close>.  Every operation has a
  torch path and a Triton path and a dispatcher that picks one by where the inputs live; the
  lemmas show the choice is unobservable.  External: the greedy comparison
  (\<open>compute_dflash_correct_drafts_and_bonus\<close>), the chain sampler and the top-k/top-p
  probabilities are arguments; tensors' integer widths are written out.  Kernels run on
  any order of their programs (\<open>pids\<close>) over an uninitialised output (\<open>buf\<close>).
\<close>

section \<open>\<open>CapCorrectLen\<close>\<close>

text \<open>\<open>ty\<close> is the dtype of \<open>correct_len\<close>, \<open>vty\<close> that of \<open>verify_lens\<close>.\<close>

definition cap_correct_len :: "int_ty \<Rightarrow> int_ty \<Rightarrow> int list \<Rightarrow> int list \<Rightarrow> int list \<times> int list" where
  "cap_correct_len ty vty correct verify =
     (let ell = map (\<lambda>v. wrap ty (wrap vty (v - 1))) verify;
          capped = map2 min correct ell
      in (capped, map2 (\<lambda>c k. wrap ty (c - k)) correct capped))"

definition cap_lane :: "int list \<Rightarrow> int list \<Rightarrow> nat \<Rightarrow> int" where
  "cap_lane correct verify i = min (i64 (tl_load correct (int i))) (i64 (i64 (tl_load verify (int i)) - 1))"

definition cap_correct_len_triton ::
    "nat list \<Rightarrow> int list \<Rightarrow> int_ty \<Rightarrow> int list \<Rightarrow> int list \<Rightarrow> int list \<times> int list" where
  "cap_correct_len_triton pids buf ty correct verify =
     (let n = length correct; lane = cap_lane correct verify in
      (launch_1d pids 1024 n (\<lambda>i. wrap ty (lane i)) buf,
       launch_1d pids 1024 n (\<lambda>i. wrap ty (i64 (i64 (tl_load correct (int i)) - lane i))) buf))"

definition CapCorrectLen ::
    "bool \<Rightarrow> nat list \<Rightarrow> int list \<Rightarrow> int_ty \<Rightarrow> int_ty \<Rightarrow> int list \<Rightarrow> int list \<Rightarrow> int list \<times> int list" where
  "CapCorrectLen on_cuda pids buf ty vty correct verify =
     (if on_cuda then cap_correct_len_triton pids buf ty correct verify
      else cap_correct_len ty vty correct verify)"

text \<open>Lengths and token ids are far from the int32 limits.\<close>

definition small :: "int list \<Rightarrow> bool" where
  "small xs \<longleftrightarrow> (\<forall>x\<in>set xs. 0 \<le> x \<and> x < 2 ^ 30)"

lemma small_nth: "small xs \<Longrightarrow> i < length xs \<Longrightarrow> 0 \<le> xs ! i \<and> xs ! i < 2 ^ 30"
  by (simp add: small_def)

lemma cap_torch_spec:
  assumes "small correct" "small verify" "length verify = length correct"
  shows "cap_correct_len ty vty correct verify =
     (map2 (\<lambda>c v. min c (v - 1)) correct verify, map2 (\<lambda>c v. c - min c (v - 1)) correct verify)"
proof -
  have ell: "map (\<lambda>v. wrap ty (wrap vty (v - 1))) verify = map (\<lambda>v. v - 1) verify"
    using assms(2) by (auto simp: small_def wrap_small)
  have c1: "map2 min correct (map (\<lambda>v. v - 1) verify) = map2 (\<lambda>c v. min c (v - 1)) correct verify"
    by (simp add: zip_map2 split_beta o_def)
  have c2: "map2 (\<lambda>c k. wrap ty (c - k)) correct (map2 (\<lambda>c v. min c (v - 1)) correct verify)
      = map2 (\<lambda>c v. c - min c (v - 1)) correct verify"
  proof (rule nth_equalityI)
    fix i assume "i < length (map2 (\<lambda>c k. wrap ty (c - k)) correct (map2 (\<lambda>c v. min c (v - 1)) correct verify))"
    then have i: "i < length correct" "i < length verify" using assms(3) by auto
    have "wrap ty (correct ! i - min (correct ! i) (verify ! i - 1)) = correct ! i - min (correct ! i) (verify ! i - 1)"
      using small_nth[OF assms(1) i(1)] small_nth[OF assms(2) i(2)] by (intro wrap_small) (auto simp: min_def)
    then show "map2 (\<lambda>c k. wrap ty (c - k)) correct (map2 (\<lambda>c v. min c (v - 1)) correct verify) ! i
        = map2 (\<lambda>c v. c - min c (v - 1)) correct verify ! i" using i by simp
  qed simp
  show ?thesis by (simp add: cap_correct_len_def Let_def ell c1 c2)
qed

lemma cap_triton_spec:
  assumes "small correct" "small verify" "length verify = length correct"
    and "length buf = length correct" "full_grid pids (length correct) 1024"
  shows "cap_correct_len_triton pids buf ty correct verify =
     (map2 (\<lambda>c v. min c (v - 1)) correct verify, map2 (\<lambda>c v. c - min c (v - 1)) correct verify)"
proof -
  let ?n = "length correct"
  have lane: "cap_lane correct verify i = min (correct ! i) (verify ! i - 1)"
    "wrap ty (cap_lane correct verify i) = min (correct ! i) (verify ! i - 1)"
    "wrap ty (i64 (i64 (tl_load correct (int i)) - cap_lane correct verify i))
       = correct ! i - min (correct ! i) (verify ! i - 1)" if i: "i < ?n" for i
  proof -
    have c: "0 \<le> correct ! i" "correct ! i < 2 ^ 30" using small_nth[OF assms(1) i] by auto
    have v: "0 \<le> verify ! i" "verify ! i < 2 ^ 30" using small_nth[OF assms(2), of i] i assms(3) by auto
    have ld: "tl_load correct (int i) = correct ! i" "tl_load verify (int i) = verify ! i"
      using i assms(3) by (simp_all add: tl_load_in)
    show lane: "cap_lane correct verify i = min (correct ! i) (verify ! i - 1)"
      using c v by (simp add: cap_lane_def ld i64_small)
    show "wrap ty (cap_lane correct verify i) = min (correct ! i) (verify ! i - 1)"
      unfolding lane using c v by (intro wrap_small) (auto simp: min_def)
    have "i64 (i64 (correct ! i) - min (correct ! i) (verify ! i - 1)) = correct ! i - min (correct ! i) (verify ! i - 1)"
      using c v by (subst (1 2) i64_small) (auto simp: min_def)
    then show "wrap ty (i64 (i64 (tl_load correct (int i)) - cap_lane correct verify i))
       = correct ! i - min (correct ! i) (verify ! i - 1)"
      unfolding lane ld using c v by (simp, intro wrap_small) (auto simp: min_def)
  qed
  note launch = launch_1d_eq_map[OF _ assms(4,5)]
  have "launch_1d pids 1024 ?n (\<lambda>i. wrap ty (cap_lane correct verify i)) buf
      = map2 (\<lambda>c v. min c (v - 1)) correct verify"
    using lane(2) assms(3) by (auto simp: launch intro!: nth_equalityI)
  moreover have "launch_1d pids 1024 ?n (\<lambda>i. wrap ty (i64 (i64 (tl_load correct (int i)) - cap_lane correct verify i))) buf
      = map2 (\<lambda>c v. c - min c (v - 1)) correct verify"
    using lane(3) assms(3) by (auto simp: launch intro!: nth_equalityI)
  ultimately show ?thesis by (simp add: cap_correct_len_triton_def Let_def)
qed

lemma cap_dispatch:
  assumes "small correct" "small verify" "length verify = length correct"
    and "length buf = length correct" "full_grid pids (length correct) 1024"
  shows "CapCorrectLen on_cuda pids buf ty vty correct verify =
     (map2 (\<lambda>c v. min c (v - 1)) correct verify, map2 (\<lambda>c v. c - min c (v - 1)) correct verify)"
  by (simp add: CapCorrectLen_def cap_torch_spec[OF assms(1-3)] cap_triton_spec[OF assms])

section \<open>\<open>FinalizeAcceptLens\<close>\<close>

record finalize_result =
  commit_lens :: "int list"
  new_seq_lens :: "int list"
  fin_trim_lens :: "int list"

definition finalize_accept_lens :: "int_ty \<Rightarrow> int list \<Rightarrow> int list \<Rightarrow> int list \<Rightarrow> finalize_result" where
  "finalize_accept_lens pty correct trim prefix =
     (let commit = map (\<lambda>c. i32 (i32 c + 1)) correct
      in \<lparr>commit_lens = commit, new_seq_lens = map2 (\<lambda>p c. wrap pty (p + wrap pty c)) prefix commit,
          fin_trim_lens = map i32 trim\<rparr>)"

definition finalize_accept_lens_triton ::
    "nat list \<Rightarrow> int list \<Rightarrow> int_ty \<Rightarrow> int list \<Rightarrow> int list \<Rightarrow> int list \<Rightarrow> finalize_result" where
  "finalize_accept_lens_triton pids buf pty correct trim prefix =
     (let bs = length correct;
          commit = (\<lambda>i. i32 (i32 (tl_load correct (int i)) + 1))
      in \<lparr>commit_lens = launch_1d pids 256 bs commit buf,
          new_seq_lens = launch_1d pids 256 bs (\<lambda>i. wrap pty (tl_load prefix (int i) + commit i)) buf,
          fin_trim_lens = launch_1d pids 256 bs (\<lambda>i. i32 (tl_load trim (int i))) buf\<rparr>)"

definition FinalizeAcceptLens ::
    "bool \<Rightarrow> nat list \<Rightarrow> int list \<Rightarrow> int_ty \<Rightarrow> int list \<Rightarrow> int list \<Rightarrow> int list \<Rightarrow> finalize_result" where
  "FinalizeAcceptLens on_cuda pids buf pty correct trim prefix =
     (if on_cuda then finalize_accept_lens_triton pids buf pty correct trim prefix
      else finalize_accept_lens pty correct trim prefix)"

lemma i32_wrap [simp]: "wrap pty (p + wrap pty (i32 c)) = wrap pty (p + i32 c)"
proof (cases pty)
  case Int32
  then show ?thesis by (simp add: wrap_def)
next
  case Int64
  have "i64 (i32 c) = i32 c" using i32_range[of c] by (intro i64_small) auto
  then show ?thesis using Int64 by (simp add: wrap_def)
qed

lemma finalize_triton_eq:
  assumes "length trim = length correct" "length prefix = length correct"
    and "length buf = length correct" "full_grid pids (length correct) 256"
  shows "finalize_accept_lens_triton pids buf pty correct trim prefix = finalize_accept_lens pty correct trim prefix"
proof -
  note launch = launch_1d_eq_map[OF _ assms(3,4)]
  show ?thesis using assms(1,2)
    by (auto simp: finalize_accept_lens_triton_def finalize_accept_lens_def Let_def launch tl_load_in
        intro!: nth_equalityI)
qed

section \<open>\<open>SelectMixedAccept\<close>\<close>

record mixed_result =
  mixed_len :: "int list"
  mixed_bonus :: "int list"
  mixed_trim :: "int list"

text \<open>The dtypes of the sampling lengths and trims.\<close>

definition select_mixed_accept ::
    "int_ty \<Rightarrow> int_ty \<Rightarrow> bool list \<Rightarrow> int list \<Rightarrow> int list \<Rightarrow> int list \<Rightarrow> int list \<Rightarrow> int list \<Rightarrow> int list
       \<Rightarrow> mixed_result" where
  "select_mixed_accept lty tty greedy g_len g_bonus g_trim s_len s_bonus s_trim =
     (let pick = (\<lambda>f xs ys. map2 (\<lambda>m (x, y). if m then f x else y) greedy (zip xs ys))
      in \<lparr>mixed_len = pick (wrap lty) g_len s_len, mixed_bonus = pick id g_bonus s_bonus,
          mixed_trim = pick (wrap tty) g_trim s_trim\<rparr>)"

text \<open>A kernel store converts to the output's dtype.\<close>

definition select_lane :: "(int \<Rightarrow> int) \<Rightarrow> bool list \<Rightarrow> int list \<Rightarrow> int list \<Rightarrow> nat \<Rightarrow> int" where
  "select_lane cv greedy g x i =
     cv (if tl_load greedy (int i) then tl_load g (int i) else tl_load x (int i))"

definition select_mixed_accept_triton ::
    "nat list \<Rightarrow> int list \<Rightarrow> int_ty \<Rightarrow> int_ty \<Rightarrow> bool list \<Rightarrow> int list \<Rightarrow> int list \<Rightarrow> int list \<Rightarrow> int list
       \<Rightarrow> int list \<Rightarrow> int list \<Rightarrow> mixed_result" where
  "select_mixed_accept_triton pids buf lty tty greedy g_len g_bonus g_trim s_len s_bonus s_trim =
     (let bs = length greedy in
      \<lparr>mixed_len = launch_1d pids 256 bs (select_lane (wrap lty) greedy g_len s_len) buf,
       mixed_bonus = launch_1d pids 256 bs (select_lane id greedy g_bonus s_bonus) buf,
       mixed_trim = launch_1d pids 256 bs (select_lane (wrap tty) greedy g_trim s_trim) buf\<rparr>)"

definition SelectMixedAccept ::
    "bool \<Rightarrow> nat list \<Rightarrow> int list \<Rightarrow> int_ty \<Rightarrow> int_ty \<Rightarrow> bool list \<Rightarrow> int list \<Rightarrow> int list \<Rightarrow> int list \<Rightarrow> int list
       \<Rightarrow> int list \<Rightarrow> int list \<Rightarrow> mixed_result" where
  "SelectMixedAccept on_cuda pids buf lty tty greedy g_len g_bonus g_trim s_len s_bonus s_trim =
     (if on_cuda then select_mixed_accept_triton pids buf lty tty greedy g_len g_bonus g_trim s_len s_bonus s_trim
      else select_mixed_accept lty tty greedy g_len g_bonus g_trim s_len s_bonus s_trim)"

lemma select_lane_eq:
  assumes "length g = length greedy" "length x = length greedy" "\<forall>y\<in>set x. cv y = y"
    and "length buf = length greedy" "full_grid pids (length greedy) 256"
  shows "launch_1d pids 256 (length greedy) (select_lane cv greedy g x) buf
       = map2 (\<lambda>m (x, y). if m then cv x else y) greedy (zip g x)"
  using assms(1-3) by (auto simp: launch_1d_eq_map[OF _ assms(4,5)] select_lane_def tl_load_in intro!: nth_equalityI)

section \<open>Bonus tokens\<close>

text \<open>\<open>table[row, idx[row]]\<close> for every row: the kernel reads the flattened table.\<close>

definition gather_row_bonus_triton :: "nat list \<Rightarrow> int list \<Rightarrow> int list list \<Rightarrow> nat \<Rightarrow> int list \<Rightarrow> int list" where
  "gather_row_bonus_triton pids buf table cols idx =
     launch_1d pids 256 (length table)
       (\<lambda>i. i64 (tl_load (concat table) (int i * int cols + i64 (tl_load idx (int i))))) buf"

definition row_bonus :: "int list list \<Rightarrow> int list \<Rightarrow> int list res" where
  "row_bonus table idx = res_list (\<lambda>(row, i). res_map i64 (py_get row i)) (zip table idx)"

definition gather_two_level_bonus_triton ::
    "nat list \<Rightarrow> int list \<Rightarrow> int list list \<Rightarrow> nat \<Rightarrow> int list \<Rightarrow> int list \<Rightarrow> int list" where
  "gather_two_level_bonus_triton pids buf accept_index cols predicts correct =
     launch_1d pids 256 (length accept_index)
       (\<lambda>i. i64 (tl_load predicts (i64 (tl_load (concat accept_index)
              (int i * int cols + i64 (tl_load correct (int i))))))) buf"

definition two_level_bonus :: "int list list \<Rightarrow> int list \<Rightarrow> int list \<Rightarrow> int list res" where
  "two_level_bonus accept_index predicts correct =
     res_list (\<lambda>(row, c). res_bind (py_get row c) (\<lambda>pos. res_map i64 (py_get predicts pos))) (zip accept_index correct)"

lemma concat_rect_load:
  assumes "\<forall>r\<in>set rows. length r = cols" "i < length rows" "0 \<le> c" "c < int cols"
  shows "tl_load (concat rows) (int i * int cols + c) = rows ! i ! nat c"
proof -
  obtain j where j: "c = int j" "j < cols" using assms(3,4) by (metis nonneg_int_cases of_nat_less_iff)
  have "int i * int cols + c = int (i * cols + j)" using j by simp
  then show ?thesis using concat_rect_nth[OF assms(1,2) j(2)] j(1) by (simp only: tl_load_in nat_int)
qed

lemma row_bonus_eq:
  assumes "\<forall>r\<in>set table. length r = cols" "length idx = length table" "small idx"
    and "\<forall>i\<in>set idx. i < int cols"
    and "length buf = length table" "full_grid pids (length table) 256"
  shows "row_bonus table idx = Inr (map (\<lambda>i. i64 (table ! i ! nat (idx ! i))) [0..<length table])"
    and "gather_row_bonus_triton pids buf table cols idx = map (\<lambda>i. i64 (table ! i ! nat (idx ! i))) [0..<length table]"
proof -
  have b: "0 \<le> idx ! i" "idx ! i < int cols" "i64 (idx ! i) = idx ! i" "nat (idx ! i) < cols" if "i < length table" for i
    using small_nth[OF assms(3), of i] assms(2,4) nth_mem[of i idx] that
    by (auto intro!: i64_small simp: nat_less_iff)
  show "row_bonus table idx = Inr (map (\<lambda>i. i64 (table ! i ! nat (idx ! i))) [0..<length table])"
    using assms(1,2) b by (auto simp: row_bonus_def res_list_Inr py_get_nonneg res_map_def)
  show "gather_row_bonus_triton pids buf table cols idx = map (\<lambda>i. i64 (table ! i ! nat (idx ! i))) [0..<length table]"
    using assms(2) b concat_rect_load[OF assms(1)]
    by (auto simp: gather_row_bonus_triton_def launch_1d_eq_map[OF _ assms(5,6)] tl_load_in)
qed

section \<open>\<open>AcceptGreedy\<close>\<close>

text \<open>\<open>argmax\<close> is \<open>_row_argmax(target_logits).view(bs, n)\<close>; \<open>compare\<close> the external
  \<open>compute_dflash_correct_drafts_and_bonus(candidates, target_predict)\<close>.\<close>

type_synonym compare_fn = "int list list \<Rightarrow> int list list \<Rightarrow> int list \<times> int list"

definition view_rows :: "nat \<Rightarrow> nat \<Rightarrow> 'a list \<Rightarrow> 'a list list" where
  "view_rows bs n xs = map (\<lambda>i. take n (drop (i * n) xs)) [0..<bs]"

definition target_predict ::
    "bool \<Rightarrow> nat \<Rightarrow> nat \<Rightarrow> ('a::{linorder,order_bot}) list list \<Rightarrow> int list list" where
  "target_predict is_cuda bs n logits = view_rows bs n (map int (row_argmax is_cuda 64 2048 logits))"

definition accept_greedy ::
    "compare_fn \<Rightarrow> bool \<Rightarrow> (int list \<Rightarrow> int list \<Rightarrow> int list \<times> int list) \<Rightarrow> int list list \<Rightarrow> ('a::{linorder,order_bot}) list list
       \<Rightarrow> nat \<Rightarrow> int list option \<Rightarrow> (int list \<times> int list \<times> int list) res" where
  "accept_greedy compare is_cuda cap candidates logits n cutoff =
     (let tp = target_predict is_cuda (length candidates) n logits;
          (correct, bonus) = compare candidates tp
      in case cutoff of
           None \<Rightarrow> Inr (correct, bonus, map (\<lambda>_. 0) correct)
         | Some vl \<Rightarrow> let (capped, trim) = cap correct vl
             in res_map (\<lambda>b. (capped, b, trim)) (row_bonus tp capped))"

definition accept_greedy_triton ::
    "compare_fn \<Rightarrow> nat list \<Rightarrow> int list \<Rightarrow> bool \<Rightarrow> (int list \<Rightarrow> int list \<Rightarrow> int list \<times> int list) \<Rightarrow> int list list
       \<Rightarrow> ('a::{linorder,order_bot}) list list \<Rightarrow> nat \<Rightarrow> int list option \<Rightarrow> (int list \<times> int list \<times> int list) res" where
  "accept_greedy_triton compare pids buf is_cuda cap candidates logits n cutoff =
     (let tp = target_predict is_cuda (length candidates) n logits;
          (correct, bonus) = compare candidates tp
      in case cutoff of
           None \<Rightarrow> Inr (correct, bonus, map (\<lambda>_. 0) correct)
         | Some vl \<Rightarrow> let (capped, trim) = cap correct vl
             in Inr (capped, gather_row_bonus_triton pids buf tp n capped, trim))"

text \<open>The dispatcher: every tensor of the call is on one device.\<close>

definition AcceptGreedy ::
    "compare_fn \<Rightarrow> bool \<Rightarrow> nat list \<Rightarrow> nat list \<Rightarrow> int list \<Rightarrow> int_ty \<Rightarrow> int_ty \<Rightarrow> int list list
       \<Rightarrow> ('a::{linorder,order_bot}) list list \<Rightarrow> nat \<Rightarrow> int list option \<Rightarrow> (int list \<times> int list \<times> int list) res" where
  "AcceptGreedy compare on_cuda pids cpids buf ty vty candidates logits n cutoff =
     (let cap = CapCorrectLen on_cuda cpids buf ty vty
      in if on_cuda then accept_greedy_triton compare pids buf on_cuda cap candidates logits n cutoff
         else accept_greedy compare on_cuda cap candidates logits n cutoff)"

subsection \<open>Greedy acceptance commits what the target would have produced\<close>

text \<open>Documented behaviour of the external comparison: \<open>correct\<close> counts the leading drafts
  (\<open>candidates[:, 1:]\<close>) the target predicted, \<open>bonus\<close> is the prediction after them.\<close>

definition prefix_matches :: "int list \<Rightarrow> int list \<Rightarrow> nat" where
  "prefix_matches cand tp = length (takeWhile (\<lambda>(c, t). c = t) (zip (tl cand) tp))"

definition compare_ok :: "compare_fn \<Rightarrow> bool" where
  "compare_ok compare \<longleftrightarrow> (\<forall>cands tp. length cands = length tp \<longrightarrow>
     compare cands tp = (map2 (\<lambda>c t. int (prefix_matches c t)) cands tp,
                         map2 (\<lambda>c t. t ! prefix_matches c t) cands tp))"

lemma prefix_matches_less: "length cand = n \<Longrightarrow> 0 < n \<Longrightarrow> prefix_matches cand tp < n"
  unfolding prefix_matches_def
  by (rule le_less_trans[OF length_takeWhile_le]) simp

lemma prefix_matches_eq:
  assumes "j < prefix_matches cand tp"
  shows "cand ! Suc j = tp ! j"
proof -
  let ?z = "zip (tl cand) tp"
  have "j < length (takeWhile (\<lambda>(c, t). c = t) ?z)" using assms by (simp add: prefix_matches_def)
  moreover from this have "takeWhile (\<lambda>(c, t). c = t) ?z ! j = ?z ! j" by (rule takeWhile_nth)
  moreover have "j < length ?z" using calculation(1) length_takeWhile_le[of "\<lambda>(c, t). c = t" ?z] by linarith
  ultimately have "(\<lambda>(c, t). c = t) (?z ! j)" by (metis nth_mem set_takeWhileD)
  then show ?thesis using \<open>j < length ?z\<close> by (simp add: nth_tl)
qed

lemma view_rows_props:
  assumes "length xs = bs * n"
  shows "length (view_rows bs n xs) = bs" "\<forall>r\<in>set (view_rows bs n xs). length r = n"
    and "i < bs \<Longrightarrow> j < n \<Longrightarrow> view_rows bs n xs ! i ! j = xs ! (i * n + j)"
proof -
  have le: "i * n + n \<le> length xs" if "i < bs" for i
    using mult_le_mono1[of "Suc i" bs n] that assms by simp
  show "length (view_rows bs n xs) = bs" by (simp add: view_rows_def)
  show "\<forall>r\<in>set (view_rows bs n xs). length r = n" using le by (fastforce simp: view_rows_def)
  show "i < bs \<Longrightarrow> j < n \<Longrightarrow> view_rows bs n xs ! i ! j = xs ! (i * n + j)"
    using le[of i] by (simp add: view_rows_def)
qed

text \<open>The call's shapes: one row of logits per candidate position, lengths at most the block.\<close>

definition greedy_call_ok ::
    "int list list \<Rightarrow> ('a::{linorder,order_bot}) list list \<Rightarrow> nat \<Rightarrow> int list option \<Rightarrow> bool" where
  "greedy_call_ok candidates logits n cutoff \<longleftrightarrow> 0 < n \<and> n < 2 ^ 29
     \<and> (\<forall>c\<in>set candidates. length c = n) \<and> length logits = length candidates * n
     \<and> (\<forall>r\<in>set logits. r \<noteq> [] \<and> length r < 2 ^ 30)
     \<and> (\<forall>vl. cutoff = Some vl \<longrightarrow> length vl = length candidates \<and> (\<forall>v\<in>set vl. 1 \<le> v \<and> v \<le> int n))"

lemma accept_greedy_result:
  assumes "compare_ok compare" "greedy_call_ok candidates logits n cutoff"
    and "length buf = length candidates" "full_grid pids (length candidates) 256" "full_grid cpids (length candidates) 1024"
  defines "tp \<equiv> view_rows (length candidates) n (map (int \<circ> torch_argmax) logits)"
  defines "m \<equiv> \<lambda>i. int (prefix_matches (candidates ! i) (tp ! i))"
  defines "k \<equiv> \<lambda>i. case cutoff of None \<Rightarrow> m i | Some vl \<Rightarrow> min (m i) (vl ! i - 1)"
  shows "AcceptGreedy compare on_cuda pids cpids buf ty vty candidates logits n cutoff
     = Inr (map k [0..<length candidates], map (\<lambda>i. tp ! i ! nat (k i)) [0..<length candidates],
            map (\<lambda>i. m i - k i) [0..<length candidates])"
proof -
  let ?bs = "length candidates"
  have n: "0 < n" "n < 2 ^ 29" and cl: "\<And>i. i < ?bs \<Longrightarrow> length (candidates ! i) = n"
    and ll: "length logits = ?bs * n" and rl: "\<forall>r\<in>set logits. r \<noteq> [] \<and> length r < 2 ^ 30"
    using assms(2) by (auto simp: greedy_call_ok_def)
  have tp: "target_predict oc ?bs n logits = tp" for oc
  proof -
    have "\<forall>r\<in>set logits. r \<noteq> [] \<and> length r < 2 ^ 31 - 1" using rl by fastforce
    then show ?thesis by (simp add: target_predict_def tp_def row_argmax_eq)
  qed
  note vp = view_rows_props[of "map (int \<circ> torch_argmax) logits" ?bs n, folded tp_def]
  have ltp: "length tp = ?bs" and rect: "\<forall>r\<in>set tp. length r = n" using vp(1,2) ll by simp_all
  have mb: "0 \<le> m i \<and> m i < int n" if "i < ?bs" for i
    using prefix_matches_less[OF cl[OF that] n(1), of "tp ! i"] by (simp add: m_def)
  have cmp: "compare candidates tp = (map m [0..<?bs], map (\<lambda>i. tp ! i ! nat (m i)) [0..<?bs])"
  proof -
    have "compare candidates tp = (map2 (\<lambda>c t. int (prefix_matches c t)) candidates tp,
        map2 (\<lambda>c t. t ! prefix_matches c t) candidates tp)"
      using assms(1) ltp[symmetric] unfolding compare_ok_def by blast
    moreover have "map2 (\<lambda>c t. int (prefix_matches c t)) candidates tp = map m [0..<?bs]"
      by (rule nth_equalityI) (simp_all add: ltp m_def)
    moreover have "map2 (\<lambda>c t. t ! prefix_matches c t) candidates tp = map (\<lambda>i. tp ! i ! nat (m i)) [0..<?bs]"
      by (rule nth_equalityI) (simp_all add: ltp m_def)
    ultimately show ?thesis by simp
  qed
  have tok: "i64 (tp ! i ! j) = tp ! i ! j" if i: "i < ?bs" and j: "j < n" for i j
  proof -
    have "i * n + j < ?bs * n" using i j mult_le_mono1[of "Suc i" ?bs n] by simp
    then have r: "logits ! (i * n + j) \<in> set logits" using ll by simp
    then have "torch_argmax (logits ! (i * n + j)) < 2 ^ 30"
      using rl torch_argmax_less[of "logits ! (i * n + j)"] by fastforce
    then have "int (torch_argmax (logits ! (i * n + j))) < 2 ^ 63" by simp
    then show ?thesis using vp(3)[OF _ i j] ll \<open>i * n + j < ?bs * n\<close> by (simp add: i64_small)
  qed
  show ?thesis
  proof (cases cutoff)
    case None
    then show ?thesis
      by (auto simp: AcceptGreedy_def accept_greedy_def accept_greedy_triton_def Let_def tp cmp k_def)
  next
    case (Some vl)
    then have vl: "length vl = ?bs" "\<And>i. i < ?bs \<Longrightarrow> 1 \<le> vl ! i \<and> vl ! i \<le> int n"
      using assms(2) by (auto simp: greedy_call_ok_def)
    have nn: "int n < 2 ^ 29" using n(2) by (metis of_nat_less_iff of_nat_numeral of_nat_power)
    have sm: "small (map m [0..<?bs])" using mb nn by (fastforce simp: small_def)
    have sv: "small vl" using vl nn by (fastforce simp: small_def in_set_conv_nth)
    have ki: "k i = min (m i) (vl ! i - 1)" for i using Some by (simp add: k_def)
    have cap: "CapCorrectLen oc cpids buf ty vty (map m [0..<?bs]) vl
        = (map k [0..<?bs], map (\<lambda>i. m i - k i) [0..<?bs])" for oc
      using cap_dispatch[OF sm sv] vl(1) assms(3,5) by (auto simp: ki intro!: nth_equalityI)
    have kb: "0 \<le> k i \<and> k i < int n" if "i < ?bs" for i using mb[OF that] vl(2)[OF that] by (auto simp: ki min_def)
    have sk: "small (map k [0..<?bs])" using kb nn by (fastforce simp: small_def)
    have kn: "\<forall>i\<in>set (map k [0..<?bs]). i < int n" using kb by auto
    note rb = row_bonus_eq[OF rect _ sk kn, of buf pids]
    have bonus: "map (\<lambda>i. i64 (tp ! i ! nat (map k [0..<?bs] ! i))) [0..<length tp] = map (\<lambda>i. tp ! i ! nat (k i)) [0..<?bs]"
      using ltp kb tok by (auto simp: nat_less_iff)
    show ?thesis
      using rb ltp assms(3,4) bonus Some
      by (simp add: AcceptGreedy_def accept_greedy_def accept_greedy_triton_def Let_def tp cmp cap res_map_def)
  qed
qed

text \<open>C5. Greedy speculative decoding is lossless: on either device, whatever the block length,
  the cap and the order of the kernels' programs, the call returns; the accepted drafts are
  exactly the target's own greedy predictions, the bonus token is the prediction after them,
  and the cap never lets more than its length be committed.\<close>

theorem greedy_acceptance_lossless:
  assumes "compare_ok compare" "greedy_call_ok candidates logits n cutoff"
    and "length buf = length candidates" "full_grid pids (length candidates) 256" "full_grid cpids (length candidates) 1024"
  shows "\<exists>correct bonus trim. AcceptGreedy compare on_cuda pids cpids buf ty vty candidates logits n cutoff = Inr (correct, bonus, trim)
     \<and> (\<forall>i<length candidates. 0 \<le> correct ! i \<and> correct ! i < int n \<and> 0 \<le> trim ! i
         \<and> (\<forall>j<nat (correct ! i). candidates ! i ! Suc j = int (torch_argmax (logits ! (i * n + j))))
         \<and> bonus ! i = int (torch_argmax (logits ! (i * n + nat (correct ! i))))
         \<and> (\<forall>vl. cutoff = Some vl \<longrightarrow> correct ! i + 1 \<le> vl ! i))"
proof -
  let ?bs = "length candidates"
  let ?tp = "view_rows ?bs n (map (int \<circ> torch_argmax) logits)"
  define m where "m = (\<lambda>i. int (prefix_matches (candidates ! i) (?tp ! i)))"
  define k where "k = (\<lambda>i. case cutoff of None \<Rightarrow> m i | Some vl \<Rightarrow> min (m i) (vl ! i - 1))"
  have res: "AcceptGreedy compare on_cuda pids cpids buf ty vty candidates logits n cutoff
     = Inr (map k [0..<?bs], map (\<lambda>i. ?tp ! i ! nat (k i)) [0..<?bs], map (\<lambda>i. m i - k i) [0..<?bs])"
    unfolding k_def m_def by (rule accept_greedy_result[OF assms])
  have n: "0 < n" and cl: "\<And>i. i < ?bs \<Longrightarrow> length (candidates ! i) = n" and ll: "length logits = ?bs * n"
    using assms(2) by (auto simp: greedy_call_ok_def)
  have vp: "?tp ! i ! j = int (torch_argmax (logits ! (i * n + j)))" if i: "i < ?bs" and j: "j < n" for i j
  proof -
    have "i * n + j < ?bs * n" using i j mult_le_mono1[of "Suc i" ?bs n] by simp
    then show ?thesis using view_rows_props(3)[of "map (int \<circ> torch_argmax) logits" ?bs n, OF _ i j] ll by simp
  qed
  have "0 \<le> k i \<and> k i < int n \<and> 0 \<le> m i - k i
         \<and> (\<forall>j<nat (k i). candidates ! i ! Suc j = int (torch_argmax (logits ! (i * n + j))))
         \<and> ?tp ! i ! nat (k i) = int (torch_argmax (logits ! (i * n + nat (k i))))
         \<and> (\<forall>vl. cutoff = Some vl \<longrightarrow> k i + 1 \<le> vl ! i)" if i: "i < ?bs" for i
  proof -
    have mb: "0 \<le> m i" "m i < int n" using prefix_matches_less[OF cl[OF i] n, of "?tp ! i"] by (simp_all add: m_def)
    have km: "k i \<le> m i" by (simp add: k_def split: option.split)
    have k0: "0 \<le> k i"
    proof (cases cutoff)
      case (Some vl)
      then have "vl ! i \<in> set vl" "\<forall>v\<in>set vl. 1 \<le> v" using assms(2) i by (auto simp: greedy_call_ok_def)
      then have "1 \<le> vl ! i" by blast
      then show ?thesis using mb Some by (simp add: k_def)
    qed (use mb in \<open>simp add: k_def\<close>)
    have "candidates ! i ! Suc j = int (torch_argmax (logits ! (i * n + j)))" if j: "j < nat (k i)" for j
    proof -
      have "j < prefix_matches (candidates ! i) (?tp ! i)" using j km by (simp add: m_def)
      then show ?thesis using prefix_matches_eq vp[OF i, of j] j km mb by fastforce
    qed
    moreover have "nat (k i) < n" using k0 km mb by linarith
    ultimately show ?thesis using k0 km mb vp[OF i] by (auto simp: k_def split: option.split)
  qed
  note row = this
  let ?P = "\<lambda>correct bonus trim. \<forall>i<?bs. 0 \<le> correct ! i \<and> correct ! i < int n \<and> 0 \<le> trim ! i
         \<and> (\<forall>j<nat (correct ! i). candidates ! i ! Suc j = int (torch_argmax (logits ! (i * n + j))))
         \<and> bonus ! i = int (torch_argmax (logits ! (i * n + nat (correct ! i))))
         \<and> (\<forall>vl. cutoff = Some vl \<longrightarrow> correct ! i + 1 \<le> vl ! i)"
  have "?P (map k [0..<?bs]) (map (\<lambda>i. ?tp ! i ! nat (k i)) [0..<?bs]) (map (\<lambda>i. m i - k i) [0..<?bs])"
  proof (intro allI impI)
    fix i assume i: "i < ?bs"
    then have nth: "map f [0..<?bs] ! i = f i" for f :: "nat \<Rightarrow> int" by simp
    show "0 \<le> map k [0..<?bs] ! i \<and> map k [0..<?bs] ! i < int n \<and> 0 \<le> map (\<lambda>i. m i - k i) [0..<?bs] ! i
         \<and> (\<forall>j<nat (map k [0..<?bs] ! i). candidates ! i ! Suc j = int (torch_argmax (logits ! (i * n + j))))
         \<and> map (\<lambda>i. ?tp ! i ! nat (k i)) [0..<?bs] ! i = int (torch_argmax (logits ! (i * n + nat (map k [0..<?bs] ! i))))
         \<and> (\<forall>vl. cutoff = Some vl \<longrightarrow> map k [0..<?bs] ! i + 1 \<le> vl ! i)"
      unfolding nth by (rule row[OF i])
  qed
  then show ?thesis using res by blast
qed

text \<open>The external comparison, instantiated by a function that behaves as documented.\<close>

definition demo_compare :: compare_fn where
  "demo_compare cands tp = (map2 (\<lambda>c t. int (prefix_matches c t)) cands tp,
     map2 (\<lambda>c t. t ! prefix_matches c t) cands tp)"

theorem greedy_acceptance_lossless_witness:
  "\<exists>correct bonus trim. AcceptGreedy demo_compare True [0] [0] [9] Int32 Int64 [[5, 1, 2]]
        [[0, 7, (3::nat)], [1, 2, 8], [9, 0, 0]] 3 (Some [2]) = Inr (correct, bonus, trim)
     \<and> correct ! 0 + 1 \<le> 2"
proof -
  have ok: "greedy_call_ok [[5, 1, 2]] [[0, 7, (3::nat)], [1, 2, 8], [9, 0, 0]] 3 (Some [2])"
    by (simp add: greedy_call_ok_def)
  have cmp: "compare_ok demo_compare" by (simp add: compare_ok_def demo_compare_def)
  have grid: "full_grid [0] (length [[5, 1, 2 :: int]]) 256" "full_grid [0] (length [[5, 1, 2 :: int]]) 1024"
    by (auto simp: full_grid_def cdiv_def)
  show ?thesis
    using greedy_acceptance_lossless[OF cmp ok _ grid, of "[9]" True Int32 Int64] by auto
qed

section \<open>\<open>SoftmaxTemp\<close>\<close>

text \<open>Exact real arithmetic; \<open>ex\<close> is the exponential.\<close>

definition torch_softmax :: "(real \<Rightarrow> real) \<Rightarrow> real list \<Rightarrow> real list" where
  "torch_softmax ex xs =
     (let m = Max (set xs); es = map (\<lambda>x. ex (x - m)) xs in map (\<lambda>e. e / sum_list es) es)"

definition softmax_temp :: "(real \<Rightarrow> real) \<Rightarrow> real list list \<Rightarrow> real list \<Rightarrow> nat \<Rightarrow> real list list res" where
  "softmax_temp ex logits temps rpr =
     (let num_rows = length logits; bs = num_rows div rpr
      in ensure (bs * rpr = num_rows) AssertionError
        (ensure (length temps = bs) RuntimeError
          (let temp_per_row = concat (map (replicate rpr) temps)
           in Inr (map2 (\<lambda>row t. torch_softmax ex (map (\<lambda>x. x / t) row)) logits temp_per_row))))"

definition omax :: "real option \<Rightarrow> real option \<Rightarrow> real option" where
  "omax a b = (case (a, b) of (None, _) \<Rightarrow> b | (_, None) \<Rightarrow> a | (Some x, Some y) \<Rightarrow> Some (max x y))"

text \<open>One program: three passes over the vocabulary in blocks; None is minus infinity.\<close>

definition softmax_kernel_row :: "(real \<Rightarrow> real) \<Rightarrow> nat \<Rightarrow> real list \<Rightarrow> real \<Rightarrow> real list" where
  "softmax_kernel_row ex block row temp =
     (let vocab = length row; blocks = [0..<cdiv vocab block]; x = (\<lambda>i. row ! i / temp);
          tile_max = (\<lambda>k. let vs = map x (tile vocab block k) in if vs = [] then None else Some (Max (set vs)));
          row_max = the (fold (\<lambda>k m. omax m (tile_max k)) blocks None);
          sum_exp = fold (\<lambda>k s. s + sum_list (map (\<lambda>i. ex (x i - row_max)) (tile vocab block k))) blocks 0
      in concat (map (\<lambda>k. map (\<lambda>i. ex (x i - row_max) / sum_exp) (tile vocab block k)) blocks))"

definition softmax_temp_triton ::
    "(real \<Rightarrow> real) \<Rightarrow> nat list \<Rightarrow> real list list \<Rightarrow> real list list \<Rightarrow> real list \<Rightarrow> nat \<Rightarrow> real list list res" where
  "softmax_temp_triton ex pids buf logits temps rpr =
     (let num_rows = length logits; bs = num_rows div rpr
      in ensure (bs * rpr = num_rows) AssertionError
        (ensure (length temps = bs) RuntimeError
          (Inr (launch_1d pids 1 num_rows
             (\<lambda>row. softmax_kernel_row ex 4096 (logits ! row) (tl_load temps (int (row div rpr)))) buf))))"

text \<open>\<open>fi\<close> is flashinfer's \<open>softmax(logits, temperature)\<close>, when installed.\<close>

definition softmax_temp_flashinfer ::
    "(real list list \<Rightarrow> real list \<Rightarrow> real list list) option \<Rightarrow> real list list \<Rightarrow> real list \<Rightarrow> nat \<Rightarrow> real list list res" where
  "softmax_temp_flashinfer fi logits temps rpr =
     (case fi of None \<Rightarrow> Inl RuntimeError | Some f \<Rightarrow>
        let num_rows = length logits; bs = num_rows div rpr
        in ensure (bs * rpr = num_rows) AssertionError
          (ensure (length temps = bs) RuntimeError (Inr (f logits (concat (map (replicate rpr) temps))))))"

definition SoftmaxTemp ::
    "bool \<Rightarrow> (real list list \<Rightarrow> real list \<Rightarrow> real list list) option \<Rightarrow> (real \<Rightarrow> real) \<Rightarrow> nat list \<Rightarrow> real list list
       \<Rightarrow> real list list \<Rightarrow> real list \<Rightarrow> nat \<Rightarrow> real list list res" where
  "SoftmaxTemp on_cuda fi ex pids buf logits temps rpr =
     (if \<not> on_cuda then softmax_temp ex logits temps rpr
      else if fi \<noteq> None then softmax_temp_flashinfer fi logits temps rpr
      else softmax_temp_triton ex pids buf logits temps rpr)"

lemma fold_omax:
  assumes "\<forall>k\<in>set ks. g k = (if vs k = [] then None else Some (Max (set (vs k))))"
  shows "fold (\<lambda>k m. omax m (g k)) ks acc
     = (let us = concat (map vs ks) in if us = [] then acc else omax acc (Some (Max (set us))))"
  using assms
proof (induction ks arbitrary: acc)
  case (Cons k ks)
  have om: "omax (omax acc (Some a)) (Some b) = omax acc (Some (max a b))" for a b
    by (cases acc) (simp_all add: omax_def max.assoc)
  have nn: "omax acc None = acc" by (cases acc) (simp_all add: omax_def)
  have "Max (set (vs k) \<union> set (concat (map vs ks))) = max (Max (set (vs k))) (Max (set (concat (map vs ks))))"
    if "vs k \<noteq> []" "concat (map vs ks) \<noteq> []" by (rule Max_Un) (use that in auto)
  moreover have "(\<Union>a\<in>set ks. set (vs a)) = {}" if "concat (map vs ks) = []" using that by auto
  ultimately show ?case using Cons by (auto simp: Let_def om nn simp del: concat_eq_Nil_conv)
qed simp

lemma fold_sums: "fold (\<lambda>k s. s + sum_list (f k)) ks (a :: real) = a + sum_list (concat (map f ks))"
  by (induction ks arbitrary: a) simp_all

lemma softmax_kernel_row_eq:
  assumes "row \<noteq> []" "0 < block"
  shows "softmax_kernel_row ex block row temp = torch_softmax ex (map (\<lambda>x. x / temp) row)"
proof -
  let ?n = "length row" and ?B = "[0..<cdiv (length row) block]" and ?x = "\<lambda>i. row ! i / temp"
  have cover: "concat (map (\<lambda>k. map f (tile ?n block k)) ?B) = map f [0..<?n]" for f :: "nat \<Rightarrow> real"
  proof -
    have "concat (map (\<lambda>k. map f (tile ?n block k)) ?B) = map f (concat (map (tile ?n block) ?B))"
      by (simp add: map_concat o_def)
    then show ?thesis by (simp add: tiles_cover[OF assms(2)])
  qed
  have xs: "map ?x [0..<?n] = map (\<lambda>x. x / temp) row" by (rule map_upt_nth) simp
  define m where "m = Max (set (map (\<lambda>x. x / temp) row))"
  have mx: "fold (\<lambda>k m. omax m (let vs = map ?x (tile ?n block k) in if vs = [] then None else Some (Max (set vs)))) ?B None
      = Some m"
    by (subst fold_omax[where vs = "\<lambda>k. map ?x (tile ?n block k)"])
       (use assms(1) in \<open>simp_all add: Let_def cover xs m_def omax_def del: concat_eq_Nil_conv\<close>)
  define t where "t = sum_list (map (\<lambda>x. ex (x - m)) (map (\<lambda>x. x / temp) row))"
  have sm: "fold (\<lambda>k s. s + sum_list (map (\<lambda>i. ex (?x i - m)) (tile ?n block k))) ?B 0 = t"
    by (simp add: fold_sums cover t_def o_def flip: map_upt_nth[OF refl, of _ row])
  have "softmax_kernel_row ex block row temp = map (\<lambda>i. ex (?x i - m) / t) [0..<?n]"
    unfolding softmax_kernel_row_def Let_def
    by (simp only: mx[unfolded Let_def] option.sel sm cover)
  also have "\<dots> = torch_softmax ex (map (\<lambda>x. x / temp) row)"
  proof -
    have "torch_softmax ex (map (\<lambda>x. x / temp) row) = map (\<lambda>x. ex (x / temp - m) / t) row"
      unfolding torch_softmax_def Let_def m_def[symmetric] t_def[symmetric] by (simp add: o_def)
    moreover have "map (\<lambda>i. ex (?x i - m) / t) [0..<?n] = map (\<lambda>x. ex (x / temp - m) / t) row"
      by (rule map_upt_nth) simp
    ultimately show ?thesis by simp
  qed
  finally show ?thesis .
qed

lemma sum_list_scale: "sum_list (map (\<lambda>e. e / (c::real)) es) = sum_list es / c"
  by (induction es) (simp_all add: add_divide_distrib)

text \<open>The temperature softmax: for every batch the blocked three-pass kernel returns exactly
  what the torch path returns, errors included, and every row it returns is a probability
  distribution.\<close>

theorem softmax_temp_paths_agree:
  assumes "\<forall>x. 0 < ex x" "\<forall>r\<in>set logits. r \<noteq> []" "0 < rpr"
    and "length buf = length logits" "set pids = {..<length logits}"
  shows "SoftmaxTemp True None ex pids buf logits temps rpr = SoftmaxTemp False None ex pids buf logits temps rpr
     \<and> (\<forall>out. SoftmaxTemp True None ex pids buf logits temps rpr = Inr out \<longrightarrow>
          length out = length logits \<and> (\<forall>r\<in>set out. sum_list r = 1 \<and> (\<forall>p\<in>set r. 0 \<le> p)))"
proof -
  let ?n = "length logits"
  have eq: "softmax_temp_triton ex pids buf logits temps rpr = softmax_temp ex logits temps rpr"
  proof (cases "?n div rpr * rpr = ?n \<and> length temps = ?n div rpr")
    case True
    then have lt: "length temps * rpr = ?n" by simp
    have grid: "full_grid pids ?n 1" using assms(5) by (simp add: full_grid_def cdiv_def)
    have "launch_1d pids 1 ?n (\<lambda>row. softmax_kernel_row ex 4096 (logits ! row) (tl_load temps (int (row div rpr)))) buf
        = map2 (\<lambda>row t. torch_softmax ex (map (\<lambda>x. x / t) row)) logits (concat (map (replicate rpr) temps))"
      (is "?l = ?r")
    proof -
      have "?l = map (\<lambda>row. softmax_kernel_row ex 4096 (logits ! row) (tl_load temps (int (row div rpr)))) [0..<?n]"
        by (rule launch_1d_eq_map[OF _ assms(4) grid]) simp
      also have "\<dots> = ?r"
      proof (rule nth_equalityI)
        show "length (map (\<lambda>row. softmax_kernel_row ex 4096 (logits ! row) (tl_load temps (int (row div rpr)))) [0..<?n]) = length ?r"
          using lt by (simp add: length_replicate_concat)
        fix i assume "i < length (map (\<lambda>row. softmax_kernel_row ex 4096 (logits ! row) (tl_load temps (int (row div rpr)))) [0..<?n])"
        then have i: "i < ?n" by simp
        then have "i div rpr < length temps" using lt assms(3) by (simp add: div_less_iff_less_mult)
        then have "tl_load temps (int (i div rpr)) = concat (map (replicate rpr) temps) ! i"
          using i lt replicate_concat_nth[of i temps rpr] by (simp add: tl_load_in)
        moreover have "logits ! i \<noteq> []" using assms(2) i by simp
        ultimately show "map (\<lambda>row. softmax_kernel_row ex 4096 (logits ! row) (tl_load temps (int (row div rpr)))) [0..<?n] ! i = ?r ! i"
          using i lt by (simp add: softmax_kernel_row_eq length_replicate_concat)
      qed
      finally show ?thesis .
    qed
    then show ?thesis using True by (simp add: softmax_temp_triton_def softmax_temp_def Let_def)
  next
    case False
    then show ?thesis by (auto simp: softmax_temp_triton_def softmax_temp_def Let_def ensure_def)
  qed
  have dist: "sum_list (torch_softmax ex xs) = 1 \<and> (\<forall>p\<in>set (torch_softmax ex xs). 0 \<le> p)" if "xs \<noteq> []" for xs
  proof -
    define es where "es = map (\<lambda>x. ex (x - Max (set xs))) xs"
    have pos: "\<forall>e\<in>set es. 0 < e" "es \<noteq> []" using assms(1) that by (auto simp: es_def)
    then have s: "0 < sum_list es"
    proof (cases es)
      case (Cons e fs)
      then have "0 \<le> sum_list fs" using pos(1) by (intro sum_list_nonneg) (simp add: less_imp_le)
      then show ?thesis using Cons pos(1) by simp
    qed simp
    have "sum_list (map (\<lambda>e. e / sum_list es) es) = sum_list es / sum_list es"
      by (rule sum_list_scale)
    moreover have t: "torch_softmax ex xs = map (\<lambda>e. e / sum_list es) es"
      unfolding torch_softmax_def Let_def es_def ..
    ultimately show ?thesis using s pos(1) unfolding t by (auto simp: less_imp_le)
  qed
  have "length out = ?n \<and> (\<forall>r\<in>set out. sum_list r = 1 \<and> (\<forall>p\<in>set r. 0 \<le> p))"
    if "softmax_temp ex logits temps rpr = Inr out" for out
  proof -
    have out: "out = map2 (\<lambda>row t. torch_softmax ex (map (\<lambda>x. x / t) row)) logits (concat (map (replicate rpr) temps))"
      and lt: "length temps * rpr = ?n"
      using that by (auto simp: softmax_temp_def Let_def ensure_Inr)
    have "sum_list r = 1 \<and> (\<forall>p\<in>set r. 0 \<le> p)" if hr: "r \<in> set out" for r
    proof -
      obtain q where q: "q \<in> set (zip logits (concat (map (replicate rpr) temps)))"
        and r: "r = torch_softmax ex (map (\<lambda>x. x / snd q) (fst q))"
        proof -
        have "r \<in> (\<lambda>q. torch_softmax ex (map (\<lambda>x. x / snd q) (fst q))) ` set (zip logits (concat (map (replicate rpr) temps)))"
          using hr unfolding out by (simp add: split_beta)
        then show thesis by (rule imageE) (rule that, assumption+)
      qed
      have "fst q \<in> set logits" using q by (metis prod.collapse set_zip_leftD)
      then show ?thesis using dist[of "map (\<lambda>x. x / snd q) (fst q)"] assms(2) r by simp
    qed
    then show ?thesis using out lt by (simp add: length_replicate_concat)
  qed
  then show ?thesis using eq by (simp add: SoftmaxTemp_def)
qed

theorem softmax_temp_paths_agree_witness:
  "SoftmaxTemp True None (\<lambda>x. 1 + x * x) [1, 0] [[], []] [[1, 2], [3, 0]] [2] 2
     = SoftmaxTemp False None (\<lambda>x. 1 + x * x) [1, 0] [[], []] [[1, 2], [3, 0]] [2] 2"
proof -
  have "set [1, 0] = {..<length [[1, 2], [3, 0 :: real]]}" by auto
  moreover have "\<forall>x::real. 0 < 1 + x * x" by (simp add: add_pos_nonneg)
  ultimately show ?thesis
    using softmax_temp_paths_agree[of "\<lambda>x. 1 + x * x" "[[1, 2], [3, 0]]" 2 "[[], []]" "[1, 0]" "[2]"] by simp
qed

section \<open>\<open>AcceptSampling\<close>\<close>

text \<open>External: \<open>build\<close> is \<open>build_dflash_verify_target_probs\<close>, \<open>chain\<close> the chain sampler's outputs
  (\<open>accept_token_num\<close>, \<open>accept_index\<close>, \<open>predicts\<close>) for the candidates, target and draft
  probabilities (its random draws are inside; both paths call the same sampler).  The softmax is
  \<open>SoftmaxTemp.execute\<close>, which makes its own choice of an implementation; \<open>dev\<close> says where the
  tensors are and what its kernel runs on.\<close>

type_synonym chain_fn = "int list list \<Rightarrow> real list list \<Rightarrow> real list list \<Rightarrow> int list \<times> int list list \<times> int list"

record sampling_call =
  need_top_k :: bool
  need_top_p :: bool
  temperatures :: "real list"
  target_logits :: "real list list"
  draft_probs :: "real list list"
  block_len :: nat

record softmax_env =
  sm_flashinfer :: "(real list list \<Rightarrow> real list \<Rightarrow> real list list) option"
  sm_exp :: "real \<Rightarrow> real"
  sm_pids :: "nat list"
  sm_buf :: "real list list"

definition accept_sampling_core ::
    "bool \<Rightarrow> softmax_env \<Rightarrow> (sampling_call \<Rightarrow> real list list res) \<Rightarrow> chain_fn
       \<Rightarrow> (int list \<Rightarrow> int list \<Rightarrow> int list \<times> int list) \<Rightarrow> int list list \<Rightarrow> sampling_call \<Rightarrow> int list option
       \<Rightarrow> (int list \<times> int list \<times> int list list \<times> int list) res" where
  "accept_sampling_core on_cuda dev build chain cap candidates call cutoff =
     res_bind (if \<not> need_top_k call \<and> \<not> need_top_p call
               then res_bind (SoftmaxTemp on_cuda (sm_flashinfer dev) (sm_exp dev) (sm_pids dev) (sm_buf dev)
                      (target_logits call) (temperatures call) (block_len call))
                    (\<lambda>probs. ensure (length probs = length candidates * block_len call) RuntimeError (Inr probs))
               else build call) (\<lambda>probs.
     let (accept_num, accept_index, predicts) = chain candidates probs (draft_probs call);
         (correct, trim) = (case cutoff of None \<Rightarrow> (accept_num, map (\<lambda>_. 0) accept_num) | Some vl \<Rightarrow> cap accept_num vl)
     in Inr (correct, trim, accept_index, predicts))"

definition accept_sampling ::
    "bool \<Rightarrow> softmax_env \<Rightarrow> (sampling_call \<Rightarrow> real list list res) \<Rightarrow> chain_fn
       \<Rightarrow> (int list \<Rightarrow> int list \<Rightarrow> int list \<times> int list) \<Rightarrow> int list list \<Rightarrow> sampling_call \<Rightarrow> int list option
       \<Rightarrow> (int list \<times> int list \<times> int list) res" where
  "accept_sampling on_cuda dev build chain cap candidates call cutoff =
     res_bind (accept_sampling_core on_cuda dev build chain cap candidates call cutoff) (\<lambda>(correct, trim, accept_index, predicts).
     res_map (\<lambda>bonus. (correct, bonus, trim)) (two_level_bonus accept_index predicts correct))"

definition accept_sampling_triton ::
    "nat list \<Rightarrow> int list \<Rightarrow> bool \<Rightarrow> softmax_env \<Rightarrow> (sampling_call \<Rightarrow> real list list res)
       \<Rightarrow> chain_fn \<Rightarrow> (int list \<Rightarrow> int list \<Rightarrow> int list \<times> int list) \<Rightarrow> int list list \<Rightarrow> sampling_call \<Rightarrow> int list option
       \<Rightarrow> (int list \<times> int list \<times> int list) res" where
  "accept_sampling_triton pids buf on_cuda dev build chain cap candidates call cutoff =
     res_bind (accept_sampling_core on_cuda dev build chain cap candidates call cutoff) (\<lambda>(correct, trim, accept_index, predicts).
     Inr (correct, gather_two_level_bonus_triton pids buf accept_index (length (accept_index ! 0)) predicts correct, trim))"

text \<open>The dispatcher: every tensor of the call is on one device, so the softmax, the cap and the bonus
  gather take the same side.\<close>

definition AcceptSampling ::
    "bool \<Rightarrow> nat list \<Rightarrow> nat list \<Rightarrow> int list \<Rightarrow> int_ty \<Rightarrow> int_ty \<Rightarrow> softmax_env \<Rightarrow> (sampling_call \<Rightarrow> real list list res)
       \<Rightarrow> chain_fn \<Rightarrow> int list list \<Rightarrow> sampling_call \<Rightarrow> int list option
       \<Rightarrow> (int list \<times> int list \<times> int list) res" where
  "AcceptSampling on_cuda pids cpids buf ty vty dev build chain candidates call cutoff =
     (let cap = CapCorrectLen on_cuda cpids buf ty vty
      in if on_cuda then accept_sampling_triton pids buf on_cuda dev build chain cap candidates call cutoff
         else accept_sampling on_cuda dev build chain cap candidates call cutoff)"

text \<open>The target distributions of the call: every row of logits over its request's temperature,
  through the softmax.\<close>

definition target_rows :: "(real \<Rightarrow> real) \<Rightarrow> sampling_call \<Rightarrow> real list list" where
  "target_rows ex call = map2 (\<lambda>row t. torch_softmax ex (map (\<lambda>x. x / t) row)) (target_logits call)
     (concat (map (replicate (block_len call)) (temperatures call)))"

text \<open>What flashinfer documents of its \<open>softmax(logits, temperature)\<close>, where it is installed.\<close>

definition flashinfer_ok :: "softmax_env \<Rightarrow> bool" where
  "flashinfer_ok dev \<longleftrightarrow> (\<forall>f logits temps. sm_flashinfer dev = Some f \<longrightarrow>
     f logits temps = map2 (\<lambda>row t. torch_softmax (sm_exp dev) (map (\<lambda>x. x / t) row)) logits temps)"

lemma softmax_rows:
  assumes "\<forall>x. 0 < sm_exp dev x" "flashinfer_ok dev" "\<forall>r\<in>set (target_logits call). r \<noteq> []" "0 < block_len call"
    and "length (temperatures call) * block_len call = length (target_logits call)"
    and "length (sm_buf dev) = length (target_logits call)" "set (sm_pids dev) = {..<length (target_logits call)}"
  shows "SoftmaxTemp on_cuda (sm_flashinfer dev) (sm_exp dev) (sm_pids dev) (sm_buf dev) (target_logits call) (temperatures call)
     (block_len call) = Inr (target_rows (sm_exp dev) call)"
proof -
  let ?L = "target_logits call" and ?T = "temperatures call" and ?n = "block_len call"
  have d: "length ?L div ?n * ?n = length ?L" "length ?T = length ?L div ?n"
    using assms(4,5) by (metis nonzero_mult_div_cancel_right not_gr_zero)+
  have torch: "softmax_temp (sm_exp dev) ?L ?T ?n = Inr (target_rows (sm_exp dev) call)"
    using d by (simp add: softmax_temp_def Let_def target_rows_def)
  show ?thesis
  proof (cases on_cuda)
    case False
    then show ?thesis using torch by (simp add: SoftmaxTemp_def)
  next
    case cuda: True
    show ?thesis
    proof (cases "sm_flashinfer dev")
      case None
      have "SoftmaxTemp True None (sm_exp dev) (sm_pids dev) (sm_buf dev) ?L ?T ?n
          = SoftmaxTemp False None (sm_exp dev) (sm_pids dev) (sm_buf dev) ?L ?T ?n"
        using softmax_temp_paths_agree[OF assms(1,3,4,6,7), of ?T] by blast
      then show ?thesis using cuda None torch by (simp add: SoftmaxTemp_def)
    next
      case (Some f)
      then have "f ?L (concat (map (replicate ?n) ?T)) = target_rows (sm_exp dev) call"
        using assms(2) unfolding flashinfer_ok_def target_rows_def by blast
      then show ?thesis using cuda Some d by (simp add: SoftmaxTemp_def softmax_temp_flashinfer_def Let_def)
    qed
  qed
qed

text \<open>What the sampler documents of its outputs: one row of indices per request, an accept count
  inside the block, and indices of accepted positions that point into \<open>predicts\<close>.\<close>

definition chain_ok :: "chain_fn \<Rightarrow> nat \<Rightarrow> bool" where
  "chain_ok chain n \<longleftrightarrow> (\<forall>cands probs dp. let (num, idx, pred) = chain cands probs dp in
     length num = length cands \<and> length idx = length cands \<and> (\<forall>r\<in>set idx. length r = n)
     \<and> (\<forall>x\<in>set num. 0 \<le> x \<and> x < int n)
     \<and> (\<forall>i<length cands. \<forall>j\<le>nat (num ! i). 0 \<le> idx ! i ! j \<and> idx ! i ! j < int (length pred) \<and> length pred < 2 ^ 31))"

lemma two_level_eq:
  assumes "\<forall>r\<in>set idx. length r = n" "length correct = length idx" "0 < n"
    and "\<And>i. i < length idx \<Longrightarrow> 0 \<le> correct ! i \<and> correct ! i < int n \<and> correct ! i < 2 ^ 31
       \<and> 0 \<le> idx ! i ! nat (correct ! i) \<and> idx ! i ! nat (correct ! i) < int (length pred) \<and> length pred < 2 ^ 31"
    and "length buf = length idx" "full_grid pids (length idx) 256"
  shows "two_level_bonus idx pred correct = Inr (gather_two_level_bonus_triton pids buf idx n pred correct)"
proof -
  have lane: "i64 (tl_load pred (i64 (tl_load (concat idx) (int i * int n + i64 (tl_load correct (int i))))))
      = i64 (pred ! nat (idx ! i ! nat (correct ! i)))" if i: "i < length idx" for i
  proof -
    note b = assms(4)[OF i]
    have pl: "int (length pred) < 2 ^ 31" using b by (metis of_nat_less_iff of_nat_numeral of_nat_power)
    have c: "i64 (tl_load correct (int i)) = correct ! i"
      using b i assms(2) by (simp add: tl_load_in i64_small)
    have "tl_load (concat idx) (int i * int n + correct ! i) = idx ! i ! nat (correct ! i)"
      by (rule concat_rect_load[OF assms(1) i]) (use b in auto)
    moreover have "i64 (idx ! i ! nat (correct ! i)) = idx ! i ! nat (correct ! i)"
      using b pl by (intro i64_small) auto
    ultimately show ?thesis using b c by (simp add: tl_load_def nat_less_iff)
  qed
  have "two_level_bonus idx pred correct = Inr (map (\<lambda>i. i64 (pred ! nat (idx ! i ! nat (correct ! i)))) [0..<length idx])"
    using assms(1,2,4) by (auto simp: two_level_bonus_def res_list_Inr py_get_nonneg res_map_def nat_less_iff)
  moreover have "gather_two_level_bonus_triton pids buf idx n pred correct
      = map (\<lambda>i. i64 (pred ! nat (idx ! i ! nat (correct ! i)))) [0..<length idx]"
    unfolding gather_two_level_bonus_triton_def launch_1d_eq_map[OF _ assms(5,6), simplified]
    using lane by simp
  ultimately show ?thesis by simp
qed

lemma cap_within:
  assumes "small num" "small vl" "length vl = length num" "\<forall>v\<in>set vl. 1 \<le> v"
    and "length buf = length num" "full_grid pids (length num) 1024" "i < length num"
    and "CapCorrectLen oc pids buf ty vty num vl = (c, t)"
  shows "length c = length num \<and> 0 \<le> c ! i \<and> c ! i \<le> num ! i \<and> c ! i + 1 \<le> vl ! i \<and> c ! i + t ! i = num ! i"
proof -
  have "c = map2 (\<lambda>c v. min c (v - 1)) num vl" "t = map2 (\<lambda>c v. c - min c (v - 1)) num vl"
    using cap_dispatch[OF assms(1-3,5,6), of oc ty vty] assms(8) by simp_all
  moreover have "0 \<le> num ! i" using small_nth[OF assms(1,7)] by simp
  moreover have "1 \<le> vl ! i" using assms(3,4,7) by simp
  ultimately show ?thesis using assms(3,7) by simp
qed

text \<open>C32. Sampling acceptance: the torch and the Triton path, each with the softmax, the cap and the
  bonus gather it picks, return the same result for every call.  Without top-k and top-p filters
  the sampler is given, on both, the softmax of the logits over the requests' temperatures (from
  the blocked three-pass kernel, from torch, or from flashinfer where that is installed); a cut-off
  keeps at least the bonus position and never commits past its verify length, and no accepted draft
  is lost count of.  Real arithmetic is exact; the sampler's outputs are as documented.\<close>

theorem sampling_paths_agree:
  assumes "chain_ok chain n" "0 < n" "n < 2 ^ 30" "candidates \<noteq> []"
    and "\<forall>vl. cutoff = Some vl \<longrightarrow> length vl = length candidates \<and> small vl \<and> (\<forall>v\<in>set vl. 1 \<le> v)"
    and "length buf = length candidates" "full_grid pids (length candidates) 256" "full_grid cpids (length candidates) 1024"
    and "block_len call = n" "length (temperatures call) = length candidates"
    and "length (target_logits call) = length candidates * n" "\<forall>r\<in>set (target_logits call). r \<noteq> []"
    and "\<forall>x. 0 < sm_exp dev x" "flashinfer_ok dev"
    and "length (sm_buf dev) = length (target_logits call)" "set (sm_pids dev) = {..<length (target_logits call)}"
    and "build call = Inr probs'"
  shows "\<exists>correct bonus trim num idx pred. AcceptSampling True pids cpids buf ty vty dev build chain candidates call cutoff = Inr (correct, bonus, trim)
     \<and> AcceptSampling False pids cpids buf ty vty dev build chain candidates call cutoff = Inr (correct, bonus, trim)
     \<and> chain candidates (if \<not> need_top_k call \<and> \<not> need_top_p call then target_rows (sm_exp dev) call else probs') (draft_probs call)
         = (num, idx, pred)
     \<and> (\<forall>i<length candidates. 0 \<le> correct ! i \<and> correct ! i + trim ! i = num ! i
          \<and> (\<forall>vl. cutoff = Some vl \<longrightarrow> correct ! i + 1 \<le> vl ! i))"
proof -
  let ?bs = "length candidates"
  define pr where "pr = (if \<not> need_top_k call \<and> \<not> need_top_p call then target_rows (sm_exp dev) call else probs')"
  have "length (temperatures call) * block_len call = length (target_logits call)" using assms(9-11) by simp
  note soft = softmax_rows[OF assms(13,14,12) _ this assms(15,16)]
  have rows: "length (target_rows (sm_exp dev) call) = ?bs * n"
    using assms(9-11) by (simp add: target_rows_def length_replicate_concat)
  obtain num idx pred where ch: "chain candidates pr (draft_probs call) = (num, idx, pred)" by (metis prod_cases3)
  have ok: "length num = ?bs" "length idx = ?bs" "\<forall>r\<in>set idx. length r = n" "\<forall>x\<in>set num. 0 \<le> x \<and> x < int n"
    "\<And>i j. i < ?bs \<Longrightarrow> j \<le> nat (num ! i) \<Longrightarrow> 0 \<le> idx ! i ! j \<and> idx ! i ! j < int (length pred) \<and> length pred < 2 ^ 31"
    using assms(1)[unfolded chain_ok_def, rule_format, of candidates pr "draft_probs call"] ch by (simp_all add: Let_def)
  have nn: "int n < 2 ^ 30" using assms(3) by (metis of_nat_less_iff of_nat_numeral of_nat_power)
  have sm: "small num" using ok(4) nn by (fastforce simp: small_def)
  define ct where "ct = (case cutoff of None \<Rightarrow> (num, map (\<lambda>_. 0) num) | Some vl \<Rightarrow> CapCorrectLen False cpids buf ty vty num vl)"
  have capsame: "(case cutoff of None \<Rightarrow> (num, map (\<lambda>_. 0) num) | Some vl \<Rightarrow> CapCorrectLen oc cpids buf ty vty num vl) = ct" for oc
  proof (cases cutoff)
    case (Some vl)
    then show ?thesis using cap_dispatch[OF sm, of vl buf cpids] assms(5,6,8) ok(1) by (simp add: ct_def)
  qed (simp add: ct_def)
  obtain c t where cteq: "ct = (c, t)" by fastforce
  have row: "length c = ?bs \<and> 0 \<le> c ! i \<and> c ! i \<le> num ! i \<and> c ! i + t ! i = num ! i
      \<and> (\<forall>vl. cutoff = Some vl \<longrightarrow> c ! i + 1 \<le> vl ! i)" if i: "i < ?bs" for i
  proof (cases cutoff)
    case None
    then show ?thesis using cteq ok(1) small_nth[OF sm, of i] i by (auto simp: ct_def)
  next
    case (Some vl)
    have "CapCorrectLen False cpids buf ty vty num vl = (c, t)" using cteq Some by (simp add: ct_def)
    have v: "length vl = ?bs" "small vl" "\<forall>v\<in>set vl. 1 \<le> v" using assms(5) Some by simp_all
    have "length c = length num \<and> 0 \<le> c ! i \<and> c ! i \<le> num ! i \<and> c ! i + 1 \<le> vl ! i \<and> c ! i + t ! i = num ! i"
      by (rule cap_within[OF sm v(2) _ v(3) _ _ _ \<open>CapCorrectLen False cpids buf ty vty num vl = (c, t)\<close>])
        (use v(1) ok(1) assms(6,8) i in simp_all)
    then show ?thesis using Some ok(1) by simp
  qed
  have "0 < ?bs" using assms(4) by simp
  then have lc: "length c = length idx" using row[of 0] ok(2) by simp
  have core: "accept_sampling_core oc dev build chain (CapCorrectLen oc cpids buf ty vty) candidates call cutoff = Inr (c, t, idx, pred)" for oc
    using assms(2,9,17) soft[of oc] rows ch capsame[of oc] cteq by (auto simp: accept_sampling_core_def pr_def Let_def)
  have cols: "length (idx ! 0) = n" using ok(2,3) assms(4) by simp
  have two: "two_level_bonus idx pred c = Inr (gather_two_level_bonus_triton pids buf idx n pred c)"
  proof (rule two_level_eq[OF ok(3) lc assms(2)])
    fix i assume "i < length idx"
    then have i: "i < ?bs" using ok(2) by simp
    have "num ! i < int n" using ok(1,4) i by simp
    then show "0 \<le> c ! i \<and> c ! i < int n \<and> c ! i < 2 ^ 31
       \<and> 0 \<le> idx ! i ! nat (c ! i) \<and> idx ! i ! nat (c ! i) < int (length pred) \<and> length pred < 2 ^ 31"
      using row[OF i] ok(5)[OF i, of "nat (c ! i)"] nn by auto
  qed (use ok(2) assms(6,7) in auto)
  show ?thesis
    by (rule exI[of _ c], rule exI[of _ "gather_two_level_bonus_triton pids buf idx n pred c"], rule exI[of _ t],
        rule exI[of _ num], rule exI[of _ idx], rule exI[of _ pred])
      (use row ch two in \<open>simp add: AcceptSampling_def accept_sampling_triton_def accept_sampling_def core cols
         res_map_def pr_def Let_def\<close>)
qed

text \<open>A sampler that accepts as many drafts as there are among the first whose target probability is at
  least one half, on a request with two positions and a vocabulary of two.\<close>

definition demo_chain :: chain_fn where
  "demo_chain cands probs dp = (map (\<lambda>i. if probs ! (2 * i) ! 1 \<ge> 1 / 2 then 1 else 0) [0..<length cands],
     map (\<lambda>_. [0, 1]) cands, [4, 8])"

definition demo_env :: softmax_env where
  "demo_env = \<lparr>sm_flashinfer = None, sm_exp = (\<lambda>x. 1 / (1 + x * x)), sm_pids = [1, 0], sm_buf = [[], []]\<rparr>"

definition demo_call :: sampling_call where
  "demo_call = \<lparr>need_top_k = False, need_top_p = False, temperatures = [2], target_logits = [[0, 4], [1, 1]], draft_probs = [], block_len = 2\<rparr>"

theorem sampling_paths_agree_witness:
  "target_rows (sm_exp demo_env) demo_call ! 0 = [1 / 6, 5 / 6]
   \<and> (\<exists>correct bonus trim. AcceptSampling True [0] [0] [0] Int32 Int32 demo_env (\<lambda>_. Inr []) demo_chain [[3, 4]] demo_call (Some [1])
         = Inr (correct, bonus, trim)
     \<and> AcceptSampling False [0] [0] [0] Int32 Int32 demo_env (\<lambda>_. Inr []) demo_chain [[3, 4]] demo_call (Some [1]) = Inr (correct, bonus, trim)
     \<and> correct ! 0 = 0 \<and> trim ! 0 = 1)"
proof -
  have ok: "chain_ok demo_chain 2"
    by (auto simp: chain_ok_def demo_chain_def less_Suc_eq le_Suc_eq)
  have grid: "full_grid [0] (length [[3, 4 :: int]]) 256" "full_grid [0] (length [[3, 4 :: int]]) 1024"
    by (auto simp: full_grid_def cdiv_def)
  have cut: "\<forall>vl. Some [1] = Some vl \<longrightarrow> length vl = length [[3, 4 :: int]] \<and> small vl \<and> (\<forall>v\<in>set vl. 1 \<le> v)"
    by (simp add: small_def)
  have call: "block_len demo_call = 2" "length (temperatures demo_call) = length [[3, 4 :: int]]"
    "length (target_logits demo_call) = length [[3, 4 :: int]] * 2" "\<forall>r\<in>set (target_logits demo_call). r \<noteq> []"
    by (simp_all add: demo_call_def)
  have pos: "\<forall>x. 0 < sm_exp demo_env x" by (simp add: demo_env_def add_pos_nonneg)
  have fi: "flashinfer_ok demo_env" by (simp add: flashinfer_ok_def demo_env_def)
  have run: "length (sm_buf demo_env) = length (target_logits demo_call)" "set (sm_pids demo_env) = {..<length (target_logits demo_call)}"
    by (auto simp: demo_env_def demo_call_def)
  have t: "target_rows (sm_exp demo_env) demo_call ! 0 = [1 / 6, 5 / 6]"
    by (simp add: target_rows_def demo_env_def demo_call_def torch_softmax_def Let_def numeral_2_eq_2)
  then have num: "fst (demo_chain [[3, 4]] (target_rows (sm_exp demo_env) demo_call) (draft_probs demo_call)) = [1]"
    by (simp add: demo_chain_def)
  obtain correct bonus trim n idx pred where r:
    "AcceptSampling True [0] [0] [0] Int32 Int32 demo_env (\<lambda>_. Inr []) demo_chain [[3, 4]] demo_call (Some [1]) = Inr (correct, bonus, trim)"
    "AcceptSampling False [0] [0] [0] Int32 Int32 demo_env (\<lambda>_. Inr []) demo_chain [[3, 4]] demo_call (Some [1]) = Inr (correct, bonus, trim)"
    "demo_chain [[3, 4]] (if \<not> need_top_k demo_call \<and> \<not> need_top_p demo_call then target_rows (sm_exp demo_env) demo_call else []) (draft_probs demo_call)
         = (n, idx, pred)" "0 \<le> correct ! 0" "correct ! 0 + trim ! 0 = n ! 0" "correct ! 0 + 1 \<le> 1"
    using sampling_paths_agree[OF ok _ _ _ cut _ grid call pos fi run, of "[0]" "\<lambda>_. Inr []" "[]" Int32 Int32] by auto
  have "n = [1]" using r(3) num by (simp add: demo_call_def)
  then show ?thesis using t r by force
qed

text \<open>Closing a verify step: both paths give the same lengths, each request advances by its
  accepted drafts and the bonus (at least one token, at most its block), and its new sequence
  length is its prefix plus exactly what was committed.\<close>

theorem finalize_advances:
  assumes "length trim = length correct" "length prefix = length correct" "length buf = length correct"
    and "full_grid pids (length correct) 256" "small correct" "small prefix" "small trim"
  shows "FinalizeAcceptLens on_cuda pids buf pty correct trim prefix =
     \<lparr>commit_lens = map (\<lambda>c. c + 1) correct, new_seq_lens = map2 (\<lambda>p c. p + (c + 1)) prefix correct, fin_trim_lens = trim\<rparr>
     \<and> (\<forall>c\<in>set (commit_lens (FinalizeAcceptLens on_cuda pids buf pty correct trim prefix)). 1 \<le> c)"
proof -
  have i: "i32 x = x" if "0 \<le> x" "x < 2 ^ 30 + 1" for x using that by (intro i32_id) auto
  have c: "map (\<lambda>c. i32 (i32 c + 1)) correct = map (\<lambda>c. c + 1) correct"
    using assms(5) i by (auto simp: small_def)
  have t: "map i32 trim = trim" using assms(7) i by (auto simp: small_def intro!: map_idI)
  have s: "map2 (\<lambda>p c. wrap pty (p + wrap pty c)) prefix (map (\<lambda>c. c + 1) correct) = map2 (\<lambda>p c. p + (c + 1)) prefix correct"
  proof (rule nth_equalityI)
    fix j assume "j < length (map2 (\<lambda>p c. wrap pty (p + wrap pty c)) prefix (map (\<lambda>c. c + 1) correct))"
    then have j: "j < length correct" "j < length prefix" using assms(2) by auto
    have sc: "0 \<le> correct ! j \<and> correct ! j < 2 ^ 30" and sp: "0 \<le> prefix ! j \<and> prefix ! j < 2 ^ 30"
      using small_nth[OF assms(5) j(1)] small_nth[OF assms(6) j(2)] by simp_all
    have w1: "wrap pty (correct ! j + 1) = correct ! j + 1" by (rule wrap_small) (use sc in simp_all)
    have w2: "wrap pty (prefix ! j + (correct ! j + 1)) = prefix ! j + (correct ! j + 1)"
      by (rule wrap_small) (use sc sp in simp_all)
    show "map2 (\<lambda>p c. wrap pty (p + wrap pty c)) prefix (map (\<lambda>c. c + 1) correct) ! j
        = map2 (\<lambda>p c. p + (c + 1)) prefix correct ! j" using j w1 w2 by simp
  qed simp
  have "finalize_accept_lens pty correct trim prefix
      = \<lparr>commit_lens = map (\<lambda>c. c + 1) correct, new_seq_lens = map2 (\<lambda>p c. p + (c + 1)) prefix correct, fin_trim_lens = trim\<rparr>"
    by (simp add: finalize_accept_lens_def Let_def c t s)
  then have "FinalizeAcceptLens on_cuda pids buf pty correct trim prefix
      = \<lparr>commit_lens = map (\<lambda>c. c + 1) correct, new_seq_lens = map2 (\<lambda>p c. p + (c + 1)) prefix correct, fin_trim_lens = trim\<rparr>"
    using finalize_triton_eq[OF assms(1-4), of pty] by (simp add: FinalizeAcceptLens_def)
  then show ?thesis using assms(5) by (auto simp: small_def)
qed

theorem finalize_advances_witness:
  "new_seq_lens (FinalizeAcceptLens True [0] [7, 7] Int64 [2, 0] [0, 1] [10, 4]) = [13, 5]"
proof -
  have "full_grid [0] (length [2, 0 :: int]) 256" by (auto simp: full_grid_def cdiv_def)
  then show ?thesis using finalize_advances[of "[0, 1]" "[2, 0]" "[10, 4]" "[7, 7]" "[0]" True Int64]
    by (simp add: small_def)
qed

end
