(* ===== verification/ReqFinish.thy ===== *)
theory ReqFinish
  imports Prelude
begin

text \<open>
  When a request ends (\<open>sglang-overlay/schedule_batch.py\<close>, class \<open>Req\<close>): the vocabulary guard,
  stop strings and stop patterns, stop tokens, the length cap and the grammar, in the order
  \<open>update_finish_state\<close> tries them after every step -- a step may have accepted several
  tokens at once.  External: the tokenizer's \<open>decode\<close> and \<open>re.search\<close> (\<open>None\<close> when the pattern
  is malformed).  A set of ids is the list of its elements in iteration order.
\<close>

section \<open>State\<close>

datatype finish_reason =
  FINISH_MATCHED_TOKEN int | FINISH_MATCHED_STR string | FINISHED_MATCHED_REGEX string
  | FINISH_LENGTH int | FINISH_ABORT string

record sampling_params =
  stop_token_ids :: "int list"
  stop_strs :: "string list"
  stop_regex_strs :: "string list"
  stop_str_max_len :: int
  stop_regex_max_len :: int
  ignore_eos :: bool
  max_new_tokens :: int

record tokenizer_view =
  tk_decode :: "int list \<Rightarrow> string"
  tk_eos :: "int option"
  tk_stops :: "int list"

record freq =
  output_ids :: "int list"
  sampling :: sampling_params
  eos_token_ids :: "int list"
  vocab_size :: "int option"
  tokenizer :: "tokenizer_view option"
  decoded_text :: string
  finished_reason :: "finish_reason option"
  finished_len :: "int option"
  to_finish :: "finish_reason option"
  grammar :: "bool option"

type_synonym re_search = "string \<Rightarrow> string \<Rightarrow> bool option"

section \<open>Operations\<close>

text \<open>\<open>xs[-k:]\<close>: all of \<open>xs\<close> for \<open>k = 0\<close>.\<close>

definition py_last :: "int \<Rightarrow> 'a list \<Rightarrow> 'a list" where
  "py_last k xs = (if k > 0 then drop (length xs - nat k) xs else drop (nat (- k)) xs)"

definition py_in :: "string \<Rightarrow> string \<Rightarrow> bool" where
  "py_in s t \<longleftrightarrow> list_ex (\<lambda>i. take (length s) (drop i t) = s) [0..<Suc (length t)]"

fun first_idx :: "('a \<Rightarrow> bool) \<Rightarrow> 'a list \<Rightarrow> nat option" where
  "first_idx P [] = None"
| "first_idx P (x # xs) = (if P x then Some 0 else map_option Suc (first_idx P xs))"

definition finished :: "freq \<Rightarrow> bool" where
  "finished r \<longleftrightarrow> finished_reason r \<noteq> None"

definition output_ids_through_stop :: "freq \<Rightarrow> int list" where
  "output_ids_through_stop r = (case finished_len r of None \<Rightarrow> output_ids r
     | Some k \<Rightarrow> if 0 \<le> k then take (nat k) (output_ids r) else take (length (output_ids r) - nat (- k)) (output_ids r))"

definition stop_match_tail_len :: "freq \<Rightarrow> int \<Rightarrow> int" where
  "stop_match_tail_len r new_accepted_len =
     (let max_len_tail_str = max (stop_str_max_len (sampling r) + 1) (stop_regex_max_len (sampling r) + 1)
      in min (max_len_tail_str + max (new_accepted_len - 1) 0) (int (length (output_ids r))))"

definition decode_of :: "freq \<Rightarrow> int list \<Rightarrow> string res" where
  "decode_of r ids = (case tokenizer r of None \<Rightarrow> Inl AttributeError | Some tk \<Rightarrow> Inr (tk_decode tk ids))"

definition tail_str :: "freq \<Rightarrow> int \<Rightarrow> string res" where
  "tail_str r new_accepted_len =
     (if stop_strs (sampling r) = [] \<and> stop_regex_strs (sampling r) = [] then Inr []
      else decode_of r (py_last (stop_match_tail_len r new_accepted_len) (output_ids r)))"

text \<open>Should streamed text be held back: a stop string may still be forming.\<close>

definition check_match_stop_str_prefix :: "freq \<Rightarrow> bool res" where
  "check_match_stop_str_prefix r =
     (if stop_strs (sampling r) = [] then Inr False
      else res_map (\<lambda>tail. if tail = [] then False
             else list_ex (\<lambda>s. s \<noteq> [] \<and>
                (py_in s tail \<or> list_ex (\<lambda>i. py_last (int i) tail = take i s) [1..<min (length tail) (length s) + 1]))
               (stop_strs (sampling r)))
           (tail_str r 1))"

definition is_stop_token :: "freq \<Rightarrow> int \<Rightarrow> bool" where
  "is_stop_token r t \<longleftrightarrow> t \<in> set (stop_token_ids (sampling r)) \<or> t \<in> set (eos_token_ids r)
     \<or> (case tokenizer r of None \<Rightarrow> False | Some tk \<Rightarrow> Some t = tk_eos tk \<or> t \<in> set (tk_stops tk))"

definition check_token_based_finish :: "int list \<Rightarrow> freq \<Rightarrow> bool \<times> freq" where
  "check_token_based_finish new_tokens r =
     (if ignore_eos (sampling r) then (False, r)
      else case first_idx (is_stop_token r) new_tokens of
             None \<Rightarrow> (False, r)
           | Some i \<Rightarrow> let matched_pos = int (length (output_ids r)) - int (length new_tokens) + int i
               in (True, r\<lparr>finished_reason := Some (FINISH_MATCHED_TOKEN (new_tokens ! i)),
                          finished_len := Some (matched_pos + 1)\<rparr>))"

text \<open>\<open>matched\<close> decides on a decoded text; the loop stops at the first prefix that matches.\<close>

fun first_match :: "(nat \<Rightarrow> bool res) \<Rightarrow> nat list \<Rightarrow> nat option res" where
  "first_match f [] = Inr None"
| "first_match f (n # ns) = res_bind (f n) (\<lambda>b. if b then Inr (Some n) else first_match f ns)"

definition locate_str_stop_finished_len :: "(string \<Rightarrow> bool res) \<Rightarrow> int \<Rightarrow> freq \<Rightarrow> int res" where
  "locate_str_stop_finished_len matched new_accepted_len r =
     (let tail_len = stop_match_tail_len r new_accepted_len;
          start = int (length (output_ids r)) - tail_len;
          token_window = drop (nat start) (output_ids r);
          counts = [nat (max 1 (int (length token_window) - new_accepted_len + 1)) ..< length token_window]
      in res_map (\<lambda>found. case found of Some n \<Rightarrow> start + int n | None \<Rightarrow> int (length (output_ids r)))
           (first_match (\<lambda>n. res_bind (decode_of r (take n token_window)) matched) counts))"

definition re_match :: "re_search \<Rightarrow> string \<Rightarrow> string \<Rightarrow> bool res" where
  "re_match re p text = (case re p text of None \<Rightarrow> Inl ReError | Some b \<Rightarrow> Inr b)"

fun check_stop_strs :: "int \<Rightarrow> string \<Rightarrow> string list \<Rightarrow> freq \<Rightarrow> (bool \<times> freq) res" where
  "check_stop_strs n tail [] r = Inr (False, r)"
| "check_stop_strs n tail (s # ss) r =
     (if py_in s tail \<or> py_in s (decoded_text r) then
        (let r' = r\<lparr>finished_reason := Some (FINISH_MATCHED_STR s)\<rparr>
         in if py_in s tail
            then res_map (\<lambda>k. (True, r'\<lparr>finished_len := Some k\<rparr>)) (locate_str_stop_finished_len (\<lambda>t. Inr (py_in s t)) n r')
            else Inr (True, r'))
      else check_stop_strs n tail ss r)"

text \<open>A malformed pattern marks the request aborted and leaves the loop; the call returns \<open>False\<close>.\<close>

fun check_stop_regexes :: "re_search \<Rightarrow> int \<Rightarrow> string \<Rightarrow> string list \<Rightarrow> freq \<Rightarrow> (bool \<times> freq) res" where
  "check_stop_regexes re n tail [] r = Inr (False, r)"
| "check_stop_regexes re n tail (p # ps) r =
     (case re p tail of
        None \<Rightarrow> Inr (False, r\<lparr>finished_reason := Some (FINISH_ABORT ''invalid stop_regex'')\<rparr>)
      | Some True \<Rightarrow>
          (let r' = r\<lparr>finished_reason := Some (FINISHED_MATCHED_REGEX p)\<rparr>
           in res_map (\<lambda>k. (True, r'\<lparr>finished_len := Some k\<rparr>)) (locate_str_stop_finished_len (re_match re p) n r'))
      | Some False \<Rightarrow> check_stop_regexes re n tail ps r)"

definition check_str_based_finish :: "re_search \<Rightarrow> int \<Rightarrow> freq \<Rightarrow> (bool \<times> freq) res" where
  "check_str_based_finish re n r =
     (if stop_strs (sampling r) \<noteq> [] \<or> stop_regex_strs (sampling r) \<noteq> [] then
        res_bind (tail_str r n) (\<lambda>tail.
        res_bind (check_stop_strs n tail (stop_strs (sampling r)) r) (\<lambda>(hit, r).
          if hit then Inr (True, r) else check_stop_regexes re n tail (stop_regex_strs (sampling r)) r))
      else Inr (False, r))"

definition out_of_vocab :: "freq \<Rightarrow> int \<Rightarrow> bool" where
  "out_of_vocab r t \<longleftrightarrow> t < 0 \<or> (case vocab_size r of None \<Rightarrow> False | Some v \<Rightarrow> v \<le> t)"

definition check_vocab_boundary_finish :: "int list \<Rightarrow> freq \<Rightarrow> bool \<times> freq" where
  "check_vocab_boundary_finish new_tokens r =
     (case first_idx (out_of_vocab r) new_tokens of
        None \<Rightarrow> (False, r)
      | Some i \<Rightarrow>
          let offset = length (output_ids r) - length new_tokens + i;
              out = output_ids r;
              out = (case stop_token_ids (sampling r) of [] \<Rightarrow> out | t # _ \<Rightarrow> out[offset := t]);
              out = (case eos_token_ids r of [] \<Rightarrow> out | t # _ \<Rightarrow> out[offset := t])
          in (True, r\<lparr>output_ids := out, finished_reason := Some (FINISH_MATCHED_STR ''NaN happened''),
                     finished_len := Some (int offset + 1)\<rparr>))"

definition cap_finished_len :: "freq \<Rightarrow> freq" where
  "cap_finished_len r =
     (case finished_len r of
        Some k \<Rightarrow> if k > max_new_tokens (sampling r)
                  then r\<lparr>finished_reason := Some (FINISH_LENGTH (max_new_tokens (sampling r))),
                         finished_len := Some (max_new_tokens (sampling r))\<rparr> else r
      | None \<Rightarrow> r)"

definition update_finish_state :: "re_search \<Rightarrow> int \<Rightarrow> freq \<Rightarrow> freq res" where
  "update_finish_state re n r =
     (if finished r then Inr r
      else if to_finish r \<noteq> None then Inr (r\<lparr>finished_reason := to_finish r, to_finish := None\<rparr>)
      else let new_tokens = py_last n (output_ids r);
               (bad, r) = check_vocab_boundary_finish new_tokens r
      in if bad then Inr (cap_finished_len r)
      else res_bind (check_str_based_finish re n r) (\<lambda>(hit, r).
        if hit then Inr (cap_finished_len r)
        else let (eos, r) = check_token_based_finish new_tokens r
        in if eos then Inr (cap_finished_len r)
        else if int (length (output_ids r)) \<ge> max_new_tokens (sampling r)
        then Inr (r\<lparr>finished_reason := Some (FINISH_LENGTH (max_new_tokens (sampling r))),
                    finished_len := Some (max_new_tokens (sampling r))\<rparr>)
        else if grammar r = Some True
        then res_map (\<lambda>t. r\<lparr>finished_reason := Some (FINISH_MATCHED_TOKEN t)\<rparr>) (py_get (output_ids r) (-1))
        else Inr r))"

section \<open>The length budget\<close>

lemma first_idx_Some: "first_idx P xs = Some i \<longleftrightarrow> i < length xs \<and> P (xs ! i) \<and> (\<forall>j<i. \<not> P (xs ! j))"
proof (induction xs arbitrary: i)
  case (Cons x xs)
  show ?case
  proof (cases i)
    case (Suc k)
    then show ?thesis using Cons.IH[of k] by (auto simp: All_less_Suc2)
  qed auto
qed simp

lemma first_idx_None: "first_idx P xs = None \<longleftrightarrow> (\<forall>x\<in>set xs. \<not> P x)"
  by (induction xs) auto

lemma length_py_last: "length (py_last k xs) \<le> length xs"
  by (simp add: py_last_def)

lemma cap_finished_len_simps [simp]:
  "sampling (cap_finished_len r) = sampling r" "output_ids (cap_finished_len r) = output_ids r"
  "finished (cap_finished_len r) \<longleftrightarrow> finished r \<or> (\<exists>k. finished_len r = Some k \<and> k > max_new_tokens (sampling r))"
  by (auto simp: cap_finished_len_def finished_def split: option.splits)

lemma cap_finished_len_bound:
  "finished_len (cap_finished_len r) = Some k \<Longrightarrow> k \<le> max_new_tokens (sampling r)"
  by (auto simp: cap_finished_len_def split: option.splits if_splits)

lemma cap_finished_len_nonneg:
  assumes "\<And>k. finished_len r = Some k \<Longrightarrow> 0 \<le> k" "0 \<le> max_new_tokens (sampling r)"
    and "finished_len (cap_finished_len r) = Some k"
  shows "0 \<le> k"
  using assms by (auto simp: cap_finished_len_def split: option.splits if_splits)

lemma locate_bounds:
  assumes "locate_str_stop_finished_len matched n r = Inr k"
  shows "0 \<le> k \<and> k \<le> int (length (output_ids r))"
proof -
  define start where "start = int (length (output_ids r)) - stop_match_tail_len r n"
  have s: "0 \<le> start" by (auto simp: start_def stop_match_tail_len_def Let_def)
  have mem: "first_match f ns = Inr (Some x) \<Longrightarrow> x \<in> set ns" for f :: "nat \<Rightarrow> bool res" and ns x
    by (induction ns) (auto simp: res_simps split: if_splits)
  show ?thesis using assms s
    by (auto simp: locate_str_stop_finished_len_def Let_def res_simps start_def[symmetric] split: option.splits dest!: mem) arith
qed

text \<open>What every check keeps, and what a hit sets.\<close>

definition check_post :: "freq \<Rightarrow> bool \<times> freq \<Rightarrow> bool" where
  "check_post r = (\<lambda>(hit, r'). sampling r' = sampling r \<and> length (output_ids r') = length (output_ids r)
     \<and> grammar r' = grammar r \<and> (hit \<longrightarrow> finished r') \<and> (\<not> hit \<longrightarrow> finished_len r' = finished_len r)
     \<and> (\<forall>k. finished_len r' = Some k \<longrightarrow> finished_len r = Some k \<or> 0 \<le> k))"

lemma check_stop_strs_post: "check_stop_strs n tail ss r = Inr x \<Longrightarrow> check_post r x"
  by (induction ss) (auto simp: check_post_def finished_def Let_def res_simps split: if_splits dest: locate_bounds)

lemma check_stop_regexes_post: "check_stop_regexes re n tail ps r = Inr x \<Longrightarrow> check_post r x"
  by (induction ps) (auto simp: check_post_def finished_def Let_def res_simps split: option.splits bool.splits dest: locate_bounds)

lemma check_str_post: "check_str_based_finish re n r = Inr x \<Longrightarrow> check_post r x"
  unfolding check_str_based_finish_def
  by (auto simp: res_simps split: if_splits dest!: check_stop_strs_post check_stop_regexes_post)
     (auto simp: check_post_def)

lemma check_vocab_post: "check_post r (check_vocab_boundary_finish new r)"
  by (auto simp: check_vocab_boundary_finish_def check_post_def finished_def Let_def split: option.splits list.splits)

lemma check_token_post:
  assumes "length new \<le> length (output_ids r)"
  shows "check_post r (check_token_based_finish new r)"
  using assms by (auto simp: check_token_based_finish_def check_post_def finished_def Let_def split: option.splits)

lemma update_finish_budget:
  assumes "update_finish_state re n r = Inr r'" "\<not> finished r" "to_finish r = None" "finished_len r = None"
    and "0 \<le> max_new_tokens (sampling r)"
  shows "sampling r' = sampling r \<and> (finished r' \<or> int (length (output_ids r')) < max_new_tokens (sampling r))
     \<and> (\<forall>k. finished_len r' = Some k \<longrightarrow> 0 \<le> k \<and> k \<le> max_new_tokens (sampling r))"
proof -
  let ?new = "py_last n (output_ids r)"
  obtain bad r1 where v: "check_vocab_boundary_finish ?new r = (bad, r1)" by fastforce
  note p1 = check_vocab_post[of r ?new, unfolded v check_post_def, simplified]
  show ?thesis
  proof (cases bad)
    case True
    then have "r' = cap_finished_len r1" using assms v by (simp add: update_finish_state_def Let_def)
    then show ?thesis using p1 True assms(4,5) cap_finished_len_bound[of r1] cap_finished_len_nonneg[of r1] by auto
  next
    case False
    obtain hit r2 where st: "check_str_based_finish re n r1 = Inr (hit, r2)"
      using assms v False by (auto simp: update_finish_state_def Let_def res_simps)
    note p2 = check_str_post[OF st, unfolded check_post_def, simplified]
    show ?thesis
    proof (cases hit)
      case True
      then have "r' = cap_finished_len r2" using assms v False st by (simp add: update_finish_state_def Let_def)
      then show ?thesis using p1 p2 False True assms(4,5) cap_finished_len_bound[of r2] cap_finished_len_nonneg[of r2] by auto
    next
      case nohit: False
      obtain eos r3 where t: "check_token_based_finish ?new r2 = (eos, r3)" by fastforce
      have "length ?new \<le> length (output_ids r2)" using length_py_last p1 p2 by metis
      note p3 = check_token_post[OF this, unfolded t check_post_def, simplified]
      have r': "Inr r' = (if eos then Inr (cap_finished_len r3)
          else if int (length (output_ids r3)) \<ge> max_new_tokens (sampling r3)
          then Inr (r3\<lparr>finished_reason := Some (FINISH_LENGTH (max_new_tokens (sampling r3))),
                    finished_len := Some (max_new_tokens (sampling r3))\<rparr>)
          else if grammar r3 = Some True
          then res_map (\<lambda>t. r3\<lparr>finished_reason := Some (FINISH_MATCHED_TOKEN t)\<rparr>) (py_get (output_ids r3) (-1))
          else Inr r3)"
        using assms(1-3) v False st nohit t by (simp add: update_finish_state_def Let_def)
      show ?thesis
      proof (cases eos)
        case True
        then have "r' = cap_finished_len r3" using r' by simp
        then show ?thesis using p1 p2 p3 False nohit True assms(4,5) cap_finished_len_bound[of r3] cap_finished_len_nonneg[of r3]
          by auto
      next
        case noeos: False
        show ?thesis using r' noeos p1 p2 p3 False nohit assms(4,5)
          by (auto simp: finished_def res_map_def res_bind_def split: if_splits sum.splits)
      qed
    qed
  qed
qed

text \<open>The output budget: after every step that is not an abort, a request is finished or still
  below \<open>max_new_tokens\<close>, and a recorded stop position never lies past the cap -- also when one
  step accepted tokens across it.\<close>

theorem finish_respects_budget:
  assumes "update_finish_state re n r = Inr r'" "\<not> finished r" "to_finish r = None" "finished_len r = None"
    and "0 \<le> max_new_tokens (sampling r)"
  shows "(finished r' \<or> int (length (output_ids r')) < max_new_tokens (sampling r))
     \<and> (\<forall>k. finished_len r' = Some k \<longrightarrow>
          int (length (output_ids_through_stop r')) \<le> max_new_tokens (sampling r))"
proof -
  note b = update_finish_budget[OF assms]
  have "int (length (output_ids_through_stop r')) \<le> max_new_tokens (sampling r)" if "finished_len r' = Some k" for k
  proof -
    have "0 \<le> k" "k \<le> max_new_tokens (sampling r)" using b that by blast+
    then show ?thesis using that by (simp add: output_ids_through_stop_def)
  qed
  then show ?thesis using b by blast
qed

definition demo_freq :: freq where
  "demo_freq = \<lparr>output_ids = [5, 6, 7, 8], sampling = \<lparr>stop_token_ids = [8], stop_strs = [], stop_regex_strs = [],
     stop_str_max_len = 0, stop_regex_max_len = 0, ignore_eos = False, max_new_tokens = 3\<rparr>,
     eos_token_ids = [2], vocab_size = Some 100, tokenizer = None, decoded_text = [], finished_reason = None,
     finished_len = None, to_finish = None, grammar = None\<rparr>"

text \<open>Three tokens accepted at once; the stop token lies past the cap of three.\<close>

theorem finish_respects_budget_witness:
  "\<exists>r'. update_finish_state (\<lambda>_ _. None) 3 demo_freq = Inr r' \<and> finished_reason r' = Some (FINISH_LENGTH 3)
     \<and> int (length (output_ids_through_stop r')) \<le> 3"
proof -
  obtain r' where r': "update_finish_state (\<lambda>_ _. None) 3 demo_freq = Inr r'" "finished_reason r' = Some (FINISH_LENGTH 3)"
    "finished_len r' = Some 3"
    by (simp add: update_finish_state_def demo_freq_def finished_def py_last_def check_vocab_boundary_finish_def
        out_of_vocab_def check_str_based_finish_def check_token_based_finish_def is_stop_token_def cap_finished_len_def Let_def)
  then show ?thesis
    using finish_respects_budget[OF r'(1)] by (simp add: demo_freq_def finished_def)
qed

section \<open>Accepting a block is accepting its tokens one at a time\<close>

definition accept_block :: "re_search \<Rightarrow> int list \<Rightarrow> freq \<Rightarrow> freq res" where
  "accept_block re ts r = update_finish_state re (int (length ts)) (r\<lparr>output_ids := output_ids r @ ts\<rparr>)"

fun accept_each :: "re_search \<Rightarrow> int list \<Rightarrow> freq \<Rightarrow> freq res" where
  "accept_each re [] r = Inr r"
| "accept_each re (t # ts) r = res_bind (accept_block re [t] r) (\<lambda>r. if finished r then Inr r else accept_each re ts r)"

text \<open>Requests whose end depends on tokens and length alone.\<close>

definition token_stops_only :: "freq \<Rightarrow> bool" where
  "token_stops_only r \<longleftrightarrow> stop_strs (sampling r) = [] \<and> stop_regex_strs (sampling r) = [] \<and> grammar r \<noteq> Some True
     \<and> \<not> finished r \<and> to_finish r = None \<and> finished_len r = None \<and> 0 \<le> max_new_tokens (sampling r)"

definition stops :: "freq \<Rightarrow> int \<Rightarrow> bool" where
  "stops r t \<longleftrightarrow> \<not> ignore_eos (sampling r) \<and> is_stop_token r t"

lemma accept_block_token:
  assumes "token_stops_only r" "ts \<noteq> []" "\<forall>t\<in>set ts. \<not> out_of_vocab r t"
  shows "accept_block re ts r = Inr (let r1 = r\<lparr>output_ids := output_ids r @ ts\<rparr>; m = max_new_tokens (sampling r) in
     case first_idx (stops r) ts of
       Some i \<Rightarrow> let p = int (length (output_ids r)) + int i + 1 in
          if p > m then r1\<lparr>finished_reason := Some (FINISH_LENGTH m), finished_len := Some m\<rparr>
          else r1\<lparr>finished_reason := Some (FINISH_MATCHED_TOKEN (ts ! i)), finished_len := Some p\<rparr>
     | None \<Rightarrow> if int (length (output_ids r)) + int (length ts) \<ge> m
          then r1\<lparr>finished_reason := Some (FINISH_LENGTH m), finished_len := Some m\<rparr> else r1)"
proof -
  let ?r1 = "r\<lparr>output_ids := output_ids r @ ts\<rparr>"
  have new: "py_last (int (length ts)) (output_ids r @ ts) = ts" using assms(2) by (simp add: py_last_def)
  have v: "check_vocab_boundary_finish ts ?r1 = (False, ?r1)"
  proof -
    have "first_idx (out_of_vocab ?r1) ts = None" using assms(3) by (simp add: first_idx_None out_of_vocab_def)
    then show ?thesis by (simp add: check_vocab_boundary_finish_def)
  qed
  have st: "check_str_based_finish re (int (length ts)) ?r1 = Inr (False, ?r1)"
    using assms(1) by (simp add: check_str_based_finish_def token_stops_only_def)
  have f: "\<not> finished ?r1" "to_finish ?r1 = None" "grammar ?r1 \<noteq> Some True" "finished_len ?r1 = None"
    using assms(1) by (simp_all add: token_stops_only_def finished_def)
  have si: "is_stop_token ?r1 = is_stop_token r" by (rule ext) (simp add: is_stop_token_def)
  have tk: "check_token_based_finish ts ?r1 = (case first_idx (stops r) ts of None \<Rightarrow> (False, ?r1)
     | Some i \<Rightarrow> (True, ?r1\<lparr>finished_reason := Some (FINISH_MATCHED_TOKEN (ts ! i)),
          finished_len := Some (int (length (output_ids r)) + int i + 1)\<rparr>))"
  proof (cases "ignore_eos (sampling r)")
    case True
    then have "first_idx (stops r) ts = None" by (simp add: first_idx_None stops_def)
    then show ?thesis using True by (simp add: check_token_based_finish_def)
  next
    case False
    then have "stops r = is_stop_token r" by (auto simp: stops_def)
    then show ?thesis using False by (auto simp: check_token_based_finish_def si Let_def split: option.splits)
  qed
  show ?thesis
    unfolding accept_block_def update_finish_state_def
    using f by (simp add: new v st tk Let_def cap_finished_len_def split: option.splits)
qed

lemma stops_output [simp]: "stops (r\<lparr>output_ids := out\<rparr>) = stops r"
  by (rule ext) (simp add: stops_def is_stop_token_def)

definition same_stop :: "freq \<Rightarrow> freq \<Rightarrow> bool" where
  "same_stop a b \<longleftrightarrow> finished_reason a = finished_reason b \<and> finished_len a = finished_len b
     \<and> output_ids_through_stop a = output_ids_through_stop b"

lemma token_stops_only_append:
  "token_stops_only (r\<lparr>output_ids := out\<rparr>) = token_stops_only r"
  by (simp add: token_stops_only_def finished_def)

lemma out_of_vocab_output [simp]: "out_of_vocab (r\<lparr>output_ids := out\<rparr>) = out_of_vocab r"
  by (rule ext) (simp add: out_of_vocab_def)

text \<open>A block with an out-of-vocabulary token ends there, with the token overwritten.\<close>

definition vocab_patch :: "freq \<Rightarrow> nat \<Rightarrow> int list \<Rightarrow> int list" where
  "vocab_patch r k out =
     (let out = (case stop_token_ids (sampling r) of [] \<Rightarrow> out | t # _ \<Rightarrow> out[k := t])
      in case eos_token_ids r of [] \<Rightarrow> out | t # _ \<Rightarrow> out[k := t])"

lemma vocab_patch_output [simp]: "vocab_patch (r\<lparr>output_ids := out\<rparr>) = vocab_patch r"
  by (intro ext) (simp add: vocab_patch_def)

lemma take_vocab_patch: "k' \<le> k \<Longrightarrow> take k' (vocab_patch r k out) = take k' out"
  by (simp add: vocab_patch_def Let_def split: list.splits)

lemma take_vocab_patch_last:
  assumes "k = length xs"
  shows "take (Suc k) (vocab_patch r k (xs @ t # ts)) = vocab_patch r k (xs @ [t])"
  using assms by (simp add: vocab_patch_def Let_def split: list.splits)

lemma accept_block_vocab:
  assumes "token_stops_only r" "first_idx (out_of_vocab r) ts = Some i"
  shows "accept_block re ts r = Inr (let k = length (output_ids r) + i; m = max_new_tokens (sampling r);
       r1 = r\<lparr>output_ids := vocab_patch r k (output_ids r @ ts)\<rparr> in
     if int k + 1 > m then r1\<lparr>finished_reason := Some (FINISH_LENGTH m), finished_len := Some m\<rparr>
     else r1\<lparr>finished_reason := Some (FINISH_MATCHED_STR ''NaN happened''), finished_len := Some (int k + 1)\<rparr>)"
proof -
  let ?r1 = "r\<lparr>output_ids := output_ids r @ ts\<rparr>"
  have ne: "ts \<noteq> []" using assms(2) by auto
  have new: "py_last (int (length ts)) (output_ids r @ ts) = ts" using ne by (simp add: py_last_def)
  have f: "\<not> finished ?r1" "to_finish ?r1 = None" using assms(1) by (simp_all add: token_stops_only_def finished_def)
  have v: "check_vocab_boundary_finish ts ?r1 = (True, ?r1\<lparr>output_ids := vocab_patch r (length (output_ids r) + i) (output_ids r @ ts),
      finished_reason := Some (FINISH_MATCHED_STR ''NaN happened''), finished_len := Some (int (length (output_ids r) + i) + 1)\<rparr>)"
    using assms(2) by (simp add: check_vocab_boundary_finish_def vocab_patch_def Let_def)
  show ?thesis unfolding accept_block_def update_finish_state_def
    using f by (simp add: new v Let_def cap_finished_len_def)
qed

text \<open>No stop token stands in front of the first out-of-vocabulary token.\<close>

definition guard_first :: "freq \<Rightarrow> int list \<Rightarrow> bool" where
  "guard_first r ts \<longleftrightarrow> (\<forall>i. first_idx (out_of_vocab r) ts = Some i \<longrightarrow> (\<forall>j<i. \<not> stops r (ts ! j)))"

lemma guard_first_Cons:
  assumes "guard_first r (t # ts)" "\<not> out_of_vocab r t"
  shows "guard_first r ts" "stops r t \<Longrightarrow> first_idx (out_of_vocab r) (t # ts) = None"
proof -
  show "guard_first r ts" unfolding guard_first_def
  proof (intro allI impI)
    fix i j assume i: "first_idx (out_of_vocab r) ts = Some i" and j: "j < i"
    then have "first_idx (out_of_vocab r) (t # ts) = Some (Suc i)" using assms(2) by simp
    then have "\<not> stops r ((t # ts) ! Suc j)" using assms(1) j unfolding guard_first_def by (meson Suc_less_eq)
    then show "\<not> stops r (ts ! j)" by simp
  qed
  show "first_idx (out_of_vocab r) (t # ts) = None" if st: "stops r t"
  proof (cases "first_idx (out_of_vocab r) ts")
    case (Some i)
    then have "first_idx (out_of_vocab r) (t # ts) = Some (Suc i)" using assms(2) by simp
    then have "\<not> stops r ((t # ts) ! 0)" using assms(1) unfolding guard_first_def by blast
    then show ?thesis using st by simp
  qed (simp add: assms(2))
qed

lemma accept_block_each:
  assumes "token_stops_only r" "ts \<noteq> []" "guard_first r ts"
  shows "\<exists>a b. accept_block re ts r = Inr a \<and> accept_each re ts r = Inr b \<and> same_stop a b"
  using assms
proof (induction ts arbitrary: r)
  case Nil
  then show ?case by simp
next
  case (Cons t ts)
  define m where "m = max_new_tokens (sampling r)"
  define n where "n = int (length (output_ids r))"
  define r1 where "r1 = r\<lparr>output_ids := output_ids r @ [t]\<rparr>"
  define rb where "rb = r\<lparr>output_ids := output_ids r @ t # ts\<rparr>"
  have m0: "0 \<le> m" using Cons.prems(1) by (simp add: token_stops_only_def m_def)
  have n0: "0 \<le> n" by (simp add: n_def)
  have through: "output_ids_through_stop (q\<lparr>finished_reason := x, finished_len := Some k\<rparr>) = take (nat k) (output_ids q)"
    if "0 \<le> k" for q :: freq and x k using that by (simp add: output_ids_through_stop_def)
  have short: "take (nat k) (output_ids r @ t # ts) = take (nat k) (output_ids r @ [t])" if "k \<le> n + 1" for k
  proof -
    have "nat k \<le> Suc (length (output_ids r))" using that by (simp add: n_def)
    then show ?thesis by (cases "nat k - length (output_ids r)") auto
  qed
  show ?case
  proof (cases "out_of_vocab r t")
    case True
    let ?k = "length (output_ids r)"
    have b: "accept_block re (t # us) r = Inr (if n + 1 > m
          then r\<lparr>output_ids := vocab_patch r ?k (output_ids r @ t # us), finished_reason := Some (FINISH_LENGTH m), finished_len := Some m\<rparr>
          else r\<lparr>output_ids := vocab_patch r ?k (output_ids r @ t # us),
             finished_reason := Some (FINISH_MATCHED_STR ''NaN happened''), finished_len := Some (n + 1)\<rparr>)" for us
      using accept_block_vocab[OF Cons.prems(1), of "t # us" 0 re] True by (simp add: m_def n_def Let_def)
    have fin: "accept_each re (t # ts) r = accept_block re [t] r" unfolding accept_each.simps b by (simp add: finished_def)
    have "take (nat m) (vocab_patch r ?k (output_ids r @ t # ts)) = take (nat m) (vocab_patch r ?k (output_ids r @ [t]))"
      if "n + 1 > m"
      using that short[of m] by (simp add: take_vocab_patch n_def)
    moreover have "take (nat (n + 1)) (vocab_patch r ?k (output_ids r @ t # us)) = vocab_patch r ?k (output_ids r @ [t])" for us
      using take_vocab_patch_last[OF refl, of "output_ids r" r t us] by (simp add: n_def nat_add_distrib)
    ultimately show ?thesis unfolding fin b using m0 n0
      by (auto simp: same_stop_def output_ids_through_stop_def)
  next
    case False
    note g = guard_first_Cons[OF Cons.prems(3) False]
    have one: "accept_block re [t] r = Inr (if stops r t then
          (if n + 1 > m then r1\<lparr>finished_reason := Some (FINISH_LENGTH m), finished_len := Some m\<rparr>
           else r1\<lparr>finished_reason := Some (FINISH_MATCHED_TOKEN t), finished_len := Some (n + 1)\<rparr>)
        else if n + 1 \<ge> m then r1\<lparr>finished_reason := Some (FINISH_LENGTH m), finished_len := Some m\<rparr> else r1)"
      using accept_block_token[OF Cons.prems(1), of "[t]" re] False by (simp add: m_def n_def r1_def Let_def)
    consider (stop) "stops r t" | (len) "\<not> stops r t" "n + 1 \<ge> m" | (go) "\<not> stops r t" "n + 1 < m" by linarith
    then show ?thesis
    proof cases
      case stop
      have "\<forall>x\<in>set (t # ts). \<not> out_of_vocab r x" using g(2)[OF stop] unfolding first_idx_None by blast
      note blk = accept_block_token[OF Cons.prems(1,2) this, of re, unfolded Let_def m_def[symmetric] n_def[symmetric] rb_def[symmetric]]
      show ?thesis using blk one stop m0 n0 through[of m] through[of "n + 1"] short[of m] short[of "n + 1"]
        by (auto simp: same_stop_def finished_def n_def rb_def r1_def)
    next
      case len
      have each: "accept_each re (t # ts) r = Inr (r1\<lparr>finished_reason := Some (FINISH_LENGTH m), finished_len := Some m\<rparr>)"
        using one len by (simp add: finished_def)
      have tk: "take (nat m) (output_ids r @ t # ts) = take (nat m) (output_ids r1)" using short[OF len(2)] by (simp add: r1_def)
      show ?thesis
      proof (cases "first_idx (out_of_vocab r) ts")
        case None
        then have "\<forall>t\<in>set (t # ts). \<not> out_of_vocab r t" using False by (simp add: first_idx_None)
        note blk = accept_block_token[OF Cons.prems(1,2) this, of re, unfolded Let_def m_def[symmetric] n_def[symmetric] rb_def[symmetric]]
        have b: "accept_block re (t # ts) r = Inr (rb\<lparr>finished_reason := Some (FINISH_LENGTH m), finished_len := Some m\<rparr>)"
          using blk len by (auto split: option.splits)
        show ?thesis using b each through[OF m0] tk by (simp add: same_stop_def rb_def)
      next
        case (Some i)
        let ?k = "length (output_ids r) + Suc i"
        have lt: "int ?k + 1 > m" using len(2) by (simp add: n_def)
        have b: "accept_block re (t # ts) r = Inr (r\<lparr>output_ids := vocab_patch r ?k (output_ids r @ t # ts),
            finished_reason := Some (FINISH_LENGTH m), finished_len := Some m\<rparr>)"
          using accept_block_vocab[OF Cons.prems(1), of "t # ts" "Suc i" re] Some False lt by (simp add: m_def Let_def)
        have "nat m \<le> ?k" using len(2) by (simp add: n_def)
        then show ?thesis using b each through[OF m0] tk m0 take_vocab_patch[of "nat m" ?k r]
          by (simp add: same_stop_def output_ids_through_stop_def r1_def)
      qed
    next
      case go
      have tr1: "token_stops_only r1" using Cons.prems(1) by (simp add: r1_def token_stops_only_append)
      have nf: "\<not> finished r1" using tr1 by (simp add: token_stops_only_def)
      have each: "accept_each re (t # ts) r = accept_each re ts r1" using one go nf by simp
      show ?thesis
      proof (cases "ts = []")
        case True
        then show ?thesis using one go each by (simp add: same_stop_def)
      next
        case ne: False
        have gr: "guard_first r1 ts" using g(1) by (simp add: r1_def guard_first_def)
        have rb: "r1\<lparr>output_ids := output_ids r1 @ ts\<rparr> = rb" by (simp add: r1_def rb_def)
        have "accept_block re ts r1 = accept_block re (t # ts) r"
        proof (cases "first_idx (out_of_vocab r) ts")
          case None
          then have v: "\<forall>t\<in>set (t # ts). \<not> out_of_vocab r t" "\<forall>t\<in>set ts. \<not> out_of_vocab r1 t"
            using False by (simp_all add: first_idx_None r1_def)
          have fi: "first_idx (stops r) (t # ts) = map_option Suc (first_idx (stops r) ts)" using go by simp
          show ?thesis
            unfolding accept_block_token[OF Cons.prems(1,2) v(1)] accept_block_token[OF tr1 ne v(2)] rb fi rb_def[symmetric]
            by (simp add: r1_def m_def n_def Let_def split: option.splits)
        next
          case (Some i)
          then have "first_idx (out_of_vocab r) (t # ts) = Some (Suc i)" "first_idx (out_of_vocab r1) ts = Some i"
            using False by (simp_all add: r1_def)
          then show ?thesis
            unfolding accept_block_vocab[OF Cons.prems(1) \<open>first_idx (out_of_vocab r) (t # ts) = Some (Suc i)\<close>]
              accept_block_vocab[OF tr1 \<open>first_idx (out_of_vocab r1) ts = Some i\<close>]
            by (simp add: r1_def Let_def)
        qed
        then show ?thesis using Cons.IH[OF tr1 ne gr] each by simp
      qed
    qed
  qed
qed

text \<open>C27. Speculation does not move a stop, for requests that end on tokens, length or the vocabulary
  guard: a request without stop strings and stop regexes, whose grammar (if it has one) has not
  terminated and that is not already ending, given a block with no stop token in front of its first
  out-of-vocabulary token (if there is one), ends by the block with the same reason, the same stop position
  and the same emitted tokens as by accepting the block's tokens one at a time.  (Stop strings and
  regexes are matched on a window that depends on the block; a stop token in front of an
  out-of-vocabulary token really makes a difference, see below.)\<close>

theorem block_stops_like_single_steps:
  assumes "token_stops_only r" "ts \<noteq> []" "guard_first r ts"
  shows "\<exists>a b. accept_block re ts r = Inr a \<and> accept_each re ts r = Inr b
     \<and> finished_reason a = finished_reason b \<and> finished_len a = finished_len b
     \<and> output_ids_through_stop a = output_ids_through_stop b"
  using accept_block_each[OF assms] by (simp add: same_stop_def)

theorem block_stops_like_single_steps_witness:
  "\<exists>a b c d. accept_block (\<lambda>_ _. None) [7, 8, 9] (demo_freq\<lparr>output_ids := []\<rparr>) = Inr a
     \<and> accept_each (\<lambda>_ _. None) [7, 8, 9] (demo_freq\<lparr>output_ids := []\<rparr>) = Inr b
     \<and> output_ids_through_stop a = output_ids_through_stop b \<and> output_ids_through_stop b = [7, 8]
     \<and> accept_block (\<lambda>_ _. None) [7, 500, 8] (demo_freq\<lparr>output_ids := []\<rparr>) = Inr c
     \<and> accept_each (\<lambda>_ _. None) [7, 500, 8] (demo_freq\<lparr>output_ids := []\<rparr>) = Inr d
     \<and> output_ids_through_stop c = output_ids_through_stop d \<and> output_ids_through_stop d = [7, 2]"
proof -
  let ?r = "demo_freq\<lparr>output_ids := []\<rparr>"
  have r: "token_stops_only ?r" by (simp add: token_stops_only_def demo_freq_def finished_def)
  have v: "\<forall>t\<in>set [7, 8, 9]. \<not> out_of_vocab ?r t" by (simp add: out_of_vocab_def demo_freq_def)
  then have g: "guard_first ?r [7, 8, 9]" by (simp add: guard_first_def out_of_vocab_def demo_freq_def)
  have i: "first_idx (out_of_vocab ?r) [7, 500, 8] = Some 1" by (simp add: out_of_vocab_def demo_freq_def)
  then have h: "guard_first ?r [7, 500, 8]" by (simp add: guard_first_def stops_def is_stop_token_def demo_freq_def)
  obtain a b where ab: "accept_block (\<lambda>_ _. None) [7, 8, 9] ?r = Inr a" "accept_each (\<lambda>_ _. None) [7, 8, 9] ?r = Inr b"
    "output_ids_through_stop a = output_ids_through_stop b"
    using block_stops_like_single_steps[OF r _ g] by blast
  obtain c d where cd: "accept_block (\<lambda>_ _. None) [7, 500, 8] ?r = Inr c" "accept_each (\<lambda>_ _. None) [7, 500, 8] ?r = Inr d"
    "output_ids_through_stop c = output_ids_through_stop d"
    using block_stops_like_single_steps[OF r _ h] by blast
  have "output_ids_through_stop a = [7, 8]"
    using ab(1) accept_block_token[OF r _ v, of "\<lambda>_ _. None"]
    by (simp add: Let_def demo_freq_def stops_def is_stop_token_def output_ids_through_stop_def)
  moreover have "output_ids_through_stop c = [7, 2]"
    using cd(1) accept_block_vocab[OF r i, of "\<lambda>_ _. None"]
    by (simp add: Let_def demo_freq_def vocab_patch_def output_ids_through_stop_def)
  ultimately show ?thesis using ab cd by metis
qed

text \<open>The vocabulary guard runs over the whole block before the stop checks, so an invalid id behind a
  stop token ends the request later than single steps would.\<close>

lemma vocab_guard_overrides_stop:
  "\<exists>a b. accept_block (\<lambda>_ _. None) [8, 500] (demo_freq\<lparr>output_ids := []\<rparr>) = Inr a
     \<and> accept_each (\<lambda>_ _. None) [8, 500] (demo_freq\<lparr>output_ids := []\<rparr>) = Inr b
     \<and> output_ids_through_stop a = [8, 2] \<and> output_ids_through_stop b = [8]"
  by (simp add: accept_block_def update_finish_state_def demo_freq_def finished_def py_last_def check_vocab_boundary_finish_def
      out_of_vocab_def check_str_based_finish_def check_token_based_finish_def is_stop_token_def cap_finished_len_def
      output_ids_through_stop_def Let_def)

section \<open>Where a stop string ends\<close>

lemma first_match_Some:
  "first_match f ns = Inr (Some n) \<Longrightarrow> \<exists>us vs. ns = us @ n # vs \<and> f n = Inr True \<and> (\<forall>u\<in>set us. f u = Inr False)"
proof (induction ns)
  case (Cons m ns)
  then obtain b where b: "f m = Inr b" and k: "(if b then Inr (Some m) else first_match f ns) = Inr (Some n)"
    by (auto simp: res_simps)
  show ?case
  proof (cases b)
    case True
    then show ?thesis using b k by (intro exI[of _ "[]"] exI[of _ ns]) simp
  next
    case False
    then obtain us vs where "ns = us @ n # vs" "f n = Inr True" "\<forall>u\<in>set us. f u = Inr False" using Cons.IH k by auto
    then show ?thesis using b False by (intro exI[of _ "m # us"] exI[of _ vs]) simp
  qed
qed simp

lemma first_match_None: "first_match f ns = Inr None \<Longrightarrow> \<forall>n\<in>set ns. f n = Inr False"
  by (induction ns) (auto simp: res_simps split: if_splits)

lemma upt_first_split:
  assumes "[a..<b] = us @ n # vs"
  shows "a \<le> n \<and> n < b \<and> us = [a..<n]"
proof -
  have "length us < length [a..<b]" unfolding assms by simp
  then have l: "a + length us < b" by simp
  have "[a..<b] ! length us = n" unfolding assms by simp
  then have n: "n = a + length us" using l by simp
  have "us = take (length us) [a..<b]" unfolding assms by simp
  also have "\<dots> = [a..<n]" using l n by (simp add: take_upt)
  finally show ?thesis using l n by simp
qed

text \<open>C28. A matched stop string cuts the output at the right token: no shorter newly accepted prefix
  of the tail window already decodes to text with the stop string, and the recorded length is
  either such a prefix or the whole output.\<close>

theorem stop_string_cut_is_first:
  assumes "tokenizer r = Some tk" "1 \<le> n" "0 \<le> stop_str_max_len (sampling r)"
    and "locate_str_stop_finished_len (\<lambda>t. Inr (py_in s t)) n r = Inr k"
    and "start = nat (int (length (output_ids r)) - stop_match_tail_len r n)"
  shows "(k = int (length (output_ids r)) \<or> py_in s (tk_decode tk (drop start (take (nat k) (output_ids r)))))
     \<and> int start \<le> k \<and> k \<le> int (length (output_ids r))
     \<and> (\<forall>j. start < j \<and> int (length (output_ids r)) - n < int j \<and> int j < k \<longrightarrow>
          \<not> py_in s (tk_decode tk (drop start (take j (output_ids r)))))"
proof -
  define out where "out = output_ids r"
  define w where "w = drop start out"
  define lo where "lo = nat (max 1 (int (length w) - n + 1))"
  have t: "0 \<le> stop_match_tail_len r n" "stop_match_tail_len r n \<le> int (length out)"
    using assms(3) by (auto simp: stop_match_tail_len_def Let_def out_def)
  have st: "int start = int (length out) - stop_match_tail_len r n" "start \<le> length out"
    using t assms(5) by (simp_all add: out_def)
  have lw: "length w = length out - start" by (simp add: w_def)
  have win: "drop start (take j out) = take (j - start) w" for j by (simp add: w_def drop_take)
  define f where "f = (\<lambda>c. Inr (py_in s (tk_decode tk (take c w))) :: bool res)"
  obtain found where fm: "first_match f [lo..<length w] = Inr found"
    and k: "k = (case found of Some c \<Rightarrow> int start + int c | None \<Rightarrow> int (length out))"
  proof -
    have e: "int (length out) - stop_match_tail_len r n = int start" using st(1) by simp
    have "locate_str_stop_finished_len (\<lambda>t. Inr (py_in s t)) n r
        = res_map (\<lambda>found. case found of Some c \<Rightarrow> int start + int c | None \<Rightarrow> int (length out)) (first_match f [lo..<length w])"
      unfolding locate_str_stop_finished_len_def Let_def out_def[symmetric] e nat_int w_def[symmetric] lo_def[symmetric]
      by (simp add: decode_of_def assms(1) f_def)
    then have "res_map (\<lambda>found. case found of Some c \<Rightarrow> int start + int c | None \<Rightarrow> int (length out))
        (first_match f [lo..<length w]) = Inr k" using assms(4) by simp
    then show ?thesis using that unfolding res_map_Inr by blast
  qed
  show ?thesis unfolding out_def[symmetric] win
  proof (cases found)
    case None
    have "\<forall>c\<in>set [lo..<length w]. f c = Inr False" by (rule first_match_None) (use fm None in simp)
    then have no: "\<not> py_in s (tk_decode tk (take c w))" if "lo \<le> c" "c < length w" for c using that by (simp add: f_def)
    have kl: "k = int (length out)" using k None by simp
    moreover have "\<not> py_in s (tk_decode tk (take (j - start) w))"
      if "start < j" "int (length out) - n < int j" "int j < k" for j
      by (rule no) (use that kl lw st(2) in \<open>auto simp: lo_def of_nat_diff\<close>)
    ultimately show "(k = int (length out) \<or> py_in s (tk_decode tk (take (nat k - start) w))) \<and> int start \<le> k \<and> k \<le> int (length out)
      \<and> (\<forall>j. start < j \<and> int (length out) - n < int j \<and> int j < k \<longrightarrow> \<not> py_in s (tk_decode tk (take (j - start) w)))"
      using st(2) by auto
  next
    case (Some c)
    obtain us vs where sp: "[lo..<length w] = us @ c # vs" "f c = Inr True" "\<forall>u\<in>set us. f u = Inr False"
      using first_match_Some fm Some by blast
    note c = upt_first_split[OF sp(1)]
    have no: "\<not> py_in s (tk_decode tk (take u w))" if "lo \<le> u" "u < c" for u using that sp(3) c by (simp add: f_def)
    have kc: "k = int start + int c" using k Some by simp
    have "nat k - start = c" using kc by simp
    then have "py_in s (tk_decode tk (take (nat k - start) w))" using sp(2) by (simp add: f_def)
    moreover have "k \<le> int (length out)" using kc c lw by linarith
    moreover have "\<not> py_in s (tk_decode tk (take (j - start) w))"
      if "start < j" "int (length out) - n < int j" "int j < k" for j
      by (rule no) (use that kc lw st(2) in \<open>auto simp: lo_def of_nat_diff\<close>)
    ultimately show "(k = int (length out) \<or> py_in s (tk_decode tk (take (nat k - start) w))) \<and> int start \<le> k \<and> k \<le> int (length out)
      \<and> (\<forall>j. start < j \<and> int (length out) - n < int j \<and> int j < k \<longrightarrow> \<not> py_in s (tk_decode tk (take (j - start) w)))"
      using kc by auto
  qed
qed

text \<open>Three tokens accepted in one step, the stop string completed by the second of them.\<close>

theorem stop_string_cut_is_first_witness:
  "locate_str_stop_finished_len (\<lambda>t. Inr (py_in ''b'' t)) 3
      (demo_freq\<lparr>output_ids := [0, 1, 2], tokenizer := Some \<lparr>tk_decode = map (\<lambda>i. ''abc'' ! nat i), tk_eos = None, tk_stops = []\<rparr>\<rparr>)
    = Inr 2 \<and> \<not> py_in ''b'' ''a''"
proof -
  let ?tk = "\<lparr>tk_decode = map (\<lambda>i. ''abc'' ! nat i), tk_eos = None, tk_stops = []\<rparr>"
  let ?r = "demo_freq\<lparr>output_ids := [0, 1, 2], tokenizer := Some ?tk\<rparr>"
  have l: "locate_str_stop_finished_len (\<lambda>t. Inr (py_in ''b'' t)) 3 ?r = Inr 2" by code_simp
  have "\<forall>j. 0 < j \<and> int (length (output_ids ?r)) - 3 < int j \<and> int j < 2 \<longrightarrow>
      \<not> py_in ''b'' (tk_decode ?tk (drop 0 (take j (output_ids ?r))))"
    using stop_string_cut_is_first[of ?r ?tk 3 "''b''" 2 0, OF _ _ _ l]
    by (simp add: demo_freq_def stop_match_tail_len_def)
  from spec[OF this, of 1] have "\<not> py_in ''b'' (tk_decode ?tk (drop 0 (take 1 (output_ids ?r))))"
    by (simp add: demo_freq_def)
  then show ?thesis using l by simp
qed

text \<open>A malformed stop pattern marks the request aborted, but the checks that follow in the same
  step can overwrite the mark: here a stop token turns the abort into a normal stop.\<close>

lemma malformed_regex_abort_overwritten:
  "\<exists>r'. update_finish_state (\<lambda>_ _. None) 1
      (demo_freq\<lparr>sampling := (sampling demo_freq)\<lparr>stop_regex_strs := [''('']\<rparr>, output_ids := [8],
          tokenizer := Some \<lparr>tk_decode = (\<lambda>_. []), tk_eos = None, tk_stops = []\<rparr>\<rparr>) = Inr r'
     \<and> finished_reason r' = Some (FINISH_MATCHED_TOKEN 8)"
  by (simp add: update_finish_state_def demo_freq_def finished_def py_last_def check_vocab_boundary_finish_def tail_str_def
      decode_of_def out_of_vocab_def check_str_based_finish_def check_token_based_finish_def is_stop_token_def
      cap_finished_len_def Let_def)

end
