(* ===== verification/ReqRounds.thy ===== *)
theory ReqRounds
  imports Prelude "HOL-Library.Sublist"
begin

text \<open>
  A request between scheduling rounds (\<open>sglang-overlay/schedule_batch.py\<close>, class \<open>Req\<close>): the
  fill ids it keeps in step with its prompt and output, the longest prefix it may match, its
  extend range, what a retraction or an abort resets, and the bookkeeping
  \<open>prepare_for_extend\<close> does per request (cached-token counts, the split of a cached prefix by
  tier, the token ids for input logprobs).  External: the prefix tree (\<open>match\<close>).  Diffusion
  LLM requests and the mamba state are left out.
\<close>

section \<open>State\<close>

record kv_info =
  req_pool_idx :: "nat option"
  cache_protected_len :: int
  kv_committed_len :: int
  kv_allocated_len :: int
  swa_evict_floor :: int
  swa_evicted_seqlen :: int

definition fresh_kv :: kv_info where
  "fresh_kv = \<lparr>req_pool_idx = None, cache_protected_len = 0, kv_committed_len = 0, kv_allocated_len = 0,
     swa_evict_floor = 0, swa_evicted_seqlen = 0\<rparr>"

record rreq =
  origin_input_ids :: "int list"
  out_ids :: "int list"
  fill_ids :: "int list"
  fill_is_origin :: bool
  extend_range :: "(int \<times> int) option"
  return_logprob :: bool
  logprob_start_len :: int
  streaming_session :: bool
  input_embeds :: "int list option"
  embed_overrides :: "int list option"
  has_multimodal :: bool
  prefix_indices :: "int list"
  host_hit_length :: int
  host_loaded_length :: int
  storage_hit_length :: int
  storage_hit_start :: "int option"
  host_hit_is_storage :: bool
  kv :: kv_info
  is_retracted :: bool
  retracted_stain :: bool
  retraction_count :: nat
  cached_tokens :: int
  already_computed :: int
  cached_split :: "(int \<times> int \<times> int) option"
  aborting :: bool

definition seqlen :: "rreq \<Rightarrow> int" where
  "seqlen r = int (length (origin_input_ids r)) + int (length (out_ids r))"

text \<open>\<open>ReqKvInfo\<close>: the sliding-window positions the request may free itself (\<open>align\<close> is the
  library's \<open>ceil_align\<close>), and its release.\<close>

definition swa_dead_lo :: "(int \<Rightarrow> int \<Rightarrow> int) \<Rightarrow> int \<Rightarrow> kv_info \<Rightarrow> int" where
  "swa_dead_lo align page_size k =
     (let lo = max (cache_protected_len k) (swa_evict_floor k)
      in if page_size > 1 \<and> lo > cache_protected_len k then align lo page_size else lo)"

definition is_kv_released :: "kv_info \<Rightarrow> bool" where
  "is_kv_released k \<longleftrightarrow> kv_allocated_len k = 0 \<and> swa_evicted_seqlen k = 0"

definition mark_kv_released :: "kv_info \<Rightarrow> kv_info" where
  "mark_kv_released k = k\<lparr>kv_allocated_len := 0, swa_evicted_seqlen := 0\<rparr>"

definition detach_kv :: "rreq \<Rightarrow> kv_info \<times> rreq" where
  "detach_kv r = (kv r, r\<lparr>kv := fresh_kv\<rparr>)"

section \<open>Fill ids and the extend range\<close>

text \<open>\<open>n_have_output\<close> may be negative; the array is \<open>origin_input_ids\<close> itself when \<open>fill_is_origin\<close>.\<close>

definition refresh_fill_ids :: "rreq \<Rightarrow> rreq" where
  "refresh_fill_ids r =
     (let n_have_output = int (length (fill_ids r)) - int (length (origin_input_ids r))
      in if \<not> fill_is_origin r \<and> 0 \<le> n_have_output \<and> n_have_output \<le> int (length (out_ids r))
         then r\<lparr>fill_ids := fill_ids r @ drop (nat n_have_output) (out_ids r)\<rparr>
         else r\<lparr>fill_ids := origin_input_ids r @ out_ids r, fill_is_origin := False\<rparr>)"

definition set_extend_range :: "int \<Rightarrow> int \<Rightarrow> rreq \<Rightarrow> rreq" where
  "set_extend_range start stop r = r\<lparr>extend_range := Some (start, stop)\<rparr>"

definition get_fill_ids :: "rreq \<Rightarrow> int list res" where
  "get_fill_ids r = (case extend_range r of None \<Rightarrow> Inl AttributeError
     | Some (start, stop) \<Rightarrow> Inr (if 0 \<le> stop then take (nat stop) (fill_ids r)
                            else take (length (fill_ids r) - nat (- stop)) (fill_ids r)))"

definition compute_max_prefix_len :: "rreq \<Rightarrow> int \<Rightarrow> int" where
  "compute_max_prefix_len r input_len =
     (let max_prefix_len = input_len - 1;
          max_prefix_len = (if return_logprob r \<and> logprob_start_len r \<ge> 0
             then min max_prefix_len (logprob_start_len r) else max_prefix_len)
      in max max_prefix_len 0)"

text \<open>The key the prefix tree is asked for: its tokens and its limit (\<open>tail\<close> is
  \<open>swa_reprefill_tail_tokens()\<close>, 0 for layouts without a ring; \<open>None\<close> when there is no tree).
  The cap is applied twice, before and after the override branch.\<close>

definition cap_key :: "int \<Rightarrow> int \<Rightarrow> int option \<Rightarrow> int option" where
  "cap_key tail input_len limit =
     (if tail = 0 then limit
      else let capped = max 0 (input_len - tail)
           in Some (case limit of None \<Rightarrow> capped | Some l \<Rightarrow> min l capped))"

definition match_key :: "int option \<Rightarrow> rreq \<Rightarrow> int list \<times> int option" where
  "match_key tree r =
     (let input_len = int (length (fill_ids r));
          key_limit = Some (compute_max_prefix_len r input_len);
          key_limit = (case tree of None \<Rightarrow> key_limit | Some tail \<Rightarrow> cap_key tail input_len key_limit);
          (toks, key_limit) = (if embed_overrides r \<noteq> None then ([], None) else (fill_ids r, key_limit))
      in (toks, case tree of None \<Rightarrow> key_limit | Some tail \<Rightarrow> cap_key tail input_len key_limit))"

record match_result =
  m_device_indices :: "int list"
  m_host_hit_length :: int
  m_protected :: "int option"

definition init_next_round_input ::
    "(int list \<Rightarrow> int option \<Rightarrow> match_result) \<Rightarrow> int option \<Rightarrow> rreq \<Rightarrow> rreq" where
  "init_next_round_input match tree r =
     (let r = refresh_fill_ids r;
          r = (if streaming_session r \<and> return_logprob r \<and> logprob_start_len r \<ge> 0
               then r\<lparr>logprob_start_len := -1\<rparr> else r)
      in case tree of
           None \<Rightarrow> r
         | Some tail \<Rightarrow>
             let (toks, limit) = match_key tree r; m = match toks limit
             in r\<lparr>prefix_indices := m_device_indices m, host_hit_length := m_host_hit_length m,
                  kv := (kv r)\<lparr>cache_protected_len := (case m_protected m of Some p \<Rightarrow> p
                     | None \<Rightarrow> int (length (m_device_indices m)))\<rparr>\<rparr>)"

definition append_output :: "int list \<Rightarrow> rreq \<Rightarrow> rreq" where
  "append_output ts r = r\<lparr>out_ids := out_ids r @ ts\<rparr>"

definition reset_for_retract :: "rreq \<Rightarrow> rreq res" where
  "reset_for_retract r =
     ensure (req_pool_idx (kv r) = None) AssertionError
      (let r = r\<lparr>retraction_count := retraction_count r + 1, prefix_indices := [],
             kv := (kv r)\<lparr>cache_protected_len := 0, kv_committed_len := 0\<rparr>, extend_range := None,
             is_retracted := True, retracted_stain := True, already_computed := 0\<rparr>
       in Inr (if input_embeds r \<noteq> None then r\<lparr>out_ids := []\<rparr> else r))"

definition set_finish_with_abort :: "rreq \<Rightarrow> rreq" where
  "set_finish_with_abort r =
     r\<lparr>origin_input_ids := [0], fill_is_origin := False, return_logprob := False, logprob_start_len := -1, aborting := True\<rparr>"

section \<open>Per-request bookkeeping of an extend batch\<close>

definition split_cached_prefix_by_tier ::
    "int \<Rightarrow> int \<Rightarrow> int \<Rightarrow> int option \<Rightarrow> bool \<Rightarrow> int \<times> int \<times> int" where
  "split_cached_prefix_by_tier prefix_len host_hit_len storage_hit_len hit_start host_is_storage =
     (let host_hit_len = min prefix_len host_hit_len;
          host_start = prefix_len - host_hit_len;
          (host, storage) =
            (case hit_start of
               None \<Rightarrow> if host_is_storage then (0, host_hit_len)
                       else let storage = min host_hit_len storage_hit_len in (host_hit_len - storage, storage)
             | Some s \<Rightarrow>
                 let storage_end = s + storage_hit_len;
                     storage = max 0 (min prefix_len storage_end - max 0 s);
                     storage_in_host = max 0 (min prefix_len storage_end - max host_start s)
                 in (if host_is_storage then 0 else host_hit_len - storage_in_host, storage))
      in (prefix_len - host - storage, host, storage))"

definition materialized_host_hit_len :: "rreq \<Rightarrow> int" where
  "materialized_host_hit_len r = min (host_hit_length r) (host_loaded_length r)"

definition fulfilled_storage_hit_len :: "rreq \<Rightarrow> int \<Rightarrow> int" where
  "fulfilled_storage_hit_len r prefix_len =
     (case storage_hit_start r of
        None \<Rightarrow> min prefix_len (storage_hit_length r)
      | Some s \<Rightarrow> max 0 (min prefix_len (s + storage_hit_length r) - s))"

definition compute_extend_logprob_start_len :: "int \<Rightarrow> int \<Rightarrow> int \<Rightarrow> int \<Rightarrow> int" where
  "compute_extend_logprob_start_len logprob_start prefix_len extend_len full_len =
     (let resolved_start = (if logprob_start = -1 then full_len else max logprob_start prefix_len)
      in min (resolved_start - prefix_len) extend_len)"

definition pre_len :: "rreq \<Rightarrow> int" where
  "pre_len r = int (length (prefix_indices r))"

definition range_stop :: "rreq \<Rightarrow> int" where
  "range_stop r = snd (the (extend_range r))"

definition range_len :: "rreq \<Rightarrow> int" where
  "range_len r = snd (the (extend_range r)) - fst (the (extend_range r))"

definition chunk_input_ids :: "rreq \<Rightarrow> int list res" where
  "chunk_input_ids r = res_map (drop (length (prefix_indices r))) (get_fill_ids r)"

definition extend_logprob_start :: "rreq \<Rightarrow> int" where
  "extend_logprob_start r = compute_extend_logprob_start_len (logprob_start_len r) (pre_len r) (range_len r)
     (int (length (fill_ids r)))"

text \<open>Does this chunk finish the prefill (or must it be treated as if)?\<close>

definition last_chunk :: "bool \<Rightarrow> rreq \<Rightarrow> bool" where
  "last_chunk batch_logprob r \<longleftrightarrow> range_stop r \<ge> int (length (fill_ids r))
     \<or> (batch_logprob \<and> extend_logprob_start r < range_len r)"

text \<open>The cached-token counts of a request's round; the planned range must match the prefix.\<close>

definition count_cached :: "rreq \<Rightarrow> rreq res" where
  "count_cached r =
     ensure (range_stop r - pre_len r = range_len r) AssertionError
      (Inr (if retracted_stain r then r\<lparr>is_retracted := False\<rparr>
        else r\<lparr>cached_tokens := cached_tokens r + (pre_len r - already_computed r),
              cached_split := (case cached_split r of Some s \<Rightarrow> Some s
                 | None \<Rightarrow> Some (split_cached_prefix_by_tier (pre_len r) (materialized_host_hit_len r)
                            (storage_hit_length r) (storage_hit_start r) (host_hit_is_storage r))),
              already_computed := range_stop r, is_retracted := False\<rparr>))"

text \<open>The token ids a request contributes to the input-logprob computation of the batch.\<close>

definition input_logprob_ids :: "rreq \<Rightarrow> int list" where
  "input_logprob_ids r =
     (let lp_start = (if logprob_start_len r = -1 then int (length (origin_input_ids r)) else logprob_start_len r);
          global_start = (if pre_len r < lp_start then lp_start else pre_len r);
          ids = take (nat (range_stop r - global_start)) (drop (nat (global_start + 1)) (origin_input_ids r))
      in ids @ replicate (nat (range_len r - extend_logprob_start r - int (length ids))) 0)"

text \<open>Where the request's replacement embeddings land in the flattened token tensor.\<close>

definition replace_at :: "rreq \<Rightarrow> int \<Rightarrow> int list" where
  "replace_at r ptr = (case embed_overrides r of None \<Rightarrow> []
     | Some ps \<Rightarrow> map (\<lambda>p. ptr + (p - pre_len r)) (filter (\<lambda>p. 0 \<le> p - pre_len r \<and> p - pre_len r < range_len r) ps))"

fun replace_positions :: "(rreq \<times> nat) list \<Rightarrow> int \<Rightarrow> int list" where
  "replace_positions [] ptr = []"
| "replace_positions ((r, n) # rs) ptr = replace_at r ptr @ replace_positions rs (ptr + int n)"

definition embeds_slice :: "rreq \<Rightarrow> int list" where
  "embeds_slice r = (case input_embeds r of None \<Rightarrow> []
     | Some es \<Rightarrow> take (nat (range_len r)) (drop (length (prefix_indices r)) es))"

definition replay_ok :: "rreq \<Rightarrow> bool" where
  "replay_ok r \<longleftrightarrow> \<not> (has_multimodal r \<or> input_embeds r \<noteq> None \<or> embed_overrides r \<noteq> None)
     \<and> \<not> (return_logprob r \<and> logprob_start_len r \<notin> {-1, int (length (origin_input_ids r))})"

record extend_batch =
  xb_input_ids :: "int list"
  xb_seq_lens :: "int list"
  xb_orig_seq_lens :: "int list"
  xb_prefix_lens :: "int list"
  xb_extend_lens :: "int list"
  xb_extend_num_tokens :: int
  xb_last_chunk_mask :: "bool list"
  xb_swa_reset :: "bool list option"
  xb_out_cache_loc :: "int list"
  xb_pool_idx :: "int list"
  xb_input_embeds :: "int list"
  xb_replace_positions :: "int list"
  xb_logprob_starts :: "int list"
  xb_logprob_ids :: "int list option"
  xb_seq_lens_sum :: int

text \<open>\<open>prepare_for_extend\<close>: \<open>alloc\<close> is \<open>alloc_for_extend\<close>, which registers a row and slots for each
  request (its new \<open>ReqKvInfo\<close>) and returns the batch's cache locations and rows.\<close>

definition prepare_for_extend ::
    "bool \<Rightarrow> bool \<Rightarrow> int \<Rightarrow> (rreq list \<Rightarrow> (kv_info list \<times> int list \<times> int list) res) \<Rightarrow> rreq list
      \<Rightarrow> (rreq list \<times> extend_batch) res" where
  "prepare_for_extend batch_logprob replay vocab alloc rs =
     res_bind (res_list chunk_input_ids rs) (\<lambda>ids.
     ensure (replay \<longrightarrow> list_all replay_ok rs) ValueError
      (res_bind (alloc rs) (\<lambda>(kvs, locs, pools).
       res_bind (res_list count_cached (map2 (\<lambda>r k. r\<lparr>kv := k\<rparr>) rs kvs)) (\<lambda>rs'.
       Inr (rs',
        \<lparr>xb_input_ids = concat ids,
         xb_seq_lens = map range_stop rs,
         xb_orig_seq_lens = map (\<lambda>r. max (range_stop r) (int (length (origin_input_ids r)))) rs,
         xb_prefix_lens = map pre_len rs,
         xb_extend_lens = map range_len rs,
         xb_extend_num_tokens = sum_list (map (int \<circ> length) ids),
         xb_last_chunk_mask = map (last_chunk batch_logprob) rs,
         xb_swa_reset = (if replay then Some (map (\<lambda>r. req_pool_idx (kv r) = None \<or> is_retracted r) rs) else None),
         xb_out_cache_loc = locs, xb_pool_idx = pools,
         xb_input_embeds = concat (map embeds_slice rs),
         xb_replace_positions = replace_positions (zip rs (map length ids)) 0,
         xb_logprob_starts = map extend_logprob_start rs,
         xb_logprob_ids = (if batch_logprob
            then Some (map (\<lambda>t. min (max t 0) (vocab - 1)) (concat (map input_logprob_ids rs))) else None),
         xb_seq_lens_sum = sum_list (map range_stop rs)\<rparr>)))))"

text \<open>\<open>update_spec_correct_drafts_histogram\<close> and \<open>update_spec_cap_lens_histogram\<close>.\<close>

definition update_histogram :: "nat \<Rightarrow> int list \<Rightarrow> int list" where
  "update_histogram k h =
     (let h = (if length h \<le> k then h @ replicate (k - length h + 1) 0 else h) in h[k := h ! k + 1])"

section \<open>The fill ids follow the prompt and the output\<close>

text \<open>What the length test of \<open>_refresh_fill_ids\<close> relies on: an array of a length that fits was
  filled from this prompt and a prefix of this output.\<close>

definition fill_synced :: "rreq \<Rightarrow> bool" where
  "fill_synced r \<longleftrightarrow> (\<exists>k \<le> length (out_ids r). fill_ids r = origin_input_ids r @ take k (out_ids r))"

definition fill_inv :: "rreq \<Rightarrow> bool" where
  "fill_inv r \<longleftrightarrow>
     (length (origin_input_ids r) \<le> length (fill_ids r)
        \<and> length (fill_ids r) \<le> length (origin_input_ids r) + length (out_ids r) \<longrightarrow> fill_synced r)
     \<and> (extend_range r \<noteq> None \<longrightarrow> fill_synced r)"

lemma refresh_frame [simp]:
  "origin_input_ids (refresh_fill_ids r) = origin_input_ids r" "out_ids (refresh_fill_ids r) = out_ids r"
  "extend_range (refresh_fill_ids r) = extend_range r"
  by (simp_all add: refresh_fill_ids_def Let_def)

lemma refresh_of_synced:
  "fill_synced r \<Longrightarrow> fill_ids (refresh_fill_ids r) = origin_input_ids r @ out_ids r"
  by (auto simp: fill_synced_def refresh_fill_ids_def Let_def min_def)

lemma refresh_of_inv:
  assumes "fill_inv r"
  shows "fill_ids (refresh_fill_ids r) = origin_input_ids r @ out_ids r"
proof (cases "length (origin_input_ids r) \<le> length (fill_ids r)
    \<and> length (fill_ids r) \<le> length (origin_input_ids r) + length (out_ids r)")
  case True
  then show ?thesis using assms refresh_of_synced by (simp add: fill_inv_def)
next
  case False
  then have "\<not> (0 \<le> int (length (fill_ids r)) - int (length (origin_input_ids r))
      \<and> int (length (fill_ids r)) - int (length (origin_input_ids r)) \<le> int (length (out_ids r)))" by linarith
  then show ?thesis by (auto simp: refresh_fill_ids_def Let_def)
qed

lemma full_synced: "fill_ids r = origin_input_ids r @ out_ids r \<Longrightarrow> fill_synced r"
  unfolding fill_synced_def by (rule exI [of _ "length (out_ids r)"]) simp

lemma init_frame [simp]:
  "origin_input_ids (init_next_round_input m t r) = origin_input_ids r"
  "out_ids (init_next_round_input m t r) = out_ids r"
  "extend_range (init_next_round_input m t r) = extend_range r"
  "fill_ids (init_next_round_input m t r) = fill_ids (refresh_fill_ids r)"
  by (simp_all add: init_next_round_input_def Let_def split: option.split prod.split)

lemma init_synced: "fill_inv r \<Longrightarrow> fill_synced (init_next_round_input m t r)"
  by (rule full_synced) (simp add: refresh_of_inv)

text \<open>A request's life between rounds.  Tokens are appended only while it is in a batch
  (\<open>extend_range\<close> set), a batch takes it only right after its round was initialised, and an
  abort replaces the prompt only of a request whose array cannot be mistaken for the new one.\<close>

inductive req_step :: "(int list \<Rightarrow> int option \<Rightarrow> match_result) \<Rightarrow> int option \<Rightarrow> rreq \<Rightarrow> rreq \<Rightarrow> bool"
  for m :: "int list \<Rightarrow> int option \<Rightarrow> match_result" and t :: "int option" where
  rs_init: "req_step m t r (init_next_round_input m t r)"
| rs_admit: "req_step m t r (set_extend_range a b (init_next_round_input m t r))"
| rs_append: "extend_range r \<noteq> None \<Longrightarrow> req_step m t r (append_output ts r)"
| rs_retract: "reset_for_retract r = Inr r' \<Longrightarrow> req_step m t r r'"
| rs_release: "req_step m t r (snd (detach_kv r))"
| rs_abort: "extend_range r = None \<Longrightarrow> fill_ids r = [] \<or> length (fill_ids r) > 1 + length (out_ids r)
    \<Longrightarrow> req_step m t r (set_finish_with_abort r)"

lemma synced_inv: "fill_synced r \<Longrightarrow> fill_inv r"
  by (simp add: fill_inv_def)

lemma append_synced: "fill_synced r \<Longrightarrow> fill_synced (append_output ts r)"
  unfolding fill_synced_def append_output_def
  by simp (metis append_take_drop_id length_take min.absorb2 take_append take_all_iff diff_is_0_eq
      append_Nil2 take_0 le_add1 order.trans)

lemma retract_inv:
  assumes "fill_inv r" "reset_for_retract r = Inr r'"
  shows "fill_inv r'"
proof -
  from assms(2) have f: "fill_ids r' = fill_ids r" "origin_input_ids r' = origin_input_ids r"
    "extend_range r' = None" and o: "out_ids r' = out_ids r \<or> out_ids r' = []"
    by (auto simp: reset_for_retract_def ensure_Inr Let_def split: if_splits)
  from o show ?thesis
  proof
    assume "out_ids r' = out_ids r"
    then show ?thesis using assms(1) by (simp add: fill_inv_def fill_synced_def f)
  next
    assume e: "out_ids r' = []"
    have "fill_ids r = origin_input_ids r" if "length (fill_ids r) = length (origin_input_ids r)"
    proof -
      have "fill_synced r" using assms(1) that by (simp add: fill_inv_def)
      then show ?thesis using that by (auto simp: fill_synced_def)
    qed
    then show ?thesis by (auto simp: fill_inv_def fill_synced_def f e)
  qed
qed

lemma abort_inv:
  assumes "extend_range r = None" "fill_ids r = [] \<or> length (fill_ids r) > 1 + length (out_ids r)"
  shows "fill_inv (set_finish_with_abort r)"
  using assms by (auto simp: set_finish_with_abort_def fill_inv_def)

lemma req_step_inv:
  assumes "req_step m t r r'" "fill_inv r"
  shows "fill_inv r'"
  using assms(1)
proof (cases rule: req_step.cases)
  case rs_init
  then show ?thesis using assms(2) by (simp add: init_synced synced_inv)
next
  case (rs_admit a b)
  have "fill_synced r'" using init_synced [OF assms(2), of m t] rs_admit
    by (simp add: fill_synced_def set_extend_range_def)
  then show ?thesis by (rule synced_inv)
next
  case (rs_append ts)
  then show ?thesis using assms(2) by (simp add: fill_inv_def append_synced)
next
  case rs_retract
  then show ?thesis using retract_inv [OF assms(2)] by simp
next
  case rs_release
  then show ?thesis using assms(2) by (simp add: detach_kv_def fill_inv_def fill_synced_def)
next
  case rs_abort
  then show ?thesis by (simp add: abort_inv)
qed

definition fresh_req :: "rreq \<Rightarrow> bool" where
  "fresh_req r \<longleftrightarrow> fill_ids r = [] \<and> \<not> fill_is_origin r \<and> out_ids r = [] \<and> extend_range r = None"

lemma reachable_inv:
  assumes "(req_step m t)\<^sup>*\<^sup>* r0 r" "fresh_req r0"
  shows "fill_inv r"
  using assms
proof (induction rule: rtranclp_induct)
  case base
  then show ?case by (simp add: fresh_req_def fill_inv_def fill_synced_def)
qed (blast intro: req_step_inv)

text \<open>Whatever happened to a request since it arrived (rounds, admissions, generated
  tokens, retractions that may drop the output, releases, an abort), the refresh at the start of
  its next round leaves exactly the prompt followed by the output in the fill array, although it
  only looks at lengths.\<close>

theorem refresh_restores_fill:
  assumes "(req_step m t)\<^sup>*\<^sup>* r0 r" "fresh_req r0"
  shows "fill_ids (refresh_fill_ids r) = origin_input_ids r @ out_ids r"
  by (rule refresh_of_inv [OF reachable_inv [OF assms]])

definition demo_req :: rreq where
  "demo_req = \<lparr>origin_input_ids = [5, 6, 7], out_ids = [], fill_ids = [], fill_is_origin = False,
     extend_range = None, return_logprob = False, logprob_start_len = -1, streaming_session = False,
     input_embeds = Some [1, 2, 3], embed_overrides = None, has_multimodal = False, prefix_indices = [],
     host_hit_length = 0, host_loaded_length = 0, storage_hit_length = 0, storage_hit_start = None,
     host_hit_is_storage = False, kv = fresh_kv, is_retracted = False, retracted_stain = False,
     retraction_count = 0, cached_tokens = 0, already_computed = 0, cached_split = None, aborting = False\<rparr>"

definition demo_match :: "int list \<Rightarrow> int option \<Rightarrow> match_result" where
  "demo_match toks limit = \<lparr>m_device_indices = take (case limit of None \<Rightarrow> length toks | Some l \<Rightarrow> nat l) (take 2 toks),
     m_host_hit_length = 0, m_protected = None\<rparr>"

text \<open>Admitted, two tokens generated, then retracted (with input embeddings, so the output goes).\<close>

definition demo_run :: "rreq list" where
  "demo_run =
     (let a = set_extend_range 2 3 (init_next_round_input demo_match (Some 0) demo_req);
          b = append_output [8, 9] a; c = init_next_round_input demo_match (Some 0) b
      in [a, b, c, projr (reset_for_retract c)])"

lemma demo_run_reaches: "(req_step demo_match (Some 0))\<^sup>*\<^sup>* demo_req (demo_run ! 3)"
proof -
  have a: "req_step demo_match (Some 0) demo_req (demo_run ! 0)"
    unfolding demo_run_def Let_def by simp (rule rs_admit)
  have b: "req_step demo_match (Some 0) (demo_run ! 0) (demo_run ! 1)"
    unfolding demo_run_def Let_def by simp (rule rs_append, simp add: set_extend_range_def)
  have c: "req_step demo_match (Some 0) (demo_run ! 1) (demo_run ! 2)"
    unfolding demo_run_def Let_def by simp (rule rs_init)
  have d: "req_step demo_match (Some 0) (demo_run ! 2) (demo_run ! 3)"
    by (rule rs_retract) code_simp
  show ?thesis
    by (rule converse_rtranclp_into_rtranclp, rule a, rule converse_rtranclp_into_rtranclp, rule b,
        rule converse_rtranclp_into_rtranclp, rule c, rule r_into_rtranclp, rule d)
qed

lemma refresh_restores_fill_witness:
  "length (fill_ids (demo_run ! 3)) = 5 \<and> fill_ids (refresh_fill_ids (demo_run ! 3)) = [5, 6, 7]"
proof
  show "length (fill_ids (demo_run ! 3)) = 5" by code_simp
  have "origin_input_ids (demo_run ! 3) @ out_ids (demo_run ! 3) = [5, 6, 7]" by code_simp
  then show "fill_ids (refresh_fill_ids (demo_run ! 3)) = [5, 6, 7]"
    using refresh_restores_fill [OF demo_run_reaches] by (simp add: fresh_req_def demo_req_def)
qed

text \<open>Without the guard of \<open>rs_abort\<close> the length test is fooled: a one-token prompt that was
  already filled keeps its old token after \<open>set_finish_with_abort\<close>.\<close>

lemma abort_keeps_stale_fill:
  assumes "fill_ids r = [x]" "out_ids r = []" "\<not> fill_is_origin r"
  shows "fill_ids (refresh_fill_ids (set_finish_with_abort r)) = [x]"
  using assms by (simp add: set_finish_with_abort_def refresh_fill_ids_def Let_def)

section \<open>The matched prefix\<close>

lemma cap_key_le: "cap_key tail n (Some l) = Some l' \<Longrightarrow> l' \<le> l \<and> (tail \<noteq> 0 \<longrightarrow> l' \<le> max 0 (n - tail))"
  by (auto simp: cap_key_def Let_def split: if_splits)

lemma cap_key_Some: "\<exists>l'. cap_key tail n (Some l) = Some l'"
  by (simp add: cap_key_def)

lemma match_key_plain:
  assumes "embed_overrides r = None"
  shows "\<exists>l. match_key (Some tail) r = (fill_ids r, Some l)
     \<and> l \<le> compute_max_prefix_len r (int (length (fill_ids r)))
     \<and> (tail \<noteq> 0 \<longrightarrow> l \<le> max 0 (int (length (fill_ids r)) - tail))"
proof -
  let ?n = "int (length (fill_ids r))"
  obtain l1 where l1: "cap_key tail ?n (Some (compute_max_prefix_len r ?n)) = Some l1" using cap_key_Some by blast
  obtain l2 where l2: "cap_key tail ?n (Some l1) = Some l2" using cap_key_Some by blast
  show ?thesis using assms cap_key_le [OF l1] cap_key_le [OF l2] l1 l2
    by (auto simp: match_key_def Let_def)
qed

lemma match_key_override:
  "embed_overrides r \<noteq> None \<Longrightarrow> fst (match_key (Some tail) r) = []"
  by (auto simp: match_key_def Let_def)

lemma max_prefix_bounds:
  assumes "0 < n"
  shows "compute_max_prefix_len r n \<le> n - 1"
    "return_logprob r \<Longrightarrow> logprob_start_len r \<ge> 0 \<Longrightarrow> compute_max_prefix_len r n \<le> logprob_start_len r"
  using assms by (auto simp: compute_max_prefix_len_def Let_def)

text \<open>When the prefix tree keeps to the limit it is given (and matches no more tokens than it
  was asked for), the prefix a round starts from leaves at least one token to compute, does not
  reach into the trailing sliding window that must be prefilled again, and ends before the first
  position whose logprob was requested; with replacement embeddings nothing is matched.\<close>

theorem matched_prefix_bounded:
  assumes tree: "\<And>toks l. length (m_device_indices (match toks l)) \<le> length toks"
    and lim: "\<And>toks l. int (length (m_device_indices (match toks (Some l)))) \<le> max 0 l"
    and r': "r' = init_next_round_input match (Some tail) r" and n: "n = int (length (fill_ids r'))" "0 < n"
    and lp: "logprob_start_len r \<ge> -1"
  shows "pre_len r' < n \<and> (tail \<noteq> 0 \<longrightarrow> pre_len r' \<le> max 0 (n - tail))
     \<and> (return_logprob r' \<and> logprob_start_len r' \<noteq> -1 \<longrightarrow> pre_len r' \<le> logprob_start_len r')
     \<and> (embed_overrides r' \<noteq> None \<longrightarrow> prefix_indices r' = [])"
proof -
  define q where "q = (let r = refresh_fill_ids r in if streaming_session r \<and> return_logprob r \<and> logprob_start_len r \<ge> 0
      then r\<lparr>logprob_start_len := -1\<rparr> else r)"
  obtain toks l where k: "match_key (Some tail) q = (toks, l)" by fastforce
  have eq: "prefix_indices r' = m_device_indices (match toks l)" "fill_ids r' = fill_ids q"
    "return_logprob r' = return_logprob q" "logprob_start_len r' = logprob_start_len q"
    "embed_overrides r' = embed_overrides q"
    using r' k by (simp_all add: init_next_round_input_def q_def [symmetric] Let_def q_def)
  have lpq: "logprob_start_len q \<ge> -1" using lp by (simp add: q_def Let_def refresh_fill_ids_def)
  show ?thesis
  proof (cases "embed_overrides q")
    case (Some ps)
    then have "toks = []" using match_key_override [of q tail] k by simp
    then have "m_device_indices (match toks l) = []" using tree [of toks l] by simp
    then show ?thesis using eq n lpq by (simp add: pre_len_def)
  next
    case None
    obtain l' where l': "l = Some l'" "l' \<le> compute_max_prefix_len q n" "tail \<noteq> 0 \<longrightarrow> l' \<le> max 0 (n - tail)"
      using match_key_plain [OF None, of tail] k n(1) eq(2) by auto
    have "pre_len r' \<le> max 0 l'" using lim [of toks l'] eq(1) l'(1) by (simp add: pre_len_def)
    moreover note l'(2,3) max_prefix_bounds [OF n(2), of q] eq n(2) lpq None
    ultimately show ?thesis by (auto simp: max_def split: if_splits)
  qed
qed

lemma matched_prefix_bounded_witness:
  "pre_len (init_next_round_input demo_match (Some 2) (demo_req\<lparr>return_logprob := True\<rparr>)) = 1
   \<and> pre_len (init_next_round_input demo_match (Some 2) (demo_req\<lparr>return_logprob := True\<rparr>)) < 3"
proof
  let ?r = "demo_req\<lparr>return_logprob := True\<rparr>"
  show "pre_len (init_next_round_input demo_match (Some 2) ?r) = 1" by code_simp
  have n: "3 = int (length (fill_ids (init_next_round_input demo_match (Some 2) ?r)))" by code_simp
  have lp: "logprob_start_len ?r \<ge> -1" by code_simp
  show "pre_len (init_next_round_input demo_match (Some 2) ?r) < 3"
    by (rule matched_prefix_bounded [where match = demo_match and tail = 2 and r = ?r, OF _ _ refl n _ lp, THEN conjunct1])
      (auto simp: demo_match_def split: option.split)
qed

section \<open>The split of a cached prefix by tier\<close>

lemma card_ivl_diff:
  fixes a b c d :: int
  assumes "a \<le> b"
  shows "int (card ({a..<b} - {c..<d})) = (b - a) - max 0 (min b d - max a c)"
proof -
  have "card ({a..<b} - {c..<d}) = card {a..<b} - card ({a..<b} \<inter> {c..<d})"
    by (rule card_Diff_subset_Int) simp
  moreover have "card ({a..<b} \<inter> {c..<d}) \<le> card {a..<b}" by (rule card_mono) auto
  ultimately show ?thesis using assms by (simp add: max_def min_def)
qed

text \<open>The positions of the cached prefix each tier is credited with: the storage span wherever it
  lies, then the host-loaded tail, then the device.\<close>

definition tier_positions :: "int \<Rightarrow> int \<Rightarrow> int \<Rightarrow> int \<Rightarrow> int set \<times> int set \<times> int set" where
  "tier_positions n hit s len =
     ({0..<n - min n hit} - {s..<s + len}, {n - min n hit..<n} - {s..<s + len}, {0..<n} \<inter> {s..<s + len})"

text \<open>The split of a cached prefix credits every token to exactly one tier: with a known
  storage span the three counts are the sizes of three disjoint position sets that make up the
  prefix, so no count is negative and they add up to it.\<close>

theorem split_counts_positions:
  assumes "0 \<le> n" "0 \<le> hit" "0 \<le> len"
    and "tier_positions n hit s len = (D, H, S)"
  shows "split_cached_prefix_by_tier n hit len (Some s) False = (int (card D), int (card H), int (card S))
     \<and> D \<union> H \<union> S = {0..<n} \<and> D \<inter> H = {} \<and> D \<inter> S = {} \<and> H \<inter> S = {}"
proof -
  have eq: "D = {0..<n - min n hit} - {s..<s + len}" "H = {n - min n hit..<n} - {s..<s + len}"
    "S = {0..<n} \<inter> {s..<s + len}"
    using assms(4) by (auto simp: tier_positions_def)
  have c: "int (card D) = (n - min n hit) - max 0 (min (n - min n hit) (s + len) - max 0 s)"
    "int (card H) = min n hit - max 0 (min n (s + len) - max (n - min n hit) s)"
    "int (card S) = max 0 (min n (s + len) - max 0 s)"
    unfolding eq using assms(1-3)
      card_ivl_diff [of 0 "n - min n hit" s "s + len"] card_ivl_diff [of "n - min n hit" n s "s + len"]
    by (simp_all add: max_def min_def)
  have "split_cached_prefix_by_tier n hit len (Some s) False = (int (card D), int (card H), int (card S))"
    unfolding c split_cached_prefix_by_tier_def using assms(1-3)
    by (auto simp: Let_def max_def min_def)
  moreover have "D \<union> H \<union> S = {0..<n}" unfolding eq using assms(1,2) by (auto simp: min_def)
  moreover have "D \<inter> H = {}" "D \<inter> S = {}" "H \<inter> S = {}" unfolding eq by auto
  ultimately show ?thesis by blast
qed

lemma split_counts_positions_witness:
  "split_cached_prefix_by_tier 10 4 5 (Some 3) False = (3, 2, 5)
   \<and> split_cached_prefix_by_tier 10 4 5 (Some 3) False
       = (int (card {0, 1, 2::int}), int (card {8, 9::int}), int (card {3..<8::int}))"
proof
  show "split_cached_prefix_by_tier 10 4 5 (Some 3) False = (3, 2, 5)" by code_simp
  have "{0, 1, 2::int} = {0..<6} - {3..<8}" "{8, 9::int} = {6..<10} - {3..<8}" "{3..<8::int} = {0..<10} \<inter> {3..<8}"
    by auto
  then have "tier_positions 10 4 3 5 = ({0, 1, 2}, {8, 9}, {3..<8})" by (simp add: tier_positions_def)
  then show "split_cached_prefix_by_tier 10 4 5 (Some 3) False
       = (int (card {0, 1, 2::int}), int (card {8, 9::int}), int (card {3..<8::int}))"
    by (rule split_counts_positions [of 10 4 5 3, OF _ _ _ _, THEN conjunct1, rotated 3]) simp_all
qed

section \<open>Chunked prefill\<close>

text \<open>The request when a chunk from position \<open>s\<close> to \<open>e\<close> is scheduled: the slots \<open>idx\<close> of the earlier
  positions are its prefix.\<close>

definition chunk_at :: "int list \<Rightarrow> rreq \<Rightarrow> nat \<times> nat \<Rightarrow> rreq" where
  "chunk_at idx r c = set_extend_range (int (fst c)) (int (snd c)) (r\<lparr>prefix_indices := take (fst c) idx\<rparr>)"

definition chunks :: "nat list \<Rightarrow> (nat \<times> nat) list" where
  "chunks cuts = zip cuts (tl cuts)"

fun run_chunks :: "int list \<Rightarrow> (nat \<times> nat) list \<Rightarrow> rreq \<Rightarrow> rreq res" where
  "run_chunks idx [] r = Inr r"
| "run_chunks idx (c # cs) r = res_bind (count_cached (chunk_at idx r c)) (run_chunks idx cs)"

lemma chunks_simps [simp]:
  "chunks [] = []" "chunks [c] = []" "chunks (c # d # cs) = (c, d) # chunks (d # cs)"
  by (simp_all add: chunks_def)

lemma chunk_at_simps [simp]:
  "fst c \<le> length idx \<Longrightarrow> pre_len (chunk_at idx r c) = int (fst c)"
  "range_stop (chunk_at idx r c) = int (snd c)"
  "range_len (chunk_at idx r c) = int (snd c) - int (fst c)"
  "fill_ids (chunk_at idx r c) = fill_ids r"
  "origin_input_ids (chunk_at idx r c) = origin_input_ids r"
  "logprob_start_len (chunk_at idx r c) = logprob_start_len r"
  "retracted_stain (chunk_at idx r c) = retracted_stain r"
  "cached_tokens (chunk_at idx r c) = cached_tokens r"
  "cached_split (chunk_at idx r c) = cached_split r"
  "already_computed (chunk_at idx r c) = already_computed r"
  "storage_hit_length (chunk_at idx r c) = storage_hit_length r"
  "storage_hit_start (chunk_at idx r c) = storage_hit_start r"
  "host_hit_is_storage (chunk_at idx r c) = host_hit_is_storage r"
  "materialized_host_hit_len (chunk_at idx r c) = materialized_host_hit_len r"
  by (simp_all add: chunk_at_def set_extend_range_def pre_len_def range_stop_def range_len_def
      materialized_host_hit_len_def)

lemma chunk_at_input:
  "fst c \<le> length idx \<Longrightarrow>
     chunk_input_ids (chunk_at idx r c) = Inr (drop (fst c) (take (snd c) (fill_ids r)))"
  by (simp add: chunk_input_ids_def get_fill_ids_def chunk_at_def set_extend_range_def res_map_def min_def)

text \<open>Position \<open>i\<close>'s input logprob is that of the next prompt token (0 past the prompt).\<close>

definition logprob_target :: "int list \<Rightarrow> nat \<Rightarrow> int" where
  "logprob_target origin i = (if i + 1 < length origin then origin ! (i + 1) else 0)"

definition logprob_from :: "rreq \<Rightarrow> nat" where
  "logprob_from r = (if logprob_start_len r = -1 then length (fill_ids r) else nat (logprob_start_len r))"

lemma targets_slice:
  assumes "g \<le> e"
  shows "take (e - g) (drop (g + 1) xs) @ replicate (e - g - length (take (e - g) (drop (g + 1) xs))) 0
     = map (logprob_target xs) [g..<e]"
  by (rule nth_equalityI) (use assms in \<open>auto simp: nth_append logprob_target_def min_def\<close>)

lemma input_logprob_ids_eq:
  assumes "pre_len r = int s" "range_stop r = int e" "range_len r = int e - int s" "s \<le> e"
    and "e \<le> length (fill_ids r)" "length (origin_input_ids r) \<le> length (fill_ids r)" "logprob_start_len r \<ge> -1"
  shows "input_logprob_ids r = map (logprob_target (origin_input_ids r)) [max s (logprob_from r)..<e]"
proof (cases "logprob_start_len r = -1")
  case True
  then show ?thesis using assms
    by (auto simp: input_logprob_ids_def extend_logprob_start_def compute_extend_logprob_start_len_def Let_def
        logprob_from_def)
next
  case False
  define g where "g = max s (nat (logprob_start_len r))"
  have ls: "logprob_start_len r \<ge> 0" using False assms(7) by simp
  have gs: "(if pre_len r < logprob_start_len r then logprob_start_len r else pre_len r) = int g"
    using ls assms(1) by (auto simp: g_def max_def)
  have st: "range_len r - extend_logprob_start r = int (e - g)"
    using assms(1-4) ls False
    by (auto simp: extend_logprob_start_def compute_extend_logprob_start_len_def Let_def g_def)
  have n: "nat (int e - int g) = e - g" "nat (int g + 1) = g + 1" by simp_all
  have "input_logprob_ids r = take (e - g) (drop (g + 1) (origin_input_ids r))
     @ replicate (e - g - length (take (e - g) (drop (g + 1) (origin_input_ids r)))) 0"
    using False unfolding input_logprob_ids_def Let_def
    by (simp only: if_False gs st assms(2) n of_nat_diff nat_int flip: of_nat_diff) (simp add: nat_diff_distrib)
  also have "\<dots> = map (logprob_target (origin_input_ids r)) [g..<e]"
    by (cases "g \<le> e") (simp_all only: targets_slice, simp)
  finally show ?thesis using False by (simp add: g_def logprob_from_def)
qed

lemma sorted_last: "sorted (c # cs) \<Longrightarrow> c \<le> last (c # cs)"
  by (induction cs arbitrary: c) auto

lemma drop_take_join:
  "a \<le> b \<Longrightarrow> b \<le> c \<Longrightarrow> drop a (take b xs) @ drop b (take c xs) = drop a (take c (xs :: 'a list))"
proof -
  assume le: "a \<le> b" "b \<le> c"
  have "take c xs = take b xs @ drop b (take c xs)"
    using append_take_drop_id [of b "take c xs"] le(2) by (simp add: min_def)
  moreover have "drop (a - length (take b xs)) (drop b (take c xs)) = drop b (take c xs)"
    using le by (cases "length xs < b") simp_all
  ultimately show ?thesis by (metis drop_append)
qed

lemma chunks_tokens:
  assumes "sorted cuts" "cuts \<noteq> []"
  shows "concat (map (\<lambda>c. drop (fst c) (take (snd c) xs)) (chunks cuts)) = drop (hd cuts) (take (last cuts) (xs :: 'a list))"
  using assms
proof (induction cuts rule: induct_list012)
  case (3 c d cs)
  then show ?case using sorted_last [of d cs] by (simp add: drop_take_join)
qed simp_all

lemma chunks_targets:
  assumes "sorted cuts" "cuts \<noteq> []"
  shows "concat (map (\<lambda>c. map f [max (fst c) L..<snd c]) (chunks cuts)) = map f [max (hd cuts) L..<last cuts]"
  using assms
proof (induction cuts rule: induct_list012)
  case (3 c d cs)
  have le: "c \<le> d" "d \<le> last (d # cs)" using "3.prems" sorted_last [of d cs] by simp_all
  have "[max c L..<d] @ [max d L..<last (d # cs)] = [max c L..<last (d # cs)]"
    by (cases "L \<le> d") (use le in \<open>simp_all add: upt_split [symmetric] max_def\<close>)
  then show ?case using "3.IH"(2) "3.prems" by (simp flip: map_append)
qed simp_all

lemma chunks_bounds:
  assumes "sorted cuts" "(s, e) \<in> set (chunks cuts)"
  shows "s \<le> e \<and> e \<le> last cuts"
  using assms
proof (induction cuts rule: induct_list012)
  case (3 c d cs)
  then show ?case using sorted_last [of d cs] by auto
qed simp_all

lemma res_list_all: "(\<And>x. x \<in> set xs \<Longrightarrow> f x = Inr (g x)) \<Longrightarrow> res_list f xs = Inr (map g xs)"
  by (induction xs) (simp_all add: res_map_def)

text \<open>C29. Prefilling a request in chunks computes what one extend over the whole range does: the
  chunks' input tokens concatenate to the tokens of the single extend, and so do the token ids
  whose input logprobs are taken (shifted by one, padded with zeros past the prompt), for every
  choice of chunk boundaries and every logprob start.\<close>

theorem chunked_prefill_same_ids:
  assumes cuts: "sorted cuts" "cuts \<noteq> []" and fill: "last cuts \<le> length (fill_ids r)"
    and idx: "length (fill_ids r) \<le> length idx"
    and origin: "length (origin_input_ids r) \<le> length (fill_ids r)" and lp: "logprob_start_len r \<ge> -1"
  shows "res_map concat (res_list (\<lambda>c. chunk_input_ids (chunk_at idx r c)) (chunks cuts))
      = chunk_input_ids (chunk_at idx r (hd cuts, last cuts))
    \<and> concat (map (\<lambda>c. input_logprob_ids (chunk_at idx r c)) (chunks cuts))
      = input_logprob_ids (chunk_at idx r (hd cuts, last cuts))"
proof -
  have b: "fst c \<le> snd c \<and> snd c \<le> length (fill_ids r) \<and> fst c \<le> length idx"
    if "c \<in> set (chunks cuts) \<or> c = (hd cuts, last cuts)" for c
    using that chunks_bounds [OF cuts(1), of "fst c" "snd c"] fill idx sorted_last [of "hd cuts" "tl cuts"] cuts
    by auto
  have i: "chunk_input_ids (chunk_at idx r c) = Inr (drop (fst c) (take (snd c) (fill_ids r)))"
    if "c \<in> set (chunks cuts) \<or> c = (hd cuts, last cuts)" for c
    by (rule chunk_at_input) (use b [OF that] in simp)
  have l: "input_logprob_ids (chunk_at idx r c)
      = map (logprob_target (origin_input_ids r)) [max (fst c) (logprob_from r)..<snd c]"
    if "c \<in> set (chunks cuts) \<or> c = (hd cuts, last cuts)" for c
    using input_logprob_ids_eq [of "chunk_at idx r c" "fst c" "snd c"] b [OF that] origin lp
    by (simp add: logprob_from_def)
  have "res_list (\<lambda>c. chunk_input_ids (chunk_at idx r c)) (chunks cuts)
      = Inr (map (\<lambda>c. drop (fst c) (take (snd c) (fill_ids r))) (chunks cuts))"
    by (rule res_list_all) (simp add: i)
  moreover have "map (\<lambda>c. input_logprob_ids (chunk_at idx r c)) (chunks cuts)
      = map (\<lambda>c. map (logprob_target (origin_input_ids r)) [max (fst c) (logprob_from r)..<snd c]) (chunks cuts)"
    by (simp add: l)
  then have "concat (map (\<lambda>c. input_logprob_ids (chunk_at idx r c)) (chunks cuts))
      = map (logprob_target (origin_input_ids r)) [max (hd cuts) (logprob_from r)..<last cuts]"
    by (simp only: chunks_targets [OF cuts])
  ultimately show ?thesis
    using chunks_tokens [OF cuts, of "fill_ids r"] i [of "(hd cuts, last cuts)"] l [of "(hd cuts, last cuts)"]
    by (simp add: res_map_def)
qed

lemma chunked_prefill_same_ids_witness:
  "concat (map (\<lambda>c. input_logprob_ids (chunk_at [0, 1, 2, 3] (demo_req\<lparr>fill_ids := [5, 6, 7, 8], logprob_start_len := 0\<rparr>) c))
      [(0, 1), (1, 3), (3, 4)]) = [6, 7, 0, 0]"
proof -
  let ?r = "demo_req\<lparr>fill_ids := [5, 6, 7, 8], logprob_start_len := 0\<rparr>"
  have c: "chunks [0, 1, 3, 4] = [(0, 1), (1, 3), (3, 4)]" by simp
  have s: "input_logprob_ids (chunk_at [0, 1, 2, 3] ?r (0, 4)) = [6, 7, 0, 0]" by code_simp
  show ?thesis
    using chunked_prefill_same_ids [of "[0, 1, 3, 4]" ?r "[0, 1, 2, 3]"] s
    by (simp add: demo_req_def del: chunk_at_simps)
qed

section \<open>Counting cached tokens\<close>

lemma count_chunk:
  assumes "fst c \<le> length idx" "\<not> retracted_stain r"
  shows "count_cached (chunk_at idx r c) = Inr ((chunk_at idx r c)\<lparr>
     cached_tokens := cached_tokens r + (int (fst c) - already_computed r),
     cached_split := (case cached_split r of Some t \<Rightarrow> Some t
        | None \<Rightarrow> Some (split_cached_prefix_by_tier (int (fst c)) (materialized_host_hit_len r)
                   (storage_hit_length r) (storage_hit_start r) (host_hit_is_storage r))),
     already_computed := int (snd c), is_retracted := False\<rparr>)"
  using assms by (cases "cached_split r") (simp_all add: count_cached_def)

lemma run_chunks_stable:
  assumes "sorted (c # cs)" "last (c # cs) \<le> length idx" "\<not> retracted_stain r" "already_computed r = int c"
    and "cached_split r = Some t" "run_chunks idx (chunks (c # cs)) r = Inr r'"
  shows "cached_tokens r' = cached_tokens r \<and> cached_split r' = Some t"
  using assms
proof (induction cs arbitrary: c r)
  case (Cons d cs)
  have "c \<le> length idx" using Cons.prems(1,2) sorted_last [of c "d # cs"] by simp
  then have r1: "run_chunks idx (chunks (d # cs)) ((chunk_at idx r (c, d))\<lparr>cached_tokens := cached_tokens r,
      cached_split := Some t, already_computed := int d, is_retracted := False\<rparr>) = Inr r'"
    using Cons.prems(3-6) by (simp add: count_chunk)
  then show ?case using Cons.IH [OF _ _ _ _ _ r1] Cons.prems(1-3) by simp
qed simp

text \<open>Over a chunked prefill each prefix token found in a cache is counted once: a request's
  \<open>cached_tokens\<close> after all its chunks is the length of the prefix its first chunk matched (less
  what was already computed), whatever the chunk boundaries, its tier split is the one of the first
  chunk, and no chunk trips the assertion that the planned range fits the prefix.\<close>

theorem cached_tokens_counted_once:
  assumes "sorted (c # d # cs)" "last (d # cs) \<le> length idx" "\<not> retracted_stain r" "cached_split r = None"
  shows "\<exists>r'. run_chunks idx (chunks (c # d # cs)) r = Inr r'
     \<and> cached_tokens r' = cached_tokens r + (int c - already_computed r)
     \<and> cached_split r' = Some (split_cached_prefix_by_tier (int c) (materialized_host_hit_len r)
           (storage_hit_length r) (storage_hit_start r) (host_hit_is_storage r))"
proof -
  have runs: "\<exists>r'. run_chunks idx (chunks (c # cs)) q = Inr r'"
    if "sorted (c # cs)" "last (c # cs) \<le> length idx" "\<not> retracted_stain q" for c cs q
    using that
  proof (induction cs arbitrary: c q)
    case (Cons d cs)
    have "c \<le> length idx" using Cons.prems(1,2) sorted_last [of c "d # cs"] by simp
    then show ?case using Cons.IH [of d] Cons.prems by (simp add: count_chunk)
  qed simp
  obtain r' where r': "run_chunks idx (chunks (c # d # cs)) r = Inr r'"
    using runs [of c "d # cs" r] assms by auto
  have "c \<le> length idx" using assms(1,2) sorted_last [of c "d # cs"] by simp
  then have r1: "run_chunks idx (chunks (d # cs)) ((chunk_at idx r (c, d))\<lparr>
      cached_tokens := cached_tokens r + (int c - already_computed r),
      cached_split := Some (split_cached_prefix_by_tier (int c) (materialized_host_hit_len r)
           (storage_hit_length r) (storage_hit_start r) (host_hit_is_storage r)),
      already_computed := int d, is_retracted := False\<rparr>) = Inr r'"
    using r' assms(3,4) by (simp add: count_chunk)
  then show ?thesis using run_chunks_stable [OF _ _ _ _ _ r1] r' assms(1-3) by simp
qed

lemma cached_tokens_counted_once_witness:
  "map_sum id cached_tokens (run_chunks [0, 1, 2, 3] [(2, 3), (3, 4)] (demo_req\<lparr>host_hit_length := 1, host_loaded_length := 1\<rparr>)) = Inr 2"
proof -
  let ?r = "demo_req\<lparr>host_hit_length := 1, host_loaded_length := 1\<rparr>"
  have r: "\<not> retracted_stain ?r" "cached_split ?r = None" "cached_tokens ?r = 0" "already_computed ?r = 0" by code_simp+
  show ?thesis using cached_tokens_counted_once [of 2 3 "[4]" "[0, 1, 2, 3]" ?r] r by auto
qed

section \<open>The extend batch\<close>

definition admitted :: "rreq \<Rightarrow> bool" where
  "admitted r \<longleftrightarrow> extend_range r = Some (pre_len r, range_stop r) \<and> pre_len r \<le> range_stop r
     \<and> range_stop r \<le> int (length (fill_ids r)) \<and> length (origin_input_ids r) \<le> length (fill_ids r)
     \<and> logprob_start_len r \<ge> -1"

lemma admitted_tokens:
  assumes "admitted r"
  shows "\<exists>ids. chunk_input_ids r = Inr ids \<and> int (length ids) = range_len r"
proof -
  obtain p e where e: "extend_range r = Some (p, e)" "p = pre_len r" "p \<le> e" "e \<le> int (length (fill_ids r))"
    using assms by (auto simp: admitted_def)
  then show ?thesis
    by (auto simp: chunk_input_ids_def get_fill_ids_def res_map_def range_len_def pre_len_def)
qed

lemma admitted_logprobs:
  assumes "admitted r"
  shows "int (length (input_logprob_ids r)) = range_len r - extend_logprob_start r"
proof -
  obtain s e where e: "extend_range r = Some (int s, int e)" "pre_len r = int s" "s \<le> e" "e \<le> length (fill_ids r)"
  proof
    show "extend_range r = Some (int (length (prefix_indices r)), int (nat (range_stop r)))"
      "length (prefix_indices r) \<le> nat (range_stop r)" "nat (range_stop r) \<le> length (fill_ids r)"
      using assms by (auto simp: admitted_def pre_len_def)
  qed (simp add: pre_len_def)
  then have "input_logprob_ids r = map (logprob_target (origin_input_ids r)) [max s (logprob_from r)..<e]"
    using assms by (intro input_logprob_ids_eq) (auto simp: admitted_def range_stop_def range_len_def)
  then show ?thesis using e assms
    by (auto simp: extend_logprob_start_def compute_extend_logprob_start_len_def range_len_def Let_def
        logprob_from_def admitted_def)
qed

lemma res_list_split:
  "list_all P xs \<Longrightarrow> (\<And>x. P x \<Longrightarrow> \<exists>y. f x = Inr y \<and> Q x y) \<Longrightarrow> \<exists>ys. res_list f xs = Inr ys \<and> list_all2 Q xs ys"
proof (induction xs)
  case (Cons x xs)
  obtain y where "f x = Inr y" "Q x y" using Cons.prems by auto
  moreover obtain ys where "res_list f xs = Inr ys" "list_all2 Q xs ys" using Cons by auto
  ultimately show ?case by (simp add: res_map_def)
qed simp

lemma sum_lens: "list_all2 (\<lambda>x y. int (length y) = f x) xs ys \<Longrightarrow> int (length (concat ys)) = sum_list (map f xs)"
  by (induction rule: list_all2_induct) simp_all

lemma sum_lens_same: "int (length (concat ys)) = sum_list (map (int \<circ> length) ys)"
  by (induction ys) simp_all

lemma count_admitted:
  assumes "admitted r"
  shows "\<exists>r'. count_cached (r\<lparr>kv := k\<rparr>) = Inr r'"
proof -
  obtain e where "extend_range r = Some (int (length (prefix_indices r)), e)"
    using assms by (auto simp: admitted_def pre_len_def)
  then show ?thesis
    by (simp add: count_cached_def pre_len_def range_stop_def range_len_def)
qed

lemma replace_positions_bound:
  assumes "list_all2 (\<lambda>r n. int n = range_len r) rs ns" "0 \<le> ptr" "q \<in> set (replace_positions (zip rs ns) ptr)"
  shows "ptr \<le> q \<and> q < ptr + int (sum_list ns)"
  using assms
proof (induction arbitrary: ptr rule: list_all2_induct)
  case (Cons r rs n ns)
  show ?case
  proof (cases "q \<in> set (replace_at r ptr)")
    case True
    then show ?thesis using Cons.hyps(1) by (auto simp: replace_at_def split: option.splits)
  next
    case False
    then show ?thesis using Cons.IH [of "ptr + int n"] Cons.prems by auto
  qed
qed simp

text \<open>An extend batch over admitted requests is built without an error when the memory
  allocation succeeds, and its rows line up: as many token ids as the planned extend lengths add up
  to, as many logprob targets (all inside the vocabulary) as the extends have positions after their
  logprob starts, and every replacement embedding lands on a token of the batch.\<close>

theorem extend_batch_aligned:
  assumes ok: "list_all admitted rs" and rep: "replay \<longrightarrow> list_all replay_ok rs" and vocab: "0 < vocab"
    and alloc: "alloc rs = Inr (kvs, locs, pools)" "length kvs = length rs"
  shows "\<exists>rs' b. prepare_for_extend lp replay vocab alloc rs = Inr (rs', b) \<and> length rs' = length rs
     \<and> int (length (xb_input_ids b)) = sum_list (xb_extend_lens b)
     \<and> xb_extend_num_tokens b = sum_list (xb_extend_lens b)
     \<and> (\<forall>q \<in> set (xb_replace_positions b). 0 \<le> q \<and> q < xb_extend_num_tokens b)
     \<and> (lp \<longrightarrow> (\<exists>ts. xb_logprob_ids b = Some ts \<and> set ts \<subseteq> {0..<vocab}
          \<and> int (length ts) = sum_list (map2 (-) (xb_extend_lens b) (xb_logprob_starts b))))"
proof -
  obtain ids where ids: "res_list chunk_input_ids rs = Inr ids"
    "list_all2 (\<lambda>r ids. int (length ids) = range_len r) rs ids"
    using res_list_split [where Q = "\<lambda>r ids. int (length ids) = range_len r", OF ok admitted_tokens] by blast
  have "list_all (\<lambda>r. \<exists>r'. count_cached r = Inr r') (map2 (\<lambda>r k. r\<lparr>kv := k\<rparr>) rs kvs)"
    using ok count_admitted by (fastforce simp: list_all_iff dest: set_zip_leftD)
  then obtain rs' where rs': "res_list count_cached (map2 (\<lambda>r k. r\<lparr>kv := k\<rparr>) rs kvs) = Inr rs'"
    using res_list_split [where f = count_cached and Q = "\<lambda>_ _. True"] by fastforce
  then have len: "length rs' = length rs" using alloc(2) by (simp add: res_list_Inr)
  have lps: "int (length (concat (map input_logprob_ids rs)))
      = sum_list (map (\<lambda>r. range_len r - extend_logprob_start r) rs)"
    using ok by (intro sum_lens) (auto simp: list_all2_map2 list_all_iff intro!: list_all2_same [THEN iffD2] admitted_logprobs)
  have two: "map2 (-) (map range_len rs) (map extend_logprob_start rs) = map (\<lambda>r. range_len r - extend_logprob_start r) rs"
    by (induction rs) simp_all
  have pos: "0 \<le> q \<and> q < sum_list (map (int \<circ> length) ids)"
    if "q \<in> set (replace_positions (zip rs (map length ids)) 0)" for q
  proof -
    have "list_all2 (\<lambda>r n. int n = range_len r) rs (map length ids)" using ids(2) by (simp add: list_all2_map2)
    from replace_positions_bound [OF this _ that] show ?thesis
      by (simp add: sum_lens_same [symmetric] length_concat)
  qed
  have total: "sum_list (map (int \<circ> length) ids) = sum_list (map range_len rs)"
    using sum_lens [OF ids(2)] sum_lens_same [of ids] by simp
  have clamp: "set (map (\<lambda>t. min (max t 0) (vocab - 1)) ts) \<subseteq> {0..<vocab}" for ts
    using vocab by auto
  show ?thesis
    unfolding prepare_for_extend_def
    using ids(1) rep alloc(1) rs' len pos total lps sum_lens [OF ids(2)]
      clamp [of "concat (map input_logprob_ids rs)"] by (simp add: two)
qed

definition demo_extend :: "rreq list" where
  "demo_extend = [set_extend_range 1 3 (demo_req\<lparr>fill_ids := [5, 6, 7], prefix_indices := [40], logprob_start_len := 1,
      input_embeds := None, embed_overrides := Some [0, 2]\<rparr>),
    set_extend_range 0 1 (demo_req\<lparr>fill_ids := [5, 6, 7], input_embeds := None\<rparr>)]"

lemma extend_batch_aligned_witness:
  "\<exists>rs' b. prepare_for_extend True False 7 (\<lambda>rs. Inr (map kv rs, [], [])) demo_extend = Inr (rs', b)
     \<and> int (length (xb_input_ids b)) = sum_list (xb_extend_lens b)"
proof -
  have a: "list_all admitted demo_extend" "length (map kv demo_extend) = length demo_extend" by code_simp+
  show ?thesis
    using extend_batch_aligned [where alloc = "\<lambda>rs. Inr (map kv rs, [], [])", OF a(1) _ _ refl a(2), of False 7 True] by auto
qed

end
