(* ===== verification/ScheduleBatch.thy ===== *)
theory ScheduleBatch
  imports ReqRounds ReqFinish
begin

text \<open>
  The batch a scheduler runs (\<open>sglang-overlay/schedule_batch.py\<close>, class \<open>ScheduleBatch\<close>): its
  parallel per-request arrays and the operations that must keep them in step: construction,
  \<open>prepare_for_extend\<close> (with theory ReqRounds), \<open>prepare_for_decode\<close>, \<open>filter_batch\<close>, \<open>merge_batch\<close>,
  \<open>mix_with_running\<close> and \<open>convert_decode_to_extend\<close>.  External: the sampling info and the
  speculation info (with their own \<open>filter_batch\<close>/\<open>merge_batch\<close>), the slot allocators and the
  \<open>req_to_token\<close> table.  Beam groups, mamba tracking and diffusion requests are left out.
\<close>

section \<open>Hidden-state capture modes\<close>

datatype capture_mode = CapNull | CapLast | CapFull

primrec capture_rank :: "capture_mode \<Rightarrow> nat" where
  "capture_rank CapNull = 0"
| "capture_rank CapLast = 1"
| "capture_rank CapFull = 2"

instantiation capture_mode :: linorder
begin

definition less_eq_capture_mode :: "capture_mode \<Rightarrow> capture_mode \<Rightarrow> bool" where
  "less_eq_capture_mode a b \<longleftrightarrow> capture_rank a \<le> capture_rank b"

definition less_capture_mode :: "capture_mode \<Rightarrow> capture_mode \<Rightarrow> bool" where
  "less_capture_mode a b \<longleftrightarrow> capture_rank a < capture_rank b"

instance
proof
  fix x y :: capture_mode
  show "x \<le> y \<Longrightarrow> y \<le> x \<Longrightarrow> x = y"
    by (cases x; cases y) (simp_all add: less_eq_capture_mode_def)
qed (auto simp: less_eq_capture_mode_def less_capture_mode_def)

end

datatype capture_arg = CapBool bool | CapStr string

definition get_return_hidden_states_mode :: "capture_arg \<Rightarrow> capture_mode res" where
  "get_return_hidden_states_mode a =
     (if a = CapBool True then Inr CapFull else if a = CapStr ''last'' then Inr CapLast
      else if a = CapBool False then Inr CapNull else Inl ValueError)"

definition get_request_return_hidden_states_mode :: "capture_arg list + capture_arg \<Rightarrow> capture_mode res" where
  "get_request_return_hidden_states_mode a =
     (case a of Inl as \<Rightarrow> res_map (\<lambda>ms. fold max ms CapNull) (res_list get_return_hidden_states_mode as)
      | Inr a \<Rightarrow> get_return_hidden_states_mode a)"

section \<open>State\<close>

record sreq =
  sq_id :: nat
  sq_req :: rreq
  sq_reason :: "finish_reason option"
  sq_to_finish :: "finish_reason option"
  sq_grammar :: bool
  sq_capture :: capture_mode
  sq_prefill_only :: bool
  sq_decode_idx :: nat
  sq_top_num :: int
  sq_token_ids :: "int list option"
  sq_multimodal :: "int option"
  sq_priority :: "int option"
  sq_beam :: "int option"

datatype fmode = EXTEND | DECODE | MIXED | IDLE | SPLIT_PREFILL

record ('s, 'p) sbatch =
  b_mode :: "fmode option"
  b_reqs :: "sreq list"
  b_pool :: "int list"
  b_pool_cpu :: "int list"
  b_seq_lens :: "int list"
  b_orig_lens :: "int list"
  b_seq_cpu :: "int list option"
  b_seq_sum :: "int option"
  b_input_ids :: "int list option"
  b_out_loc :: "int list option"
  b_enc_lens :: "int list"
  b_multimodal :: "int option list option"
  b_logprob :: bool
  b_top_nums :: "int list option"
  b_token_ids :: "int list option list option"
  b_grammar :: bool
  b_capture :: capture_mode
  b_prefill_only :: bool
  b_prefix_lens :: "int list"
  b_extend_lens :: "int list"
  b_num_tokens :: int
  b_lp_starts :: "int list"
  b_last_mask :: "bool list option"
  b_mix_idx :: "int list option"
  b_decoding :: "sreq list option"
  b_sampling :: "'s option"
  b_spec :: "'p option"

type_synonym 'i keep_rows = "nat list \<Rightarrow> 'i \<Rightarrow> 'i"
type_synonym 'i join_rows = "'i \<Rightarrow> 'i \<Rightarrow> 'i"

definition get_batch_return_hidden_states_mode :: "sreq list \<Rightarrow> capture_mode" where
  "get_batch_return_hidden_states_mode rs = fold (\<lambda>r m. max m (sq_capture r)) rs CapNull"

definition init_new :: "sreq list \<Rightarrow> ('s, 'p) sbatch" where
  "init_new rs =
     \<lparr>b_mode = None, b_reqs = rs, b_pool = [], b_pool_cpu = [], b_seq_lens = [], b_orig_lens = [],
      b_seq_cpu = None, b_seq_sum = None, b_input_ids = None, b_out_loc = None, b_enc_lens = [],
      b_multimodal = None, b_logprob = list_ex (\<lambda>r. return_logprob (sq_req r)) rs, b_top_nums = None,
      b_token_ids = None, b_grammar = list_ex sq_grammar rs, b_capture = get_batch_return_hidden_states_mode rs,
      b_prefill_only = list_all sq_prefill_only rs, b_prefix_lens = [], b_extend_lens = [], b_num_tokens = 0,
      b_lp_starts = [], b_last_mask = None, b_mix_idx = None, b_decoding = None, b_sampling = None, b_spec = None\<rparr>"

definition compute_chunked_req_next_prompt_token :: "rreq option \<Rightarrow> int \<Rightarrow> int option res" where
  "compute_chunked_req_next_prompt_token r vocab =
     (case r of None \<Rightarrow> Inr None
      | Some r \<Rightarrow> (case extend_range r of None \<Rightarrow> Inl AttributeError
         | Some (_, fill_len) \<Rightarrow>
             if fill_len \<ge> int (length (origin_input_ids r)) then Inr None
             else res_map (\<lambda>t. if t < vocab then Some t else None) (py_get (origin_input_ids r) fill_len)))"

text \<open>\<open>[xs[i] for i in indices]\<close>, and indexing of an optional list.\<close>

definition pick :: "nat list \<Rightarrow> 'a list \<Rightarrow> 'a list res" where
  "pick ks xs = res_list (\<lambda>i. if i < length xs then Inr (xs ! i) else Inl IndexError) ks"

definition need :: "'a option \<Rightarrow> 'a res" where
  "need x = (case x of None \<Rightarrow> Inl TypeError | Some y \<Rightarrow> Inr y)"

definition pick_opt :: "nat list \<Rightarrow> 'a list option \<Rightarrow> 'a list option res" where
  "pick_opt ks x = (case x of None \<Rightarrow> Inr None | Some xs \<Rightarrow> res_map Some (pick ks xs))"

section \<open>Operations\<close>

text \<open>\<open>prepare_for_extend\<close> of the batch: the per-request part is
  \<open>ReqRounds.prepare_for_extend\<close>; \<open>sample\<close> is \<open>SamplingBatchInfo.from_schedule_batch\<close>.\<close>

definition prepare_extend ::
    "bool \<Rightarrow> int \<Rightarrow> (rreq list \<Rightarrow> (kv_info list \<times> int list \<times> int list) res) \<Rightarrow> (sreq list \<Rightarrow> 's)
      \<Rightarrow> ('s, 'p) sbatch \<Rightarrow> ('s, 'p) sbatch res" where
  "prepare_extend replay vocab alloc sample b =
     res_bind (prepare_for_extend (b_logprob b) replay vocab alloc (map sq_req (b_reqs b))) (\<lambda>(rs, x).
      let reqs = map2 (\<lambda>s r. s\<lparr>sq_req := r\<rparr>) (b_reqs b) rs
      in Inr (b\<lparr>b_mode := Some EXTEND, b_reqs := reqs, b_pool := xb_pool_idx x, b_pool_cpu := xb_pool_idx x,
           b_seq_lens := xb_seq_lens x, b_seq_cpu := Some (xb_seq_lens x), b_orig_lens := xb_orig_seq_lens x,
           b_seq_sum := Some (xb_seq_lens_sum x), b_input_ids := None, b_out_loc := Some (xb_out_cache_loc x),
           b_multimodal := Some (map sq_multimodal reqs),
           b_top_nums := (if b_logprob b then Some (map sq_top_num reqs) else b_top_nums b),
           b_token_ids := (if b_logprob b then Some (map sq_token_ids reqs) else b_token_ids b),
           b_prefix_lens := xb_prefix_lens x, b_extend_lens := xb_extend_lens x,
           b_num_tokens := xb_extend_num_tokens x, b_lp_starts := xb_logprob_starts x,
           b_last_mask := Some (xb_last_chunk_mask x), b_sampling := Some (sample reqs)\<rparr>))"

text \<open>The tokens a penalizer accumulates: the last output, or the last prompt token.\<close>

definition penalty_tokens :: "sreq list \<Rightarrow> int list res" where
  "penalty_tokens rs = res_list (\<lambda>s. if out_ids (sq_req s) \<noteq> [] then Inr (last (out_ids (sq_req s)))
       else if origin_input_ids (sq_req s) \<noteq> [] then Inr (last (origin_input_ids (sq_req s))) else Inl IndexError) rs"

text \<open>\<open>prepare_for_decode\<close> without speculation (with it, \<open>spec_prepare_for_decode\<close> replaces the
  rest); \<open>alloc\<close> is \<open>alloc_for_decode\<close>, which also advances the requests' KV records.\<close>

definition prepare_for_decode ::
    "(sreq list \<Rightarrow> (kv_info list \<times> int list) res) \<Rightarrow> (('s, 'p) sbatch \<Rightarrow> ('s, 'p) sbatch res) option
      \<Rightarrow> ('s, 'p) sbatch \<Rightarrow> ('s, 'p) sbatch res" where
  "prepare_for_decode alloc spec_prepare b =
     (let b = b\<lparr>b_mode := Some DECODE\<rparr>
      in case spec_prepare of Some prep \<Rightarrow> prep b
       | None \<Rightarrow> res_bind (alloc (b_reqs b)) (\<lambda>(kvs, locs).
           res_bind (need (b_seq_cpu b)) (\<lambda>cpu.
           Inr (b\<lparr>b_out_loc := Some locs,
             b_reqs := map2 (\<lambda>s k. s\<lparr>sq_req := (sq_req s)\<lparr>kv := k\<rparr>, sq_decode_idx := sq_decode_idx s + 1\<rparr>) (b_reqs b) kvs,
             b_seq_lens := map (\<lambda>n. n + 1) (b_seq_lens b), b_seq_cpu := Some (map (\<lambda>n. n + 1) cpu),
             b_orig_lens := map (\<lambda>n. n + 1) (b_orig_lens b), b_seq_sum := None\<rparr>))))"

definition kept :: "nat list \<Rightarrow> nat list option \<Rightarrow> sreq list \<Rightarrow> nat list" where
  "kept exclude keep_indices rs = (case keep_indices of Some ks \<Rightarrow> ks
     | None \<Rightarrow> filter (\<lambda>i. sq_reason (rs ! i) = None \<and> sq_id (rs ! i) \<notin> set exclude) [0..<length rs])"

definition filter_batch ::
    "'s keep_rows \<Rightarrow> 'p keep_rows \<Rightarrow> bool \<Rightarrow> nat list \<Rightarrow> nat list option \<Rightarrow> ('s, 'p) sbatch
      \<Rightarrow> ('s, 'p) sbatch res" where
  "filter_batch sfilter pfilter encdec exclude keep_indices b =
     (let ks = kept exclude keep_indices (b_reqs b)
      in if ks = [] then Inr (b\<lparr>b_reqs := [], b_capture := CapNull\<rparr>)
       else if length ks = length (b_reqs b) then Inr b
       else
         res_bind (if encdec then pick ks (b_enc_lens b) else Inr (b_enc_lens b)) (\<lambda>enc.
         res_bind (pick ks (b_reqs b)) (\<lambda>reqs.
         res_bind (pick_opt ks (b_multimodal b)) (\<lambda>mm.
         res_bind (pick ks (b_pool b)) (\<lambda>pool.
         res_bind (pick ks (b_pool_cpu b)) (\<lambda>pool_cpu.
         res_bind (pick ks (b_seq_lens b)) (\<lambda>seqs.
         res_bind (pick ks (b_orig_lens b)) (\<lambda>orig.
         res_bind (pick_opt ks (b_input_ids b)) (\<lambda>ids.
         res_bind (pick_opt ks (b_seq_cpu b)) (\<lambda>cpu.
         let lp = list_ex (\<lambda>s. return_logprob (sq_req s)) reqs in
         res_bind (if lp then res_bind (need (b_top_nums b)) (\<lambda>t. res_map Some (pick ks t)) else Inr None) (\<lambda>top.
         res_bind (if lp then res_bind (need (b_token_ids b)) (\<lambda>t. res_map Some (pick ks t)) else Inr None) (\<lambda>tok.
         res_bind (need (b_sampling b)) (\<lambda>smp.
         Inr (b\<lparr>b_enc_lens := enc, b_reqs := reqs, b_multimodal := mm, b_pool := pool, b_pool_cpu := pool_cpu,
           b_seq_lens := seqs, b_orig_lens := orig, b_out_loc := None, b_seq_sum := None, b_input_ids := ids,
           b_seq_cpu := cpu, b_logprob := lp, b_top_nums := top, b_token_ids := tok,
           b_grammar := list_ex sq_grammar reqs, b_capture := get_batch_return_hidden_states_mode reqs,
           b_sampling := Some (sfilter ks smp), b_spec := map_option (pfilter ks) (b_spec b)\<rparr>))))))))))))))"

definition merge_logprob :: "bool \<Rightarrow> bool \<Rightarrow> nat \<Rightarrow> nat \<Rightarrow> 'a \<Rightarrow> 'a list option \<Rightarrow> 'a list option
      \<Rightarrow> 'a list option res" where
  "merge_logprob lp_a lp_b n m d xs ys =
     (if lp_a \<and> lp_b then res_bind (need xs) (\<lambda>xs. res_map (\<lambda>ys. Some (xs @ ys)) (need ys))
      else if lp_a then res_map (\<lambda>xs. Some (xs @ replicate m d)) (need xs)
      else if lp_b then res_map (\<lambda>ys. Some (replicate n d @ ys)) (need ys)
      else Inr xs)"

definition merge_batch ::
    "'s join_rows \<Rightarrow> 'p join_rows \<Rightarrow> bool \<Rightarrow> ('s, 'p) sbatch \<Rightarrow> ('s, 'p) sbatch \<Rightarrow> ('s, 'p) sbatch res" where
  "merge_batch smerge pmerge encdec a b =
     res_bind (need (b_sampling a)) (\<lambda>sa. res_bind (need (b_sampling b)) (\<lambda>sb.
     res_bind (merge_logprob (b_logprob a) (b_logprob b) (length (b_reqs a)) (length (b_reqs b)) 0
        (b_top_nums a) (b_top_nums b)) (\<lambda>top.
     res_bind (merge_logprob (b_logprob a) (b_logprob b) (length (b_reqs a)) (length (b_reqs b)) None
        (b_token_ids a) (b_token_ids b)) (\<lambda>tok.
     res_bind (case b_multimodal a of None \<Rightarrow> Inr None
        | Some xs \<Rightarrow> res_map (\<lambda>ys. Some (xs @ ys)) (need (b_multimodal b))) (\<lambda>mm.
     res_bind (case b_spec a of None \<Rightarrow> Inr None
        | Some p \<Rightarrow> res_map (\<lambda>q. Some (pmerge p q)) (need (b_spec b))) (\<lambda>sp.
     Inr (a\<lparr>b_sampling := Some (smerge sa sb),
        b_enc_lens := (if encdec then b_enc_lens a @ b_enc_lens b else b_enc_lens a),
        b_pool := b_pool a @ b_pool b, b_pool_cpu := b_pool_cpu a @ b_pool_cpu b,
        b_seq_lens := b_seq_lens a @ b_seq_lens b, b_orig_lens := b_orig_lens a @ b_orig_lens b,
        b_out_loc := None, b_seq_sum := None,
        b_input_ids := (case (b_input_ids a, b_input_ids b) of (Some x, Some y) \<Rightarrow> Some (x @ y) | _ \<Rightarrow> None),
        b_seq_cpu := (case (b_seq_cpu a, b_seq_cpu b) of (Some x, Some y) \<Rightarrow> Some (x @ y) | _ \<Rightarrow> None),
        b_top_nums := top, b_token_ids := tok, b_reqs := b_reqs a @ b_reqs b, b_multimodal := mm,
        b_logprob := (b_logprob a \<or> b_logprob b), b_grammar := (b_grammar a \<or> b_grammar b),
        b_capture := max (b_capture a) (b_capture b), b_prefill_only := (b_prefill_only a \<and> b_prefill_only b),
        b_spec := sp\<rparr>)))))))"

text \<open>A running request as a one-token extend with the rest of its context as prefix.\<close>

definition one_token_extend :: "int \<Rightarrow> sreq \<Rightarrow> sreq" where
  "one_token_extend p s = s\<lparr>sq_req := set_extend_range p (p + 1) (refresh_fill_ids (sq_req s))\<rparr>"

definition mix_with_running ::
    "'s join_rows \<Rightarrow> 'p join_rows \<Rightarrow> bool \<Rightarrow> bool \<Rightarrow> (int \<Rightarrow> int \<Rightarrow> int) \<Rightarrow> ('s, 'p) sbatch \<Rightarrow> ('s, 'p) sbatch
      \<Rightarrow> ('s, 'p) sbatch res" where
  "mix_with_running smerge pmerge encdec spec req_to_token a run =
     (let bs = length (b_reqs run); seqs = map (seqlen \<circ> sq_req) (b_reqs run) in
      res_bind (if spec then Inr (map (\<lambda>n. n - 1) seqs)
                else res_map (map (\<lambda>n. n - 1)) (need (b_seq_cpu run))) (\<lambda>pre.
      ensure (length (b_reqs run) = length pre) ValueError
       (let run = run\<lparr>b_reqs := map2 one_token_extend pre (b_reqs run)\<rparr>;
            run_loc = (if spec then Some (map2 req_to_token (b_pool run) pre) else b_out_loc run)
        in
        res_bind (need (b_out_loc a)) (\<lambda>loc_a. res_bind (need run_loc) (\<lambda>loc_b.
        res_bind (merge_batch smerge pmerge encdec (a\<lparr>b_mode := Some MIXED, b_input_ids := None, b_mix_idx := Some (b_pool run)\<rparr>) run) (\<lambda>m.
        ensure (spec \<and> bs = 0 \<longrightarrow> b_seq_lens m = []) RuntimeError
        (Inr (m\<lparr>b_out_loc := Some (loc_a @ loc_b),
           b_seq_cpu := (if spec then Some ((case b_seq_cpu a of None \<Rightarrow> [] | Some c \<Rightarrow> c) @ seqs) else b_seq_cpu m),
           b_seq_lens := (if spec then take (length (b_seq_lens m) - bs) (b_seq_lens m) @ map (\<lambda>p. p + 1) pre
                          else b_seq_lens m),
           b_prefix_lens := b_prefix_lens m @ pre, b_extend_lens := b_extend_lens m @ replicate bs 1,
           b_num_tokens := b_num_tokens m + int bs,
           b_last_mask := Some ((case b_last_mask m of None \<Rightarrow> [] | Some k \<Rightarrow> k) @ replicate bs True),
           b_lp_starts := b_lp_starts m @ replicate bs 0, b_prefill_only := False\<rparr>))))))))"

definition convert_decode_to_extend :: "('s, 'p) sbatch \<Rightarrow> ('s, 'p) sbatch res" where
  "convert_decode_to_extend b =
     res_bind (need (b_seq_cpu b)) (\<lambda>cpu.
      let bs = length (b_reqs b); seqs = take bs cpu in
      ensure (bs = length seqs) ValueError
       (let reqs = map2 one_token_extend (map (\<lambda>n. n - 1) seqs) (b_reqs b)
        in Inr (b\<lparr>b_mode := Some EXTEND, b_reqs := reqs, b_prefix_lens := map (\<lambda>n. n - 1) seqs,
             b_extend_lens := replicate bs 1, b_num_tokens := int bs, b_lp_starts := replicate bs 0,
             b_decoding := Some reqs, b_prefill_only := False\<rparr>)))"

definition prepare_for_idle :: "(sreq list \<Rightarrow> 's) \<Rightarrow> ('s, 'p) sbatch \<Rightarrow> ('s, 'p) sbatch" where
  "prepare_for_idle sample b =
     b\<lparr>b_mode := Some IDLE, b_input_ids := Some [], b_seq_lens := [], b_seq_cpu := Some [], b_orig_lens := [],
       b_out_loc := Some [], b_pool := [], b_pool_cpu := [], b_seq_sum := Some 0, b_num_tokens := 0,
       b_sampling := Some (sample (b_reqs b))\<rparr>"

section \<open>The arrays stay in step with the requests\<close>

definition row_of :: "sreq \<Rightarrow> int" where
  "row_of s = (case req_pool_idx (kv (sq_req s)) of None \<Rightarrow> -1 | Some i \<Rightarrow> int i)"

definition wants_lp :: "sreq \<Rightarrow> bool" where
  "wants_lp s = return_logprob (sq_req s)"

text \<open>The logprob settings a row holds are its request's (rows of requests that ask for none may
  hold anything).\<close>

definition lp_rows :: "sreq list \<Rightarrow> int list \<Rightarrow> int list option list \<Rightarrow> bool" where
  "lp_rows rs ts ks \<longleftrightarrow> list_all2 (\<lambda>s t. wants_lp s \<longrightarrow> t = sq_top_num s) rs ts
     \<and> list_all2 (\<lambda>s k. wants_lp s \<longrightarrow> k = sq_token_ids s) rs ks"

definition batch_ok :: "('s, 'p) sbatch \<Rightarrow> bool" where
  "batch_ok b \<longleftrightarrow>
     b_pool b = map row_of (b_reqs b) \<and> b_pool_cpu b = map row_of (b_reqs b)
     \<and> length (b_seq_lens b) = length (b_reqs b) \<and> length (b_orig_lens b) = length (b_reqs b)
     \<and> (\<forall>c. b_seq_cpu b = Some c \<longrightarrow> c = b_seq_lens b)
     \<and> (\<forall>x. b_input_ids b = Some x \<longrightarrow> length x = length (b_reqs b))
     \<and> b_multimodal b = Some (map sq_multimodal (b_reqs b)) \<and> b_sampling b \<noteq> None
     \<and> (list_ex wants_lp (b_reqs b) \<longrightarrow> b_logprob b)
     \<and> (b_logprob b \<longrightarrow> (\<exists>ts ks. b_top_nums b = Some ts \<and> b_token_ids b = Some ks \<and> lp_rows (b_reqs b) ts ks))"

lemma pick_eq: "set ks \<subseteq> {..<length xs} \<Longrightarrow> pick ks xs = Inr (map ((!) xs) ks)"
  unfolding pick_def by (rule res_list_all) auto

lemma need_simps [simp]: "need (Some x) = Inr x" "need None = Inl TypeError"
  by (simp_all add: need_def)

lemma pick_opt_simps [simp]:
  "pick_opt ks None = Inr None"
  "set ks \<subseteq> {..<length xs} \<Longrightarrow> pick_opt ks (Some xs) = Inr (Some (map ((!) xs) ks))"
  by (simp_all add: pick_opt_def pick_eq res_map_def)

lemma list_all2_pick:
  "list_all2 P xs ys \<Longrightarrow> set ks \<subseteq> {..<length xs} \<Longrightarrow> list_all2 P (map ((!) xs) ks) (map ((!) ys) ks)"
  by (auto simp: list_all2_conv_all_nth subset_iff)

lemma lp_rows_pick: "lp_rows rs ts us \<Longrightarrow> set ks \<subseteq> {..<length rs}
   \<Longrightarrow> lp_rows (map ((!) rs) ks) (map ((!) ts) ks) (map ((!) us) ks)"
  by (simp add: lp_rows_def list_all2_pick)

lemma lp_rows_len: "lp_rows rs ts us \<Longrightarrow> length ts = length rs \<and> length us = length rs"
  by (auto simp: lp_rows_def dest: list_all2_lengthD)

lemma map_nth_map: "set ks \<subseteq> {..<length xs} \<Longrightarrow> map ((!) (map f xs)) ks = map f (map ((!) xs) ks)"
  by auto

lemma map_nth_all: "map ((!) xs) [0..<length xs] = xs"
  by (rule map_nth)

text \<open>What a filter keeps: indices in range, and all of them only in the original order.\<close>

definition keeps :: "nat list \<Rightarrow> nat \<Rightarrow> bool" where
  "keeps ks n \<longleftrightarrow> set ks \<subseteq> {..<n} \<and> (length ks = n \<longrightarrow> ks = [0..<n])"

lemma kept_default: "keeps (kept exclude None rs) (length rs)"
proof -
  have "length (filter P [0..<n]) = n \<Longrightarrow> filter P [0..<n] = [0..<n]" for P n
    by (metis filter_id_conv length_filter_less less_irrefl length_upt minus_nat.diff_0 set_upt)
  then show ?thesis by (auto simp: keeps_def kept_def)
qed

lemma filter_batch_rows:
  assumes ok: "batch_ok b" and ks: "keeps ks (length (b_reqs b))" "ks = kept exclude keep_indices (b_reqs b)"
    and ne: "ks \<noteq> []"
  shows "\<exists>b' s. filter_batch sfilter pfilter False exclude keep_indices b = Inr b' \<and> batch_ok b'
     \<and> b_reqs b' = map ((!) (b_reqs b)) ks \<and> b_seq_lens b' = map ((!) (b_seq_lens b)) ks
     \<and> b_orig_lens b' = map ((!) (b_orig_lens b)) ks \<and> b_sampling b = Some s \<and> b_sampling b' = Some (if length ks = length (b_reqs b) then s else sfilter ks s)"
proof (cases "length ks = length (b_reqs b)")
  case True
  then have k: "ks = [0..<length (b_reqs b)]" using ks(1) by (simp add: keeps_def)
  have "map ((!) xs) ks = xs" if "length xs = length (b_reqs b)" for xs :: "'x list"
    using map_nth_all [of xs] that k by simp
  moreover obtain s where "b_sampling b = Some s" using ok by (auto simp: batch_ok_def)
  moreover have "length (b_seq_lens b) = length (b_reqs b)" "length (b_orig_lens b) = length (b_reqs b)"
    using ok by (simp_all add: batch_ok_def)
  ultimately show ?thesis using True ne ok k map_nth_all [of "b_seq_lens b"] map_nth_all [of "b_orig_lens b"]
    unfolding filter_batch_def Let_def ks(2) [symmetric] by (simp add: map_nth)
next
  case False
  have r: "set ks \<subseteq> {..<length (b_reqs b)}" using ks(1) by (simp add: keeps_def)
  obtain s where s: "b_sampling b = Some s" using ok by (auto simp: batch_ok_def)
  have eqs: "b_pool b = map row_of (b_reqs b)" "b_pool_cpu b = map row_of (b_reqs b)"
    "length (b_seq_lens b) = length (b_reqs b)" "length (b_orig_lens b) = length (b_reqs b)"
    "b_multimodal b = Some (map sq_multimodal (b_reqs b))"
    using ok by (simp_all add: batch_ok_def)
  define reqs where "reqs = map ((!) (b_reqs b)) ks"
  have ids: "\<exists>x. pick_opt ks (b_input_ids b) = Inr x \<and> (\<forall>y. x = Some y \<longrightarrow> length y = length ks)"
    using ok r by (cases "b_input_ids b") (auto simp: batch_ok_def)
  have cpu: "\<exists>x. pick_opt ks (b_seq_cpu b) = Inr x \<and> (\<forall>y. x = Some y \<longrightarrow> y = map ((!) (b_seq_lens b)) ks)"
    using ok r eqs by (cases "b_seq_cpu b") (auto simp: batch_ok_def)
  obtain ids' cpu' where c: "pick_opt ks (b_input_ids b) = Inr ids'" "\<forall>y. ids' = Some y \<longrightarrow> length y = length ks"
    "pick_opt ks (b_seq_cpu b) = Inr cpu'" "\<forall>y. cpu' = Some y \<longrightarrow> y = map ((!) (b_seq_lens b)) ks"
    using ids cpu by blast
  show ?thesis
  proof (cases "list_ex (\<lambda>s. return_logprob (sq_req s)) reqs")
    case lp: True
    have "set reqs \<subseteq> set (b_reqs b)" using r by (auto simp: reqs_def subset_iff)
    then have "list_ex wants_lp (b_reqs b)" using lp by (auto simp: list_ex_iff wants_lp_def)
    then obtain ts us where t: "b_top_nums b = Some ts" "b_token_ids b = Some us" "lp_rows (b_reqs b) ts us"
      using ok by (auto simp: batch_ok_def)
    have r': "set ks \<subseteq> {..<length ts}" "set ks \<subseteq> {..<length us}" using r lp_rows_len [OF t(3)] by simp_all
    show ?thesis
      using False ne lp t(1,2) lp_rows_pick [OF t(3) r] c(2,4)
      unfolding filter_batch_def Let_def ks(2) [symmetric]
      by (simp add: pick_eq r r' eqs c(1,3) s reqs_def [symmetric] res_map_def batch_ok_def map_nth_map [OF r])
        (simp add: reqs_def)
  next
    case lp: False
    show ?thesis
      using False ne lp c(2,4)
      unfolding filter_batch_def Let_def ks(2) [symmetric]
      by (simp add: pick_eq r eqs c(1,3) s reqs_def [symmetric] res_map_def batch_ok_def map_nth_map [OF r])
        (simp add: reqs_def wants_lp_def [abs_def])
  qed
qed

definition alive :: "nat list \<Rightarrow> sreq \<Rightarrow> bool" where
  "alive exclude s \<longleftrightarrow> sq_reason s = None \<and> sq_id s \<notin> set exclude"

lemma kept_alive: "kept exclude None rs = filter (\<lambda>i. alive exclude (rs ! i)) [0..<length rs]"
  by (simp add: kept_def alive_def)

lemma filter_by_index:
  "map ((!) xs) (filter (\<lambda>i. P (xs ! i)) [0..<length xs]) = filter P xs"
proof -
  have "filter P xs = filter P (map ((!) xs) [0..<length xs])" by (simp add: map_nth)
  also have "\<dots> = map ((!) xs) (filter (\<lambda>i. P (xs ! i)) [0..<length xs])" by (simp add: filter_map comp_def)
  finally show ?thesis by simp
qed

lemma map_nth_zip:
  "set ks \<subseteq> {..<length xs} \<Longrightarrow> length ys = length xs \<Longrightarrow>
     zip (map ((!) xs) ks) (map ((!) ys) ks) = map ((!) (zip xs ys)) ks"
  by (induction ks) auto

lemma zip_filter_index:
  assumes "length ys = length xs" "ks = filter (\<lambda>i. P (xs ! i)) [0..<length xs]"
  shows "zip (map ((!) xs) ks) (map ((!) ys) ks) = filter (\<lambda>p. P (fst p)) (zip xs ys)"
proof -
  have "set ks \<subseteq> {..<length xs}" using assms(2) by auto
  moreover have "ks = filter (\<lambda>i. P (fst (zip xs ys ! i))) [0..<length (zip xs ys)]"
    unfolding assms(2) by (rule filter_cong) (use assms(1) in auto)
  ultimately show ?thesis
    using filter_by_index [of "zip xs ys" "\<lambda>p. P (fst p)"] assms(1) by (simp add: map_nth_zip)
qed

text \<open>Filtering a batch drops whole rows: the requests that remain are the unfinished ones not
  excluded, in order, each with the sequence length and the sampling row it had, and every array of
  the batch is still in step with them (if none remains the batch is empty).\<close>

theorem filter_batch_drops_rows:
  assumes ok: "batch_ok b" and s: "b_sampling b = Some s" "length (srows s) = length (b_reqs b)"
    and smp: "\<And>ks s. srows (sfilter ks s) = map ((!) (srows s)) ks"
  shows "\<exists>b'. filter_batch sfilter pfilter False exclude None b = Inr b'
     \<and> b_reqs b' = filter (alive exclude) (b_reqs b)
     \<and> (b_reqs b' \<noteq> [] \<longrightarrow> batch_ok b'
        \<and> zip (b_reqs b') (b_seq_lens b') = filter (\<lambda>p. alive exclude (fst p)) (zip (b_reqs b) (b_seq_lens b))
        \<and> (\<exists>s'. b_sampling b' = Some s'
            \<and> zip (b_reqs b') (srows s') = filter (\<lambda>p. alive exclude (fst p)) (zip (b_reqs b) (srows s))))"
proof -
  define ks where "ks = kept exclude None (b_reqs b)"
  have eq: "map ((!) (b_reqs b)) ks = filter (alive exclude) (b_reqs b)"
    by (simp add: ks_def kept_alive filter_by_index)
  show ?thesis
  proof (cases "ks = []")
    case True
    then show ?thesis using eq by (simp add: filter_batch_def ks_def [symmetric])
  next
    case False
    obtain b' where b': "filter_batch sfilter pfilter False exclude None b = Inr b'" "batch_ok b'"
      "b_reqs b' = map ((!) (b_reqs b)) ks" "b_seq_lens b' = map ((!) (b_seq_lens b)) ks"
      "b_sampling b' = Some (if length ks = length (b_reqs b) then s else sfilter ks s)"
      using filter_batch_rows [where sfilter = sfilter and pfilter = pfilter, OF ok
          kept_default [of exclude "b_reqs b", folded ks_def] ks_def False] s(1) by auto
    have rows: "srows (if length ks = length (b_reqs b) then s else sfilter ks s) = map ((!) (srows s)) ks"
      using kept_default [of exclude "b_reqs b", folded ks_def] s(2) smp map_nth_all [of "srows s"]
      by (auto simp: keeps_def)
    have "length (b_seq_lens b) = length (b_reqs b)" using ok by (simp add: batch_ok_def)
    then show ?thesis
      using b' s(2) eq rows zip_filter_index [OF _ ks_def [unfolded kept_alive], of "b_seq_lens b"]
        zip_filter_index [OF _ ks_def [unfolded kept_alive], of "srows s"]
      by (intro exI [of _ b'] conjI impI exI [of _ "if length ks = length (b_reqs b) then s else sfilter ks s"]) simp_all
  qed
qed

lemma lp_rows_append:
  "lp_rows rs ts us \<Longrightarrow> lp_rows rs' ts' us' \<Longrightarrow> lp_rows (rs @ rs') (ts @ ts') (us @ us')"
  by (simp add: lp_rows_def list_all2_appendI)

lemma lp_rows_default:
  "\<not> list_ex wants_lp rs \<Longrightarrow> lp_rows rs (replicate (length rs) 0) (replicate (length rs) None)"
  by (auto simp: lp_rows_def list_all2_conv_all_nth list_ex_iff)

lemma merge_logprob_rows:
  assumes "batch_ok a" "batch_ok b"
  shows "\<exists>top tok. merge_logprob (b_logprob a) (b_logprob b) (length (b_reqs a)) (length (b_reqs b)) 0
         (b_top_nums a) (b_top_nums b) = Inr top
      \<and> merge_logprob (b_logprob a) (b_logprob b) (length (b_reqs a)) (length (b_reqs b)) None
         (b_token_ids a) (b_token_ids b) = Inr tok
      \<and> (b_logprob a \<or> b_logprob b \<longrightarrow> (\<exists>ts us. top = Some ts \<and> tok = Some us \<and> lp_rows (b_reqs a @ b_reqs b) ts us))"
proof -
  have a: "\<exists>ts us. lp_rows (b_reqs a) ts us \<and> (b_logprob a \<longrightarrow> b_top_nums a = Some ts \<and> b_token_ids a = Some us)
      \<and> (\<not> b_logprob a \<longrightarrow> ts = replicate (length (b_reqs a)) 0 \<and> us = replicate (length (b_reqs a)) None)"
    using assms(1) lp_rows_default [of "b_reqs a"] unfolding batch_ok_def by blast
  have b: "\<exists>ts us. lp_rows (b_reqs b) ts us \<and> (b_logprob b \<longrightarrow> b_top_nums b = Some ts \<and> b_token_ids b = Some us)
      \<and> (\<not> b_logprob b \<longrightarrow> ts = replicate (length (b_reqs b)) 0 \<and> us = replicate (length (b_reqs b)) None)"
    using assms(2) lp_rows_default [of "b_reqs b"] unfolding batch_ok_def by blast
  from a b show ?thesis
    by (cases "b_logprob a"; cases "b_logprob b") (auto simp: merge_logprob_def res_map_def intro: lp_rows_append)
qed

lemma merge_batch_rows:
  assumes ok: "batch_ok a" "batch_ok b" and sp: "b_spec a \<noteq> None \<longrightarrow> b_spec b \<noteq> None"
    and s: "b_sampling a = Some sa" "b_sampling b = Some sb"
  shows "\<exists>m. merge_batch smerge pmerge False a b = Inr m \<and> batch_ok m \<and> b_reqs m = b_reqs a @ b_reqs b
     \<and> b_seq_lens m = b_seq_lens a @ b_seq_lens b \<and> b_sampling m = Some (smerge sa sb)
     \<and> b_prefix_lens m = b_prefix_lens a \<and> b_extend_lens m = b_extend_lens a \<and> b_num_tokens m = b_num_tokens a
     \<and> b_last_mask m = b_last_mask a \<and> b_lp_starts m = b_lp_starts a \<and> b_mode m = b_mode a
     \<and> b_orig_lens m = b_orig_lens a @ b_orig_lens b \<and> b_seq_cpu m = (case (b_seq_cpu a, b_seq_cpu b) of (Some x, Some y) \<Rightarrow> Some (x @ y) | _ \<Rightarrow> None)"
proof -
  obtain top tok where t: "merge_logprob (b_logprob a) (b_logprob b) (length (b_reqs a)) (length (b_reqs b)) 0
         (b_top_nums a) (b_top_nums b) = Inr top"
    "merge_logprob (b_logprob a) (b_logprob b) (length (b_reqs a)) (length (b_reqs b)) None
         (b_token_ids a) (b_token_ids b) = Inr tok"
    "b_logprob a \<or> b_logprob b \<longrightarrow> (\<exists>ts us. top = Some ts \<and> tok = Some us \<and> lp_rows (b_reqs a @ b_reqs b) ts us)"
    using merge_logprob_rows [OF ok] by blast
  obtain sp' where p: "(case b_spec a of None \<Rightarrow> Inr None
        | Some p \<Rightarrow> res_map (\<lambda>q. Some (pmerge p q)) (need (b_spec b))) = Inr sp'"
    using sp by (cases "b_spec a"; cases "b_spec b") (auto simp: res_map_def)
  have mm: "b_multimodal a = Some (map sq_multimodal (b_reqs a))" "b_multimodal b = Some (map sq_multimodal (b_reqs b))"
    using ok by (simp_all add: batch_ok_def)
  have a: "b_pool a = map row_of (b_reqs a)" "b_pool_cpu a = map row_of (b_reqs a)"
    "length (b_seq_lens a) = length (b_reqs a)" "length (b_orig_lens a) = length (b_reqs a)"
    "list_ex wants_lp (b_reqs a) \<longrightarrow> b_logprob a" using ok(1) by (simp_all add: batch_ok_def)
  have b: "b_pool b = map row_of (b_reqs b)" "b_pool_cpu b = map row_of (b_reqs b)"
    "length (b_seq_lens b) = length (b_reqs b)" "length (b_orig_lens b) = length (b_reqs b)"
    "list_ex wants_lp (b_reqs b) \<longrightarrow> b_logprob b" using ok(2) by (simp_all add: batch_ok_def)
  have ids: "length x = length (b_reqs a @ b_reqs b)"
    if "(case (b_input_ids a, b_input_ids b) of (Some x, Some y) \<Rightarrow> Some (x @ y) | _ \<Rightarrow> None) = Some x" for x
    using that ok by (auto simp: batch_ok_def split: option.splits)
  have cpu: "x = b_seq_lens a @ b_seq_lens b"
    if "(case (b_seq_cpu a, b_seq_cpu b) of (Some x, Some y) \<Rightarrow> Some (x @ y) | _ \<Rightarrow> None) = Some x" for x
    using that ok by (auto simp: batch_ok_def split: option.splits)
  show ?thesis
    unfolding merge_batch_def p
    unfolding s t(1,2) mm option.case need_simps res_bind_simps res_map_def if_False
    apply (intro exI conjI, rule refl)
              apply (simp_all del: option.case)
    unfolding batch_ok_def
    apply (use a b t(3) ids cpu in simp)
    done
qed

text \<open>Merging two batches concatenates their rows: the requests, their sequence lengths and
  their sampling rows are those of the first batch followed by those of the second, and the merged
  arrays are in step with them, also when only one of the batches returns logprobs.\<close>

theorem merge_batch_appends_rows:
  assumes "batch_ok a" "batch_ok b" "b_spec a \<noteq> None \<longrightarrow> b_spec b \<noteq> None"
    and "b_sampling a = Some sa" "b_sampling b = Some sb" and "\<And>x y. srows (smerge x y) = srows x @ srows y"
  shows "\<exists>m s. merge_batch smerge pmerge False a b = Inr m \<and> batch_ok m \<and> b_reqs m = b_reqs a @ b_reqs b
     \<and> b_seq_lens m = b_seq_lens a @ b_seq_lens b \<and> b_sampling m = Some s \<and> srows s = srows sa @ srows sb"
  using merge_batch_rows [OF assms(1-5), of smerge pmerge] assms(6) by auto

section \<open>Extend and decode batches\<close>

text \<open>A request of a row may change in everything but its identity, its cache row and what it asked for.\<close>

definition same_row :: "sreq \<Rightarrow> sreq \<Rightarrow> bool" where
  "same_row s t \<longleftrightarrow> sq_id t = sq_id s \<and> row_of t = row_of s \<and> wants_lp t = wants_lp s \<and> sq_top_num t = sq_top_num s
     \<and> sq_token_ids t = sq_token_ids s \<and> sq_multimodal t = sq_multimodal s"

lemma same_row_maps:
  "list_all2 same_row rs ts \<Longrightarrow> map sq_id ts = map sq_id rs \<and> map row_of ts = map row_of rs \<and> map sq_multimodal ts = map sq_multimodal rs
     \<and> list_ex wants_lp ts = list_ex wants_lp rs \<and> length ts = length rs"
  by (induction rule: list_all2_induct) (simp_all add: same_row_def)

lemma same_row_lp:
  assumes "list_all2 same_row rs ts" "lp_rows rs xs ys"
  shows "lp_rows ts xs ys"
  using assms by (auto simp: lp_rows_def list_all2_conv_all_nth same_row_def)

lemma batch_ok_reqs:
  assumes "batch_ok b" "list_all2 same_row (b_reqs b) rs"
  shows "batch_ok (b\<lparr>b_reqs := rs\<rparr>)"
  using assms same_row_maps [OF assms(2)] same_row_lp [OF assms(2)] unfolding batch_ok_def by fastforce

lemma one_token_same_row: "same_row s (one_token_extend p s)"
  by (simp add: same_row_def one_token_extend_def row_of_def wants_lp_def set_extend_range_def refresh_fill_ids_def Let_def)

lemma one_token_range: "extend_range (sq_req (one_token_extend p s)) = Some (p, p + 1)"
  by (simp add: one_token_extend_def set_extend_range_def)

definition range_row :: "sreq \<Rightarrow> int \<times> int \<Rightarrow> bool" where
  "range_row s pe \<longleftrightarrow> extend_range (sq_req s) = Some (fst pe, fst pe + snd pe)"

text \<open>An extend batch: every row's prefix and extend lengths make up its sequence length and are the
  range its request was given; the token count and the logprob starts match the rows.  \<open>mask_ok\<close> asks the
  same of the last-chunk flags.\<close>

definition extend_ok :: "('s, 'p) sbatch \<Rightarrow> bool" where
  "extend_ok b \<longleftrightarrow> length (b_prefix_lens b) = length (b_reqs b) \<and> length (b_extend_lens b) = length (b_reqs b)
     \<and> map2 (+) (b_prefix_lens b) (b_extend_lens b) = b_seq_lens b
     \<and> list_all2 range_row (b_reqs b) (zip (b_prefix_lens b) (b_extend_lens b))
     \<and> b_num_tokens b = sum_list (b_extend_lens b) \<and> length (b_lp_starts b) = length (b_reqs b)"

definition mask_ok :: "('s, 'p) sbatch \<Rightarrow> bool" where
  "mask_ok b \<longleftrightarrow> (\<exists>k. b_last_mask b = Some k \<and> length k = length (b_reqs b))"

lemma one_tokens:
  assumes "length ps = length rs"
  shows "list_all2 same_row rs (map2 one_token_extend ps rs)"
    and "list_all2 range_row (map2 one_token_extend ps rs) (zip ps (replicate (length rs) 1))"
  using assms by (simp_all add: list_all2_conv_all_nth one_token_same_row one_token_range range_row_def)

lemma plus_ones: "map2 (+) ps (replicate (length ps) (1::int)) = map (\<lambda>p. p + 1) ps"
  by (induction ps) simp_all

lemma sum_ones: "sum_list (replicate n (1::int)) = int n"
  by (induction n) simp_all

lemma zip_append_len: "length a = length b \<Longrightarrow> zip (a @ c) (b @ d) = zip a b @ zip c d"
  by simp

text \<open>The lengths a running batch's rows have in a mixed batch: without speculation those the batch
  carries, with it those of the requests.\<close>

definition mixed_lens :: "bool \<Rightarrow> ('s, 'p) sbatch \<Rightarrow> int list" where
  "mixed_lens spec run = (if spec then map (seqlen \<circ> sq_req) (b_reqs run) else b_seq_lens run)"

lemma one_tokens_id: "length ps = length rs \<Longrightarrow> map sq_id (map2 one_token_extend ps rs) = map sq_id rs"
  using same_row_maps [OF one_tokens(1)] by blast

lemma mix_rows:
  assumes a: "batch_ok a" "extend_ok a" "b_out_loc a = Some la" "b_seq_cpu a \<noteq> None" "mask_ok a"
    and r: "batch_ok run" "b_reqs run \<noteq> []"
    and mode: "spec \<or> (b_seq_cpu run \<noteq> None \<and> b_out_loc run \<noteq> None)"
    and sp: "b_spec a \<noteq> None \<longrightarrow> b_spec run \<noteq> None"
    and smp: "b_sampling a = Some sa" "b_sampling run = Some sr"
  shows "\<exists>m. mix_with_running smerge pmerge False spec req_to_token a run = Inr m \<and> batch_ok m \<and> extend_ok m
     \<and> mask_ok m \<and> length (b_reqs m) = length (b_reqs a) + length (b_reqs run) \<and> b_mode m = Some MIXED
     \<and> map sq_id (b_reqs m) = map sq_id (b_reqs a) @ map sq_id (b_reqs run)
     \<and> b_seq_lens m = b_seq_lens a @ mixed_lens spec run \<and> b_orig_lens m = b_orig_lens a @ b_orig_lens run
     \<and> b_prefix_lens m = b_prefix_lens a @ map (\<lambda>n. n - 1) (mixed_lens spec run)
     \<and> b_extend_lens m = b_extend_lens a @ replicate (length (b_reqs run)) 1
     \<and> b_last_mask m = Some (the (b_last_mask a) @ replicate (length (b_reqs run)) True)"
proof -
  obtain ma where ma: "b_last_mask a = Some ma" "length ma = length (b_reqs a)"
    using a(5) by (auto simp: mask_ok_def)
  define pre where "pre = map (\<lambda>n. n - 1) (if spec then map (seqlen \<circ> sq_req) (b_reqs run) else b_seq_lens run)"
  have len: "length pre = length (b_reqs run)" "length (b_seq_lens run) = length (b_reqs run)"
    using r(1) by (simp_all add: pre_def batch_ok_def)
  have pre_eq: "(if spec then Inr (map (\<lambda>n. n - 1) (map (seqlen \<circ> sq_req) (b_reqs run)))
      else res_map (map (\<lambda>n. n - 1)) (need (b_seq_cpu run))) = Inr pre"
    using r(1) mode by (auto simp: pre_def batch_ok_def res_map_def)
  let ?run = "run\<lparr>b_reqs := map2 one_token_extend pre (b_reqs run)\<rparr>"
  obtain lr where lr: "(if spec then Some (map2 req_to_token (b_pool ?run) pre) else b_out_loc ?run) = Some lr"
    using mode by (cases spec) auto
  let ?a = "a\<lparr>b_mode := Some MIXED, b_input_ids := None, b_mix_idx := Some (b_pool ?run)\<rparr>"
  have oks: "batch_ok ?a" "batch_ok ?run"
    using a(1) batch_ok_reqs [OF r(1) one_tokens(1) [OF len(1)]] by (simp_all add: batch_ok_def)
  obtain m where m: "merge_batch smerge pmerge False ?a ?run = Inr m" "batch_ok m"
    "b_reqs m = b_reqs a @ map2 one_token_extend pre (b_reqs run)" "b_seq_lens m = b_seq_lens a @ b_seq_lens run"
    "b_prefix_lens m = b_prefix_lens a" "b_extend_lens m = b_extend_lens a" "b_num_tokens m = b_num_tokens a"
    "b_last_mask m = Some ma" "b_lp_starts m = b_lp_starts a" "b_mode m = Some MIXED"
    "b_orig_lens m = b_orig_lens a @ b_orig_lens run"
    using merge_batch_rows [OF oks _, of sa sr smerge pmerge] sp smp ma(1) by auto
  have seqs: "spec \<Longrightarrow> map (\<lambda>p. p + 1) pre = map (seqlen \<circ> sq_req) (b_reqs run)"
    "\<not> spec \<Longrightarrow> map (\<lambda>p. p + 1) pre = b_seq_lens run" by (simp_all add: pre_def comp_def)
  have S: "(if spec then take (length (b_seq_lens m) - length (b_reqs run)) (b_seq_lens m) @ map (\<lambda>p. p + 1) pre
      else b_seq_lens m) = b_seq_lens a @ map (\<lambda>p. p + 1) pre"
    using m(4) len(2) seqs(2) by simp
  define cpu where "cpu = (if spec then Some ((case b_seq_cpu a of None \<Rightarrow> [] | Some c \<Rightarrow> c)
      @ map (seqlen \<circ> sq_req) (b_reqs run)) else b_seq_cpu m)"
  have C: "c = b_seq_lens a @ map (\<lambda>p. p + 1) pre" if "cpu = Some c" for c
    using that a(1,4) m(2,4) seqs by (cases spec) (auto simp: cpu_def batch_ok_def)
  define M where "M = m\<lparr>b_out_loc := Some (la @ lr), b_seq_cpu := cpu,
     b_seq_lens := b_seq_lens a @ map (\<lambda>p. p + 1) pre, b_prefix_lens := b_prefix_lens a @ pre,
     b_extend_lens := b_extend_lens a @ replicate (length (b_reqs run)) 1,
     b_num_tokens := b_num_tokens a + int (length (b_reqs run)),
     b_last_mask := Some (ma @ replicate (length (b_reqs run)) True),
     b_lp_starts := b_lp_starts a @ replicate (length (b_reqs run)) 0, b_prefill_only := False\<rparr>"
  have run: "mix_with_running smerge pmerge False spec req_to_token a run = Inr M"
    unfolding mix_with_running_def Let_def pre_eq
    unfolding lr a(3) need_simps res_bind_simps m(1) S m(5-9) option.case len(1)
    using r(2) by (simp add: M_def cpu_def len(1))
  have "length (b_seq_lens m) = length (b_seq_lens a) + length pre" using m(4) len by simp
  then have "batch_ok M" using m(2) C unfolding M_def batch_ok_def by (simp add: m(4))
  moreover have "extend_ok M"
  proof -
    have ea: "length (b_prefix_lens a) = length (b_reqs a)" "length (b_extend_lens a) = length (b_reqs a)"
      "map2 (+) (b_prefix_lens a) (b_extend_lens a) = b_seq_lens a"
      "list_all2 range_row (b_reqs a) (zip (b_prefix_lens a) (b_extend_lens a))"
      "b_num_tokens a = sum_list (b_extend_lens a)" "length (b_lp_starts a) = length (b_reqs a)"
      using a(2) by (simp_all add: extend_ok_def)
    have "list_all2 range_row (b_reqs a @ map2 one_token_extend pre (b_reqs run))
        (zip (b_prefix_lens a) (b_extend_lens a) @ zip pre (replicate (length (b_reqs run)) 1))"
      using ea(4) one_tokens(2) [OF len(1)] by (rule list_all2_appendI)
    then show ?thesis using ea len plus_ones [of pre] unfolding extend_ok_def M_def
      by (simp add: m(3) sum_ones)
  qed
  moreover have "mask_ok M" "length (b_reqs M) = length (b_reqs a) + length (b_reqs run)"
    using ma(2) len(1) by (simp_all add: mask_ok_def M_def m(3))
  moreover have "b_mode M = Some MIXED" "b_orig_lens M = b_orig_lens a @ b_orig_lens run"
    "map sq_id (b_reqs M) = map sq_id (b_reqs a) @ map sq_id (b_reqs run)"
    by (simp_all add: M_def m(3,10,11) one_tokens_id [OF len(1)] del: map_map)
  moreover have "b_seq_lens M = b_seq_lens a @ mixed_lens spec run" "pre = map (\<lambda>n. n - 1) (mixed_lens spec run)"
    by (simp_all add: M_def mixed_lens_def pre_def comp_def)
  then have "b_seq_lens M = b_seq_lens a @ mixed_lens spec run
      \<and> b_prefix_lens M = b_prefix_lens a @ map (\<lambda>n. n - 1) (mixed_lens spec run)
      \<and> b_extend_lens M = b_extend_lens a @ replicate (length (b_reqs run)) 1
      \<and> b_last_mask M = Some (the (b_last_mask a) @ replicate (length (b_reqs run)) True)"
    by (simp add: M_def ma)
  ultimately show ?thesis using run by blast
qed

lemma convert_rows:
  assumes "batch_ok b" "b_seq_cpu b \<noteq> None"
  shows "\<exists>c. convert_decode_to_extend b = Inr c \<and> batch_ok c \<and> extend_ok c
     \<and> length (b_reqs c) = length (b_reqs b) \<and> list_all2 same_row (b_reqs b) (b_reqs c)
     \<and> b_last_mask c = b_last_mask b \<and> b_seq_lens c = b_seq_lens b \<and> b_orig_lens c = b_orig_lens b
     \<and> b_prefix_lens c = map (\<lambda>n. n - 1) (b_seq_lens b) \<and> b_extend_lens c = replicate (length (b_reqs b)) 1"
proof -
  have cpu: "b_seq_cpu b = Some (b_seq_lens b)" "length (b_seq_lens b) = length (b_reqs b)"
    using assms(1,2) by (auto simp: batch_ok_def)
  define pre where "pre = map (\<lambda>n. n - 1) (b_seq_lens b)"
  have len: "length pre = length (b_reqs b)" by (simp add: pre_def cpu)
  have inv: "map (\<lambda>p. p + 1) pre = b_seq_lens b" by (simp add: pre_def comp_def)
  define C where "C = (b\<lparr>b_reqs := map2 one_token_extend pre (b_reqs b)\<rparr>)\<lparr>b_mode := Some EXTEND,
     b_prefix_lens := pre, b_extend_lens := replicate (length (b_reqs b)) 1, b_num_tokens := int (length (b_reqs b)),
     b_lp_starts := replicate (length (b_reqs b)) 0, b_decoding := Some (map2 one_token_extend pre (b_reqs b)),
     b_prefill_only := False\<rparr>"
  have "convert_decode_to_extend b = Inr C"
    unfolding convert_decode_to_extend_def Let_def cpu(1) need_simps res_bind_simps
    by (simp add: cpu(2) C_def pre_def)
  moreover have "batch_ok C"
    using batch_ok_reqs [OF assms(1) one_tokens(1) [OF len]] unfolding C_def batch_ok_def by simp
  moreover have "extend_ok C"
    using one_tokens(2) [OF len] len plus_ones [of pre] inv
    unfolding extend_ok_def C_def by (simp add: sum_ones)
  moreover have "list_all2 same_row (b_reqs b) (b_reqs C)" using one_tokens(1) [OF len] by (simp add: C_def)
  ultimately show ?thesis using len by (auto simp: C_def pre_def)
qed

text \<open>Mixing a prepared extend batch with running decodes gives one well-formed extend batch:
  every running request follows as a one-token extend whose prefix is the rest of its context, so
  in every row, old or new, prefix length plus extend length is the sequence length and is the
  range the request was given, with and without speculation.\<close>

theorem mixed_batch_is_extend:
  assumes "batch_ok a" "extend_ok a" "b_out_loc a = Some la" "b_seq_cpu a \<noteq> None" "mask_ok a"
    and "batch_ok run" "b_reqs run \<noteq> []" "spec \<or> (b_seq_cpu run \<noteq> None \<and> b_out_loc run \<noteq> None)"
    and "b_spec a \<noteq> None \<longrightarrow> b_spec run \<noteq> None" "b_sampling a = Some sa" "b_sampling run = Some sr"
  shows "\<exists>m. mix_with_running smerge pmerge False spec req_to_token a run = Inr m \<and> batch_ok m
     \<and> length (b_reqs m) = length (b_reqs a) + length (b_reqs run)
     \<and> map2 (+) (b_prefix_lens m) (b_extend_lens m) = b_seq_lens m
     \<and> list_all2 range_row (b_reqs m) (zip (b_prefix_lens m) (b_extend_lens m))
     \<and> b_num_tokens m = sum_list (b_extend_lens m) \<and> mask_ok m"
  using mix_rows [OF assms, of smerge pmerge req_to_token] by (auto simp: extend_ok_def)

section \<open>Rows through a batch's life\<close>

text \<open>What the allocators promise: one KV record per request; an extend registers a row for each and
  returns these rows, a decode keeps the rows.\<close>

definition extend_alloc_ok :: "(rreq list \<Rightarrow> (kv_info list \<times> int list \<times> int list) res) \<Rightarrow> bool" where
  "extend_alloc_ok alloc \<longleftrightarrow> (\<forall>rs kvs locs pools. alloc rs = Inr (kvs, locs, pools) \<longrightarrow>
     length kvs = length rs \<and> list_all2 (\<lambda>k p. \<exists>i. req_pool_idx k = Some i \<and> p = int i) kvs pools)"

definition decode_alloc_ok :: "(sreq list \<Rightarrow> (kv_info list \<times> int list) res) \<Rightarrow> bool" where
  "decode_alloc_ok alloc \<longleftrightarrow> (\<forall>rs kvs locs. alloc rs = Inr (kvs, locs) \<longrightarrow>
     list_all2 (\<lambda>s k. req_pool_idx k = req_pool_idx (kv (sq_req s))) rs kvs)"

lemma count_cached_frame:
  "count_cached r = Inr r' \<Longrightarrow> kv r' = kv r \<and> return_logprob r' = return_logprob r \<and> extend_range r' = extend_range r"
  by (auto simp: count_cached_def ensure_Inr split: if_splits)

lemma admitted_range:
  assumes "admitted r"
  shows "pre_len r + range_len r = range_stop r \<and> extend_range r = Some (pre_len r, pre_len r + range_len r)"
proof -
  have e: "extend_range r = Some (pre_len r, range_stop r)" using assms by (simp add: admitted_def)
  then have "range_len r = range_stop r - pre_len r" unfolding range_len_def by simp
  then show ?thesis using e by simp
qed

text \<open>A freshly prepared batch: the rows are the requests given, in their order; the length of a row
  is the end of its request's range, prefix and extend length make up that range, and the flag says
  whether the round is the last of its prompt (or reports logprobs).\<close>

definition fresh_rows :: "sreq list \<Rightarrow> ('s, 'p) sbatch \<Rightarrow> bool" where
  "fresh_rows ss b \<longleftrightarrow> map sq_id (b_reqs b) = map sq_id ss
     \<and> b_seq_lens b = map (range_stop \<circ> sq_req) ss
     \<and> b_orig_lens b = map (\<lambda>s. max (range_stop (sq_req s)) (int (length (origin_input_ids (sq_req s))))) ss
     \<and> b_prefix_lens b = map (pre_len \<circ> sq_req) ss \<and> b_extend_lens b = map (range_len \<circ> sq_req) ss
     \<and> b_last_mask b = Some (map (last_chunk (list_ex wants_lp ss) \<circ> sq_req) ss)
     \<and> b_seq_cpu b = Some (b_seq_lens b) \<and> b_out_loc b \<noteq> None"

lemma prepare_extend_rows:
  assumes adm: "list_all (\<lambda>s. admitted (sq_req s)) ss" and law: "extend_alloc_ok alloc"
    and b: "prepare_extend replay vocab alloc sample (init_new ss) = Inr b"
  shows "batch_ok b \<and> extend_ok b \<and> mask_ok b \<and> fresh_rows ss b"
proof -
  let ?rs = "map sq_req ss"
  obtain ids kvs locs pools rs where e: "res_list chunk_input_ids ?rs = Inr ids"
    "alloc ?rs = Inr (kvs, locs, pools)"
    "res_list count_cached (map2 (\<lambda>r k. r\<lparr>kv := k\<rparr>) ?rs kvs) = Inr rs"
    and bb: "b = (init_new ss)\<lparr>b_mode := Some EXTEND, b_reqs := map2 (\<lambda>s r. s\<lparr>sq_req := r\<rparr>) ss rs, b_pool := pools,
       b_pool_cpu := pools, b_seq_lens := map range_stop ?rs, b_seq_cpu := Some (map range_stop ?rs),
       b_orig_lens := map (\<lambda>r. max (range_stop r) (int (length (origin_input_ids r)))) ?rs,
       b_seq_sum := Some (sum_list (map range_stop ?rs)), b_input_ids := None, b_out_loc := Some locs,
       b_multimodal := Some (map sq_multimodal (map2 (\<lambda>s r. s\<lparr>sq_req := r\<rparr>) ss rs)),
       b_top_nums := (if b_logprob (init_new ss :: ('a, 'b) sbatch)
          then Some (map sq_top_num (map2 (\<lambda>s r. s\<lparr>sq_req := r\<rparr>) ss rs)) else None),
       b_token_ids := (if b_logprob (init_new ss :: ('a, 'b) sbatch)
          then Some (map sq_token_ids (map2 (\<lambda>s r. s\<lparr>sq_req := r\<rparr>) ss rs)) else None),
       b_prefix_lens := map pre_len ?rs, b_extend_lens := map range_len ?rs,
       b_num_tokens := sum_list (map (int \<circ> length) ids), b_lp_starts := map extend_logprob_start ?rs,
       b_last_mask := Some (map (last_chunk (b_logprob (init_new ss :: ('a, 'b) sbatch))) ?rs),
       b_sampling := Some (sample (map2 (\<lambda>s r. s\<lparr>sq_req := r\<rparr>) ss rs))\<rparr>"
    using b unfolding prepare_extend_def prepare_for_extend_def
    by (auto simp: res_bind_Inr ensure_Inr Let_def init_new_def)
  have k: "length kvs = length ss" "list_all2 (\<lambda>k p. \<exists>i. req_pool_idx k = Some i \<and> p = int i) kvs pools"
    using law e(2) by (auto simp: extend_alloc_ok_def)
  have len: "length rs = length ss" "length pools = length ss"
    using e(3) k list_all2_lengthD [OF k(2)] by (simp_all add: res_list_Inr)
  have frame: "kv (rs ! i) = kvs ! i \<and> return_logprob (rs ! i) = wants_lp (ss ! i)
      \<and> extend_range (rs ! i) = extend_range (sq_req (ss ! i))" if "i < length ss" for i
    using count_cached_frame [of "(sq_req (ss ! i))\<lparr>kv := kvs ! i\<rparr>" "rs ! i"] e(3) that k(1)
    by (simp add: res_list_Inr wants_lp_def)
  let ?R = "map2 (\<lambda>s r. s\<lparr>sq_req := r\<rparr>) ss rs"
  have pools: "pools = map row_of ?R"
    by (rule nth_equalityI)
      (use len k(2) frame k(1) in \<open>auto simp: row_of_def list_all2_conv_all_nth\<close>)
  have lp: "list_ex wants_lp ?R = list_ex wants_lp ss"
    using frame len by (auto simp: list_ex_length wants_lp_def)
  have rows: "lp_rows ?R (map sq_top_num ?R) (map sq_token_ids ?R)"
    by (simp add: lp_rows_def list_all2_conv_all_nth)
  have adm': "pre_len (sq_req (ss ! i)) + range_len (sq_req (ss ! i)) = range_stop (sq_req (ss ! i))"
    "extend_range (sq_req (ss ! i)) = Some (pre_len (sq_req (ss ! i)), pre_len (sq_req (ss ! i)) + range_len (sq_req (ss ! i)))"
    if "i < length ss" for i
    using adm that admitted_range [of "sq_req (ss ! i)"] by (simp_all add: list_all_length)
  have seq: "map2 (+) (map pre_len ?rs) (map range_len ?rs) = map range_stop ?rs"
    by (rule nth_equalityI) (use adm'(1) in auto)
  have rng: "list_all2 range_row ?R (zip (map pre_len ?rs) (map range_len ?rs))"
    unfolding list_all2_conv_all_nth
    using len frame adm'(2) by (auto simp: range_row_def)
  obtain ids' where "res_list chunk_input_ids ?rs = Inr ids'"
    "list_all2 (\<lambda>r ids. int (length ids) = range_len r) ?rs ids'"
    using res_list_split [where Q = "\<lambda>r ids. int (length ids) = range_len r", of admitted ?rs chunk_input_ids]
      adm admitted_tokens by (auto simp: list_all_iff)
  then have num: "sum_list (map (int \<circ> length) ids) = sum_list (map range_len ?rs)"
    using e(1) sum_lens sum_lens_same [of ids] by fastforce
  have "map sq_id ?R = map sq_id ss" by (rule nth_equalityI) (use len in simp_all)
  then have "fresh_rows ss b"
    unfolding bb fresh_rows_def by (simp add: init_new_def comp_def wants_lp_def [abs_def] del: map_map) simp
  moreover have "batch_ok b \<and> extend_ok b \<and> mask_ok b"
    using pools lp rows seq rng num len unfolding bb batch_ok_def extend_ok_def mask_ok_def
    by (simp add: init_new_def wants_lp_def [abs_def])
  ultimately show ?thesis by blast
qed

lemma decode_rows:
  assumes ok: "batch_ok b" and law: "decode_alloc_ok alloc" and b': "prepare_for_decode alloc None b = Inr b'"
  shows "batch_ok b' \<and> map sq_id (b_reqs b') = map sq_id (b_reqs b)
     \<and> b_seq_lens b' = map (\<lambda>n. n + 1) (b_seq_lens b) \<and> b_orig_lens b' = map (\<lambda>n. n + 1) (b_orig_lens b)"
proof -
  obtain kvs locs cpu where e: "alloc (b_reqs b) = Inr (kvs, locs)" "b_seq_cpu b = Some cpu"
    and bb: "b' = b\<lparr>b_mode := Some DECODE, b_out_loc := Some locs,
       b_reqs := map2 (\<lambda>s k. s\<lparr>sq_req := (sq_req s)\<lparr>kv := k\<rparr>, sq_decode_idx := sq_decode_idx s + 1\<rparr>) (b_reqs b) kvs,
       b_seq_lens := map (\<lambda>n. n + 1) (b_seq_lens b), b_seq_cpu := Some (map (\<lambda>n. n + 1) cpu),
       b_orig_lens := map (\<lambda>n. n + 1) (b_orig_lens b), b_seq_sum := None\<rparr>"
    using b' by (cases "b_seq_cpu b") (auto simp: prepare_for_decode_def res_bind_Inr)
  let ?R = "map2 (\<lambda>s k. s\<lparr>sq_req := (sq_req s)\<lparr>kv := k\<rparr>, sq_decode_idx := sq_decode_idx s + 1\<rparr>) (b_reqs b) kvs"
  have "list_all2 (\<lambda>s k. req_pool_idx k = req_pool_idx (kv (sq_req s))) (b_reqs b) kvs"
    using law e(1) by (auto simp: decode_alloc_ok_def)
  then have R: "list_all2 same_row (b_reqs b) ?R"
    by (auto simp: list_all2_conv_all_nth same_row_def row_of_def wants_lp_def)
  have "batch_ok b'" using batch_ok_reqs [OF ok R] e(2) unfolding bb batch_ok_def by (simp add: comp_def)
  moreover have "map sq_id (b_reqs b') = map sq_id (b_reqs b)" using same_row_maps [OF R] by (simp add: bb)
  ultimately show ?thesis by (simp add: bb)
qed

text \<open>The ledger of a batch: what its rows are, by the history of the batch alone.  A row is the
  identity of its request, its length and its original length; while the batch is an extend batch
  the ledger also has every row's prefix and extend length, and after a preparation or a mix its
  last-chunk flag.\<close>

record ledger =
  lg_rows :: "(nat \<times> int \<times> int) list"
  lg_ranges :: "(int \<times> int) list option"
  lg_flags :: "bool list option"

definition row_len :: "nat \<times> int \<times> int \<Rightarrow> int" where
  "row_len x = fst (snd x)"

definition fresh_ledger :: "sreq list \<Rightarrow> ledger" where
  "fresh_ledger ss =
     \<lparr>lg_rows = map (\<lambda>s. (sq_id s, range_stop (sq_req s),
         max (range_stop (sq_req s)) (int (length (origin_input_ids (sq_req s)))))) ss,
      lg_ranges = Some (map (\<lambda>s. (pre_len (sq_req s), range_len (sq_req s))) ss),
      lg_flags = Some (map (\<lambda>s. last_chunk (list_ex wants_lp ss) (sq_req s)) ss)\<rparr>"

definition rows_ledger :: "(nat \<times> int \<times> int) list \<Rightarrow> ledger" where
  "rows_ledger xs = \<lparr>lg_rows = xs, lg_ranges = None, lg_flags = None\<rparr>"

text \<open>One more token in every row; the rows of the unfinished requests; a running row as a one-token
  extend, with speculation at the length of its request.\<close>

definition grow_row :: "nat \<times> int \<times> int \<Rightarrow> nat \<times> int \<times> int" where
  "grow_row x = (case x of (n, l, oln) \<Rightarrow> (n, l + 1, oln + 1))"

definition alive_rows :: "nat list \<Rightarrow> sreq list \<Rightarrow> (nat \<times> int \<times> int) list \<Rightarrow> (nat \<times> int \<times> int) list" where
  "alive_rows exclude rs xs = map snd (filter (\<lambda>p. alive exclude (fst p)) (zip rs xs))"

definition tail_row :: "bool \<Rightarrow> sreq \<Rightarrow> nat \<times> int \<times> int \<Rightarrow> nat \<times> int \<times> int" where
  "tail_row spec s x = (case x of (n, l, oln) \<Rightarrow> (n, if spec then seqlen (sq_req s) else l, oln))"

definition last_token :: "nat \<times> int \<times> int \<Rightarrow> int \<times> int" where
  "last_token x = (row_len x - 1, 1)"

definition mixed_ledger :: "bool \<Rightarrow> sreq list \<Rightarrow> sreq list \<Rightarrow> (nat \<times> int \<times> int) list \<Rightarrow> ledger" where
  "mixed_ledger spec ss rs xs =
     (let new = fresh_ledger ss; tails = map2 (tail_row spec) rs xs
      in \<lparr>lg_rows = lg_rows new @ tails, lg_ranges = map_option (\<lambda>p. p @ map last_token tails) (lg_ranges new),
          lg_flags = map_option (\<lambda>k. k @ replicate (length rs) True) (lg_flags new)\<rparr>)"

text \<open>How batches come about: an extend over admitted requests, then decodes, filters, merges,
  conversions and mixes of a new extend with a running batch, in any order, with the requests changing
  in between (new tokens, finish reasons).  The ledger follows.  \<open>ops\<close> are the row operations of
  the sampling and speculation info.\<close>

inductive batch_reach ::
    "('s keep_rows \<times> 's join_rows \<times> 'p keep_rows \<times> 'p join_rows) \<Rightarrow> ledger \<Rightarrow> ('s, 'p) sbatch \<Rightarrow> bool"
  for ops :: "'s keep_rows \<times> 's join_rows \<times> 'p keep_rows \<times> 'p join_rows" where
  br_extend: "list_all (\<lambda>s. admitted (sq_req s)) ss \<Longrightarrow> extend_alloc_ok alloc
     \<Longrightarrow> prepare_extend replay vocab alloc sample (init_new ss) = Inr b \<Longrightarrow> batch_reach ops (fresh_ledger ss) b"
| br_run: "batch_reach ops g b \<Longrightarrow> list_all2 same_row (b_reqs b) rs \<Longrightarrow> batch_reach ops g (b\<lparr>b_reqs := rs\<rparr>)"
| br_inputs: "batch_reach ops g b \<Longrightarrow> length ids = length (b_reqs b) \<Longrightarrow> batch_reach ops g (b\<lparr>b_input_ids := Some ids\<rparr>)"
| br_decode: "batch_reach ops g b \<Longrightarrow> decode_alloc_ok dalloc \<Longrightarrow> prepare_for_decode dalloc None b = Inr b'
     \<Longrightarrow> batch_reach ops (rows_ledger (map grow_row (lg_rows g))) b'"
| br_filter: "batch_reach ops g b \<Longrightarrow> ops = (sf, sm, pf, pm) \<Longrightarrow> filter_batch sf pf False exclude None b = Inr b'
     \<Longrightarrow> b_reqs b' \<noteq> [] \<Longrightarrow> batch_reach ops (rows_ledger (alive_rows exclude (b_reqs b) (lg_rows g))) b'"
| br_merge: "batch_reach ops g a \<Longrightarrow> batch_reach ops h b \<Longrightarrow> ops = (sf, sm, pf, pm)
     \<Longrightarrow> merge_batch sm pm False a b = Inr m \<Longrightarrow> batch_reach ops (rows_ledger (lg_rows g @ lg_rows h)) m"
| br_mix: "list_all (\<lambda>s. admitted (sq_req s)) ss \<Longrightarrow> extend_alloc_ok alloc
     \<Longrightarrow> prepare_extend replay vocab alloc sample (init_new ss) = Inr a \<Longrightarrow> batch_reach ops g run \<Longrightarrow> b_reqs run \<noteq> []
     \<Longrightarrow> ops = (sf, sm, pf, pm) \<Longrightarrow> mix_with_running sm pm False spec req_to_token a run = Inr m
     \<Longrightarrow> batch_reach ops (mixed_ledger spec ss (b_reqs run) (lg_rows g)) m"
| br_convert: "batch_reach ops g b \<Longrightarrow> convert_decode_to_extend b = Inr c
     \<Longrightarrow> batch_reach ops \<lparr>lg_rows = lg_rows g, lg_ranges = Some (map last_token (lg_rows g)), lg_flags = None\<rparr> c"

definition ledger_ok :: "ledger \<Rightarrow> ('s, 'p) sbatch \<Rightarrow> bool" where
  "ledger_ok g b \<longleftrightarrow> map sq_id (b_reqs b) = map fst (lg_rows g) \<and> b_seq_lens b = map row_len (lg_rows g)
     \<and> b_orig_lens b = map (snd \<circ> snd) (lg_rows g)
     \<and> (\<forall>r. lg_ranges g = Some r \<longrightarrow> b_prefix_lens b = map fst r \<and> b_extend_lens b = map snd r)
     \<and> (\<forall>k. lg_flags g = Some k \<longrightarrow> b_last_mask b = Some k)"

lemma ledger_rows [simp]: "lg_rows (rows_ledger xs) = xs" "lg_ranges (rows_ledger xs) = None" "lg_flags (rows_ledger xs) = None"
  by (simp_all add: rows_ledger_def)

lemma rows_ledger_ok:
  "map sq_id (b_reqs b) = map fst xs \<Longrightarrow> b_seq_lens b = map row_len xs \<Longrightarrow> b_orig_lens b = map (snd \<circ> snd) xs
     \<Longrightarrow> ledger_ok (rows_ledger xs) b"
  by (simp add: ledger_ok_def ledger_rows)

lemma grow_row_parts: "fst (grow_row x) = fst x" "row_len (grow_row x) = row_len x + 1"
    "snd (snd (grow_row x)) = snd (snd x) + 1"
  by (simp_all add: grow_row_def row_len_def split: prod.splits)

lemma fresh_ledger_ok: "fresh_rows ss b \<Longrightarrow> ledger_ok (fresh_ledger ss) b"
  unfolding fresh_rows_def ledger_ok_def fresh_ledger_def by (simp add: comp_def row_len_def)

lemma alive_rows_index:
  assumes "length xs = length rs" "ks = kept exclude None rs"
  shows "alive_rows exclude rs xs = map ((!) xs) ks"
proof -
  have r: "set ks \<subseteq> {..<length rs}" using assms(2) by (auto simp: kept_def)
  have "filter (\<lambda>p. alive exclude (fst p)) (zip rs xs) = zip (map ((!) rs) ks) (map ((!) xs) ks)"
    using zip_filter_index [OF assms(1), of ks "alive exclude"] assms(2) by (simp add: kept_alive)
  then show ?thesis by (simp add: alive_rows_def)
qed

lemma tail_rows_parts:
  assumes "length xs = length rs"
  shows "map fst (map2 (tail_row spec) rs xs) = map fst xs"
    "map row_len (map2 (tail_row spec) rs xs) = (if spec then map (seqlen \<circ> sq_req) rs else map row_len xs)"
    "map (snd \<circ> snd) (map2 (tail_row spec) rs xs) = map (snd \<circ> snd) xs"
  using assms by (induction xs rs rule: list_induct2) (auto simp: tail_row_def row_len_def)

lemma mixed_ledger_parts:
  "lg_rows (mixed_ledger spec ss rs xs) = lg_rows (fresh_ledger ss) @ map2 (tail_row spec) rs xs"
  "lg_ranges (mixed_ledger spec ss rs xs) = Some (map (\<lambda>s. (pre_len (sq_req s), range_len (sq_req s))) ss
     @ map last_token (map2 (tail_row spec) rs xs))"
  "lg_flags (mixed_ledger spec ss rs xs)
     = Some (map (\<lambda>s. last_chunk (list_ex wants_lp ss) (sq_req s)) ss @ replicate (length rs) True)"
  by (simp_all add: mixed_ledger_def Let_def fresh_ledger_def)

lemma mixed_ledger_ok:
  assumes a: "fresh_rows ss a" and g: "ledger_ok g run"
    and m: "map sq_id (b_reqs m) = map sq_id (b_reqs a) @ map sq_id (b_reqs run)"
      "b_seq_lens m = b_seq_lens a @ mixed_lens spec run" "b_orig_lens m = b_orig_lens a @ b_orig_lens run"
      "b_prefix_lens m = b_prefix_lens a @ map (\<lambda>n. n - 1) (mixed_lens spec run)"
      "b_extend_lens m = b_extend_lens a @ replicate (length (b_reqs run)) 1"
      "b_last_mask m = Some (the (b_last_mask a) @ replicate (length (b_reqs run)) True)"
  shows "ledger_ok (mixed_ledger spec ss (b_reqs run) (lg_rows g)) m"
proof -
  have G: "map sq_id (b_reqs run) = map fst (lg_rows g)" "b_seq_lens run = map row_len (lg_rows g)"
    "b_orig_lens run = map (snd \<circ> snd) (lg_rows g)" using g by (simp_all add: ledger_ok_def)
  have len: "length (lg_rows g) = length (b_reqs run)" using arg_cong [OF G(1), of length] by simp
  let ?T = "map2 (tail_row spec) (b_reqs run) (lg_rows g)"
  have L: "mixed_lens spec run = map row_len ?T"
    using tail_rows_parts(2) [OF len, of spec] G(2) by (simp add: mixed_lens_def del: map_map)
  have F: "ledger_ok (fresh_ledger ss) a" using a by (rule fresh_ledger_ok)
  then have f: "map sq_id (b_reqs a) = map fst (lg_rows (fresh_ledger ss))"
    "b_seq_lens a = map row_len (lg_rows (fresh_ledger ss))"
    "b_orig_lens a = map (snd \<circ> snd) (lg_rows (fresh_ledger ss))" by (simp_all add: ledger_ok_def)
  have t: "map fst (map last_token ?T) = map (\<lambda>n. n - 1) (map row_len ?T)"
    "map snd (map last_token ?T) = replicate (length (b_reqs run)) 1"
    using len by (simp_all add: last_token_def comp_def map_replicate_const)
  show ?thesis
    unfolding ledger_ok_def mixed_ledger_parts m L f map_append
      tail_rows_parts(1,3) [OF len] G
    using a t len by (simp add: fresh_rows_def comp_def del: map_map) (simp add: comp_def)
qed

lemma batch_ok_inputs: "batch_ok b \<Longrightarrow> length ids = length (b_reqs b) \<Longrightarrow> batch_ok (b\<lparr>b_input_ids := Some ids\<rparr>)"
  by (simp add: batch_ok_def)

lemma ledger_ok_inputs: "ledger_ok g b \<Longrightarrow> ledger_ok g (b\<lparr>b_input_ids := Some ids\<rparr>)"
  by (simp add: ledger_ok_def)

lemma reach_ok: "batch_reach ops g b \<Longrightarrow> batch_ok b \<and> ledger_ok g b"
proof (induction rule: batch_reach.induct)
  case (br_extend ss alloc replay vocab sample b)
  then show ?case using prepare_extend_rows fresh_ledger_ok by blast
next
  case (br_run g b rs)
  then show ?case using same_row_maps [OF br_run(2)]
    by (simp add: batch_ok_reqs) (simp add: ledger_ok_def)
next
  case (br_inputs g b ids)
  then show ?case by (metis (mono_tags, lifting) batch_ok_inputs ledger_ok_inputs)
next
  case (br_decode g b dalloc b')
  then have G: "ledger_ok g b" by simp
  show ?case using decode_rows [OF _ br_decode(2,3)] br_decode(4) G
    by (auto intro!: rows_ledger_ok simp: ledger_ok_def grow_row_parts)
next
  case (br_filter g b sf sm pf pm exclude b')
  then have G: "ledger_ok g b" and ok: "batch_ok b" by simp_all
  define ks where "ks = kept exclude None (b_reqs b)"
  have ne: "ks \<noteq> []"
  proof
    assume "ks = []"
    then have "b_reqs b' = []" using br_filter(3) by (auto simp: filter_batch_def ks_def [symmetric])
    then show False using br_filter(4) by simp
  qed
  have b': "batch_ok b'" "b_reqs b' = map ((!) (b_reqs b)) ks" "b_seq_lens b' = map ((!) (b_seq_lens b)) ks"
    "b_orig_lens b' = map ((!) (b_orig_lens b)) ks"
    using filter_batch_rows [where sfilter = sf and pfilter = pf, OF ok
        kept_default [of exclude "b_reqs b", folded ks_def] ks_def ne] br_filter(3) by auto
  have r: "set ks \<subseteq> {..<length (b_reqs b)}" by (auto simp: ks_def kept_def)
  have len: "length (lg_rows g) = length (b_reqs b)"
    using G by (metis ledger_ok_def length_map)
  have r': "set ks \<subseteq> {..<length (lg_rows g)}" using r len by simp
  have "map sq_id (b_reqs b') = map ((!) (map sq_id (b_reqs b))) ks" by (simp add: b'(2) map_nth_map [OF r] del: map_map)
  also have "\<dots> = map fst (map ((!) (lg_rows g)) ks)"
    using G by (simp add: ledger_ok_def map_nth_map [OF r'] del: map_map)
  finally have ids: "map sq_id (b_reqs b') = map fst (map ((!) (lg_rows g)) ks)" .
  have lens: "b_seq_lens b' = map row_len (map ((!) (lg_rows g)) ks)"
    "b_orig_lens b' = map (snd \<circ> snd) (map ((!) (lg_rows g)) ks)"
    using G by (simp_all add: b' ledger_ok_def map_nth_map [OF r'] del: map_map)
  show ?case
    using b'(1) rows_ledger_ok [OF ids lens] alive_rows_index [OF len ks_def] by simp
next
  case (br_merge g a h b sf sm pf pm m)
  then have ok: "batch_ok a" "batch_ok b" and G: "ledger_ok g a" "ledger_ok h b" by simp_all
  obtain sa sb where s: "b_sampling a = Some sa" "b_sampling b = Some sb" using ok by (auto simp: batch_ok_def)
  have sp: "b_spec a \<noteq> None \<longrightarrow> b_spec b \<noteq> None"
    using br_merge(4) by (cases "b_spec b") (auto simp: merge_batch_def res_bind_Inr res_map_def split: option.splits)
  show ?case using merge_batch_rows [OF ok sp s, of sm pm] br_merge(4) G
    by (auto intro!: rows_ledger_ok simp: ledger_ok_def)
next
  case (br_mix ss alloc replay vocab sample a g run sf sm pf pm spec rt m)
  then have r: "batch_ok run" "ledger_ok g run" by simp_all
  have a: "batch_ok a" "extend_ok a" "mask_ok a" "fresh_rows ss a"
    using prepare_extend_rows [OF br_mix(1-3)] by simp_all
  obtain la where la: "b_out_loc a = Some la" "b_seq_cpu a \<noteq> None" using a(4) by (auto simp: fresh_rows_def)
  obtain sa sr where s: "b_sampling a = Some sa" "b_sampling run = Some sr" using a(1) r(1) by (auto simp: batch_ok_def)
  have mode: "spec \<or> (b_seq_cpu run \<noteq> None \<and> b_out_loc run \<noteq> None)"
    using br_mix(7) by (cases "b_seq_cpu run"; cases "b_out_loc run")
      (auto simp: mix_with_running_def Let_def res_bind_Inr res_map_def ensure_Inr split: if_splits)
  have sp: "b_spec a \<noteq> None \<longrightarrow> b_spec run \<noteq> None"
    using br_mix(7) by (cases "b_spec run")
      (auto simp: mix_with_running_def merge_batch_def Let_def res_bind_Inr res_map_def ensure_Inr split: option.splits if_splits)
  from mix_rows [OF a(1,2) la a(3) r(1) br_mix(5) mode sp s, of sm pm rt] br_mix(7)
  have m: "batch_ok m" "map sq_id (b_reqs m) = map sq_id (b_reqs a) @ map sq_id (b_reqs run)"
      "b_seq_lens m = b_seq_lens a @ mixed_lens spec run" "b_orig_lens m = b_orig_lens a @ b_orig_lens run"
      "b_prefix_lens m = b_prefix_lens a @ map (\<lambda>n. n - 1) (mixed_lens spec run)"
      "b_extend_lens m = b_extend_lens a @ replicate (length (b_reqs run)) 1"
      "b_last_mask m = Some (the (b_last_mask a) @ replicate (length (b_reqs run)) True)"
    by auto
  show ?case using m(1) mixed_ledger_ok [OF a(4) r(2) m(2-)] by simp
next
  case (br_convert g b c)
  have "b_seq_cpu b \<noteq> None" using br_convert(2) by (cases "b_seq_cpu b") (auto simp: convert_decode_to_extend_def)
  then obtain c: "batch_ok c" "list_all2 same_row (b_reqs b) (b_reqs c)" "b_seq_lens c = b_seq_lens b"
    "b_orig_lens c = b_orig_lens b" "b_prefix_lens c = map (\<lambda>n. n - 1) (b_seq_lens b)"
    "b_extend_lens c = replicate (length (b_reqs b)) 1"
    using convert_rows [of b] br_convert(2,3) by auto
  have "length (lg_rows g) = length (b_reqs b)"
    using br_convert(3) by (metis ledger_ok_def length_map)
  then show ?case
    using c(1,3-) same_row_maps [OF c(2)] br_convert(3)
    by (simp add: ledger_ok_def last_token_def comp_def map_replicate_const)
qed

text \<open>C4. Rows stay attached to their requests, with what belongs to them: whatever extends,
  decodes, filters, merges, conversions and mixes a batch went through, its rows are those of its
  ledger.  The i-th request is the one the ledger names, the i-th cache row (on the device and on
  the host) is the one that request holds, its length and original length are the ledger's, and the
  host mirror of the lengths, when present, agrees; while the batch is an extend batch (prepared,
  converted or mixed) the prefix and extend lengths are the ledger's, and the last-chunk mask of a
  prepared or mixed batch is flag for flag the ledger's; a request that asked for logprobs finds its
  own logprob settings in its row.\<close>

theorem rows_stay_attached:
  assumes "batch_reach ops g b"
  shows "map sq_id (b_reqs b) = map fst (lg_rows g)
     \<and> b_pool b = map row_of (b_reqs b) \<and> b_pool_cpu b = map row_of (b_reqs b)
     \<and> b_seq_lens b = map (\<lambda>(n, l, oln). l) (lg_rows g) \<and> b_orig_lens b = map (\<lambda>(n, l, oln). oln) (lg_rows g)
     \<and> (b_seq_cpu b = None \<or> b_seq_cpu b = Some (b_seq_lens b))
     \<and> (\<forall>r. lg_ranges g = Some r \<longrightarrow> b_prefix_lens b = map fst r \<and> b_extend_lens b = map snd r)
     \<and> (\<forall>k. lg_flags g = Some k \<longrightarrow> b_last_mask b = Some k)
     \<and> (list_ex wants_lp (b_reqs b) \<longrightarrow>
          (\<exists>ts ks. b_top_nums b = Some ts \<and> b_token_ids b = Some ks \<and> lp_rows (b_reqs b) ts ks))"
proof -
  have f: "row_len = (\<lambda>(n, l, oln). l)" "snd \<circ> snd = (\<lambda>(n :: nat, l :: int, oln :: int). oln)"
    by (auto simp: row_len_def fun_eq_iff)
  have "batch_ok b" "ledger_ok g b" using reach_ok [OF assms] by simp_all
  then show ?thesis unfolding batch_ok_def ledger_ok_def f by (cases "b_seq_cpu b") auto
qed

definition demo_sreq :: "nat \<Rightarrow> rreq \<Rightarrow> sreq" where
  "demo_sreq n r = \<lparr>sq_id = n, sq_req = r, sq_reason = None, sq_to_finish = None, sq_grammar = False, sq_capture = CapNull,
     sq_prefill_only = False, sq_decode_idx = 0, sq_top_num = int n, sq_token_ids = None, sq_multimodal = None,
     sq_priority = None, sq_beam = None\<rparr>"

definition demo_rows :: "sreq list" where
  "demo_rows = [demo_sreq 0 (demo_extend ! 0), demo_sreq 1 ((demo_extend ! 1)\<lparr>return_logprob := True\<rparr>)]"

definition demo_alloc :: "rreq list \<Rightarrow> (kv_info list \<times> int list \<times> int list) res" where
  "demo_alloc rs = Inr (map (\<lambda>i. fresh_kv\<lparr>req_pool_idx := Some (i + 3)\<rparr>) [0..<length rs], [100, 101, 102],
     map (\<lambda>i. int (i + 3)) [0..<length rs])"

definition demo_batch :: "(sreq list, unit) sbatch" where
  "demo_batch = projr (prepare_extend False 100 demo_alloc id (init_new demo_rows))"

definition demo_keep :: "nat list \<Rightarrow> sreq list \<Rightarrow> sreq list" where
  "demo_keep ks xs = map ((!) xs) ks"

lemma demo_alloc_ok: "extend_alloc_ok demo_alloc"
  by (auto simp: extend_alloc_ok_def demo_alloc_def list_all2_conv_all_nth)

lemma demo_batch_prepared: "prepare_extend False 100 demo_alloc id (init_new demo_rows) = Inr demo_batch"
proof -
  have "\<not> Sum_Type.isl (prepare_extend False 100 demo_alloc id (init_new demo_rows :: (sreq list, unit) sbatch))"
    by code_simp
  then show ?thesis unfolding demo_batch_def
    by (cases "prepare_extend False 100 demo_alloc id (init_new demo_rows :: (sreq list, unit) sbatch)") simp_all
qed

lemma demo_admitted: "list_all (\<lambda>s. admitted (sq_req s)) demo_rows"
  by code_simp

lemma demo_prepared_ok: "batch_ok demo_batch" "extend_ok demo_batch" "mask_ok demo_batch"
  using prepare_extend_rows [OF demo_admitted demo_alloc_ok demo_batch_prepared] by simp_all

definition demo_dalloc :: "sreq list \<Rightarrow> (kv_info list \<times> int list) res" where
  "demo_dalloc rs = Inr (map (kv \<circ> sq_req) rs, map (\<lambda>_. 200) rs)"

definition demo_decoded :: "(sreq list, unit) sbatch" where
  "demo_decoded = projr (prepare_for_decode demo_dalloc None demo_batch)"

definition demo_mixed :: "(sreq list, unit) sbatch" where
  "demo_mixed = projr (mix_with_running (@) (\<lambda>_. id) False False (\<lambda>_ _. 0) demo_batch demo_decoded)"

lemma rows_stay_attached_witness:
  "map sq_id (b_reqs demo_mixed) = [0, 1, 0, 1] \<and> b_pool demo_mixed = [3, 4, 3, 4] \<and> b_seq_lens demo_mixed = [3, 1, 4, 2]
     \<and> b_prefix_lens demo_mixed = [1, 0, 3, 1] \<and> b_last_mask demo_mixed = Some [True, False, True, True]"
proof -
  let ?ops = "(demo_keep, (@), (\<lambda>_. id), (\<lambda>_. id)) :: sreq list keep_rows \<times> sreq list join_rows \<times> unit keep_rows \<times> unit join_rows"
  have "batch_reach ?ops (fresh_ledger demo_rows) demo_batch"
    by (rule br_extend [OF demo_admitted demo_alloc_ok demo_batch_prepared])
  moreover have "decode_alloc_ok demo_dalloc"
    by (auto simp: decode_alloc_ok_def demo_dalloc_def list_all2_conv_all_nth)
  moreover have "\<not> Sum_Type.isl (prepare_for_decode demo_dalloc None demo_batch)" by code_simp
  then have "prepare_for_decode demo_dalloc None demo_batch = Inr demo_decoded"
    unfolding demo_decoded_def by (cases "prepare_for_decode demo_dalloc None demo_batch") simp_all
  ultimately have run: "batch_reach ?ops (rows_ledger (map grow_row (lg_rows (fresh_ledger demo_rows)))) demo_decoded"
    by (rule br_decode)
  have ne: "b_reqs demo_decoded \<noteq> []" by code_simp
  have "\<not> Sum_Type.isl (mix_with_running (@) (\<lambda>_. id) False False (\<lambda>_ _. 0) demo_batch demo_decoded)" by code_simp
  then have "mix_with_running (@) (\<lambda>_. id) False False (\<lambda>_ _. 0) demo_batch demo_decoded = Inr demo_mixed"
    unfolding demo_mixed_def
    by (cases "mix_with_running (@) (\<lambda>_. id) False False (\<lambda>_ _. 0) demo_batch demo_decoded") simp_all
  note m = br_mix [OF demo_admitted demo_alloc_ok demo_batch_prepared run ne refl this]
  let ?g = "mixed_ledger False demo_rows (b_reqs demo_decoded)
      (lg_rows (rows_ledger (map grow_row (lg_rows (fresh_ledger demo_rows)))))"
  have g: "map fst (lg_rows ?g) = [0, 1, 0, 1]" "map (\<lambda>(n, l, oln). l) (lg_rows ?g) = [3, 1, 4, 2]"
    "map_option (map fst) (lg_ranges ?g) = Some [1, 0, 3, 1]" "lg_flags ?g = Some [True, False, True, True]"
    by code_simp+
  have "map row_of (b_reqs demo_mixed) = [3, 4, 3, 4]" by code_simp
  then show ?thesis using rows_stay_attached [OF m] g by (auto simp: map_option_case split: option.splits)
qed

definition demo_done :: "(sreq list, unit) sbatch" where
  "demo_done = demo_batch\<lparr>b_reqs := map (\<lambda>s. if sq_id s = 0 then s\<lparr>sq_reason := Some (FINISH_LENGTH 1)\<rparr> else s) (b_reqs demo_batch)\<rparr>"

lemma filter_batch_drops_rows_witness:
  "\<exists>b'. filter_batch demo_keep (\<lambda>_. id) False [] None demo_done = Inr b' \<and> map sq_id (b_reqs b') = [1]"
proof -
  have ok: "batch_ok demo_done" unfolding demo_done_def
    by (rule batch_ok_reqs [OF demo_prepared_ok(1)])
      (simp add: list_all2_conv_all_nth same_row_def row_of_def wants_lp_def)
  have "map_option length (b_sampling demo_done) = Some 2" "length (b_reqs demo_done) = 2" by code_simp+
  then obtain s where s: "b_sampling demo_done = Some s" "length s = length (b_reqs demo_done)" by auto
  have "map sq_id (filter (alive []) (b_reqs demo_done)) = [1]" by code_simp
  then show ?thesis
    using filter_batch_drops_rows [where srows = id and sfilter = demo_keep and exclude = "[]" and pfilter = "\<lambda>_. id",
        OF ok s(1)] s(2) by (auto simp: demo_keep_def)
qed

lemma merge_batch_appends_rows_witness:
  "\<exists>m. merge_batch (@) (\<lambda>_. id) False demo_batch demo_batch = Inr m \<and> batch_ok m \<and> length (b_reqs m) = 4"
proof -
  have "map_option length (b_sampling demo_batch) = Some 2" "length (b_reqs demo_batch) = 2"
    "b_spec demo_batch = None" by code_simp+
  then obtain s where s: "b_sampling demo_batch = Some s" "b_spec demo_batch = None" "length (b_reqs demo_batch) = 2" by auto
  show ?thesis
    using merge_batch_appends_rows [where srows = id and smerge = "(@)" and pmerge = "\<lambda>_. id",
        OF demo_prepared_ok(1) demo_prepared_ok(1) _ s(1) s(1)] s(2,3) by auto
qed

lemma mixed_batch_is_extend_witness:
  "\<exists>m. mix_with_running (@) (\<lambda>_. id) False False (\<lambda>_ _. 0) demo_batch demo_batch = Inr m
     \<and> map2 (+) (b_prefix_lens m) (b_extend_lens m) = b_seq_lens m \<and> length (b_reqs m) = 4"
proof -
  have e: "map_option length (b_sampling demo_batch) = Some 2" "length (b_reqs demo_batch) = 2"
    "b_spec demo_batch = None" "b_out_loc demo_batch = Some [100, 101, 102]" "b_seq_cpu demo_batch = Some [3, 1]"
    by code_simp+
  then obtain s where s: "b_sampling demo_batch = Some s" by auto
  have ne: "b_reqs demo_batch \<noteq> []" using e(2) by auto
  show ?thesis
    using mixed_batch_is_extend [where a = demo_batch and run = demo_batch and spec = False and smerge = "(@)"
        and pmerge = "\<lambda>_. id" and req_to_token = "\<lambda>_ _. 0", OF demo_prepared_ok(1,2) e(4) _ demo_prepared_ok(3,1) ne _ _ s s]
      e by auto
qed

text \<open>The last-chunk flags are the one piece of prefill state the conversion does not touch: they
  survive from the batch's life as a prefill batch, with the number of rows it had then.\<close>

lemma convert_keeps_stale_mask:
  "convert_decode_to_extend b = Inr c \<Longrightarrow> b_last_mask c = b_last_mask b"
  "filter_batch sf pf False exclude keep b = Inr b' \<Longrightarrow> b_last_mask b' = b_last_mask b"
  by (auto simp: convert_decode_to_extend_def filter_batch_def res_bind_Inr ensure_Inr Let_def split: if_splits)

text \<open>A keep list of full length is not applied, even when it permutes the rows.\<close>

lemma filter_ignores_permutation:
  "length ks = length (b_reqs b) \<Longrightarrow> ks \<noteq> [] \<Longrightarrow> filter_batch sf pf e exclude (Some ks) b = Inr b"
  by (simp add: filter_batch_def kept_def)

end
