(* ===== verification/DecodeRetract.thy ===== *)
theory DecodeRetract
  imports ScheduleBatch "HOL-Library.Product_Lexorder"
begin

text \<open>
  Making room for the next decode step (\<open>sglang-overlay/schedule_batch.py\<close>: \<open>release_req\<close>,
  \<open>retract_all\<close>, \<open>new_tokens_required_next_decode\<close>, \<open>check_decode_mem\<close>, \<open>retract_decode\<close> and the
  retraction order).  The memory state is a parameter \<open>'m\<close> with the operations the code calls on it:
  the allocator's capacity check (which may evict), the release of a request's KV, the eviction of
  cached tokens, the host backup, and the beam-group helpers.
\<close>

section \<open>The memory interface\<close>

record 'm mem_ops =
  mo_page :: int
  mo_reserve :: int
  mo_align :: "int \<Rightarrow> int \<Rightarrow> int"
  mo_spec :: bool
  mo_disagg :: bool
  mo_steps :: int
  mo_members :: "sreq list \<Rightarrow> int"
  mo_capacity :: "int \<Rightarrow> 'm \<Rightarrow> bool \<times> 'm"
  mo_hisparse :: "(rreq \<Rightarrow> 'm \<Rightarrow> 'm) option"
  mo_backup :: "rreq \<Rightarrow> 'm \<Rightarrow> bool \<times> 'm"
  mo_release :: "rreq \<Rightarrow> 'm \<Rightarrow> rreq \<times> 'm"
  mo_evict :: "int \<Rightarrow> 'm \<Rightarrow> 'm"
  mo_free_members :: "int \<Rightarrow> rreq \<Rightarrow> 'm \<Rightarrow> 'm"
  mo_beam_order :: "nat list \<Rightarrow> sreq list \<Rightarrow> nat list"

section \<open>Releasing requests\<close>

definition release_req :: "'m mem_ops \<Rightarrow> sreq \<Rightarrow> int \<Rightarrow> bool \<Rightarrow> 'm \<Rightarrow> (bool \<times> sreq \<times> 'm) res" where
  "release_req ops s remaining offload m =
     (let m = (case mo_hisparse ops of Some retract \<Rightarrow> if sq_reason s = None then retract (sq_req s) m else m
               | None \<Rightarrow> m);
          (saved, m) = (if mo_disagg ops \<and> offload then mo_backup ops (sq_req s) m else (True, m));
          (r, m) = mo_release ops (sq_req s) m;
          m = mo_evict ops (remaining * mo_steps ops) m
      in res_map (\<lambda>r. (saved, s\<lparr>sq_req := r\<rparr>, m)) (reset_for_retract r))"

fun retract_all :: "'m mem_ops \<Rightarrow> sreq list \<Rightarrow> bool \<Rightarrow> 'm \<Rightarrow> (sreq list \<times> 'm) res" where
  "retract_all ops [] offload m = Inr ([], m)"
| "retract_all ops (s # ss) offload m =
     res_bind (release_req ops s (int (length (s # ss))) offload m) (\<lambda>(saved, s', m).
     res_map (\<lambda>(ss', m). (s' # ss', m)) (retract_all ops ss offload m))"

section \<open>Tokens the next step needs\<close>

definition spec_v2_tokens :: "'m mem_ops \<Rightarrow> sreq \<Rightarrow> int" where
  "spec_v2_tokens ops s =
     (let k = kv (sq_req s);
          x = max 0 (kv_committed_len k + mo_reserve ops - kv_allocated_len k);
          cur = kv_allocated_len k; nxt = cur + x
      in mo_align ops nxt (mo_page ops) - mo_align ops cur (mo_page ops))"

definition new_tokens_required :: "'m mem_ops \<Rightarrow> sreq list \<Rightarrow> int" where
  "new_tokens_required ops ss =
     (if mo_spec ops then sum_list (map (spec_v2_tokens ops) ss)
      else int (length (filter (\<lambda>s. kv_committed_len (kv (sq_req s)) mod mo_page ops = 0) ss)) * mo_page ops
         + mo_members ops ss)"

definition check_decode_mem :: "'m mem_ops \<Rightarrow> sreq list \<Rightarrow> nat list option \<Rightarrow> 'm \<Rightarrow> (bool \<times> 'm) res" where
  "check_decode_mem ops rs sel m =
     res_map (\<lambda>ss. mo_capacity ops (new_tokens_required ops ss) m)
       (case sel of None \<Rightarrow> Inr rs | Some ks \<Rightarrow> pick ks rs)"

section \<open>The retraction order\<close>

text \<open>\<open>sort(reverse=True)\<close> keeps equal elements in order: reverse, sort, reverse.\<close>

definition sort_reverse :: "('a \<Rightarrow> 'k::linorder) \<Rightarrow> 'a list \<Rightarrow> 'a list" where
  "sort_reverse key xs = rev (sort_key key (rev xs))"

definition length_key :: "sreq \<Rightarrow> int \<times> int" where
  "length_key s = (int (length (out_ids (sq_req s))), - int (length (origin_input_ids (sq_req s))))"

definition retraction_key :: "bool \<Rightarrow> sreq \<Rightarrow> int \<times> int \<times> int" where
  "retraction_key low_first s =
     (let sign = (if low_first then 1 else -1);
          p = (case sq_priority s of Some p \<Rightarrow> p | None \<Rightarrow> if low_first then 2 ^ 63 - 1 else - (2 ^ 63 - 1) - 1)
      in (p * (- sign), length_key s))"

text \<open>\<open>policy\<close> is \<open>None\<close> for the length policy and \<open>Some low_first\<close> for the priority policy.\<close>

definition decode_retraction_order :: "bool option \<Rightarrow> sreq list \<Rightarrow> nat list" where
  "decode_retraction_order policy rs =
     (case policy of
        Some low_first \<Rightarrow> sort_reverse (\<lambda>i. retraction_key low_first (rs ! i)) [0..<length rs]
      | None \<Rightarrow> sort_reverse (\<lambda>i. length_key (rs ! i)) [0..<length rs])"

section \<open>Retraction\<close>

record 'm rstate =
  rs_order :: "nat list"
  rs_reqs :: "sreq list"
  rs_retracted :: "nat list"
  rs_abort :: "nat list"
  rs_mem :: 'm

definition beam_abort :: finish_reason where
  "beam_abort = FINISH_ABORT ''Beam search group aborted: KV cache pool is full. Beam groups cannot be retracted, so they are aborted instead of being requeued.''"

definition host_abort :: finish_reason where
  "host_abort = FINISH_ABORT ''Retraction host KV pool exhausted. Aborting the request.''"

definition oom_abort :: finish_reason where
  "oom_abort = FINISH_ABORT ''Out of memory even after retracting all other requests in the decode batch. Aborting the last request.''"

definition free_beam :: "'m mem_ops \<Rightarrow> sreq \<Rightarrow> 'm \<Rightarrow> 'm" where
  "free_beam ops s m = (case sq_beam s of None \<Rightarrow> m | Some g \<Rightarrow> mo_free_members ops g (sq_req s) m)"

text \<open>Pop the least preferred request and release it.\<close>

definition retract_one :: "'m mem_ops \<Rightarrow> 'm rstate \<Rightarrow> 'm rstate res" where
  "retract_one ops st =
     (if rs_order st = [] then Inl IndexError
      else let idx = last (rs_order st); st = st\<lparr>rs_order := butlast (rs_order st)\<rparr>
      in if idx \<ge> length (rs_reqs st) then Inl IndexError
      else let s = rs_reqs st ! idx; n = int (length (rs_order st))
      in if sq_beam s \<noteq> None
         then let s = s\<lparr>sq_to_finish := Some beam_abort\<rparr>
              in res_map (\<lambda>(_, s, m). st\<lparr>rs_reqs := (rs_reqs st)[idx := s], rs_abort := rs_abort st @ [idx], rs_mem := m\<rparr>)
                   (release_req ops s n False (free_beam ops s (rs_mem st)))
         else res_map (\<lambda>(saved, s, m).
                if saved then st\<lparr>rs_reqs := (rs_reqs st)[idx := s], rs_retracted := rs_retracted st @ [idx], rs_mem := m\<rparr>
                else st\<lparr>rs_reqs := (rs_reqs st)[idx := s\<lparr>sq_to_finish := Some host_abort\<rparr>],
                        rs_abort := rs_abort st @ [idx], rs_mem := m\<rparr>)
              (release_req ops s n True (rs_mem st)))"

lemma retract_one_order: "retract_one ops st = Inr st' \<Longrightarrow> rs_order st \<noteq> [] \<and> rs_order st' = butlast (rs_order st)"
  by (auto simp: retract_one_def Let_def res_map_Inr split: if_splits)

text \<open>The loop: the first pass retracts without asking, later ones stop when the rest fits; one
  request always stays.\<close>

function retract_loop :: "'m mem_ops \<Rightarrow> bool \<Rightarrow> 'm rstate \<Rightarrow> 'm rstate res" where
  "retract_loop ops first_iter st =
     (case (if first_iter then Inr (False, rs_mem st)
            else check_decode_mem ops (rs_reqs st) (Some (rs_order st)) (rs_mem st)) of
        Inl e \<Rightarrow> Inl e
      | Inr (fits, m) \<Rightarrow>
          if fits \<or> length (rs_order st) = 1 then Inr (st\<lparr>rs_mem := m\<rparr>)
          else case retract_one ops (st\<lparr>rs_mem := m\<rparr>) of
                 Inl e \<Rightarrow> Inl e
               | Inr st' \<Rightarrow> retract_loop ops False st')"
  by auto
termination
  by (relation "measure (\<lambda>(ops, first_iter, st). length (rs_order st))") (auto dest!: retract_one_order)

declare retract_loop.simps [simp del]

definition abort_last :: "'m mem_ops \<Rightarrow> 'm rstate \<Rightarrow> 'm rstate res" where
  "abort_last ops st =
     (if rs_order st = [] then Inl IndexError
      else let idx = last (rs_order st); st = st\<lparr>rs_order := butlast (rs_order st)\<rparr>
      in if idx \<ge> length (rs_reqs st) then Inl IndexError
      else let s = (rs_reqs st ! idx)\<lparr>sq_to_finish := Some oom_abort\<rparr>
      in res_map (\<lambda>(_, s, m). st\<lparr>rs_reqs := (rs_reqs st)[idx := s], rs_abort := rs_abort st @ [idx], rs_mem := m\<rparr>)
           (release_req ops s 0 False (free_beam ops s (rs_mem st))))"

definition retract_requests :: "'m mem_ops \<Rightarrow> bool option \<Rightarrow> sreq list \<Rightarrow> 'm \<Rightarrow> 'm rstate res" where
  "retract_requests ops policy rs m =
     res_bind (retract_loop ops True
        \<lparr>rs_order = mo_beam_order ops (decode_retraction_order policy rs) rs, rs_reqs = rs,
         rs_retracted = [], rs_abort = [], rs_mem = m\<rparr>) (\<lambda>st.
      if length (rs_order st) \<le> 1
      then res_bind (check_decode_mem ops (rs_reqs st) (Some (rs_order st)) (rs_mem st)) (\<lambda>(fits, m).
             if fits then Inr (st\<lparr>rs_mem := m\<rparr>) else abort_last ops (st\<lparr>rs_mem := m\<rparr>))
      else Inr st)"

text \<open>\<open>retract_decode\<close>: the retracted requests, the ones to abort, and the batch without them.\<close>

definition retract_decode ::
    "'m mem_ops \<Rightarrow> 's keep_rows \<Rightarrow> 'p keep_rows \<Rightarrow> bool option \<Rightarrow> ('s, 'p) sbatch \<Rightarrow> 'm
      \<Rightarrow> (sreq list \<times> sreq list \<times> ('s, 'p) sbatch \<times> 'm) res" where
  "retract_decode ops sfilter pfilter policy b m =
     res_bind (retract_requests ops policy (b_reqs b) m) (\<lambda>st.
     res_bind (filter_batch sfilter pfilter False [] (Some (rs_order st)) (b\<lparr>b_reqs := rs_reqs st\<rparr>)) (\<lambda>b'.
     Inr (map ((!) (rs_reqs st)) (rs_retracted st), map ((!) (rs_reqs st)) (rs_abort st), b', rs_mem st)))"

section \<open>Retraction makes room\<close>

text \<open>What is asked of the parameters: a release frees the request's row, and the beam policy only
  reorders.\<close>

definition mem_ok :: "'m mem_ops \<Rightarrow> bool" where
  "mem_ok ops \<longleftrightarrow> (\<forall>r m. req_pool_idx (kv (fst (mo_release ops r m))) = None)
     \<and> (\<forall>xs rs. distinct xs \<longrightarrow> distinct (mo_beam_order ops xs rs) \<and> set (mo_beam_order ops xs rs) = set xs)"

definition released :: "sreq \<Rightarrow> bool" where
  "released s \<longleftrightarrow> req_pool_idx (kv (sq_req s)) = None \<and> extend_range (sq_req s) = None
     \<and> is_retracted (sq_req s) \<and> prefix_indices (sq_req s) = []"

definition rinv :: "sreq list \<Rightarrow> 'm rstate \<Rightarrow> bool" where
  "rinv rs st \<longleftrightarrow> distinct (rs_order st @ rs_retracted st @ rs_abort st)
     \<and> set (rs_order st @ rs_retracted st @ rs_abort st) = {..<length rs} \<and> length (rs_reqs st) = length rs
     \<and> (\<forall>i \<in> set (rs_order st). rs_reqs st ! i = rs ! i)
     \<and> (\<forall>i \<in> set (rs_retracted st). released (rs_reqs st ! i) \<and> sq_to_finish (rs_reqs st ! i) = sq_to_finish (rs ! i))
     \<and> (\<forall>i \<in> set (rs_abort st). released (rs_reqs st ! i) \<and> sq_to_finish (rs_reqs st ! i) \<noteq> None)"

lemma reset_ok:
  "req_pool_idx (kv r) = None \<Longrightarrow> \<exists>r'. reset_for_retract r = Inr r' \<and> req_pool_idx (kv r') = None
     \<and> extend_range r' = None \<and> is_retracted r' \<and> prefix_indices r' = []"
  by (simp add: reset_for_retract_def Let_def)

lemma release_req_ok:
  assumes "mem_ok ops"
  shows "\<exists>saved s' m'. release_req ops s n offload m = Inr (saved, s', m') \<and> released s' \<and> sq_to_finish s' = sq_to_finish s"
proof -
  define m0 where "m0 = (case mo_hisparse ops of Some retract \<Rightarrow> if sq_reason s = None then retract (sq_req s) m else m
     | None \<Rightarrow> m)"
  define b where "b = (if mo_disagg ops \<and> offload then mo_backup ops (sq_req s) m0 else (True, m0))"
  define r where "r = fst (mo_release ops (sq_req s) (snd b))"
  have "req_pool_idx (kv r) = None" using assms by (simp add: mem_ok_def r_def)
  then obtain r' where r': "reset_for_retract r = Inr r'" "req_pool_idx (kv r') = None" "extend_range r' = None"
    "is_retracted r'" "prefix_indices r' = []" using reset_ok by blast
  have "release_req ops s n offload m = Inr (fst b, s\<lparr>sq_req := r'\<rparr>,
      mo_evict ops (n * mo_steps ops) (snd (mo_release ops (sq_req s) (snd b))))"
    unfolding release_req_def m0_def [symmetric] Let_def b_def [symmetric]
    using r'(1) by (simp add: split_beta r_def res_map_def)
  then show ?thesis using r' by (simp add: released_def)
qed

lemma rinv_pop_facts:
  assumes "rinv rs st" "rs_order st = ys @ [x]"
  shows "x < length (rs_reqs st)" "x \<notin> set ys" "x \<notin> set (rs_retracted st)" "x \<notin> set (rs_abort st)"
    and "distinct (ys @ rs_retracted st @ rs_abort st)"
    and "insert x (set (ys @ rs_retracted st @ rs_abort st)) = {..<length rs}"
  using assms by (auto simp: rinv_def)

lemma rinv_retracted:
  assumes "rinv rs st" "rs_order st = ys @ [x]" "released s'" "sq_to_finish s' = sq_to_finish (rs ! x)"
  shows "rinv rs (st\<lparr>rs_order := ys, rs_reqs := (rs_reqs st)[x := s'], rs_retracted := rs_retracted st @ [x], rs_mem := m\<rparr>)"
proof -
  note f = rinv_pop_facts [OF assms(1,2)]
  let ?st = "st\<lparr>rs_order := ys, rs_reqs := (rs_reqs st)[x := s'], rs_retracted := rs_retracted st @ [x], rs_mem := m\<rparr>"
  have own: "(rs_reqs st)[x := s'] ! x = s'" using f(1) by simp
  have old: "length (rs_reqs st) = length rs" "\<forall>i \<in> set (rs_order st). rs_reqs st ! i = rs ! i"
    "\<forall>i \<in> set (rs_retracted st). released (rs_reqs st ! i) \<and> sq_to_finish (rs_reqs st ! i) = sq_to_finish (rs ! i)"
    "\<forall>i \<in> set (rs_abort st). released (rs_reqs st ! i) \<and> sq_to_finish (rs_reqs st ! i) \<noteq> None"
    using assms(1) by (simp_all add: rinv_def)
  show ?thesis unfolding rinv_def
  proof (intro conjI ballI)
    show "length (rs_reqs ?st) = length rs" using old(1) by simp
  next
    fix i assume "i \<in> set (rs_order ?st)"
    then show "rs_reqs ?st ! i = rs ! i" using old(2) f(2) assms(2) by (cases "i = x") auto
  next
    fix i assume i: "i \<in> set (rs_retracted ?st)"
    then show "released (rs_reqs ?st ! i)" using old(3) own assms(3) f(3) by (cases "i = x") auto
    show "sq_to_finish (rs_reqs ?st ! i) = sq_to_finish (rs ! i)" using i old(3) own assms(4) f(3) by (cases "i = x") auto
  next
    fix i assume i: "i \<in> set (rs_abort ?st)"
    then show "released (rs_reqs ?st ! i)" using old(4) own assms(3) f(4) by (cases "i = x") auto
    show "sq_to_finish (rs_reqs ?st ! i) \<noteq> None" using i old(4) own assms(4) f(4) by (cases "i = x") auto
  qed (use f in auto)
qed

lemma rinv_abort:
  assumes "rinv rs st" "rs_order st = ys @ [x]" "released s'" "sq_to_finish s' \<noteq> None"
  shows "rinv rs (st\<lparr>rs_order := ys, rs_reqs := (rs_reqs st)[x := s'], rs_abort := rs_abort st @ [x], rs_mem := m\<rparr>)"
proof -
  note f = rinv_pop_facts [OF assms(1,2)]
  let ?st = "st\<lparr>rs_order := ys, rs_reqs := (rs_reqs st)[x := s'], rs_abort := rs_abort st @ [x], rs_mem := m\<rparr>"
  have own: "(rs_reqs st)[x := s'] ! x = s'" using f(1) by simp
  have old: "length (rs_reqs st) = length rs" "\<forall>i \<in> set (rs_order st). rs_reqs st ! i = rs ! i"
    "\<forall>i \<in> set (rs_retracted st). released (rs_reqs st ! i) \<and> sq_to_finish (rs_reqs st ! i) = sq_to_finish (rs ! i)"
    "\<forall>i \<in> set (rs_abort st). released (rs_reqs st ! i) \<and> sq_to_finish (rs_reqs st ! i) \<noteq> None"
    using assms(1) by (simp_all add: rinv_def)
  show ?thesis unfolding rinv_def
  proof (intro conjI ballI)
    show "length (rs_reqs ?st) = length rs" using old(1) by simp
  next
    fix i assume "i \<in> set (rs_order ?st)"
    then show "rs_reqs ?st ! i = rs ! i" using old(2) f(2) assms(2) by (cases "i = x") auto
  next
    fix i assume i: "i \<in> set (rs_retracted ?st)"
    then show "released (rs_reqs ?st ! i)" using old(3) own assms(3) f(3) by (cases "i = x") auto
    show "sq_to_finish (rs_reqs ?st ! i) = sq_to_finish (rs ! i)" using i old(3) own assms(4) f(3) by (cases "i = x") auto
  next
    fix i assume i: "i \<in> set (rs_abort ?st)"
    then show "released (rs_reqs ?st ! i)" using old(4) own assms(3) f(4) by (cases "i = x") auto
    show "sq_to_finish (rs_reqs ?st ! i) \<noteq> None" using i old(4) own assms(4) f(4) by (cases "i = x") auto
  qed (use f in auto)
qed

lemma rinv_mem: "rinv rs (st\<lparr>rs_mem := m\<rparr>) = rinv rs st"
  by (simp add: rinv_def)

lemma released_finish [simp]: "released (s\<lparr>sq_to_finish := f\<rparr>) = released s"
  by (simp add: released_def)

lemma retract_one_ok:
  assumes ops: "mem_ok ops" and inv: "rinv rs st" and ne: "rs_order st \<noteq> []"
  shows "\<exists>st'. retract_one ops st = Inr st' \<and> rinv rs st'"
proof -
  obtain ys x where o: "rs_order st = ys @ [x]" using ne by (metis append_butlast_last_id)
  have x: "x < length (rs_reqs st)" "rs_reqs st ! x = rs ! x" using inv o by (auto simp: rinv_def)
  show ?thesis
  proof (cases "sq_beam (rs ! x) = None")
    case False
    obtain saved s' m' where r: "release_req ops ((rs ! x)\<lparr>sq_to_finish := Some beam_abort\<rparr>) (int (length ys)) False
        (free_beam ops ((rs ! x)\<lparr>sq_to_finish := Some beam_abort\<rparr>) (rs_mem st)) = Inr (saved, s', m')"
      "released s'" "sq_to_finish s' = Some beam_abort"
      using release_req_ok [OF ops, of "(rs ! x)\<lparr>sq_to_finish := Some beam_abort\<rparr>"] by fastforce
    then show ?thesis using False x rinv_abort [OF inv o r(2), of m'] by (simp add: retract_one_def o res_map_def)
  next
    case True
    obtain saved s' m' where r: "release_req ops (rs ! x) (int (length ys)) True (rs_mem st) = Inr (saved, s', m')"
      "released s'" "sq_to_finish s' = sq_to_finish (rs ! x)" using release_req_ok [OF ops] by blast
    then show ?thesis
      using True x rinv_retracted [OF inv o r(2,3), of m'] rinv_abort [OF inv o, of "s'\<lparr>sq_to_finish := Some host_abort\<rparr>" m']
      by (cases saved) (simp_all add: retract_one_def o res_map_def)
  qed
qed

lemma check_some:
  assumes "set ks \<subseteq> {..<length rs}"
  shows "check_decode_mem ops rs (Some ks) m = Inr (mo_capacity ops (new_tokens_required ops (map ((!) rs) ks)) m)"
  using assms by (simp add: check_decode_mem_def pick_eq res_map_def)

lemma rinv_order: "rinv rs st \<Longrightarrow> set (rs_order st) \<subseteq> {..<length (rs_reqs st)}"
  by (auto simp: rinv_def)

definition fits_now :: "'m mem_ops \<Rightarrow> 'm rstate \<Rightarrow> bool" where
  "fits_now ops st \<longleftrightarrow> (\<exists>m. check_decode_mem ops (rs_reqs st) (Some (rs_order st)) m = Inr (True, rs_mem st))"

lemma retract_loop_ok:
  "mem_ok ops \<Longrightarrow> rinv rs st \<Longrightarrow> rs_order st \<noteq> [] \<Longrightarrow> \<exists>st' ys. retract_loop ops f st = Inr st' \<and> rinv rs st' \<and> rs_order st' \<noteq> []
     \<and> rs_order st = rs_order st' @ ys \<and> (length (rs_order st') \<noteq> 1 \<longrightarrow> fits_now ops st')"
proof (induction ops f st rule: retract_loop.induct)
  case (1 ops f st)
  note prems = 1(2-4)
  define c where "c = (if f then (False, rs_mem st)
     else mo_capacity ops (new_tokens_required ops (map ((!) (rs_reqs st)) (rs_order st))) (rs_mem st))"
  have c: "(if f then Inr (False, rs_mem st) else check_decode_mem ops (rs_reqs st) (Some (rs_order st)) (rs_mem st)) = Inr c"
    using rinv_order [OF prems(2)] by (simp add: c_def check_some)
  obtain fits m where fm: "c = (fits, m)" by fastforce
  show ?case
  proof (cases "fits \<or> length (rs_order st) = 1")
    case True
    then have "retract_loop ops f st = Inr (st\<lparr>rs_mem := m\<rparr>)"
      by (subst retract_loop.simps) (simp only: c fm sum.case prod.case if_True)
    moreover have "fits_now ops (st\<lparr>rs_mem := m\<rparr>)" if "length (rs_order st) \<noteq> 1"
      using True that c fm unfolding fits_now_def by (cases f) (auto simp: c_def)
    ultimately show ?thesis using prems by (auto simp: rinv_mem)
  next
    case False
    obtain st1 where st1: "retract_one ops (st\<lparr>rs_mem := m\<rparr>) = Inr st1" "rinv rs st1"
      using retract_one_ok [OF prems(1), of rs "st\<lparr>rs_mem := m\<rparr>"] prems(2,3) by (auto simp: rinv_mem)
    have o: "rs_order st1 = butlast (rs_order st)" using retract_one_order [OF st1(1)] by simp
    have ne: "rs_order st1 \<noteq> []"
    proof
      assume "rs_order st1 = []"
      then have "length (rs_order st) = 1"
        using o prems(3) by (metis append_butlast_last_id append_self_conv2 length_Cons list.size(3) One_nat_def)
      then show False using False by simp
    qed
    obtain st' ys where r: "retract_loop ops False st1 = Inr st'" "rinv rs st'" "rs_order st' \<noteq> []"
      "rs_order st1 = rs_order st' @ ys" "length (rs_order st') \<noteq> 1 \<longrightarrow> fits_now ops st'"
      using "1.IH" [OF c fm [symmetric] False st1(1) prems(1) st1(2) ne] by blast
    have "retract_loop ops f st = Inr st'"
      using False r(1) by (subst retract_loop.simps) (simp only: c fm sum.case prod.case if_False st1(1))
    moreover have "rs_order st = rs_order st' @ (ys @ [last (rs_order st)])"
      using o r(4) prems(3) by (metis append_assoc append_butlast_last_id)
    ultimately show ?thesis using r(2,3,5) by blast
  qed
qed

section \<open>The order\<close>

lemma sort_reverse_props:
  "set (sort_reverse key xs) = set xs" "distinct xs \<Longrightarrow> distinct (sort_reverse key xs)"
  by (simp_all add: sort_reverse_def distinct_sort)

lemma sort_reverse_desc: "sorted_wrt (\<lambda>x y. key y \<le> key x) (sort_reverse key xs)"
proof -
  have "sorted_wrt (\<lambda>x y. key x \<le> key y) (sort_key key (rev xs))"
    using sorted_sort_key [of key "rev xs"] by (simp add: sorted_map)
  then show ?thesis by (simp add: sort_reverse_def sorted_wrt_rev)
qed

definition keep_key :: "bool option \<Rightarrow> sreq \<Rightarrow> int \<times> int \<times> int" where
  "keep_key policy s = (case policy of Some low_first \<Rightarrow> retraction_key low_first s | None \<Rightarrow> (0, length_key s))"

lemma order_props:
  "set (decode_retraction_order policy rs) = {..<length rs}" "distinct (decode_retraction_order policy rs)"
  "sorted_wrt (\<lambda>i j. keep_key policy (rs ! j) \<le> keep_key policy (rs ! i)) (decode_retraction_order policy rs)"
proof -
  show "set (decode_retraction_order policy rs) = {..<length rs}" "distinct (decode_retraction_order policy rs)"
    by (cases policy; auto simp: decode_retraction_order_def sort_reverse_props)+
  show "sorted_wrt (\<lambda>i j. keep_key policy (rs ! j) \<le> keep_key policy (rs ! i)) (decode_retraction_order policy rs)"
  proof (cases policy)
    case None
    then show ?thesis
      using sort_reverse_desc [of "\<lambda>i. length_key (rs ! i)" "[0..<length rs]"]
      by (simp add: decode_retraction_order_def keep_key_def)
  next
    case (Some low)
    then show ?thesis
      using sort_reverse_desc [of "\<lambda>i. retraction_key low (rs ! i)" "[0..<length rs]"]
      by (simp add: decode_retraction_order_def keep_key_def)
  qed
qed

lemma retract_requests_ok:
  assumes ops: "mem_ok ops" and ne: "rs \<noteq> []"
  shows "\<exists>st ys. retract_requests ops policy rs m = Inr st \<and> rinv rs st
     \<and> mo_beam_order ops (decode_retraction_order policy rs) rs = rs_order st @ ys
     \<and> (if rs_order st = [] then \<exists>i. rs_abort st = butlast (rs_abort st) @ [i] \<and> sq_to_finish (rs_reqs st ! i) = Some oom_abort
        else fits_now ops st)"
proof -
  let ?order = "mo_beam_order ops (decode_retraction_order policy rs) rs"
  let ?st0 = "\<lparr>rs_order = ?order, rs_reqs = rs, rs_retracted = [], rs_abort = [], rs_mem = m\<rparr>"
  have o: "set ?order = {..<length rs}" "distinct ?order"
    using ops order_props(1,2) [of policy rs] by (simp_all add: mem_ok_def)
  then have inv: "rinv rs ?st0" by (simp add: rinv_def)
  have "?order \<noteq> []" using o(1) ne by (cases ?order) auto
  then have "\<exists>st ys. retract_loop ops True ?st0 = Inr st \<and> rinv rs st \<and> rs_order st \<noteq> []
     \<and> ?order = rs_order st @ ys \<and> (length (rs_order st) \<noteq> 1 \<longrightarrow> fits_now ops st)"
    using retract_loop_ok [OF ops inv, of True] by simp
  then obtain st ys where st: "retract_loop ops True ?st0 = Inr st" "rinv rs st" "rs_order st \<noteq> []"
    "?order = rs_order st @ ys" "length (rs_order st) \<noteq> 1 \<longrightarrow> fits_now ops st" by blast
  define c where "c = mo_capacity ops (new_tokens_required ops (map ((!) (rs_reqs st)) (rs_order st))) (rs_mem st)"
  have c: "check_decode_mem ops (rs_reqs st) (Some (rs_order st)) (rs_mem st) = Inr c"
    using rinv_order [OF st(2)] by (simp add: c_def check_some)
  obtain fits m' where fm: "c = (fits, m')" by fastforce
  show ?thesis
  proof (cases "length (rs_order st) = 1 \<and> \<not> fits")
    case False
    show ?thesis
    proof (cases "length (rs_order st) = 1")
      case True
      then have "retract_requests ops policy rs m = Inr (st\<lparr>rs_mem := m'\<rparr>)"
        using False st(1) c fm by (simp add: retract_requests_def)
      moreover have "fits_now ops (st\<lparr>rs_mem := m'\<rparr>)" using True False c fm by (auto simp: fits_now_def)
      ultimately show ?thesis using st by (auto simp: rinv_mem)
    next
      case False
      then have "\<not> length (rs_order st) \<le> 1" using st(3) by (cases "rs_order st") auto
      then show ?thesis using st False by (auto simp: retract_requests_def)
    qed
  next
    case True
    then obtain x where x: "rs_order st = [x]" by (metis One_nat_def length_0_conv length_Suc_conv)
    let ?s = "(rs ! x)\<lparr>sq_to_finish := Some oom_abort\<rparr>"
    have xr: "x < length (rs_reqs st)" "rs_reqs st ! x = rs ! x" using st(2) x by (auto simp: rinv_def)
    obtain saved s' m2 where r: "release_req ops ?s 0 False (free_beam ops ?s m') = Inr (saved, s', m2)"
      "released s'" "sq_to_finish s' = Some oom_abort" using release_req_ok [OF ops, of ?s] by fastforce
    let ?st = "st\<lparr>rs_order := [], rs_reqs := (rs_reqs st)[x := s'], rs_abort := rs_abort st @ [x], rs_mem := m2\<rparr>"
    have "retract_requests ops policy rs m = Inr ?st"
      using True st(1) c fm x xr r(1) by (simp add: retract_requests_def abort_last_def res_map_def)
    moreover have "rinv rs ?st" using rinv_abort [OF st(2), of "[]" x s' m2] x r(2,3) by simp
    ultimately show ?thesis using st(4) xr(1) r(3) x by (intro exI [of _ ?st]) simp
  qed
qed

text \<open>C10. Retraction never fails and accounts for every request: the batch is split without overlap
  into requests that stay untouched, requests that were released and go back to the queue, and
  requests that were released and will be aborted; and either the ones that stay fit in memory by the
  allocator's own check, or none stays because even the last one had to be aborted.\<close>

theorem retraction_makes_room:
  assumes "mem_ok ops" "rs \<noteq> []"
  shows "\<exists>st. retract_requests ops policy rs m = Inr st \<and> rinv rs st
     \<and> (if rs_order st = []
        then \<exists>i. i \<in> set (rs_abort st) \<and> sq_to_finish (rs_reqs st ! i) = Some oom_abort
        else \<exists>m0. mo_capacity ops (new_tokens_required ops (map ((!) (rs_reqs st)) (rs_order st))) m0 = (True, rs_mem st))"
proof -
  obtain st ys where st: "retract_requests ops policy rs m = Inr st" "rinv rs st"
    "if rs_order st = [] then \<exists>i. rs_abort st = butlast (rs_abort st) @ [i] \<and> sq_to_finish (rs_reqs st ! i) = Some oom_abort
        else fits_now ops st"
    using retract_requests_ok [OF assms, of policy m] by blast
  have "i \<in> set (rs_abort st)" if "rs_abort st = butlast (rs_abort st) @ [i]" for i
    using that by (metis in_set_conv_decomp)
  moreover have "\<exists>m0. mo_capacity ops (new_tokens_required ops (map ((!) (rs_reqs st)) (rs_order st))) m0 = (True, rs_mem st)"
    if "fits_now ops st"
    using that check_some [OF rinv_order [OF st(2)], of ops] unfolding fits_now_def by auto
  ultimately show ?thesis using st by (auto split: if_splits)
qed

text \<open>Retraction takes the least preferred requests: no request that stays has a smaller key
  than one that was released, where the key is the priority (unset counts as least) under the
  priority policy, then the output length, then the shorter prompt.\<close>

theorem retraction_takes_least_preferred:
  assumes "mem_ok ops" "rs \<noteq> []" "\<And>xs rs. mo_beam_order ops xs rs = xs"
    and "retract_requests ops policy rs m = Inr st"
    and "i \<in> set (rs_order st)" "j \<in> set (rs_retracted st) \<union> set (rs_abort st)"
  shows "keep_key policy (rs ! j) \<le> keep_key policy (rs ! i)"
proof -
  obtain ys where st: "rinv rs st" "decode_retraction_order policy rs = rs_order st @ ys"
    using retract_requests_ok [OF assms(1,2), of policy m] assms(3,4) by auto
  have "j \<in> set ys"
    using assms(6) st order_props(1) [of policy rs] by (auto simp: rinv_def)
  then show ?thesis
    using order_props(3) [of policy rs] assms(5) unfolding st(2) by (auto simp: sorted_wrt_append)
qed

section \<open>The batch after a retraction\<close>

lemma pick_agree:
  "length xs = length ys \<Longrightarrow> \<forall>i \<in> set ks. xs ! i = ys ! i \<Longrightarrow> pick ks xs = pick ks ys"
  unfolding pick_def by (rule res_list_cong) auto

lemma filter_batch_agree:
  assumes "length rs = length (b_reqs b)" "\<forall>i \<in> set ks. rs ! i = b_reqs b ! i" "length ks \<noteq> length (b_reqs b)" "ks \<noteq> []"
  shows "filter_batch sf pf e exclude (Some ks) (b\<lparr>b_reqs := rs\<rparr>) = filter_batch sf pf e exclude (Some ks) b"
  using assms(1,3,4) pick_agree [OF assms(1,2)]
  by (simp add: filter_batch_def kept_def Let_def cong: if_cong)

text \<open>C30. After a retraction the batch is sound: it holds only requests it held before, untouched,
  its arrays are in step with them, every retracted request has given up its cache row and waits
  for a new round, and every request to abort carries the reason it will finish with.\<close>

theorem retracted_batch_sound:
  assumes ops: "mem_ok ops" and ok: "batch_ok b" and ne: "b_reqs b \<noteq> []"
  shows "\<exists>rt ab b' m'. retract_decode ops sfilter pfilter policy b m = Inr (rt, ab, b', m')
     \<and> set (b_reqs b') \<subseteq> set (b_reqs b) \<and> length (b_reqs b') + length rt + length ab = length (b_reqs b)
     \<and> (b_reqs b' \<noteq> [] \<longrightarrow> batch_ok b') \<and> list_all released rt \<and> list_all (\<lambda>s. released s \<and> sq_to_finish s \<noteq> None) ab"
proof -
  obtain st ys where st: "retract_requests ops policy (b_reqs b) m = Inr st" "rinv (b_reqs b) st"
    using retract_requests_ok [OF ops ne, of policy m] by blast
  let ?n = "length (b_reqs b)" and ?ks = "rs_order st"
  have inv: "distinct (?ks @ rs_retracted st @ rs_abort st)" "set (?ks @ rs_retracted st @ rs_abort st) = {..<?n}"
    "length (rs_reqs st) = ?n" "\<forall>i \<in> set ?ks. rs_reqs st ! i = b_reqs b ! i"
    "\<forall>i \<in> set (rs_retracted st). released (rs_reqs st ! i)"
    "\<forall>i \<in> set (rs_abort st). released (rs_reqs st ! i) \<and> sq_to_finish (rs_reqs st ! i) \<noteq> None"
    using st(2) by (simp_all add: rinv_def)
  have len: "length ?ks + length (rs_retracted st) + length (rs_abort st) = ?n"
    using distinct_card [OF inv(1)] inv(2) by simp
  have ks: "set ?ks \<subseteq> {..<?n}" using inv(2) by auto
  have "\<exists>b'. filter_batch sfilter pfilter False [] (Some ?ks) (b\<lparr>b_reqs := rs_reqs st\<rparr>) = Inr b'
     \<and> set (b_reqs b') \<subseteq> set (b_reqs b) \<and> length (b_reqs b') = length ?ks \<and> (b_reqs b' \<noteq> [] \<longrightarrow> batch_ok b')"
  proof (cases "?ks = []")
    case True
    then show ?thesis by (simp add: filter_batch_def kept_def)
  next
    case False
    show ?thesis
    proof (cases "length ?ks = ?n")
      case True
      then have "rs_retracted st = []" "rs_abort st = []" using len by simp_all
      then have "i < ?n \<Longrightarrow> rs_reqs st ! i = b_reqs b ! i" for i using inv(2,4) by auto
      then have "rs_reqs st = b_reqs b" using inv(3) by (simp add: nth_equalityI)
      then show ?thesis using True ok False by (simp add: filter_ignores_permutation)
    next
      case short: False
      have k: "keeps ?ks ?n" using ks short by (simp add: keeps_def)
      obtain b' where b': "filter_batch sfilter pfilter False [] (Some ?ks) b = Inr b'" "batch_ok b'"
        "b_reqs b' = map ((!) (b_reqs b)) ?ks"
        using filter_batch_rows [OF ok k, of "[]" "Some ?ks" sfilter pfilter] False by (auto simp: kept_def)
      moreover have "set (map ((!) (b_reqs b)) ?ks) \<subseteq> set (b_reqs b)" using ks by auto
      ultimately show ?thesis using filter_batch_agree [OF inv(3,4) short False] by simp
    qed
  qed
  then obtain b' where b': "filter_batch sfilter pfilter False [] (Some ?ks) (b\<lparr>b_reqs := rs_reqs st\<rparr>) = Inr b'"
    "set (b_reqs b') \<subseteq> set (b_reqs b)" "length (b_reqs b') = length ?ks" "b_reqs b' \<noteq> [] \<longrightarrow> batch_ok b'" by blast
  have "retract_decode ops sfilter pfilter policy b m
      = Inr (map ((!) (rs_reqs st)) (rs_retracted st), map ((!) (rs_reqs st)) (rs_abort st), b', rs_mem st)"
    using st(1) b'(1) by (simp add: retract_decode_def)
  then show ?thesis using b'(2-4) len inv(5,6) by (auto simp: list_all_iff)
qed

section \<open>The tokens a step needs\<close>

definition ceil_to :: "int \<Rightarrow> int \<Rightarrow> int" where
  "ceil_to x p = - ((- x) div p) * p"

lemma ceil_to_step:
  assumes "0 < p"
  shows "ceil_to (c + 1) p - ceil_to c p = (if c mod p = 0 then p else 0)"
proof -
  have "(- (c + 1)) div p = (- c) div p - (if c mod p = 0 then 1 else 0)"
  proof (cases "c mod p = 0")
    case True
    then obtain k where k: "c = p * k" by auto
    have "- (c + 1) = - 1 + p * (- k)" by (simp add: k)
    then have "(- (c + 1)) div p = (- 1 + p * (- k)) div p" by (rule arg_cong)
    also have "\<dots> = - k - 1" using assms by (simp only: div_mult_self2) (simp add: div_eq_minus1)
    finally have "(- (c + 1)) div p = - k - 1" .
    moreover have "(- c) div p = - k" using assms by (simp add: k flip: mult_minus_right)
    ultimately show ?thesis using True by simp
  next
    case False
    define q r where "q = c div p" and "r = c mod p"
    have c: "c = p * q + r" "0 < r" "r < p"
      using False assms pos_mod_bound [of p c] pos_mod_sign [of p c] by (auto simp: q_def r_def le_less)
    have a: "- c = p * (- q - 1) + (p - r)" "- (c + 1) = p * (- q - 1) + (p - r - 1)"
      using c(1) by (simp_all add: algebra_simps)
    have "(- c) div p = - q - 1" "(- (c + 1)) div p = - q - 1"
      unfolding a using c(2,3) assms by (simp_all add: div_pos_pos_trivial)
    then show ?thesis using False by simp
  qed
  moreover have "a = b - d \<Longrightarrow> - a * p - - b * p = d * p" for a b d :: int
    by (simp add: left_diff_distrib)
  ultimately have "ceil_to (c + 1) p - ceil_to c p = (if c mod p = 0 then 1 else 0) * p"
    unfolding ceil_to_def by blast
  then show ?thesis by simp
qed

text \<open>The two estimates agree: what the plain decode check asks for (a page for every request
  whose committed length fills its last page) is exactly the page growth of committing one more
  token per request, which is what the speculative check computes with a reserve of one token and
  nothing allocated ahead.\<close>

theorem decode_estimates_agree:
  assumes "0 < mo_page ops" "mo_align ops = ceil_to" "mo_reserve ops = 1" "mo_members ops ss = 0"
    and "\<And>s. s \<in> set ss \<Longrightarrow> kv_allocated_len (kv (sq_req s)) = kv_committed_len (kv (sq_req s))"
  shows "new_tokens_required (ops\<lparr>mo_spec := False\<rparr>) ss = new_tokens_required (ops\<lparr>mo_spec := True\<rparr>) ss"
proof -
  have one: "spec_v2_tokens (ops\<lparr>mo_spec := True\<rparr>) s
      = (if kv_committed_len (kv (sq_req s)) mod mo_page ops = 0 then mo_page ops else 0)" if "s \<in> set ss" for s
    using assms(5) [OF that] ceil_to_step [OF assms(1), of "kv_committed_len (kv (sq_req s))"]
    by (simp add: spec_v2_tokens_def assms(2,3))
  have "sum_list (map (spec_v2_tokens (ops\<lparr>mo_spec := True\<rparr>)) xs)
      = int (length (filter (\<lambda>s. kv_committed_len (kv (sq_req s)) mod mo_page ops = 0) xs)) * mo_page ops"
    if "set xs \<subseteq> set ss" for xs
    using that by (induction xs) (simp_all add: one algebra_simps)
  then show ?thesis by (simp add: new_tokens_required_def assms(4))
qed

section \<open>A concrete pool\<close>

text \<open>A pool of free tokens: it has room when enough are free, a release gives back the allocated
  length of the request.\<close>

definition demo_ops :: "int mem_ops" where
  "demo_ops = \<lparr>mo_page = 4, mo_reserve = 1, mo_align = ceil_to, mo_spec = False, mo_disagg = False, mo_steps = 0,
     mo_members = (\<lambda>_. 0), mo_capacity = (\<lambda>n m. (n \<le> m, m)), mo_hisparse = None, mo_backup = (\<lambda>_ m. (False, m)),
     mo_release = (\<lambda>r m. (r\<lparr>kv := (kv r)\<lparr>req_pool_idx := None, kv_allocated_len := 0\<rparr>\<rparr>, m + kv_allocated_len (kv r))),
     mo_evict = (\<lambda>_ m. m), mo_free_members = (\<lambda>_ _ m. m), mo_beam_order = (\<lambda>xs _. xs)\<rparr>"

lemma demo_ops_ok: "mem_ok demo_ops"
  by (simp add: mem_ok_def demo_ops_def)

definition demo_decoding :: "sreq list" where
  "demo_decoding = map (\<lambda>(n, len, out). demo_sreq n (demo_req\<lparr>out_ids := out,
      kv := fresh_kv\<lparr>req_pool_idx := Some n, kv_committed_len := len, kv_allocated_len := len\<rparr>\<rparr>))
    [(0, 4, [1]), (1, 8, [1, 2]), (2, 6, [])]"

lemma retraction_makes_room_witness:
  "map_sum id (\<lambda>st. (rs_order st, rs_retracted st, rs_abort st, rs_mem st)) (retract_requests demo_ops None demo_decoding 5)
     = Inr ([1, 0], [2], [], 11)
   \<and> (\<exists>st. retract_requests demo_ops None demo_decoding 5 = Inr st \<and> rinv demo_decoding st)"
proof
  show "map_sum id (\<lambda>st. (rs_order st, rs_retracted st, rs_abort st, rs_mem st)) (retract_requests demo_ops None demo_decoding 5)
     = Inr ([1, 0], [2], [], 11)" by code_simp
  have "demo_decoding \<noteq> []" by (simp add: demo_decoding_def)
  from retraction_makes_room [OF demo_ops_ok this, of None 5]
  show "\<exists>st. retract_requests demo_ops None demo_decoding 5 = Inr st \<and> rinv demo_decoding st" by blast
qed

lemma retraction_takes_least_preferred_witness:
  "keep_key None (demo_decoding ! 2) \<le> keep_key None (demo_decoding ! 1)"
proof -
  have ne: "demo_decoding \<noteq> []" by (simp add: demo_decoding_def)
  have r: "map_sum id (\<lambda>st. (rs_order st, rs_retracted st)) (retract_requests demo_ops None demo_decoding 5) = Inr ([1, 0], [2])"
    by code_simp
  then obtain st where st: "retract_requests demo_ops None demo_decoding 5 = Inr st" "rs_order st = [1, 0]" "rs_retracted st = [2]"
    by (cases "retract_requests demo_ops None demo_decoding 5") auto
  show ?thesis
    by (rule retraction_takes_least_preferred [OF demo_ops_ok ne _ st(1)]) (simp_all add: st demo_ops_def)
qed

lemma retracted_batch_sound_witness:
  "\<exists>rt ab b' m'. retract_decode demo_ops demo_keep (\<lambda>_. id) None demo_batch 0 = Inr (rt, ab, b', m')
     \<and> length (b_reqs b') + length rt + length ab = 2"
proof -
  have l: "length (b_reqs demo_batch) = 2" by code_simp
  then have ne: "b_reqs demo_batch \<noteq> []" by auto
  show ?thesis
    using retracted_batch_sound [OF demo_ops_ok demo_prepared_ok(1) ne, of demo_keep "\<lambda>_. id" None 0] l by fastforce
qed

lemma decode_estimates_agree_witness:
  "new_tokens_required (demo_ops\<lparr>mo_spec := False\<rparr>) demo_decoding = 8
   \<and> new_tokens_required (demo_ops\<lparr>mo_spec := True\<rparr>) demo_decoding = 8"
proof
  show e: "new_tokens_required (demo_ops\<lparr>mo_spec := False\<rparr>) demo_decoding = 8" by code_simp
  have "new_tokens_required (demo_ops\<lparr>mo_spec := False\<rparr>) demo_decoding = new_tokens_required (demo_ops\<lparr>mo_spec := True\<rparr>) demo_decoding"
    by (rule decode_estimates_agree) (auto simp: demo_ops_def demo_decoding_def demo_sreq_def)
  then show "new_tokens_required (demo_ops\<lparr>mo_spec := True\<rparr>) demo_decoding = 8" using e by simp
qed

end
