(* ===== verification/PoolDefault.thy ===== *)
theory PoolDefault
  imports Prelude Complex_Main
begin

text \<open>
  Sizing of the KV pools from a byte budget (\<open>sglang-overlay/pool_configurator.py\<close>): the resolved
  configuration and the configurator for uniform models (MHA, MLA, sparse indexers, FP4).
  Python floats are rationals here: products and quotients are exact, so float rounding is not
  modelled.  What the configurator reads of the model, the runtime and the library helpers is one
  record of values (and functions where the code passes arguments).
\<close>

section \<open>Numbers\<close>

text \<open>\<open>int(x)\<close> of a float truncates towards zero.\<close>

definition py_int :: "rat \<Rightarrow> int" where
  "py_int x = (if 0 \<le> x then \<lfloor>x\<rfloor> else \<lceil>x\<rceil>)"

definition page_floor :: "int \<Rightarrow> int \<Rightarrow> int" where
  "page_floor x p = x div p * p"

lemma py_int_nonneg: "0 \<le> x \<Longrightarrow> py_int x = \<lfloor>x\<rfloor>"
  by (simp add: py_int_def)

lemma py_int_le: "0 \<le> x \<Longrightarrow> of_int (py_int x) \<le> x"
  by (simp add: py_int_def)

lemma py_int_ge0: "0 \<le> x \<Longrightarrow> 0 \<le> py_int x"
  by (simp add: py_int_def)

lemma page_floor_le: "0 < p \<Longrightarrow> page_floor x p \<le> x"
  by (simp add: page_floor_def div_mult_le_self)

lemma page_floor_gt: "0 < p \<Longrightarrow> x - p < page_floor x p"
  by (simp add: page_floor_def div_mult_gt)

lemma page_floor_dvd [simp]: "p dvd page_floor x p"
  by (simp add: page_floor_def)

lemma page_floor_ge0: "0 < p \<Longrightarrow> 0 \<le> x \<Longrightarrow> 0 \<le> page_floor x p"
  by (simp add: page_floor_def pos_imp_zdiv_nonneg_iff)

lemma page_floor_mono: "0 < p \<Longrightarrow> x \<le> y \<Longrightarrow> page_floor x p \<le> page_floor y p"
  by (simp add: page_floor_def zdiv_mono1)

section \<open>The resolved configuration\<close>

record pool_config =
  pc_max_total :: int
  pc_max_running :: "int option"
  pc_full :: "int option"
  pc_swa :: "int option"
  pc_c4 :: int
  pc_c128 :: int
  pc_c4_state :: int
  pc_c128_state :: int

definition plain_config :: "int \<Rightarrow> pool_config" where
  "plain_config n = \<lparr>pc_max_total = n, pc_max_running = None, pc_full = None, pc_swa = None, pc_c4 = 0, pc_c128 = 0,
     pc_c4_state = 0, pc_c128_state = 0\<rparr>"

text \<open>\<open>__post_init__\<close>: a configuration without tokens is refused.\<close>

definition make_config :: "pool_config \<Rightarrow> pool_config res" where
  "make_config c = ensure (0 < pc_max_total c) RuntimeError (Inr c)"

definition get_dsv4_compress_state_dtype_sizes :: "string \<Rightarrow> (int \<times> int) res" where
  "get_dsv4_compress_state_dtype_sizes name =
     (if name \<in> {''float32'', ''fp32''} then Inr (4, 4)
      else if name \<in> {''bfloat16'', ''bf16''} then Inr (2, 2) else Inl ValueError)"

section \<open>What a configurator reads\<close>

datatype spec_kind = SpecNone | SpecEagle | SpecStandalone | SpecDflash | SpecDspark

definition dflash_family :: "spec_kind \<Rightarrow> bool" where
  "dflash_family k \<longleftrightarrow> k = SpecDflash \<or> k = SpecDspark"

record kv_view =
  kw_dtype_str :: string
  kw_kv_size :: int
  kw_fp4 :: bool
  kw_model_size :: int
  kw_mamba_layers :: "int list option"
  kw_start :: int
  kw_end :: int
  kw_effective :: int
  kw_pp_size :: int
  kw_context_len :: int
  kw_draft_worker :: bool
  kw_spec :: spec_kind
  kw_eagle_layers :: "int option"
  kw_dflash_layers :: "int option"
  kw_dflash_cell :: "int option"
  kw_dflash_scale :: "int \<Rightarrow> int \<Rightarrow> int \<Rightarrow> int option \<Rightarrow> int"
  kw_mla :: bool
  kw_dsa :: bool
  kw_minimax :: bool
  kw_mla_dim :: int
  kw_lora_rank :: int
  kw_rope_dim :: int
  kw_head_dim :: int
  kw_v_head_dim :: int
  kw_heads :: "int \<Rightarrow> int \<Rightarrow> int"
  kw_tp_heads :: "int \<Rightarrow> int"
  kw_tp :: int
  kw_dcp :: int
  kw_glm_layers :: "int \<Rightarrow> int"
  kw_dense_ids :: "int list"
  kw_sparse_ids :: "int list"
  kw_k_only_ids :: "int list"
  kw_index_dim :: int
  kw_dsa_index_dim :: int
  kw_quant_block :: int
  kw_index_size :: int
  kw_hisparse_ratio :: "int option"
  kw_elide_k :: bool
  kw_skips_topk :: "int \<Rightarrow> bool"
  kw_shard_size :: nat
  kw_shard_range :: "nat \<Rightarrow> nat \<Rightarrow> int \<Rightarrow> nat \<times> nat"
  kw_max_total_tokens :: "int option"

definition dflash_draft_cell_size :: "kv_view \<Rightarrow> int" where
  "dflash_draft_cell_size k =
     (if kw_draft_worker k \<or> \<not> dflash_family (kw_spec k) then 0
      else case kw_dflash_cell k of None \<Rightarrow> 0 | Some c \<Rightarrow> if c \<le> 0 then 0 else c * kw_dcp k)"

section \<open>Bytes per token\<close>

definition owned_active :: "kv_view \<Rightarrow> int list \<Rightarrow> int \<Rightarrow> nat \<Rightarrow> int" where
  "owned_active k active num_layers r =
     (let (s, e) = kw_shard_range k r (kw_shard_size k) num_layers
      in int (length (filter (\<lambda>i. kw_start k + int i \<in> set active) [s..<e])))"

definition num_indexer_layers :: "kv_view \<Rightarrow> int \<Rightarrow> bool \<Rightarrow> int" where
  "num_indexer_layers k num_layers allocate_all =
     (if allocate_all \<or> \<not> kw_elide_k k then num_layers
      else let active = filter (\<lambda>l. \<not> kw_skips_topk k l) (map (\<lambda>i. kw_start k + int i) [0..<nat (kw_end k - kw_start k)])
      in if kw_shard_size k > 1
         then fold (\<lambda>r m. max m (owned_active k active num_layers r)) [0..<kw_shard_size k] 0 + 1
         else int (length active))"

definition compute_dsa_indexer_cell_size :: "kv_view \<Rightarrow> int \<Rightarrow> bool \<Rightarrow> int" where
  "compute_dsa_indexer_cell_size k num_layers allocate_all =
     (let per_token = kw_dsa_index_dim k + kw_dsa_index_dim k div kw_quant_block k * 4;
          ratio = (case kw_hisparse_ratio k of None \<Rightarrow> 1 | Some r \<Rightarrow> r)
      in per_token * num_indexer_layers k num_layers allocate_all * kw_index_size k * ratio)"

definition mla_cell_size :: "kv_view \<Rightarrow> int \<Rightarrow> int" where
  "mla_cell_size k num_layers =
     (let layers = kw_glm_layers k num_layers;
          cell = kw_mla_dim k * layers * kw_kv_size k;
          cell = (if kw_fp4 k then cell div 2 + (kw_lora_rank k + kw_rope_dim k) div 16 * layers * kw_kv_size k else cell)
      in if kw_dsa k then cell + compute_dsa_indexer_cell_size k num_layers False else cell)"

definition minimax_cell_size :: "kv_view \<Rightarrow> int" where
  "minimax_cell_size k =
     (let mine = filter (\<lambda>l. kw_start k \<le> l \<and> l < kw_end k);
          dense = int (length (mine (kw_dense_ids k))); sparse_ids = mine (kw_sparse_ids k);
          sparse = int (length sparse_ids);
          k_only = int (length (filter (\<lambda>l. l \<in> set (kw_k_only_ids k)) sparse_ids));
          main = (dense + sparse) * 2 * kw_tp_heads k (kw_tp k) * kw_head_dim k * kw_kv_size k
      in main + ((sparse - k_only) * 2 + k_only) * kw_index_dim k * kw_model_size k)"

definition mha_cell_size :: "kv_view \<Rightarrow> int \<Rightarrow> int" where
  "mha_cell_size k num_layers =
     (let layers = kw_glm_layers k num_layers; n = kw_heads k (kw_tp k) (kw_dcp k);
          cell = n * (kw_head_dim k + kw_v_head_dim k) * layers * kw_kv_size k
      in if kw_fp4 k
         then cell div 2 + n * kw_head_dim k * layers * 2 * kw_kv_size k div 16 + n * kw_head_dim k * 2 * kw_kv_size k
         else if kw_dtype_str k = ''mxfp8''
         then cell + n * (kw_head_dim k + kw_v_head_dim k) * num_layers div 32
         else cell)"

definition compute_cell_size :: "kv_view \<Rightarrow> int \<Rightarrow> int" where
  "compute_cell_size k num_layers =
     (if kw_mla k then mla_cell_size k num_layers
      else if kw_minimax k then minimax_cell_size k else mha_cell_size k num_layers)"

section \<open>The default configurator\<close>

record default_conf =
  dc_cell :: int
  dc_zero_tokens :: int

definition kv_layers :: "kv_view \<Rightarrow> int" where
  "kv_layers k = (case kw_mamba_layers k of None \<Rightarrow> kw_effective k
     | Some ids \<Rightarrow> int (length (filter (\<lambda>i. kw_start k \<le> i \<and> i < kw_end k) ids)))"

text \<open>An EAGLE or standalone draft reuses the target's geometry: scale by the layer count.\<close>

definition eagle_cell_size :: "kv_view \<Rightarrow> int \<Rightarrow> int \<Rightarrow> int" where
  "eagle_cell_size k num_layers cell =
     (case kw_eagle_layers k of None \<Rightarrow> cell
      | Some d \<Rightarrow>
          if d \<le> 0 \<or> num_layers \<le> 0 then cell
          else if kw_dsa k
          then let target_kv = cell - compute_dsa_indexer_cell_size k num_layers False;
                   draft_kv = py_int (of_int (target_kv * d) / of_int (kw_glm_layers k num_layers))
               in cell + (draft_kv + compute_dsa_indexer_cell_size k d True)
          else py_int (of_int cell * (1 + of_int d / of_int num_layers)))"

definition default_init :: "kv_view \<Rightarrow> default_conf" where
  "default_init k =
     (let layers = kv_layers k; cell = compute_cell_size k layers;
          elsewhere = cell = 0 \<and> kw_pp_size k > 1
            \<and> (case kw_mamba_layers k of None \<Rightarrow> False | Some ids \<Rightarrow> ids \<noteq> []);
          zero = (if elsewhere then 2 ^ 63 - 1
                  else case kw_max_total_tokens k of Some n \<Rightarrow> if n \<noteq> 0 then n else kw_context_len k
                    | None \<Rightarrow> kw_context_len k);
          cell = (if (kw_spec k = SpecEagle \<or> kw_spec k = SpecStandalone) \<and> \<not> kw_draft_worker k
                  then eagle_cell_size k layers cell else cell);
          cell = (if dflash_family (kw_spec k) \<and> \<not> kw_draft_worker k
                  then case kw_dflash_layers k of None \<Rightarrow> cell
                    | Some d \<Rightarrow> if d \<le> 0 \<or> layers \<le> 0 then cell
                        else kw_dflash_scale k cell layers (d * kw_dcp k)
                          (if dflash_draft_cell_size k = 0 then None else Some (dflash_draft_cell_size k))
                  else cell)
      in \<lparr>dc_cell = cell, dc_zero_tokens = zero\<rparr>)"

definition default_pool_sizes :: "default_conf \<Rightarrow> int \<Rightarrow> int \<Rightarrow> pool_config res" where
  "default_pool_sizes c available page =
     make_config (plain_config (page_floor (if dc_cell c \<noteq> 0 then available div dc_cell c else dc_zero_tokens c) page))"

definition default_pool_sizes_from_max :: "int \<Rightarrow> int \<Rightarrow> pool_config res" where
  "default_pool_sizes_from_max max_total page = make_config (plain_config (page_floor max_total page))"

section \<open>The budget is respected and used\<close>

lemma make_config_Inr: "make_config c = Inr d \<longleftrightarrow> d = c \<and> 0 < pc_max_total c"
  by (auto simp: make_config_def ensure_def)

text \<open>The default configurator fills the budget without exceeding it: a configuration it returns
  holds a positive whole number of pages whose bytes fit in the budget and to which no page could
  be added, and it refuses (never returning an empty pool) exactly when not even one page fits.\<close>

theorem default_pool_fills_budget:
  assumes "0 < page" "0 < dc_cell c" "0 \<le> available"
  shows "(\<forall>p. default_pool_sizes c available page = Inr p \<longrightarrow>
        0 < pc_max_total p \<and> page dvd pc_max_total p
        \<and> pc_max_total p * dc_cell c \<le> available \<and> available < (pc_max_total p + page) * dc_cell c)
     \<and> (default_pool_sizes c available page = Inl RuntimeError \<longleftrightarrow> available < page * dc_cell c)"
proof -
  define t where "t = available div dc_cell c"
  define n where "n = page_floor t page"
  have t: "t * dc_cell c \<le> available" "available < (t + 1) * dc_cell c"
    using assms(2) div_mult_le_self [of "dc_cell c" available] div_mult_gt [of "dc_cell c" available]
    by (simp_all add: t_def algebra_simps)
  have n: "n \<le> t" "t + 1 \<le> n + page" "0 \<le> n" "page dvd n"
    using page_floor_le [OF assms(1), of t] page_floor_gt [OF assms(1), of t] page_floor_ge0 [OF assms(1), of t]
      assms(2,3) by (simp_all add: n_def t_def pos_imp_zdiv_nonneg_iff)
  have up: "n * dc_cell c \<le> t * dc_cell c" "(t + 1) * dc_cell c \<le> (n + page) * dc_cell c"
    using n(1,2) assms(2) by (simp_all add: mult_right_mono)
  have res: "default_pool_sizes c available page = (if 0 < n then Inr (plain_config n) else Inl RuntimeError)"
    using assms(2) by (simp add: default_pool_sizes_def make_config_def ensure_def plain_config_def n_def t_def)
  have small: "0 < n \<longleftrightarrow> page * dc_cell c \<le> available"
  proof
    assume "0 < n"
    then have "page \<le> n" using n(4) zdvd_imp_le by blast
    then have "page * dc_cell c \<le> n * dc_cell c" using assms(2) by (simp add: mult_right_mono)
    then show "page * dc_cell c \<le> available" using up(1) t(1) by linarith
  next
    assume "page * dc_cell c \<le> available"
    then have "page * dc_cell c < (n + page) * dc_cell c" using up(2) t(2) by linarith
    then show "0 < n" using assms(2) by (simp add: mult_less_cancel_right)
  qed
  show ?thesis using res small up t n(4) by (auto simp: plain_config_def)
qed

lemma default_pool_fills_budget_witness:
  "map_sum id pc_max_total (default_pool_sizes \<lparr>dc_cell = 10, dc_zero_tokens = 0\<rparr> 1999 64) = Inr 192
   \<and> 192 * 10 \<le> (1999::int)"
proof
  show r: "map_sum id pc_max_total (default_pool_sizes \<lparr>dc_cell = 10, dc_zero_tokens = 0\<rparr> 1999 64) = Inr 192" by code_simp
  obtain p where p: "default_pool_sizes \<lparr>dc_cell = 10, dc_zero_tokens = 0\<rparr> 1999 64 = Inr p" "pc_max_total p = 192"
    using r by (cases "default_pool_sizes \<lparr>dc_cell = 10, dc_zero_tokens = 0\<rparr> 1999 64") auto
  show "192 * 10 \<le> (1999::int)"
    using default_pool_fills_budget [of 64 "\<lparr>dc_cell = 10, dc_zero_tokens = 0\<rparr>" 1999] p by fastforce
qed

end
