(* ===== verification/PoolSwa.thy ===== *)
theory PoolSwa
  imports PoolDefault
begin

text \<open>
  Sizing of the pools of a sliding-window model (\<open>sglang-overlay/pool_configurator.py\<close>:
  \<open>HybridSWAPoolConfigurator\<close>, \<open>compute_swa_request_cap\<close>, \<open>SWAChunkCapPoolConfigurator\<close>): the split of
  the budget between the full-attention and the window pool, by ratio, by the unified pool's
  search, or from a fixed cap of window tokens.  \<open>align\<close> is the library's \<open>ceil_align\<close>.
\<close>

section \<open>State\<close>

record swa_view =
  sv_kv :: kv_view
  sv_full_ids :: "int list"
  sv_swa_ids :: "int list"
  sv_ratio :: rat
  sv_window :: "int option"
  sv_page :: int
  sv_unified :: bool
  sv_arch_mla :: bool
  sv_lora_rank :: int
  sv_rope_dim :: int
  sv_heads :: "int \<Rightarrow> int"
  sv_head_dim :: int
  sv_v_head_dim :: int
  sv_mtp_local :: "int list option"
  sv_eagle_swa :: "int option"

record swa_conf =
  sc_full_layers :: int
  sc_swa_layers :: int
  sc_ratio :: rat
  sc_window :: "int option"
  sc_page :: int
  sc_unified :: bool
  sc_full_pt :: int
  sc_swa_pt :: int
  sc_d_full :: int
  sc_d_swa :: int
  sc_d_swa_full :: int
  sc_draft_cell :: int
  sc_cell :: rat

section \<open>Construction\<close>

definition swa_per_token :: "swa_view \<Rightarrow> int \<times> int" where
  "swa_per_token v =
     (let k = sv_kv v; size = kw_kv_size k;
          full_mha = kw_tp_heads k (kw_tp k) * (kw_head_dim k + kw_v_head_dim k);
          swa_mha = sv_heads v (kw_tp k) * (sv_head_dim v + sv_v_head_dim v);
          (full, swa) =
            (if sv_arch_mla v
             then (kw_mla_dim k * size
                   + (if kw_dsa k then (kw_dsa_index_dim k + kw_dsa_index_dim k div kw_quant_block k * 4) * kw_index_size k
                      else 0),
                   (sv_lora_rank v + sv_rope_dim v) * size)
             else (full_mha * size, swa_mha * size))
      in if kw_dtype_str k = ''mxfp8'' then (full + full_mha div 32, swa + swa_mha div 32) else (full, swa))"

text \<open>The draft layers by geometry: full, sliding-window, and sliding-window kept at full capacity.\<close>

definition draft_layers :: "swa_view \<Rightarrow> int \<times> int \<times> int" where
  "draft_layers v =
     (let k = sv_kv v in
      if (kw_spec k = SpecEagle \<or> kw_spec k = SpecStandalone) \<and> \<not> kw_draft_worker k
      then case kw_eagle_layers k of None \<Rightarrow> (0, 0, 0)
           | Some d \<Rightarrow>
               if d \<le> 0 then (0, 0, 0)
               else let (swa, swa_full) =
                      (case sv_mtp_local v of
                         Some local \<Rightarrow> (0, int (length (filter (\<lambda>i. int i \<in> set local) [0..<nat d])))
                       | None \<Rightarrow> (case sv_eagle_swa v of None \<Rightarrow> 0 | Some n \<Rightarrow> min (max n 0) d, 0))
                    in (d - swa - swa_full, swa, swa_full)
      else (0, 0, 0))"

definition recompute_cell_size :: "swa_conf \<Rightarrow> rat" where
  "recompute_cell_size c =
     (if sc_full_layers c = 0
      then of_int (sc_swa_pt c * sc_swa_layers c + sc_full_pt c * sc_d_full c + sc_swa_pt c * sc_d_swa c
             + sc_swa_pt c * sc_d_swa_full c + sc_draft_cell c)
      else of_int (sc_full_pt c * (sc_full_layers c + sc_d_full c) + sc_swa_pt c * sc_d_swa_full c)
           + sc_ratio c * of_int (sc_swa_pt c) * of_int (sc_swa_layers c + sc_d_swa c) + of_int (sc_draft_cell c))"

definition swa_init :: "swa_view \<Rightarrow> swa_conf res" where
  "swa_init v =
     (let (full, swa) = swa_per_token v; (df, ds, dsf) = draft_layers v;
          c = \<lparr>sc_full_layers = int (length (sv_full_ids v)), sc_swa_layers = int (length (sv_swa_ids v)),
               sc_ratio = sv_ratio v, sc_window = sv_window v, sc_page = sv_page v, sc_unified = sv_unified v,
               sc_full_pt = full, sc_swa_pt = swa, sc_d_full = df, sc_d_swa = ds, sc_d_swa_full = dsf,
               sc_draft_cell = dflash_draft_cell_size (sv_kv v), sc_cell = 0\<rparr>
      in ensure (sc_swa_layers c > 0) AssertionError (Inr (c\<lparr>sc_cell := recompute_cell_size c\<rparr>)))"

definition draft_pool_bytes_per_token :: "swa_conf \<Rightarrow> int" where
  "draft_pool_bytes_per_token c =
     sc_full_pt c * sc_d_full c + sc_swa_pt c * (sc_d_swa c + sc_d_swa_full c) + sc_draft_cell c"

section \<open>Solving\<close>

definition ratio_tokens :: "swa_conf \<Rightarrow> int \<Rightarrow> int \<Rightarrow> int" where
  "ratio_tokens c full page = page_floor (py_int (of_int full * sc_ratio c)) page"

definition allocation_bytes :: "(int \<Rightarrow> int \<Rightarrow> int) \<Rightarrow> swa_conf \<Rightarrow> int \<Rightarrow> int option \<Rightarrow> int \<Rightarrow> int" where
  "allocation_bytes align c page fixed full_pages =
     (let full = full_pages * page;
          swa = (case fixed of Some s \<Rightarrow> s | None \<Rightarrow> ratio_tokens c full page);
          full_bytes = sc_full_pt c * sc_full_layers c;
          target = full * full_bytes + swa * (sc_swa_pt c * sc_swa_layers c);
          span = max (target div full_bytes - 1) 0
      in target + (align span page + page) * draft_pool_bytes_per_token c)"

text \<open>\<open>bisect_right(range(n), x, key)\<close> of the standard library.\<close>

function bisect_right :: "(nat \<Rightarrow> int) \<Rightarrow> int \<Rightarrow> nat \<Rightarrow> nat \<Rightarrow> nat" where
  "bisect_right key x lo hi =
     (if lo < hi
      then let mid = (lo + hi) div 2
           in if x < key mid then bisect_right key x lo mid else bisect_right key x (mid + 1) hi
      else lo)"
  by auto
termination
  by (relation "measure (\<lambda>(key, x, lo, hi). hi - lo)") auto

declare bisect_right.simps [simp del]

definition max_unified_full_tokens :: "(int \<Rightarrow> int \<Rightarrow> int) \<Rightarrow> swa_conf \<Rightarrow> int \<Rightarrow> int \<Rightarrow> int option \<Rightarrow> int res" where
  "max_unified_full_tokens align c available page fixed =
     ensure (sc_full_pt c * sc_full_layers c > 0) AssertionError
      (let max_pages = available div (sc_full_pt c * sc_full_layers c) div page;
           n = bisect_right (\<lambda>p. allocation_bytes align c page fixed (int p)) available 0 (nat (max_pages + 1))
       in Inr (max (int n - 1) 0 * page))"

definition solve_pool_sizes :: "swa_conf \<Rightarrow> int \<Rightarrow> int \<Rightarrow> pool_config res" where
  "solve_pool_sizes c max_total page =
     (if sc_full_layers c = 0
      then let n = page_floor max_total page
           in make_config ((plain_config n)\<lparr>pc_full := Some 0, pc_swa := Some n\<rparr>)
      else let full = page_floor max_total page; swa = ratio_tokens c full page
           in ensure (case sc_window c of None \<Rightarrow> True | Some w \<Rightarrow> w + sc_page c < swa) ValueError
               (make_config ((plain_config full)\<lparr>pc_full := Some full, pc_swa := Some swa\<rparr>)))"

definition swa_pool_sizes :: "(int \<Rightarrow> int \<Rightarrow> int) \<Rightarrow> swa_conf \<Rightarrow> int \<Rightarrow> int \<Rightarrow> pool_config res" where
  "swa_pool_sizes align c available page =
     res_bind (if sc_unified c \<and> sc_full_layers c > 0 \<and> draft_pool_bytes_per_token c > 0
               then max_unified_full_tokens align c available page None
               else ensure (sc_cell c \<noteq> 0) ZeroDivisionError (Inr \<lfloor>of_int available / sc_cell c\<rfloor>))
       (\<lambda>n. solve_pool_sizes c n page)"

section \<open>The request cap\<close>

record cap_view =
  cv_draft_tokens :: "int option"
  cv_interval :: int
  cv_speculative :: bool
  cv_no_overlap :: bool
  cv_v1_alloc :: int
  cv_alloc_len :: int
  cv_max_running :: int
  cv_decode_rank :: bool
  cv_extra_slots :: int
  cv_chunk :: int

definition compute_swa_request_cap :: "cap_view \<Rightarrow> int \<Rightarrow> int \<Rightarrow> int \<Rightarrow> int" where
  "compute_swa_request_cap v page window dp =
     (let draft = (case cv_draft_tokens v of Some d \<Rightarrow> if d \<noteq> 0 then d else 1 | None \<Rightarrow> 1);
          trailing = window + max 1 (cv_interval v) * draft + page;
          decode_alloc = (if \<not> cv_speculative v then page
             else if cv_no_overlap v then cv_v1_alloc v else 2 * cv_alloc_len v);
          per_request = trailing + decode_alloc; reqs = cv_max_running v div dp
      in if cv_decode_rank v then per_request * reqs + (window + page) * cv_extra_slots v
         else per_request * reqs + (if cv_no_overlap v then 1 else 2) * cv_chunk v + page)"

definition chunk_cap_init :: "swa_view \<Rightarrow> cap_view \<Rightarrow> int \<Rightarrow> (swa_conf \<times> int) res" where
  "chunk_cap_init v cap dp =
     res_bind (swa_init v) (\<lambda>c.
     ensure (sc_full_layers c > 0) AssertionError
      (case sv_window v of None \<Rightarrow> Inl TypeError
       | Some w \<Rightarrow> Inr (c, compute_swa_request_cap cap (sv_page v) w dp)))"

definition chunk_cap_applicable :: "int option \<Rightarrow> bool \<Rightarrow> int option \<Rightarrow> swa_view \<Rightarrow> bool" where
  "chunk_cap_applicable max_running no_radix chunk v \<longleftrightarrow>
     max_running \<noteq> None \<and> no_radix \<and> chunk \<noteq> None \<and> sv_window v \<noteq> None \<and> length (sv_full_ids v) > 0"

definition chunk_cap_pool_sizes :: "(int \<Rightarrow> int \<Rightarrow> int) \<Rightarrow> swa_conf \<Rightarrow> int \<Rightarrow> int \<Rightarrow> int \<Rightarrow> pool_config res" where
  "chunk_cap_pool_sizes align c cap available page =
     (let swa = align cap page;
          fixed = swa * sc_swa_pt c * (sc_swa_layers c + sc_d_swa c);
          full_cell = sc_full_pt c * (sc_full_layers c + sc_d_full c) + sc_swa_pt c * sc_d_swa_full c
      in res_bind (if sc_unified c \<and> draft_pool_bytes_per_token c > 0
                   then max_unified_full_tokens align c available page (Some swa)
                   else ensure (full_cell \<noteq> 0) ZeroDivisionError
                     (Inr (page_floor ((available - fixed) div full_cell) page))) (\<lambda>full.
         ensure (full > 0) RuntimeError
          (make_config ((plain_config full)\<lparr>pc_full := Some full, pc_swa := Some swa\<rparr>))))"

definition chunk_cap_from_max :: "(int \<Rightarrow> int \<Rightarrow> int) \<Rightarrow> int \<Rightarrow> int \<Rightarrow> int \<Rightarrow> pool_config res" where
  "chunk_cap_from_max align cap max_total page =
     (let full = page_floor max_total page
      in make_config ((plain_config full)\<lparr>pc_full := Some full, pc_swa := Some (min (align cap page) max_total)\<rparr>))"

section \<open>The search finds the largest capacity\<close>

lemma bisect_right_spec:
  assumes mono: "\<And>i j. i \<le> j \<Longrightarrow> key i \<le> key j"
  shows "lo \<le> hi \<Longrightarrow> (\<forall>i < lo. key i \<le> x) \<Longrightarrow> (\<forall>i \<ge> hi. i < n \<longrightarrow> x < key i)
     \<Longrightarrow> bisect_right key x lo hi \<le> hi
       \<and> (\<forall>i < bisect_right key x lo hi. key i \<le> x) \<and> (\<forall>i \<ge> bisect_right key x lo hi. i < n \<longrightarrow> x < key i)"
  using mono
proof (induction key x lo hi rule: bisect_right.induct)
  case (1 key x lo hi)
  show ?case
  proof (cases "lo < hi")
    case False
    then have "bisect_right key x lo hi = lo" by (simp add: bisect_right.simps)
    then show ?thesis using "1.prems"(1-3) False by simp
  next
    case True
    let ?mid = "(lo + hi) div 2"
    have mid: "lo \<le> ?mid" "?mid < hi" using True by auto
    show ?thesis
    proof (cases "x < key ?mid")
      case above: True
      then have e: "bisect_right key x lo hi = bisect_right key x lo ?mid"
        using True by (subst bisect_right.simps) simp
      have "\<forall>i \<ge> ?mid. x < key i" using above "1.prems"(4) by (meson less_le_trans)
      then have "bisect_right key x lo ?mid \<le> ?mid
          \<and> (\<forall>i < bisect_right key x lo ?mid. key i \<le> x) \<and> (\<forall>i \<ge> bisect_right key x lo ?mid. i < n \<longrightarrow> x < key i)"
        using "1.IH"(1) [OF True refl above mid(1) "1.prems"(2) _ "1.prems"(4)] by blast
      then show ?thesis using e mid(2) by simp
    next
      case below: False
      then have e: "bisect_right key x lo hi = bisect_right key x (?mid + 1) hi"
        using True by (subst bisect_right.simps) simp
      have "\<forall>i < ?mid + 1. key i \<le> x"
        using below "1.prems"(4) by (metis less_Suc_eq_le Suc_eq_plus1 linorder_not_less order.trans)
      then show ?thesis
        using "1.IH"(2) [OF True refl below _ _ "1.prems"(3,4)] e mid(2) by auto
    qed
  qed
qed

text \<open>What \<open>ceil_align\<close> promises, and the signs the sizes of a configuration have.\<close>

definition align_ok :: "(int \<Rightarrow> int \<Rightarrow> int) \<Rightarrow> int \<Rightarrow> bool" where
  "align_ok align p \<longleftrightarrow> (\<forall>x. x \<le> align x p) \<and> (\<forall>x y. x \<le> y \<longrightarrow> align x p \<le> align y p)"

definition conf_ok :: "swa_conf \<Rightarrow> bool" where
  "conf_ok c \<longleftrightarrow> 0 < sc_full_pt c \<and> 0 < sc_full_layers c \<and> 0 \<le> sc_swa_pt c \<and> 0 \<le> sc_swa_layers c \<and> 0 \<le> sc_ratio c
     \<and> 0 \<le> sc_d_full c \<and> 0 \<le> sc_d_swa c \<and> 0 \<le> sc_d_swa_full c \<and> 0 \<le> sc_draft_cell c"

lemma py_int_mono: "0 \<le> x \<Longrightarrow> x \<le> y \<Longrightarrow> py_int x \<le> py_int y"
  by (simp add: py_int_def floor_mono)

lemma ratio_tokens_mono:
  assumes "0 \<le> sc_ratio c" "0 < page" "0 \<le> x" "x \<le> y"
  shows "ratio_tokens c x page \<le> ratio_tokens c y page" "0 \<le> ratio_tokens c x page"
proof -
  have "py_int (of_int x * sc_ratio c) \<le> py_int (of_int y * sc_ratio c)"
    using assms by (intro py_int_mono mult_right_mono) simp_all
  then show "ratio_tokens c x page \<le> ratio_tokens c y page"
    unfolding ratio_tokens_def using assms(2) by (rule page_floor_mono [rotated])
  show "0 \<le> ratio_tokens c x page"
    unfolding ratio_tokens_def using assms by (intro page_floor_ge0 py_int_ge0 mult_nonneg_nonneg) simp_all
qed

definition swa_for :: "swa_conf \<Rightarrow> int \<Rightarrow> int option \<Rightarrow> int \<Rightarrow> int" where
  "swa_for c page fixed full = (case fixed of Some s \<Rightarrow> s | None \<Rightarrow> ratio_tokens c full page)"

lemma allocation_bytes_mono:
  assumes c: "conf_ok c" "0 < page" "align_ok align page" and fixed: "\<And>s. fixed = Some s \<Longrightarrow> 0 \<le> s" and i: "0 \<le> i" "i \<le> j"
  shows "allocation_bytes align c page fixed i \<le> allocation_bytes align c page fixed j"
    "i * page * (sc_full_pt c * sc_full_layers c) \<le> allocation_bytes align c page fixed i"
proof -
  let ?F = "sc_full_pt c * sc_full_layers c" and ?S = "sc_swa_pt c * sc_swa_layers c"
  define T where "T k = k * page * ?F + swa_for c page fixed (k * page) * ?S" for k
  have F: "0 < ?F" "0 \<le> ?S" using c(1) by (simp_all add: conf_ok_def)
  have D: "0 \<le> draft_pool_bytes_per_token c" using c(1) by (simp add: conf_ok_def draft_pool_bytes_per_token_def)
  have eq: "allocation_bytes align c page fixed k
      = T k + (align (max (T k div ?F - 1) 0) page + page) * draft_pool_bytes_per_token c" for k
    by (simp add: allocation_bytes_def Let_def T_def swa_for_def)
  have full: "0 \<le> i * page" "i * page \<le> j * page" using i c(2) by (simp_all add: mult_right_mono)
  have swa: "0 \<le> swa_for c page fixed (i * page)" "swa_for c page fixed (i * page) \<le> swa_for c page fixed (j * page)"
    using ratio_tokens_mono [of c page "i * page" "j * page"] full c(1,2) fixed
    by (auto simp: swa_for_def conf_ok_def split: option.split)
  have T: "T i \<le> T j" unfolding T_def
    by (intro add_mono mult_right_mono [OF full(2)] mult_right_mono [OF swa(2)]) (use F in simp_all)
  have "max (T i div ?F - 1) 0 \<le> max (T j div ?F - 1) 0"
    using zdiv_mono1 [OF T F(1)] by (simp add: max.coboundedI1 max_def)
  then have A: "align (max (T i div ?F - 1) 0) page \<le> align (max (T j div ?F - 1) 0) page"
    using c(3) by (simp add: align_ok_def)
  show "allocation_bytes align c page fixed i \<le> allocation_bytes align c page fixed j"
    unfolding eq by (intro add_mono [OF T] mult_right_mono) (use A D in simp_all)
  have "max (T i div ?F - 1) 0 \<le> align (max (T i div ?F - 1) 0) page" using c(3) by (simp add: align_ok_def)
  then have "0 \<le> (align (max (T i div ?F - 1) 0) page + page) * draft_pool_bytes_per_token c"
    using c(2) D by (intro mult_nonneg_nonneg) simp_all
  moreover have "i * page * ?F \<le> T i" using swa(1) F(2) by (simp add: T_def)
  ultimately show "i * page * ?F \<le> allocation_bytes align c page fixed i" unfolding eq by linarith
qed

text \<open>The unified pool's search returns the largest full-attention capacity: a whole number of
  pages whose allocations (both pools and the draft's replica over the widened span) fit in the
  budget, while every larger number of pages would exceed it; 0 when not even one page fits.\<close>

theorem unified_search_is_largest:
  assumes c: "conf_ok c" "0 < page" "align_ok align page" and fixed: "\<And>s. fixed = Some s \<Longrightarrow> 0 \<le> s"
    and "0 \<le> available"
  shows "\<exists>k. 0 \<le> k \<and> max_unified_full_tokens align c available page fixed = Inr (k * page)
     \<and> (0 < k \<longrightarrow> allocation_bytes align c page fixed k \<le> available)
     \<and> (\<forall>p > k. available < allocation_bytes align c page fixed p)"
proof -
  let ?F = "sc_full_pt c * sc_full_layers c" and ?key = "\<lambda>p. allocation_bytes align c page fixed (int p)"
  have F: "0 < ?F" using c(1) by (simp add: conf_ok_def)
  define mp where "mp = available div ?F div page"
  have mp: "0 \<le> mp" using assms(5) F c(2) by (simp add: mp_def pos_imp_zdiv_nonneg_iff)
  define N where "N = nat (mp + 1)"
  define n where "n = bisect_right ?key available 0 N"
  have key: "i \<le> j \<Longrightarrow> ?key i \<le> ?key j" for i j
    using allocation_bytes_mono(1) [OF c fixed, where i = "int i" and j = "int j"] by simp
  have n: "n \<le> N" "\<forall>i < n. ?key i \<le> available" "\<forall>i \<ge> n. i < N \<longrightarrow> available < ?key i"
    using bisect_right_spec [where key = ?key and lo = 0 and hi = N and n = N and x = available, OF key] by (auto simp: n_def)
  define k where "k = max (int n - 1) 0"
  have "max_unified_full_tokens align c available page fixed = Inr (k * page)"
    using F by (simp add: max_unified_full_tokens_def Let_def mp_def N_def n_def k_def)
  moreover have "allocation_bytes align c page fixed k \<le> available" if "0 < k"
  proof -
    have "k = int (n - 1)" "n - 1 < n" using that by (auto simp: k_def)
    then show ?thesis using n(2) by blast
  qed
  moreover have "available < allocation_bytes align c page fixed p" if p: "k < p" for p
  proof (cases "nat p < N")
    case True
    have "n \<le> nat p" "int (nat p) = p" using p by (auto simp: k_def)
    then show ?thesis using n(3) True by metis
  next
    case False
    then have "mp + 1 \<le> p" using mp by (simp add: N_def)
    have "available < (available div ?F + 1) * ?F" using div_mult_gt [OF F, of available] by (simp add: algebra_simps)
    also have "available div ?F + 1 \<le> (mp + 1) * page"
      using div_mult_gt [OF c(2), of "available div ?F"] by (simp add: mp_def algebra_simps)
    then have "(available div ?F + 1) * ?F \<le> (mp + 1) * page * ?F" using F by (intro mult_right_mono) simp_all
    also have "(mp + 1) * page * ?F \<le> p * page * ?F"
      using \<open>mp + 1 \<le> p\<close> c(2) F by (intro mult_right_mono) simp_all
    also have "\<dots> \<le> allocation_bytes align c page fixed p"
      using allocation_bytes_mono(2) [OF c fixed, where i = p and j = p] mp \<open>mp + 1 \<le> p\<close> by simp
    finally show ?thesis .
  qed
  moreover have "0 \<le> k" by (simp add: k_def)
  ultimately show ?thesis by blast
qed

section \<open>The budget of a ratio split\<close>

definition full_cell_bytes :: "swa_conf \<Rightarrow> int" where
  "full_cell_bytes c = sc_full_pt c * (sc_full_layers c + sc_d_full c) + sc_swa_pt c * sc_d_swa_full c"

definition swa_cell_bytes :: "swa_conf \<Rightarrow> int" where
  "swa_cell_bytes c = sc_swa_pt c * (sc_swa_layers c + sc_d_swa c)"

lemma cell_split:
  "sc_full_layers c \<noteq> 0 \<Longrightarrow>
     recompute_cell_size c = of_int (full_cell_bytes c + sc_draft_cell c) + sc_ratio c * of_int (swa_cell_bytes c)"
  by (simp add: recompute_cell_size_def full_cell_bytes_def swa_cell_bytes_def algebra_simps)

text \<open>Splitting a budget by ratio: a configuration that is returned has whole pages in both
  pools, keeps the ratio, leaves room in the window pool for the window of a request and one page
  more, and its bytes (target layers, draft layers of every geometry and the separate draft cell)
  fit in the budget.\<close>

theorem ratio_split_fits_budget:
  assumes c: "conf_ok c" "0 < page" "0 \<le> available" "sc_cell c = recompute_cell_size c"
    and plain: "\<not> (sc_unified c \<and> draft_pool_bytes_per_token c > 0)"
    and res: "swa_pool_sizes align c available page = Inr p"
  shows "\<exists>full swa. pc_full p = Some full \<and> pc_swa p = Some swa \<and> pc_max_total p = full
     \<and> page dvd full \<and> page dvd swa \<and> 0 < full \<and> of_int swa \<le> of_int full * sc_ratio c
     \<and> (\<forall>w. sc_window c = Some w \<longrightarrow> w + sc_page c < swa)
     \<and> full * (full_cell_bytes c + sc_draft_cell c) + swa * swa_cell_bytes c \<le> available"
proof -
  define cell where "cell = recompute_cell_size c"
  define n where "n = \<lfloor>of_int available / cell\<rfloor>"
  define full where "full = page_floor n page"
  define swa where "swa = ratio_tokens c full page"
  have pos: "0 < full_cell_bytes c" "0 \<le> swa_cell_bytes c" "0 \<le> sc_draft_cell c" "0 \<le> sc_ratio c" "sc_full_layers c \<noteq> 0"
    using c(1) by (auto simp: conf_ok_def full_cell_bytes_def swa_cell_bytes_def intro!: add_pos_nonneg mult_pos_pos)
  have cell: "0 < cell" unfolding cell_def cell_split [OF pos(5)] using pos by (intro add_pos_nonneg mult_nonneg_nonneg) simp_all
  have "sc_cell c \<noteq> 0" using cell c(4) by (simp add: cell_def)
  then have r: "solve_pool_sizes c n page = Inr p"
    using res plain c(4) by (auto simp: swa_pool_sizes_def n_def cell_def)
  then have p: "p = (plain_config full)\<lparr>pc_full := Some full, pc_swa := Some swa\<rparr>" "0 < full"
    "\<forall>w. sc_window c = Some w \<longrightarrow> w + sc_page c < swa"
    using pos(5) by (auto simp: solve_pool_sizes_def full_def swa_def Let_def ensure_Inr make_config_Inr plain_config_def
        split: option.splits)
  have "full \<le> n" using page_floor_le [OF c(2)] by (simp add: full_def)
  have "of_int full * cell \<le> of_int n * cell" using \<open>full \<le> n\<close> cell by (intro mult_right_mono) simp_all
  also have "\<dots> \<le> of_int available / cell * cell" using cell by (intro mult_right_mono) (simp_all add: n_def)
  also have "\<dots> = of_int available" using cell by simp
  finally have fits: "of_int full * cell \<le> (of_int available :: rat)" .
  have "0 \<le> of_int full * sc_ratio c" using p(2) pos(4) by simp
  then have ratio: "of_int swa \<le> of_int full * sc_ratio c"
    unfolding swa_def ratio_tokens_def
    by (metis (no_types, opaque_lifting) c(2) of_int_le_iff order.trans page_floor_le py_int_le)
  have "of_int (swa * swa_cell_bytes c) \<le> of_int full * sc_ratio c * of_int (swa_cell_bytes c)"
    using mult_right_mono [OF ratio, of "of_int (swa_cell_bytes c)"] pos(2) by simp
  then have "of_int (full * (full_cell_bytes c + sc_draft_cell c) + swa * swa_cell_bytes c) \<le> of_int full * cell"
    unfolding cell_def cell_split [OF pos(5)] by (simp add: algebra_simps)
  then have "of_int (full * (full_cell_bytes c + sc_draft_cell c) + swa * swa_cell_bytes c) \<le> (of_int available :: rat)"
    using fits by (rule order.trans)
  then have "full * (full_cell_bytes c + sc_draft_cell c) + swa * swa_cell_bytes c \<le> available" by linarith
  moreover have "page dvd full" "page dvd swa" by (simp_all add: full_def swa_def ratio_tokens_def)
  ultimately show ?thesis using p ratio by (simp add: plain_config_def)
qed

section \<open>The budget of a window cap\<close>

text \<open>Sizing the window pool from the request cap: a configuration that is returned gives the
  window pool at least the cap, the full pool whole pages, and the bytes of both pools with their
  EAGLE draft layers fit in the budget.\<close>

theorem window_cap_fits_budget:
  assumes c: "conf_ok c" "0 < page" "align_ok align page"
    and plain: "\<not> (sc_unified c \<and> draft_pool_bytes_per_token c > 0)"
    and res: "chunk_cap_pool_sizes align c cap available page = Inr p"
  shows "\<exists>full swa. pc_full p = Some full \<and> pc_swa p = Some swa \<and> 0 < full \<and> page dvd full \<and> cap \<le> swa
     \<and> full * full_cell_bytes c + swa * swa_cell_bytes c \<le> available"
proof -
  define swa where "swa = align cap page"
  define full where "full = page_floor ((available - swa * swa_cell_bytes c) div full_cell_bytes c) page"
  have pos: "0 < full_cell_bytes c"
    using c(1) by (auto simp: conf_ok_def full_cell_bytes_def intro!: add_pos_nonneg mult_pos_pos)
  have p: "p = (plain_config full)\<lparr>pc_full := Some full, pc_swa := Some swa\<rparr>" "0 < full"
    using res plain pos by (auto simp: chunk_cap_pool_sizes_def Let_def swa_def full_def full_cell_bytes_def
        swa_cell_bytes_def ensure_Inr make_config_Inr mult.assoc)
  have "full \<le> (available - swa * swa_cell_bytes c) div full_cell_bytes c"
    unfolding full_def by (rule page_floor_le [OF c(2)])
  then have "full * full_cell_bytes c \<le> (available - swa * swa_cell_bytes c) div full_cell_bytes c * full_cell_bytes c"
    using pos by (simp add: mult_right_mono)
  also have "\<dots> \<le> available - swa * swa_cell_bytes c" by (rule div_mult_le_self [OF pos])
  finally have "full * full_cell_bytes c + swa * swa_cell_bytes c \<le> available" by linarith
  then show ?thesis using p c(3) by (auto simp: full_def swa_def align_ok_def plain_config_def)
qed

text \<open>The cap path divides by \<open>full_cell_size\<close>, which leaves out the separate cell of a DFLASH draft that
  the ratio path prices: with such a draft the pools exceed the budget.\<close>

definition demo_conf :: swa_conf where
  "demo_conf = \<lparr>sc_full_layers = 2, sc_swa_layers = 2, sc_ratio = 1 / 2, sc_window = Some 10, sc_page = 64, sc_unified = False,
     sc_full_pt = 10, sc_swa_pt = 10, sc_d_full = 0, sc_d_swa = 0, sc_d_swa_full = 0, sc_draft_cell = 5, sc_cell = 35\<rparr>"

definition demo_align :: "int \<Rightarrow> int \<Rightarrow> int" where
  "demo_align x p = - ((- x) div p) * p"

lemma demo_align_ok: "0 < p \<Longrightarrow> align_ok demo_align p"
proof -
  assume p: "0 < p"
  have "demo_align x p \<le> demo_align y p" if "x \<le> y" for x y
    using p that zdiv_mono1 [of "- y" "- x" p] by (simp add: demo_align_def mult_right_mono)
  then show "align_ok demo_align p" using neg_div_neg_ge [OF p] by (simp add: align_ok_def demo_align_def)
qed

lemma demo_conf_ok: "conf_ok demo_conf" "sc_cell demo_conf = recompute_cell_size demo_conf"
  by (simp_all add: conf_ok_def demo_conf_def recompute_cell_size_def)

lemma window_cap_omits_dflash_draft:
  "\<exists>p full swa. chunk_cap_pool_sizes demo_align demo_conf 64 9000 64 = Inr p \<and> pc_full p = Some full \<and> pc_swa p = Some swa
     \<and> full * (full_cell_bytes demo_conf + sc_draft_cell demo_conf) + swa * swa_cell_bytes demo_conf > 9000"
proof -
  have "map_sum id (\<lambda>p. (pc_full p, pc_swa p)) (chunk_cap_pool_sizes demo_align demo_conf 64 9000 64) = Inr (Some 384, Some 64)"
    by code_simp
  then obtain p where "chunk_cap_pool_sizes demo_align demo_conf 64 9000 64 = Inr p" "pc_full p = Some 384" "pc_swa p = Some 64"
    by (cases "chunk_cap_pool_sizes demo_align demo_conf 64 9000 64") auto
  then show ?thesis by (simp add: full_cell_bytes_def swa_cell_bytes_def demo_conf_def)
qed

lemma unified_search_is_largest_witness:
  "max_unified_full_tokens demo_align demo_conf 9000 64 None = Inr 192
   \<and> 9000 < allocation_bytes demo_align demo_conf 64 None 4"
proof
  show r: "max_unified_full_tokens demo_align demo_conf 9000 64 None = Inr 192" by code_simp
  obtain k where k: "max_unified_full_tokens demo_align demo_conf 9000 64 None = Inr (k * 64)"
    "\<forall>p > k. 9000 < allocation_bytes demo_align demo_conf 64 None p"
    using unified_search_is_largest [OF demo_conf_ok(1) _ demo_align_ok, of 64 None 9000] by auto
  have "k = 3" using k(1) r by simp
  then show "9000 < allocation_bytes demo_align demo_conf 64 None 4" using k(2) by simp
qed

lemma ratio_split_fits_budget_witness:
  "\<exists>p full swa. swa_pool_sizes demo_align demo_conf 9000 64 = Inr p \<and> pc_full p = Some full \<and> pc_swa p = Some swa
     \<and> full * 25 + swa * 20 \<le> 9000"
proof -
  have "map_sum id pc_max_total (swa_pool_sizes demo_align demo_conf 9000 64) = Inr 256" by code_simp
  then obtain p where p: "swa_pool_sizes demo_align demo_conf 9000 64 = Inr p"
    by (cases "swa_pool_sizes demo_align demo_conf 9000 64") auto
  show ?thesis
    using ratio_split_fits_budget [OF demo_conf_ok(1) _ _ demo_conf_ok(2) _ p] p
    by (auto simp: demo_conf_def full_cell_bytes_def swa_cell_bytes_def)
qed

lemma window_cap_fits_budget_witness:
  "\<exists>p full swa. chunk_cap_pool_sizes demo_align demo_conf 64 9000 64 = Inr p \<and> pc_full p = Some full \<and> pc_swa p = Some swa
     \<and> full * 20 + swa * 20 \<le> 9000"
proof -
  obtain p where p: "chunk_cap_pool_sizes demo_align demo_conf 64 9000 64 = Inr p"
    using window_cap_omits_dflash_draft by blast
  show ?thesis
    using window_cap_fits_budget [OF demo_conf_ok(1) _ demo_align_ok _ p] p
    by (auto simp: demo_conf_def full_cell_bytes_def swa_cell_bytes_def)
qed

text \<open>Under a user token limit below the cap the window pool takes the limit as it is, not rounded to
  pages.\<close>

lemma window_cap_from_max_unaligned:
  "\<exists>p. chunk_cap_from_max demo_align 128 100 64 = Inr p \<and> pc_swa p = Some 100 \<and> \<not> (64 dvd (100::int))"
proof -
  have "map_sum id pc_swa (chunk_cap_from_max demo_align 128 100 64) = Inr (Some 100)" by code_simp
  then show ?thesis by (cases "chunk_cap_from_max demo_align 128 100 64") auto
qed

end
