(* ===== verification/PoolDsv4.thy ===== *)
theory PoolDsv4
  imports PoolSwa KVLayout
begin

text \<open>
  Sizing of the DeepSeek-V4 pools (\<open>sglang-overlay/pool_configurator.py\<close>, \<open>DSV4PoolConfigurator\<close> and
  the factory): the full, window, ratio-4 and ratio-128 pools and the compressor states, the cap or
  ratio sizing of the window pool, the request window, the reserve of the draft worker, and the
  checks of the compressor-state rings (theory KVLayout).
\<close>

section \<open>State\<close>

record dsv4_view =
  dv_kv :: kv_view
  dv_nope :: int
  dv_rope :: int
  dv_index_dim :: int
  dv_ratios :: "int list"
  dv_kv_source :: "nat list"
  dv_swa_page :: int
  dv_ratio :: rat
  dv_default_ratio :: rat
  dv_window :: "int option"
  dv_page :: int
  dv_is_spec :: bool
  dv_draft_tokens :: "int option"
  dv_dp :: int
  dv_max_running :: "int option"
  dv_decode_rank :: bool
  dv_extra_slots :: "int option"
  dv_hip_fp4 :: bool
  dv_layout :: string
  dv_comp_layout :: string
  dv_sm120 :: bool
  dv_replay :: bool
  dv_chunk :: "int option"
  dv_prefix_tails :: "int option"
  dv_no_radix :: bool
  dv_state_dtype :: string
  dv_online :: bool
  dv_online_mtp :: bool
  dv_cap :: cap_view
  dv_align :: "int \<Rightarrow> int \<Rightarrow> int"
  dv_ceil_div :: "int \<Rightarrow> int \<Rightarrow> int"

record dsv4_conf =
  d4_view :: dsv4_view
  d4_head_dim :: int
  d4_kv_bytes :: int
  d4_index_bytes :: int
  d4_ratios :: "int list"
  d4_swa_ratio :: rat
  d4_requested :: "int option"
  d4_shrink :: int
  d4_c4_ring :: int
  d4_c128_ring :: int
  d4_layers4 :: int
  d4_layers128 :: int
  d4_low_bytes :: rat
  d4_paged_draft :: int
  d4_window_bytes :: int
  d4_tails :: int
  d4_cap :: "int option"
  d4_swa_token_bytes :: rat
  d4_full_token_bytes :: rat

definition operator_swa_ratio :: "dsv4_view \<Rightarrow> rat option" where
  "operator_swa_ratio v = (if dv_ratio v = dv_default_ratio v then None else Some (dv_ratio v))"

definition requested_per_worker :: "dsv4_view \<Rightarrow> int option" where
  "requested_per_worker v = map_option (\<lambda>n. n div dv_dp v) (dv_max_running v)"

definition draft_tokens :: "dsv4_view \<Rightarrow> int" where
  "draft_tokens v = (case dv_draft_tokens v of None \<Rightarrow> 0 | Some n \<Rightarrow> n)"

definition dtype_size :: "dsv4_view \<Rightarrow> int res" where
  "dtype_size v = res_map fst (get_dsv4_compress_state_dtype_sizes (dv_state_dtype v))"

section \<open>The pieces of the constructor\<close>

definition count_ratio :: "int \<Rightarrow> int list \<Rightarrow> int" where
  "count_ratio r rs = int (length (filter (\<lambda>x. x = r) rs))"

definition low_ratio_kv_bytes :: "dsv4_view \<Rightarrow> int \<Rightarrow> int res" where
  "low_ratio_kv_bytes v kv_bytes =
     (let layout = py_lower (dv_layout v); opt = py_lower (dv_comp_layout v);
          fp4 = (layout = ''fork-v4-fp4'' \<and> (opt = ''auto'' \<or> opt = ''fp4'')) \<or> (layout = ''v41'' \<and> opt = ''fp4'')
      in if layout \<in> {''fork-v4-fp4'', ''v41''} \<and> fp4
         then ensure (dv_sm120 v) AssertionError (Inr (256 + 32)) else Inr kv_bytes)"

definition low_ratio_bytes :: "dsv4_view \<Rightarrow> int \<Rightarrow> rat" where
  "low_ratio_bytes v latent =
     (let mine = filter (\<lambda>l. kw_start (dv_kv v) \<le> int l \<and> int l < kw_end (dv_kv v)
                   \<and> (dv_ratios v ! l = 1 \<or> dv_ratios v ! l = 2)) (dv_kv_source v)
      in sum_list (map (\<lambda>l. of_int (latent + get_dsv4_indexer_bytes_per_token (dv_index_dim v) True)
            / of_int (dv_ratios v ! l)) mine))"

text \<open>Every ring of a ratio the stage uses must serve the draft count (online c128 keeps no ring).\<close>

definition ring_serves :: "dsv4_view \<Rightarrow> int \<Rightarrow> int \<Rightarrow> int \<Rightarrow> int \<Rightarrow> bool" where
  "ring_serves v ratio ring layers n \<longleftrightarrow> layers = 0 \<or> (ratio = 128 \<and> dv_online v)
     \<or> n \<le> get_compress_state_write_pad ratio ring"

definition request_window_bytes :: "dsv4_view \<Rightarrow> int \<Rightarrow> int \<Rightarrow> int \<Rightarrow> int res" where
  "request_window_bytes v kv_bytes head_dim layers =
     (case (requested_per_worker v, dv_window v, dv_chunk v) of
        (Some n, Some w, Some chunk) \<Rightarrow>
          let slots = n + 1;
              capacity = dv_align v (w + draft_tokens v) (dv_page v);
              scratch = max chunk (slots * max 128 (draft_tokens v)) + slots * 128 + dv_page v
          in Inr ((slots * capacity + dv_page v) * layers * (kv_bytes + 16) + 4 * scratch * (kv_bytes + 16)
                  + slots * 3 * 16 * head_dim * 8)
      | _ \<Rightarrow> Inl TypeError)"

definition resolve_swa_prefix_tails :: "dsv4_view \<Rightarrow> int" where
  "resolve_swa_prefix_tails v =
     (case dv_prefix_tails v of Some t \<Rightarrow> t
      | None \<Rightarrow> if dv_no_radix v then 0
                else case requested_per_worker v of Some n \<Rightarrow> 4 * n | None \<Rightarrow> 0)"

definition resolve_swa_cap_tokens :: "dsv4_view \<Rightarrow> int \<Rightarrow> int option" where
  "resolve_swa_cap_tokens v tails =
     (if operator_swa_ratio v \<noteq> None then None
      else case (requested_per_worker v, dv_window v) of
        (Some _, Some w) \<Rightarrow>
          if \<not> dv_decode_rank v \<and> (case dv_chunk v of None \<Rightarrow> True | Some c \<Rightarrow> c \<le> 0) then None
          else Some (dv_align v (compute_swa_request_cap (dv_cap v) (dv_page v) w (dv_dp v)
                 + tails * (w + dv_page v)) (dv_page v))
      | _ \<Rightarrow> None)"

definition bytes_per_swa_token :: "dsv4_view \<Rightarrow> int \<Rightarrow> int \<Rightarrow> int \<Rightarrow> int \<Rightarrow> int \<Rightarrow> int \<Rightarrow> rat res" where
  "bytes_per_swa_token v kv_bytes head_dim paged_draft ring4 layers layers4 =
     (if dv_replay v then Inr (of_int (kv_bytes * paged_draft))
      else res_bind (dtype_size v) (\<lambda>d.
        ensure (dv_swa_page v \<noteq> 0) ZeroDivisionError
         (Inr (of_int (kv_bytes * layers)
            + of_int ring4 / of_int (dv_swa_page v)
              * of_int (2 * 2 * head_dim * d + 2 * 2 * dv_index_dim v * d) * of_int layers4))))"

definition bytes_per_full_token ::
    "dsv4_view \<Rightarrow> int option \<Rightarrow> rat \<Rightarrow> rat \<Rightarrow> rat \<Rightarrow> int \<Rightarrow> int \<Rightarrow> int \<Rightarrow> int \<Rightarrow> int \<Rightarrow> rat res" where
  "bytes_per_full_token v cap ratio swa_bytes low kv_bytes index_bytes shrink layers4 layers128 =
     res_map (\<lambda>_. (if cap \<noteq> None then 0 else ratio) * swa_bytes + low
         + 1 / of_int (4 * shrink) * of_int kv_bytes * of_int layers4
         + 1 / 128 * of_int kv_bytes * of_int layers128
         + 1 / 4 * of_int index_bytes * of_int layers4) (dtype_size v)"

definition online_ok :: "dsv4_view \<Rightarrow> bool" where
  "online_ok v \<longleftrightarrow> \<not> dv_online v
     \<or> (let allow = dv_online_mtp v \<and> kw_spec (dv_kv v) = SpecEagle
        in (kw_spec (dv_kv v) = SpecNone \<or> allow) \<and> (allow \<longrightarrow> draft_tokens v > 0))"

section \<open>The constructor\<close>

definition dsv4_init :: "dsv4_view \<Rightarrow> dsv4_conf res" where
  "dsv4_init v =
     (let k = dv_kv v; head_dim = dv_nope v + dv_rope v; kv_bytes = dv_nope v + dv_rope v * 2 + 8;
          index_bytes = get_dsv4_indexer_bytes_per_token (dv_index_dim v) (dv_hip_fp4 v);
          ratios = take (nat (kw_end k - kw_start k)) (drop (nat (kw_start k)) (dv_ratios v));
          layers = int (length ratios); layers4 = count_ratio 4 ratios; layers128 = count_ratio 128 ratios;
          shrink = (case kw_hisparse_ratio k of None \<Rightarrow> 1 | Some r \<Rightarrow> r);
          ratio0 = (case operator_swa_ratio v of Some r \<Rightarrow> r | None \<Rightarrow> 1 / 10) in
      ensure (shrink \<ge> 1) AssertionError
      (res_bind (get_compress_state_ring_size (dv_online v) (dv_online_mtp v) 4 (dv_is_spec v) 0) (\<lambda>ring4.
       res_bind (get_compress_state_ring_size (dv_online v) (dv_online_mtp v) 128 (dv_is_spec v) 0) (\<lambda>ring128.
       res_bind (low_ratio_kv_bytes v kv_bytes) (\<lambda>latent.
       ensure (\<forall>l \<in> set (dv_kv_source v). kw_start k \<le> int l \<and> int l < kw_end k \<longrightarrow> l < length (dv_ratios v)) IndexError
       (ensure (dv_is_spec v \<longrightarrow> ring_serves v 4 ring4 layers4 (draft_tokens v)
                 \<and> ring_serves v 128 ring128 layers128 (draft_tokens v)) AssertionError
       (let draft = (if dv_replay v \<and> kw_spec k = SpecDspark
                     then (case kw_dflash_layers k of None \<Rightarrow> 0 | Some d \<Rightarrow> d) else 0) in
        ensure (dv_replay v \<and> kw_spec k = SpecDspark \<longrightarrow> draft > 0) AssertionError
        (res_bind (if dv_replay v then request_window_bytes v kv_bytes head_dim layers else Inr 0) (\<lambda>window.
         let ratio = (if dv_replay v \<and> draft = 0 then 0 else ratio0);
             tails = resolve_swa_prefix_tails v;
             cap = (if dv_replay v \<and> draft = 0 then Some 0 else resolve_swa_cap_tokens v tails);
             low = low_ratio_bytes v latent in
         res_bind (bytes_per_swa_token v kv_bytes head_dim draft ring4 layers layers4) (\<lambda>swa_bytes.
         res_bind (bytes_per_full_token v cap ratio swa_bytes low kv_bytes index_bytes shrink layers4 layers128) (\<lambda>full_bytes.
         ensure (dv_is_spec v \<and> \<not> dv_replay v \<longrightarrow> layers \<noteq> 0) ZeroDivisionError
         (let scale = (if dv_is_spec v \<and> \<not> dv_replay v then of_int (layers + 1) / of_int layers else 1) in
          ensure (online_ok v) AssertionError
          (Inr \<lparr>d4_view = v, d4_head_dim = head_dim, d4_kv_bytes = kv_bytes, d4_index_bytes = index_bytes,
             d4_ratios = ratios, d4_swa_ratio = ratio, d4_requested = requested_per_worker v, d4_shrink = shrink,
             d4_c4_ring = ring4, d4_c128_ring = ring128, d4_layers4 = layers4, d4_layers128 = layers128,
             d4_low_bytes = low, d4_paged_draft = draft, d4_window_bytes = window, d4_tails = tails, d4_cap = cap,
             d4_swa_token_bytes = swa_bytes * scale, d4_full_token_bytes = full_bytes * scale\<rparr>)))))))))))))"

section \<open>Sizes\<close>


definition get_swa_tokens :: "dsv4_conf \<Rightarrow> int \<Rightarrow> int \<Rightarrow> int" where
  "get_swa_tokens c full page = (case d4_cap c of None \<Rightarrow> page_floor (py_int (of_int full * d4_swa_ratio c)) page
     | Some n \<Rightarrow> n)"

definition compute_dsv4_sizes :: "dsv4_conf \<Rightarrow> int \<Rightarrow> int \<Rightarrow> pool_config" where
  "compute_dsv4_sizes c full_token page =
     (let full = page_floor full_token page; swa = get_swa_tokens c full page
      in (plain_config full)\<lparr>pc_full := Some full, pc_swa := Some swa, pc_c4 := full div (4 * d4_shrink c),
           pc_c128 := full div 128, pc_c4_state := swa div dv_swa_page (d4_view c) * d4_c4_ring c, pc_c128_state := 0\<rparr>)"






definition dsv4_pool_sizes_from_max :: "dsv4_conf \<Rightarrow> int \<Rightarrow> int \<Rightarrow> pool_config res" where
  "dsv4_pool_sizes_from_max c max_total page =
     ensure (page mod 128 = 0) AssertionError (make_config (compute_dsv4_sizes c max_total page))"

section \<open>The factory\<close>

datatype configurator = Dsv4Conf dsv4_conf | ChunkCapConf swa_conf int | HybridConf swa_conf | DefaultConf default_conf

definition create_memory_pool_configurator ::
    "bool \<Rightarrow> bool \<Rightarrow> bool \<Rightarrow> swa_view \<Rightarrow> dsv4_view \<Rightarrow> configurator res" where
  "create_memory_pool_configurator is_v4 hybrid_swa no_radix sv dv =
     (if is_v4 \<and> hybrid_swa then res_map Dsv4Conf (dsv4_init dv)
      else if hybrid_swa then
        if chunk_cap_applicable (dv_max_running dv) no_radix (dv_chunk dv) sv
        then res_map (\<lambda>(c, n). ChunkCapConf c n) (chunk_cap_init sv (dv_cap dv) (dv_dp dv))
        else res_map HybridConf (swa_init sv)
      else Inr (DefaultConf (default_init (sv_kv sv))))"

section \<open>The budget\<close>

text \<open>The reserve of the speculative draft worker: one more layer than the target has.\<close>

definition draft_scale :: "dsv4_conf \<Rightarrow> rat" where
  "draft_scale c = (if dv_is_spec (d4_view c) \<and> \<not> dv_replay (d4_view c)
     then of_int (int (length (d4_ratios c)) + 1) / of_int (int (length (d4_ratios c))) else 1)"



text \<open>The running requests whose ratio-128 states the sizing reserves for: the requested number, or
  an estimate from the token capacity of the whole budget, between 2048 and 4096 but at most one
  request for every two tokens.\<close>

definition reserved_requests :: "dsv4_conf \<Rightarrow> int \<Rightarrow> int" where
  "reserved_requests c capacity = (case d4_requested c of Some n \<Rightarrow> n
     | None \<Rightarrow> min (max (min (py_int (of_int capacity / of_int (kw_context_len (dv_kv (d4_view c))) * 512)) 4096) 2048)
                  (capacity div 2))"






lemma count_ratio_nonneg [simp]: "0 \<le> count_ratio r rs"
  by (simp add: count_ratio_def)

text \<open>What the constructor establishes: the prices, and the rings serving the draft count.\<close>

definition stage_ratios :: "dsv4_view \<Rightarrow> int list" where
  "stage_ratios v = take (nat (kw_end (dv_kv v) - kw_start (dv_kv v))) (drop (nat (kw_start (dv_kv v))) (dv_ratios v))"

lemma dsv4_init_Inr:
  assumes c: "dsv4_init v = Inr c"
  obtains ring4 ring128 latent swab fullb where
    "get_compress_state_ring_size (dv_online v) (dv_online_mtp v) 4 (dv_is_spec v) 0 = Inr ring4"
    "get_compress_state_ring_size (dv_online v) (dv_online_mtp v) 128 (dv_is_spec v) 0 = Inr ring128"
    "low_ratio_kv_bytes v (d4_kv_bytes c) = Inr latent"
    "dv_is_spec v \<longrightarrow> ring_serves v 4 ring4 (d4_layers4 c) (draft_tokens v)
       \<and> ring_serves v 128 ring128 (d4_layers128 c) (draft_tokens v)"
    "bytes_per_swa_token v (d4_kv_bytes c) (d4_head_dim c) (d4_paged_draft c) ring4 (int (length (d4_ratios c))) (d4_layers4 c) = Inr swab"
    "bytes_per_full_token v (d4_cap c) (d4_swa_ratio c) swab (d4_low_bytes c) (d4_kv_bytes c) (d4_index_bytes c) (d4_shrink c)
       (d4_layers4 c) (d4_layers128 c) = Inr fullb"
    "d4_view c = v" "d4_kv_bytes c = dv_nope v + dv_rope v * 2 + 8" "d4_head_dim c = dv_nope v + dv_rope v"
    "d4_index_bytes c = get_dsv4_indexer_bytes_per_token (dv_index_dim v) (dv_hip_fp4 v)" "d4_ratios c = stage_ratios v"
    "d4_layers4 c = count_ratio 4 (stage_ratios v)" "d4_layers128 c = count_ratio 128 (stage_ratios v)" "1 \<le> d4_shrink c"
    "d4_low_bytes c = low_ratio_bytes v latent" "d4_c4_ring c = ring4" "d4_c128_ring c = ring128"
    "d4_swa_ratio c = 0 \<or> d4_swa_ratio c = (case operator_swa_ratio v of Some r \<Rightarrow> r | None \<Rightarrow> 1 / 10)"
    "0 \<le> d4_paged_draft c" "dv_is_spec v \<and> \<not> dv_replay v \<longrightarrow> stage_ratios v \<noteq> []"
    "d4_swa_token_bytes c = swab * draft_scale c" "d4_full_token_bytes c = fullb * draft_scale c"
proof -
  define draft where "draft = (if dv_replay v \<and> kw_spec (dv_kv v) = SpecDspark
     then (case kw_dflash_layers (dv_kv v) of None \<Rightarrow> 0 | Some d \<Rightarrow> d) else 0)"
  note e = c [unfolded dsv4_init_def Let_def ensure_Inr res_bind_Inr, folded stage_ratios_def draft_def]
  have d: "0 \<le> draft" using e by (auto simp: draft_def split: if_splits)
  from e show thesis
    by (elim conjE exE, intro that) (assumption | use d in \<open>force simp: draft_scale_def\<close>)+
qed






text \<open>The compressor-state rings serve speculation: a configurator that is built for a
  speculative server (with ring-kept states, not the online ones) has at most 10 draft tokens when
  the stage has ratio-4 layers and at most 130 when it has ratio-128 layers, which is what the write
  pad of the rings it chose (16 and 256 states) allows; a larger draft count makes the constructor
  raise.\<close>

theorem dsv4_rings_serve_drafts:
  assumes "dv_is_spec v" "\<not> dv_online v" "dsv4_init v = Inr c"
  shows "d4_c4_ring c = 16 \<and> d4_c128_ring c = 256
    \<and> (4 \<in> set (d4_ratios c) \<longrightarrow> draft_tokens v \<le> 10) \<and> (128 \<in> set (d4_ratios c) \<longrightarrow> draft_tokens v \<le> 130)"
proof -
  have count: "count_ratio r rs = 0 \<longleftrightarrow> r \<notin> set rs" for r rs by (auto simp: count_ratio_def filter_empty_conv)
  obtain ring4 ring128 where f:
    "get_compress_state_ring_size (dv_online v) (dv_online_mtp v) 4 (dv_is_spec v) 0 = Inr ring4"
    "get_compress_state_ring_size (dv_online v) (dv_online_mtp v) 128 (dv_is_spec v) 0 = Inr ring128"
    "dv_is_spec v \<longrightarrow> ring_serves v 4 ring4 (d4_layers4 c) (draft_tokens v)
       \<and> ring_serves v 128 ring128 (d4_layers128 c) (draft_tokens v)"
    "d4_ratios c = stage_ratios v" "d4_layers4 c = count_ratio 4 (stage_ratios v)" "d4_layers128 c = count_ratio 128 (stage_ratios v)"
    "d4_c4_ring c = ring4" "d4_c128_ring c = ring128"
    by (rule dsv4_init_Inr [OF assms(3)])
  then show ?thesis using assms(1,2)
    by (auto simp: get_compress_state_ring_size_def ensure_Inr ring_serves_def get_compress_state_write_pad_def count)
qed

section \<open>A speculative server with four layers\<close>

definition demo_kv :: kv_view where
  "demo_kv = \<lparr>kw_dtype_str = ''auto'', kw_kv_size = 1, kw_fp4 = False, kw_model_size = 2, kw_mamba_layers = None,
     kw_start = 0, kw_end = 4, kw_effective = 4, kw_pp_size = 1, kw_context_len = 4096, kw_draft_worker = False,
     kw_spec = SpecEagle, kw_eagle_layers = None, kw_dflash_layers = None, kw_dflash_cell = None,
     kw_dflash_scale = (\<lambda>x _ _ _. x), kw_mla = True, kw_dsa = False, kw_minimax = False, kw_mla_dim = 64,
     kw_lora_rank = 32, kw_rope_dim = 16, kw_head_dim = 64, kw_v_head_dim = 64, kw_heads = (\<lambda>_ _. 1), kw_tp_heads = (\<lambda>_. 1),
     kw_tp = 1, kw_dcp = 1, kw_glm_layers = (\<lambda>n. n), kw_dense_ids = [], kw_sparse_ids = [], kw_k_only_ids = [],
     kw_index_dim = 128, kw_dsa_index_dim = 128, kw_quant_block = 128, kw_index_size = 1, kw_hisparse_ratio = None,
     kw_elide_k = False, kw_skips_topk = (\<lambda>_. False), kw_shard_size = 1, kw_shard_range = (\<lambda>_ _ _. (0, 0)),
     kw_max_total_tokens = None\<rparr>"

definition demo_view :: dsv4_view where
  "demo_view = \<lparr>dv_kv = demo_kv, dv_nope = 448, dv_rope = 64, dv_index_dim = 128, dv_ratios = [1, 4, 128, 4],
     dv_kv_source = [0], dv_swa_page = 128, dv_ratio = 1 / 10, dv_default_ratio = 1 / 10, dv_window = Some 128, dv_page = 256,
     dv_is_spec = True, dv_draft_tokens = Some 4, dv_dp = 1, dv_max_running = Some 2, dv_decode_rank = False,
     dv_extra_slots = None, dv_hip_fp4 = False, dv_layout = ''v4'', dv_comp_layout = ''auto'', dv_sm120 = True,
     dv_replay = False, dv_chunk = Some 512, dv_prefix_tails = Some 1, dv_no_radix = False, dv_state_dtype = ''float32'',
     dv_online = False, dv_online_mtp = False,
     dv_cap = \<lparr>cv_draft_tokens = Some 4, cv_interval = 1, cv_speculative = True, cv_no_overlap = False, cv_v1_alloc = 4,
       cv_alloc_len = 4, cv_max_running = 2, cv_decode_rank = False, cv_extra_slots = 0, cv_chunk = 512\<rparr>,
     dv_align = demo_align, dv_ceil_div = (\<lambda>a b. - ((- a) div b))\<rparr>"


text \<open>The same server without a requested number of running requests: the estimate is at its upper
  bound of 4096, and the reserve is taken for it.\<close>

lemma unrequested_reserve:
  "map_sum id (\<lambda>c. reserved_requests c (py_int (20000000000 / d4_full_token_bytes c))) (dsv4_init (demo_view\<lparr>dv_max_running := None\<rparr>))
     = Inr 4096"
  by code_simp

lemma dsv4_rings_serve_drafts_witness:
  "\<exists>c. dsv4_init demo_view = Inr c \<and> d4_c4_ring c = 16 \<and> d4_c128_ring c = 256 \<and> 4 \<in> set (d4_ratios c)"
proof -
  have r: "map_sum id d4_ratios (dsv4_init demo_view) = Inr [1, 4, 128, 4]" by code_simp
  then obtain c where c: "dsv4_init demo_view = Inr c" "d4_ratios c = [1, 4, 128, 4]"
    by (cases "dsv4_init demo_view") auto
  then show ?thesis using dsv4_rings_serve_drafts [OF _ _ c(1)] by (auto simp: demo_view_def)
qed

end
