(* ===== verification/Fp4Repack.thy ===== *)
theory Fp4Repack
  imports Prelude Complex_Main
begin

unbundle bit_operations_syntax

text \<open>
  The repack bridge (\<open>sglang-overlay/repack_fp4_to_v4.py\<close>): the kernel that gathers rows of an fp4
  pool into a scratch in the V4 layout, its launcher with the grow-only buffers, the torch reference,
  and the slicing of a batch by the scratch's row budget.  Memory is a list of bytes.  The
  floating-point operations of the hardware are a parameter; the reductions \<open>tl.max\<close> and \<open>amax\<close> are
  separate operations, which agree on numbers but not on NaN.
\<close>

section \<open>Floating-point operations\<close>

record 'f fops =
  f_lit :: "rat \<Rightarrow> 'f"
  f_e4m3 :: "nat \<Rightarrow> 'f"
  f_mul :: "'f \<Rightarrow> 'f \<Rightarrow> 'f"
  f_div :: "'f \<Rightarrow> 'f \<Rightarrow> 'f"
  f_neg :: "'f \<Rightarrow> 'f"
  f_abs :: "'f \<Rightarrow> 'f"
  f_tlmax :: "'f \<Rightarrow> 'f \<Rightarrow> 'f"
  f_amax :: "'f \<Rightarrow> 'f \<Rightarrow> 'f"
  f_bits :: "'f \<Rightarrow> int"
  f_of_bits :: "int \<Rightarrow> 'f"
  f_to_fp8 :: "'f \<Rightarrow> nat"
  f_to_bf16 :: "'f \<Rightarrow> nat \<times> nat"
  f_num :: "'f \<Rightarrow> bool"

definition e2m1_magnitudes :: "rat list" where
  "e2m1_magnitudes = [0, 1/2, 1, 3/2, 2, 3, 4, 6]"

text \<open>What the two paths rely on: multiplying by one and minus one, products of an fp4 value with a
  scale that is not NaN, and the two maxima on numbers.\<close>

definition fops_ok :: "'f fops \<Rightarrow> bool" where
  "fops_ok F \<longleftrightarrow>
     (\<forall>x. f_mul F x (f_lit F 1) = x) \<and> (\<forall>x. f_mul F x (f_lit F (- 1)) = f_neg F x)
   \<and> (\<forall>m \<in> set e2m1_magnitudes. \<forall>b g. b mod 128 \<noteq> 127 \<longrightarrow> g \<in> {0, 1} \<longrightarrow>
        f_num F (f_abs F (f_mul F (f_mul F (f_lit F m) (f_e4m3 F b)) (f_lit F g)))
        \<and> f_num F (f_abs F (f_mul F (f_mul F (f_neg F (f_lit F m)) (f_e4m3 F b)) (f_lit F g))))
   \<and> (\<forall>x y. f_num F x \<and> f_num F y \<longrightarrow> f_num F (f_tlmax F x y) \<and> f_amax F x y = f_tlmax F x y)
   \<and> (\<forall>x y z. f_num F x \<and> f_num F y \<and> f_num F z \<longrightarrow> f_tlmax F (f_tlmax F x y) z = f_tlmax F x (f_tlmax F y z))
   \<and> f_num F (f_lit F (1 / 10000))"

definition reduce1 :: "('f \<Rightarrow> 'f \<Rightarrow> 'f) \<Rightarrow> 'f list \<Rightarrow> 'f" where
  "reduce1 op xs = fold (\<lambda>x m. op m x) (tl xs) (hd xs)"

text \<open>The biased exponent of the scale: rounded up when the mantissa is not zero.\<close>

definition ue8m0 :: "'f fops \<Rightarrow> ('f \<Rightarrow> 'f \<Rightarrow> 'f) \<Rightarrow> 'f \<Rightarrow> int" where
  "ue8m0 F mx amax =
     (let u = f_bits F (f_div F (mx amax (f_lit F (1 / 10000))) (f_lit F 448))
      in (drop_bit 23 u AND 0xFF) + (if u AND 0x7FFFFF \<noteq> 0 then 1 else 0))"

definition inv_scale :: "'f fops \<Rightarrow> int \<Rightarrow> 'f" where
  "inv_scale F e = f_of_bits F (push_bit 23 (254 - e))"

definition u8 :: "int \<Rightarrow> nat" where "u8 x = nat (x mod 256)"

section \<open>Layout\<close>

definition SRC_DATA_BYTES :: int where "SRC_DATA_BYTES = 256"
definition SRC_SCALE_BYTES :: int where "SRC_SCALE_BYTES = 32"
definition DST_PAGE_SIZE :: int where "DST_PAGE_SIZE = 64"
definition DST_DATA_STRIDE :: int where "DST_DATA_STRIDE = 576"
definition DST_SCALE_STRIDE :: int where "DST_SCALE_STRIDE = 8"
definition DST_SCALE_OFF :: int where "DST_SCALE_OFF = DST_PAGE_SIZE * DST_DATA_STRIDE"
definition DST_PAGE_BYTES :: int where
  "DST_PAGE_BYTES = (DST_PAGE_SIZE * (DST_DATA_STRIDE + DST_SCALE_STRIDE) + 575) div 576 * 576"

lemmas layout_consts = SRC_DATA_BYTES_def SRC_SCALE_BYTES_def DST_PAGE_SIZE_def DST_DATA_STRIDE_def
  DST_SCALE_STRIDE_def DST_SCALE_OFF_def DST_PAGE_BYTES_def

section \<open>The kernel\<close>

text \<open>\<open>_e2m1_code_to_fp32\<close>: the magnitude from exponent and fraction, then the sign bit.\<close>

definition e2m1_code_to_fp32 :: "'f fops \<Rightarrow> nat \<Rightarrow> 'f" where
  "e2m1_code_to_fp32 F code =
     (let m = code mod 8; e = m div 2; f = (of_nat (m mod 2) :: rat);
          mag = (if e = 0 then f / 2 else 2 ^ (e - 1) * (1 + f / 2))
      in if code div 8 mod 2 = 1 then f_neg F (f_lit F mag) else f_lit F mag)"

record row_base =
  rb_data :: int
  rb_scale :: int
  rb_valid :: bool

definition k_row :: "int \<Rightarrow> nat \<Rightarrow> int \<Rightarrow> row_base" where
  "k_row page_bytes bits idx =
     (let loc = max idx 0; page = drop_bit bits loc; slot = loc AND (2 ^ bits - 1); base = page * page_bytes
      in \<lparr>rb_data = base + slot * SRC_DATA_BYTES, rb_scale = base + 2 ^ bits * SRC_DATA_BYTES + slot * SRC_SCALE_BYTES,
          rb_valid = (idx \<ge> 0)\<rparr>)"

definition nibble :: "bool \<Rightarrow> nat \<Rightarrow> nat" where
  "nibble hi b = (if hi then b div 16 else b mod 16)"

definition gate :: "'f fops \<Rightarrow> row_base \<Rightarrow> 'f" where
  "gate F r = f_lit F (if rb_valid r then 1 else 0)"

text \<open>A lane of the nope part (224 of 256 lanes are real) and of the rope part.\<close>

definition k_nope :: "'f fops \<Rightarrow> nat list \<Rightarrow> row_base \<Rightarrow> bool \<Rightarrow> nat \<Rightarrow> 'f" where
  "k_nope F src r hi b =
     (let packed = tl_load_mask src (rb_data r + int b) (b < 224) 0;
          scale = (if b < 224 then f_e4m3 F (tl_load src (rb_scale r + int (b div 8))) else f_lit F 0)
      in f_mul F (f_mul F (e2m1_code_to_fp32 F (nibble hi packed)) scale) (gate F r))"

definition k_rope :: "'f fops \<Rightarrow> nat list \<Rightarrow> row_base \<Rightarrow> bool \<Rightarrow> nat \<Rightarrow> 'f" where
  "k_rope F src r hi j =
     f_mul F (f_mul F (e2m1_code_to_fp32 F (nibble hi (tl_load src (rb_data r + 224 + int j))))
       (f_e4m3 F (tl_load src (rb_scale r + 28 + int (j div 8))))) (gate F r)"

definition k_abs :: "'f fops \<Rightarrow> nat list \<Rightarrow> row_base \<Rightarrow> bool \<Rightarrow> nat \<Rightarrow> 'f" where
  "k_abs F src r hi b = (if b < 224 then f_abs F (k_nope F src r hi b) else f_lit F 0)"

definition k_exp :: "'f fops \<Rightarrow> nat list \<Rightarrow> row_base \<Rightarrow> nat \<Rightarrow> int" where
  "k_exp F src r t = ue8m0 F (f_tlmax F) (reduce1 (f_tlmax F)
     (map (\<lambda>b. f_tlmax F (k_abs F src r False b) (k_abs F src r True b)) [32 * t ..< 32 * t + 32]))"

definition k_byte :: "'f fops \<Rightarrow> nat list \<Rightarrow> row_base \<Rightarrow> bool \<Rightarrow> nat \<Rightarrow> nat" where
  "k_byte F src r hi b = f_to_fp8 F (f_mul F (k_nope F src r hi b) (inv_scale F (k_exp F src r (b div 32))))"

text \<open>The stores of program \<open>pid\<close>, in order.\<close>

definition k_stores :: "'f fops \<Rightarrow> nat list \<Rightarrow> row_base \<Rightarrow> nat \<Rightarrow> (int \<times> nat) list" where
  "k_stores F src r pid =
     (let dst = int (pid div 64) * DST_PAGE_BYTES + int (pid mod 64) * DST_DATA_STRIDE;
          lanes = filter (\<lambda>b. b < 224) [0..<256]; rope_base = (dst + 448) div 2;
          foot = int (pid div 64) * DST_PAGE_BYTES + DST_SCALE_OFF + int (pid mod 64) * DST_SCALE_STRIDE;
          put16 = (\<lambda>e v. [(2 * e, fst v), (2 * e + 1, snd v)])
      in map (\<lambda>b. (dst + 2 * int b, k_byte F src r False b)) lanes
       @ map (\<lambda>b. (dst + 2 * int b + 1, k_byte F src r True b)) lanes
       @ concat (map (\<lambda>j. put16 (rope_base + 2 * int j) (f_to_bf16 F (k_rope F src r False j))) [0..<32])
       @ concat (map (\<lambda>j. put16 (rope_base + 2 * int j + 1) (f_to_bf16 F (k_rope F src r True j))) [0..<32])
       @ map (\<lambda>t. (foot + int t, u8 (if t < 7 then k_exp F src r t else 0))) [0..<8])"

definition repack_kernel :: "'f fops \<Rightarrow> nat list \<Rightarrow> int \<Rightarrow> nat \<Rightarrow> int list \<Rightarrow> nat \<Rightarrow> nat list \<Rightarrow> nat list" where
  "repack_kernel F src page_bytes bits idx pid dst =
     fold (\<lambda>(a, v) m. m[nat a := v]) (k_stores F src (k_row page_bytes bits (tl_load idx (int pid))) pid) dst"

section \<open>The torch reference\<close>

definition ref_row :: "int \<Rightarrow> int \<Rightarrow> int \<Rightarrow> row_base" where
  "ref_row page_bytes page_size idx =
     (let safe = max idx 0; base = safe div page_size * page_bytes; slot = safe mod page_size
      in \<lparr>rb_data = base + slot * SRC_DATA_BYTES,
          rb_scale = base + page_size * SRC_DATA_BYTES + slot * SRC_SCALE_BYTES, rb_valid = (idx \<ge> 0)\<rparr>)"

definition gather_rows :: "nat list \<Rightarrow> int list \<Rightarrow> nat \<Rightarrow> nat list list res" where
  "gather_rows src bases count = res_list (\<lambda>a. res_list (\<lambda>j. py_get src (a + int j)) [0..<count]) bases"

definition ref_decode :: "'f fops \<Rightarrow> nat \<Rightarrow> 'f" where
  "ref_decode F c = f_mul F (f_lit F (e2m1_magnitudes ! (c mod 8))) (f_lit F (if c \<ge> 8 then - 1 else 1))"

definition ref_vals :: "'f fops \<Rightarrow> bool \<Rightarrow> nat list \<Rightarrow> nat list \<Rightarrow> 'f list" where
  "ref_vals F valid packed scales =
     (let codes = concat (map (\<lambda>p. [p mod 16, p div 16]) packed);
          spread = concat (map (\<lambda>s. replicate 16 (f_e4m3 F s)) scales)
      in map2 (\<lambda>c s. f_mul F (f_mul F (ref_decode F c) s) (f_lit F (if valid then 1 else 0))) codes spread)"

definition ref_exps :: "'f fops \<Rightarrow> 'f list \<Rightarrow> int list" where
  "ref_exps F nope = map (\<lambda>t. ue8m0 F (f_amax F) (reduce1 (f_amax F) (map (f_abs F) (take 64 (drop (64 * t) nope))))) [0..<7]"

definition ref_data :: "'f fops \<Rightarrow> 'f list \<Rightarrow> nat list" where
  "ref_data F vals =
     (let nope = take 448 vals; rope = drop 448 vals; exps = ref_exps F nope
      in map (\<lambda>j. f_to_fp8 F (f_mul F (nope ! j) (inv_scale F (exps ! (j div 64))))) [0..<448]
         @ concat (map (\<lambda>v. [fst (f_to_bf16 F v), snd (f_to_bf16 F v)]) rope))"

definition ref_foot :: "'f fops \<Rightarrow> 'f list \<Rightarrow> nat list" where
  "ref_foot F vals = map u8 (ref_exps F (take 448 vals)) @ [0]"

definition num_dst_pages :: "nat \<Rightarrow> nat" where
  "num_dst_pages n = (n + 63) div 64"

definition dst_data :: "nat \<Rightarrow> int" where
  "dst_data i = int (i div 64) * DST_PAGE_BYTES + int (i mod 64) * DST_DATA_STRIDE"

definition dst_foot :: "nat \<Rightarrow> int" where
  "dst_foot i = int (i div 64) * DST_PAGE_BYTES + DST_SCALE_OFF + int (i mod 64) * DST_SCALE_STRIDE"

definition index_put :: "(nat \<Rightarrow> int) \<Rightarrow> nat list list \<Rightarrow> (int \<times> nat) list" where
  "index_put base rows = concat (map (\<lambda>i. map (\<lambda>j. (base i + int j, rows ! i ! j)) [0..<length (rows ! i)]) [0..<length rows])"

definition repack_ref :: "'f fops \<Rightarrow> nat list \<Rightarrow> int \<Rightarrow> int \<Rightarrow> int list \<Rightarrow> (nat list \<times> int list) res" where
  "repack_ref F pool page_bytes page_size idx =
     (let rows = map (ref_row page_bytes page_size) idx; n = length idx in
      res_bind (gather_rows pool (map rb_data rows) 256) (\<lambda>packed.
      res_bind (gather_rows pool (map rb_scale rows) 32) (\<lambda>scales.
      let vals = map (\<lambda>i. ref_vals F (rb_valid (rows ! i)) (packed ! i) (scales ! i)) [0..<n];
          zeros = replicate (num_dst_pages n * nat DST_PAGE_BYTES) 0;
          put = fold (\<lambda>(a, v) m. m[nat a := v])
      in Inr (put (index_put dst_foot (map (ref_foot F) vals)) (put (index_put dst_data (map (ref_data F) vals)) zeros),
              map int [0..<n]))))"

section \<open>The launcher\<close>

text \<open>Grow-only buffers: a request that fits takes a prefix of the buffer, a larger one replaces it and
  the old buffer stays referenced.  \<open>fresh\<close> is \<open>torch.empty\<close>: its content is unknown.\<close>

record 'a grow_buf =
  gb_buf :: "'a list option"
  gb_retired :: "'a list list"

definition persistent_buffer :: "(nat \<Rightarrow> 'a list) \<Rightarrow> nat \<Rightarrow> nat \<Rightarrow> 'a grow_buf \<Rightarrow> 'a list \<times> 'a grow_buf" where
  "persistent_buffer fresh rows width g =
     (case gb_buf g of
        Some b \<Rightarrow> if rows \<le> length b div width then (b, g)
                  else (let b' = fresh (rows * width) in (b', \<lparr>gb_buf = Some b', gb_retired = gb_retired g @ [b]\<rparr>))
      | None \<Rightarrow> (let b' = fresh (rows * width) in (b', g\<lparr>gb_buf := Some b'\<rparr>)))"

record bridge =
  br_scratch :: "nat grow_buf"
  br_ids :: "int grow_buf"
  br_filled :: nat

text \<open>The identity indices are filled once per allocation and served as a prefix.\<close>

definition bridge_ids :: "(nat \<Rightarrow> int list) \<Rightarrow> nat \<Rightarrow> bridge \<Rightarrow> int list \<times> bridge" where
  "bridge_ids fresh n s =
     (let (ids, g) = persistent_buffer fresh n 1 (br_ids s)
      in if br_filled s < n
         then let ids = map int [0..<n] @ drop n ids
              in (take n ids, s\<lparr>br_ids := g\<lparr>gb_buf := Some ids\<rparr>, br_filled := n\<rparr>)
         else (take n ids, s\<lparr>br_ids := g\<rparr>))"

definition repack_fp4_extra_to_v4 ::
    "'f fops \<Rightarrow> (nat \<Rightarrow> nat list) \<Rightarrow> (nat \<Rightarrow> int list) \<Rightarrow> nat list \<Rightarrow> nat list \<Rightarrow> int \<Rightarrow> int \<Rightarrow> int list \<Rightarrow> bridge
      \<Rightarrow> (nat list \<times> int list \<times> bridge) res" where
  "repack_fp4_extra_to_v4 F fresh fresh_ids pids pool page_bytes page_size indices s =
     ensure (page_size \<in> {128, 256}) AssertionError
     (ensure (page_bytes \<ge> page_size * (SRC_DATA_BYTES + SRC_SCALE_BYTES)) AssertionError
     (let idx = map i32 indices; n = length idx in
      ensure (n > 0) AssertionError
      (let (buf, g) = persistent_buffer fresh (num_dst_pages n) (nat DST_PAGE_BYTES) (br_scratch s);
           (ids, s) = bridge_ids fresh_ids n s;
           buf = fold (repack_kernel F pool page_bytes (bit_length page_size - 1) idx) pids buf
       in Inr (take (num_dst_pages n * nat DST_PAGE_BYTES) buf, ids,
               s\<lparr>br_scratch := g\<lparr>gb_buf := Some buf\<rparr>\<rparr>))))"

definition bridge_max_rows :: "int \<Rightarrow> int" where
  "bridge_max_rows scratch_mb = max 16 scratch_mb * 1024 * 1024 div DST_PAGE_BYTES * DST_PAGE_SIZE"

text \<open>\<open>range(0, n, step)\<close> for a positive step.\<close>

definition range_step :: "nat \<Rightarrow> nat \<Rightarrow> nat list" where
  "range_step n step = map (\<lambda>k. k * step) [0..<(n + step - 1) div step]"

definition bridge_slice_bounds :: "nat \<Rightarrow> nat \<Rightarrow> nat \<Rightarrow> nat list" where
  "bridge_slice_bounds num_tokens topk max_rows =
     (let step = max 1 (max_rows div max 1 topk)
      in if step \<ge> num_tokens then [0, num_tokens]
         else let bounds = range_step num_tokens step
              in if last bounds \<noteq> num_tokens then bounds @ [num_tokens] else bounds)"

section \<open>The two paths agree on a row\<close>

lemma k_row_eq: "k_row page_bytes bits idx = ref_row page_bytes (2 ^ bits) idx"
proof -
  have "x AND (2 ^ bits - 1) = x mod 2 ^ bits" for x :: int
    by (metis mask_eq_exp_minus_1 take_bit_eq_mask take_bit_eq_mod)
  then show ?thesis by (simp add: k_row_def ref_row_def Let_def drop_bit_eq_div)
qed

lemma code_cases:
  assumes "c < (16::nat)"
  obtains "c = 0" | "c = 1" | "c = 2" | "c = 3" | "c = 4" | "c = 5" | "c = 6" | "c = 7" | "c = 8" | "c = 9"
    | "c = 10" | "c = 11" | "c = 12" | "c = 13" | "c = 14" | "c = 15"
proof -
  have "c = 0 \<or> c = 1 \<or> c = 2 \<or> c = 3 \<or> c = 4 \<or> c = 5 \<or> c = 6 \<or> c = 7 \<or> c = 8 \<or> c = 9
    \<or> c = 10 \<or> c = 11 \<or> c = 12 \<or> c = 13 \<or> c = 14 \<or> c = 15" using assms by arith
  then show thesis using that by blast
qed

lemma e2m1_paths_agree:
  assumes "fops_ok F" "c < 16"
  shows "e2m1_code_to_fp32 F c = ref_decode F c"
proof -
  have one: "f_mul F x (f_lit F 1) = x" and neg: "f_mul F x (f_lit F (- 1)) = f_neg F x" for x
    using assms(1) by (simp_all add: fops_ok_def)
  from assms(2) show ?thesis
    by (cases c rule: code_cases; simp add: e2m1_code_to_fp32_def ref_decode_def e2m1_magnitudes_def Let_def one neg)
qed

lemma e2m1_value:
  assumes "c < 16"
  shows "\<exists>m \<in> set e2m1_magnitudes. e2m1_code_to_fp32 F c = f_lit F m \<or> e2m1_code_to_fp32 F c = f_neg F (f_lit F m)"
proof -
  from assms show ?thesis
    by (cases c rule: code_cases; simp add: e2m1_code_to_fp32_def e2m1_magnitudes_def Let_def)
qed

lemma reduce_pairs:
  assumes F: "fops_ok F" and num: "\<forall>b \<in> set bs. f_num F (lo b) \<and> f_num F (hi b)" and ne: "bs \<noteq> []"
  shows "reduce1 (f_tlmax F) (map (\<lambda>b. f_tlmax F (lo b) (hi b)) bs) = reduce1 (f_amax F) (concat (map (\<lambda>b. [lo b, hi b]) bs))
    \<and> f_num F (reduce1 (f_tlmax F) (map (\<lambda>b. f_tlmax F (lo b) (hi b)) bs))"
proof -
  have two: "f_num F (f_tlmax F x y) \<and> f_amax F x y = f_tlmax F x y" if "f_num F x" "f_num F y" for x y
    using F that by (simp add: fops_ok_def)
  have assoc: "f_tlmax F (f_tlmax F x y) z = f_tlmax F x (f_tlmax F y z)" if "f_num F x" "f_num F y" "f_num F z" for x y z
    using F that by (simp add: fops_ok_def)
  have step: "f_num F m \<Longrightarrow> \<forall>b \<in> set bs. f_num F (lo b) \<and> f_num F (hi b) \<Longrightarrow>
      fold (\<lambda>x m. f_tlmax F m x) (map (\<lambda>b. f_tlmax F (lo b) (hi b)) bs) m
        = fold (\<lambda>x m. f_amax F m x) (concat (map (\<lambda>b. [lo b, hi b]) bs)) m
      \<and> f_num F (fold (\<lambda>x m. f_amax F m x) (concat (map (\<lambda>b. [lo b, hi b]) bs)) m)" for m bs
    by (induction bs arbitrary: m) (auto simp: two assoc)
  obtain b bs' where bs: "bs = b # bs'" using ne by (cases bs) auto
  show ?thesis using step [of "f_tlmax F (lo b) (hi b)" bs'] num two [of "lo b" "hi b"] by (simp add: bs reduce1_def)
qed

text \<open>The bytes of a row, by position.\<close>

definition row_byte :: "'f fops \<Rightarrow> nat list \<Rightarrow> row_base \<Rightarrow> nat \<Rightarrow> nat" where
  "row_byte F src r j =
     (if j < 448 then k_byte F src r (odd j) (j div 2)
      else let e = (j - 448) div 2; v = f_to_bf16 F (k_rope F src r (odd e) (e div 2)) in if even j then fst v else snd v)"

definition foot_byte :: "'f fops \<Rightarrow> nat list \<Rightarrow> row_base \<Rightarrow> nat \<Rightarrow> nat" where
  "foot_byte F src r t = u8 (if t < 7 then k_exp F src r t else 0)"

lemma rope_base: "2 * ((dst_data i + 448) div 2) = dst_data i + 448"
proof -
  have "even (dst_data i)" by (simp add: dst_data_def layout_consts)
  then show ?thesis by (auto elim!: evenE)
qed

lemma in_map_pairs: "(a, v) \<in> set (map (\<lambda>b. (f b, g b)) xs) \<longleftrightarrow> (\<exists>b \<in> set xs. a = f b \<and> v = g b)"
  by auto

lemma in_concat_pairs:
  "(a, v) \<in> set (concat (map (\<lambda>j. [(f j, g j), (f' j, g' j)]) xs))
     \<longleftrightarrow> (\<exists>j \<in> set xs. (a = f j \<and> v = g j) \<or> (a = f' j \<and> v = g' j))"
  by auto

lemma in_lanes: "set (filter (\<lambda>b. b < k) [0..<n]) = {..<min k (n :: nat)}"
  by auto

lemma k_stores_iff:
  "(a, v) \<in> set (k_stores F src r i) \<longleftrightarrow>
     (\<exists>j < 576. a = dst_data i + int j \<and> v = row_byte F src r j) \<or> (\<exists>t < 8. a = dst_foot i + int t \<and> v = foot_byte F src r t)"
  (is "?L \<longleftrightarrow> ?D \<or> ?F")
proof -
  let ?low = "\<exists>b < 224. a = dst_data i + 2 * int b \<and> v = k_byte F src r False b"
  let ?high = "\<exists>b < 224. a = dst_data i + 2 * int b + 1 \<and> v = k_byte F src r True b"
  let ?rope = "\<lambda>hi :: bool. \<exists>k < 32. let w = f_to_bf16 F (k_rope F src r hi k); e = dst_data i + 448 + 4 * int k + (if hi then 2 else 0)
     in (a = e \<and> v = fst w) \<or> (a = e + 1 \<and> v = snd w)"
  have L: "?L \<longleftrightarrow> ?low \<or> ?high \<or> ?rope False \<or> ?rope True \<or> ?F"
    unfolding k_stores_def Let_def dst_data_def [symmetric] dst_foot_def [symmetric] foot_byte_def
    by (simp only: set_append Un_iff in_map_pairs in_concat_pairs in_lanes)
      (simp add: Bex_def lessThan_def rope_base distrib_left algebra_simps del: upt_Suc upt_rec_numeral)
  have "?D \<longleftrightarrow> ?low \<or> ?high \<or> ?rope False \<or> ?rope True"
  proof
    assume ?D
    then obtain j where j: "j < 576" "a = dst_data i + int j" "v = row_byte F src r j" by blast
    show "?low \<or> ?high \<or> ?rope False \<or> ?rope True"
    proof (cases "j < 448")
      case True
      then show ?thesis using j by (cases "odd j") (auto simp: row_byte_def elim!: evenE oddE)
    next
      case False
      define e where "e = (j - 448) div 2"
      have e: "e div 2 < 32" "j = 448 + 2 * e + (if even j then 0 else 1)" "2 * int e = 4 * int (e div 2) + (if odd e then 2 else 0)"
        using False j(1) by (auto simp: e_def elim!: evenE oddE)
      have v: "v = (let w = f_to_bf16 F (k_rope F src r (odd e) (e div 2)) in if even j then fst w else snd w)"
        using False j(3) by (simp add: row_byte_def e_def Let_def)
      have "?rope (odd e)" using e v j(2) by (intro exI [of _ "e div 2"]) (auto simp: Let_def)
      then show ?thesis by (cases "odd e") auto
    qed
  next
    assume "?low \<or> ?high \<or> ?rope False \<or> ?rope True"
    moreover have ?D if h: ?low
    proof -
      obtain b where "b < 224" "a = dst_data i + 2 * int b" "v = k_byte F src r False b" using h by blast
      then show ?D by (intro exI [of _ "2 * b"]) (simp add: row_byte_def)
    qed
    moreover have ?D if h: ?high
    proof -
      obtain b where "b < 224" "a = dst_data i + 2 * int b + 1" "v = k_byte F src r True b" using h by blast
      then show ?D by (intro exI [of _ "2 * b + 1"]) (simp add: row_byte_def)
    qed
    moreover have ?D if h: "?rope hi" for hi
    proof -
      obtain k where k: "k < 32" "let w = f_to_bf16 F (k_rope F src r hi k); e = dst_data i + 448 + 4 * int k + (if hi then 2 else 0)
         in (a = e \<and> v = fst w) \<or> (a = e + 1 \<and> v = snd w)" using h by blast
      let ?j = "448 + 4 * k + (if hi then 2 else 0)"
      have j: "even ?j" "(?j - 448) div 2 = 2 * k + (if hi then 1 else 0)" "(Suc ?j - 448) div 2 = 2 * k + (if hi then 1 else 0)"
        "?j < 575" using k(1) by auto
      from k(2) show ?D unfolding Let_def
        by (elim disjE; intro exI [of _ ?j] exI [of _ "Suc ?j"]; use j in \<open>auto simp: row_byte_def Let_def\<close>)
    qed
    ultimately show ?D by blast
  qed
  then show ?thesis using L by blast
qed

section \<open>Rows do not overlap\<close>

lemma mixed_radix:
  assumes "q * p + r = q' * p + r'" "r < p" "r' < (p :: nat)"
  shows "q = q'" "r = r'"
proof -
  have "q = (q * p + r) div p" using assms(2) by simp
  also have "\<dots> = q'" unfolding assms(1) using assms(3) by simp
  finally show "q = q'" .
  with assms(1) show "r = r'" by simp
qed

definition data_addr :: "nat \<Rightarrow> nat \<Rightarrow> nat" where
  "data_addr i j = i div 64 * 37440 + (i mod 64 * 576 + j)"

definition foot_addr :: "nat \<Rightarrow> nat \<Rightarrow> nat" where
  "foot_addr i t = i div 64 * 37440 + (36864 + (i mod 64 * 8 + t))"

lemma addr_nat: "nat (dst_data i + int j) = data_addr i j" "nat (dst_foot i + int t) = foot_addr i t"
proof -
  have "dst_data i + int j = int (data_addr i j)" "dst_foot i + int t = int (foot_addr i t)"
    by (simp_all add: dst_data_def dst_foot_def data_addr_def foot_addr_def layout_consts)
  then show "nat (dst_data i + int j) = data_addr i j" "nat (dst_foot i + int t) = foot_addr i t" by simp_all
qed

lemma addr_off:
  "j < 576 \<Longrightarrow> i mod 64 * 576 + j < 36864" "t < 8 \<Longrightarrow> 36864 + (i mod 64 * 8 + t) < 37376" for i j t :: nat
proof -
  have "i mod 64 \<le> 63" by (simp add: less_Suc_eq_le [symmetric])
  then show "j < 576 \<Longrightarrow> i mod 64 * 576 + j < 36864" "t < 8 \<Longrightarrow> 36864 + (i mod 64 * 8 + t) < 37376" by linarith+
qed

lemma data_addr_inj: "data_addr i j = data_addr i' j' \<Longrightarrow> j < 576 \<Longrightarrow> j' < 576 \<Longrightarrow> i = i' \<and> j = j'"
proof -
  assume h: "data_addr i j = data_addr i' j'" and j: "j < 576" "j' < 576"
  have "i mod 64 * 576 + j < 37440" "i' mod 64 * 576 + j' < 37440" using addr_off(1) [OF j(1), of i] addr_off(1) [OF j(2), of i'] by linarith+
  from mixed_radix [OF h [unfolded data_addr_def] this]
  have q: "i div 64 = i' div 64" and r: "i mod 64 * 576 + j = i' mod 64 * 576 + j'" .
  from mixed_radix [OF r j] have "i mod 64 = i' mod 64" "j = j'" .
  with q show ?thesis by (metis div_mult_mod_eq)
qed

lemma foot_addr_inj: "foot_addr i t = foot_addr i' t' \<Longrightarrow> t < 8 \<Longrightarrow> t' < 8 \<Longrightarrow> i = i' \<and> t = t'"
proof -
  assume h: "foot_addr i t = foot_addr i' t'" and t: "t < 8" "t' < 8"
  have "36864 + (i mod 64 * 8 + t) < 37440" "36864 + (i' mod 64 * 8 + t') < 37440" using addr_off(2) [OF t(1), of i] addr_off(2) [OF t(2), of i'] by linarith+
  from mixed_radix [OF h [unfolded foot_addr_def] this]
  have q: "i div 64 = i' div 64" and r: "i mod 64 * 8 + t = i' mod 64 * 8 + t'" by simp_all
  from mixed_radix [OF r t] have "i mod 64 = i' mod 64" "t = t'" .
  with q show ?thesis by (metis div_mult_mod_eq)
qed

lemma data_foot_apart: "j < 576 \<Longrightarrow> t < 8 \<Longrightarrow> data_addr i j \<noteq> foot_addr i' t"
proof
  assume j: "j < 576" and t: "t < 8" and h: "data_addr i j = foot_addr i' t"
  have "i mod 64 * 576 + j < 37440" "36864 + (i' mod 64 * 8 + t) < 37440" using addr_off(1) [OF j, of i] addr_off(2) [OF t, of i'] by linarith+
  from mixed_radix(2) [OF h [unfolded data_addr_def foot_addr_def] this] addr_off(1) [OF j, of i] show False by linarith
qed

lemma addr_bound:
  assumes "i < n"
  shows "j < 576 \<Longrightarrow> data_addr i j < num_dst_pages n * 37440" "t < 8 \<Longrightarrow> foot_addr i t < num_dst_pages n * 37440"
proof -
  have "i div 64 < num_dst_pages n" using assms cdiv_covers [of 64 i n] by (simp add: num_dst_pages_def cdiv_def)
  then have "(i div 64 + 1) * 37440 \<le> num_dst_pages n * 37440" by (intro mult_le_mono1) simp
  then show "j < 576 \<Longrightarrow> data_addr i j < num_dst_pages n * 37440" "t < 8 \<Longrightarrow> foot_addr i t < num_dst_pages n * 37440"
    using addr_off(1) [of j i] addr_off(2) [of t i] by (simp_all add: data_addr_def foot_addr_def)
qed

section \<open>Memory after both paths\<close>

text \<open>A list of stores is a set of row writes when each address belongs to one cell and each cell has one value.\<close>

definition puts_rows :: "nat set \<Rightarrow> (nat \<Rightarrow> nat \<Rightarrow> nat) \<Rightarrow> (nat \<Rightarrow> nat \<Rightarrow> nat) \<Rightarrow> (int \<times> nat) list \<Rightarrow> bool" where
  "puts_rows is data foot ps \<longleftrightarrow> (\<forall>a v. (a, v) \<in> set ps \<longleftrightarrow>
     (\<exists>i \<in> is. (\<exists>j < 576. a = dst_data i + int j \<and> v = data i j) \<or> (\<exists>t < 8. a = dst_foot i + int t \<and> v = foot i t)))"

lemma puts_rows_result:
  assumes ps: "puts_rows is data foot ps" and "is \<subseteq> {..<n}" "length m = num_dst_pages n * 37440" "i < n"
  shows "i \<in> is \<Longrightarrow> j < 576 \<Longrightarrow> fold (\<lambda>(a, v) m. m[nat a := v]) ps m ! data_addr i j = data i j"
    and "i \<in> is \<Longrightarrow> t < 8 \<Longrightarrow> fold (\<lambda>(a, v) m. m[nat a := v]) ps m ! foot_addr i t = foot i t"
proof -
  have cell: "(\<exists>i \<in> is. (\<exists>j < 576. nat a = data_addr i j \<and> v = data i j) \<or> (\<exists>t < 8. nat a = foot_addr i t \<and> v = foot i t))"
    if in_ps: "(a, v) \<in> set ps" for a v
  proof -
    obtain i' where "i' \<in> is" "(\<exists>j < 576. a = dst_data i' + int j \<and> v = data i' j) \<or> (\<exists>t < 8. a = dst_foot i' + int t \<and> v = foot i' t)"
      using ps [unfolded puts_rows_def, rule_format, THEN iffD1, OF in_ps] by blast
    then show ?thesis by (intro bexI [of _ i']) (auto simp: addr_nat)
  qed
  show "fold (\<lambda>(a, v) m. m[nat a := v]) ps m ! data_addr i j = data i j" if h: "i \<in> is" "j < 576"
  proof -
    have "(dst_data i + int j, data i j) \<in> set ps" using ps h by (auto simp: puts_rows_def)
    moreover have "\<forall>(a, v) \<in> set ps. nat a = nat (dst_data i + int j) \<longrightarrow> v = data i j"
    proof clarify
      fix a v assume "(a, v) \<in> set ps" "nat a = nat (dst_data i + int j)"
      then show "v = data i j" using cell [of a v] h data_addr_inj [of i j] data_foot_apart [OF h(2)] by (auto simp: addr_nat)
    qed
    ultimately have "fold (\<lambda>(a, v) m. m[nat a := v]) ps m ! nat (dst_data i + int j) = data i j"
      using addr_bound(1) [OF assms(4) h(2)] assms(3) by (intro fold_scatter_own) (simp_all add: addr_nat)
    then show ?thesis by (simp add: addr_nat)
  qed
  show "fold (\<lambda>(a, v) m. m[nat a := v]) ps m ! foot_addr i t = foot i t" if h: "i \<in> is" "t < 8"
  proof -
    have "(dst_foot i + int t, foot i t) \<in> set ps" using ps h by (auto simp: puts_rows_def)
    moreover have "\<forall>(a, v) \<in> set ps. nat a = nat (dst_foot i + int t) \<longrightarrow> v = foot i t"
    proof clarify
      fix a v assume "(a, v) \<in> set ps" "nat a = nat (dst_foot i + int t)"
      then show "v = foot i t" using cell [of a v] h foot_addr_inj [of i t] data_foot_apart [OF _ h(2)] by (auto simp: addr_nat) metis
    qed
    ultimately have "fold (\<lambda>(a, v) m. m[nat a := v]) ps m ! nat (dst_foot i + int t) = foot i t"
      using addr_bound(2) [OF assms(4) h(2)] assms(3) by (intro fold_scatter_own) (simp_all add: addr_nat)
    then show ?thesis by (simp add: addr_nat)
  qed
qed

lemma puts_rows_other:
  assumes "puts_rows is data foot ps" "\<And>i j. i \<in> is \<Longrightarrow> j < 576 \<Longrightarrow> k \<noteq> data_addr i j" "\<And>i t. i \<in> is \<Longrightarrow> t < 8 \<Longrightarrow> k \<noteq> foot_addr i t"
  shows "fold (\<lambda>(a, v) m. m[nat a := v]) ps m ! k = m ! k"
proof (rule fold_scatter_other, clarify)
  fix a v assume "(a, v) \<in> set ps" "k = nat a"
  then obtain i where "i \<in> is" "(\<exists>j < 576. a = dst_data i + int j) \<or> (\<exists>t < 8. a = dst_foot i + int t)"
    using assms(1) by (auto simp: puts_rows_def)
  then have "(\<exists>j < 576. nat a = data_addr i j) \<or> (\<exists>t < 8. nat a = foot_addr i t)" by (auto simp: addr_nat)
  then show False using assms(2,3) \<open>i \<in> is\<close> \<open>k = nat a\<close> by metis
qed

section \<open>The bytes of a row agree\<close>

text \<open>A row of the pool: its bytes in reach, uint8 values, and no NaN among its scales.\<close>

definition row_ok :: "nat list \<Rightarrow> row_base \<Rightarrow> bool" where
  "row_ok pool r \<longleftrightarrow> 0 \<le> rb_data r \<and> nat (rb_data r) + 256 \<le> length pool
     \<and> 0 \<le> rb_scale r \<and> nat (rb_scale r) + 32 \<le> length pool
     \<and> (\<forall>b \<in> set pool. b < 256) \<and> (\<forall>k < 32. pool ! (nat (rb_scale r) + k) mod 128 \<noteq> 127)"

definition row_bytes :: "nat list \<Rightarrow> int \<Rightarrow> nat \<Rightarrow> nat list" where
  "row_bytes pool base count = map (\<lambda>j. pool ! (nat base + j)) [0..<count]"

lemma row_load: "0 \<le> base \<Longrightarrow> nat base + k < length pool \<Longrightarrow> tl_load pool (base + int k) = pool ! (nat base + k)"
  by (simp add: tl_load_def nat_add_distrib)

lemma gather_rows_Inr:
  assumes "\<forall>a \<in> set bases. 0 \<le> a \<and> nat a + count \<le> length pool"
  shows "gather_rows pool bases count = Inr (map (\<lambda>a. row_bytes pool a count) bases)"
proof -
  have "res_list (\<lambda>j. py_get pool (a + int j)) [0..<count] = Inr (row_bytes pool a count)"
    if "0 \<le> a" "nat a + count \<le> length pool" for a
    using that by (auto simp: res_list_Inr row_bytes_def py_get_nonneg nat_add_distrib)
  then show ?thesis using assms by (auto simp: gather_rows_def res_list_Inr)
qed

text \<open>The value of element \<open>j\<close> of a row.\<close>

definition elem :: "'f fops \<Rightarrow> nat list \<Rightarrow> row_base \<Rightarrow> nat \<Rightarrow> 'f" where
  "elem F pool r j = f_mul F (f_mul F (ref_decode F (nibble (odd j) (pool ! (nat (rb_data r) + j div 2))))
     (f_e4m3 F (pool ! (nat (rb_scale r) + j div 16)))) (gate F r)"

lemma ref_vals_elem:
  assumes "j < 512"
  shows "length (ref_vals F (rb_valid r) (row_bytes pool (rb_data r) 256) (row_bytes pool (rb_scale r) 32)) = 512"
    and "ref_vals F (rb_valid r) (row_bytes pool (rb_data r) 256) (row_bytes pool (rb_scale r) 32) ! j = elem F pool r j"
proof -
  let ?p = "row_bytes pool (rb_data r) 256" and ?s = "map (f_e4m3 F) (row_bytes pool (rb_scale r) 32)"
  let ?codes = "concat (map (\<lambda>p. [p mod 16, p div 16]) ?p)"
  have spread: "concat (map (\<lambda>s. replicate 16 (f_e4m3 F s)) (row_bytes pool (rb_scale r) 32)) = concat (map (replicate 16) ?s)"
    by (simp add: comp_def)
  have len: "length ?codes = 512" "length (concat (map (replicate 16) ?s)) = 512"
    using length_concat_uniform [of ?p "\<lambda>p. [p mod 16, p div 16]" 2] by (simp_all only: length_replicate_concat) (simp_all add: row_bytes_def)
  show "length (ref_vals F (rb_valid r) ?p (row_bytes pool (rb_scale r) 32)) = 512"
    unfolding ref_vals_def Let_def spread using len by simp
  have "?codes ! (j div 2 * 2 + j mod 2) = map (\<lambda>p. [p mod 16, p div 16]) ?p ! (j div 2) ! (j mod 2)"
    using concat_rect_nth [of "map (\<lambda>p. [p mod 16, p div 16]) ?p" 2 "j div 2" "j mod 2"] assms by (simp add: row_bytes_def)
  then have code: "?codes ! j = nibble (odd j) (?p ! (j div 2))"
    using assms by (cases "odd j") (auto simp: nibble_def row_bytes_def odd_iff_mod_2_eq_one)
  have "concat (map (replicate 16) ?s) ! j = ?s ! (j div 16)"
    by (rule replicate_concat_nth) (use assms in \<open>simp add: row_bytes_def\<close>)
  then show "ref_vals F (rb_valid r) ?p (row_bytes pool (rb_scale r) 32) ! j = elem F pool r j"
    unfolding ref_vals_def Let_def spread using len assms code
    by (simp add: elem_def gate_def row_bytes_def)
qed

lemma byte_nibble: "row_ok pool r \<Longrightarrow> k < length pool \<Longrightarrow> nibble hi (pool ! k) < 16"
proof -
  assume "row_ok pool r" "k < length pool"
  then have "pool ! k < 256" by (simp add: row_ok_def)
  then show "nibble hi (pool ! k) < 16" by (auto simp: nibble_def)
qed

lemma k_nope_elem:
  assumes "fops_ok F" "row_ok pool r" "b < 224"
  shows "k_nope F pool r hi b = elem F pool r (2 * b + (if hi then 1 else 0))"
proof -
  let ?j = "2 * b + (if hi then 1 else 0)"
  have j: "?j div 2 = b" "?j div 16 = b div 8" "odd ?j = hi" by auto
  have "e2m1_code_to_fp32 F (nibble hi (pool ! (nat (rb_data r) + b))) = ref_decode F (nibble hi (pool ! (nat (rb_data r) + b)))"
    by (rule e2m1_paths_agree [OF assms(1) byte_nibble [OF assms(2)]]) (use assms(2,3) in \<open>simp add: row_ok_def\<close>)
  moreover have "b div 8 < 32" using assms(3) by auto
  ultimately show ?thesis
    using assms(2,3) unfolding k_nope_def elem_def j
    by (simp add: tl_load_mask_def row_load row_ok_def del: of_nat_div zdiv_int)
qed

lemma k_rope_elem:
  assumes "fops_ok F" "row_ok pool r" "k < 32"
  shows "k_rope F pool r hi k = elem F pool r (448 + 2 * k + (if hi then 1 else 0))"
proof -
  let ?j = "448 + 2 * k + (if hi then 1 else 0)"
  have j: "?j div 2 = 224 + k" "?j div 16 = 28 + k div 8" "odd ?j = hi" by auto
  have "k div 8 < 4" using assms(3) by auto
  then have load: "tl_load pool (rb_data r + 224 + int k) = pool ! (nat (rb_data r) + (224 + k))"
    "tl_load pool (rb_scale r + 28 + int (k div 8)) = pool ! (nat (rb_scale r) + (28 + k div 8))"
    using row_load [of "rb_data r" "224 + k" pool] row_load [of "rb_scale r" "28 + k div 8" pool] assms(2,3)
    by (simp_all add: row_ok_def add.assoc)
  have "e2m1_code_to_fp32 F (nibble hi (pool ! (nat (rb_data r) + (224 + k)))) = ref_decode F (nibble hi (pool ! (nat (rb_data r) + (224 + k))))"
    by (rule e2m1_paths_agree [OF assms(1) byte_nibble [OF assms(2)]]) (use assms(2,3) in \<open>simp add: row_ok_def\<close>)
  then show ?thesis unfolding k_rope_def elem_def j load by simp
qed

lemma elem_num:
  assumes F: "fops_ok F" and r: "row_ok pool r" and j: "j < 512"
  shows "f_num F (f_abs F (elem F pool r j))"
proof -
  let ?c = "nibble (odd j) (pool ! (nat (rb_data r) + j div 2))" and ?b = "pool ! (nat (rb_scale r) + j div 16)"
  have "j div 2 < 256" "j div 16 < 32" using j by auto
  then have c: "?c < 16" by (intro byte_nibble [OF r]) (use r in \<open>simp add: row_ok_def\<close>)
  have b: "?b mod 128 \<noteq> 127" using r \<open>j div 16 < 32\<close> by (simp add: row_ok_def)
  obtain m where m: "m \<in> set e2m1_magnitudes" "ref_decode F ?c = f_lit F m \<or> ref_decode F ?c = f_neg F (f_lit F m)"
    using e2m1_value [OF c, of F] e2m1_paths_agree [OF F c] by auto
  obtain g :: rat where g: "gate F r = f_lit F g" "g \<in> {0, 1}" by (auto simp: gate_def)
  show ?thesis using F m g b unfolding fops_ok_def elem_def by metis
qed

lemma k_exp_eq:
  assumes F: "fops_ok F" and r: "row_ok pool r" and t: "t < 7"
    and vals: "length vals = 512" "\<And>j. j < 512 \<Longrightarrow> vals ! j = elem F pool r j"
  shows "k_exp F pool r t = ref_exps F (take 448 vals) ! t"
proof -
  let ?bs = "[32 * t ..< 32 * t + 32]"
  let ?lo = "\<lambda>b. f_abs F (elem F pool r (2 * b))" and ?hi = "\<lambda>b. f_abs F (elem F pool r (2 * b + 1))"
  have in_tile: "b < 224" if "b \<in> set ?bs" for b using that t by simp
  have lanes: "map (\<lambda>b. f_tlmax F (k_abs F pool r False b) (k_abs F pool r True b)) ?bs = map (\<lambda>b. f_tlmax F (?lo b) (?hi b)) ?bs"
    using in_tile k_nope_elem [OF F r, of _ False] k_nope_elem [OF F r, of _ True] by (intro map_cong) (auto simp: k_abs_def)
  have num: "\<forall>b \<in> set ?bs. f_num F (?lo b) \<and> f_num F (?hi b)"
  proof
    fix b assume "b \<in> set ?bs"
    then have "b < 224" by (rule in_tile)
    then show "f_num F (?lo b) \<and> f_num F (?hi b)" by (intro conjI elem_num [OF F r]) simp_all
  qed
  have ne: "?bs \<noteq> []" by simp
  note red = conjunct1 [OF reduce_pairs [OF F num ne]] conjunct2 [OF reduce_pairs [OF F num ne]]
  have tile: "concat (map (\<lambda>b. [?lo b, ?hi b]) ?bs) = map (f_abs F) (take 64 (drop (64 * t) (take 448 vals)))"
  proof (rule nth_equalityI)
    have len: "length (concat (map (\<lambda>b. [?lo b, ?hi b]) ?bs)) = 64"
      using length_concat_uniform [of ?bs "\<lambda>b. [?lo b, ?hi b]" 2] by simp
    then show "length (concat (map (\<lambda>b. [?lo b, ?hi b]) ?bs)) = length (map (f_abs F) (take 64 (drop (64 * t) (take 448 vals))))"
      using vals(1) t by simp
    fix j assume "j < length (concat (map (\<lambda>b. [?lo b, ?hi b]) ?bs))"
    then have j: "j < 64" by (simp only: len)
    have jb: "j div 2 < 32" using j by auto
    have at: "map (\<lambda>b. [?lo b, ?hi b]) ?bs ! (j div 2) = [?lo (32 * t + j div 2), ?hi (32 * t + j div 2)]"
      using jb by (simp add: nth_map)
    have "concat (map (\<lambda>b. [?lo b, ?hi b]) ?bs) ! (j div 2 * 2 + j mod 2) = map (\<lambda>b. [?lo b, ?hi b]) ?bs ! (j div 2) ! (j mod 2)"
      by (rule conjunct1 [OF concat_rect_nth]) (use jb in auto)
    then have "concat (map (\<lambda>b. [?lo b, ?hi b]) ?bs) ! j = [?lo (32 * t + j div 2), ?hi (32 * t + j div 2)] ! (j mod 2)"
      unfolding at by simp
    also have "\<dots> = f_abs F (elem F pool r (64 * t + j))"
      by (cases "odd j") (auto simp: elim!: oddE evenE)
    finally show "concat (map (\<lambda>b. [?lo b, ?hi b]) ?bs) ! j = map (f_abs F) (take 64 (drop (64 * t) (take 448 vals))) ! j"
      using j t vals by simp
  qed
  have mx: "f_amax F x (f_lit F (1 / 10000)) = f_tlmax F x (f_lit F (1 / 10000))" if "f_num F x" for x
    using F that by (simp add: fops_ok_def)
  have "k_exp F pool r t = ue8m0 F (f_tlmax F) (reduce1 (f_tlmax F) (map (\<lambda>b. f_tlmax F (?lo b) (?hi b)) ?bs))"
    unfolding k_exp_def lanes ..
  also have "\<dots> = ue8m0 F (f_amax F) (reduce1 (f_tlmax F) (map (\<lambda>b. f_tlmax F (?lo b) (?hi b)) ?bs))"
    unfolding ue8m0_def mx [OF red(2)] ..
  also have "\<dots> = ref_exps F (take 448 vals) ! t"
    unfolding red(1) tile using t by (simp add: ref_exps_def del: upt_rec_numeral)
  finally show ?thesis .
qed

lemma row_bytes_agree:
  assumes F: "fops_ok F" and r: "row_ok pool r"
  defines "vals \<equiv> ref_vals F (rb_valid r) (row_bytes pool (rb_data r) 256) (row_bytes pool (rb_scale r) 32)"
  shows "length (ref_data F vals) = 576" "length (ref_foot F vals) = 8"
    "j < 576 \<Longrightarrow> row_byte F pool r j = ref_data F vals ! j" "t < 8 \<Longrightarrow> foot_byte F pool r t = ref_foot F vals ! t"
proof -
  have vals: "length vals = 512" "\<And>j. j < 512 \<Longrightarrow> vals ! j = elem F pool r j"
    unfolding vals_def using ref_vals_elem [of 0 F r pool] ref_vals_elem(2) [of _ F r pool] by simp_all
  note exp = k_exp_eq [OF F r _ vals]
  let ?pair = "\<lambda>v. [fst (f_to_bf16 F v), snd (f_to_bf16 F v)]"
  have lr: "length (concat (map ?pair (drop 448 vals))) = 128"
    using length_concat_uniform [of "drop 448 vals" ?pair 2] vals(1) by simp
  show "length (ref_data F vals) = 576" unfolding ref_data_def Let_def using lr by simp
  show "length (ref_foot F vals) = 8" by (simp add: ref_foot_def ref_exps_def)
  show "foot_byte F pool r t = ref_foot F vals ! t" if "t < 8"
  proof (cases "t < 7")
    case True
    then show ?thesis using exp by (simp add: foot_byte_def ref_foot_def nth_append ref_exps_def del: upt_rec_numeral)
  next
    case False
    then have "t = 7" using that by simp
    then show ?thesis by (simp add: foot_byte_def ref_foot_def nth_append ref_exps_def u8_def)
  qed
  show "row_byte F pool r j = ref_data F vals ! j" if j: "j < 576"
  proof (cases "j < 448")
    case True
    then have b: "j div 2 < 224" "j div 2 div 32 = j div 64" "j div 64 < 7" "2 * (j div 2) + (if odd j then 1 else 0) = j"
      by (auto simp: div_mult2_eq [symmetric])
    have "row_byte F pool r j = f_to_fp8 F (f_mul F (elem F pool r j) (inv_scale F (ref_exps F (take 448 vals) ! (j div 64))))"
      using True k_nope_elem [OF F r b(1), of "odd j"] exp [OF b(3)] unfolding row_byte_def k_byte_def b(2,4) by simp
    then show ?thesis using True vals unfolding ref_data_def Let_def by (simp add: nth_append del: upt_rec_numeral)
  next
    case False
    define e where "e = (j - 448) div 2"
    have e: "e < 64" "j - 448 = e * 2 + (j - 448) mod 2" "(j - 448) mod 2 < 2" "even j \<longleftrightarrow> (j - 448) mod 2 = 0"
    proof -
      obtain d where d: "j = 448 + d" using False le_Suc_ex [of 448 j] by auto
      have "d < 128" using d j by simp
      then show "e < 64" by (simp add: e_def d)
      show "j - 448 = e * 2 + (j - 448) mod 2" by (simp add: e_def)
      show "(j - 448) mod 2 < 2" by simp
      show "even j \<longleftrightarrow> (j - 448) mod 2 = 0" unfolding d by (simp add: even_iff_mod_2_eq_zero [symmetric])
    qed
    have k: "e div 2 < 32" "448 + 2 * (e div 2) + (if odd e then 1 else 0) = 448 + e" using e(1) by auto
    have "row_byte F pool r j = (let v = f_to_bf16 F (elem F pool r (448 + e)) in if even j then fst v else snd v)"
      using False k_rope_elem [OF F r k(1), of "odd e"] unfolding row_byte_def k(2) e_def [symmetric] Let_def by simp
    moreover have "concat (map ?pair (drop 448 vals)) ! (e * 2 + (j - 448) mod 2) = map ?pair (drop 448 vals) ! e ! ((j - 448) mod 2)"
      using concat_rect_nth [of "map ?pair (drop 448 vals)" 2 e "(j - 448) mod 2"] e(1,3) vals(1) by simp
    then have "concat (map ?pair (drop 448 vals)) ! (j - 448) = ?pair (elem F pool r (448 + e)) ! ((j - 448) mod 2)"
      using e(1,2) vals by simp
    ultimately show ?thesis using False e(3,4) unfolding ref_data_def Let_def
      by (auto simp: nth_append less_2_cases_iff del: upt_rec_numeral)
  qed
qed

section \<open>The bridge\<close>

definition row_at :: "nat list \<Rightarrow> nat \<Rightarrow> nat list" where
  "row_at m i = map (\<lambda>j. m ! data_addr i j) [0..<576] @ map (\<lambda>t. m ! foot_addr i t) [0..<8]"

lemma kernel_puts_rows:
  "puts_rows (set pids) (\<lambda>i. row_byte F src (k_row pb bits (tl_load idx (int i)))) (\<lambda>i. foot_byte F src (k_row pb bits (tl_load idx (int i))))
     (concat (map (\<lambda>i. k_stores F src (k_row pb bits (tl_load idx (int i))) i) pids))"
  unfolding puts_rows_def set_concat set_map UN_iff bex_simps k_stores_iff by blast

lemma launch_as_stores:
  "fold (repack_kernel F src pb bits idx) pids m =
     fold (\<lambda>(a, v) m. m[nat a := v]) (concat (map (\<lambda>i. k_stores F src (k_row pb bits (tl_load idx (int i))) i) pids)) m"
  by (induction pids arbitrary: m) (simp_all add: repack_kernel_def)

lemma index_put_iff:
  "(a, v) \<in> set (index_put base rows) \<longleftrightarrow> (\<exists>i < length rows. \<exists>j < length (rows ! i). a = base i + int j \<and> v = rows ! i ! j)"
  unfolding index_put_def set_concat set_map by (auto simp: image_iff Bex_def)

lemma ref_puts_rows:
  assumes "\<And>i. i < length vals \<Longrightarrow> length (ref_data F (vals ! i)) = 576 \<and> length (ref_foot F (vals ! i)) = 8"
  shows "puts_rows {..<length vals} (\<lambda>i j. ref_data F (vals ! i) ! j) (\<lambda>i t. ref_foot F (vals ! i) ! t)
     (index_put dst_data (map (ref_data F) vals) @ index_put dst_foot (map (ref_foot F) vals))"
  unfolding puts_rows_def set_append Un_iff index_put_iff using assms by (fastforce)

text \<open>What a launch leaves in the scratch, whatever it held before.\<close>

lemma bridge_rows:
  fixes pool :: "nat list"
  assumes F: "fops_ok F" and idx: "\<And>i. i \<in> set idx \<Longrightarrow> row_ok pool (ref_row pb (2 ^ bits) i)"
    and pids: "set pids = {..<length idx}" and m: "length m = num_dst_pages (length idx) * 37440"
  obtains ref where "repack_ref F pool pb (2 ^ bits) idx = Inr (ref, map int [0..<length idx])"
    "\<And>i. i < length idx \<Longrightarrow> row_at (fold (repack_kernel F pool pb bits idx) pids m) i = row_at ref i"
proof -
  let ?n = "length idx" and ?r = "\<lambda>i. ref_row pb (2 ^ bits) (idx ! i)"
  let ?vals = "map (\<lambda>i. ref_vals F (rb_valid (?r i)) (row_bytes pool (rb_data (?r i)) 256) (row_bytes pool (rb_scale (?r i)) 32)) [0..<?n]"
  have ok: "row_ok pool (?r i)" if "i < ?n" for i using idx that by simp
  have g: "gather_rows pool (map rb_data (map (ref_row pb (2 ^ bits)) idx)) 256 = Inr (map (\<lambda>a. row_bytes pool a 256) (map rb_data (map (ref_row pb (2 ^ bits)) idx)))"
    "gather_rows pool (map rb_scale (map (ref_row pb (2 ^ bits)) idx)) 32 = Inr (map (\<lambda>a. row_bytes pool a 32) (map rb_scale (map (ref_row pb (2 ^ bits)) idx)))"
    by (rule gather_rows_Inr; use idx in \<open>auto simp: row_ok_def\<close>)+
  let ?ps = "index_put dst_data (map (ref_data F) ?vals) @ index_put dst_foot (map (ref_foot F) ?vals)"
  let ?zeros = "replicate (num_dst_pages ?n * nat DST_PAGE_BYTES) (0 :: nat)"
  let ?ref = "fold (\<lambda>(a, v) m. m[nat a := v]) ?ps ?zeros"
  have ref: "repack_ref F pool pb (2 ^ bits) idx = Inr (?ref, map int [0..<?n])"
  proof -
    have v: "map (\<lambda>i. ref_vals F (rb_valid (map (ref_row pb (2 ^ bits)) idx ! i))
        (map (\<lambda>a. row_bytes pool a 256) (map rb_data (map (ref_row pb (2 ^ bits)) idx)) ! i)
        (map (\<lambda>a. row_bytes pool a 32) (map rb_scale (map (ref_row pb (2 ^ bits)) idx)) ! i)) [0..<?n] = ?vals"
      by (rule map_cong) simp_all
    show ?thesis unfolding repack_ref_def Let_def g res_bind_simps v by (simp only: fold_append comp_apply)
  qed
  have agree: "length (ref_data F (?vals ! i)) = 576" "length (ref_foot F (?vals ! i)) = 8"
    "\<And>j. j < 576 \<Longrightarrow> row_byte F pool (?r i) j = ref_data F (?vals ! i) ! j"
    "\<And>t. t < 8 \<Longrightarrow> foot_byte F pool (?r i) t = ref_foot F (?vals ! i) ! t" if "i < ?n" for i
    using row_bytes_agree [OF F ok [OF that]] that by simp_all
  have R: "puts_rows {..<length ?vals} (\<lambda>i j. ref_data F (?vals ! i) ! j) (\<lambda>i t. ref_foot F (?vals ! i) ! t) ?ps"
    by (rule ref_puts_rows) (use agree in simp)
  show thesis
  proof (rule that [OF ref])
    fix i assume i: "i < ?n"
    have load: "k_row pb bits (tl_load idx (int i)) = ?r i" using i by (simp add: k_row_eq tl_load_in)
    have z: "length ?zeros = num_dst_pages ?n * 37440" by (simp add: layout_consts)
    have iv: "i < length ?vals" using i by simp
    define W where "W = fold (\<lambda>(a, v) m. m[nat a := v]) (concat (map (\<lambda>i. k_stores F pool (k_row pb bits (tl_load idx (int i))) i) pids)) m"
    have mem: "i \<in> set pids" "set pids \<subseteq> {..<?n}" "{..<length ?vals} \<subseteq> {..<?n}" "i \<in> {..<length ?vals}" using pids i by simp_all
    have K: "W ! data_addr i j = ?ref ! data_addr i j" if "j < 576" for j
      unfolding W_def puts_rows_result(1) [OF kernel_puts_rows mem(2) m i mem(1) that] puts_rows_result(1) [OF R mem(3) z i mem(4) that] load
      by (rule agree(3) [OF i that])
    have G: "W ! foot_addr i t = ?ref ! foot_addr i t" if "t < 8" for t
      unfolding W_def puts_rows_result(2) [OF kernel_puts_rows mem(2) m i mem(1) that] puts_rows_result(2) [OF R mem(3) z i mem(4) that] load
      by (rule agree(4) [OF i that])
    show "row_at (fold (repack_kernel F pool pb bits idx) pids m) i = row_at ?ref i"
      unfolding row_at_def launch_as_stores W_def [symmetric] using K G by (intro arg_cong2 [of _ _ _ _ "(@)"] map_cong) auto
  qed
qed

text \<open>What holds of the bridge's buffers between calls.\<close>

definition bridge_ok :: "bridge \<Rightarrow> bool" where
  "bridge_ok s \<longleftrightarrow> (case gb_buf (br_ids s) of None \<Rightarrow> br_filled s = 0 | Some ids \<Rightarrow> ids = map int [0..<br_filled s])
     \<and> (case gb_buf (br_scratch s) of None \<Rightarrow> True | Some b \<Rightarrow> 37440 dvd length b)"

lemma bridge_ids_ok:
  assumes s: "bridge_ok s" and fresh: "\<And>k. length (fresh k) = k" and r: "bridge_ids fresh n s = (ids, s')"
  shows "ids = map int [0..<n]" "br_scratch s' = br_scratch s" "bridge_ok s'"
proof -
  have take: "take n (map int [0..<k]) = map int [0..<n]" if "n \<le> k" for k
    using that by (simp add: take_map)
  have "ids = map int [0..<n] \<and> br_scratch s' = br_scratch s \<and> bridge_ok s'"
  proof (cases "gb_buf (br_ids s)")
    case None
    then show ?thesis using s r fresh [of n]
      by (cases "n = 0") (auto simp: bridge_ids_def persistent_buffer_def bridge_ok_def Let_def split: if_splits)
  next
    case (Some b)
    then have b: "b = map int [0..<br_filled s]" using s by (simp add: bridge_ok_def)
    show ?thesis
    proof (cases "n \<le> br_filled s")
      case True
      then show ?thesis using s r Some take [OF True]
        by (auto simp: bridge_ids_def persistent_buffer_def bridge_ok_def Let_def b split: option.splits)
    next
      case False
      then show ?thesis using s r Some fresh [of n]
        by (auto simp: bridge_ids_def persistent_buffer_def bridge_ok_def Let_def b split: option.splits)
    qed
  qed
  then show "ids = map int [0..<n]" "br_scratch s' = br_scratch s" "bridge_ok s'" by simp_all
qed

lemma persistent_buffer_pages:
  assumes "case gb_buf g of None \<Rightarrow> True | Some b \<Rightarrow> 37440 dvd length b" "\<And>k. length (fresh k) = k"
    and "persistent_buffer fresh pages 37440 g = (buf, g')"
  shows "pages * 37440 \<le> length buf" "37440 dvd length buf"
proof -
  have "pages * 37440 \<le> length b" if "37440 dvd length b" "pages \<le> length b div 37440" for b :: "'a list"
    using that by (metis dvd_div_mult_self mult_le_mono1)
  then show "pages * 37440 \<le> length buf" "37440 dvd length buf"
    using assms by (auto simp: persistent_buffer_def Let_def split: option.splits if_splits)
qed

lemma kernel_length: "length (fold (repack_kernel F src pb bits idx) pids m) = length m"
  unfolding launch_as_stores by simp

lemma addr_prefix:
  assumes "length m \<ge> num_dst_pages n * 37440" "i < n"
  shows "row_at (take (num_dst_pages n * 37440) m) i = row_at m i"
  using addr_bound [OF assms(2)] unfolding row_at_def by (auto intro!: arg_cong2 [of _ _ _ _ "(@)"] map_cong)

lemma bridge_rows_prefix:
  fixes m :: "nat list"
  assumes "set pids = {..<n}" "length m \<ge> num_dst_pages n * 37440" "i < n"
  shows "row_at (fold (repack_kernel F src pb bits idx) pids m) i
    = row_at (fold (repack_kernel F src pb bits idx) pids (take (num_dst_pages n * 37440) m)) i"
proof -
  define ps where "ps = concat (map (\<lambda>i. k_stores F src (k_row pb bits (tl_load idx (int i))) i) pids)"
  have split: "fold (\<lambda>(a, v) m. m[nat a := v]) ps (xs @ ys) = fold (\<lambda>(a, v) m. m[nat a := v]) ps xs @ ys"
    if "\<forall>(a, v) \<in> set ps. nat a < length xs" for xs ys :: "nat list" and ps :: "(int \<times> nat) list"
    using that
  proof (induction ps arbitrary: xs)
    case (Cons p ps)
    obtain a v where p: "p = (a, v)" by fastforce
    have "nat a < length xs" using Cons.prems p by simp
    then have "(xs @ ys)[nat a := v] = xs[nat a := v] @ ys" by (simp add: list_update_append1)
    moreover have "\<forall>(a, v') \<in> set ps. nat a < length (xs[nat b := w])" for b w using Cons.prems by simp
    ultimately show ?case using Cons.IH [of "xs[nat a := v]"] Cons.prems p by simp
  qed simp
  let ?k = "num_dst_pages n * 37440"
  have "\<forall>(a, v) \<in> set ps. nat a < length (take ?k m)"
  proof clarify
    fix a v assume "(a, v) \<in> set ps"
    then obtain i where "i < n" "(\<exists>j < 576. a = dst_data i + int j) \<or> (\<exists>t < 8. a = dst_foot i + int t)"
      unfolding ps_def set_concat set_map UN_iff bex_simps k_stores_iff using assms(1) by blast
    then show "nat a < length (take ?k m)" using addr_bound [of i n] assms(2) by (auto simp: addr_nat)
  qed
  from split [OF this, of "drop ?k m"]
  have "fold (\<lambda>(a, v) m. m[nat a := v]) ps m = fold (\<lambda>(a, v) m. m[nat a := v]) ps (take ?k m) @ drop ?k m"
    unfolding append_take_drop_id .
  moreover have "row_at (xs @ ys) i = row_at xs i" if l: "length xs = ?k" for xs ys :: "nat list"
  proof -
    have at: "(xs @ ys) ! data_addr i j = xs ! data_addr i j" if "j < 576" for j
      using addr_bound(1) [OF assms(3) that] l by (simp add: nth_append)
    have af: "(xs @ ys) ! foot_addr i t = xs ! foot_addr i t" if "t < 8" for t
      using addr_bound(2) [OF assms(3) that] l by (simp add: nth_append)
    show ?thesis unfolding row_at_def using at af by (intro arg_cong2 [of _ _ _ _ "(@)"] map_cong) auto
  qed
  moreover have "length (fold (\<lambda>(a, v) m. m[nat a := v]) ps (take ?k m)) = ?k" using assms(2) by simp
  ultimately show ?thesis unfolding launch_as_stores ps_def [symmetric] by metis
qed

text \<open>C18. The repack bridge reproduces the reference byte for byte: in any order of its programs
  and whatever its grow-only scratch held before, the kernel leaves for every gathered slot (the
  padding slots included) exactly the data row and the scale row the torch reference writes, the
  bridged indices are the identity, and the buffers stay consistent for the next call.\<close>

theorem repack_bridge_matches_reference:
  assumes F: "fops_ok F" and s: "bridge_ok s"
    and fresh: "\<And>k. length (fresh k) = k" "\<And>k. length (fresh_ids k) = k"
    and page: "page_size \<in> {128, 256}" "page_bytes \<ge> page_size * 288" and ne: "indices \<noteq> []"
    and idx: "\<And>i. i \<in> set indices \<Longrightarrow> - (2 ^ 31) \<le> i \<and> i < 2 ^ 31 \<and> row_ok pool (ref_row page_bytes page_size i)"
    and pids: "set pids = {..<length indices}"
  shows "\<exists>view ids s' ref. repack_fp4_extra_to_v4 F fresh fresh_ids pids pool page_bytes page_size indices s = Inr (view, ids, s')
     \<and> repack_ref F pool page_bytes page_size indices = Inr (ref, ids)
     \<and> ids = map int [0..<length indices] \<and> length view = length ref
     \<and> (\<forall>i < length indices. row_at view i = row_at ref i) \<and> bridge_ok s'"
proof -
  let ?n = "length indices" and ?bits = "bit_length page_size - 1"
  have "bit_length 128 = 8" "bit_length 256 = 9" 
    using bit_length_le_iff [of 128 8] bit_length_le_iff [of 128 7] bit_length_le_iff [of 256 9] bit_length_le_iff [of 256 8] by simp_all
  then have bits: "page_size = 2 ^ ?bits" using page(1) by auto
  have i32: "map i32 indices = indices" using idx by (intro map_idI) (simp add: i32_def signed_take_bit_int_eq_self)
  obtain buf g where buf: "persistent_buffer fresh (num_dst_pages ?n) (nat DST_PAGE_BYTES) (br_scratch s) = (buf, g)" by fastforce
  obtain ids s1 where ids: "bridge_ids fresh_ids ?n s = (ids, s1)" by fastforce
  note b = persistent_buffer_pages [OF _ fresh(1), of "br_scratch s" "num_dst_pages ?n" buf g]
  have g0: "case gb_buf (br_scratch s) of None \<Rightarrow> True | Some b \<Rightarrow> 37440 dvd length b" using s by (simp add: bridge_ok_def)
  have PB: "nat DST_PAGE_BYTES = 37440" by (simp add: layout_consts)
  note b = b [OF g0 buf [unfolded PB]]
  note i = bridge_ids_ok [OF s fresh(2) ids]
  let ?W = "fold (repack_kernel F pool page_bytes ?bits indices) pids buf"
  let ?k = "num_dst_pages ?n * 37440"
  have row: "row_ok pool (ref_row page_bytes (2 ^ ?bits) x)" if "x \<in> set indices" for x using idx [OF that] bits by simp
  obtain ref where ref: "repack_ref F pool page_bytes (2 ^ ?bits) indices = Inr (ref, map int [0..<?n])"
    "\<And>i. i < ?n \<Longrightarrow> row_at (fold (repack_kernel F pool page_bytes ?bits indices) pids (take ?k buf)) i = row_at ref i"
    by (rule bridge_rows [OF F row pids, of "take ?k buf"]) (use b(1) in auto)
  have rows: "row_at (take ?k ?W) i = row_at ref i" if "i < ?n" for i
  proof -
    have "row_at (take ?k ?W) i = row_at ?W i" by (rule addr_prefix) (use b(1) that in \<open>simp_all add: kernel_length\<close>)
    also have "\<dots> = row_at (fold (repack_kernel F pool page_bytes ?bits indices) pids (take ?k buf)) i"
      by (rule bridge_rows_prefix [OF pids b(1) that])
    also have "\<dots> = row_at ref i" by (rule ref(2) [OF that])
    finally show ?thesis .
  qed
  have len: "length ref = ?k" using ref(1) by (auto simp: repack_ref_def Let_def res_bind_Inr PB)
  have W: "37440 dvd length ?W" "?k \<le> length ?W" using b by (simp_all add: kernel_length)
  have res: "repack_fp4_extra_to_v4 F fresh fresh_ids pids pool page_bytes page_size indices s
      = Inr (take ?k ?W, ids, s1\<lparr>br_scratch := g\<lparr>gb_buf := Some ?W\<rparr>\<rparr>)"
    using page ne unfolding repack_fp4_extra_to_v4_def Let_def i32 PB ids
    by (simp add: layout_consts buf [unfolded PB])
  have "bridge_ok (s1\<lparr>br_scratch := g\<lparr>gb_buf := Some ?W\<rparr>\<rparr>)" using i(3) W(1) by (auto simp: bridge_ok_def split: option.splits)
  then show ?thesis using res ref(1) rows len W(2) i(1) bits by (intro exI [of _ ref] exI) (auto simp: min_def)
qed

text \<open>Slicing a batch by the scratch's row budget: the boundaries run from 0 to the number of
  tokens without going back, every slice holds at least a token (for a batch that is not empty) and
  its gathered rows fit in the budget.\<close>

theorem bridge_slices_fit_budget:
  assumes "0 < topk" "topk \<le> max_rows"
  shows "let bs = bridge_slice_bounds n topk max_rows in
     hd bs = 0 \<and> last bs = n \<and> 2 \<le> length bs
     \<and> (\<forall>k < length bs - 1. (0 < n \<longrightarrow> bs ! k < bs ! Suc k) \<and> (bs ! Suc k - bs ! k) * topk \<le> max_rows)"
proof -
  define step where "step = max 1 (max_rows div max 1 topk)"
  have step: "step = max_rows div topk" "0 < step" "step * topk \<le> max_rows"
    using assms by (simp_all add: step_def max_def div_greater_zero_iff Suc_le_eq)
  show ?thesis
  proof (cases "step \<ge> n")
    case True
    then have "n * topk \<le> max_rows" using step(3) by (meson le_trans mult_le_mono1)
    moreover have "bridge_slice_bounds n topk max_rows = [0, n]"
      unfolding bridge_slice_bounds_def step_def [symmetric] Let_def using True by simp
    ultimately show ?thesis by (simp add: Let_def)
  next
    case False
    define m where "m = (n + step - 1) div step"
    have "n = n div step * step + n mod step" by simp
    have m: "0 < m" "(m - 1) * step < n" "n \<le> m * step"
    proof -
      have "step \<le> n + step - 1" using False step(2) by simp
      then show "0 < m" using step(2) by (simp add: m_def div_greater_zero_iff)
      have "m * step \<le> n + step - 1" by (simp add: m_def)
      then show "(m - 1) * step < n" using step(2) False by (simp add: diff_mult_distrib)
      have "n + step - 1 < (m + 1) * step" using step(2) by (simp add: m_def dividend_less_div_times)
      then show "n \<le> m * step" by simp
    qed
    have bs: "bridge_slice_bounds n topk max_rows = map (\<lambda>k. k * step) [0..<m] @ [n]"
      unfolding bridge_slice_bounds_def step_def [symmetric] Let_def range_step_def m_def [symmetric]
      using False m(1,2) by (simp add: last_map)
    have "bs ! k < bs ! Suc k \<and> (bs ! Suc k - bs ! k) * topk \<le> max_rows"
      if k: "k < length bs - 1" and b: "bs = map (\<lambda>k. k * step) [0..<m] @ [n]" for k bs
    proof (cases "Suc k < m")
      case True
      then show ?thesis using step by (simp add: b nth_append)
    next
      case False
      then have e: "k = m - 1" "Suc k = m" using k b m(1) by simp_all
      have "n - (m - 1) * step \<le> step" using m(1,3) by (simp add: diff_mult_distrib)
      then have "(n - (m - 1) * step) * topk \<le> max_rows" using step(3) by (meson le_trans mult_le_mono1)
      then show ?thesis using e m by (simp add: b nth_append)
    qed
    then show ?thesis unfolding Let_def bs using m(1) by (simp add: hd_append hd_map)
  qed
qed

section \<open>A pool of one page\<close>

definition demo_fops :: "rat fops" where
  "demo_fops = \<lparr>f_lit = id, f_e4m3 = (\<lambda>b. of_nat (b mod 128) / 8), f_mul = (*), f_div = (/), f_neg = uminus, f_abs = abs,
     f_tlmax = max, f_amax = max, f_bits = floor, f_of_bits = of_int, f_to_fp8 = (\<lambda>x. nat (\<lfloor>x\<rfloor> mod 256)),
     f_to_bf16 = (\<lambda>x. (nat (\<lfloor>x\<rfloor> mod 256), nat (\<lfloor>x * 256\<rfloor> mod 256))), f_num = (\<lambda>_. True)\<rparr>"

definition demo_bridge :: bridge where
  "demo_bridge = \<lparr>br_scratch = \<lparr>gb_buf = None, gb_retired = []\<rparr>, br_ids = \<lparr>gb_buf = None, gb_retired = []\<rparr>, br_filled = 0\<rparr>"

lemma row_ok_replicate:
  "0 \<le> rb_data r \<Longrightarrow> nat (rb_data r) + 256 \<le> k \<Longrightarrow> 0 \<le> rb_scale r \<Longrightarrow> nat (rb_scale r) + 32 \<le> k \<Longrightarrow>
     row_ok (replicate k 49) r"
  unfolding row_ok_def by simp

lemma repack_bridge_matches_reference_witness:
  "\<exists>view ids s' ref.
     repack_fp4_extra_to_v4 demo_fops (\<lambda>k. replicate k 7) (\<lambda>k. replicate k 0) [2, 0, 1] (replicate 36864 49) 36864 128 [3, - 1, 127] demo_bridge
       = Inr (view, ids, s')
     \<and> repack_ref demo_fops (replicate 36864 49) 36864 128 [3, - 1, 127] = Inr (ref, ids)
     \<and> ids = [0, 1, 2] \<and> row_at view 1 = row_at ref 1"
proof -
  have F: "fops_ok demo_fops" by (auto simp: fops_ok_def demo_fops_def)
  have B: "bridge_ok demo_bridge" by (simp add: bridge_ok_def demo_bridge_def)
  have r: "ref_row 36864 128 3 = \<lparr>rb_data = 768, rb_scale = 32864, rb_valid = True\<rparr>"
    "ref_row 36864 128 (- 1) = \<lparr>rb_data = 0, rb_scale = 32768, rb_valid = False\<rparr>"
    "ref_row 36864 128 127 = \<lparr>rb_data = 32512, rb_scale = 36832, rb_valid = True\<rparr>" by code_simp+
  have row: "row_ok (replicate 36864 49) (ref_row 36864 128 i)" if "i \<in> set [3, - 1, 127]" for i
  proof -
    from that have "i = 3 \<or> i = - 1 \<or> i = 127" by simp
    moreover have "row_ok (replicate 36864 49) (ref_row 36864 128 3)" unfolding r by (rule row_ok_replicate) simp_all
    moreover have "row_ok (replicate 36864 49) (ref_row 36864 128 (- 1))" unfolding r by (rule row_ok_replicate) simp_all
    moreover have "row_ok (replicate 36864 49) (ref_row 36864 128 127)" unfolding r by (rule row_ok_replicate) simp_all
    ultimately show ?thesis by blast
  qed
  have "\<exists>view ids s' ref.
     repack_fp4_extra_to_v4 demo_fops (\<lambda>k. replicate k 7) (\<lambda>k. replicate k 0) [2, 0, 1] (replicate 36864 49) 36864 128 [3, - 1, 127] demo_bridge
       = Inr (view, ids, s')
     \<and> repack_ref demo_fops (replicate 36864 49) 36864 128 [3, - 1, 127] = Inr (ref, ids)
     \<and> ids = map int [0..<length [3, - 1, 127 :: int]] \<and> length view = length ref
     \<and> (\<forall>i < length [3, - 1, 127 :: int]. row_at view i = row_at ref i) \<and> bridge_ok s'"
  proof (rule repack_bridge_matches_reference [OF F B])
    fix i :: int assume i: "i \<in> set [3, - 1, 127]"
    then show "- (2 ^ 31) \<le> i \<and> i < 2 ^ 31 \<and> row_ok (replicate 36864 49) (ref_row 36864 128 i)" using row [OF i] by auto
  qed auto
  then obtain view ids s' ref where w:
    "repack_fp4_extra_to_v4 demo_fops (\<lambda>k. replicate k 7) (\<lambda>k. replicate k 0) [2, 0, 1] (replicate 36864 49) 36864 128 [3, - 1, 127] demo_bridge
       = Inr (view, ids, s')" "repack_ref demo_fops (replicate 36864 49) 36864 128 [3, - 1, 127] = Inr (ref, ids)"
    "ids = map int [0..<length [3, - 1, 127 :: int]]" "\<forall>i < length [3, - 1, 127 :: int]. row_at view i = row_at ref i" by blast
  have "row_at view 1 = row_at ref 1" by (rule w(4) [rule_format]) simp
  moreover have "ids = [0, 1, 2]" unfolding w(3) by (simp add: upt_rec)
  ultimately show ?thesis using w(1,2) by blast
qed

lemma bridge_slices_fit_budget_witness:
  "bridge_slice_bounds 10 512 2048 = [0, 4, 8, 10] \<and> (10 - 8) * 512 \<le> (2048 :: nat)"
proof -
  have b: "bridge_slice_bounds 10 512 2048 = [0, 4, 8, 10]" by code_simp
  then show ?thesis using bridge_slices_fit_budget [of 512 2048 10] by (auto simp: Let_def)
qed

end
