(* ===== verification/Fp4Quant.thy ===== *)
theory Fp4Quant
  imports Fp4Repack
begin

text \<open>
  The torch references of the quantised cache (\<open>sglang-overlay/torch_quant.py\<close>): rounding to the e2m1
  grid, codes and their values, power-of-two scales, the pages of the two compressed formats, and the
  fake quantisation of compressed KV.  Values are exact rationals with a sign bit, infinities and NaN;
  the fp32 roundings that are not exact (the product with a reciprocal, a division) and the casts to
  e4m3, ue8m0 and bf16 are parameters.
\<close>

section \<open>Values\<close>

datatype fval = Fin bool rat | Inf bool | NaN bool

fun signbit :: "fval \<Rightarrow> bool" where
  "signbit (Fin s _) = s" | "signbit (Inf s) = s" | "signbit (NaN s) = s"

fun value_of :: "fval \<Rightarrow> rat" where
  "value_of (Fin s m) = (if s then - m else m)" | "value_of (Inf s) = 0" | "value_of (NaN s) = 0"

fun finite_val :: "fval \<Rightarrow> bool" where
  "finite_val (Fin s m) \<longleftrightarrow> 0 \<le> m" | "finite_val _ \<longleftrightarrow> False"

section \<open>The e2m1 grid\<close>

text \<open>\<open>torch.bucketize\<close>: how many boundaries lie below, or at or below, the value.\<close>

definition bucketize :: "bool \<Rightarrow> rat list \<Rightarrow> rat \<Rightarrow> nat" where
  "bucketize right bounds a = length (filter (\<lambda>b. if right then b \<le> a else b < a) bounds)"

definition e2m1_mids :: "rat list" where
  "e2m1_mids = map2 (\<lambda>a b. (a + b) / 2) (butlast e2m1_magnitudes) (tl e2m1_magnitudes)"

definition quantize_to_e2m1_codes :: "fval \<Rightarrow> nat" where
  "quantize_to_e2m1_codes x =
     (let sign = (if signbit x then 8 else 0);
          a = (case x of Fin _ m \<Rightarrow> min m 6 | Inf _ \<Rightarrow> 6 | NaN _ \<Rightarrow> 0);
          code = bucketize True e2m1_mids a; tie_code = bucketize False e2m1_mids a
      in sign + (if a \<in> set e2m1_mids then tie_code + tie_code mod 2 else code))"

definition dequantize_e2m1_codes :: "nat \<Rightarrow> fval" where
  "dequantize_e2m1_codes code = Fin (code div 8 mod 2 = 1) (e2m1_magnitudes ! (code mod 8))"

text \<open>\<open>torch.round\<close>: to the nearest integer, ties to even.\<close>

definition round_half_even :: "rat \<Rightarrow> int" where
  "round_half_even q =
     (let f = \<lfloor>q\<rfloor>; d = q - of_int f
      in if d < 1 / 2 then f else if d > 1 / 2 then f + 1 else if even f then f else f + 1)"

definition round_fp4 :: "rat \<Rightarrow> rat" where
  "round_fp4 x =
     (let m = \<bar>x\<bar>; step = (if m < 2 then 1 / 2 else if m < 4 then 1 else 2)
      in of_int (round_half_even (m / step)) * step * sgn x)"

section \<open>Scales\<close>

text \<open>\<open>ceil_pow2\<close> on the bits of a positive fp32.\<close>

definition ceil_pow2 :: "int \<Rightarrow> int" where
  "ceil_pow2 bits =
     (let exponent = (drop_bit 23 bits AND 0xFF) - 127 + (if bits AND 0x7FFFFF \<noteq> 0 then 1 else 0)
      in push_bit 23 (exponent + 127))"

definition val32 :: "int \<Rightarrow> rat" where
  "val32 bits = (1 + of_int (bits mod 2 ^ 23) / 2 ^ 23) * 2 powi (bits div 2 ^ 23 - 127)"

record qops =
  q_sixth :: "rat \<Rightarrow> rat"
  q_div :: "rat \<Rightarrow> rat \<Rightarrow> rat"
  q_e4m3 :: "rat \<Rightarrow> nat"
  q_e4m3_val :: "nat \<Rightarrow> rat"
  q_bf16 :: "rat \<Rightarrow> rat"

definition clamp :: "rat \<Rightarrow> rat \<Rightarrow> rat \<Rightarrow> rat" where
  "clamp lo hi x = min (max x lo) hi"

section \<open>The fp4 pages\<close>

text \<open>The largest magnitude of a tile, NaN counted as zero; \<open>None\<close> is infinity.\<close>

fun mag_or_zero :: "fval \<Rightarrow> rat option" where
  "mag_or_zero (Fin _ m) = Some m" | "mag_or_zero (Inf _) = None" | "mag_or_zero (NaN _) = Some 0"

definition tile_amax :: "fval list \<Rightarrow> rat option" where
  "tile_amax xs = (if \<exists>x \<in> set xs. mag_or_zero x = None then None else Some (Max (set (map (the \<circ> mag_or_zero) xs))))"

definition fp4_scale :: "qops \<Rightarrow> fval list \<Rightarrow> nat" where
  "fp4_scale Q xs = q_e4m3 Q (case tile_amax xs of None \<Rightarrow> 448 | Some a \<Rightarrow> clamp (1 / 2 ^ 9) 448 (q_sixth Q a))"

text \<open>\<open>x / scale + 0.0\<close>: adding zero clears a negative zero.\<close>

definition scaled_val :: "qops \<Rightarrow> rat \<Rightarrow> fval \<Rightarrow> fval" where
  "scaled_val Q s x = (case x of Fin sg m \<Rightarrow> let q = q_div Q m s in Fin (sg \<and> q \<noteq> 0) q | _ \<Rightarrow> x)"

definition tiles_of :: "nat \<Rightarrow> 'a list \<Rightarrow> 'a list list" where
  "tiles_of w xs = map (\<lambda>t. take w (drop (t * w) xs)) [0..<length xs div w]"

definition fp4_codes :: "qops \<Rightarrow> fval list \<Rightarrow> nat list" where
  "fp4_codes Q tok = concat (map (\<lambda>tile. map (\<lambda>x. quantize_to_e2m1_codes (scaled_val Q (q_e4m3_val Q (fp4_scale Q tile)) x)) tile) (tiles_of 16 tok))"

definition fp4_packed :: "qops \<Rightarrow> fval list \<Rightarrow> nat list" where
  "fp4_packed Q tok = (let codes = fp4_codes Q tok in map (\<lambda>b. codes ! (2 * b) + 16 * codes ! (2 * b + 1)) [0..<256])"

definition fp4_scales :: "qops \<Rightarrow> fval list \<Rightarrow> nat list" where
  "fp4_scales Q tok = map (fp4_scale Q) (tiles_of 16 tok)"

definition quantize_k_cache_v41_fp4 :: "qops \<Rightarrow> fval list list list \<Rightarrow> nat option \<Rightarrow> nat list list res" where
  "quantize_k_cache_v41_fp4 Q k page_bytes =
     ensure (\<forall>page \<in> set k. \<forall>tok \<in> set page. length tok = 512) AssertionError
     (res_list (\<lambda>page. let raw = length page * 288; pb = (case page_bytes of None \<Rightarrow> cdiv raw 256 * 256 | Some pb \<Rightarrow> pb)
        in ensure (pb \<ge> raw) AssertionError
          (Inr (concat (map (fp4_packed Q) page) @ concat (map (fp4_scales Q) page) @ replicate (pb - raw) 0))) k)"

definition dequantize_k_cache_v41_fp4 :: "qops \<Rightarrow> nat list list \<Rightarrow> nat \<Rightarrow> rat list list list" where
  "dequantize_k_cache_v41_fp4 Q pages page_size =
     map (\<lambda>page. map (\<lambda>t.
        let data = take 256 (drop (t * 256) (take (page_size * 256) page));
            scale = take 32 (drop (t * 32) (take (page_size * 32) (drop (page_size * 256) page)));
            codes = map (\<lambda>j. nibble (odd j) (data ! (j div 2))) [0..<512]
        in map (\<lambda>j. q_bf16 Q (value_of (dequantize_e2m1_codes (codes ! j)) * q_e4m3_val Q (scale ! (j div 16)))) [0..<512]) [0..<page_size]) pages"

text \<open>Fake quantisation of a compressed-KV row: the fp4 round trip without the bytes.\<close>

definition fake_quant_compressed_kv :: "qops \<Rightarrow> rat list \<Rightarrow> rat list" where
  "fake_quant_compressed_kv Q xs =
     concat (map (\<lambda>tile.
       let amax = Max (set (map abs tile)); scale = q_e4m3_val Q (q_e4m3 Q (clamp (1 / 2 ^ 9) 448 (q_sixth Q amax)))
       in map (\<lambda>x. q_bf16 Q (round_fp4 (clamp (- 6) 6 (sgn x * q_div Q \<bar>x\<bar> scale)) * scale)) tile) (tiles_of 16 xs))"

section \<open>The ue8m0 block format\<close>

text \<open>\<open>q_bits\<close>: the fp32 bits of a positive value.  The amax of a block is at least the floor, so its bits are
  those of a normal number.\<close>

definition block_scale :: "(rat \<Rightarrow> int) \<Rightarrow> (rat \<Rightarrow> rat) \<Rightarrow> rat \<Rightarrow> rat list \<Rightarrow> rat" where
  "block_scale q_bits times_recip amax_floor blk = val32 (ceil_pow2 (q_bits (times_recip (max (Max (set (map abs blk))) amax_floor))))"

definition fake_quant_fp4 :: "qops \<Rightarrow> (rat \<Rightarrow> int) \<Rightarrow> nat \<Rightarrow> rat list \<Rightarrow> rat list" where
  "fake_quant_fp4 Q q_bits block_size xs =
     concat (map (\<lambda>blk. let scale = block_scale q_bits (q_sixth Q) (6 / 2 ^ 126) blk
       in map (\<lambda>x. q_bf16 Q (round_fp4 (clamp (- 6) 6 (sgn x * q_div Q \<bar>x\<bar> scale)) * scale)) blk) (tiles_of block_size xs))"

section \<open>The fp8 pages\<close>

text \<open>Casts of the fp8 format: the quotient of the largest magnitude by 448, the fp32 bits, the e4m3 byte of
  a scaled value, the ue8m0 byte of a scale, and both bytes read back as bf16 with their product.\<close>

record 'b v41_ops =
  v_448 :: "fval \<Rightarrow> fval"
  v_bits :: "rat \<Rightarrow> int"
  v_fp8 :: "fval \<Rightarrow> fval \<Rightarrow> nat"
  v_e8m0 :: "fval \<Rightarrow> nat"
  v_fp8_val :: "nat \<Rightarrow> 'b"
  v_e8m0_val :: "nat \<Rightarrow> 'b"
  v_mul :: "'b \<Rightarrow> 'b \<Rightarrow> 'b"

text \<open>\<open>amax\<close> lets a NaN through.\<close>

definition amax_nan :: "fval list \<Rightarrow> fval" where
  "amax_nan xs = (if \<exists>x \<in> set xs. case x of NaN _ \<Rightarrow> True | _ \<Rightarrow> False then NaN False
     else if \<exists>x \<in> set xs. mag_or_zero x = None then Inf False else Fin False (Max (set (map (the \<circ> mag_or_zero) xs))))"

definition cast_scale_inv_to_ue8m0 :: "'b v41_ops \<Rightarrow> fval \<Rightarrow> fval" where
  "cast_scale_inv_to_ue8m0 V s = (case s of Fin _ _ \<Rightarrow> Fin False (val32 (ceil_pow2 (v_bits V (max (value_of s) (1 / 10000))))) | _ \<Rightarrow> s)"

definition v41_scale :: "'b v41_ops \<Rightarrow> fval list \<Rightarrow> fval" where
  "v41_scale V blk = cast_scale_inv_to_ue8m0 V (v_448 V (amax_nan blk))"

definition v41_data :: "'b v41_ops \<Rightarrow> fval list \<Rightarrow> nat list" where
  "v41_data V tok = concat (map (\<lambda>blk. map (\<lambda>x. v_fp8 V x (v41_scale V blk)) blk) (tiles_of 32 tok))"

definition v41_scales :: "'b v41_ops \<Rightarrow> fval list \<Rightarrow> nat list" where
  "v41_scales V tok = map (\<lambda>blk. v_e8m0 V (v41_scale V blk)) (tiles_of 32 tok)"

definition quantize_k_cache_v41 :: "'b v41_ops \<Rightarrow> fval list list list \<Rightarrow> nat option \<Rightarrow> nat list list res" where
  "quantize_k_cache_v41 V k page_bytes =
     ensure (\<forall>page \<in> set k. \<forall>tok \<in> set page. length tok = 512) AssertionError
     (res_list (\<lambda>page. let raw = length page * 528; pb = (case page_bytes of None \<Rightarrow> cdiv raw 512 * 512 | Some pb \<Rightarrow> pb)
        in ensure (pb \<ge> raw) AssertionError
          (Inr (concat (map (v41_data V) page) @ concat (map (v41_scales V) page) @ replicate (pb - raw) 0))) k)"

definition dequantize_k_cache_v41 :: "'b v41_ops \<Rightarrow> nat list list \<Rightarrow> nat \<Rightarrow> 'b list list list" where
  "dequantize_k_cache_v41 V pages page_size =
     map (\<lambda>page. map (\<lambda>t.
        let data = take 512 (drop (t * 512) (take (page_size * 512) page));
            scale = take 16 (drop (t * 16) (take (page_size * 16) (drop (page_size * 512) page)))
        in map (\<lambda>j. v_mul V (v_fp8_val V (data ! j)) (v_e8m0_val V (scale ! (j div 32)))) [0..<512]) [0..<page_size]) pages"

section \<open>The codes are the nearest grid points\<close>

definition e2m1_code :: "rat \<Rightarrow> nat" where
  "e2m1_code a = (if a \<in> set e2m1_mids then bucketize False e2m1_mids a + bucketize False e2m1_mids a mod 2 else bucketize True e2m1_mids a)"

lemma quantize_code:
  "quantize_to_e2m1_codes x = (if signbit x then 8 else 0) + e2m1_code (case x of Fin _ m \<Rightarrow> min m 6 | Inf _ \<Rightarrow> 6 | NaN _ \<Rightarrow> 0)"
  by (simp add: quantize_to_e2m1_codes_def e2m1_code_def Let_def)

lemma mids_eq: "e2m1_mids = [1/4, 3/4, 5/4, 7/4, 5/2, 7/2, 5]"
  by (simp add: e2m1_mids_def e2m1_magnitudes_def)

text \<open>The interval of each code; ties belong to the even neighbour.\<close>

lemma code_intervals:
  "0 \<le> a \<Longrightarrow> a \<le> 1/4 \<Longrightarrow> e2m1_code a = 0" "1/4 < a \<Longrightarrow> a < 3/4 \<Longrightarrow> e2m1_code a = 1"
  "3/4 \<le> a \<Longrightarrow> a \<le> 5/4 \<Longrightarrow> e2m1_code a = 2" "5/4 < a \<Longrightarrow> a < 7/4 \<Longrightarrow> e2m1_code a = 3"
  "7/4 \<le> a \<Longrightarrow> a \<le> 5/2 \<Longrightarrow> e2m1_code a = 4" "5/2 < a \<Longrightarrow> a < 7/2 \<Longrightarrow> e2m1_code a = 5"
  "7/2 \<le> a \<Longrightarrow> a \<le> 5 \<Longrightarrow> e2m1_code a = 6" "5 < a \<Longrightarrow> e2m1_code a = 7"
  by (auto simp: e2m1_code_def mids_eq bucketize_def)

lemma grid_cases:
  assumes "0 \<le> a" "a \<le> (6 :: rat)"
  obtains "a \<le> 1/4" "e2m1_code a = 0" | "1/4 < a" "a < 3/4" "e2m1_code a = 1" | "3/4 \<le> a" "a \<le> 5/4" "e2m1_code a = 2"
    | "5/4 < a" "a < 7/4" "e2m1_code a = 3" | "7/4 \<le> a" "a \<le> 5/2" "e2m1_code a = 4" | "5/2 < a" "a < 7/2" "e2m1_code a = 5"
    | "7/2 \<le> a" "a \<le> 5" "e2m1_code a = 6" | "5 < a" "e2m1_code a = 7"
  using assms code_intervals [of a] by (meson linorder_not_le)

lemma code_less: "0 \<le> a \<Longrightarrow> a \<le> 6 \<Longrightarrow> e2m1_code a < 8"
  by (erule (1) grid_cases) simp_all

lemma mags_set: "d < 8 \<Longrightarrow> d = 0 \<or> d = 1 \<or> d = 2 \<or> d = 3 \<or> d = 4 \<or> d = 5 \<or> d = 6 \<or> d = (7 :: nat)"
  by linarith

lemma code_nearest:
  assumes "0 \<le> a" "a \<le> 6" "d < 8"
  shows "\<bar>e2m1_magnitudes ! e2m1_code a - a\<bar> \<le> \<bar>e2m1_magnitudes ! d - a\<bar>"
    "\<bar>e2m1_magnitudes ! e2m1_code a - a\<bar> = \<bar>e2m1_magnitudes ! d - a\<bar> \<Longrightarrow> d \<noteq> e2m1_code a \<Longrightarrow> even (e2m1_code a)"
proof -
  note d = mags_set [OF assms(3)]
  show "\<bar>e2m1_magnitudes ! e2m1_code a - a\<bar> \<le> \<bar>e2m1_magnitudes ! d - a\<bar>"
    by (rule grid_cases [OF assms(1,2)]; insert d; elim disjE; simp add: e2m1_magnitudes_def abs_if)
  show "even (e2m1_code a)" if "\<bar>e2m1_magnitudes ! e2m1_code a - a\<bar> = \<bar>e2m1_magnitudes ! d - a\<bar>" "d \<noteq> e2m1_code a"
    by (rule grid_cases [OF assms(1,2)]; insert d that; elim disjE; simp add: e2m1_magnitudes_def abs_if split: if_splits)
qed

lemma round_half_even_unique:
  assumes "of_int n - 1/2 \<le> q" "q \<le> of_int n + 1/2" "q = of_int n - 1/2 \<or> q = of_int n + 1/2 \<Longrightarrow> even n"
  shows "round_half_even q = n"
proof (cases "of_int n \<le> q")
  case True
  then have "\<lfloor>q\<rfloor> = n" using assms(2) by (simp add: floor_unique)
  then show ?thesis using assms True by (auto simp: round_half_even_def Let_def)
next
  case False
  then have f: "\<lfloor>q\<rfloor> = n - 1" using assms(1) by (intro floor_unique) simp_all
  show ?thesis
  proof (cases "q = of_int n - 1/2")
    case True
    then have "even n" using assms(3) by blast
    then show ?thesis unfolding round_half_even_def f Let_def using True by simp
  next
    case n: False
    then show ?thesis unfolding round_half_even_def f Let_def using assms(1) by simp
  qed
qed

lemma round_step: "0 < s \<Longrightarrow> of_int n - 1/2 \<le> m / s \<Longrightarrow> m / s \<le> of_int n + 1/2 \<Longrightarrow> (m / s = of_int n - 1/2 \<or> m / s = of_int n + 1/2 \<Longrightarrow> even n)
    \<Longrightarrow> of_int (round_half_even (m / s)) * s = of_int n * (s :: rat)"
  by (simp add: round_half_even_unique)

lemma round_grid:
  assumes "0 \<le> m" "m \<le> 6"
  shows "(let step = (if m < 2 then 1 / 2 else if m < 4 then 1 else 2) in of_int (round_half_even (m / step)) * step) = e2m1_magnitudes ! e2m1_code m"
  using assms
proof (rule grid_cases)
  assume "m \<le> 1/4" "e2m1_code m = 0"
  then show ?thesis using assms round_half_even_unique [of 0 "m / (1/2)"] by (simp add: e2m1_magnitudes_def Let_def)
next
  assume "1/4 < m" "m < 3/4" "e2m1_code m = 1"
  then show ?thesis using round_half_even_unique [of 1 "m / (1/2)"] by (simp add: e2m1_magnitudes_def Let_def)
next
  assume "3/4 \<le> m" "m \<le> 5/4" "e2m1_code m = 2"
  then show ?thesis using round_half_even_unique [of 2 "m / (1/2)"] by (simp add: e2m1_magnitudes_def Let_def)
next
  assume "5/4 < m" "m < 7/4" "e2m1_code m = 3"
  then show ?thesis using round_half_even_unique [of 3 "m / (1/2)"] by (simp add: e2m1_magnitudes_def Let_def)
next
  assume "7/4 \<le> m" "m \<le> 5/2" "e2m1_code m = 4"
  then show ?thesis using round_half_even_unique [of 4 "m / (1/2)"] round_half_even_unique [of 2 m]
    by (cases "m < 2") (simp_all add: e2m1_magnitudes_def Let_def)
next
  assume "5/2 < m" "m < 7/2" "e2m1_code m = 5"
  then show ?thesis using round_half_even_unique [of 3 m] by (simp add: e2m1_magnitudes_def Let_def)
next
  assume "7/2 \<le> m" "m \<le> 5" "e2m1_code m = 6"
  then show ?thesis using round_half_even_unique [of 4 m] round_half_even_unique [of 2 "m / 2"]
    by (cases "m < 4") (simp_all add: e2m1_magnitudes_def Let_def)
next
  assume "5 < m" "e2m1_code m = 7"
  then show ?thesis using assms round_half_even_unique [of 3 "m / 2"] by (simp add: e2m1_magnitudes_def Let_def)
qed


section \<open>Tiles and pages\<close>

lemma tiles_props:
  assumes "length xs = n * w" "0 < w"
  shows "length (tiles_of w xs) = n" "\<And>t. t < n \<Longrightarrow> tiles_of w xs ! t = take w (drop (t * w) xs)"
    "\<forall>r \<in> set (tiles_of w xs). length r = w" "\<And>t i. t < n \<Longrightarrow> i < w \<Longrightarrow> tiles_of w xs ! t ! i = xs ! (t * w + i)"
proof -
  have d: "length xs div w = n" using assms by simp
  show "length (tiles_of w xs) = n" by (simp add: tiles_of_def d)
  show t: "tiles_of w xs ! t = take w (drop (t * w) xs)" if "t < n" for t using that by (simp add: tiles_of_def d)
  have room: "t * w + w \<le> length xs" if "t < n" for t
    using that mult_le_mono1 [of "Suc t" n w] assms(1) by simp
  have "w \<le> length xs - t * w" if "t < n" for t using room [OF that] by linarith
  then show "\<forall>r \<in> set (tiles_of w xs). length r = w" by (auto simp: tiles_of_def d min_absorb2)
  show "tiles_of w xs ! t ! i = xs ! (t * w + i)" if "t < n" "i < w" for t i
    using room [OF that(1)] that by (simp add: t)
qed

lemma concat_tiles_nth:
  assumes "length xs = n * w" "0 < w" "j < n * w"
  shows "concat (map (\<lambda>tile. map (f tile) tile) (tiles_of w xs)) ! j = f (tiles_of w xs ! (j div w)) (xs ! j)"
    "length (concat (map (\<lambda>tile. map (f tile) tile) (tiles_of w xs))) = n * w"
proof -
  note T = tiles_props [OF assms(1,2)]
  let ?rows = "map (\<lambda>tile. map (f tile) tile) (tiles_of w xs)"
  have rect: "\<forall>r \<in> set ?rows. length r = w" using T(3) by auto
  have t: "j div w < n" "j mod w < w" using assms(2,3) by (simp_all add: less_mult_imp_div_less)
  have "concat ?rows ! (j div w * w + j mod w) = ?rows ! (j div w) ! (j mod w)"
    using concat_rect_nth [OF rect, of "j div w" "j mod w"] T(1) t by simp
  also have "\<dots> = f (tiles_of w xs ! (j div w)) (tiles_of w xs ! (j div w) ! (j mod w))"
    using T(1,3) t by simp
  finally show "concat ?rows ! j = f (tiles_of w xs ! (j div w)) (xs ! j)" using T(4) [OF t] by simp
  show "length (concat ?rows) = n * w" using length_concat_uniform [of "tiles_of w xs" "\<lambda>tile. map (f tile) tile" w] T(1,3) by simp
qed

lemma quantize_lt16:
  assumes "0 \<le> (case x of Fin _ m \<Rightarrow> m | _ \<Rightarrow> 0)"
  shows "quantize_to_e2m1_codes x < 16"
proof -
  have "e2m1_code (case x of Fin _ m \<Rightarrow> min m 6 | Inf _ \<Rightarrow> 6 | NaN _ \<Rightarrow> 0) < 8"
    using assms by (intro code_less) (auto split: fval.splits)
  then show ?thesis by (simp add: quantize_code)
qed

text \<open>What the parameters have to satisfy: the quotient of a magnitude by a scale is a magnitude, and an
  encoded scale of the clamped range is positive.\<close>

definition qops_ok :: "qops \<Rightarrow> bool" where
  "qops_ok Q \<longleftrightarrow> (\<forall>a s. 0 \<le> a \<longrightarrow> 0 < s \<longrightarrow> 0 \<le> q_div Q a s) \<and> (\<forall>a. 1 / 2 ^ 9 \<le> a \<longrightarrow> a \<le> 448 \<longrightarrow> 0 < q_e4m3_val Q (q_e4m3 Q a))"

definition tok_ok :: "fval list \<Rightarrow> bool" where
  "tok_ok tok \<longleftrightarrow> length tok = 512 \<and> (\<forall>x \<in> set tok. case x of Fin _ m \<Rightarrow> 0 \<le> m | _ \<Rightarrow> True)"

lemma scale_pos: "qops_ok Q \<Longrightarrow> 0 < q_e4m3_val Q (fp4_scale Q xs)"
  by (auto simp: qops_ok_def fp4_scale_def clamp_def split: option.split)

lemma codes_nth:
  assumes "qops_ok Q" "tok_ok tok"
  shows "length (fp4_codes Q tok) = 512"
    "j < 512 \<Longrightarrow> fp4_codes Q tok ! j = quantize_to_e2m1_codes (scaled_val Q (q_e4m3_val Q (fp4_scales Q tok ! (j div 16))) (tok ! j))"
    "j < 512 \<Longrightarrow> fp4_codes Q tok ! j < 16" "length (fp4_scales Q tok) = 32"
proof -
  have len: "length tok = 32 * 16" using assms(2) by (simp add: tok_ok_def)
  note T = tiles_props [OF len]
  show "length (fp4_scales Q tok) = 32" using T(1) by (simp add: fp4_scales_def)
  show "length (fp4_codes Q tok) = 512" unfolding fp4_codes_def using concat_tiles_nth(2) [OF len, of 0] by simp
  show nth: "fp4_codes Q tok ! j = quantize_to_e2m1_codes (scaled_val Q (q_e4m3_val Q (fp4_scales Q tok ! (j div 16))) (tok ! j))" if "j < 512" for j
    unfolding fp4_codes_def using concat_tiles_nth(1) [OF len, of j] T(1) that by (simp add: fp4_scales_def)
  show "fp4_codes Q tok ! j < 16" if j: "j < 512" for j
  proof -
    have "tok ! j \<in> set tok" using len j by simp
    then have "case tok ! j of Fin _ m \<Rightarrow> 0 \<le> m | _ \<Rightarrow> True" using assms(2) by (simp add: tok_ok_def)
    moreover have "0 < q_e4m3_val Q (fp4_scales Q tok ! (j div 16))" using scale_pos [OF assms(1)] T(1) j by (simp add: fp4_scales_def)
    ultimately have "0 \<le> (case scaled_val Q (q_e4m3_val Q (fp4_scales Q tok ! (j div 16))) (tok ! j) of Fin _ m \<Rightarrow> m | _ \<Rightarrow> 0)"
      using assms(1) by (auto simp: scaled_val_def Let_def qops_ok_def split: fval.splits)
    then show ?thesis unfolding nth [OF j] by (rule quantize_lt16)
  qed
qed

lemma packed_nibble:
  assumes "qops_ok Q" "tok_ok tok" "j < 512"
  shows "nibble (odd j) (fp4_packed Q tok ! (j div 2)) = fp4_codes Q tok ! j" "length (fp4_packed Q tok) = 256"
proof -
  have b: "j div 2 < 256" using assms(3) by simp
  have p: "fp4_packed Q tok ! (j div 2) = fp4_codes Q tok ! (2 * (j div 2)) + 16 * fp4_codes Q tok ! (2 * (j div 2) + 1)"
    unfolding fp4_packed_def Let_def using b by (simp del: upt_rec_numeral)
  have "fp4_codes Q tok ! (2 * (j div 2)) < 16" using codes_nth(3) [OF assms(1,2), of "2 * (j div 2)"] assms(3) by simp
  then show "nibble (odd j) (fp4_packed Q tok ! (j div 2)) = fp4_codes Q tok ! j"
    unfolding p nibble_def by (cases "odd j") (auto elim!: oddE evenE)
  show "length (fp4_packed Q tok) = 256" by (simp add: fp4_packed_def Let_def)
qed

text \<open>A page of the writer, and where its rows are.\<close>

definition page_of :: "qops \<Rightarrow> fval list list \<Rightarrow> nat \<Rightarrow> nat list" where
  "page_of Q toks pb = concat (map (fp4_packed Q) toks) @ concat (map (fp4_scales Q) toks) @ replicate (pb - length toks * 288) 0"

text \<open>Rows of a page that holds all data rows and behind them all scale rows, read directly and through
  the slices a reader takes first.\<close>

lemma paged_rows:
  fixes data scales :: "'a list list" and z :: "'a list"
  assumes "\<forall>r \<in> set data. length r = nd" "\<forall>r \<in> set scales. length r = ns" "length data = n" "length scales = n" "t < n"
  defines "pg \<equiv> concat data @ concat scales @ z"
  shows "take nd (drop (t * nd) pg) = data ! t" "take ns (drop (n * nd + t * ns) pg) = scales ! t"
    "take nd (drop (t * nd) (take (n * nd) pg)) = data ! t" "take ns (drop (t * ns) (take (n * ns) (drop (n * nd) pg))) = scales ! t"
proof -
  have L: "length (concat data) = n * nd" "length (concat scales) = n * ns"
    using length_concat_uniform [of data "\<lambda>x. x" nd] length_concat_uniform [of scales "\<lambda>x. x" ns] assms(1-4) by simp_all
  have room: "t * nd + nd \<le> n * nd" "t * ns + ns \<le> n * ns"
    using mult_le_mono1 [of "Suc t" n nd] mult_le_mono1 [of "Suc t" n ns] assms(5) by simp_all
  then have diff: "nd \<le> n * nd - t * nd" "ns \<le> n * ns - t * ns" by linarith+
  show d: "take nd (drop (t * nd) pg) = data ! t"
    using concat_block [of data nd t] assms(1,3,5) room L by (simp add: pg_def)
  show s: "take ns (drop (n * nd + t * ns) pg) = scales ! t"
    using concat_block [of scales ns t] assms(2,4,5) room L by (simp add: pg_def)
  show "take nd (drop (t * nd) (take (n * nd) pg)) = data ! t" using d diff(1) by (simp add: drop_take min_def)
  show "take ns (drop (t * ns) (take (n * ns) (drop (n * nd) pg))) = scales ! t"
    using s diff(2) by (simp add: drop_take min_def add.commute)
qed

lemma page_rows:
  assumes "qops_ok Q" "\<forall>tok \<in> set toks. tok_ok tok" "t < length toks"
  shows "take 256 (drop (t * 256) (page_of Q toks pb)) = fp4_packed Q (toks ! t)"
    "take 32 (drop (length toks * 256 + t * 32) (page_of Q toks pb)) = fp4_scales Q (toks ! t)"
    "take 256 (drop (t * 256) (take (length toks * 256) (page_of Q toks pb))) = fp4_packed Q (toks ! t)"
    "take 32 (drop (t * 32) (take (length toks * 32) (drop (length toks * 256) (page_of Q toks pb)))) = fp4_scales Q (toks ! t)"
    "length toks * 288 \<le> pb \<Longrightarrow> length (page_of Q toks pb) = pb"
proof -
  have lp: "\<forall>r \<in> set (map (fp4_packed Q) toks). length r = 256" by (simp add: fp4_packed_def Let_def)
  have ls: "\<forall>r \<in> set (map (fp4_scales Q) toks). length r = 32" using assms(1,2) codes_nth(4) by auto
  note R = paged_rows [OF lp ls length_map length_map assms(3), of "replicate (pb - length toks * 288) 0", folded page_of_def]
  show "take 256 (drop (t * 256) (page_of Q toks pb)) = fp4_packed Q (toks ! t)"
    "take 32 (drop (length toks * 256 + t * 32) (page_of Q toks pb)) = fp4_scales Q (toks ! t)"
    "take 256 (drop (t * 256) (take (length toks * 256) (page_of Q toks pb))) = fp4_packed Q (toks ! t)"
    "take 32 (drop (t * 32) (take (length toks * 32) (drop (length toks * 256) (page_of Q toks pb)))) = fp4_scales Q (toks ! t)"
    using R assms(3) by simp_all
  have "length (concat (map (fp4_packed Q) toks)) = length toks * 256" "length (concat (map (fp4_scales Q) toks)) = length toks * 32"
    using length_concat_uniform [of toks "fp4_packed Q" 256] length_concat_uniform [of toks "fp4_scales Q" 32] lp ls by simp_all
  then show "length (page_of Q toks pb) = pb" if "length toks * 288 \<le> pb" using that by (simp add: page_of_def)
qed

lemma quantize_pages:
  assumes "\<forall>page \<in> set k. \<forall>tok \<in> set page. tok_ok tok" "\<forall>page \<in> set k. length page * 288 \<le> pb"
  shows "quantize_k_cache_v41_fp4 Q k (Some pb) = Inr (map (\<lambda>page. page_of Q page pb) k)"
proof -
  have "res_list (\<lambda>page. let raw = length page * 288 in ensure (raw \<le> pb) AssertionError
          (Inr (concat (map (fp4_packed Q) page) @ concat (map (fp4_scales Q) page) @ replicate (pb - raw) 0))) k
      = Inr (map (\<lambda>page. page_of Q page pb) k)"
    using assms(2) by (induction k) (auto simp: page_of_def res_map_def Let_def)
  then show ?thesis using assms(1) by (auto simp: quantize_k_cache_v41_fp4_def tok_ok_def Let_def ensure_def)
qed

text \<open>The values a reader of the page gets.\<close>

definition fp4_values :: "qops \<Rightarrow> fval list \<Rightarrow> rat list" where
  "fp4_values Q tok = map (\<lambda>j. q_bf16 Q (value_of (dequantize_e2m1_codes (fp4_codes Q tok ! j)) * q_e4m3_val Q (fp4_scales Q tok ! (j div 16)))) [0..<512]"

lemma dequantize_pages:
  assumes "qops_ok Q" "\<forall>page \<in> set k. length page = ps \<and> (\<forall>tok \<in> set page. tok_ok tok)" "ps * 288 \<le> pb"
  shows "dequantize_k_cache_v41_fp4 Q (map (\<lambda>page. page_of Q page pb) k) ps = map (map (fp4_values Q)) k"
proof -
  have tok: "(let data = take 256 (drop (t * 256) (take (ps * 256) (page_of Q page pb)));
            scale = take 32 (drop (t * 32) (take (ps * 32) (drop (ps * 256) (page_of Q page pb))));
            codes = map (\<lambda>j. nibble (odd j) (data ! (j div 2))) [0..<512]
        in map (\<lambda>j. q_bf16 Q (value_of (dequantize_e2m1_codes (codes ! j)) * q_e4m3_val Q (scale ! (j div 16)))) [0..<512]) = fp4_values Q (page ! t)"
    if page: "page \<in> set k" and t: "t < ps" for page t
  proof -
    have len: "length page = ps" and ok: "\<forall>tok \<in> set page. tok_ok tok" using assms(2) page by auto
    have tt: "t < length page" "tok_ok (page ! t)" using t len ok by simp_all
    note R = page_rows [OF assms(1) ok tt(1), of pb, unfolded len]
    note data = R(3) and scale = R(4)
    have codes: "map (\<lambda>j. nibble (odd j) (fp4_packed Q (page ! t) ! (j div 2))) [0..<512] = fp4_codes Q (page ! t)"
      using packed_nibble(1) [OF assms(1) tt(2)] codes_nth(1) [OF assms(1) tt(2)]
      by (intro nth_equalityI) (simp_all del: upt_rec_numeral)
    show ?thesis unfolding data scale Let_def codes fp4_values_def by (rule refl)
  qed
  show ?thesis unfolding dequantize_k_cache_v41_fp4_def
    by (rule nth_equalityI) (use tok assms(2) in \<open>auto intro!: nth_equalityI simp del: upt_rec_numeral\<close>)
qed

section \<open>Fake quantisation and the cache\<close>

definition fp_of :: "rat \<Rightarrow> fval" where
  "fp_of x = Fin (x < 0) \<bar>x\<bar>"

lemma round_signed:
  assumes "0 \<le> q"
  shows "round_fp4 (clamp (- 6) 6 (sgn x * q)) = sgn x * e2m1_magnitudes ! e2m1_code (min q 6)"
proof -
  let ?m = "min q 6"
  have c: "clamp (- 6) 6 (sgn x * q) = sgn x * ?m" using assms by (cases "x = 0"; cases "0 < x") (auto simp: clamp_def sgn_if min_def max_def)
  have m: "0 \<le> ?m" "?m \<le> 6" using assms by simp_all
  show ?thesis
  proof (cases "x = 0 \<or> ?m = 0")
    case True
    then have "sgn x * ?m = 0" by auto
    moreover have "e2m1_code 0 = 0" by (rule code_intervals(1)) simp_all
    ultimately show ?thesis using True by (auto simp: c round_fp4_def e2m1_magnitudes_def)
  next
    case False
    then have a: "\<bar>sgn x * ?m\<bar> = ?m" "sgn (sgn x * ?m) = sgn x" using m by (auto simp: abs_mult sgn_mult)
    show ?thesis unfolding c round_fp4_def a using round_grid [OF m] by (simp add: Let_def mult.commute)
  qed
qed

lemma quantize_signed:
  assumes "0 \<le> q_div Q \<bar>x\<bar> s"
  shows "value_of (dequantize_e2m1_codes (quantize_to_e2m1_codes (scaled_val Q s (fp_of x))))
     = sgn x * e2m1_magnitudes ! e2m1_code (min (q_div Q \<bar>x\<bar> s) 6) \<or> x = 0 \<and> q_div Q 0 s \<noteq> 0"
proof -
  let ?q = "q_div Q \<bar>x\<bar> s" and ?c = "e2m1_code (min (q_div Q \<bar>x\<bar> s) 6)"
  have c: "?c < 8" using assms by (intro code_less) simp_all
  have e: "quantize_to_e2m1_codes (scaled_val Q s (fp_of x)) = (if x < 0 \<and> ?q \<noteq> 0 then 8 else 0) + ?c"
    by (simp add: quantize_code scaled_val_def fp_of_def Let_def)
  have v: "value_of (dequantize_e2m1_codes ((if neg then 8 else 0) + ?c)) = (if neg then - (e2m1_magnitudes ! ?c) else e2m1_magnitudes ! ?c)" for neg
    using c by (simp add: dequantize_e2m1_codes_def)
  have z: "?q = 0 \<Longrightarrow> e2m1_magnitudes ! ?c = 0" using code_intervals(1) [of 0] by (simp add: e2m1_magnitudes_def)
  show ?thesis unfolding e v using z by (cases "x = 0"; cases "x < 0") (auto simp: sgn_if)
qed

text \<open>C19. Fake quantisation is the cache: for finite rows, writing a page of the fp4 format and reading it
  back gives, token by token, the values of the fake quantisation, although one rounds by steps of the
  grid and the other through four-bit codes packed in bytes beside their scales.\<close>

theorem fp4_cache_is_fake_quant:
  assumes Q: "qops_ok Q" "\<And>s. q_div Q 0 s = 0"
    and k: "\<forall>page \<in> set k. length page = ps \<and> (\<forall>tok \<in> set page. length tok = 512)" "ps * 288 \<le> pb"
  shows "\<exists>pages. quantize_k_cache_v41_fp4 Q (map (map (map fp_of)) k) (Some pb) = Inr pages
     \<and> (\<forall>page \<in> set pages. length page = pb)
     \<and> dequantize_k_cache_v41_fp4 Q pages ps = map (map (fake_quant_compressed_kv Q)) k"
proof -
  let ?k = "map (map (map fp_of)) k"
  have ok: "\<forall>page \<in> set ?k. length page = ps \<and> (\<forall>tok \<in> set page. tok_ok tok)"
    using k(1) by (auto simp: tok_ok_def fp_of_def)
  have fake: "fp4_values Q (map fp_of tok) = fake_quant_compressed_kv Q tok" if tok: "length tok = 512" for tok
  proof (rule nth_equalityI)
    have len: "length tok = 32 * 16" "length (map fp_of tok) = 32 * 16" using tok by simp_all
    have tk: "tok_ok (map fp_of tok)" using tok by (auto simp: tok_ok_def fp_of_def)
    define body where "body = (\<lambda>blk x. let amax = Max (set (map abs blk)); scale = q_e4m3_val Q (q_e4m3 Q (clamp (1 / 2 ^ 9) 448 (q_sixth Q amax)))
       in q_bf16 Q (round_fp4 (clamp (- 6) 6 (sgn x * q_div Q \<bar>x\<bar> scale)) * scale))"
    have fk: "fake_quant_compressed_kv Q tok = concat (map (\<lambda>blk. map (body blk) blk) (tiles_of 16 tok))"
      by (simp add: fake_quant_compressed_kv_def body_def Let_def)
    show "length (fp4_values Q (map fp_of tok)) = length (fake_quant_compressed_kv Q tok)"
      unfolding fk using concat_tiles_nth(2) [OF len(1), of 0] by (simp add: fp4_values_def)
    fix j assume "j < length (fp4_values Q (map fp_of tok))"
    then have j: "j < 512" "j div 16 < 32" by (simp_all add: fp4_values_def)
    have tl: "tiles_of 16 (map fp_of tok) ! t = map fp_of (tiles_of 16 tok ! t)" if "t < 32" for t
      using tiles_props(2) [OF len(1) _ that] tiles_props(2) [OF len(2) _ that] by (simp add: take_map drop_map)
    let ?blk = "tiles_of 16 tok ! (j div 16)"
    have ne: "?blk \<noteq> []"
    proof -
      have "?blk \<in> set (tiles_of 16 tok)" using tiles_props(1) [OF len(1)] j(2) by simp
      then have "length ?blk = 16" using tiles_props(3) [OF len(1)] by simp
      then show ?thesis by auto
    qed
    have amax: "tile_amax (map fp_of ?blk) = Some (Max (set (map abs ?blk)))"
      using ne by (auto simp: tile_amax_def fp_of_def image_image comp_def)
    let ?s = "q_e4m3_val Q (q_e4m3 Q (clamp (1 / 2 ^ 9) 448 (q_sixth Q (Max (set (map abs ?blk))))))"
    have sc: "q_e4m3_val Q (fp4_scales Q (map fp_of tok) ! (j div 16)) = ?s"
      using tl [OF j(2)] tiles_props(1) [OF len(2)] j(2) amax by (simp add: fp4_scales_def fp4_scale_def)
    have pos: "0 < ?s" using Q(1) by (auto simp: qops_ok_def clamp_def)
    have q: "0 \<le> q_div Q \<bar>tok ! j\<bar> ?s" using Q(1) pos by (simp add: qops_ok_def)
    have val: "value_of (dequantize_e2m1_codes (fp4_codes Q (map fp_of tok) ! j)) = round_fp4 (clamp (- 6) 6 (sgn (tok ! j) * q_div Q \<bar>tok ! j\<bar> ?s))"
      unfolding codes_nth(2) [OF Q(1) tk j(1)] sc round_signed [OF q] using quantize_signed [OF q] Q(2) tok j(1) by auto
    have "fake_quant_compressed_kv Q tok ! j = body ?blk (tok ! j)"
      unfolding fk using concat_tiles_nth(1) [OF len(1), of j] j(1) by simp
    then show "fp4_values Q (map fp_of tok) ! j = fake_quant_compressed_kv Q tok ! j"
      using j(1) val sc by (simp add: fp4_values_def body_def Let_def del: upt_rec_numeral)
  qed
  have q: "quantize_k_cache_v41_fp4 Q ?k (Some pb) = Inr (map (\<lambda>page. page_of Q page pb) ?k)"
    by (rule quantize_pages) (use ok k(2) in auto)
  have d: "dequantize_k_cache_v41_fp4 Q (map (\<lambda>page. page_of Q page pb) ?k) ps = map (map (fp4_values Q)) ?k"
    by (rule dequantize_pages [OF Q(1) ok k(2)])
  have "map (map (fp4_values Q)) ?k = map (map (fake_quant_compressed_kv Q)) k" using k(1) fake by auto
  moreover have "length (page_of Q page pb) = pb" if "page \<in> set ?k" for page
  proof (cases "page = []")
    case False
    then show ?thesis using page_rows(5) [OF Q(1), of page 0 pb] ok that k(2) by auto
  qed (simp add: page_of_def)
  ultimately show ?thesis using q d by auto
qed


lemma fp4_cache_is_fake_quant_witness:
  "\<exists>Q pages. quantize_k_cache_v41_fp4 Q [[replicate 512 (fp_of 3)]] (Some 300) = Inr pages
     \<and> dequantize_k_cache_v41_fp4 Q pages 1 = [[fake_quant_compressed_kv Q (replicate 512 3)]]"
proof -
  let ?Q = "\<lparr>q_sixth = (\<lambda>a. a / 6), q_div = (/), q_e4m3 = (\<lambda>_. 1), q_e4m3_val = (\<lambda>_. 1), q_bf16 = (\<lambda>x. x)\<rparr>"
  have "qops_ok ?Q" by (simp add: qops_ok_def)
  then show ?thesis using fp4_cache_is_fake_quant [of ?Q "[[replicate 512 3]]" 1 300] by (intro exI [of _ ?Q]) auto
qed

section \<open>Codes and scales\<close>

text \<open>Encoding what a code stands for gives the code back, the negative zero included.\<close>

lemma code_roundtrip: "c < 16 \<Longrightarrow> quantize_to_e2m1_codes (dequantize_e2m1_codes c) = c"
proof -
  have "\<forall>c \<in> set [0..<16]. quantize_to_e2m1_codes (dequantize_e2m1_codes c) = c" by code_simp
  then show "c < 16 \<Longrightarrow> quantize_to_e2m1_codes (dequantize_e2m1_codes c) = c" by (simp del: upt_rec_numeral)
qed

text \<open>A NaN with its sign bit set: the sign is taken before the NaN becomes zero, so the code is that of
  the negative zero.\<close>

lemma negative_nan_is_minus_zero: "quantize_to_e2m1_codes (NaN True) = 8" "quantize_to_e2m1_codes (NaN False) = 0"
  by code_simp+

text \<open>For a normal number below the last binade the bits give the least power of two that is not smaller.\<close>

lemma ceil_pow2_least:
  assumes "1 \<le> bits div 2 ^ 23" "bits div 2 ^ 23 \<le> 253"
  shows "\<exists>n. val32 (ceil_pow2 bits) = 2 powi n \<and> val32 bits \<le> 2 powi n \<and> 2 powi n < 2 * val32 bits"
proof -
  let ?e = "bits div 2 ^ 23" and ?m = "bits mod 2 ^ 23"
  have e: "drop_bit 23 bits AND 0xFF = ?e"
    using take_bit_eq_mask [of 8 "drop_bit 23 bits"] assms by (simp add: mask_eq_exp_minus_1 take_bit_eq_mod drop_bit_eq_div)
  have m: "bits AND 0x7FFFFF = ?m"
    using take_bit_eq_mask [of 23 bits] by (simp add: mask_eq_exp_minus_1 take_bit_eq_mod)
  define n where "n = ?e - 127 + (if ?m = 0 then 0 else 1)"
  have c: "ceil_pow2 bits = (n + 127) * 2 ^ 23" by (simp add: ceil_pow2_def Let_def e m n_def push_bit_eq_mult)
  have v: "val32 (ceil_pow2 bits) = 2 powi n" by (simp add: c val32_def)
  have p: "(0 :: rat) < 2 powi (?e - 127)" by simp
  have r: "0 \<le> ?m" "?m < 2 ^ 23" by simp_all
  define f where "f = (of_int ?m / 2 ^ 23 :: rat)"
  have f: "0 \<le> f" "f < 1" "?m = 0 \<longleftrightarrow> f = 0" using r by (simp_all add: f_def)
  have b: "val32 bits = (1 + f) * 2 powi (?e - 127)" by (simp add: val32_def f_def)
  show ?thesis
  proof (cases "?m = 0")
    case True
    then have "n = ?e - 127" "f = 0" using f(3) by (simp_all add: n_def)
    then show ?thesis using v b p by (intro exI [of _ n]) simp
  next
    case False
    then have "n = ?e - 127 + 1" by (simp add: n_def)
    then have n: "(2 :: rat) powi n = 2 * 2 powi (?e - 127)" by (simp only: power_int_add_1 [of "2 :: rat"] zero_neq_numeral [symmetric] simp_thms mult.commute)
    have "0 < f" using False f by simp
    then have "(1 + f) * 2 powi (?e - 127) \<le> 2 * 2 powi (?e - 127)" "1 * 2 powi (?e - 127) < (1 + f) * 2 powi (?e - 127)"
      using f p by (intro mult_right_mono mult_strict_right_mono; simp)+
    then show ?thesis using v n b by (intro exI [of _ n]) simp
  qed
qed

section \<open>The bridge reads what the writer wrote\<close>

lemma row_bytes_page:
  assumes "\<forall>page \<in> set pages. length page = pb" "p < length pages" "off + count \<le> pb" "length bs = count"
    and "take count (drop off (pages ! p)) = bs"
  shows "row_bytes (concat pages) (int (p * pb + off)) count = bs" "p * pb + off + count \<le> length (concat pages)"
proof -
  have len: "length (concat pages) = length pages * pb" using length_concat_uniform [of pages "\<lambda>x. x" pb] assms(1) by simp
  have "p * pb + pb \<le> length pages * pb" using assms(2) mult_le_mono1 [of "Suc p" "length pages" pb] by simp
  then show "p * pb + off + count \<le> length (concat pages)" using len assms(3) by simp
  show "row_bytes (concat pages) (int (p * pb + off)) count = bs"
  proof (rule nth_equalityI)
    fix i assume "i < length (row_bytes (concat pages) (int (p * pb + off)) count)"
    then have i: "i < count" by (simp add: row_bytes_def)
    have "concat pages ! (p * pb + (off + i)) = pages ! p ! (off + i)"
      using concat_rect_nth [OF assms(1,2), of "off + i"] assms(3) i by simp
    also have "\<dots> = bs ! i" using assms(1-3) i by (simp add: assms(5) [symmetric])
    finally show "row_bytes (concat pages) (int (p * pb + off)) count ! i = bs ! i" using i by (simp add: row_bytes_def add.assoc del: of_nat_add of_nat_mult)
  qed (simp add: row_bytes_def assms(4))
qed

lemma page_bytes_small:
  assumes Q: "qops_ok Q" and s: "\<And>a. 1 / 2 ^ 9 \<le> a \<Longrightarrow> a \<le> 448 \<Longrightarrow> q_e4m3 Q a < 127" and toks: "\<forall>tok \<in> set toks. tok_ok tok"
  shows "\<forall>b \<in> set (page_of Q toks pb). b < 256" "tok \<in> set toks \<Longrightarrow> k < 32 \<Longrightarrow> fp4_scales Q tok ! k < 127"
proof -
  have sc: "fp4_scale Q xs < 127" for xs using s by (auto simp: fp4_scale_def clamp_def split: option.split)
  have p: "b < 256" if tk: "tok_ok tok" and b: "b \<in> set (fp4_packed Q tok)" for b tok
  proof -
    obtain i where i: "i < 256" "b = fp4_codes Q tok ! (2 * i) + 16 * fp4_codes Q tok ! (2 * i + 1)"
      using b by (auto simp: fp4_packed_def Let_def)
    then show ?thesis using codes_nth(3) [OF Q tk, of "2 * i"] codes_nth(3) [OF Q tk, of "2 * i + 1"] by simp
  qed
  have r: "b < 256" if b: "b \<in> set (fp4_scales Q tok)" for b tok
  proof -
    obtain xs where "b = fp4_scale Q xs" using b by (auto simp: fp4_scales_def)
    then show ?thesis using sc [of xs] by simp
  qed
  show "\<forall>b \<in> set (page_of Q toks pb). b < 256" using p r toks by (auto simp: page_of_def)
  show "fp4_scales Q tok ! k < 127" if "tok \<in> set toks" "k < 32"
    using sc codes_nth(4) [OF Q] toks that by (simp add: fp4_scales_def)
qed

text \<open>C20. The bridge reads what the writer wrote: in a pool made of written pages every row index in
  range addresses a row the repack kernel accepts (in bounds, no NaN scale), and what the bridge decodes
  there is the token's codes times its scales, through the addresses of the page layout; a padding
  index reads the first token and gates it to zero.\<close>

theorem bridge_reads_written_page:
  assumes Q: "qops_ok Q" "\<And>a. 1 / 2 ^ 9 \<le> a \<Longrightarrow> a \<le> 448 \<Longrightarrow> q_e4m3 Q a < 127"
    and k: "\<forall>page \<in> set k. length page = ps \<and> (\<forall>tok \<in> set page. tok_ok tok)" "ps * 288 \<le> pb" "0 < ps"
    and idx: "i < int (length k * ps)" "k \<noteq> []"
  shows "\<exists>pages packed scales. quantize_k_cache_v41_fp4 Q k (Some pb) = Inr pages
     \<and> row_ok (concat pages) (ref_row (int pb) (int ps) i)
     \<and> gather_rows (concat pages) [rb_data (ref_row (int pb) (int ps) i)] 256 = Inr [packed]
     \<and> gather_rows (concat pages) [rb_scale (ref_row (int pb) (int ps) i)] 32 = Inr [scales]
     \<and> (\<forall>j < 512. ref_vals F (rb_valid (ref_row (int pb) (int ps) i)) packed scales ! j =
          f_mul F (f_mul F (ref_decode F (fp4_codes Q (concat k ! nat i) ! j)) (f_e4m3 F (fp4_scales Q (concat k ! nat i) ! (j div 16))))
            (f_lit F (if i \<ge> 0 then 1 else 0)))"
proof -
  let ?r = "ref_row (int pb) (int ps) i" and ?p = "nat i div ps" and ?t = "nat i mod ps"
  define pages where "pages = map (\<lambda>page. page_of Q page pb) k"
  let ?pool = "concat pages" and ?tok = "concat k ! nat i"
  have q: "quantize_k_cache_v41_fp4 Q k (Some pb) = Inr pages"
    unfolding pages_def by (rule quantize_pages) (use k in auto)
  have "nat i < length k * ps" using idx k(3) by (cases "0 \<le> i") (simp_all add: nat_less_iff)
  then have p: "?p < length k" and t: "?t < ps" using k(3) by (simp_all add: less_mult_imp_div_less)
  have pg: "length (k ! ?p) = ps" "\<forall>tok \<in> set (k ! ?p). tok_ok tok" using k(1) nth_mem [OF p] by blast+
  have tk: "?tok = k ! ?p ! ?t" using concat_rect_nth [of k ps ?p ?t] k(1) p t by simp
  have tok: "?tok \<in> set (k ! ?p)" "tok_ok ?tok" using pg t by (simp_all add: tk)
  have lens: "\<forall>page \<in> set pages. length page = pb"
  proof -
    have "length (page_of Q page pb) = pb" if "page \<in> set k" for page
      using page_rows(5) [OF Q(1), of page 0 pb] k that by auto
    then show ?thesis by (auto simp: pages_def)
  qed
  have nth: "pages ! ?p = page_of Q (k ! ?p) pb" "?p < length pages" using p by (simp_all add: pages_def)
  note R = page_rows [OF Q(1) pg(2), of ?t pb, unfolded pg(1), OF t]
  have t': "?t * 256 + 256 \<le> ps * 256" "?t * 32 + 32 \<le> ps * 32" using t by simp_all
  have off: "?t * 256 + 256 \<le> pb" "ps * 256 + ?t * 32 + 32 \<le> pb" using t' k(2) by linarith+
  have l: "length (fp4_packed Q ?tok) = 256" "length (fp4_scales Q ?tok) = 32"
    using packed_nibble(2) [OF Q(1) tok(2), of 0] codes_nth(4) [OF Q(1) tok(2)] by simp_all
  note D = row_bytes_page [OF lens nth(2) off(1) l(1), unfolded nth(1) tk, OF R(1)]
  note S = row_bytes_page [OF lens nth(2) off(2) l(2), unfolded nth(1) tk, OF R(2)]
  have mx: "max i 0 = int (nat i)" by simp
  have rd: "rb_data ?r = int (?p * pb + ?t * 256)" "rb_scale ?r = int (?p * pb + (ps * 256 + ?t * 32))" "rb_valid ?r = (i \<ge> 0)"
    by (simp_all add: ref_row_def Let_def layout_consts mx zdiv_int zmod_int)
  have sb: "?pool ! (nat (rb_scale ?r) + c) mod 128 \<noteq> 127" if c: "c < 32" for c
  proof -
    have "?pool ! (nat (rb_scale ?r) + c) = row_bytes ?pool (rb_scale ?r) 32 ! c" using c by (simp add: row_bytes_def)
    also have "\<dots> = fp4_scales Q (k ! ?p ! ?t) ! c" unfolding rd using S(1) by simp
    also have "\<dots> < 127" using page_bytes_small(2) [OF Q pg(2) tok(1) c] by (simp add: tk)
    finally show ?thesis by simp
  qed
  have bytes: "\<forall>b \<in> set ?pool. b < 256"
    using page_bytes_small(1) [OF Q] k(1) by (fastforce simp: pages_def)
  have ok: "row_ok ?pool ?r"
    unfolding row_ok_def rd(1,2) using D(2) S(2) sb bytes by (simp add: rd(2) add.assoc del: of_nat_add of_nat_mult)
  have g: "gather_rows ?pool [rb_data ?r] 256 = Inr [fp4_packed Q ?tok]" "gather_rows ?pool [rb_scale ?r] 32 = Inr [fp4_scales Q ?tok]"
    using gather_rows_Inr [of "[rb_data ?r]" 256 ?pool] gather_rows_Inr [of "[rb_scale ?r]" 32 ?pool] D S
    by (simp_all add: rd tk add.assoc del: of_nat_add of_nat_mult)
  have vals: "ref_vals F (rb_valid ?r) (fp4_packed Q ?tok) (fp4_scales Q ?tok) ! j =
      f_mul F (f_mul F (ref_decode F (fp4_codes Q ?tok ! j)) (f_e4m3 F (fp4_scales Q ?tok ! (j div 16)))) (f_lit F (if i \<ge> 0 then 1 else 0))"
    if j: "j < 512" for j
  proof -
    have pb: "row_bytes ?pool (rb_data ?r) 256 = fp4_packed Q ?tok" "row_bytes ?pool (rb_scale ?r) 32 = fp4_scales Q ?tok"
      using D(1) S(1) by (simp_all add: rd tk add.assoc del: of_nat_add of_nat_mult)
    have "j div 2 < 256" "j div 16 < 32" using j by simp_all
    then have e: "?pool ! (nat (rb_data ?r) + j div 2) = fp4_packed Q ?tok ! (j div 2)" "?pool ! (nat (rb_scale ?r) + j div 16) = fp4_scales Q ?tok ! (j div 16)"
      by (simp_all add: pb [symmetric] row_bytes_def)
    show ?thesis
      using ref_vals_elem(2) [OF j, of F ?r ?pool] packed_nibble(1) [OF Q(1) tok(2) j]
      by (simp add: pb elem_def e gate_def rd(3))
  qed
  show ?thesis using q ok g vals by blast
qed

lemma bridge_reads_written_page_witness:
  "\<exists>Q pages. quantize_k_cache_v41_fp4 Q [replicate 128 (replicate 512 (Fin False 3))] (Some 36864) = Inr pages
     \<and> row_ok (concat pages) (ref_row 36864 128 5)"
proof -
  let ?Q = "\<lparr>q_sixth = (\<lambda>a. a / 6), q_div = (/), q_e4m3 = (\<lambda>_. 56), q_e4m3_val = (\<lambda>_. 1), q_bf16 = (\<lambda>x. x)\<rparr>"
  have "qops_ok ?Q" by (simp add: qops_ok_def)
  then show ?thesis
    using bridge_reads_written_page [of ?Q "[replicate 128 (replicate 512 (Fin False 3))]" 128 36864 5 demo_fops]
    by (intro exI [of _ ?Q]) (auto simp: tok_ok_def)
qed

section \<open>Reading the fp8 pages back\<close>

text \<open>What a token reads back as, element by element.\<close>

definition v41_values :: "'b v41_ops \<Rightarrow> fval list \<Rightarrow> 'b list" where
  "v41_values V tok = map (\<lambda>j. let s = v41_scale V (tiles_of 32 tok ! (j div 32))
     in v_mul V (v_fp8_val V (v_fp8 V (tok ! j) s)) (v_e8m0_val V (v_e8m0 V s))) [0..<512]"

lemma v41_lengths:
  assumes "length tok = 512"
  shows "length (v41_data V tok) = 512" "length (v41_scales V tok) = 16"
    "j < 512 \<Longrightarrow> v41_data V tok ! j = v_fp8 V (tok ! j) (v41_scale V (tiles_of 32 tok ! (j div 32)))"
    "j < 512 \<Longrightarrow> v41_scales V tok ! (j div 32) = v_e8m0 V (v41_scale V (tiles_of 32 tok ! (j div 32)))"
proof -
  have len: "length tok = 16 * 32" using assms by simp
  show "length (v41_data V tok) = 512" unfolding v41_data_def using concat_tiles_nth(2) [OF len, of 0] by simp
  show "length (v41_scales V tok) = 16" using tiles_props(1) [OF len] by (simp add: v41_scales_def)
  show "v41_data V tok ! j = v_fp8 V (tok ! j) (v41_scale V (tiles_of 32 tok ! (j div 32)))" if "j < 512"
    unfolding v41_data_def using concat_tiles_nth(1) [OF len, of j] that by simp
  show "v41_scales V tok ! (j div 32) = v_e8m0 V (v41_scale V (tiles_of 32 tok ! (j div 32)))" if "j < 512"
    using tiles_props(1) [OF len] that by (simp add: v41_scales_def)
qed

lemma v41_pages_read_back:
  assumes k: "\<forall>page \<in> set k. length page = ps \<and> (\<forall>tok \<in> set page. length tok = 512)" and pb: "ps * 528 \<le> pb"
  shows "\<exists>pages. quantize_k_cache_v41 V k (Some pb) = Inr pages \<and> dequantize_k_cache_v41 V pages ps = map (map (v41_values V)) k"
proof -
  let ?page = "\<lambda>page. concat (map (v41_data V) page) @ concat (map (v41_scales V) page) @ replicate (pb - length page * 528) 0"
  have "res_list (\<lambda>page. let raw = length page * 528 in ensure (raw \<le> pb) AssertionError
      (Inr (concat (map (v41_data V) page) @ concat (map (v41_scales V) page) @ replicate (pb - raw) 0))) k = Inr (map ?page k)"
    using k pb by (induction k) (auto simp: res_map_def Let_def)
  then have q: "quantize_k_cache_v41 V k (Some pb) = Inr (map ?page k)"
    using k by (auto simp: quantize_k_cache_v41_def Let_def ensure_def)
  define body where "body = (\<lambda>pg t. let data = take 512 (drop (t * 512) (take (ps * 512) pg));
            scale = take 16 (drop (t * 16) (take (ps * 16) (drop (ps * 512) pg)))
        in map (\<lambda>j. v_mul V (v_fp8_val V (data ! j)) (v_e8m0_val V (scale ! (j div 32)))) [0..<512])"
  have tok: "body (?page page) t = v41_values V (page ! t)"
    if page: "page \<in> set k" and t: "t < ps" for page t
  proof -
    have len: "length page = ps" "\<forall>tok \<in> set page. length tok = 512" "t < length page" using k page t by auto
    then have tk: "length (page ! t) = 512" by simp
    have rows: "\<forall>r \<in> set (map (v41_data V) page). length r = 512" "\<forall>r \<in> set (map (v41_scales V) page). length r = 16"
      using len(2) by (auto simp: v41_lengths(1,2))
    have ml: "length (map (v41_data V) page) = ps" "length (map (v41_scales V) page) = ps" using len(1) by simp_all
    note R = paged_rows(3,4) [OF rows ml t, of "replicate (pb - length page * 528) 0", unfolded nth_map [OF len(3)]]
    have d: "take 512 (drop (t * 512) (take (ps * 512) (?page page))) = v41_data V (page ! t)"
      "take 16 (drop (t * 16) (take (ps * 16) (drop (ps * 512) (?page page)))) = v41_scales V (page ! t)"
      by (rule R)+
    show ?thesis unfolding body_def d Let_def v41_values_def
      by (rule map_cong [OF refl]) (simp add: v41_lengths(3,4) [OF tk] del: upt_rec_numeral)
  qed
  have page: "map (body (?page page)) [0..<ps] = map (v41_values V) page" if "page \<in> set k" for page
  proof (rule nth_equalityI)
    show len: "length (map (body (?page page)) [0..<ps]) = length (map (v41_values V) page)" using k that by simp
    fix t assume "t < length (map (body (?page page)) [0..<ps])"
    then have t: "t < ps" "t < length page" using len by simp_all
    show "map (body (?page page)) [0..<ps] ! t = map (v41_values V) page ! t" using tok [OF that t(1)] t by simp
  qed
  have "dequantize_k_cache_v41 V (map ?page k) ps = map (\<lambda>page. map (body (?page page)) [0..<ps]) k"
    unfolding dequantize_k_cache_v41_def body_def map_map comp_def by (rule refl)
  also have "\<dots> = map (map (v41_values V)) k" by (rule map_cong [OF refl]) (rule page)
  finally have "dequantize_k_cache_v41 V (map ?page k) ps = map (map (v41_values V)) k" .
  then show ?thesis using q by blast
qed

end
