(* ===== verification/PlanStaging.thy ===== *)
theory PlanStaging
  imports Prelude
begin

text \<open>
  The staging of a decode plan (\<open>class DecodePlanStaging\<close> of \<open>sglang-overlay/dflash_info_v2.py\<close>): host
  rows in a two-deep ring of pinned buffers, shipped to a device buffer by copies that run later.
  Tensors live in a heap of buffers; a view names rows of a buffer; the stream is a queue of
  operations, each of which reads and writes the heap when the device gets to it.
\<close>

section \<open>Buffers, views and the stream\<close>

record buffer =
  b_dev :: bool
  b_rows :: "int list list"

record view =
  v_addr :: nat
  v_row :: nat
  v_len :: nat

text \<open>A copy moves views to views in order; a read is the allocation kernel looking at its two rows.\<close>

datatype stream_op = Copy "(view \<times> view) list" | Read view view

record dmem =
  dm_bufs :: "buffer list"
  dm_queue :: "stream_op list"
  dm_issued :: nat
  dm_seen :: "(int list \<times> int list) list"

definition dmem_init :: dmem where
  "dmem_init = \<lparr>dm_bufs = [], dm_queue = [], dm_issued = 0, dm_seen = []\<rparr>"

definition read_view :: "dmem \<Rightarrow> view \<Rightarrow> int list" where
  "read_view m v = take (v_len v) (b_rows (dm_bufs m ! v_addr v) ! v_row v)"

definition write_view :: "view \<Rightarrow> int list \<Rightarrow> dmem \<Rightarrow> dmem" where
  "write_view v xs m =
     (let b = dm_bufs m ! v_addr v; row = b_rows b ! v_row v
      in m\<lparr>dm_bufs := (dm_bufs m)[v_addr v := b\<lparr>b_rows := (b_rows b)[v_row v := xs @ drop (length xs) row]\<rparr>]\<rparr>)"

definition new_bufs :: "bool \<Rightarrow> nat \<Rightarrow> int list list \<Rightarrow> dmem \<Rightarrow> nat list \<times> dmem" where
  "new_bufs dev k rows m =
     (let n = length (dm_bufs m)
      in ([n..<n + k], m\<lparr>dm_bufs := dm_bufs m @ replicate k \<lparr>b_dev = dev, b_rows = rows\<rparr>\<rparr>))"

text \<open>\<open>view.copy_(torch.tensor(xs, dtype))\<close> on the host: values outside the type raise, one value is
  broadcast.\<close>

definition copy_in :: "int_ty \<Rightarrow> view \<Rightarrow> int list \<Rightarrow> dmem \<Rightarrow> dmem res" where
  "copy_in ty v xs m =
     ensure (\<forall>x \<in> set xs. in_ty ty x) RuntimeError
     (ensure (length xs = v_len v \<or> length xs = 1) RuntimeError
       (Inr (write_view v (if length xs = v_len v then xs else replicate (v_len v) (hd xs)) m)))"

definition issue :: "stream_op \<Rightarrow> dmem \<Rightarrow> dmem" where
  "issue op m = m\<lparr>dm_queue := dm_queue m @ [op], dm_issued := Suc (dm_issued m)\<rparr>"

fun run_op :: "stream_op \<Rightarrow> dmem \<Rightarrow> dmem" where
  "run_op (Copy ps) m = fold (\<lambda>(s, d) m. write_view d (read_view m s) m) ps m"
| "run_op (Read c n) m = m\<lparr>dm_seen := dm_seen m @ [(read_view m c, read_view m n)]\<rparr>"

definition device_step :: "dmem \<Rightarrow> dmem" where
  "device_step m = (case dm_queue m of [] \<Rightarrow> m | op # q \<Rightarrow> run_op op (m\<lparr>dm_queue := q\<rparr>))"

definition drain :: "dmem \<Rightarrow> dmem" where
  "drain m = fold run_op (dm_queue m) (m\<lparr>dm_queue := []\<rparr>)"

text \<open>An event is the number of operations issued when it was recorded.\<close>

definition completed :: "dmem \<Rightarrow> nat" where
  "completed m = dm_issued m - length (dm_queue m)"

definition event_query :: "dmem \<Rightarrow> nat \<Rightarrow> bool" where
  "event_query m e \<longleftrightarrow> e \<le> completed m"

section \<open>The staging object\<close>

record staging =
  st_cap :: nat
  st_slot :: nat
  st_seq :: "nat list"
  st_lens :: "nat list"
  st_copied :: "nat option list"
  st_gpu :: "nat option"
  st_stale :: bool
  st_shipped :: "string list option"
  st_stage_ct :: nat
  st_h2d_ct :: nat

definition RING_DEPTH :: nat where "RING_DEPTH = 2"

definition staging_init :: staging where
  "staging_init = \<lparr>st_cap = 0, st_slot = 0, st_seq = [], st_lens = [], st_copied = [], st_gpu = None,
     st_stale = True, st_shipped = None, st_stage_ct = 0, st_h2d_ct = 0\<rparr>"

text \<open>\<open>junk\<close> is the content of \<open>torch.empty\<close>; \<open>chk\<close> whether the invariant level is at least \<open>WARN\<close> and
  \<open>events\<close> whether the device has events.\<close>

definition grow :: "(nat \<Rightarrow> int list) \<Rightarrow> nat \<Rightarrow> staging \<Rightarrow> dmem \<Rightarrow> staging \<times> dmem" where
  "grow junk bs s m =
     (let cap = max bs (max 32 (st_cap s * 2));
          (seqs, m) = new_bufs False RING_DEPTH [junk cap] m;
          (lens, m) = new_bufs False RING_DEPTH (replicate 2 (replicate cap 0)) m;
          (gpu, m) = new_bufs True 1 (replicate 2 (replicate cap 0)) m
      in (s\<lparr>st_cap := cap, st_seq := seqs, st_lens := lens, st_copied := replicate RING_DEPTH None,
            st_gpu := Some (hd gpu), st_stale := True\<rparr>, m))"

record host_rows =
  hr_seq :: view
  hr_cur :: view
  hr_nxt :: view

definition acquire :: "(nat \<Rightarrow> int list) \<Rightarrow> nat \<Rightarrow> staging \<Rightarrow> dmem \<Rightarrow> (staging \<times> dmem \<times> host_rows) res" where
  "acquire junk bs s m =
     (let (s, m) = (if bs > st_cap s then grow junk bs s m else (s, m));
          slot = (st_slot s + 1) mod RING_DEPTH
      in ensure (slot < length (st_copied s)) IndexError
        (ensure (case st_copied s ! slot of None \<Rightarrow> True | Some e \<Rightarrow> event_query m e) AssertionError
          (Inr (s\<lparr>st_slot := slot\<rparr>, m,
                \<lparr>hr_seq = \<lparr>v_addr = st_seq s ! slot, v_row = 0, v_len = bs\<rparr>,
                 hr_cur = \<lparr>v_addr = st_lens s ! slot, v_row = 0, v_len = bs\<rparr>,
                 hr_nxt = \<lparr>v_addr = st_lens s ! slot, v_row = 1, v_len = bs\<rparr>\<rparr>))))"

definition dirty :: "staging \<Rightarrow> int \<Rightarrow> string list \<Rightarrow> bool" where
  "dirty s needed req_ids \<longleftrightarrow> st_stale s \<or> needed > 0 \<or> Some req_ids \<noteq> st_shipped s"

definition ship_copy :: "staging \<Rightarrow> nat \<Rightarrow> stream_op" where
  "ship_copy s g = Copy (map (\<lambda>r. (\<lparr>v_addr = st_lens s ! st_slot s, v_row = r, v_len = st_cap s\<rparr>,
                                   \<lparr>v_addr = g, v_row = r, v_len = st_cap s\<rparr>)) [0, 1])"

definition ship :: "bool \<Rightarrow> bool \<Rightarrow> nat \<Rightarrow> int \<Rightarrow> string list \<Rightarrow> staging \<Rightarrow> dmem \<Rightarrow> (staging \<times> dmem \<times> view \<times> view) res" where
  "ship chk events bs needed req_ids s m =
     (case st_gpu s of None \<Rightarrow> Inl AssertionError
      | Some g \<Rightarrow>
        let s = s\<lparr>st_stage_ct := st_stage_ct s + 1\<rparr>;
            (s, m) = (if dirty s needed req_ids \<or> chk
                      then let m = issue (ship_copy s g) m
                           in (s\<lparr>st_copied := (if chk \<and> events then (st_copied s)[st_slot s := Some (dm_issued m)] else st_copied s),
                                 st_h2d_ct := st_h2d_ct s + 1, st_stale := False, st_shipped := Some req_ids\<rparr>, m)
                      else (s, m))
        in Inr (s, m, \<lparr>v_addr = g, v_row = 0, v_len = bs\<rparr>, \<lparr>v_addr = g, v_row = 1, v_len = bs\<rparr>))"

text \<open>A step of the staged path up to the allocation kernel, which looks at the device rows when it has
  tokens to allocate.\<close>

definition stage_plan :: "(nat \<Rightarrow> int list) \<Rightarrow> bool \<Rightarrow> bool \<Rightarrow> string list \<Rightarrow> int list \<Rightarrow> int list \<Rightarrow> int list \<Rightarrow> int
    \<Rightarrow> staging \<Rightarrow> dmem \<Rightarrow> (staging \<times> dmem \<times> host_rows) res" where
  "stage_plan junk chk events rids committed cur nxt needed s m =
     res_bind (acquire junk (length rids) s m) (\<lambda>(s, m, host).
     res_bind (copy_in Int64 (hr_seq host) committed m) (\<lambda>m.
     res_bind (copy_in Int32 (hr_cur host) cur m) (\<lambda>m.
     res_bind (copy_in Int32 (hr_nxt host) nxt m) (\<lambda>m.
     res_bind (ship chk events (length rids) needed rids s m) (\<lambda>(s, m, dcur, dnxt).
     Inr (s, if needed > 0 then issue (Read dcur dnxt) m else m, host))))))"

section \<open>The heap under pending operations\<close>

fun op_srcs :: "stream_op \<Rightarrow> nat set" where
  "op_srcs (Copy ps) = (v_addr \<circ> fst) ` set ps"
| "op_srcs (Read c n) = {v_addr c, v_addr n}"

fun op_dsts :: "stream_op \<Rightarrow> nat set" where
  "op_dsts (Copy ps) = (v_addr \<circ> snd) ` set ps"
| "op_dsts (Read c n) = {}"

definition agree :: "nat set \<Rightarrow> dmem \<Rightarrow> dmem \<Rightarrow> bool" where
  "agree A m m' \<longleftrightarrow> dm_seen m = dm_seen m' \<and>
     (\<forall>a \<in> A. a < length (dm_bufs m) \<and> a < length (dm_bufs m') \<and> dm_bufs m ! a = dm_bufs m' ! a)"

lemma write_view_simps [simp]:
  "length (dm_bufs (write_view v xs m)) = length (dm_bufs m)" "dm_seen (write_view v xs m) = dm_seen m"
  "dm_queue (write_view v xs m) = dm_queue m" "dm_issued (write_view v xs m) = dm_issued m"
  "a \<noteq> v_addr v \<Longrightarrow> dm_bufs (write_view v xs m) ! a = dm_bufs m ! a"
  by (simp_all add: write_view_def Let_def)

lemma agree_write:
  "agree A m m' \<Longrightarrow> v_addr s \<in> A \<Longrightarrow> v_addr d \<in> A \<Longrightarrow>
     agree A (write_view d (read_view m s) m) (write_view d (read_view m' s) m')"
  by (auto simp: agree_def write_view_def read_view_def Let_def nth_list_update)

lemma agree_run:
  "agree A m m' \<Longrightarrow> op_srcs op \<union> op_dsts op \<subseteq> A \<Longrightarrow> agree A (run_op op m) (run_op op m')"
proof (cases op)
  case (Copy ps)
  assume "agree A m m'" "op_srcs op \<union> op_dsts op \<subseteq> A"
  then show ?thesis unfolding Copy run_op.simps
  proof (induction ps arbitrary: m m')
    case (Cons p ps)
    then show ?case by (cases p) (auto intro!: Cons.IH agree_write)
  qed simp
qed (auto simp: agree_def read_view_def)

lemma agree_fold:
  "agree A m m' \<Longrightarrow> (\<And>op. op \<in> set ops \<Longrightarrow> op_srcs op \<union> op_dsts op \<subseteq> A) \<Longrightarrow> agree A (fold run_op ops m) (fold run_op ops m')"
proof (induction ops arbitrary: m m')
  case (Cons op ops)
  have "agree A (run_op op m) (run_op op m')" by (rule agree_run [OF Cons.prems(1)]) (use Cons.prems(2) [of op] in simp)
  then show ?case using Cons.IH Cons.prems(2) by simp
qed simp

lemma run_op_frame:
  "a \<notin> op_dsts op \<Longrightarrow> dm_bufs (run_op op m) ! a = dm_bufs m ! a"
  "length (dm_bufs (run_op op m)) = length (dm_bufs m)"
  "dm_queue (run_op op m) = dm_queue m" "dm_issued (run_op op m) = dm_issued m"
proof -
  have "a \<notin> (v_addr \<circ> snd) ` set ps \<Longrightarrow> dm_bufs (fold (\<lambda>(s, d) m. write_view d (read_view m s) m) ps m) ! a = dm_bufs m ! a" for ps
    by (induction ps arbitrary: m) auto
  then show "a \<notin> op_dsts op \<Longrightarrow> dm_bufs (run_op op m) ! a = dm_bufs m ! a" by (cases op) auto
  have "length (dm_bufs (fold (\<lambda>(s, d) m. write_view d (read_view m s) m) ps m)) = length (dm_bufs m)
      \<and> dm_queue (fold (\<lambda>(s, d) m. write_view d (read_view m s) m) ps m) = dm_queue m
      \<and> dm_issued (fold (\<lambda>(s, d) m. write_view d (read_view m s) m) ps m) = dm_issued m" for ps
    by (induction ps arbitrary: m) auto
  then show "length (dm_bufs (run_op op m)) = length (dm_bufs m)"
    "dm_queue (run_op op m) = dm_queue m" "dm_issued (run_op op m) = dm_issued m" by (cases op; simp)+
qed

lemma fold_run_frame:
  "(\<And>op. op \<in> set ops \<Longrightarrow> a \<notin> op_dsts op) \<Longrightarrow> dm_bufs (fold run_op ops m) ! a = dm_bufs m ! a"
  "length (dm_bufs (fold run_op ops m)) = length (dm_bufs m)"
  by (induction ops arbitrary: m) (auto simp: run_op_frame)

lemma queue_commute:
  "read_view (m\<lparr>dm_queue := q\<rparr>) v = read_view m v"
  "write_view v xs (m\<lparr>dm_queue := q\<rparr>) = (write_view v xs m)\<lparr>dm_queue := q\<rparr>"
  by (simp_all add: read_view_def write_view_def Let_def)

lemma run_op_queue: "run_op op (m\<lparr>dm_queue := q\<rparr>) = (run_op op m)\<lparr>dm_queue := q\<rparr>"
proof (cases op)
  case (Copy ps)
  have "fold (\<lambda>(s, d) m. write_view d (read_view m s) m) ps (m\<lparr>dm_queue := q\<rparr>)
      = (fold (\<lambda>(s, d) m. write_view d (read_view m s) m) ps m)\<lparr>dm_queue := q\<rparr>" for m :: dmem
    by (induction ps arbitrary: m) (auto simp: queue_commute split: prod.splits)
  then show ?thesis using Copy by simp
qed (simp add: queue_commute)

lemma drain_device_step: "drain (device_step m) = drain m"
proof (cases "dm_queue m")
  case (Cons op q)
  then show ?thesis unfolding drain_def device_step_def by (simp add: run_op_queue)
qed (simp add: device_step_def)

section \<open>Invariant of the ring\<close>

definition is_buf :: "dmem \<Rightarrow> bool \<Rightarrow> nat \<Rightarrow> nat \<Rightarrow> bool" where
  "is_buf m dev n a \<longleftrightarrow> a < length (dm_bufs m) \<and> b_dev (dm_bufs m ! a) = dev \<and> length (b_rows (dm_bufs m ! a)) = n"

definition ring_wf :: "staging \<Rightarrow> dmem \<Rightarrow> bool" where
  "ring_wf s m \<longleftrightarrow> 0 < st_cap s \<and> st_slot s < 2 \<and> length (st_seq s) = 2 \<and> length (st_lens s) = 2 \<and> length (st_copied s) = 2
     \<and> distinct (st_seq s @ st_lens s)
     \<and> (\<forall>a \<in> set (st_seq s). is_buf m False 1 a) \<and> (\<forall>a \<in> set (st_lens s). is_buf m False 2 a)
     \<and> (\<exists>g. st_gpu s = Some g \<and> is_buf m True 2 g)"

definition queue_ok :: "staging \<Rightarrow> dmem \<Rightarrow> bool" where
  "queue_ok s m \<longleftrightarrow> length (dm_queue m) \<le> dm_issued m
     \<and> (\<forall>op \<in> set (dm_queue m). (\<forall>a \<in> op_srcs op \<union> op_dsts op. a < length (dm_bufs m)) \<and> (\<forall>a \<in> op_dsts op. b_dev (dm_bufs m ! a))
          \<and> (\<forall>a \<in> set (st_seq s). a \<notin> op_srcs op))"

text \<open>A pending copy out of slot \<open>k\<close> was issued no later than operation \<open>e\<close>.\<close>

definition pending_by :: "dmem \<Rightarrow> nat \<Rightarrow> nat \<Rightarrow> bool" where
  "pending_by m a e \<longleftrightarrow> (\<forall>i < length (dm_queue m). a \<in> op_srcs (dm_queue m ! i) \<longrightarrow> completed m + i + 1 \<le> e)"

lemma pending_by_completed:
  assumes "pending_by m a e" "e \<le> completed m"
  shows "\<forall>op \<in> set (dm_queue m). a \<notin> op_srcs op"
  using assms by (auto simp: pending_by_def in_set_conv_nth)

lemma pending_by_mono: "pending_by m a e \<Longrightarrow> e \<le> e' \<Longrightarrow> pending_by m a e'"
  unfolding pending_by_def by (meson le_trans)

lemma pending_by_issued: "queue_ok s m \<Longrightarrow> pending_by m a (dm_issued m)"
  unfolding pending_by_def queue_ok_def completed_def by linarith

lemma completed_issue: "length (dm_queue m) \<le> dm_issued m \<Longrightarrow> completed (issue op m) = completed m"
  by (simp add: completed_def issue_def)

lemma pending_by_issue:
  assumes "length (dm_queue m) \<le> dm_issued m" "pending_by m a e" "a \<in> op_srcs op \<Longrightarrow> dm_issued m < e"
  shows "pending_by (issue op m) a e"
  unfolding pending_by_def
proof (intro allI impI)
  fix i assume i: "i < length (dm_queue (issue op m))" and a: "a \<in> op_srcs (dm_queue (issue op m) ! i)"
  show "completed (issue op m) + i + 1 \<le> e"
  proof (cases "i < length (dm_queue m)")
    case True
    then show ?thesis using assms(2) a completed_issue [OF assms(1)] by (simp add: pending_by_def issue_def nth_append)
  next
    case False
    then have "i = length (dm_queue m)" using i by (simp add: issue_def)
    then show ?thesis using assms(1,3) a by (simp add: issue_def completed_def nth_append)
  qed
qed

text \<open>No operation creates, moves or reshapes a buffer; device steps leave host buffers alone.\<close>

lemma is_buf_write [simp]: "is_buf (write_view v xs m) dev n a = is_buf m dev n a"
  by (cases "a = v_addr v"; cases "v_addr v < length (dm_bufs m)") (simp_all add: is_buf_def write_view_def Let_def)

lemma is_buf_run [simp]: "is_buf (run_op op m) dev n a = is_buf m dev n a"
proof (cases op)
  case (Copy ps)
  have "is_buf (fold (\<lambda>(s, d) m. write_view d (read_view m s) m) ps m) dev n a = is_buf m dev n a"
    by (induction ps arbitrary: m) (auto split: prod.splits)
  then show ?thesis using Copy by simp
qed (simp add: is_buf_def)

lemma is_buf_fold [simp]: "is_buf (fold run_op ops m) dev n a = is_buf m dev n a"
  by (induction ops arbitrary: m) simp_all

lemma is_buf_upd [simp]: "is_buf (m\<lparr>dm_queue := q\<rparr>) dev n a = is_buf m dev n a" "is_buf (issue op m) dev n a = is_buf m dev n a"
  by (simp_all add: is_buf_def issue_def)

lemma is_buf_step [simp]: "is_buf (device_step m) dev n a = is_buf m dev n a"
  by (simp add: device_step_def split: list.split)

lemma ring_wf_cong: "ring_wf s m \<Longrightarrow> (\<And>dev n a. is_buf m' dev n a = is_buf m dev n a) \<Longrightarrow> ring_wf s m'"
  by (simp add: ring_wf_def)

lemma b_dev_run [simp]: "b_dev (dm_bufs (run_op op m) ! a) = b_dev (dm_bufs m ! a)"
proof (cases op)
  case (Copy ps)
  have w: "b_dev (dm_bufs (write_view v xs m) ! a) = b_dev (dm_bufs m ! a)" for v xs and m :: dmem
    by (cases "a = v_addr v"; cases "v_addr v < length (dm_bufs m)") (simp_all add: write_view_def Let_def list_update_beyond)
  have "b_dev (dm_bufs (fold (\<lambda>(s, d) m. write_view d (read_view m s) m) ps m) ! a) = b_dev (dm_bufs m ! a)"
    by (induction ps arbitrary: m) (auto simp: w split: prod.splits)
  then show ?thesis using Copy by simp
qed simp

lemma device_step_frame:
  assumes "queue_ok s m"
  shows "length (dm_bufs (device_step m)) = length (dm_bufs m)" "dm_issued (device_step m) = dm_issued m"
    "a < length (dm_bufs m) \<Longrightarrow> \<not> b_dev (dm_bufs m ! a) \<Longrightarrow> dm_bufs (device_step m) ! a = dm_bufs m ! a"
    "queue_ok s (device_step m)" "completed m \<le> completed (device_step m)" "pending_by m a e \<Longrightarrow> pending_by (device_step m) a e"
proof -
  show "length (dm_bufs (device_step m)) = length (dm_bufs m)" "dm_issued (device_step m) = dm_issued m"
    by (simp_all add: device_step_def run_op_frame split: list.split)
  show "dm_bufs (device_step m) ! a = dm_bufs m ! a" if "a < length (dm_bufs m)" "\<not> b_dev (dm_bufs m ! a)"
  proof (cases "dm_queue m")
    case (Cons op q)
    then have "a \<notin> op_dsts op" using assms that by (auto simp: queue_ok_def)
    then show ?thesis using Cons by (simp add: device_step_def run_op_frame)
  qed (simp add: device_step_def)
  show "queue_ok s (device_step m)"
    using assms by (cases "dm_queue m") (auto simp: queue_ok_def device_step_def run_op_frame)
  show "completed m \<le> completed (device_step m)"
    using assms by (cases "dm_queue m") (auto simp: queue_ok_def completed_def device_step_def run_op_frame)
  show "pending_by (device_step m) a e" if p: "pending_by m a e"
  proof (cases "dm_queue m")
    case (Cons op q)
    have "completed m + Suc i + 1 \<le> e" if "i < length q" "a \<in> op_srcs (q ! i)" for i
      using p that Cons by (force simp: pending_by_def)
    moreover have "completed (device_step m) = Suc (completed m)"
      using assms Cons by (auto simp: queue_ok_def completed_def device_step_def run_op_frame)
    ultimately show ?thesis unfolding pending_by_def using Cons by (simp add: device_step_def run_op_frame)
  qed (use p in \<open>simp add: device_step_def\<close>)
qed

text \<open>The event kept for a slot covers every pending copy out of it.\<close>

definition ev_inv :: "staging \<Rightarrow> dmem \<Rightarrow> bool" where
  "ev_inv s m \<longleftrightarrow> (\<forall>k < 2. pending_by m (st_lens s ! k) (case st_copied s ! k of None \<Rightarrow> 0 | Some e \<Rightarrow> e))"

section \<open>A round\<close>

record round_in =
  ri_rids :: "string list"
  ri_committed :: "int list"
  ri_cur :: "int list"
  ri_nxt :: "int list"
  ri_needed :: int

definition round_ok :: "round_in \<Rightarrow> bool" where
  "round_ok i \<longleftrightarrow> ri_rids i \<noteq> [] \<and> length (ri_committed i) = length (ri_rids i) \<and> length (ri_cur i) = length (ri_rids i)
     \<and> length (ri_nxt i) = length (ri_rids i)"

text \<open>The ring before the slot is taken: nothing pending reads the slot that is next.\<close>

definition slot_free :: "staging \<Rightarrow> dmem \<Rightarrow> bool" where
  "slot_free s m \<longleftrightarrow> (\<forall>op \<in> set (dm_queue m). st_lens s ! ((st_slot s + 1) mod 2) \<notin> op_srcs op)"

lemma queue_ok_new:
  assumes "queue_ok s m" "dm_bufs m' = dm_bufs m @ bs" "dm_queue m' = dm_queue m" "dm_issued m' = dm_issued m"
    "\<forall>a \<in> set (st_seq s'). length (dm_bufs m) \<le> a"
  shows "queue_ok s' m'"
  unfolding queue_ok_def assms(2-4)
proof (intro conjI ballI)
  show "length (dm_queue m) \<le> dm_issued m" using assms(1) by (simp add: queue_ok_def)
  fix op assume op: "op \<in> set (dm_queue m)"
  have in_range: "a < length (dm_bufs m)" if "a \<in> op_srcs op \<union> op_dsts op" for a
    using assms(1) op that unfolding queue_ok_def by blast
  show "a < length (dm_bufs m @ bs)" if "a \<in> op_srcs op \<union> op_dsts op" for a using in_range [OF that] by simp
  show "b_dev ((dm_bufs m @ bs) ! a)" if "a \<in> op_dsts op" for a
    using assms(1) op that in_range [of a] by (auto simp: queue_ok_def nth_append)
  show "a \<notin> op_srcs op" if "a \<in> set (st_seq s')" for a
    using in_range [of a] assms(5) that by (meson UnI1 linorder_not_less)
qed

lemma grow_ok:
  assumes q: "queue_ok s m" and g: "grow junk bs s m = (s', m')" and bs: "0 < bs" "st_slot s < 2"
  shows "ring_wf s' m'" "queue_ok s' m'" "bs \<le> st_cap s'" "st_stale s'" "st_slot s' = st_slot s" "slot_free s' m'" "st_copied s' = [None, None]"
    "\<exists>bs. dm_bufs m' = dm_bufs m @ bs" "dm_queue m' = dm_queue m" "dm_issued m' = dm_issued m" "dm_seen m' = dm_seen m"
    "\<forall>a \<in> set (st_seq s' @ st_lens s'). length (dm_bufs m) \<le> a"
proof -
  let ?n = "length (dm_bufs m)" and ?cap = "max bs (max 32 (st_cap s * 2))"
  have s': "s' = s\<lparr>st_cap := ?cap, st_seq := [?n, Suc ?n], st_lens := [?n + 2, ?n + 3], st_copied := [None, None],
      st_gpu := Some (?n + 4), st_stale := True\<rparr>"
    and m': "m' = m\<lparr>dm_bufs := dm_bufs m @ [\<lparr>b_dev = False, b_rows = [junk ?cap]\<rparr>, \<lparr>b_dev = False, b_rows = [junk ?cap]\<rparr>,
        \<lparr>b_dev = False, b_rows = replicate 2 (replicate ?cap 0)\<rparr>, \<lparr>b_dev = False, b_rows = replicate 2 (replicate ?cap 0)\<rparr>,
        \<lparr>b_dev = True, b_rows = replicate 2 (replicate ?cap 0)\<rparr>]\<rparr>"
    using g by (simp_all add: grow_def new_bufs_def Let_def RING_DEPTH_def numeral_2_eq_2 numeral_3_eq_3 upt_rec del: replicate.simps)
      (auto simp: numeral_eq_Suc)
  show "bs \<le> st_cap s'" "st_stale s'" "st_slot s' = st_slot s" "st_copied s' = [None, None]" "\<exists>bs. dm_bufs m' = dm_bufs m @ bs"
    "dm_queue m' = dm_queue m" "dm_issued m' = dm_issued m" "dm_seen m' = dm_seen m"
    "\<forall>a \<in> set (st_seq s' @ st_lens s'). length (dm_bufs m) \<le> a" by (simp_all add: s' m')
  show "ring_wf s' m'" using bs by (auto simp: ring_wf_def s' m' is_buf_def nth_append)
  show "queue_ok s' m'" by (rule queue_ok_new [OF q, of m']) (simp_all add: s' m')
  have "a < ?n" if "op \<in> set (dm_queue m)" "a \<in> op_srcs op" for op a using q that by (auto simp: queue_ok_def)
  then show "slot_free s' m'" using bs(2) by (fastforce simp: slot_free_def s' m' less_2_cases_iff)
qed

lemma acquire_ok:
  assumes q: "queue_ok s m" and wf: "ring_wf s m \<or> st_cap s = 0" "st_slot s < 2" and bs: "0 < bs"
    and free: "bs \<le> st_cap s \<longrightarrow> slot_free s m"
    and a: "acquire junk bs s m = Inr (s', m', h)"
  shows "ring_wf s' m'" "queue_ok s' m'" "bs \<le> st_cap s'" "st_slot s' = (st_slot s + 1) mod 2"
    "\<forall>op \<in> set (dm_queue m'). st_lens s' ! st_slot s' \<notin> op_srcs op"
    "\<exists>bs. dm_bufs m' = dm_bufs m @ bs" "dm_queue m' = dm_queue m" "dm_issued m' = dm_issued m" "dm_seen m' = dm_seen m"
    "h = \<lparr>hr_seq = \<lparr>v_addr = st_seq s' ! st_slot s', v_row = 0, v_len = bs\<rparr>,
          hr_cur = \<lparr>v_addr = st_lens s' ! st_slot s', v_row = 0, v_len = bs\<rparr>, hr_nxt = \<lparr>v_addr = st_lens s' ! st_slot s', v_row = 1, v_len = bs\<rparr>\<rparr>"
    "(s' = s\<lparr>st_slot := st_slot s'\<rparr> \<and> m' = m \<and> st_cap s \<noteq> 0) \<or>
       (\<forall>a \<in> set (st_seq s' @ st_lens s'). length (dm_bufs m) \<le> a) \<and> st_copied s' = [None, None] \<and> st_stale s'"
proof -
  obtain s1 m1 where g: "(if bs > st_cap s then grow junk bs s m else (s, m)) = (s1, m1)" by fastforce
  from a have s': "s' = s1\<lparr>st_slot := (st_slot s1 + 1) mod 2\<rparr>" and m': "m' = m1" 
    by (auto simp: acquire_def g Let_def res_simps RING_DEPTH_def)
  have h: "h = \<lparr>hr_seq = \<lparr>v_addr = st_seq s' ! st_slot s', v_row = 0, v_len = bs\<rparr>,
          hr_cur = \<lparr>v_addr = st_lens s' ! st_slot s', v_row = 0, v_len = bs\<rparr>, hr_nxt = \<lparr>v_addr = st_lens s' ! st_slot s', v_row = 1, v_len = bs\<rparr>\<rparr>"
    using a by (auto simp: acquire_def g Let_def res_simps RING_DEPTH_def s')
  then show "h = \<lparr>hr_seq = \<lparr>v_addr = st_seq s' ! st_slot s', v_row = 0, v_len = bs\<rparr>,
          hr_cur = \<lparr>v_addr = st_lens s' ! st_slot s', v_row = 0, v_len = bs\<rparr>, hr_nxt = \<lparr>v_addr = st_lens s' ! st_slot s', v_row = 1, v_len = bs\<rparr>\<rparr>" .
  have "ring_wf s1 m1 \<and> queue_ok s1 m1 \<and> bs \<le> st_cap s1 \<and> st_slot s1 = st_slot s \<and> slot_free s1 m1
      \<and> (\<exists>bs. dm_bufs m1 = dm_bufs m @ bs) \<and> dm_queue m1 = dm_queue m \<and> dm_issued m1 = dm_issued m \<and> dm_seen m1 = dm_seen m
      \<and> ((s1 = s \<and> m1 = m \<and> st_cap s \<noteq> 0) \<or> (\<forall>a \<in> set (st_seq s1 @ st_lens s1). length (dm_bufs m) \<le> a) \<and> st_copied s1 = [None, None] \<and> st_stale s1)"
  proof (cases "bs > st_cap s")
    case True
    then have "grow junk bs s m = (s1, m1)" using g by simp
    from grow_ok [OF q this bs wf(2)] show ?thesis by blast
  next
    case False
    then show ?thesis using g q wf free bs by (auto simp: ring_wf_def intro: exI [of _ "[]"])
  qed
  then show "ring_wf s' m'" "queue_ok s' m'" "bs \<le> st_cap s'" "st_slot s' = (st_slot s + 1) mod 2"
    "\<forall>op \<in> set (dm_queue m'). st_lens s' ! st_slot s' \<notin> op_srcs op"
    "\<exists>bs. dm_bufs m' = dm_bufs m @ bs" "dm_queue m' = dm_queue m" "dm_issued m' = dm_issued m" "dm_seen m' = dm_seen m"
    "(s' = s\<lparr>st_slot := st_slot s'\<rparr> \<and> m' = m \<and> st_cap s \<noteq> 0) \<or>
       (\<forall>a \<in> set (st_seq s' @ st_lens s'). length (dm_bufs m) \<le> a) \<and> st_copied s' = [None, None] \<and> st_stale s'"
    unfolding s' m' by (auto simp: ring_wf_def queue_ok_def slot_free_def)
qed

text \<open>What the device will have done once the stream is empty depends on the buffers named by the queue.\<close>

lemma drain_seen_cong:
  assumes "dm_queue m = dm_queue m'" "dm_seen m = dm_seen m'"
    and "\<And>op a. op \<in> set (dm_queue m) \<Longrightarrow> a \<in> op_srcs op \<union> op_dsts op \<Longrightarrow>
       a < length (dm_bufs m) \<and> a < length (dm_bufs m') \<and> dm_bufs m ! a = dm_bufs m' ! a"
  shows "dm_seen (drain m) = dm_seen (drain m')"
proof -
  let ?A = "\<Union>op \<in> set (dm_queue m). op_srcs op \<union> op_dsts op"
  have "agree ?A (m\<lparr>dm_queue := []\<rparr>) (m'\<lparr>dm_queue := []\<rparr>)" using assms by (auto simp: agree_def)
  then have "agree ?A (drain m) (drain m')" unfolding drain_def assms(1) [symmetric] by (rule agree_fold) auto
  then show ?thesis by (simp add: agree_def)
qed

lemma read_write_view:
  assumes "v_addr v < length (dm_bufs m)" "v_row v < length (b_rows (dm_bufs m ! v_addr v))"
  shows "v_addr w = v_addr v \<Longrightarrow> v_row w = v_row v \<Longrightarrow> read_view (write_view v xs m) w
       = take (v_len w) (xs @ drop (length xs) (b_rows (dm_bufs m ! v_addr v) ! v_row v))"
    "v_addr w \<noteq> v_addr v \<or> v_row w \<noteq> v_row v \<Longrightarrow> read_view (write_view v xs m) w = read_view m w"
  using assms by (auto simp: read_view_def write_view_def Let_def nth_list_update)

lemma issued_commute:
  "read_view (m\<lparr>dm_issued := k\<rparr>) v = read_view m v"
  "write_view v xs (m\<lparr>dm_issued := k\<rparr>) = (write_view v xs m)\<lparr>dm_issued := k\<rparr>"
  by (simp_all add: read_view_def write_view_def Let_def)

lemma run_op_issued: "run_op op (m\<lparr>dm_issued := k\<rparr>) = (run_op op m)\<lparr>dm_issued := k\<rparr>"
proof (cases op)
  case (Copy ps)
  have "fold (\<lambda>(s, d) m. write_view d (read_view m s) m) ps (m\<lparr>dm_issued := k\<rparr>)
      = (fold (\<lambda>(s, d) m. write_view d (read_view m s) m) ps m)\<lparr>dm_issued := k\<rparr>" for m :: dmem
    by (induction ps arbitrary: m) (auto simp: issued_commute split: prod.splits)
  then show ?thesis using Copy by simp
qed (simp add: issued_commute)

lemma drain_issue: "drain (issue op m) = (run_op op (drain m))\<lparr>dm_issued := Suc (dm_issued m)\<rparr>"
proof -
  have "fold run_op ops (m\<lparr>dm_issued := k\<rparr>) = (fold run_op ops m)\<lparr>dm_issued := k\<rparr>" for ops k and m :: dmem
    by (induction ops arbitrary: m) (simp_all add: run_op_issued)
  note f = this
  have "m\<lparr>dm_queue := [], dm_issued := k\<rparr> = m\<lparr>dm_issued := k, dm_queue := []\<rparr>" for k by simp
  then have "fold run_op ops (m\<lparr>dm_issued := k, dm_queue := []\<rparr>) = (fold run_op ops (m\<lparr>dm_queue := []\<rparr>))\<lparr>dm_issued := k\<rparr>" for ops k
    using f [of ops k "m\<lparr>dm_queue := []\<rparr>"] by metis
  then show ?thesis by (simp add: drain_def issue_def run_op_issued)
qed

lemma is_buf_drain [simp]: "is_buf (drain m) dev n a = is_buf m dev n a"
  by (simp add: drain_def)

lemma is_bufD: "is_buf m dev n a \<Longrightarrow> a < length (dm_bufs m) \<and> length (b_rows (dm_bufs m ! a)) = n"
  by (simp add: is_buf_def)

text \<open>Copying a ring slot to the device and reading the first \<open>bs\<close> columns gives the rows written.\<close>

lemma read_shipped:
  assumes "is_buf m False 2 a" "is_buf m True 2 g" "bs \<le> cap"
    and "read_view m \<lparr>v_addr = a, v_row = 0, v_len = bs\<rparr> = xs" "read_view m \<lparr>v_addr = a, v_row = 1, v_len = bs\<rparr> = ys"
    and "length xs = bs" "length ys = bs"
  shows "dm_seen (run_op (Read \<lparr>v_addr = g, v_row = 0, v_len = bs\<rparr> \<lparr>v_addr = g, v_row = 1, v_len = bs\<rparr>)
      (run_op (Copy [(\<lparr>v_addr = a, v_row = 0, v_len = cap\<rparr>, \<lparr>v_addr = g, v_row = 0, v_len = cap\<rparr>),
                     (\<lparr>v_addr = a, v_row = 1, v_len = cap\<rparr>, \<lparr>v_addr = g, v_row = 1, v_len = cap\<rparr>)]) m))
     = dm_seen m @ [(xs, ys)]"
proof -
  have ne: "a \<noteq> g" using assms(1,2) by (auto simp: is_buf_def)
  have long: "bs \<le> length (b_rows (dm_bufs m ! a) ! 0)" "bs \<le> length (b_rows (dm_bufs m ! a) ! 1)"
    using assms(4-7) by (auto simp: read_view_def)
  show ?thesis
    using assms ne long by (auto simp: read_view_def write_view_def Let_def is_buf_def min_def)
qed

lemma stage_writes:
  assumes bufs: "is_buf m False 1 a" "is_buf m False 2 b" "a \<noteq> b"
    and lens: "length cs = n" "length xs = n" "length ys = n" "0 < n"
    and h: "h = \<lparr>hr_seq = \<lparr>v_addr = a, v_row = 0, v_len = n\<rparr>, hr_cur = \<lparr>v_addr = b, v_row = 0, v_len = n\<rparr>,
                  hr_nxt = \<lparr>v_addr = b, v_row = 1, v_len = n\<rparr>\<rparr>"
  defines "m' \<equiv> write_view (hr_nxt h) ys (write_view (hr_cur h) xs (write_view (hr_seq h) cs m))"
  shows "read_view m' (hr_seq h) = cs" "read_view m' (hr_cur h) = xs" "read_view m' (hr_nxt h) = ys"
    "dm_queue m' = dm_queue m" "dm_issued m' = dm_issued m" "dm_seen m' = dm_seen m"
    "length (dm_bufs m') = length (dm_bufs m)" "c \<notin> {a, b} \<Longrightarrow> dm_bufs m' ! c = dm_bufs m ! c"
    "is_buf m' dev k c = is_buf m dev k c"
  using bufs lens unfolding m'_def h
  by (simp_all) (simp_all add: read_view_def write_view_def Let_def is_buf_def)

lemma stage_round:
  assumes q: "queue_ok s m" and wf: "ring_wf s m \<or> st_cap s = 0" "st_slot s < 2" and i: "round_ok i"
    and free: "length (ri_rids i) \<le> st_cap s \<longrightarrow> slot_free s m"
    and p: "stage_plan junk chk ev (ri_rids i) (ri_committed i) (ri_cur i) (ri_nxt i) (ri_needed i) s m = Inr (s', m', h)"
  shows "ring_wf s' m'" "queue_ok s' m'" "st_slot s' = (st_slot s + 1) mod 2"
    "v_addr (hr_seq h) = st_seq s' ! st_slot s'" "v_addr (hr_cur h) = st_lens s' ! st_slot s'" "v_addr (hr_nxt h) = st_lens s' ! st_slot s'"
    "read_view m' (hr_seq h) = ri_committed i" "read_view m' (hr_cur h) = ri_cur i" "read_view m' (hr_nxt h) = ri_nxt i"
    "dm_seen (drain m') = dm_seen (drain m) @ (if ri_needed i > 0 then [(ri_cur i, ri_nxt i)] else [])"
    "pending_by m' (st_lens s' ! ((st_slot s' + 1) mod 2)) (dm_issued m)"
    "dm_issued m \<le> dm_issued m'"
    "(s' = s \<lparr>st_slot := st_slot s', st_copied := st_copied s', st_stale := st_stale s', st_shipped := st_shipped s',
         st_stage_ct := st_stage_ct s', st_h2d_ct := st_h2d_ct s'\<rparr> \<and> st_cap s \<noteq> 0)
      \<or> (\<forall>a \<in> set (st_seq s' @ st_lens s'). length (dm_bufs m) \<le> a)"
    "\<And>c. c < length (dm_bufs m) \<Longrightarrow> c \<noteq> st_seq s' ! st_slot s' \<Longrightarrow> c \<noteq> st_lens s' ! st_slot s' \<Longrightarrow> dm_bufs m' ! c = dm_bufs m ! c"
    "length (dm_bufs m) \<le> length (dm_bufs m')"
    "chk \<Longrightarrow> ev \<Longrightarrow> st_cap s \<noteq> 0 \<longrightarrow> ev_inv s m \<Longrightarrow> ev_inv s' m'"
    "\<And>e. st_copied s' ! st_slot s' = Some e \<Longrightarrow> e \<le> dm_issued m' \<or> st_cap s \<noteq> 0 \<and> st_copied s ! st_slot s' = Some e"
    "\<And>e. st_copied s' ! ((st_slot s' + 1) mod 2) = Some e \<Longrightarrow> st_cap s \<noteq> 0 \<and> st_copied s ! ((st_slot s' + 1) mod 2) = Some e"
proof -
  let ?n = "length (ri_rids i)"
  have n: "0 < ?n" "length (ri_committed i) = ?n" "length (ri_cur i) = ?n" "length (ri_nxt i) = ?n" using i by (auto simp: round_ok_def)
  from p obtain s1 m1 where acq: "acquire junk ?n s m = Inr (s1, m1, h)" 
    by (auto simp: stage_plan_def res_bind_Inr copy_in_def ensure_Inr ship_def split: option.splits) 
  note A = acquire_ok [OF q wf n(1) free acq]
  let ?a = "st_seq s1 ! st_slot s1" and ?b = "st_lens s1 ! st_slot s1"
  have slot: "st_slot s1 < 2" "length (st_seq s1) = 2" "length (st_lens s1) = 2" using A(1) by (auto simp: ring_wf_def)
  have ab: "is_buf m1 False 1 ?a" "is_buf m1 False 2 ?b" "?a \<noteq> ?b"
  proof -
    have "?a \<in> set (st_seq s1)" "?b \<in> set (st_lens s1)" using slot by simp_all
    then show "is_buf m1 False 1 ?a" "is_buf m1 False 2 ?b" using A(1) by (simp_all add: ring_wf_def)
    have "set (st_seq s1) \<inter> set (st_lens s1) = {}" using A(1) by (simp add: ring_wf_def)
    then show "?a \<noteq> ?b" using \<open>?a \<in> set (st_seq s1)\<close> \<open>?b \<in> set (st_lens s1)\<close> by (metis disjoint_iff)
  qed
  define m2 where "m2 = write_view (hr_nxt h) (ri_nxt i) (write_view (hr_cur h) (ri_cur i) (write_view (hr_seq h) (ri_committed i) m1))"
  note W = stage_writes [OF ab n(2-4) n(1) A(10), folded m2_def]
  obtain g where g: "st_gpu s1 = Some g" "is_buf m1 True 2 g" using A(1) by (auto simp: ring_wf_def)
  define doit where "doit \<longleftrightarrow> dirty s1 (ri_needed i) (ri_rids i) \<or> chk"
  define m3 where "m3 = (if doit then issue (ship_copy s1 g) m2 else m2)"
  define rd where "rd = Read \<lparr>v_addr = g, v_row = 0, v_len = ?n\<rparr> \<lparr>v_addr = g, v_row = 1, v_len = ?n\<rparr>"
  have m': "m' = (if ri_needed i > 0 then issue rd m3 else m3)"
    and s': "s' = (if doit then s1\<lparr>st_stage_ct := st_stage_ct s1 + 1,
        st_copied := (if chk \<and> ev then (st_copied s1)[st_slot s1 := Some (dm_issued m3)] else st_copied s1),
        st_h2d_ct := st_h2d_ct s1 + 1, st_stale := False, st_shipped := Some (ri_rids i)\<rparr> else s1\<lparr>st_stage_ct := st_stage_ct s1 + 1\<rparr>)"
  proof -
    have sc: "ship_copy (s1\<lparr>st_stage_ct := k\<rparr>) g = ship_copy s1 g" "dirty (s1\<lparr>st_stage_ct := k\<rparr>) = dirty s1" for k
      by (simp_all add: ship_copy_def dirty_def fun_eq_iff)
    have ship: "ship chk ev ?n (ri_needed i) (ri_rids i) s1 m2 = Inr (s', if doit then issue (ship_copy s1 g) m2 else m2,
        \<lparr>v_addr = g, v_row = 0, v_len = ?n\<rparr>, \<lparr>v_addr = g, v_row = 1, v_len = ?n\<rparr>)
        \<and> m' = (if ri_needed i > 0 then issue rd m3 else m3)"
      using p n by (auto simp: stage_plan_def acq res_bind_Inr copy_in_def A(10) ensure_Inr ship_def g m2_def m3_def doit_def rd_def sc Let_def)
    then show "m' = (if ri_needed i > 0 then issue rd m3 else m3)" ..
    from ship show "s' = (if doit then s1\<lparr>st_stage_ct := st_stage_ct s1 + 1,
        st_copied := (if chk \<and> ev then (st_copied s1)[st_slot s1 := Some (dm_issued m3)] else st_copied s1),
        st_h2d_ct := st_h2d_ct s1 + 1, st_stale := False, st_shipped := Some (ri_rids i)\<rparr> else s1\<lparr>st_stage_ct := st_stage_ct s1 + 1\<rparr>)"
      by (auto simp: ship_def g sc doit_def m3_def Let_def split: if_splits)
  qed
  let ?o = "(st_slot s1 + 1) mod 2"
  have same: "st_seq s' = st_seq s1" "st_lens s' = st_lens s1" "st_slot s' = st_slot s1" "st_cap s' = st_cap s1" "st_gpu s' = st_gpu s1"
    "length (st_copied s') = length (st_copied s1)" unfolding s' by simp_all
  have bufs: "dm_bufs m' = dm_bufs m2" by (simp add: m' m3_def issue_def)
  have buf': "is_buf m' dev k c = is_buf m1 dev k c" for dev k c using W(9) by (simp add: is_buf_def bufs)
  show "ring_wf s' m'" using A(1) unfolding ring_wf_def same buf' .
  have o: "?o < 2" "?o \<noteq> st_slot s1" using slot(1) by (auto simp: less_2_cases_iff)
  have other: "is_buf m1 False 2 (st_lens s1 ! ?o)" "st_lens s1 ! ?o \<noteq> ?b"
    using A(1) o slot by (auto simp: ring_wf_def nth_eq_iff_index_eq)
  have gs: "g \<noteq> ?a" "g \<noteq> ?b" "g \<noteq> st_lens s1 ! ?o" "g \<notin> set (st_seq s1)"
    using g(2) ab other(1) A(1) by (auto simp: is_buf_def ring_wf_def)
  have b_seq: "?b \<notin> set (st_seq s1)" using A(1) slot by (auto simp: ring_wf_def)
  have copy: "op_srcs (ship_copy s1 g) = {?b}" "op_dsts (ship_copy s1 g) = {g}" "op_srcs rd = {g}" "op_dsts rd = {}"
    by (simp_all add: ship_copy_def rd_def)
  have in_range: "c < length (dm_bufs m2)" "\<not> b_dev (dm_bufs m2 ! c) \<Longrightarrow> c \<notin> op_dsts op" "b_dev (dm_bufs m2 ! c) = b_dev (dm_bufs m1 ! c)"
    if "op \<in> set (dm_queue m1)" "c \<in> op_srcs op \<union> op_dsts op" for op c
  proof -
    have c: "c < length (dm_bufs m1)" using A(2) that by (auto simp: queue_ok_def)
    then show "c < length (dm_bufs m2)" using W(7) by simp
    have "is_buf m1 (b_dev (dm_bufs m1 ! c)) (length (b_rows (dm_bufs m1 ! c))) c" using c by (simp add: is_buf_def)
    then have "is_buf m2 (b_dev (dm_bufs m1 ! c)) (length (b_rows (dm_bufs m1 ! c))) c" using W(9) by simp
    then show d: "b_dev (dm_bufs m2 ! c) = b_dev (dm_bufs m1 ! c)" by (simp add: is_buf_def)
    show "c \<notin> op_dsts op" if "\<not> b_dev (dm_bufs m2 ! c)" using A(2) \<open>op \<in> set (dm_queue m1)\<close> that d by (auto simp: queue_ok_def)
  qed
  have queue_cases: "op \<in> set (dm_queue m') \<Longrightarrow> op \<in> set (dm_queue m1) \<or> op = ship_copy s1 g \<or> op = rd" for op
    by (auto simp: m' m3_def issue_def W(4) split: if_splits)
  have g_dev: "g < length (dm_bufs m2)" "b_dev (dm_bufs m2 ! g)" "?b < length (dm_bufs m2)"
    using g(2) ab(2) W(9) by (metis is_buf_def)+
  show "queue_ok s' m'" unfolding queue_ok_def same bufs
  proof (intro conjI ballI)
    have "length (dm_queue m1) \<le> dm_issued m1" using A(2) by (simp add: queue_ok_def)
    then show "length (dm_queue m') \<le> dm_issued m'" by (auto simp: m' m3_def issue_def W(4,5))
    fix op assume op: "op \<in> set (dm_queue m')"
    show "c < length (dm_bufs m2)" if "c \<in> op_srcs op \<union> op_dsts op" for c
      using queue_cases [OF op] in_range(1) that g_dev copy by auto
    show "b_dev (dm_bufs m2 ! c)" if "c \<in> op_dsts op" for c
      using queue_cases [OF op] in_range(2) that g_dev copy by auto
    show "c \<notin> op_srcs op" if "c \<in> set (st_seq s1)" for c
      using queue_cases [OF op] that copy gs b_seq A(2) by (auto simp: queue_ok_def)
  qed
  show "st_slot s' = (st_slot s + 1) mod 2" using A(4) same by simp
  show "v_addr (hr_seq h) = st_seq s' ! st_slot s'" "v_addr (hr_cur h) = st_lens s' ! st_slot s'" "v_addr (hr_nxt h) = st_lens s' ! st_slot s'"
    unfolding same by (simp_all add: A(10))
  show "read_view m' (hr_seq h) = ri_committed i" "read_view m' (hr_cur h) = ri_cur i" "read_view m' (hr_nxt h) = ri_nxt i"
    using W(1-3) by (simp_all add: read_view_def bufs)
  show "dm_issued m \<le> dm_issued m'" using A(8) W(5) by (simp add: m' m3_def issue_def)
  show "length (dm_bufs m) \<le> length (dm_bufs m')" using A(6) W(7) bufs by auto
  show "dm_bufs m' ! c = dm_bufs m ! c" if "c < length (dm_bufs m)" "c \<noteq> st_seq s' ! st_slot s'" "c \<noteq> st_lens s' ! st_slot s'" for c
  proof -
    obtain bs where bs: "dm_bufs m1 = dm_bufs m @ bs" using A(6) by blast
    have "c \<noteq> ?a" "c \<noteq> ?b" using that(2,3) by (simp_all only: same not_False_eq_True)
    then have "c \<notin> {?a, ?b}" by blast
    with W(8) show ?thesis using that(1) by (simp add: bufs bs nth_append)
  qed
  show "(s' = s \<lparr>st_slot := st_slot s', st_copied := st_copied s', st_stale := st_stale s', st_shipped := st_shipped s',
         st_stage_ct := st_stage_ct s', st_h2d_ct := st_h2d_ct s'\<rparr> \<and> st_cap s \<noteq> 0)
      \<or> (\<forall>a \<in> set (st_seq s' @ st_lens s'). length (dm_bufs m) \<le> a)"
  proof (cases "\<forall>a \<in> set (st_seq s1 @ st_lens s1). length (dm_bufs m) \<le> a")
    case False
    then have "s1 = s\<lparr>st_slot := st_slot s1\<rparr>" "st_cap s \<noteq> 0" using A(11) by blast+
    then show ?thesis unfolding s' by (cases s; cases s1) (simp split: if_splits)
  qed (use same in simp)
  show "pending_by m' (st_lens s' ! ((st_slot s' + 1) mod 2)) (dm_issued m)"
  proof -
    have le: "length (dm_queue m1) \<le> dm_issued m1" using A(2) by (simp add: queue_ok_def)
    have "pending_by m1 (st_lens s1 ! ?o) (dm_issued m1)" by (rule pending_by_issued [OF A(2)])
    then have "pending_by m2 (st_lens s1 ! ?o) (dm_issued m1)" by (simp add: pending_by_def completed_def W(4,5))
    then have 3: "pending_by m3 (st_lens s1 ! ?o) (dm_issued m1)"
      unfolding m3_def using le other(2) copy(1) pending_by_issue [of m2 "st_lens s1 ! ?o" "dm_issued m1" "ship_copy s1 g"]
      by (cases doit) (simp_all add: W(4,5))
    have "length (dm_queue m3) \<le> dm_issued m3" using le by (simp add: m3_def issue_def W(4,5))
    then have "pending_by m' (st_lens s1 ! ?o) (dm_issued m1)"
      unfolding m' using 3 gs(3) copy(3) pending_by_issue [of m3 "st_lens s1 ! ?o" "dm_issued m1" rd]
      by (cases "0 < ri_needed i") simp_all
    then show ?thesis by (simp add: same A(8))
  qed
  have scop: "st_copied s' = (if doit \<and> chk \<and> ev then (st_copied s1)[st_slot s1 := Some (dm_issued m3)] else st_copied s1)"
    unfolding s' by simp
  have cop: "st_copied s1 ! k = Some e \<Longrightarrow> k < 2 \<Longrightarrow> st_cap s \<noteq> 0 \<and> st_copied s ! k = Some e" for k e
  proof -
    assume h: "st_copied s1 ! k = Some e" "k < 2"
    show ?thesis
    proof (cases "st_copied s1 = [None, None]")
      case True
      then show ?thesis using h by (auto simp: less_2_cases_iff)
    next
      case False
      then have "s1 = s\<lparr>st_slot := st_slot s1\<rparr>" "st_cap s \<noteq> 0" using A(11) by blast+
      then show ?thesis using h(1) by (cases s; cases s1) simp
    qed
  qed
  show "e \<le> dm_issued m' \<or> st_cap s \<noteq> 0 \<and> st_copied s ! st_slot s' = Some e" if h: "st_copied s' ! st_slot s' = Some e" for e
  proof (cases "doit \<and> chk \<and> ev")
    case True
    have "length (st_copied s1) = 2" using A(1) by (simp add: ring_wf_def)
    then have "e = dm_issued m3" using h True slot(1) by (simp add: scop same)
    then show ?thesis by (simp add: m' issue_def)
  next
    case False
    then have "st_copied s1 ! st_slot s1 = Some e" using h by (auto simp: scop same)
    from cop [OF this slot(1)] show ?thesis by (simp add: same)
  qed
  show "st_cap s \<noteq> 0 \<and> st_copied s ! ((st_slot s' + 1) mod 2) = Some e" if h: "st_copied s' ! ((st_slot s' + 1) mod 2) = Some e" for e
  proof -
    have "st_copied s1 ! ?o = Some e" using h o(2) by (auto simp: scop same split: if_splits)
    from cop [OF this o(1)] show ?thesis by (simp add: same)
  qed
  show "ev_inv s' m'" if chk: chk ev and inv: "st_cap s \<noteq> 0 \<longrightarrow> ev_inv s m"
  proof -
    have le: "length (dm_queue m1) \<le> dm_issued m1" using A(2) by (simp add: queue_ok_def)
    have d: doit using chk by (simp add: doit_def)
    have pend: "pending_by m' x e" if "pending_by m1 x e" "x \<noteq> g" "x = ?b \<Longrightarrow> dm_issued m1 < e" for x e
    proof -
      have "pending_by m2 x e" using that(1) by (simp add: pending_by_def completed_def W(4,5))
      then have 3: "pending_by m3 x e"
        unfolding m3_def using le that(3) copy(1) d pending_by_issue [of m2 x e "ship_copy s1 g"] by (auto simp: W(4,5))
      have "length (dm_queue m3) \<le> dm_issued m3" using le by (simp add: m3_def issue_def W(4,5))
      then show ?thesis unfolding m' using 3 that(2) copy(3) pending_by_issue [of m3 x e rd] by (cases "0 < ri_needed i") simp_all
    qed
    have "pending_by m' (st_lens s1 ! k) (case st_copied s' ! k of None \<Rightarrow> 0 | Some e \<Rightarrow> e)" if k: "k < 2" for k
    proof (cases "k = st_slot s1")
      case True
      have "length (st_copied s1) = 2" using A(1) by (simp add: ring_wf_def)
      then have c: "st_copied s' ! k = Some (Suc (dm_issued m1))" using True d chk slot(1) by (simp add: scop m3_def issue_def W(5))
      have "pending_by m1 ?b (Suc (dm_issued m1))" using A(5) nth_mem unfolding pending_by_def by blast
      then show ?thesis using pend [of ?b] gs(2) c True by simp
    next
      case False
      then have ko: "k = ?o" using k slot(1) by (auto simp: less_2_cases_iff)
      have "pending_by m1 (st_lens s1 ! k) (case st_copied s1 ! k of None \<Rightarrow> 0 | Some e \<Rightarrow> e)"
      proof (cases "\<forall>a \<in> set (st_seq s1 @ st_lens s1). length (dm_bufs m) \<le> a")
        case True
        have "length (dm_bufs m) \<le> st_lens s1 ! k" using True k slot(3) by simp
        moreover have "a < length (dm_bufs m)" if "op \<in> set (dm_queue m1)" "a \<in> op_srcs op" for op a
          using q A(7) that by (auto simp: queue_ok_def)
        ultimately have "\<forall>op \<in> set (dm_queue m1). st_lens s1 ! k \<notin> op_srcs op" by (meson linorder_not_less)
        then show ?thesis using nth_mem unfolding pending_by_def by blast
      next
        case False
        then have "s1 = s\<lparr>st_slot := st_slot s1\<rparr>" "st_cap s \<noteq> 0" "m1 = m" using A(11) by blast+
        then show ?thesis using inv k unfolding ev_inv_def by (cases s; cases s1) simp
      qed
      moreover have "st_copied s' ! k = st_copied s1 ! k" using False by (simp add: scop)
      ultimately show ?thesis using pend [of "st_lens s1 ! k"] gs(3) other(2) ko by simp
    qed
    then show ?thesis by (simp add: ev_inv_def same)
  qed
  show "dm_seen (drain m') = dm_seen (drain m) @ (if ri_needed i > 0 then [(ri_cur i, ri_nxt i)] else [])"
  proof -
    have free2: "c \<noteq> ?a \<and> c \<noteq> ?b" if "op \<in> set (dm_queue m1)" "c \<in> op_srcs op \<union> op_dsts op" for op c
    proof -
      have "?a \<in> set (st_seq s1)" using slot by simp
      moreover have "\<not> b_dev (dm_bufs m1 ! ?a)" "\<not> b_dev (dm_bufs m1 ! ?b)" using ab by (simp_all add: is_buf_def)
      ultimately show ?thesis using A(2,5) that by (auto simp: queue_ok_def)
    qed
    have "dm_seen (drain m2) = dm_seen (drain m1)"
      by (rule drain_seen_cong) (use W(4,6-8) free2 in_range(1) in auto)
    also have "\<dots> = dm_seen (drain m)"
    proof (rule drain_seen_cong)
      fix op c assume "op \<in> set (dm_queue m1)" "c \<in> op_srcs op \<union> op_dsts op"
      then have "c < length (dm_bufs m)" using q A(7) by (auto simp: queue_ok_def)
      then show "c < length (dm_bufs m1) \<and> c < length (dm_bufs m) \<and> dm_bufs m1 ! c = dm_bufs m ! c" using A(6) by (auto simp: nth_append)
    qed (use A(7,9) in simp_all)
    finally have seen: "dm_seen (drain m2) = dm_seen (drain m)" .
    have frame: "dm_bufs (drain m2) ! c = dm_bufs m2 ! c" if "c = ?a \<or> c = ?b" for c
      unfolding drain_def W(4) using free2 that by (subst fold_run_frame) auto
    show ?thesis
    proof (cases "ri_needed i > 0")
      case True
      then have d: "doit" by (simp add: doit_def dirty_def)
      have "dm_seen (run_op rd (run_op (ship_copy s1 g) (drain m2))) = dm_seen (drain m2) @ [(ri_cur i, ri_nxt i)]"
        unfolding rd_def ship_copy_def list.map
      proof (rule read_shipped)
        show "is_buf (drain m2) False 2 ?b" "is_buf (drain m2) True 2 g" using ab(2) g(2) W(9) by simp_all
        show "read_view (drain m2) \<lparr>v_addr = ?b, v_row = 0, v_len = ?n\<rparr> = ri_cur i"
          "read_view (drain m2) \<lparr>v_addr = ?b, v_row = 1, v_len = ?n\<rparr> = ri_nxt i"
          using W(2,3) frame [of ?b] by (simp_all add: read_view_def A(10))
      qed (use A(3) n in simp_all)
      then show ?thesis using True d seen by (simp add: m' m3_def drain_issue run_op_issued)
    next
      case False
      have "dm_seen (run_op (ship_copy s1 g) m) = dm_seen m" for m by (simp add: ship_copy_def)
      then show ?thesis using False seen by (simp add: m' m3_def drain_issue)
    qed
  qed
qed

section \<open>The overlap loop\<close>

text \<open>Rounds of the scheduler and steps of the device interleave.  \<open>fenced\<close> is the discipline of the
  overlap loop: when a round is prepared, whatever was issued up to the end of the round before the
  previous one has completed.\<close>

record plan_sys =
  ps_st :: staging
  ps_mem :: dmem
  ps_before :: nat
  ps_last :: nat
  ps_expect :: "(int list \<times> int list) list"
  ps_given :: "(host_rows \<times> round_in) list"

definition plan_init :: plan_sys where
  "plan_init = \<lparr>ps_st = staging_init, ps_mem = dmem_init, ps_before = 0, ps_last = 0, ps_expect = [], ps_given = []\<rparr>"

definition plan_after :: "plan_sys \<Rightarrow> round_in \<Rightarrow> staging \<Rightarrow> dmem \<Rightarrow> host_rows \<Rightarrow> plan_sys" where
  "plan_after S i s' m' h = \<lparr>ps_st = s', ps_mem = m', ps_before = ps_last S, ps_last = dm_issued m',
       ps_expect = ps_expect S @ (if ri_needed i > 0 then [(ri_cur i, ri_nxt i)] else []),
       ps_given = take 2 ((h, i) # ps_given S)\<rparr>"

inductive plan_step :: "(nat \<Rightarrow> int list) \<Rightarrow> bool \<Rightarrow> bool \<Rightarrow> bool \<Rightarrow> plan_sys \<Rightarrow> plan_sys \<Rightarrow> bool"
  for junk chk ev fenced where
  device: "dm_queue (ps_mem S) \<noteq> [] \<Longrightarrow> plan_step junk chk ev fenced S (S\<lparr>ps_mem := device_step (ps_mem S)\<rparr>)"
| round: "round_ok i \<Longrightarrow> fenced \<longrightarrow> ps_before S \<le> completed (ps_mem S) \<Longrightarrow>
     stage_plan junk chk ev (ri_rids i) (ri_committed i) (ri_cur i) (ri_nxt i) (ri_needed i) (ps_st S) (ps_mem S) = Inr (s', m', h) \<Longrightarrow>
     plan_step junk chk ev fenced S (plan_after S i s' m' h)"

inductive plan_reach :: "(nat \<Rightarrow> int list) \<Rightarrow> bool \<Rightarrow> bool \<Rightarrow> bool \<Rightarrow> plan_sys \<Rightarrow> bool"
  for junk chk ev fenced where
  start: "plan_reach junk chk ev fenced plan_init"
| step: "plan_reach junk chk ev fenced S \<Longrightarrow> plan_step junk chk ev fenced S S' \<Longrightarrow> plan_reach junk chk ev fenced S'"

inductive_cases plan_stepE: "plan_step junk chk ev fenced S S'"

text \<open>The rows handed out are still what the round put there.\<close>

definition rows_intact :: "dmem \<Rightarrow> host_rows \<times> round_in \<Rightarrow> bool" where
  "rows_intact m g \<longleftrightarrow> (case g of (h, i) \<Rightarrow> read_view m (hr_seq h) = ri_committed i \<and> read_view m (hr_cur h) = ri_cur i
     \<and> read_view m (hr_nxt h) = ri_nxt i)"

definition host_view :: "dmem \<Rightarrow> view \<Rightarrow> bool" where
  "host_view m v \<longleftrightarrow> v_addr v < length (dm_bufs m) \<and> \<not> b_dev (dm_bufs m ! v_addr v)"

definition rows_kept :: "dmem \<Rightarrow> host_rows \<times> round_in \<Rightarrow> bool" where
  "rows_kept m g \<longleftrightarrow> rows_intact m g \<and> host_view m (hr_seq (fst g)) \<and> host_view m (hr_cur (fst g)) \<and> host_view m (hr_nxt (fst g))"

definition plan_inv :: "bool \<Rightarrow> bool \<Rightarrow> bool \<Rightarrow> plan_sys \<Rightarrow> bool" where
  "plan_inv chk ev fenced S \<longleftrightarrow> (let s = ps_st S; m = ps_mem S in
     queue_ok s m \<and> (ring_wf s m \<or> st_cap s = 0) \<and> st_slot s < 2
     \<and> ps_last S = dm_issued m \<and> ps_before S \<le> dm_issued m
     \<and> (st_cap s \<noteq> 0 \<longrightarrow> pending_by m (st_lens s ! ((st_slot s + 1) mod 2)) (ps_before S))
     \<and> (chk \<and> ev \<longrightarrow> st_cap s \<noteq> 0 \<longrightarrow> ev_inv s m)
     \<and> (st_cap s \<noteq> 0 \<longrightarrow> (\<forall>e. st_copied s ! ((st_slot s + 1) mod 2) = Some e \<longrightarrow> e \<le> ps_before S)
          \<and> (\<forall>e. st_copied s ! st_slot s = Some e \<longrightarrow> e \<le> ps_last S))
     \<and> dm_seen (drain m) = ps_expect S
     \<and> (\<forall>g \<in> set (ps_given S). rows_kept m g) \<and> length (ps_given S) \<le> 2
     \<and> (st_cap s = 0 \<longrightarrow> ps_given S = [])
     \<and> (ps_given S \<noteq> [] \<longrightarrow> v_addr (hr_seq (fst (hd (ps_given S)))) = st_seq s ! st_slot s
          \<and> v_addr (hr_cur (fst (hd (ps_given S)))) = st_lens s ! st_slot s \<and> v_addr (hr_nxt (fst (hd (ps_given S)))) = st_lens s ! st_slot s))"

lemma plan_init_inv: "plan_inv chk ev fenced plan_init"
  by (simp add: plan_inv_def plan_init_def Let_def queue_ok_def dmem_init_def staging_init_def drain_def)

lemma rows_kept_frame:
  assumes "rows_kept m g" "length (dm_bufs m) \<le> length (dm_bufs m')"
    and "\<And>c. c \<in> {v_addr (hr_seq (fst g)), v_addr (hr_cur (fst g)), v_addr (hr_nxt (fst g))} \<Longrightarrow> dm_bufs m' ! c = dm_bufs m ! c"
  shows "rows_kept m' g"
  using assms by (cases g) (auto simp: rows_kept_def rows_intact_def host_view_def read_view_def)

lemma device_keeps_inv:
  assumes inv: "plan_inv chk ev fenced S"
  shows "plan_inv chk ev fenced (S\<lparr>ps_mem := device_step (ps_mem S)\<rparr>)"
proof -
  let ?m = "ps_mem S" and ?s = "ps_st S"
  have q: "queue_ok ?s ?m" using inv by (simp add: plan_inv_def Let_def)
  note D = device_step_frame [OF q]
  have rows: "rows_kept (device_step ?m) g" if "g \<in> set (ps_given S)" for g
  proof (rule rows_kept_frame)
    show "rows_kept ?m g" using inv that by (simp add: plan_inv_def Let_def)
    then show "dm_bufs (device_step ?m) ! c = dm_bufs ?m ! c" if "c \<in> {v_addr (hr_seq (fst g)), v_addr (hr_cur (fst g)), v_addr (hr_nxt (fst g))}" for c
      using that D(3) [of c] by (auto simp: rows_kept_def host_view_def)
  qed (simp add: D(1))
  have ev': "ev_inv ?s (device_step ?m)" if "ev_inv ?s ?m" using that D(6) by (simp add: ev_inv_def)
  have ring: "ring_wf ?s (device_step ?m)" if "ring_wf ?s ?m" by (rule ring_wf_cong [OF that]) simp
  show ?thesis
    using inv D(2,4) rows ev' ring D(6) unfolding plan_inv_def Let_def by (simp add: drain_device_step) auto
qed

lemma other_slot: "k < 2 \<Longrightarrow> ((k + 1) mod 2 + 1) mod 2 = (k :: nat)" "k < 2 \<Longrightarrow> (k + 1) mod 2 \<noteq> (k :: nat)"
  by (auto simp: less_2_cases_iff)

text \<open>The slot that is next is free: by the fence, or because the event of its last copy has been reached.\<close>

lemma next_slot_free:
  assumes inv: "plan_inv chk ev fenced S" and mode: "fenced \<or> chk \<and> ev" and n: "0 < n" "n \<le> st_cap (ps_st S)"
    and f: "fenced \<longrightarrow> ps_before S \<le> completed (ps_mem S)" and a: "acquire junk n (ps_st S) (ps_mem S) = Inr x"
  shows "slot_free (ps_st S) (ps_mem S)"
proof -
  let ?s = "ps_st S" and ?m = "ps_mem S" and ?k = "(st_slot (ps_st S) + 1) mod 2"
  show ?thesis
  proof (cases fenced)
    case True
    then have "pending_by ?m (st_lens ?s ! ?k) (ps_before S)" using inv n by (auto simp: plan_inv_def Let_def)
    from pending_by_completed [OF this] show ?thesis using f True by (simp add: slot_free_def)
  next
    case False
    then have "ev_inv ?s ?m" using inv n mode by (auto simp: plan_inv_def Let_def)
    then have p: "pending_by ?m (st_lens ?s ! ?k) (case st_copied ?s ! ?k of None \<Rightarrow> 0 | Some e \<Rightarrow> e)" by (simp add: ev_inv_def)
    have "case st_copied ?s ! ?k of None \<Rightarrow> True | Some e \<Rightarrow> event_query ?m e"
      using a n(2) by (cases x) (simp add: acquire_def Let_def res_simps RING_DEPTH_def)
    then have "(case st_copied ?s ! ?k of None \<Rightarrow> 0 | Some e \<Rightarrow> e) \<le> completed ?m" by (auto simp: event_query_def split: option.splits)
    from pending_by_completed [OF p this] show ?thesis by (simp add: slot_free_def)
  qed
qed

lemma stage_plan_acquires:
  "stage_plan junk chk ev rids cs xs ys needed s m = Inr r \<Longrightarrow> \<exists>x. acquire junk (length rids) s m = Inr x"
  by (cases r) (auto simp: stage_plan_def res_bind_Inr)

lemma round_keeps_inv:
  assumes inv: "plan_inv chk ev fenced S" and mode: "fenced \<or> chk \<and> ev" and i: "round_ok i"
    and f: "fenced \<longrightarrow> ps_before S \<le> completed (ps_mem S)"
    and p: "stage_plan junk chk ev (ri_rids i) (ri_committed i) (ri_cur i) (ri_nxt i) (ri_needed i) (ps_st S) (ps_mem S) = Inr (s', m', h)"
  shows "plan_inv chk ev fenced (plan_after S i s' m' h)"
proof -
  let ?s = "ps_st S" and ?m = "ps_mem S"
  have q: "queue_ok ?s ?m" and wf: "ring_wf ?s ?m \<or> st_cap ?s = 0" and sl: "st_slot ?s < 2" and last: "ps_last S = dm_issued ?m"
    and before: "ps_before S \<le> dm_issued ?m"
    using inv by (simp_all add: plan_inv_def Let_def)
  obtain x where "acquire junk (length (ri_rids i)) ?s ?m = Inr x" using stage_plan_acquires [OF p] by blast
  moreover have "0 < length (ri_rids i)" using i by (simp add: round_ok_def)
  ultimately have free: "length (ri_rids i) \<le> st_cap ?s \<longrightarrow> slot_free ?s ?m"
    using next_slot_free [OF inv mode _ _ f] by blast
  note R = stage_round [OF q wf sl i free p]
  have h': "rows_kept m' (h, i)"
  proof -
    have "st_seq s' ! st_slot s' \<in> set (st_seq s')" "st_lens s' ! st_slot s' \<in> set (st_lens s')" using R(1) by (auto simp: ring_wf_def)
    then have "is_buf m' False 1 (st_seq s' ! st_slot s')" "is_buf m' False 2 (st_lens s' ! st_slot s')" using R(1) by (auto simp: ring_wf_def)
    then show ?thesis using R(4-9) by (simp add: rows_kept_def rows_intact_def host_view_def is_buf_def)
  qed
  have cap': "st_cap s' \<noteq> 0" "st_slot s' < 2" using R(1) by (auto simp: ring_wf_def)
  have old: "rows_kept m' g" if g0: "g \<in> set (take 1 (ps_given S))" for g
  proof -
    obtain gs where g: "ps_given S = g # gs" using g0 by (cases "ps_given S") auto
    then have k: "rows_kept ?m g" and cap: "st_cap ?s \<noteq> 0"
      and addr: "v_addr (hr_seq (fst g)) = st_seq ?s ! st_slot ?s" "v_addr (hr_cur (fst g)) = st_lens ?s ! st_slot ?s"
        "v_addr (hr_nxt (fst g)) = st_lens ?s ! st_slot ?s"
      using inv by (auto simp: plan_inv_def Let_def)
    have ring: "ring_wf ?s ?m" using wf cap by blast
    have ne: "c \<noteq> st_seq s' ! st_slot s' \<and> c \<noteq> st_lens s' ! st_slot s'" if c: "c = st_seq ?s ! st_slot ?s \<or> c = st_lens ?s ! st_slot ?s" for c
    proof (cases "\<forall>a \<in> set (st_seq s' @ st_lens s'). length (dm_bufs ?m) \<le> a")
      case True
      have "c < length (dm_bufs ?m)" using ring c sl by (auto simp: ring_wf_def is_buf_def)
      moreover have "st_seq s' ! st_slot s' \<in> set (st_seq s' @ st_lens s')" "st_lens s' ! st_slot s' \<in> set (st_seq s' @ st_lens s')"
        using R(1) by (auto simp: ring_wf_def)
      ultimately show ?thesis using True by (metis linorder_not_less)
    next
      case False
      then have "s' = ?s\<lparr>st_slot := st_slot s', st_copied := st_copied s', st_stale := st_stale s', st_shipped := st_shipped s',
         st_stage_ct := st_stage_ct s', st_h2d_ct := st_h2d_ct s'\<rparr>" using R(13) by blast
      then have same: "st_seq s' = st_seq ?s" "st_lens s' = st_lens ?s" by (cases ?s; cases s'; simp)+
      have "distinct (st_seq ?s @ st_lens ?s)" "length (st_seq ?s) = 2" "length (st_lens ?s) = 2" using ring by (auto simp: ring_wf_def)
      moreover from this have "st_seq ?s ! j \<noteq> st_lens ?s ! k" if "j < 2" "k < 2" for j k
        using that by (metis disjoint_iff distinct_append nth_mem)
      moreover have "st_slot ?s \<noteq> st_slot s'" using R(3) other_slot(2) [OF sl] by simp
      ultimately show ?thesis using c sl cap'(2) unfolding same by (metis distinct_append nth_eq_iff_index_eq)
    qed
    show ?thesis
    proof (rule rows_kept_frame [OF k R(15)])
      fix c assume "c \<in> {v_addr (hr_seq (fst g)), v_addr (hr_cur (fst g)), v_addr (hr_nxt (fst g))}"
      then have c: "c = st_seq ?s ! st_slot ?s \<or> c = st_lens ?s ! st_slot ?s" using addr by blast
      then have "c < length (dm_bufs ?m)" using ring sl by (auto simp: ring_wf_def is_buf_def)
      then show "dm_bufs m' ! c = dm_bufs ?m ! c" using R(14) ne [OF c] by blast
    qed
  qed
  have "set (take 2 ((h, i) # ps_given S)) \<subseteq> insert (h, i) (set (take 1 (ps_given S)))" by (simp add: take_Cons' numeral_2_eq_2)
  then have given: "\<forall>g \<in> set (take 2 ((h, i) # ps_given S)). rows_kept m' g" using h' old by blast
  have evs: "chk \<and> ev \<longrightarrow> ev_inv s' m'" using R(16) inv by (auto simp: plan_inv_def Let_def)
  have cop: "e \<le> ps_last S" if "st_copied s' ! ((st_slot s' + 1) mod 2) = Some e" for e
    using R(18) [OF that] R(3) other_slot(1) [OF sl] inv by (auto simp: plan_inv_def Let_def)
  have cop2: "e \<le> dm_issued m'" if "st_copied s' ! st_slot s' = Some e" for e
    using R(17) [OF that] R(3,12) before inv by (auto simp: plan_inv_def Let_def)
  have seen: "dm_seen (drain m') = ps_expect S @ (if ri_needed i > 0 then [(ri_cur i, ri_nxt i)] else [])"
    using R(10) inv by (simp add: plan_inv_def Let_def)
  show ?thesis
    unfolding plan_inv_def Let_def plan_after_def plan_sys.simps
    using R(1,2,4,5,6,11,12) cap' given evs cop cop2 seen by (simp add: last) 
qed

lemma reach_inv: "plan_reach junk chk ev fenced S \<Longrightarrow> fenced \<or> chk \<and> ev \<Longrightarrow> plan_inv chk ev fenced S"
proof (induction rule: plan_reach.induct)
  case (step S S')
  then have inv: "plan_inv chk ev fenced S" by blast
  from step.hyps(2) show ?case
    by (elim plan_stepE) (simp_all only: device_keeps_inv [OF inv] round_keeps_inv [OF inv step.prems])
qed (rule plan_init_inv)

lemma seen_grows: "\<exists>rest. dm_seen (drain m) = dm_seen m @ rest"
proof -
  have "dm_seen (fold (\<lambda>(s, d) m. write_view d (read_view m s) m) ps m) = dm_seen m" for ps m
    by (induction ps arbitrary: m) auto
  then have "\<exists>rest. dm_seen (run_op op m) = dm_seen m @ rest" for op m by (cases op) auto
  then have "\<exists>rest. dm_seen (fold run_op ops m) = dm_seen m @ rest" for ops m
    by (induction ops arbitrary: m) (simp, metis append.assoc fold_simps(2))
  from this [of "dm_queue m" "m\<lparr>dm_queue := []\<rparr>"] show ?thesis by (simp add: drain_def)
qed

text \<open>C24. The two-deep ring is deep enough: with the fence of the overlap loop, or with the checked
  events, the allocation kernel of every round sees exactly the lengths its own round planned, however
  rounds and device steps interleave and however many copies were skipped; and the host rows handed
  out in the last two rounds still hold what was written.\<close>

theorem staged_plan_reaches_kernel:
  assumes "plan_reach junk chk ev fenced S" "fenced \<or> chk \<and> ev"
  shows "dm_seen (drain (ps_mem S)) = ps_expect S \<and> (\<exists>rest. ps_expect S = dm_seen (ps_mem S) @ rest)
     \<and> (\<forall>g \<in> set (ps_given S). rows_intact (ps_mem S) g)"
proof (intro conjI)
  have inv: "plan_inv chk ev fenced S" by (rule reach_inv [OF assms])
  then show "dm_seen (drain (ps_mem S)) = ps_expect S" by (simp add: plan_inv_def Let_def)
  then show "\<exists>rest. ps_expect S = dm_seen (ps_mem S) @ rest" using seen_grows [of "ps_mem S"] by simp
  show "\<forall>g \<in> set (ps_given S). rows_intact (ps_mem S) g" using inv by (simp add: plan_inv_def Let_def rows_kept_def)
qed

definition values_fit :: "round_in \<Rightarrow> bool" where
  "values_fit i \<longleftrightarrow> (\<forall>x \<in> set (ri_committed i). in_ty Int64 x) \<and> (\<forall>x \<in> set (ri_cur i) \<union> set (ri_nxt i). in_ty Int32 x)"

text \<open>Under the fence a round never trips the ring's assertion: it fails only when a length does
  not fit the type of its row.\<close>

lemma fenced_round_succeeds:
  assumes "plan_reach junk chk ev True S" "round_ok i" "ps_before S \<le> completed (ps_mem S)"
  shows "(\<exists>r. stage_plan junk chk ev (ri_rids i) (ri_committed i) (ri_cur i) (ri_nxt i) (ri_needed i) (ps_st S) (ps_mem S) = Inr r)
       \<longleftrightarrow> values_fit i"
    "\<not> values_fit i \<Longrightarrow> stage_plan junk chk ev (ri_rids i) (ri_committed i) (ri_cur i) (ri_nxt i) (ri_needed i) (ps_st S) (ps_mem S)
       = Inl RuntimeError"
proof -
  let ?s = "ps_st S" and ?m = "ps_mem S" and ?n = "length (ri_rids i)"
  have inv: "plan_inv chk ev True S" by (rule reach_inv [OF assms(1)]) simp
  have n: "0 < ?n" "length (ri_committed i) = ?n" "length (ri_cur i) = ?n" "length (ri_nxt i) = ?n" using assms(2) by (auto simp: round_ok_def)
  obtain s1 m1 where g: "(if ?n > st_cap ?s then grow junk ?n ?s ?m else (?s, ?m)) = (s1, m1)" by fastforce
  have q: "queue_ok ?s ?m" and sl: "st_slot ?s < 2" using inv by (simp_all add: plan_inv_def Let_def)
  have s1: "length (st_copied s1) = 2 \<and> st_gpu s1 \<noteq> None \<and> (case st_copied s1 ! ((st_slot s1 + 1) mod 2) of None \<Rightarrow> True | Some e \<Rightarrow> event_query m1 e)"
  proof (cases "?n > st_cap ?s")
    case True
    then have g': "grow junk ?n ?s ?m = (s1, m1)" using g by simp
    note G = grow_ok [OF q g' n(1) sl]
    have "(st_slot s1 + 1) mod 2 < 2" by simp
    then show ?thesis using G(1,7) by (auto simp: ring_wf_def less_2_cases_iff)
  next
    case False
    then have e: "s1 = ?s" "m1 = ?m" using g by auto
    have "st_cap ?s \<noteq> 0" using False n(1) by linarith
    then have "ring_wf ?s ?m" "\<forall>e. st_copied ?s ! ((st_slot ?s + 1) mod 2) = Some e \<longrightarrow> e \<le> ps_before S"
      using inv by (auto simp: plan_inv_def Let_def)
    then show ?thesis using assms(3) unfolding e by (auto simp: ring_wf_def event_query_def split: option.splits)
  qed
  have "(st_slot s1 + 1) mod 2 < length (st_copied s1)" using s1 by simp
  then obtain s2 h where acq: "acquire junk ?n ?s ?m = Inr (s2, m1, h)" and s2: "st_gpu s2 = st_gpu s1"
    and h: "v_len (hr_seq h) = ?n" "v_len (hr_cur h) = ?n" "v_len (hr_nxt h) = ?n"
    using s1 by (simp add: acquire_def g RING_DEPTH_def Let_def)
  then have ship: "\<exists>x. ship chk ev ?n (ri_needed i) (ri_rids i) s2 m = Inr x" for m
    using s1 s2 by (auto simp: ship_def Let_def split: option.splits)
  let ?r = "stage_plan junk chk ev (ri_rids i) (ri_committed i) (ri_cur i) (ri_nxt i) (ri_needed i) ?s ?m"
  have bad: "?r = Inl RuntimeError" if "\<not> values_fit i"
    using that n h by (auto simp: stage_plan_def acq copy_in_def ensure_def values_fit_def)
  have good: "\<exists>r. ?r = Inr r" if "values_fit i"
  proof -
    obtain x where "ship chk ev ?n (ri_needed i) (ri_rids i) s2
        (write_view (hr_nxt h) (ri_nxt i) (write_view (hr_cur h) (ri_cur i) (write_view (hr_seq h) (ri_committed i) m1))) = Inr x"
      using ship by blast
    then show ?thesis using that n h by (cases x) (auto simp: stage_plan_def acq copy_in_def ensure_def values_fit_def)
  qed
  show "(\<exists>r. ?r = Inr r) \<longleftrightarrow> values_fit i" using bad good by (cases "values_fit i") auto
  show "?r = Inl RuntimeError" if "\<not> values_fit i" by (rule bad [OF that])
qed

section \<open>Rounds on a small batch\<close>

definition demo_round :: "int \<Rightarrow> round_in" where
  "demo_round k = \<lparr>ri_rids = [''a''], ri_committed = [k], ri_cur = [k], ri_nxt = [k + 8], ri_needed = 8\<rparr>"

definition demo_stage :: "int \<Rightarrow> staging \<Rightarrow> dmem \<Rightarrow> (staging \<times> dmem \<times> host_rows) res" where
  "demo_stage k = stage_plan (\<lambda>n. replicate n 0) False False (ri_rids (demo_round k)) (ri_committed (demo_round k))
     (ri_cur (demo_round k)) (ri_nxt (demo_round k)) (ri_needed (demo_round k))"

definition demo_next :: "int \<Rightarrow> plan_sys \<Rightarrow> plan_sys" where
  "demo_next k S = (case demo_stage k (ps_st S) (ps_mem S) of Inl _ \<Rightarrow> S
     | Inr (s, m, h) \<Rightarrow> plan_after S (demo_round k) s m h)"

lemma demo_next_step:
  assumes "\<exists>r. demo_stage k (ps_st S) (ps_mem S) = Inr r"
    "fenced \<longrightarrow> ps_before S \<le> completed (ps_mem S)"
  shows "plan_step (\<lambda>n. replicate n 0) False False fenced S (demo_next k S)"
proof -
  obtain s m h where r: "demo_stage k (ps_st S) (ps_mem S) = Inr (s, m, h)" using assms(1) by auto
  have "round_ok (demo_round k)" by (simp add: round_ok_def demo_round_def)
  from plan_step.round [OF this assms(2) r [unfolded demo_stage_def]]
  show ?thesis by (simp add: demo_next_def r demo_round_def)
qed

lemmas stage_eval = demo_next_def demo_stage_def demo_round_def plan_init_def stage_plan_def acquire_def staging_init_def dmem_init_def
  grow_def new_bufs_def Let_def RING_DEPTH_def copy_in_def in_ty_def wrap_def i32_def i64_def ship_def signed_take_bit_int_eq_self

lemma staged_plan_reaches_kernel_witness:
  "plan_reach (\<lambda>n. replicate n 0) False False True (demo_next 1 plan_init)
   \<and> dm_seen (drain (ps_mem (demo_next 1 plan_init))) = [([1], [9])]"
proof -
  have "\<exists>r. demo_stage 1 staging_init dmem_init = Inr r" by (simp add: stage_eval)
  then obtain s m h where r: "demo_stage 1 staging_init dmem_init = Inr (s, m, h)" by auto
  then have reach: "plan_reach (\<lambda>n. replicate n 0) False False True (demo_next 1 plan_init)"
    by (intro plan_reach.step [OF plan_reach.start] demo_next_step) (simp_all add: plan_init_def)
  have "ps_expect (demo_next 1 plan_init) = [([1], [9])]" using r by (simp add: demo_next_def plan_init_def plan_after_def demo_round_def)
  then show ?thesis using staged_plan_reaches_kernel [OF reach] reach by simp
qed

text \<open>Without the fence and without the checks the third round overwrites the slot the first one is still
  to be copied from.\<close>

lemma unfenced_round_overwrites:
  "dm_seen (drain (ps_mem (demo_next 3 (demo_next 2 (demo_next 1 plan_init))))) = [([3], [11]), ([2], [10]), ([3], [11])]
   \<and> ps_expect (demo_next 3 (demo_next 2 (demo_next 1 plan_init))) = [([1], [9]), ([2], [10]), ([3], [11])]"
  by code_simp

end
