(* ===== verification/PlanRound.thy ===== *)
theory PlanRound
  imports PlanStaging
begin

text \<open>
  The draft input of the DFLASH/DSpark worker (\<open>DFlashDraftInputV2\<close> of \<open>sglang-overlay/dflash_info_v2.py\<close>):
  preparing a decode round on the staged and on the legacy path, and the filtering and merging of
  its rows.  The length planner, the eviction of the window and the allocator are parameters; the
  kv state they share is the opaque pool.
\<close>

section \<open>State\<close>

datatype tensor = View view | Own "int list"

definition t_read :: "dmem \<Rightarrow> tensor \<Rightarrow> int list" where
  "t_read m t = (case t of View v \<Rightarrow> read_view m v | Own xs \<Rightarrow> xs)"

text \<open>The buffers the legacy path keeps in the draft input.\<close>

record legacy_bufs =
  lb_seq :: "nat option"
  lb_cur :: "nat option"
  lb_nxt :: "nat option"
  lb_cur_gpu :: "nat option"
  lb_nxt_gpu :: "nat option"

record 'x draft =
  d_topk_p :: "'x list"
  d_topk_index :: "'x list"
  d_bonus_tokens :: "int list"
  d_new_seq_lens :: "int list"
  d_hidden_states :: "'x list"
  d_max_top_k :: int
  d_uniform_top_k :: "int option"
  d_nxt_kv_lens :: "tensor option"
  d_nxt_kv_lens_sum :: "int option"
  d_future_indices :: "int list option"
  d_bufs :: legacy_bufs

definition create_idle_input :: "'x draft" where
  "create_idle_input = \<lparr>d_topk_p = [], d_topk_index = [], d_bonus_tokens = [], d_new_seq_lens = [], d_hidden_states = [],
     d_max_top_k = 1, d_uniform_top_k = None, d_nxt_kv_lens = None, d_nxt_kv_lens_sum = None, d_future_indices = None,
     d_bufs = \<lparr>lb_seq = None, lb_cur = None, lb_nxt = None, lb_cur_gpu = None, lb_nxt_gpu = None\<rparr>\<rparr>"

record plan_req =
  q_rid :: string
  q_committed :: int
  q_top_k :: int
  q_decode_batch_idx :: int

record 'p plan_batch =
  pb_reqs :: "plan_req list"
  pb_pool :: 'p
  pb_seq_lens_cpu :: tensor
  pb_seq_lens_sum :: int

text \<open>What the code calls outside the file: the window eviction, \<open>page_aligned_decode_alloc_lens\<close>
  (requests, reserve, page size) and the host side of \<open>alloc_for_spec_decode\<close>.\<close>

record 'p plan_ops =
  po_evict :: "plan_req list \<Rightarrow> 'p \<Rightarrow> 'p"
  po_lens :: "plan_req list \<Rightarrow> 'p \<Rightarrow> int \<Rightarrow> int \<Rightarrow> int list \<times> int list \<times> int"
  po_alloc :: "plan_req list \<Rightarrow> 'p \<Rightarrow> int list \<Rightarrow> int list \<Rightarrow> int \<Rightarrow> 'p res"

section \<open>Preparing a round\<close>

text \<open>The loop over the requests that finds the largest top-k and the one they share, if they do.\<close>

definition top_k_step :: "nat \<times> plan_req \<Rightarrow> int \<times> int option \<times> bool \<Rightarrow> int \<times> int option \<times> bool" where
  "top_k_step ir acc = (case (ir, acc) of ((i, r), (mx, val, uniform)) \<Rightarrow>
     let k = q_top_k r; mx = (if k > mx then k else mx)
     in if i = 0 then (mx, Some k, uniform)
        else if uniform \<and> Some k \<noteq> val then (mx, val, False) else (mx, val, uniform))"

definition top_k_scan :: "plan_req list \<Rightarrow> int \<times> int option" where
  "top_k_scan rs = (case fold top_k_step (enumerate 0 rs) (1, None, True) of
     (mx, val, uniform) \<Rightarrow> (max mx 1, if uniform then val else None))"

definition bump :: "plan_req \<Rightarrow> plan_req" where
  "bump r = r\<lparr>q_decode_batch_idx := q_decode_batch_idx r + 1\<rparr>"

definition prepare_staged :: "'p plan_ops \<Rightarrow> (nat \<Rightarrow> int list) \<Rightarrow> bool \<Rightarrow> bool \<Rightarrow> int \<Rightarrow> int \<Rightarrow> 'x draft \<Rightarrow> 'p plan_batch \<Rightarrow> staging \<Rightarrow> dmem
    \<Rightarrow> ('x draft \<times> 'p plan_batch \<times> staging \<times> dmem) res" where
  "prepare_staged ops junk chk ev block_size page_size d b s m =
     (let rs = pb_reqs b in
      if rs = [] then Inr (d, b, s, m)
      else let pool = po_evict ops rs (pb_pool b) in
        ensure (block_size > 0) ValueError
        (let (cur, nxt, needed) = po_lens ops rs pool (2 * block_size) page_size;
             committed = map q_committed rs; (mx, uni) = top_k_scan rs in
         res_bind (stage_plan junk chk ev (map q_rid rs) committed cur nxt needed s m) (\<lambda>(s, m, host).
         res_bind (po_alloc ops rs pool (read_view m (hr_cur host)) (read_view m (hr_nxt host)) needed) (\<lambda>pool.
         Inr (d\<lparr>d_max_top_k := mx, d_uniform_top_k := uni, d_nxt_kv_lens := Some (View (hr_nxt host)), d_nxt_kv_lens_sum := Some (sum_list nxt)\<rparr>,
              b\<lparr>pb_reqs := map bump rs, pb_pool := pool, pb_seq_lens_cpu := View (hr_seq host), pb_seq_lens_sum := sum_list committed\<rparr>,
              s, m)))))"

text \<open>The legacy path: buffers of the draft input, grown on demand.\<close>

definition numel :: "dmem \<Rightarrow> nat option \<Rightarrow> nat" where
  "numel m a = (case a of None \<Rightarrow> 0 | Some a \<Rightarrow> length (b_rows (dm_bufs m ! a) ! 0))"

definition needs_alloc :: "dmem \<Rightarrow> nat \<Rightarrow> nat option \<Rightarrow> bool" where
  "needs_alloc m bs a \<longleftrightarrow> a = None \<or> numel m a < bs"

definition grown_capacity :: "dmem \<Rightarrow> nat \<Rightarrow> nat option \<Rightarrow> nat" where
  "grown_capacity m bs a = max bs (max 32 (if numel m a > 0 then numel m a * 2 else 0))"

definition ensure_prepare_length_buffers :: "(nat \<Rightarrow> int list) \<Rightarrow> nat \<Rightarrow> legacy_bufs \<Rightarrow> dmem \<Rightarrow> legacy_bufs \<times> dmem" where
  "ensure_prepare_length_buffers junk bs l m =
     (let (l, m) = (if needs_alloc m bs (lb_seq l)
                    then let cap = grown_capacity m bs (lb_seq l); (as, m) = new_bufs False 3 [junk cap] m
                         in (l\<lparr>lb_seq := Some (as ! 0), lb_cur := Some (as ! 1), lb_nxt := Some (as ! 2)\<rparr>, m)
                    else (l, m))
      in if needs_alloc m bs (lb_cur_gpu l)
         then let cap = grown_capacity m bs (lb_cur_gpu l); (as, m) = new_bufs True 2 [junk cap] m
              in (l\<lparr>lb_cur_gpu := Some (as ! 0), lb_nxt_gpu := Some (as ! 1)\<rparr>, m)
         else (l, m))"

definition set_item :: "int_ty \<Rightarrow> view \<Rightarrow> nat \<Rightarrow> int \<Rightarrow> dmem \<Rightarrow> dmem res" where
  "set_item ty v i x m =
     ensure (in_ty ty x) RuntimeError (ensure (i < v_len v) IndexError
       (Inr (m\<lparr>dm_bufs := (dm_bufs m)[v_addr v := (dm_bufs m ! v_addr v)\<lparr>b_rows :=
            (b_rows (dm_bufs m ! v_addr v))[v_row v := (b_rows (dm_bufs m ! v_addr v) ! v_row v)[i := x]]\<rparr>]\<rparr>)))"

fun legacy_fill :: "view \<Rightarrow> view \<Rightarrow> view \<Rightarrow> nat \<Rightarrow> (plan_req \<times> int \<times> int) list \<Rightarrow> dmem \<Rightarrow> dmem res" where
  "legacy_fill sv cv nv i [] m = Inr m"
| "legacy_fill sv cv nv i ((r, c, n) # rest) m =
     res_bind (set_item Int64 sv i (q_committed r) m) (\<lambda>m.
     res_bind (set_item Int32 cv i c m) (\<lambda>m.
     res_bind (set_item Int32 nv i n m) (\<lambda>m.
     legacy_fill sv cv nv (Suc i) rest m)))"

definition prepare_legacy :: "'p plan_ops \<Rightarrow> (nat \<Rightarrow> int list) \<Rightarrow> int \<Rightarrow> int \<Rightarrow> 'x draft \<Rightarrow> 'p plan_batch \<Rightarrow> dmem
    \<Rightarrow> ('x draft \<times> 'p plan_batch \<times> dmem) res" where
  "prepare_legacy ops junk block_size page_size d b m =
     (let rs = pb_reqs b; bs = length rs in
      if rs = [] then Inr (d, b, m)
      else let pool = po_evict ops rs (pb_pool b);
               (l, m) = ensure_prepare_length_buffers junk bs (d_bufs d) m;
               row = (\<lambda>a. \<lparr>v_addr = the a, v_row = 0, v_len = bs\<rparr>);
               sv = row (lb_seq l); cv = row (lb_cur l); nv = row (lb_nxt l); cg = row (lb_cur_gpu l); ng = row (lb_nxt_gpu l) in
        ensure (block_size > 0) ValueError
        (let (cur, nxt, needed) = po_lens ops rs pool (2 * block_size) page_size;
             rows = zip rs (zip cur nxt); (mx, uni) = top_k_scan (map fst rows) in
         res_bind (legacy_fill sv cv nv 0 rows m) (\<lambda>m.
         let m = issue (Copy [(nv, ng)]) (issue (Copy [(cv, cg)]) m);
             m = (if needed > 0 then issue (Read cg ng) m else m) in
         res_bind (po_alloc ops rs pool (read_view m cv) (read_view m nv) needed) (\<lambda>pool.
         Inr (d\<lparr>d_max_top_k := mx, d_uniform_top_k := uni, d_nxt_kv_lens := Some (View nv),
                d_nxt_kv_lens_sum := Some (sum_list (map (snd \<circ> snd) rows)), d_bufs := l\<rparr>,
              b\<lparr>pb_reqs := map bump rs, pb_pool := pool, pb_seq_lens_cpu := View sv,
                pb_seq_lens_sum := sum_list (map (q_committed \<circ> fst) rows)\<rparr>, m)))))"

definition draft_prepare_for_decode :: "bool \<Rightarrow> 'p plan_ops \<Rightarrow> (nat \<Rightarrow> int list) \<Rightarrow> bool \<Rightarrow> bool \<Rightarrow> int \<Rightarrow> int \<Rightarrow> 'x draft \<Rightarrow> 'p plan_batch
    \<Rightarrow> staging \<Rightarrow> dmem \<Rightarrow> ('x draft \<times> 'p plan_batch \<times> staging \<times> dmem) res" where
  "draft_prepare_for_decode launch_params ops junk chk ev block_size page_size d b s m =
     (if launch_params then prepare_staged ops junk chk ev block_size page_size d b s m
      else res_map (\<lambda>(d, b, m). (d, b, s, m)) (prepare_legacy ops junk block_size page_size d b m))"

section \<open>Filtering and merging\<close>

definition index_rows :: "'a list \<Rightarrow> int list \<Rightarrow> 'a list res" where
  "index_rows xs idx = res_list (py_get xs) idx"

definition filter_draft :: "dmem \<Rightarrow> int list \<Rightarrow> int list option \<Rightarrow> 'x draft \<Rightarrow> 'x draft res" where
  "filter_draft m new_indices new_indices_cpu d =
     res_bind (case d_nxt_kv_lens d of None \<Rightarrow> Inr d
       | Some t \<Rightarrow> res_map (\<lambda>xs. d\<lparr>d_nxt_kv_lens := Some (Own xs), d_nxt_kv_lens_sum := Some (sum_list xs)\<rparr>)
           (index_rows (t_read m t) (case new_indices_cpu of Some c \<Rightarrow> c | None \<Rightarrow> new_indices))) (\<lambda>d.
     case d_future_indices d of
       Some f \<Rightarrow> res_map (\<lambda>f. d\<lparr>d_future_indices := Some f\<rparr>) (index_rows f new_indices)
     | None \<Rightarrow>
         res_bind (index_rows (d_topk_p d) new_indices) (\<lambda>topk_p.
         res_bind (index_rows (d_topk_index d) new_indices) (\<lambda>topk_index.
         res_bind (index_rows (d_bonus_tokens d) new_indices) (\<lambda>bonus.
         res_bind (index_rows (d_new_seq_lens d) new_indices) (\<lambda>lens.
         res_bind (index_rows (d_hidden_states d) new_indices) (\<lambda>hidden.
         Inr (d\<lparr>d_topk_p := topk_p, d_topk_index := topk_index, d_bonus_tokens := bonus, d_new_seq_lens := lens,
                d_hidden_states := hidden\<rparr>)))))))"

definition merge_draft :: "dmem \<Rightarrow> 'x draft \<Rightarrow> 'x draft \<Rightarrow> 'x draft res" where
  "merge_draft m d e =
     res_bind (case d_nxt_kv_lens d of
         Some t \<Rightarrow> (case d_nxt_kv_lens e of None \<Rightarrow> Inl AssertionError
           | Some u \<Rightarrow> let xs = t_read m t @ t_read m u
                       in Inr (d\<lparr>d_nxt_kv_lens := Some (Own xs), d_nxt_kv_lens_sum := Some (sum_list xs)\<rparr>))
       | None \<Rightarrow> (case d_nxt_kv_lens e of None \<Rightarrow> Inr d
           | Some u \<Rightarrow> Inr (d\<lparr>d_nxt_kv_lens := Some u, d_nxt_kv_lens_sum := d_nxt_kv_lens_sum e\<rparr>))) (\<lambda>d.
     case d_future_indices d of
       Some f \<Rightarrow> (case d_future_indices e of None \<Rightarrow> Inl AssertionError
         | Some g \<Rightarrow> Inr (d\<lparr>d_future_indices := Some (f @ g)\<rparr>))
     | None \<Rightarrow> Inr (d\<lparr>d_topk_p := d_topk_p d @ d_topk_p e, d_topk_index := d_topk_index d @ d_topk_index e,
           d_bonus_tokens := d_bonus_tokens d @ d_bonus_tokens e, d_new_seq_lens := d_new_seq_lens d @ d_new_seq_lens e,
           d_hidden_states := d_hidden_states d @ d_hidden_states e\<rparr>))"

section \<open>The legacy path does what the staged path does\<close>

abbreviation row0 :: "dmem \<Rightarrow> nat \<Rightarrow> int list" where
  "row0 m a \<equiv> b_rows (dm_bufs m ! a) ! 0"

text \<open>A memory that differs from \<open>m\<close> in the content of some buffers only.\<close>

definition touched :: "nat set \<Rightarrow> dmem \<Rightarrow> dmem \<Rightarrow> bool" where
  "touched A m m' \<longleftrightarrow> dm_queue m' = dm_queue m \<and> dm_issued m' = dm_issued m \<and> dm_seen m' = dm_seen m
     \<and> length (dm_bufs m') = length (dm_bufs m) \<and> (\<forall>c. c \<notin> A \<longrightarrow> dm_bufs m' ! c = dm_bufs m ! c)
     \<and> (\<forall>dev n c. is_buf m' dev n c = is_buf m dev n c)"

lemma touched_refl: "touched A m m" by (simp add: touched_def)

lemma touched_trans: "touched A m m' \<Longrightarrow> touched A m' m'' \<Longrightarrow> touched A m m''"
  unfolding touched_def by metis

lemma set_item_ok:
  assumes "is_buf m dev 1 a" "i < n" "in_ty ty x"
  obtains m' where "set_item ty \<lparr>v_addr = a, v_row = 0, v_len = n\<rparr> i x m = Inr m'" "touched {a} m m'" "row0 m' a = (row0 m a)[i := x]"
proof
  let ?m = "m\<lparr>dm_bufs := (dm_bufs m)[a := (dm_bufs m ! a)\<lparr>b_rows := (b_rows (dm_bufs m ! a))[0 := (row0 m a)[i := x]]\<rparr>]\<rparr>"
  show "set_item ty \<lparr>v_addr = a, v_row = 0, v_len = n\<rparr> i x m = Inr ?m" using assms by (simp add: set_item_def)
  have "is_buf ?m dev' k c = is_buf m dev' k c" for dev' k c
    by (cases "c = a"; cases "a < length (dm_bufs m)") (simp_all add: is_buf_def)
  then show "touched {a} m ?m" by (simp add: touched_def)
  show "row0 ?m a = (row0 m a)[i := x]" using assms(1) by (simp add: is_buf_def)
qed

definition triple_fits :: "plan_req \<times> int \<times> int \<Rightarrow> bool" where
  "triple_fits t \<longleftrightarrow> in_ty Int64 (q_committed (fst t)) \<and> in_ty Int32 (fst (snd t)) \<and> in_ty Int32 (snd (snd t))"

definition fill_from :: "int list \<Rightarrow> nat \<Rightarrow> int list \<Rightarrow> int list" where
  "fill_from row i xs = take i row @ xs @ drop (i + length xs) row"

lemma fill_from_Cons: "i < length row \<Longrightarrow> fill_from (row[i := x]) (Suc i) xs = fill_from row i (x # xs)"
  by (simp add: fill_from_def take_Suc_conv_app_nth)

lemma legacy_fill_ok:
  assumes "is_buf m False 1 a" "is_buf m False 1 b" "is_buf m False 1 c" "distinct [a, b, c]"
    and "i + length xs \<le> n" "n \<le> length (row0 m a)" "n \<le> length (row0 m b)" "n \<le> length (row0 m c)"
    and "\<forall>t \<in> set xs. triple_fits t"
  shows "\<exists>m'. legacy_fill \<lparr>v_addr = a, v_row = 0, v_len = n\<rparr> \<lparr>v_addr = b, v_row = 0, v_len = n\<rparr> \<lparr>v_addr = c, v_row = 0, v_len = n\<rparr> i xs m = Inr m'
     \<and> touched {a, b, c} m m' \<and> row0 m' a = fill_from (row0 m a) i (map (q_committed \<circ> fst) xs)
     \<and> row0 m' b = fill_from (row0 m b) i (map (fst \<circ> snd) xs) \<and> row0 m' c = fill_from (row0 m c) i (map (snd \<circ> snd) xs)"
  using assms
proof (induction xs arbitrary: i m)
  case Nil
  then show ?case by (simp add: touched_refl fill_from_def)
next
  case (Cons t xs)
  obtain r x y where t: "t = (r, x, y)" by (cases t) auto
  have i: "i < n" using Cons.prems(5) by simp
  have fits: "in_ty Int64 (q_committed r)" "in_ty Int32 x" "in_ty Int32 y" using Cons.prems(9) t by (simp_all add: triple_fits_def)
  have ne: "a \<noteq> b" "a \<noteq> c" "b \<noteq> c" using Cons.prems(4) by auto
  obtain m1 where m1: "set_item Int64 \<lparr>v_addr = a, v_row = 0, v_len = n\<rparr> i (q_committed r) m = Inr m1" "touched {a} m m1" "row0 m1 a = (row0 m a)[i := q_committed r]"
    by (rule set_item_ok [OF Cons.prems(1) i fits(1)])
  have b1: "is_buf m1 False 1 b" "is_buf m1 False 1 c" using m1(2) Cons.prems(2,3) by (simp_all add: touched_def)
  obtain m2 where m2: "set_item Int32 \<lparr>v_addr = b, v_row = 0, v_len = n\<rparr> i x m1 = Inr m2" "touched {b} m1 m2" "row0 m2 b = (row0 m1 b)[i := x]"
    by (rule set_item_ok [OF b1(1) i fits(2)])
  have b2: "is_buf m2 False 1 c" using m2(2) b1(2) by (simp add: touched_def)
  obtain m3 where m3: "set_item Int32 \<lparr>v_addr = c, v_row = 0, v_len = n\<rparr> i y m2 = Inr m3" "touched {c} m2 m3" "row0 m3 c = (row0 m2 c)[i := y]"
    by (rule set_item_ok [OF b2 i fits(3)])
  have rows: "row0 m3 a = (row0 m a)[i := q_committed r]" "row0 m3 b = (row0 m b)[i := x]" "row0 m3 c = (row0 m c)[i := y]"
    using m1(2,3) m2(2,3) m3(2,3) ne by (simp_all add: touched_def)
  have T: "touched {a, b, c} m m3"
    using m1(2) m2(2) m3(2) by (auto simp: touched_def)
  have "\<exists>m'. legacy_fill \<lparr>v_addr = a, v_row = 0, v_len = n\<rparr> \<lparr>v_addr = b, v_row = 0, v_len = n\<rparr> \<lparr>v_addr = c, v_row = 0, v_len = n\<rparr> (Suc i) xs m3 = Inr m'
     \<and> touched {a, b, c} m3 m' \<and> row0 m' a = fill_from (row0 m3 a) (Suc i) (map (q_committed \<circ> fst) xs)
     \<and> row0 m' b = fill_from (row0 m3 b) (Suc i) (map (fst \<circ> snd) xs) \<and> row0 m' c = fill_from (row0 m3 c) (Suc i) (map (snd \<circ> snd) xs)"
    by (rule Cons.IH) (use Cons.prems T rows in \<open>simp_all add: touched_def\<close>)
  then show ?case using m1(1) m2(1) m3(1) rows i Cons.prems(6-8) touched_trans [OF T]
    by (auto simp: t fill_from_Cons comp_def)
qed

lemma legacy_fill_bad:
  assumes "is_buf m False 1 a" "is_buf m False 1 b" "is_buf m False 1 c"
    and "i + length xs \<le> n" "\<not> (\<forall>t \<in> set xs. triple_fits t)"
  shows "legacy_fill \<lparr>v_addr = a, v_row = 0, v_len = n\<rparr> \<lparr>v_addr = b, v_row = 0, v_len = n\<rparr> \<lparr>v_addr = c, v_row = 0, v_len = n\<rparr> i xs m = Inl RuntimeError"
  using assms
proof (induction xs arbitrary: i m)
  case (Cons t xs)
  obtain r x y where t: "t = (r, x, y)" by (cases t) auto
  have step: "set_item ty \<lparr>v_addr = d, v_row = 0, v_len = n\<rparr> i z m = (if in_ty ty z then Inr m' else Inl RuntimeError)
      \<Longrightarrow> True" for ty d z m m' by simp
  have i: "i < n" using Cons.prems(4) by simp
  have bad: "set_item ty v i z m = Inl RuntimeError" if "\<not> in_ty ty z" for ty v z and m :: dmem using that by (simp add: set_item_def)
  show ?case
  proof (cases "triple_fits t")
    case True
    have fits: "in_ty Int64 (q_committed r)" "in_ty Int32 x" "in_ty Int32 y" using True t by (simp_all add: triple_fits_def)
    obtain m1 where m1: "set_item Int64 \<lparr>v_addr = a, v_row = 0, v_len = n\<rparr> i (q_committed r) m = Inr m1" "touched {a} m m1"
      by (rule set_item_ok [OF Cons.prems(1) i fits(1)])
    have b1: "is_buf m1 False 1 a" "is_buf m1 False 1 b" "is_buf m1 False 1 c" using m1(2) Cons.prems(1-3) by (simp_all add: touched_def)
    obtain m2 where m2: "set_item Int32 \<lparr>v_addr = b, v_row = 0, v_len = n\<rparr> i x m1 = Inr m2" "touched {b} m1 m2"
      by (rule set_item_ok [OF b1(2) i fits(2)])
    have b2: "is_buf m2 False 1 a" "is_buf m2 False 1 b" "is_buf m2 False 1 c" using m2(2) b1 by (simp_all add: touched_def)
    obtain m3 where m3: "set_item Int32 \<lparr>v_addr = c, v_row = 0, v_len = n\<rparr> i y m2 = Inr m3" "touched {c} m2 m3"
      by (rule set_item_ok [OF b2(3) i fits(3)])
    have b3: "is_buf m3 False 1 a" "is_buf m3 False 1 b" "is_buf m3 False 1 c" using m3(2) b2 by (simp_all add: touched_def)
    show ?thesis using Cons.IH [OF b3, of "Suc i"] Cons.prems(4,5) True m1(1) m2(1) m3(1) by (simp add: t)
  next
    case False
    then show ?thesis using bad i
      by (auto simp: t triple_fits_def set_item_def ensure_def)
  qed
qed simp

lemma fill_from_0: "length xs \<le> n \<Longrightarrow> take (length xs) (fill_from row 0 xs) = xs"
  by (simp add: fill_from_def)

lemma drain_seen_new:
  assumes q: "\<forall>op \<in> set (dm_queue m). \<forall>a \<in> op_srcs op \<union> op_dsts op. a < length (dm_bufs m)"
    and "dm_queue m' = dm_queue m" "dm_seen m' = dm_seen m" "length (dm_bufs m) \<le> length (dm_bufs m')"
    and "\<And>c. c < length (dm_bufs m) \<Longrightarrow> dm_bufs m' ! c = dm_bufs m ! c"
  shows "dm_seen (drain m') = dm_seen (drain m)" "length (dm_bufs m) \<le> c \<Longrightarrow> dm_bufs (drain m') ! c = dm_bufs m' ! c"
proof -
  show "dm_seen (drain m') = dm_seen (drain m)"
  proof (rule drain_seen_cong [OF assms(2,3)])
    fix op a assume "op \<in> set (dm_queue m')" "a \<in> op_srcs op \<union> op_dsts op"
    then have "a < length (dm_bufs m)" using q assms(2) by auto
    then show "a < length (dm_bufs m') \<and> a < length (dm_bufs m) \<and> dm_bufs m' ! a = dm_bufs m ! a" using assms(4,5) by auto
  qed
  show "dm_bufs (drain m') ! c = dm_bufs m' ! c" if "length (dm_bufs m) \<le> c"
    unfolding drain_def by (subst fold_run_frame) (use q assms(2) that in \<open>auto simp: linorder_not_le [symmetric]\<close>)
qed

lemma read_copied_views:
  assumes "is_buf m False 1 b" "is_buf m False 1 c" "is_buf m True 1 g" "is_buf m True 1 h" "g \<noteq> h"
    and "row0 m b = xs @ xs'" "row0 m c = ys @ ys'" "length xs = n" "length ys = n"
  defines "v \<equiv> \<lambda>a. \<lparr>v_addr = a, v_row = 0, v_len = n\<rparr>"
  shows "dm_seen (run_op (Read (v g) (v h)) (run_op (Copy [(v c, v h)]) (run_op (Copy [(v b, v g)]) m))) = dm_seen m @ [(xs, ys)]"
proof -
  have "b \<noteq> g" "b \<noteq> h" "c \<noteq> g" "c \<noteq> h" using assms(1-4) by (auto simp: is_buf_def)
  then show ?thesis using assms by (auto simp: v_def read_view_def write_view_def Let_def is_buf_def nth_list_update)
qed

text \<open>A round of the legacy path on a fresh draft input.\<close>

definition fresh_bufs :: legacy_bufs where
  "fresh_bufs = \<lparr>lb_seq = None, lb_cur = None, lb_nxt = None, lb_cur_gpu = None, lb_nxt_gpu = None\<rparr>"

lemma ensure_fresh:
  assumes "0 < bs" "ensure_prepare_length_buffers junk bs fresh_bufs m = (l, m')" "\<And>k. length (junk k) = k"
  obtains cap where "bs \<le> cap" 
    "l = \<lparr>lb_seq = Some (length (dm_bufs m)), lb_cur = Some (length (dm_bufs m) + 1), lb_nxt = Some (length (dm_bufs m) + 2),
          lb_cur_gpu = Some (length (dm_bufs m) + 3), lb_nxt_gpu = Some (length (dm_bufs m) + 4)\<rparr>"
    "m' = m\<lparr>dm_bufs := dm_bufs m @ replicate 3 \<lparr>b_dev = False, b_rows = [junk cap]\<rparr> @ replicate 2 \<lparr>b_dev = True, b_rows = [junk cap]\<rparr>\<rparr>"
proof
  let ?cap = "max bs 32"
  show "bs \<le> ?cap" by simp
  show "l = \<lparr>lb_seq = Some (length (dm_bufs m)), lb_cur = Some (length (dm_bufs m) + 1), lb_nxt = Some (length (dm_bufs m) + 2),
          lb_cur_gpu = Some (length (dm_bufs m) + 3), lb_nxt_gpu = Some (length (dm_bufs m) + 4)\<rparr>"
    "m' = m\<lparr>dm_bufs := dm_bufs m @ replicate 3 \<lparr>b_dev = False, b_rows = [junk ?cap]\<rparr> @ replicate 2 \<lparr>b_dev = True, b_rows = [junk ?cap]\<rparr>\<rparr>"
    using assms(2) by (auto simp: ensure_prepare_length_buffers_def fresh_bufs_def needs_alloc_def grown_capacity_def numel_def new_bufs_def Let_def)
qed

definition ops_ok :: "'p plan_ops \<Rightarrow> bool" where
  "ops_ok ops \<longleftrightarrow> (\<forall>rs pool r g. case po_lens ops rs pool r g of (cur, nxt, needed) \<Rightarrow> length cur = length rs \<and> length nxt = length rs)"

text \<open>What a prepared round means: the planned lengths, the allocator's answer and the seeds of the batch.\<close>

record 'p round_result =
  rr_reqs :: "plan_req list"
  rr_pool :: 'p
  rr_seq_lens :: "int list"
  rr_seq_sum :: int
  rr_nxt_lens :: "int list option"
  rr_nxt_sum :: "int option"
  rr_max_top_k :: int
  rr_uniform :: "int option"

definition round_result :: "dmem \<Rightarrow> 'x draft \<Rightarrow> 'p plan_batch \<Rightarrow> 'p round_result" where
  "round_result m d b = \<lparr>rr_reqs = pb_reqs b, rr_pool = pb_pool b, rr_seq_lens = t_read m (pb_seq_lens_cpu b), rr_seq_sum = pb_seq_lens_sum b,
     rr_nxt_lens = map_option (t_read m) (d_nxt_kv_lens d), rr_nxt_sum = d_nxt_kv_lens_sum d, rr_max_top_k = d_max_top_k d,
     rr_uniform = d_uniform_top_k d\<rparr>"

definition round_spec :: "'p plan_ops \<Rightarrow> int \<Rightarrow> int \<Rightarrow> 'p plan_batch \<Rightarrow> ('p round_result \<times> (int list \<times> int list) list) res" where
  "round_spec ops block_size page_size b =
     (let rs = pb_reqs b; pool = po_evict ops rs (pb_pool b) in
      ensure (block_size > 0) ValueError
      (let (cur, nxt, needed) = po_lens ops rs pool (2 * block_size) page_size in
       ensure (\<forall>t \<in> set (zip rs (zip cur nxt)). triple_fits t) RuntimeError
       (res_bind (po_alloc ops rs pool cur nxt needed) (\<lambda>pool.
        Inr (\<lparr>rr_reqs = map bump rs, rr_pool = pool, rr_seq_lens = map q_committed rs, rr_seq_sum = sum_list (map q_committed rs),
              rr_nxt_lens = Some nxt, rr_nxt_sum = Some (sum_list nxt), rr_max_top_k = fst (top_k_scan rs), rr_uniform = snd (top_k_scan rs)\<rparr>,
             if needed > 0 then [(cur, nxt)] else [])))))"

lemma read_view_issue [simp]: "read_view (issue op m) v = read_view m v"
  by (simp add: read_view_def issue_def)

lemma legacy_round_spec:
  assumes ops: "ops_ok ops" and ne: "pb_reqs b \<noteq> []" and fresh: "d_bufs d = fresh_bufs" and junk: "\<And>k. length (junk k) = k"
    and q: "\<forall>op \<in> set (dm_queue m). \<forall>a \<in> op_srcs op \<union> op_dsts op. a < length (dm_bufs m)"
  shows "case prepare_legacy ops junk block_size page_size d b m of
      Inl e \<Rightarrow> round_spec ops block_size page_size b = Inl e
    | Inr (d', b', m') \<Rightarrow> (\<exists>seen. round_spec ops block_size page_size b = Inr (round_result m' d' b', seen) \<and> dm_seen (drain m') = dm_seen (drain m) @ seen)"
proof (cases "block_size > 0")
  case False
  then show ?thesis using ne by (simp add: prepare_legacy_def round_spec_def Let_def split: prod.split)
next
  case True
  let ?rs = "pb_reqs b" and ?bs = "length (pb_reqs b)" and ?pool = "po_evict ops (pb_reqs b) (pb_pool b)"
  obtain cur nxt needed where L: "po_lens ops ?rs ?pool (2 * block_size) page_size = (cur, nxt, needed)" by (metis prod_cases3)
  have len: "length cur = ?bs" "length nxt = ?bs" using ops [unfolded ops_ok_def, rule_format, of ?rs ?pool "2 * block_size" page_size] L by auto
  let ?rows = "zip ?rs (zip cur nxt)"
  have maps: "map fst ?rows = ?rs" "map (q_committed \<circ> fst) ?rows = map q_committed ?rs" "map (fst \<circ> snd) ?rows = cur" "map (snd \<circ> snd) ?rows = nxt"
    using len by (simp_all add: list_eq_iff_nth_eq)
  obtain l m1 where E: "ensure_prepare_length_buffers junk ?bs fresh_bufs m = (l, m1)" by fastforce
  have "0 < ?bs" using ne by simp
  obtain cap where cap: "?bs \<le> cap" and l: "l = \<lparr>lb_seq = Some (length (dm_bufs m)), lb_cur = Some (length (dm_bufs m) + 1),
      lb_nxt = Some (length (dm_bufs m) + 2), lb_cur_gpu = Some (length (dm_bufs m) + 3), lb_nxt_gpu = Some (length (dm_bufs m) + 4)\<rparr>"
    and m1: "m1 = m\<lparr>dm_bufs := dm_bufs m @ replicate 3 \<lparr>b_dev = False, b_rows = [junk cap]\<rparr> @ replicate 2 \<lparr>b_dev = True, b_rows = [junk cap]\<rparr>\<rparr>"
    by (rule ensure_fresh [OF \<open>0 < ?bs\<close> E junk])
  define a where "a = length (dm_bufs m)"
  define a1 where "a1 = length (dm_bufs m) + 1"
  define a2 where "a2 = length (dm_bufs m) + 2"
  define a3 where "a3 = length (dm_bufs m) + 3"
  define a4 where "a4 = length (dm_bufs m) + 4"
  note as = a_def a1_def a2_def a3_def a4_def
  note l = l [folded as]
  define v where "v = (\<lambda>a. \<lparr>v_addr = a, v_row = 0, v_len = ?bs\<rparr>)"
  have buf: "is_buf m1 False 1 a" "is_buf m1 False 1 a1" "is_buf m1 False 1 a2" "is_buf m1 True 1 a3" "is_buf m1 True 1 a4"
    "row0 m1 a = junk cap" "row0 m1 a1 = junk cap" "row0 m1 a2 = junk cap"
    by (simp_all add: is_buf_def m1 as nth_append numeral_3_eq_3 numeral_2_eq_2)
  have run: "prepare_legacy ops junk block_size page_size d b m =
      res_bind (legacy_fill (v a) (v a1) (v a2) 0 ?rows m1) (\<lambda>m.
         let m = issue (Copy [(v a2, v a4)]) (issue (Copy [(v a1, v a3)]) m);
             m = (if needed > 0 then issue (Read (v a3) (v a4)) m else m) in
         res_bind (po_alloc ops ?rs ?pool (read_view m (v a1)) (read_view m (v a2)) needed) (\<lambda>pool.
         Inr (d\<lparr>d_max_top_k := fst (top_k_scan ?rs), d_uniform_top_k := snd (top_k_scan ?rs), d_nxt_kv_lens := Some (View (v a2)),
                d_nxt_kv_lens_sum := Some (sum_list nxt), d_bufs := l\<rparr>,
              b\<lparr>pb_reqs := map bump ?rs, pb_pool := pool, pb_seq_lens_cpu := View (v a), pb_seq_lens_sum := sum_list (map q_committed ?rs)\<rparr>, m)))"
    unfolding prepare_legacy_def Let_def fresh E v_def using ne True
    by (cases "top_k_scan ?rs") (simp add: L maps l cong: if_cong)
  show ?thesis
  proof (cases "\<forall>t \<in> set ?rows. triple_fits t")
    case False
    have "legacy_fill (v a) (v a1) (v a2) 0 ?rows m1 = Inl RuntimeError"
      unfolding v_def by (rule legacy_fill_bad [OF buf(1-3) _ False]) (use len in simp)
    then have "prepare_legacy ops junk block_size page_size d b m = Inl RuntimeError" unfolding run by simp
    moreover have "round_spec ops block_size page_size b = Inl RuntimeError" using True False L by (auto simp: round_spec_def ensure_def Let_def)
    ultimately show ?thesis by simp
  next
    case fits: True
    have "\<exists>m'. legacy_fill (v a) (v a1) (v a2) 0 ?rows m1 = Inr m' \<and> touched {a, a1, a2} m1 m'
       \<and> row0 m' a = fill_from (row0 m1 a) 0 (map (q_committed \<circ> fst) ?rows)
       \<and> row0 m' a1 = fill_from (row0 m1 a1) 0 (map (fst \<circ> snd) ?rows) \<and> row0 m' a2 = fill_from (row0 m1 a2) 0 (map (snd \<circ> snd) ?rows)"
      unfolding v_def by (rule legacy_fill_ok [OF buf(1-3)]) (use len cap fits junk buf(6-8) in \<open>simp_all add: as\<close>)
    then obtain m2 where m2: "legacy_fill (v a) (v a1) (v a2) 0 ?rows m1 = Inr m2" and T: "touched {a, a1, a2} m1 m2"
      and rows: "row0 m2 a = map q_committed ?rs @ drop ?bs (junk cap)" "row0 m2 a1 = cur @ drop ?bs (junk cap)" "row0 m2 a2 = nxt @ drop ?bs (junk cap)"
      unfolding maps buf(6-8) using len by (auto simp: fill_from_def)
    have reads: "read_view m2 (v a) = map q_committed ?rs" "read_view m2 (v a1) = cur" "read_view m2 (v a2) = nxt"
      using rows len by (simp_all add: read_view_def v_def)
    define m3 where "m3 = (let m = issue (Copy [(v a2, v a4)]) (issue (Copy [(v a1, v a3)]) m2)
        in if needed > 0 then issue (Read (v a3) (v a4)) m else m)"
    have m3r: "read_view m3 w = read_view m2 w" for w by (simp add: m3_def Let_def)
    have old: "dm_bufs m2 ! c = dm_bufs m ! c" if "c < length (dm_bufs m)" for c
      using T that by (simp add: touched_def as m1 nth_append)
    have D: "dm_seen (drain m2) = dm_seen (drain m)" "length (dm_bufs m) \<le> c \<Longrightarrow> dm_bufs (drain m2) ! c = dm_bufs m2 ! c" for c
      using drain_seen_new [OF q, of m2] T old by (auto simp: touched_def m1)
    have seen: "dm_seen (drain m3) = dm_seen (drain m) @ (if needed > 0 then [(cur, nxt)] else [])"
    proof -
      have bufs2: "is_buf (drain m2) False 1 a1" "is_buf (drain m2) False 1 a2" "is_buf (drain m2) True 1 a3" "is_buf (drain m2) True 1 a4"
        using buf T by (simp_all add: touched_def)
      have "dm_seen (run_op (Read (v a3) (v a4)) (run_op (Copy [(v a2, v a4)]) (run_op (Copy [(v a1, v a3)]) (drain m2))))
          = dm_seen (drain m2) @ [(cur, nxt)]"
        unfolding v_def by (rule read_copied_views [OF bufs2, where xs' = "drop ?bs (junk cap)" and ys' = "drop ?bs (junk cap)"])
          (use D(2) rows len in \<open>simp_all add: as\<close>)
      moreover have "dm_seen (run_op (Copy ps) m) = dm_seen m" for ps m
      proof -
        have "dm_seen (fold (\<lambda>(s, d) m. write_view d (read_view m s) m) ps m) = dm_seen m"
          by (induction ps arbitrary: m) auto
        then show ?thesis by simp
      qed
      ultimately show ?thesis using D(1) by (simp add: m3_def Let_def drain_issue run_op_issued)
    qed
    have "prepare_legacy ops junk block_size page_size d b m =
       res_bind (po_alloc ops ?rs ?pool cur nxt needed) (\<lambda>pool.
         Inr (d\<lparr>d_max_top_k := fst (top_k_scan ?rs), d_uniform_top_k := snd (top_k_scan ?rs), d_nxt_kv_lens := Some (View (v a2)),
                d_nxt_kv_lens_sum := Some (sum_list nxt), d_bufs := l\<rparr>,
              b\<lparr>pb_reqs := map bump ?rs, pb_pool := pool, pb_seq_lens_cpu := View (v a), pb_seq_lens_sum := sum_list (map q_committed ?rs)\<rparr>, m3))"
      unfolding run m2 by (simp add: Let_def m3_def reads)
    then show ?thesis using True fits L seen
      by (cases "po_alloc ops ?rs ?pool cur nxt needed") (simp_all add: round_spec_def ensure_def Let_def round_result_def t_read_def m3r reads)
  qed
qed

lemma staged_round_spec:
  assumes ops: "ops_ok ops" and ne: "pb_reqs b \<noteq> []" and reach: "plan_reach junk chk ev True S" and f: "ps_before S \<le> completed (ps_mem S)"
  shows "case prepare_staged ops junk chk ev block_size page_size d b (ps_st S) (ps_mem S) of
      Inl e \<Rightarrow> round_spec ops block_size page_size b = Inl e
    | Inr (d', b', s', m') \<Rightarrow> (\<exists>seen. round_spec ops block_size page_size b = Inr (round_result m' d' b', seen)
         \<and> dm_seen (drain m') = dm_seen (drain (ps_mem S)) @ seen)"
proof (cases "block_size > 0")
  case False
  then show ?thesis using ne by (simp add: prepare_staged_def round_spec_def Let_def split: prod.split)
next
  case True
  let ?rs = "pb_reqs b" and ?bs = "length (pb_reqs b)" and ?pool = "po_evict ops (pb_reqs b) (pb_pool b)" and ?s = "ps_st S" and ?m = "ps_mem S"
  obtain cur nxt needed where L: "po_lens ops ?rs ?pool (2 * block_size) page_size = (cur, nxt, needed)" by (metis prod_cases3)
  have len: "length cur = ?bs" "length nxt = ?bs" using ops [unfolded ops_ok_def, rule_format, of ?rs ?pool "2 * block_size" page_size] L by auto
  let ?rows = "zip ?rs (zip cur nxt)"
  define i where "i = \<lparr>ri_rids = map q_rid ?rs, ri_committed = map q_committed ?rs, ri_cur = cur, ri_nxt = nxt, ri_needed = needed\<rparr>"
  have sets: "set (zip cur nxt) = set (zip cur nxt)" ..
  have fit: "values_fit i \<longleftrightarrow> (\<forall>t \<in> set ?rows. triple_fits t)"
  proof -
    have "q_committed ` set ?rs = (q_committed \<circ> fst) ` set ?rows" "set cur = (fst \<circ> snd) ` set ?rows" "set nxt = (snd \<circ> snd) ` set ?rows"
    proof -
      have "map (q_committed \<circ> fst) ?rows = map q_committed ?rs" "map (fst \<circ> snd) ?rows = cur" "map (snd \<circ> snd) ?rows = nxt"
        using len by (simp_all add: list_eq_iff_nth_eq)
      then show "q_committed ` set ?rs = (q_committed \<circ> fst) ` set ?rows" "set cur = (fst \<circ> snd) ` set ?rows" "set nxt = (snd \<circ> snd) ` set ?rows"
        by (metis list.set_map)+
    qed
    then show ?thesis by (auto simp: values_fit_def triple_fits_def i_def)
  qed
  have iok: "round_ok i" using ne len by (simp add: round_ok_def i_def)
  note F = fenced_round_succeeds [OF reach iok f]
  have run: "prepare_staged ops junk chk ev block_size page_size d b ?s ?m =
     res_bind (stage_plan junk chk ev (ri_rids i) (ri_committed i) (ri_cur i) (ri_nxt i) (ri_needed i) ?s ?m) (\<lambda>(s, m, host).
         res_bind (po_alloc ops ?rs ?pool (read_view m (hr_cur host)) (read_view m (hr_nxt host)) needed) (\<lambda>pool.
         Inr (d\<lparr>d_max_top_k := fst (top_k_scan ?rs), d_uniform_top_k := snd (top_k_scan ?rs), d_nxt_kv_lens := Some (View (hr_nxt host)), d_nxt_kv_lens_sum := Some (sum_list nxt)\<rparr>,
              b\<lparr>pb_reqs := map bump ?rs, pb_pool := pool, pb_seq_lens_cpu := View (hr_seq host), pb_seq_lens_sum := sum_list (map q_committed ?rs)\<rparr>, s, m)))"
    unfolding prepare_staged_def Let_def using ne True by (cases "top_k_scan ?rs") (simp add: L i_def cong: if_cong)
  show ?thesis
  proof (cases "values_fit i")
    case False
    then have "prepare_staged ops junk chk ev block_size page_size d b ?s ?m = Inl RuntimeError" unfolding run using F(2) by simp
    moreover have "round_spec ops block_size page_size b = Inl RuntimeError" using True False [unfolded fit] L by (auto simp: round_spec_def ensure_def Let_def)
    ultimately show ?thesis by simp
  next
    case fits: True
    then obtain s' m' h where st: "stage_plan junk chk ev (ri_rids i) (ri_committed i) (ri_cur i) (ri_nxt i) (ri_needed i) ?s ?m = Inr (s', m', h)"
      using F(1) by auto
    have inv: "plan_inv chk ev True S" by (rule reach_inv [OF reach]) simp
    have "plan_inv chk ev True (plan_after S i s' m' h)" by (rule round_keeps_inv [OF inv _ iok _ st]) (use f in simp_all)
    then have seen: "dm_seen (drain m') = dm_seen (drain ?m) @ (if needed > 0 then [(cur, nxt)] else [])" and "rows_intact m' (h, i)"
      using inv by (simp_all add: plan_inv_def plan_after_def Let_def i_def rows_kept_def numeral_2_eq_2)
    then have reads: "read_view m' (hr_seq h) = map q_committed ?rs" "read_view m' (hr_cur h) = cur" "read_view m' (hr_nxt h) = nxt"
      by (simp_all add: rows_intact_def i_def)
    show ?thesis unfolding run st using True fits [unfolded fit] L seen
      by (cases "po_alloc ops ?rs ?pool cur nxt needed") (simp_all add: round_spec_def ensure_def Let_def round_result_def t_read_def reads)
  qed
qed

text \<open>C25. Staging changes nothing but the copies: under the fence of the overlap loop, a round on the
  staged path and a round on the legacy path with a fresh draft input fail with the same error or
  leave the same requests, pool, seeds, planned lengths and top-k summary, and show the allocation
  kernel the same rows.\<close>

theorem staged_round_matches_legacy:
  assumes ops: "ops_ok ops" and ne: "pb_reqs b \<noteq> []"
    and staged: "plan_reach junk chk ev True S" "ps_before S \<le> completed (ps_mem S)"
    and legacy: "d_bufs d = fresh_bufs" "\<And>k. length (junk k) = k"
      "\<forall>op \<in> set (dm_queue m). \<forall>a \<in> op_srcs op \<union> op_dsts op. a < length (dm_bufs m)"
  shows "case (prepare_staged ops junk chk ev block_size page_size d' b (ps_st S) (ps_mem S), prepare_legacy ops junk block_size page_size d b m) of
      (Inl e, Inl e') \<Rightarrow> e = e'
    | (Inr (d1, b1, s1, m1), Inr (d2, b2, m2)) \<Rightarrow> round_result m1 d1 b1 = round_result m2 d2 b2
        \<and> (\<exists>seen. dm_seen (drain m1) = dm_seen (drain (ps_mem S)) @ seen \<and> dm_seen (drain m2) = dm_seen (drain m) @ seen)
    | _ \<Rightarrow> False"
  using staged_round_spec [OF ops ne staged, of block_size page_size d'] legacy_round_spec [OF ops ne legacy, of block_size page_size]
  by (auto split: sum.splits)

definition demo_plan_ops :: "unit plan_ops" where
  "demo_plan_ops = \<lparr>po_evict = (\<lambda>_ p. p), po_lens = (\<lambda>rs _ r _. (map q_committed rs, map (\<lambda>q. q_committed q + r) rs, r)), po_alloc = (\<lambda>_ p _ _ _. Inr p)\<rparr>"

definition demo_plan_batch :: "unit plan_batch" where
  "demo_plan_batch = \<lparr>pb_reqs = [\<lparr>q_rid = ''a'', q_committed = 5, q_top_k = 3, q_decode_batch_idx = 0\<rparr>], pb_pool = (), pb_seq_lens_cpu = Own [], pb_seq_lens_sum = 0\<rparr>"

lemma staged_round_matches_legacy_witness:
  "case (prepare_staged demo_plan_ops (\<lambda>n. replicate n 0) False False 4 64 (create_idle_input :: unit draft) demo_plan_batch staging_init dmem_init,
         prepare_legacy demo_plan_ops (\<lambda>n. replicate n 0) 4 64 (create_idle_input :: unit draft) demo_plan_batch dmem_init) of
      (Inl e, Inl e') \<Rightarrow> e = e'
    | (Inr (d1, b1, s1, m1), Inr (d2, b2, m2)) \<Rightarrow> round_result m1 d1 b1 = round_result m2 d2 b2
        \<and> (\<exists>seen. dm_seen (drain m1) = dm_seen (drain dmem_init) @ seen \<and> dm_seen (drain m2) = dm_seen (drain dmem_init) @ seen)
    | _ \<Rightarrow> False"
proof -
  have ops: "ops_ok demo_plan_ops" by (simp add: ops_ok_def demo_plan_ops_def)
  have reach: "plan_reach (\<lambda>n. replicate n 0) False False True plan_init" by (rule plan_reach.start)
  have ps: "ps_st plan_init = staging_init" "ps_mem plan_init = dmem_init" by (simp_all add: plan_init_def)
  show ?thesis
    by (rule staged_round_matches_legacy [OF ops _ reach, unfolded ps])
      (simp_all add: demo_plan_batch_def plan_init_def dmem_init_def create_idle_input_def fresh_bufs_def)
qed

end
