(* ===== verification/SpecRows.thy ===== *)
theory SpecRows
  imports ScheduleBatch PlanRound
begin

text \<open>
  Speculation info and batch: what a batch relies on when it filters and merges its \<open>spec_info\<close> along
  with its own arrays, and the draft input of theory PlanRound as a provider of it.
\<close>

section \<open>The contract\<close>

text \<open>An info object has a row per request; keeping indices picks rows, joining appends them.\<close>

locale row_info =
  fixes rows :: "'p \<Rightarrow> 'r list" and ok :: "'p \<Rightarrow> bool"
    and keep :: "nat list \<Rightarrow> 'p \<Rightarrow> 'p" and join :: "'p \<Rightarrow> 'p \<Rightarrow> 'p"
  assumes keep: "ok p \<Longrightarrow> set ks \<subseteq> {..<length (rows p)} \<Longrightarrow> ok (keep ks p) \<and> rows (keep ks p) = map ((!) (rows p)) ks"
    and join: "ok p \<Longrightarrow> ok q \<Longrightarrow> ok (join p q) \<and> rows (join p q) = rows p @ rows q"
begin

text \<open>The rows of the info are those of the requests, under some labelling of the requests by rows.\<close>

definition attached :: "(sreq \<Rightarrow> 'r) \<Rightarrow> ('s, 'p) sbatch \<Rightarrow> bool" where
  "attached lbl b \<longleftrightarrow> (\<exists>p. b_spec b = Some p \<and> ok p \<and> rows p = map lbl (b_reqs b))"

lemma filter_attached:
  assumes "attached lbl b" "filter_batch sfilter keep encdec exclude ki b = Inr b'" "b_reqs b' \<noteq> []"
    and "keeps (kept exclude ki (b_reqs b)) (length (b_reqs b))"
  shows "attached lbl b'"
proof -
  let ?ks = "kept exclude ki (b_reqs b)"
  obtain p where p: "b_spec b = Some p" "ok p" "rows p = map lbl (b_reqs b)" using assms(1) by (auto simp: attached_def)
  have ks: "set ?ks \<subseteq> {..<length (b_reqs b)}" using assms(4) by (auto simp: keeps_def)
  show ?thesis
  proof (cases "length ?ks = length (b_reqs b)")
    case True
    then show ?thesis using assms(1-3) by (auto simp: filter_batch_def Let_def split: if_splits)
  next
    case False
    have "?ks \<noteq> []" using assms(2,3) by (auto simp: filter_batch_def Let_def)
    then have "b_spec b' = Some (keep ?ks p)" "b_reqs b' = map ((!) (b_reqs b)) ?ks"
      using assms(2) False p(1) pick_eq [OF ks] by (auto simp: filter_batch_def Let_def res_bind_Inr)
    then show ?thesis using keep [OF p(2), of ?ks] ks p(3) by (simp add: attached_def map_nth_map)
  qed
qed

lemma merge_attached:
  assumes "attached lbl a" "attached lbl b" "merge_batch smerge join encdec a b = Inr c"
  shows "attached lbl c"
proof -
  obtain p q where "b_spec a = Some p" "ok p" "rows p = map lbl (b_reqs a)" "b_spec b = Some q" "ok q" "rows q = map lbl (b_reqs b)"
    using assms(1,2) by (auto simp: attached_def)
  then show ?thesis using assms(3) join [of p q] by (auto simp: merge_batch_def res_bind_Inr res_map_def attached_def)
qed

end

section \<open>The draft input provides it\<close>

datatype 'x draft_row = Future int | Row 'x 'x int int 'x

definition main_rows :: "'x draft \<Rightarrow> 'x draft_row list" where
  "main_rows d = (case d_future_indices d of Some f \<Rightarrow> map Future f
     | None \<Rightarrow> map (\<lambda>i. Row (d_topk_p d ! i) (d_topk_index d ! i) (d_bonus_tokens d ! i) (d_new_seq_lens d ! i) (d_hidden_states d ! i))
         [0..<length (d_bonus_tokens d)])"

definition nxt_rows :: "dmem \<Rightarrow> 'x draft \<Rightarrow> int list option" where
  "nxt_rows m d = map_option (t_read m) (d_nxt_kv_lens d)"

definition draft_rows :: "dmem \<Rightarrow> 'x draft \<Rightarrow> ('x draft_row \<times> int option) list" where
  "draft_rows m d = zip (main_rows d) (case nxt_rows m d of None \<Rightarrow> replicate (length (main_rows d)) None | Some xs \<Rightarrow> map Some xs)"

text \<open>Every array of the draft input in use has a row per request; \<open>future\<close> and \<open>lens\<close> say whether the
  relayed indices and the planned lengths are present, which is the same for drafts that meet.\<close>

definition draft_ok :: "dmem \<Rightarrow> bool \<Rightarrow> bool \<Rightarrow> 'x draft \<Rightarrow> bool" where
  "draft_ok m future lens d \<longleftrightarrow> (d_future_indices d \<noteq> None) = future \<and> (d_nxt_kv_lens d \<noteq> None) = lens
     \<and> (\<not> future \<longrightarrow> length (d_topk_p d) = length (d_bonus_tokens d) \<and> length (d_topk_index d) = length (d_bonus_tokens d)
          \<and> length (d_new_seq_lens d) = length (d_bonus_tokens d) \<and> length (d_hidden_states d) = length (d_bonus_tokens d))
     \<and> (\<forall>xs. nxt_rows m d = Some xs \<longrightarrow> length xs = length (main_rows d) \<and> d_nxt_kv_lens_sum d = Some (sum_list xs))"

definition keep_draft :: "dmem \<Rightarrow> nat list \<Rightarrow> 'x draft \<Rightarrow> 'x draft" where
  "keep_draft m ks d = projr (filter_draft m (map int ks) (Some (map int ks)) d)"

definition join_draft :: "dmem \<Rightarrow> 'x draft \<Rightarrow> 'x draft \<Rightarrow> 'x draft" where
  "join_draft m d e = projr (merge_draft m d e)"

lemma index_rows_pick: "set ks \<subseteq> {..<length xs} \<Longrightarrow> index_rows xs (map int ks) = Inr (map ((!) xs) ks)"
proof -
  have "res_list (py_get xs) (map int ks) = Inr (map ((!) xs) ks)" if "\<forall>k \<in> set ks. k < length xs"
    using that by (induction ks) (simp_all add: py_get_nonneg res_map_def)
  then show "set ks \<subseteq> {..<length xs} \<Longrightarrow> ?thesis" by (auto simp: index_rows_def)
qed

lemma length_draft_rows: "draft_ok m f g d \<Longrightarrow> length (draft_rows m d) = length (main_rows d)"
  by (auto simp: draft_rows_def draft_ok_def split: option.split)

lemma t_read_Own [simp]: "t_read m (Own xs) = xs"
  by (simp add: t_read_def)

lemma filter_draft_rows:
  assumes ok: "draft_ok m f g d" and ks: "set ks \<subseteq> {..<length (draft_rows m d)}"
    and cpu: "cpu = None \<or> cpu = Some (map int ks)"
  shows "\<exists>d'. filter_draft m (map int ks) cpu d = Inr d' \<and> draft_ok m f g d' \<and> draft_rows m d' = map ((!) (draft_rows m d)) ks"
proof -
  have idx: "(case cpu of Some c \<Rightarrow> c | None \<Rightarrow> map int ks) = map int ks" using cpu by auto
  have ks': "set ks \<subseteq> {..<length (main_rows d)}" using ks length_draft_rows [OF ok] by simp
  let ?main = "map ((!) (main_rows d)) ks"
  obtain d1 where d1: "(case d_nxt_kv_lens d of None \<Rightarrow> Inr d
       | Some t \<Rightarrow> res_map (\<lambda>xs. d\<lparr>d_nxt_kv_lens := Some (Own xs), d_nxt_kv_lens_sum := Some (sum_list xs)\<rparr>)
           (index_rows (t_read m t) (map int ks))) = Inr d1"
    and n1: "nxt_rows m d1 = map_option (\<lambda>xs. map ((!) xs) ks) (nxt_rows m d)" "d_nxt_kv_lens_sum d1 = (case nxt_rows m d of None \<Rightarrow> d_nxt_kv_lens_sum d | Some xs \<Rightarrow> Some (sum_list (map ((!) xs) ks)))"
    and same: "d_future_indices d1 = d_future_indices d" "d_topk_p d1 = d_topk_p d" "d_topk_index d1 = d_topk_index d" "d_bonus_tokens d1 = d_bonus_tokens d"
      "d_new_seq_lens d1 = d_new_seq_lens d" "d_hidden_states d1 = d_hidden_states d"
  proof (cases "d_nxt_kv_lens d")
    case (Some t)
    then have "set ks \<subseteq> {..<length (t_read m t)}" using ok ks' by (simp add: draft_ok_def nxt_rows_def)
    from index_rows_pick [OF this] Some that show ?thesis by (simp add: res_map_def nxt_rows_def)
  qed (use that in \<open>simp add: nxt_rows_def\<close>)
  have fin: ?thesis if d': "filter_draft m (map int ks) cpu d = Inr d'" "main_rows d' = ?main" "nxt_rows m d' = nxt_rows m d1"
      "d_nxt_kv_lens_sum d' = d_nxt_kv_lens_sum d1" "(d_future_indices d' \<noteq> None) = f"
      "\<not> f \<Longrightarrow> length (d_topk_p d') = length (d_bonus_tokens d') \<and> length (d_topk_index d') = length (d_bonus_tokens d')
          \<and> length (d_new_seq_lens d') = length (d_bonus_tokens d') \<and> length (d_hidden_states d') = length (d_bonus_tokens d')" for d'
  proof (intro exI conjI)
    show "filter_draft m (map int ks) cpu d = Inr d'" by (rule d'(1))
    have g: "(nxt_rows m d \<noteq> None) = g" using ok by (simp add: draft_ok_def nxt_rows_def)
    have "(nxt_rows m d' \<noteq> None) = g" using d'(3) n1(1) g by simp
    then have "(d_nxt_kv_lens d' \<noteq> None) = g" by (simp add: nxt_rows_def)
    then show "draft_ok m f g d'" unfolding draft_ok_def using d' n1 by (auto simp: d'(2-5))
    have k: "ks ! i < length (main_rows d)" if "i < length ks" for i using ks' nth_mem [OF that] by auto
    show "draft_rows m d' = map ((!) (draft_rows m d)) ks"
    proof (cases "nxt_rows m d")
      case None
      then show ?thesis using k by (simp add: draft_rows_def d' n1 list_eq_iff_nth_eq)
    next
      case (Some xs)
      then have "length xs = length (main_rows d)" using ok by (simp add: draft_ok_def)
      then show ?thesis using k Some by (simp add: draft_rows_def d' n1 list_eq_iff_nth_eq)
    qed
  qed
  show ?thesis
  proof (cases "d_future_indices d")
    case (Some fs)
    then have k: "set ks \<subseteq> {..<length fs}" using ks' by (simp add: main_rows_def)
    from index_rows_pick [OF this]
    have "filter_draft m (map int ks) cpu d = Inr (d1\<lparr>d_future_indices := Some (map ((!) fs) ks)\<rparr>)"
      unfolding filter_draft_def idx d1 using same Some by (simp add: res_map_def)
    then show ?thesis
    proof (rule fin)
      show "main_rows (d1\<lparr>d_future_indices := Some (map ((!) fs) ks)\<rparr>) = ?main"
        using Some k by (simp add: main_rows_def map_nth_map)
      show "(d_future_indices (d1\<lparr>d_future_indices := Some (map ((!) fs) ks)\<rparr>) \<noteq> None) = f" and "\<And>P. \<not> f \<Longrightarrow> P"
        using Some ok by (simp_all add: draft_ok_def)
    qed (simp_all add: nxt_rows_def)
  next
    case None
    let ?n = "length (d_bonus_tokens d)"
    have f: "\<not> f" using ok None by (simp add: draft_ok_def)
    then have len: "length (d_topk_p d) = ?n" "length (d_topk_index d) = ?n" "length (d_new_seq_lens d) = ?n" "length (d_hidden_states d) = ?n"
      using ok by (simp_all add: draft_ok_def)
    have k: "set ks \<subseteq> {..<?n}" using ks' None by (simp add: main_rows_def)
    note P = index_rows_pick [of ks "d_topk_p d"] index_rows_pick [of ks "d_topk_index d"] index_rows_pick [of ks "d_bonus_tokens d"]
      index_rows_pick [of ks "d_new_seq_lens d"] index_rows_pick [of ks "d_hidden_states d"]
    have "filter_draft m (map int ks) cpu d = Inr (d1\<lparr>d_topk_p := map ((!) (d_topk_p d)) ks, d_topk_index := map ((!) (d_topk_index d)) ks,
        d_bonus_tokens := map ((!) (d_bonus_tokens d)) ks, d_new_seq_lens := map ((!) (d_new_seq_lens d)) ks, d_hidden_states := map ((!) (d_hidden_states d)) ks\<rparr>)"
      unfolding filter_draft_def idx d1 using same None P k len by simp
    moreover have "ks ! i < ?n" if "i < length ks" for i using k nth_mem [OF that] by auto
    then have "main_rows (d1\<lparr>d_topk_p := map ((!) (d_topk_p d)) ks, d_topk_index := map ((!) (d_topk_index d)) ks,
        d_bonus_tokens := map ((!) (d_bonus_tokens d)) ks, d_new_seq_lens := map ((!) (d_new_seq_lens d)) ks, d_hidden_states := map ((!) (d_hidden_states d)) ks\<rparr>) = ?main"
      by (intro nth_equalityI) (simp_all add: main_rows_def same None)
    ultimately show ?thesis by (rule fin) (use None f in \<open>simp_all add: nxt_rows_def same\<close>)
  qed
qed

lemma merge_draft_rows:
  assumes ok: "draft_ok m f g d" "draft_ok m f g e"
  shows "\<exists>c. merge_draft m d e = Inr c \<and> draft_ok m f g c \<and> draft_rows m c = draft_rows m d @ draft_rows m e"
proof -
  have main: "length (main_rows d) = (case nxt_rows m d of None \<Rightarrow> length (main_rows d) | Some xs \<Rightarrow> length xs)"
    using ok(1) by (auto simp: draft_ok_def split: option.split)
  have nxt: "(d_nxt_kv_lens d = None) = (d_nxt_kv_lens e = None)" "(d_future_indices d = None) = (d_future_indices e = None)"
    using ok by (auto simp: draft_ok_def)
  obtain d1 where d1: "(case d_nxt_kv_lens d of
         Some t \<Rightarrow> (case d_nxt_kv_lens e of None \<Rightarrow> Inl AssertionError
           | Some u \<Rightarrow> let xs = t_read m t @ t_read m u
                       in Inr (d\<lparr>d_nxt_kv_lens := Some (Own xs), d_nxt_kv_lens_sum := Some (sum_list xs)\<rparr>))
       | None \<Rightarrow> (case d_nxt_kv_lens e of None \<Rightarrow> Inr d
           | Some u \<Rightarrow> Inr (d\<lparr>d_nxt_kv_lens := Some u, d_nxt_kv_lens_sum := d_nxt_kv_lens_sum e\<rparr>))) = Inr d1"
    and n1: "nxt_rows m d1 = (case (nxt_rows m d, nxt_rows m e) of (Some x, Some y) \<Rightarrow> Some (x @ y) | _ \<Rightarrow> None)"
      "\<And>xs. nxt_rows m d1 = Some xs \<Longrightarrow> d_nxt_kv_lens_sum d1 = Some (sum_list xs)"
    and same: "d_future_indices d1 = d_future_indices d" "d_topk_p d1 = d_topk_p d" "d_topk_index d1 = d_topk_index d" "d_bonus_tokens d1 = d_bonus_tokens d"
      "d_new_seq_lens d1 = d_new_seq_lens d" "d_hidden_states d1 = d_hidden_states d"
  proof (cases "d_nxt_kv_lens d")
    case None
    then show ?thesis using nxt(1) by (intro that [of d]) (simp_all add: nxt_rows_def)
  next
    case (Some t)
    then obtain u where "d_nxt_kv_lens e = Some u" using nxt(1) by auto
    then show ?thesis using Some
      by (intro that [of "d\<lparr>d_nxt_kv_lens := Some (Own (t_read m t @ t_read m u)), d_nxt_kv_lens_sum := Some (sum_list (t_read m t @ t_read m u))\<rparr>"])
        (simp_all add: nxt_rows_def)
  qed
  have fin: ?thesis if c: "merge_draft m d e = Inr c" "main_rows c = main_rows d @ main_rows e" "nxt_rows m c = nxt_rows m d1"
      "d_nxt_kv_lens_sum c = d_nxt_kv_lens_sum d1" "(d_future_indices c \<noteq> None) = f"
      "\<not> f \<Longrightarrow> length (d_topk_p c) = length (d_bonus_tokens c) \<and> length (d_topk_index c) = length (d_bonus_tokens c)
          \<and> length (d_new_seq_lens c) = length (d_bonus_tokens c) \<and> length (d_hidden_states c) = length (d_bonus_tokens c)" for c
  proof (intro exI conjI)
    show "merge_draft m d e = Inr c" by (rule c(1))
    have gs: "(nxt_rows m d \<noteq> None) = g" "(nxt_rows m e \<noteq> None) = g" using ok by (simp_all add: draft_ok_def nxt_rows_def)
    have lens: "\<And>xs. nxt_rows m d = Some xs \<Longrightarrow> length xs = length (main_rows d)" "\<And>xs. nxt_rows m e = Some xs \<Longrightarrow> length xs = length (main_rows e)"
      using ok by (simp_all add: draft_ok_def)
    have "(nxt_rows m c \<noteq> None) = g" unfolding c(3) n1(1) using gs by (cases "nxt_rows m d"; cases "nxt_rows m e") auto
    then have "(d_nxt_kv_lens c \<noteq> None) = g" by (simp add: nxt_rows_def)
    moreover have "length xs = length (main_rows c)" if "nxt_rows m c = Some xs" for xs
      using that lens unfolding c(2,3) n1(1) by (auto split: option.splits)
    ultimately show "draft_ok m f g c" unfolding draft_ok_def using c(4-6) n1(2) c(3) by simp
    show "draft_rows m c = draft_rows m d @ draft_rows m e"
      unfolding draft_rows_def c(2,3) n1(1) using gs lens
      by (cases "nxt_rows m d"; cases "nxt_rows m e") (auto simp: replicate_add)
  qed
  show ?thesis
  proof (cases "d_future_indices d")
    case (Some fs)
    then obtain hs where "d_future_indices e = Some hs" using nxt(2) by auto
    then have "merge_draft m d e = Inr (d1\<lparr>d_future_indices := Some (fs @ hs)\<rparr>)"
      unfolding merge_draft_def d1 using same Some by simp
    then show ?thesis
      by (rule fin) (use Some \<open>d_future_indices e = Some hs\<close> ok in \<open>simp_all add: main_rows_def nxt_rows_def draft_ok_def\<close>)
  next
    case None
    then have f: "\<not> f" and e: "d_future_indices e = None" using ok nxt(2) by (auto simp: draft_ok_def)
    let ?c = "d1\<lparr>d_topk_p := d_topk_p d @ d_topk_p e, d_topk_index := d_topk_index d @ d_topk_index e,
           d_bonus_tokens := d_bonus_tokens d @ d_bonus_tokens e, d_new_seq_lens := d_new_seq_lens d @ d_new_seq_lens e,
           d_hidden_states := d_hidden_states d @ d_hidden_states e\<rparr>"
    have "merge_draft m d e = Inr ?c"
      unfolding merge_draft_def d1 using same None by simp
    moreover have ld: "length (d_topk_p d) = length (d_bonus_tokens d)" "length (d_topk_index d) = length (d_bonus_tokens d)"
        "length (d_new_seq_lens d) = length (d_bonus_tokens d)" "length (d_hidden_states d) = length (d_bonus_tokens d)"
      and le: "length (d_topk_p e) = length (d_bonus_tokens e)" "length (d_topk_index e) = length (d_bonus_tokens e)"
        "length (d_new_seq_lens e) = length (d_bonus_tokens e)" "length (d_hidden_states e) = length (d_bonus_tokens e)"
      using ok f by (simp_all add: draft_ok_def)
    have "main_rows ?c = main_rows d @ main_rows e"
      by (rule nth_equalityI) (auto simp: main_rows_def same None e ld le nth_append not_less less_diff_conv2 add.commute)
    ultimately show ?thesis by (intro fin [of ?c]) (use None f ld le in \<open>simp_all add: nxt_rows_def same\<close>)
  qed
qed

interpretation draft_info: row_info "draft_rows m" "draft_ok m f g" "keep_draft m" "join_draft m" for m f g
proof
  show "draft_ok m f g (keep_draft m ks d) \<and> draft_rows m (keep_draft m ks d) = map ((!) (draft_rows m d)) ks"
    if "draft_ok m f g d" "set ks \<subseteq> {..<length (draft_rows m d)}" for d :: "'x draft" and ks
    using filter_draft_rows [OF that, of "Some (map int ks)"] by (auto simp: keep_draft_def)
  show "draft_ok m f g (join_draft m d e) \<and> draft_rows m (join_draft m d e) = draft_rows m d @ draft_rows m e"
    if "draft_ok m f g d" "draft_ok m f g e" for d e :: "'x draft"
    using merge_draft_rows [OF that] by (auto simp: join_draft_def)
qed

text \<open>The draft input of a batch is in step with its requests.\<close>

definition drafts_attached :: "dmem \<Rightarrow> bool \<Rightarrow> bool \<Rightarrow> (sreq \<Rightarrow> 'x draft_row \<times> int option) \<Rightarrow> ('s, 'x draft) sbatch \<Rightarrow> bool" where
  "drafts_attached m f g lbl b \<longleftrightarrow> (\<exists>d. b_spec b = Some d \<and> draft_ok m f g d \<and> draft_rows m d = map lbl (b_reqs b))"

text \<open>C26. Draft rows follow their requests: filtering a batch and merging another into it leaves the draft
  input with exactly the rows of the requests that are now in the batch, in their order; the sum of
  the planned lengths is that of the rows that remain, and neither operation of the draft input raises.\<close>

theorem draft_rows_follow_requests:
  fixes a b a' c :: "('s, 'x draft) sbatch"
  assumes "drafts_attached m f g lbl a" "drafts_attached m f g lbl b"
    and "filter_batch sfilter (keep_draft m) encdec exclude ki a = Inr a'" "b_reqs a' \<noteq> []"
    and "keeps (kept exclude ki (b_reqs a)) (length (b_reqs a))"
    and "merge_batch smerge (join_draft m) encdec a' b = Inr c"
  shows "drafts_attached m f g lbl a' \<and> drafts_attached m f g lbl c
     \<and> (\<exists>d. b_spec c = Some d \<and> draft_rows m d = map lbl (b_reqs a' @ b_reqs b)
          \<and> (g \<longrightarrow> d_nxt_kv_lens_sum d = Some (sum_list (map (the \<circ> snd \<circ> lbl) (b_reqs a' @ b_reqs b)))))"
proof -
  have att: "drafts_attached m f g lbl b \<longleftrightarrow> draft_info.attached m f g lbl b" for b :: "('s, 'x draft) sbatch"
    by (simp add: drafts_attached_def draft_info.attached_def)
  have a': "drafts_attached m f g lbl a'"
    using draft_info.filter_attached [OF assms(1) [unfolded att] assms(3-5)] by (simp add: att)
  have c: "drafts_attached m f g lbl c"
    using draft_info.merge_attached [OF a' [unfolded att] assms(2) [unfolded att] assms(6)] by (simp add: att)
  have reqs: "b_reqs c = b_reqs a' @ b_reqs b" using assms(6) by (auto simp: merge_batch_def res_bind_Inr)
  obtain d where d: "b_spec c = Some d" "draft_ok m f g d" "draft_rows m d = map lbl (b_reqs c)" using c by (auto simp: drafts_attached_def)
  have "d_nxt_kv_lens_sum d = Some (sum_list (map (the \<circ> snd \<circ> lbl) (b_reqs c)))" if lens: g
  proof -
    obtain xs where xs: "nxt_rows m d = Some xs" "length xs = length (main_rows d)" "d_nxt_kv_lens_sum d = Some (sum_list xs)"
      using d(2) lens by (auto simp: draft_ok_def nxt_rows_def)
    have "map (the \<circ> snd) (draft_rows m d) = xs" using xs by (simp add: draft_rows_def list_eq_iff_nth_eq)
    then show ?thesis using d(3) xs(3) by (metis map_map)
  qed
  then show ?thesis using a' c d reqs by auto
qed

section \<open>A batch of two drafting requests\<close>

definition demo_draft :: "unit draft" where
  "demo_draft = create_idle_input\<lparr>d_nxt_kv_lens := Some (Own [5, 6]), d_nxt_kv_lens_sum := Some 11, d_future_indices := Some [10, 11]\<rparr>"

definition demo_spec_batch :: "(sreq list, unit draft) sbatch" where
  "demo_spec_batch = (init_new demo_rows)\<lparr>b_pool := [3, 4], b_pool_cpu := [3, 4], b_seq_lens := [5, 6], b_orig_lens := [5, 6],
     b_multimodal := None, b_logprob := False, b_sampling := Some demo_rows, b_spec := Some demo_draft\<rparr>"

definition demo_label :: "sreq \<Rightarrow> unit draft_row \<times> int option" where
  "demo_label s = (if sq_id s = 0 then (Future 10, Some 5) else (Future 11, Some 6))"

definition demo_kept :: "(sreq list, unit draft) sbatch res" where
  "demo_kept = filter_batch demo_keep (keep_draft dmem_init) False [] (Some [0]) demo_spec_batch"

definition demo_joined :: "(sreq list, unit draft) sbatch res" where
  "demo_joined = res_bind demo_kept (\<lambda>a. merge_batch (@) (join_draft dmem_init) False a demo_spec_batch)"

lemma draft_rows_follow_requests_witness:
  "\<exists>c d. demo_joined = Inr c \<and> b_spec c = Some d \<and> d_nxt_kv_lens_sum d = Some 16 \<and> length (b_reqs c) = 3"
proof -
  have att: "drafts_attached dmem_init True True demo_label demo_spec_batch"
    unfolding drafts_attached_def
  proof (intro exI conjI)
    show "b_spec demo_spec_batch = Some demo_draft" by (simp add: demo_spec_batch_def)
    show "draft_ok dmem_init True True demo_draft"
      by (simp add: draft_ok_def demo_draft_def nxt_rows_def main_rows_def)
    show "draft_rows dmem_init demo_draft = map demo_label (b_reqs demo_spec_batch)" by code_simp
  qed
  have ids: "map sq_id (b_reqs demo_spec_batch) = [0, 1]" by code_simp
  have "map_option (map sq_id \<circ> b_reqs) (case demo_kept of Inr x \<Rightarrow> Some x | Inl _ \<Rightarrow> None) = Some [0]" by code_simp
  then obtain a' where a': "demo_kept = Inr a'" "map sq_id (b_reqs a') = [0]" by (auto split: sum.splits)
  have "(case demo_joined of Inr x \<Rightarrow> True | Inl _ \<Rightarrow> False)" by code_simp
  then obtain c where c: "demo_joined = Inr c" by (auto split: sum.splits)
  have mrg: "merge_batch (@) (join_draft dmem_init) False a' demo_spec_batch = Inr c" using c unfolding demo_joined_def a'(1) res_bind_simps .
  have ne: "b_reqs a' \<noteq> []" using a'(2) by auto
  have k: "keeps (kept [] (Some [0]) (b_reqs demo_spec_batch)) (length (b_reqs demo_spec_batch))"
    using arg_cong [OF ids, of length] by (simp add: keeps_def kept_def)
  obtain d where d: "b_spec c = Some d" "draft_rows dmem_init d = map demo_label (b_reqs a' @ b_reqs demo_spec_batch)"
    "d_nxt_kv_lens_sum d = Some (sum_list (map (the \<circ> snd \<circ> demo_label) (b_reqs a' @ b_reqs demo_spec_batch)))"
    using draft_rows_follow_requests [OF att att a'(1) [unfolded demo_kept_def] ne k mrg] by auto
  have "map (the \<circ> snd \<circ> demo_label) (b_reqs a') = [5]" using a'(2) by (auto simp: demo_label_def)
  moreover have "map (the \<circ> snd \<circ> demo_label) (b_reqs demo_spec_batch) = [5, 6]" by code_simp
  ultimately have "d_nxt_kv_lens_sum d = Some 16" using d(3) by simp
  moreover have "length (b_reqs c) = 3"
    using mrg arg_cong [OF ids, of length] arg_cong [OF a'(2), of length] by (auto simp: merge_batch_def res_bind_Inr)
  ultimately show ?thesis using c d(1) by blast
qed

end
