(* ===== verification/TpPad.thy ===== *)
theory TpPad
  imports Prelude
begin

text \<open>
  Tensor-parallel padding (\<open>adapter/tp3_pad.py\<close>): the configuration is padded so that heads, output
  groups, draft experts, vision heads and the vocabulary divide among the ranks, and the loaders copy
  the real slice of a checkpoint tensor and fill the rest.  A tensor is the list of its slices along
  the output dimension; the library's \<open>pad_or_narrow_weight\<close>, its original loaders and its vocabulary
  padding are parameters.
\<close>

section \<open>Settings\<close>

text \<open>\<open>_tp\<close> and \<open>enabled\<close>: the environment is a map, \<open>to_int\<close> is \<open>int\<close> on strings.\<close>

definition tp_size :: "(string \<Rightarrow> int res) \<Rightarrow> (string \<rightharpoonup> string) \<Rightarrow> int res" where
  "tp_size to_int env =
     to_int (case env ''TP_SIZE'' of Some s \<Rightarrow> s | None \<Rightarrow> (case env ''TP'' of Some s \<Rightarrow> s | None \<Rightarrow> ''3''))"

definition tp_pad_enabled :: "(string \<Rightarrow> int res) \<Rightarrow> (string \<rightharpoonup> string) \<Rightarrow> bool res" where
  "tp_pad_enabled to_int env =
     (if (case env ''DSV41_TP_PAD'' of Some s \<Rightarrow> s | None \<Rightarrow> ''1'') \<in> {''0'', ''false'', ''off''} then Inr False
      else res_map (\<lambda>tp. tp > 1) (tp_size to_int env))"

section \<open>The configuration\<close>

definition ceil_to :: "nat \<Rightarrow> nat \<Rightarrow> nat" where
  "ceil_to n d = (n + d - 1) div d * d"

definition legal_local :: "nat list" where
  "legal_local = [8, 16, 32, 64, 128]"

text \<open>The head and group counts; both zero when the configuration does not have them.\<close>

definition pad_heads :: "nat \<Rightarrow> nat \<Rightarrow> nat \<Rightarrow> nat \<times> nat" where
  "pad_heads tp heads groups =
     (let per = max (heads div groups) 1;
          (new_heads, new_groups) = (if heads mod tp \<noteq> 0 then (ceil_to groups tp * per, ceil_to groups tp) else (heads, groups));
          local = new_heads div tp
      in if local \<in> set legal_local then (new_heads, new_groups)
         else let target = (case find (\<lambda>h. h \<ge> local) legal_local of Some h \<Rightarrow> h | None \<Rightarrow> last legal_local);
                  new_heads = target * tp; new_groups = new_heads div per
              in if new_groups * per \<noteq> new_heads then (ceil_to new_groups tp * per, ceil_to new_groups tp)
                 else (new_heads, new_groups))"

text \<open>Attributes a configuration object may lack are options; \<open>getattr(..., 0) or 0\<close> reads them.\<close>

record text_cfg =
  tc_heads :: "nat option"
  tc_groups :: "nat option"
  tc_draft :: "nat option"

record vision_cfg =
  vc_attention_heads :: "nat option"
  vc_heads :: "nat option"

record hf_cfg =
  hf_text :: "text_cfg option"
  hf_self :: text_cfg
  hf_vision :: "vision_cfg option"

definition or0 :: "nat option \<Rightarrow> nat" where "or0 x = (case x of None \<Rightarrow> 0 | Some n \<Rightarrow> n)"

definition pad_text :: "nat \<Rightarrow> text_cfg \<Rightarrow> text_cfg" where
  "pad_text tp t =
     (let heads = or0 (tc_heads t); groups = or0 (tc_groups t); draft = or0 (tc_draft t);
          t = (if heads \<noteq> 0 \<and> groups \<noteq> 0 \<and> pad_heads tp heads groups \<noteq> (heads, groups)
               then t\<lparr>tc_groups := Some (snd (pad_heads tp heads groups)), tc_heads := Some (fst (pad_heads tp heads groups))\<rparr> else t)
      in if draft \<noteq> 0 \<and> draft mod tp \<noteq> 0 then t\<lparr>tc_draft := Some (ceil_to draft tp)\<rparr> else t)"

definition pad_vision :: "nat \<Rightarrow> vision_cfg \<Rightarrow> vision_cfg" where
  "pad_vision tp v =
     (let vh = (if or0 (vc_attention_heads v) \<noteq> 0 then or0 (vc_attention_heads v) else or0 (vc_heads v))
      in if vh \<noteq> 0 \<and> vh mod tp \<noteq> 0
         then \<lparr>vc_attention_heads = map_option (\<lambda>_. ceil_to vh tp) (vc_attention_heads v), vc_heads = map_option (\<lambda>_. ceil_to vh tp) (vc_heads v)\<rparr>
         else v)"

text \<open>\<open>text\<close> is the nested text configuration or the object itself; the heads of the outer object follow
  the nested ones when both have them.\<close>

definition pad_dsv41_hf_config :: "nat \<Rightarrow> hf_cfg \<Rightarrow> hf_cfg" where
  "pad_dsv41_hf_config tp hf =
     (let t = (case hf_text hf of Some t \<Rightarrow> t | None \<Rightarrow> hf_self hf);
          heads = or0 (tc_heads t); groups = or0 (tc_groups t); t' = pad_text tp t;
          hf = (case hf_text hf of Some _ \<Rightarrow> hf\<lparr>hf_text := Some t'\<rparr> | None \<Rightarrow> hf\<lparr>hf_self := t'\<rparr>);
          hf = (if heads \<noteq> 0 \<and> groups \<noteq> 0 \<and> pad_heads tp heads groups \<noteq> (heads, groups) \<and> tc_heads (hf_self hf) \<noteq> None
                then hf\<lparr>hf_self := (hf_self hf)\<lparr>tc_heads := Some (fst (pad_heads tp heads groups))\<rparr>\<rparr> else hf)
      in hf\<lparr>hf_vision := map_option (pad_vision tp) (hf_vision hf)\<rparr>)"

text \<open>\<open>ModelConfig.__init__\<close> as wrapped: the padding runs on the whole configuration and again on its text
  part, then the derived head counts follow.\<close>

record model_cfg =
  mc_hf :: hf_cfg
  mc_hf_text :: "text_cfg option"
  mc_heads :: "nat option"

definition sync_text :: "text_cfg \<Rightarrow> text_cfg \<Rightarrow> text_cfg \<times> bool" where
  "sync_text t x =
     (case tc_heads t of None \<Rightarrow> (x, False)
      | Some h \<Rightarrow> let x = x\<lparr>tc_heads := Some h\<rparr>
        in if tc_groups x = None then (x, True)
           else case tc_groups t of None \<Rightarrow> (x, False) | Some g \<Rightarrow> (x\<lparr>tc_groups := Some g\<rparr>, True))"

text \<open>A missing attribute ends the update with a logged exception; what was set before stays.\<close>

definition config_pad :: "nat \<Rightarrow> model_cfg \<Rightarrow> model_cfg" where
  "config_pad tp mc =
     (let hf = pad_dsv41_hf_config tp (mc_hf mc); mc = mc\<lparr>mc_hf := hf\<rparr>
      in case hf_text hf of None \<Rightarrow> mc
         | Some t \<Rightarrow>
           let t = pad_text tp t; mc = mc\<lparr>mc_hf := hf\<lparr>hf_text := Some t\<rparr>\<rparr>;
               (mc, ok) = (case mc_hf_text mc of None \<Rightarrow> (mc, True)
                  | Some x \<Rightarrow> (mc\<lparr>mc_hf_text := Some (fst (sync_text t x))\<rparr>, snd (sync_text t x)))
           in case (mc_heads mc, tc_heads t) of (Some _, Some h) \<Rightarrow> if ok then mc\<lparr>mc_heads := Some h\<rparr> else mc
              | _ \<Rightarrow> mc)"

definition pad_vocab_size :: "(nat \<Rightarrow> nat \<Rightarrow> nat) \<Rightarrow> nat \<Rightarrow> nat \<Rightarrow> nat \<Rightarrow> nat" where
  "pad_vocab_size orig tp vocab_size pad_to = orig vocab_size (if tp > 1 then lcm pad_to tp else pad_to)"

section \<open>The loaders\<close>

text \<open>\<open>scale\<close>: the tensor is fp32, a block scale.  \<open>one\<close> and \<open>zero\<close> are constant slices.\<close>

record 'v slices =
  sl_zero :: 'v
  sl_one :: 'v
  sl_pad_or_narrow :: "'v list \<Rightarrow> nat \<Rightarrow> nat \<Rightarrow> 'v list"

definition pad_fill :: "'v slices \<Rightarrow> bool \<Rightarrow> 'v" where
  "pad_fill F scale = (if scale then sl_one F else sl_zero F)"

definition load_column_parallel_weight :: "'v slices \<Rightarrow> ('v list \<Rightarrow> 'v list \<Rightarrow> nat \<Rightarrow> bool \<Rightarrow> 'v list res) \<Rightarrow> bool \<Rightarrow> bool
    \<Rightarrow> 'v list \<Rightarrow> 'v list \<Rightarrow> nat \<Rightarrow> bool \<Rightarrow> 'v list res" where
  "load_column_parallel_weight F orig scale loaded_scale data loaded rank presharded =
     (if presharded then orig data loaded rank presharded
      else let shard = length data; start = rank * shard; stop = start + shard;
               w = (if stop > length loaded \<or> start \<ge> length loaded
                    then let real = length loaded - start; w = sl_pad_or_narrow F loaded start shard
                         in if loaded_scale \<and> real < length w then take real w @ replicate (length w - real) (sl_one F) else w
                    else take shard (drop start loaded))
           in if length data \<noteq> length w
              then let k = min (length data) (length w) in Inr (take k w @ replicate (length data - k) (pad_fill F scale))
              else Inr w)"

definition column_weight_loader :: "'v slices \<Rightarrow> ('v list \<Rightarrow> 'v list \<Rightarrow> 'v list res) \<Rightarrow> bool \<Rightarrow> bool \<Rightarrow> bool
    \<Rightarrow> 'v list \<Rightarrow> 'v list \<Rightarrow> nat \<Rightarrow> 'v list res" where
  "column_weight_loader F orig applies presharded loaded_scale data loaded rank =
     (if applies \<and> \<not> presharded
      then let shard = length data; start = rank * shard; stop = start + shard
           in if stop > length loaded
              then let real = int (length loaded) - int start; w = sl_pad_or_narrow F loaded start shard;
                       w = (if loaded_scale \<and> 0 \<le> real \<and> real < int shard
                            then take (nat real) w @ replicate (shard - nat real) (sl_one F) else w)
                   in if length data = length w then Inr w else orig data w
              else orig data loaded
      else orig data loaded)"

text \<open>The default loader falls back to copying the overlap into zeros; a matrix is a list of rows.\<close>

definition default_weight_loader :: "('a list list \<Rightarrow> 'a list list \<Rightarrow> 'a list list res) \<Rightarrow> 'a \<Rightarrow> 'a list list \<Rightarrow> 'a list list \<Rightarrow> 'a list list res" where
  "default_weight_loader orig zero data loaded =
     (case orig data loaded of
        Inl AssertionError \<Rightarrow>
          let z = map (map (\<lambda>_. zero)) data
          in if concat loaded = [] then Inr z
             else Inr (map (\<lambda>i. if i < length loaded
                                then take (min (length (z ! i)) (length (loaded ! i))) (loaded ! i) @ drop (length (loaded ! i)) (z ! i)
                                else z ! i) [0..<length z])
      | r \<Rightarrow> r)"

section \<open>Padding the heads\<close>

lemma ceil_to_props:
  assumes "0 < d"
  shows "n \<le> ceil_to n d" "d dvd ceil_to n d" "ceil_to n d < n + d" "d dvd m \<Longrightarrow> n \<le> m \<Longrightarrow> ceil_to n d \<le> m" "d dvd n \<Longrightarrow> ceil_to n d = n"
proof -
  show "n \<le> ceil_to n d" using dividend_less_div_times [OF assms, of "n + d - 1"] assms by (simp add: ceil_to_def)
  show "d dvd ceil_to n d" by (simp add: ceil_to_def)
  have "(n + d - 1) div d * d \<le> n + d - 1" by simp
  then show lt: "ceil_to n d < n + d" using assms unfolding ceil_to_def by linarith
  show le: "ceil_to n d \<le> m" if m: "d dvd m" "n \<le> m" for m
  proof -
    obtain k where k: "m = d * k" using m(1) by blast
    have "(n + d - 1) div d < Suc k" using m(2) assms by (simp add: k div_less_iff_less_mult algebra_simps)
    then have "(n + d - 1) div d * d \<le> k * d" by (intro mult_le_mono1) simp
    then show ?thesis by (simp add: ceil_to_def k mult.commute)
  qed
  show "ceil_to n d = n" if "d dvd n" using le [OF that le_refl] \<open>n \<le> ceil_to n d\<close> by simp
qed

text \<open>The first legal local count that holds \<open>n\<close> heads.\<close>

lemma find_legal:
  assumes "n \<le> 128"
  obtains l where "find (\<lambda>h. h \<ge> n) legal_local = Some l" "l \<in> set legal_local" "n \<le> l"
    "\<And>h. h \<in> set legal_local \<Longrightarrow> n \<le> h \<Longrightarrow> l \<le> h"
proof -
  consider "n \<le> 8" | "8 < n" "n \<le> 16" | "16 < n" "n \<le> 32" | "32 < n" "n \<le> 64" | "64 < n" using assms by linarith
  then show ?thesis
  proof cases
    case 1 then show ?thesis by (intro that [of 8]) (auto simp: legal_local_def)
  next
    case 2 then show ?thesis by (intro that [of 16]) (auto simp: legal_local_def)
  next
    case 3 then show ?thesis by (intro that [of 32]) (auto simp: legal_local_def)
  next
    case 4 then show ?thesis by (intro that [of 64]) (auto simp: legal_local_def)
  next
    case 5 then show ?thesis using assms by (intro that [of 128]) (auto simp: legal_local_def)
  qed
qed

lemma legal_dvd: "per \<in> {1, 2, 4, 8} \<Longrightarrow> l \<in> set legal_local \<Longrightarrow> per dvd l" for per :: nat
  by (auto simp: legal_local_def)

lemma pad_heads_legal:
  assumes tp: "0 < tp" and per: "per \<in> {1, 2, 4, 8}" and groups: "0 < groups" and heads: "heads = groups * per"
    and small: "ceil_to groups tp * per \<le> 128 * tp"
  obtains l where "l \<in> set legal_local" "pad_heads tp heads groups = (l * tp, l * tp div per)" "heads \<le> l * tp"
    "\<And>h. h \<in> set legal_local \<Longrightarrow> heads \<le> h * tp \<Longrightarrow> l \<le> h"
proof -
  have p0: "0 < per" using per by auto
  have per': "max (heads div groups) 1 = per" using groups heads p0 by simp
  define nh where "nh = (if heads mod tp \<noteq> 0 then ceil_to groups tp * per else heads)"
  define ng where "ng = (if heads mod tp \<noteq> 0 then ceil_to groups tp else groups)"
  have nh: "nh = ng * per" by (simp add: nh_def ng_def heads)
  have dvd: "tp dvd nh" using ceil_to_props(2) [OF tp, of groups] by (auto simp: nh_def)
  have le: "heads \<le> nh" using ceil_to_props(1) [OF tp, of groups] by (simp add: nh_def heads)
  have "nh \<le> ceil_to groups tp * per" using ceil_to_props(1) [OF tp, of groups] by (simp add: nh_def heads)
  then have loc: "nh div tp \<le> 128" using small by (metis div_le_mono div_mult_self_is_m le_trans tp)
  have fill: "nh \<le> h * tp" if h1: "h \<in> set legal_local" and h2: "heads \<le> h * tp" for h
  proof (cases "heads mod tp = 0")
    case False
    obtain q where q: "h = q * per" using legal_dvd [OF per h1] by (auto simp: dvd_def mult.commute)
    then have "groups * per \<le> q * tp * per" using h2 heads by (simp add: ac_simps)
    then have "groups \<le> q * tp" using p0 by simp
    then have "ceil_to groups tp \<le> q * tp" by (intro ceil_to_props(4) [OF tp]) simp_all
    then have "ceil_to groups tp * per \<le> q * tp * per" by (rule mult_le_mono1)
    then show ?thesis using False by (simp add: nh_def q ac_simps)
  qed (use h2 in \<open>simp add: nh_def\<close>)
  have whole: "nh div tp * tp = nh" using dvd by simp
  have run: "pad_heads tp heads groups = (if nh div tp \<in> set legal_local then (nh, ng)
      else let target = (case find (\<lambda>h. h \<ge> nh div tp) legal_local of Some h \<Rightarrow> h | None \<Rightarrow> last legal_local);
               new_heads = target * tp; new_groups = new_heads div per
           in if new_groups * per \<noteq> new_heads then (ceil_to new_groups tp * per, ceil_to new_groups tp) else (new_heads, new_groups))"
    unfolding pad_heads_def per' by (simp add: Let_def nh_def ng_def)
  obtain l where l: "find (\<lambda>h. h \<ge> nh div tp) legal_local = Some l" "l \<in> set legal_local" "nh div tp \<le> l"
    "\<And>h. h \<in> set legal_local \<Longrightarrow> nh div tp \<le> h \<Longrightarrow> l \<le> h"
    by (rule find_legal [OF loc]) blast
  have "nh div tp * tp \<le> l * tp" using l(3) by (rule mult_le_mono1)
  then have hl: "heads \<le> l * tp" using le whole by simp
  have least: "l \<le> h" if "h \<in> set legal_local" "heads \<le> h * tp" for h
    using fill [OF that] that(1) l(4) tp by (metis div_le_mono div_mult_self_is_m)
  have "pad_heads tp heads groups = (l * tp, l * tp div per)"
  proof (cases "nh div tp \<in> set legal_local")
    case True
    then have "l = nh div tp" using l(3) l(4) [OF True] by simp
    then have "l * tp = nh" using whole by simp
    then show ?thesis using True nh p0 by (simp add: run)
  next
    case False
    have "l * tp div per * per = l * tp" using legal_dvd [OF per l(2)] by simp
    then show ?thesis using False l(1) by (simp add: run Let_def)
  qed
  from that [OF l(2) this hl least] show ?thesis .
qed

lemma pad_heads_again:
  assumes "0 < tp" "per \<in> {1, 2, 4, 8}" "l \<in> set legal_local"
  shows "pad_heads tp (l * tp) (l * tp div per) = (l * tp, l * tp div per)"
proof -
  have "per dvd l" by (rule legal_dvd [OF assms(2,3)])
  then have "l * tp div per * per = l * tp" by simp
  moreover have "l * tp div tp = l" using assms(1) by simp
  ultimately show ?thesis using assms(3) by (simp add: pad_heads_def)
qed

text \<open>C38. The padded configuration divides: for a model whose groups hold one, two, four or eight heads
  and whose heads fit into 128 per rank, the wrapped constructor leaves a head count that is the
  smallest multiple of a kernel's local head count holding the real heads, groups of the same size that
  divide among the ranks, draft experts that divide, and derived head counts that agree; padding the
  result again changes nothing.\<close>

theorem padded_config_divides:
  assumes tp: "0 < tp" and t: "hf_text (mc_hf mc) = Some t" "tc_heads t = Some (groups * per)" "tc_groups t = Some groups"
    and per: "per \<in> {1, 2, 4, 8}" "0 < groups" and small: "ceil_to groups tp * per \<le> 128 * tp"
    and seen: "mc_hf_text mc = Some x" "tc_groups x \<noteq> None" "mc_heads mc = Some y"
  shows "\<exists>t' x' h. hf_text (mc_hf (config_pad tp mc)) = Some t' \<and> mc_hf_text (config_pad tp mc) = Some x'
     \<and> tc_heads t' = Some h \<and> tc_groups t' = Some (h div per) \<and> groups * per \<le> h \<and> h = h div per * per
     \<and> h mod tp = 0 \<and> h div per mod tp = 0 \<and> h div tp \<in> set legal_local
     \<and> (\<forall>l \<in> set legal_local. groups * per \<le> l * tp \<longrightarrow> h \<le> l * tp)
     \<and> or0 (tc_draft t) \<le> or0 (tc_draft t') \<and> or0 (tc_draft t') mod tp = 0
     \<and> tc_heads x' = Some h \<and> tc_groups x' = Some (h div per) \<and> mc_heads (config_pad tp mc) = Some h
     \<and> pad_text tp t' = t'"
proof -
  obtain l where l: "l \<in> set legal_local" "pad_heads tp (groups * per) groups = (l * tp, l * tp div per)" "groups * per \<le> l * tp"
    "\<And>h. h \<in> set legal_local \<Longrightarrow> groups * per \<le> h * tp \<Longrightarrow> l \<le> h"
    by (rule pad_heads_legal [OF tp per refl small]) blast
  let ?h = "l * tp" and ?t = "pad_text tp t"
  have p0: "0 < per" and l0: "0 < l" using per l(1) by (auto simp: legal_local_def)
  have dvd: "per dvd l" by (rule legal_dvd [OF per(1) l(1)])
  have g0: "0 < ?h div per" 
  proof -
    have "per \<le> l" using dvd l0 by (rule dvd_imp_le)
    also have "l \<le> ?h" using tp by simp
    finally show ?thesis using p0 by (simp add: div_greater_zero_iff)
  qed
  have H: "tc_heads ?t = Some ?h" "tc_groups ?t = Some (?h div per)"
    using t(2,3) l(2) per(2) p0 by (auto simp: pad_text_def or0_def Let_def)
  have D: "or0 (tc_draft t) \<le> or0 (tc_draft ?t)" "or0 (tc_draft ?t) mod tp = 0"
    using ceil_to_props(1,2) [OF tp, of "or0 (tc_draft t)"] by (auto simp: pad_text_def or0_def Let_def mod_eq_0_iff_dvd split: option.splits)
  have again: "pad_text tp ?t = ?t"
    using H D(2) pad_heads_again [OF tp per(1) l(1)] by (simp add: pad_text_def [of tp ?t] or0_def Let_def)
  have ht: "hf_text (pad_dsv41_hf_config tp (mc_hf mc)) = Some ?t"
    using t(1) by (simp add: pad_dsv41_hf_config_def Let_def)
  have run: "hf_text (mc_hf (config_pad tp mc)) = Some ?t" "mc_hf_text (config_pad tp mc) = Some (fst (sync_text ?t x))"
    "mc_heads (config_pad tp mc) = Some ?h"
    using ht again H seen by (simp_all add: config_pad_def Let_def sync_text_def)
  have x': "tc_heads (fst (sync_text ?t x)) = Some ?h" "tc_groups (fst (sync_text ?t x)) = Some (?h div per)"
    using H seen(2) by (simp_all add: sync_text_def Let_def)
  have "?h div per mod tp = 0" using dvd by (auto simp: dvd_def p0)
  moreover have "?h = ?h div per * per" using dvd by simp
  moreover have "?h \<le> k * tp" if "k \<in> set legal_local" "groups * per \<le> k * tp" for k using l(4) [OF that] by simp
  ultimately show ?thesis using run x' H D again l(1,3) tp by (intro exI [of _ ?t] exI [of _ "fst (sync_text ?t x)"] exI [of _ ?h]) auto
qed

definition demo_model :: model_cfg where
  "demo_model = \<lparr>mc_hf = \<lparr>hf_text = Some \<lparr>tc_heads = Some 64, tc_groups = Some 8, tc_draft = Some 128\<rparr>,
      hf_self = \<lparr>tc_heads = None, tc_groups = None, tc_draft = None\<rparr>, hf_vision = None\<rparr>,
     mc_hf_text = Some \<lparr>tc_heads = Some 64, tc_groups = Some 8, tc_draft = Some 128\<rparr>, mc_heads = Some 64\<rparr>"

lemma padded_config_divides_witness:
  "mc_heads (config_pad 3 demo_model) = Some 96 \<and> (\<exists>h. mc_heads (config_pad 3 demo_model) = Some h \<and> h mod 3 = 0 \<and> h div 3 \<in> set legal_local)"
proof
  show "mc_heads (config_pad 3 demo_model) = Some 96" by code_simp
  show "\<exists>h. mc_heads (config_pad 3 demo_model) = Some h \<and> h mod 3 = 0 \<and> h div 3 \<in> set legal_local"
    using padded_config_divides [of 3 demo_model "\<lparr>tc_heads = Some 64, tc_groups = Some 8, tc_draft = Some 128\<rparr>" 8 8
        "\<lparr>tc_heads = Some 64, tc_groups = Some 8, tc_draft = Some 128\<rparr>" 64]
    by (auto simp: demo_model_def ceil_to_def)
qed

text \<open>More than 128 heads per rank do not fit: the largest legal count is taken and the real heads are cut.\<close>

lemma many_heads_are_cut: "pad_heads 2 512 8 = (256, 4)"
  by code_simp

section \<open>Loading padded shards\<close>

text \<open>The library helper: the slices from \<open>start\<close>, followed by zeros up to the shard.\<close>

definition slices_ok :: "'v slices \<Rightarrow> bool" where
  "slices_ok F \<longleftrightarrow> (\<forall>xs start sz. length xs < start + sz \<longrightarrow>
     sl_pad_or_narrow F xs start sz = drop start xs @ replicate (sz - (length xs - start)) (sl_zero F))"

definition shard_of :: "'v slices \<Rightarrow> bool \<Rightarrow> 'v list \<Rightarrow> nat \<Rightarrow> nat \<Rightarrow> 'v list" where
  "shard_of F scale loaded sz rank =
     take sz (drop (rank * sz) loaded) @ replicate (sz - (length loaded - rank * sz)) (pad_fill F scale)"

lemma length_shard_of [simp]: "length (shard_of F scale loaded sz rank) = sz"
  by (simp add: shard_of_def)

lemma concat_shards:
  "concat (map (shard_of F scale loaded sz) [0..<n]) = take (n * sz) loaded @ replicate (n * sz - length loaded) (pad_fill F scale)"
proof (induction n)
  case (Suc n)
  let ?L = "length loaded"
  have "take (Suc n * sz) loaded = take (n * sz) loaded @ take sz (drop (n * sz) loaded)"
    by (simp add: take_add [symmetric] add.commute)
  moreover have "take sz (drop (n * sz) loaded) = []" if "?L \<le> n * sz" using that by simp
  moreover have "(n * sz - ?L) + (sz - (?L - n * sz)) = Suc n * sz - ?L" by simp
  then have "replicate (n * sz - ?L) (pad_fill F scale) @ replicate (sz - (?L - n * sz)) (pad_fill F scale)
      = replicate (Suc n * sz - ?L) (pad_fill F scale)" by (metis replicate_add)
  ultimately show ?case using Suc by (cases "?L \<le> n * sz") (simp_all add: shard_of_def)
qed simp

lemma load_column_shard:
  assumes F: "slices_ok F" and sz: "length data = sz" "0 < sz"
  shows "load_column_parallel_weight F orig scale scale data loaded rank False = Inr (shard_of F scale loaded sz rank)"
proof (cases "rank * sz + sz > length loaded \<or> rank * sz \<ge> length loaded")
  case True
  then have gt: "length loaded < rank * sz + sz" using sz(2) by auto
  let ?real = "length loaded - rank * sz"
  have pn: "sl_pad_or_narrow F loaded (rank * sz) sz = drop (rank * sz) loaded @ replicate (sz - ?real) (sl_zero F)"
    using F gt by (simp add: slices_ok_def)
  have "?real < sz" using gt sz(2) by simp
  then have "length (drop (rank * sz) loaded) = ?real" "length (sl_pad_or_narrow F loaded (rank * sz) sz) = sz" by (simp_all add: pn)
  then show ?thesis using True sz gt \<open>?real < sz\<close>
    by (cases scale) (simp_all add: load_column_parallel_weight_def Let_def pn shard_of_def pad_fill_def)
next
  case False
  then show ?thesis using sz by (simp add: load_column_parallel_weight_def Let_def shard_of_def)
qed

text \<open>C39. Padded shards put the tensor back together: with the zero-padding of the library, the shards the
  ranks load through the patched parameter loader, one after the other, are the checkpoint tensor
  followed by padding, zero for a weight and one for a block scale; the patched linear loader loads the
  same shard on every rank whose shard starts within the tensor.\<close>

theorem padded_shards_reassemble:
  assumes F: "slices_ok F" and sz: "\<And>r. r < n \<Longrightarrow> length (data r) = sz" "0 < sz" and fits: "length loaded \<le> n * sz"
  shows "\<exists>w. (\<forall>r < n. load_column_parallel_weight F orig scale scale (data r) loaded r False = Inr (w r))
     \<and> concat (map w [0..<n]) = loaded @ replicate (n * sz - length loaded) (pad_fill F scale)
     \<and> (\<forall>r < n. length loaded < r * sz + sz \<longrightarrow> r * sz \<le> length loaded \<longrightarrow>
           column_weight_loader F orig' True False scale (data r) loaded r = Inr (w r))"
proof (intro exI conjI allI impI)
  let ?w = "shard_of F scale loaded sz"
  show "load_column_parallel_weight F orig scale scale (data r) loaded r False = Inr (?w r)" if "r < n" for r
    by (rule load_column_shard [OF F sz(1) [OF that] sz(2)])
  show "concat (map ?w [0..<n]) = loaded @ replicate (n * sz - length loaded) (pad_fill F scale)"
    using fits by (simp add: concat_shards)
  show "column_weight_loader F orig' True False scale (data r) loaded r = Inr (?w r)"
    if r: "r < n" and gt: "length loaded < r * sz + sz" and le: "r * sz \<le> length loaded" for r
  proof -
    let ?real = "length loaded - r * sz"
    have real: "int (length loaded) - int (r * sz) = int ?real" using le by simp
    have pn: "sl_pad_or_narrow F loaded (r * sz) sz = drop (r * sz) loaded @ replicate (sz - ?real) (sl_zero F)"
      using F gt by (simp add: slices_ok_def)
    have "?real < sz" using gt sz(2) by simp
    then show ?thesis using sz(1) [OF r] gt
      by (simp add: column_weight_loader_def Let_def real pn shard_of_def pad_fill_def del: of_nat_mult)
  qed
qed

definition demo_slices :: "int slices" where
  "demo_slices = \<lparr>sl_zero = 0, sl_one = 1, sl_pad_or_narrow = (\<lambda>xs start sz. drop start xs @ replicate (sz - (length xs - start)) 0)\<rparr>"

lemma padded_shards_reassemble_witness:
  "concat (map (\<lambda>r. case load_column_parallel_weight demo_slices (\<lambda>_ _ _ _. Inl TypeError) True True [0, 0] [7, 8, 9] r False of Inr w \<Rightarrow> w | Inl _ \<Rightarrow> []) [0..<3])
   = [7, 8, 9, 1, 1, 1]"
proof -
  have "slices_ok demo_slices" by (simp add: slices_ok_def demo_slices_def)
  then obtain w where w: "\<And>r. r < 3 \<Longrightarrow> load_column_parallel_weight demo_slices (\<lambda>_ _ _ _. Inl TypeError) True True [0, 0] [7, 8, 9] r False = Inr (w r)"
    "concat (map w [0..<3]) = [7, 8, 9] @ replicate (3 * 2 - 3) (pad_fill demo_slices True)"
    using padded_shards_reassemble [of demo_slices 3 "\<lambda>_. [0, 0]" 2 "[7, 8, 9]" "\<lambda>_ _ _ _. Inl TypeError" True "\<lambda>_ _. Inl TypeError"] by auto
  have "map (\<lambda>r. case load_column_parallel_weight demo_slices (\<lambda>_ _ _ _. Inl TypeError) True True [0, 0] [7, 8, 9] r False of Inr w \<Rightarrow> w | Inl _ \<Rightarrow> []) [0..<3]
      = map w [0..<3]" by (rule map_cong) (simp_all add: w(1))
  then have "concat (map (\<lambda>r. case load_column_parallel_weight demo_slices (\<lambda>_ _ _ _. Inl TypeError) True True [0, 0] [7, 8, 9] r False of Inr w \<Rightarrow> w | Inl _ \<Rightarrow> []) [0..<3])
      = [7, 8, 9] @ replicate (3 * 2 - 3) (pad_fill demo_slices True)" by (simp only: w(2))
  then show ?thesis by (simp add: pad_fill_def demo_slices_def numeral_3_eq_3)
qed

text \<open>A shard that lies wholly behind the tensor: the linear loader computes a negative count of real
  slices and leaves the block scales zero, where the parameter loader fills them with one.\<close>

lemma linear_loader_leaves_zero_scales:
  "column_weight_loader demo_slices (\<lambda>d _. Inr d) True False True [9, 9] [7] 2 = Inr [0, 0]"
  "load_column_parallel_weight demo_slices (\<lambda>_ _ _ _. Inl TypeError) True True [9, 9] [7] 2 False = Inr [1, 1]"
  by code_simp+

text \<open>The fallback of the default loader keeps the shape of the parameter and copies the overlap.\<close>

lemma default_loader_fallback:
  assumes "orig data loaded = Inl AssertionError" "i < length data" "j < length (data ! i)"
  shows "\<exists>w. default_weight_loader orig zero data loaded = Inr w \<and> length w = length data \<and> length (w ! i) = length (data ! i)
     \<and> w ! i ! j = (if i < length loaded \<and> j < length (loaded ! i) then loaded ! i ! j else zero)"
proof (cases "concat loaded = []")
  case True
  have e: "\<not> (i < length loaded \<and> j < length (loaded ! i))"
  proof
    assume c: "i < length loaded \<and> j < length (loaded ! i)"
    then have "loaded ! i \<in> set loaded" by simp
    then have "loaded ! i = []" using True by (simp only: concat_eq_Nil_conv)
    then show False using c by simp
  qed
  show ?thesis unfolding if_not_P [OF e] using assms True by (auto simp: default_weight_loader_def)
next
  case False
  let ?row = "\<lambda>i. if i < length loaded then take (min (length (data ! i)) (length (loaded ! i))) (loaded ! i) @ drop (length (loaded ! i)) (map (\<lambda>_. zero) (data ! i))
       else map (\<lambda>_. zero) (data ! i)"
  have row: "length (?row i) = length (data ! i) \<and> ?row i ! j = (if i < length loaded \<and> j < length (loaded ! i) then loaded ! i ! j else zero)"
    using assms(3) by (auto simp: nth_append min_def)
  obtain w where w: "default_weight_loader orig zero data loaded = Inr w" "length w = length data" "w ! i = ?row i"
  proof
    let ?z = "map (map (\<lambda>_. zero)) data"
    let ?w = "map (\<lambda>i. if i < length loaded then take (min (length (?z ! i)) (length (loaded ! i))) (loaded ! i) @ drop (length (loaded ! i)) (?z ! i)
       else ?z ! i) [0..<length ?z]"
    show "default_weight_loader orig zero data loaded = Inr ?w" unfolding default_weight_loader_def Let_def assms(1) using False by auto
    show "length ?w = length data" by simp
    show "?w ! i = ?row i" using assms(2) by simp
  qed
  then show ?thesis using row by simp
qed

text \<open>The vocabulary: with the library's rounding to a multiple, the padded sz divides among the ranks.\<close>

lemma padded_vocab_divides:
  assumes "\<And>v p. 0 < p \<Longrightarrow> orig v p = ceil_to v p" "0 < pad_to" "1 < tp"
  shows "tp dvd pad_vocab_size orig tp v pad_to" "pad_to dvd pad_vocab_size orig tp v pad_to" "v \<le> pad_vocab_size orig tp v pad_to"
proof -
  have l: "0 < lcm pad_to tp" using assms(2,3) by (simp add: lcm_pos_nat)
  then have e: "pad_vocab_size orig tp v pad_to = ceil_to v (lcm pad_to tp)" using assms(1,3) by (simp add: pad_vocab_size_def)
  have "lcm pad_to tp dvd ceil_to v (lcm pad_to tp)" by (rule ceil_to_props(2) [OF l])
  then show "tp dvd pad_vocab_size orig tp v pad_to" "pad_to dvd pad_vocab_size orig tp v pad_to"
    unfolding e by (meson dvd_lcm1 dvd_lcm2 dvd_trans)+
  show "v \<le> pad_vocab_size orig tp v pad_to" unfolding e by (rule ceil_to_props(1) [OF l])
qed

end
