(* ===== verification/SharedPadK.thy ===== *)
theory SharedPadK
  imports Prelude "HOL-Library.Sublist" "HOL-Library.Word"
begin

unbundle bit_operations_syntax

text \<open>
  Padding the contraction of the shared expert (\<open>adapter/shared_pad_k.py\<close>): the weight hook with its
  checks, the persistent zeroed input buffers and the hook on the linear call.  Buffers are cells of a
  store, named by the key the code uses; a padded input is a view of such a cell or a tensor of its
  own.  The wrapped functions are parameters; logging flags are kept, messages are not.
\<close>

section \<open>Layers\<close>

definition HID :: nat where "HID = 5120"
definition SRC_K :: nat where "SRC_K = 576"
definition TGT_K :: nat where "TGT_K = 640"
definition BLOCK :: nat where "BLOCK = 32"

lemmas pad_consts = HID_def SRC_K_def TGT_K_def BLOCK_def

datatype dtype = Float8E4M3 | Float32 | OtherDtype

record 'w weight_tensor =
  wt_shape :: "nat list"
  wt_dtype :: dtype
  wt_rows :: "'w list list"

text \<open>The scales are kept as the bits of their fp32 values.\<close>

record scale_tensor =
  sc_shape :: "nat list"
  sc_dtype :: dtype
  sc_rows :: "int list list"
  sc_ue8m0 :: "bool option"

record 'w layer =
  l_weight :: "'w weight_tensor option"
  l_scale :: "scale_tensor option"
  l_padded :: bool

record ('k, 'v) pad_state =
  p_bufs :: "'k \<rightharpoonup> 'v list list"
  p_padded :: nat
  p_logged_first :: bool
  p_logged_accept :: bool
  p_warned_big :: bool

definition pad_init :: "('k, 'v) pad_state" where
  "pad_init = \<lparr>p_bufs = (\<lambda>_. None), p_padded = 0, p_logged_first = False, p_logged_accept = False, p_warned_big = False\<rparr>"

text \<open>\<open>strip\<close> is \<open>str.strip\<close>.\<close>

definition pad_enabled :: "(string \<Rightarrow> string) \<Rightarrow> (string \<rightharpoonup> string) \<Rightarrow> bool" where
  "pad_enabled strip env =
     (strip (case env ''DSV41_SHARED_PAD_K'' of Some v \<Rightarrow> v | None \<Rightarrow> ''0'') \<notin> {''0'', ''off'', ''false'', ''''})"

definition looks_like_shared_down :: "'w layer \<Rightarrow> bool" where
  "looks_like_shared_down l =
     (case l_weight l of None \<Rightarrow> False | Some w \<Rightarrow> wt_shape w = [HID, SRC_K] \<and> wt_dtype w = Float8E4M3)"

text \<open>\<open>((bits & 0x7FFFFF) == 0) & (sf > 0)\<close>: no mantissa, and positive as a float.\<close>

definition pow2_bits :: "int \<Rightarrow> bool" where
  "pow2_bits bits \<longleftrightarrow> bits AND 0x7FFFFF = 0 \<and> 0 < bits \<and> bits \<le> 0x7F800000"

definition one_bits :: int where "one_bits = 0x3F800000"

section \<open>Padding the weight\<close>

text \<open>Called on a weight of shape \<open>[HID, SRC_K]\<close>.\<close>

definition pad_weight :: "'w \<Rightarrow> 'w layer \<Rightarrow> ('k, 'v) pad_state \<Rightarrow> ('w layer \<times> ('k, 'v) pad_state) res" where
  "pad_weight zero l st =
     (case l_weight l of None \<Rightarrow> Inl AttributeError
      | Some w \<Rightarrow> (case l_scale l of None \<Rightarrow> Inl RuntimeError
      | Some s \<Rightarrow> (case wt_shape w of
          [n, k] \<Rightarrow>
            ensure (sc_shape s = [n div BLOCK, k div BLOCK]) RuntimeError
            (ensure (sc_dtype s = Float32) RuntimeError
            (ensure (\<forall>row \<in> set (sc_rows s). \<forall>b \<in> set row. pow2_bits b) RuntimeError
            (let w' = w\<lparr>wt_shape := [n, TGT_K], wt_rows := map (\<lambda>r. r @ replicate (TGT_K - SRC_K) zero) (wt_rows w)\<rparr>;
                 s' = s\<lparr>sc_shape := [n div BLOCK, TGT_K div BLOCK],
                        sc_rows := map (\<lambda>r. r @ replicate (TGT_K div BLOCK - k div BLOCK) one_bits) (sc_rows s)\<rparr>
             in Inr (\<lparr>l_weight = Some w', l_scale = Some s', l_padded = True\<rparr>,
                     st\<lparr>p_padded := p_padded st + 1, p_logged_first := True\<rparr>))))
        | _ \<Rightarrow> Inl ValueError)))"

text \<open>The hook before the scales are prepared; the wrapped function sees the padded layer.\<close>

definition prepare :: "'w \<Rightarrow> ('w layer \<Rightarrow> 'r res) \<Rightarrow> string \<Rightarrow> 'w layer \<Rightarrow> ('k, 'v) pad_state
    \<Rightarrow> 'r res \<times> 'w layer \<times> ('k, 'v) pad_state" where
  "prepare zero original label l st =
     (if sublist ''shared_experts.down_proj'' label \<and> \<not> looks_like_shared_down l then (Inl RuntimeError, l, st)
      else if looks_like_shared_down l \<and> \<not> l_padded l
      then (case pad_weight zero l st of Inl e \<Rightarrow> (Inl e, l, st) | Inr (l', st') \<Rightarrow> (original l', l', st'))
      else (original l, l, st))"

section \<open>Padding the input\<close>

datatype ('k, 'v) padded = InBuf 'k nat | Own "'v list list"

fun padded_rows :: "('k, 'v) pad_state \<Rightarrow> ('k, 'v) padded \<Rightarrow> 'v list list" where
  "padded_rows st (InBuf k n) = take n (case p_bufs st k of Some b \<Rightarrow> b | None \<Rightarrow> [])"
| "padded_rows st (Own rows) = rows"

text \<open>\<open>dst[:rows, :SRC_K] = x\<close>.\<close>

definition put_cols :: "'v list list \<Rightarrow> 'v list list \<Rightarrow> 'v list list" where
  "put_cols x dst = map2 (\<lambda>r d. r @ drop SRC_K d) x (take (length x) dst) @ drop (length x) dst"

definition pad_input :: "'v \<Rightarrow> int res \<Rightarrow> 'k \<Rightarrow> 'v list list \<Rightarrow> ('k, 'v) pad_state \<Rightarrow> (('k, 'v) padded \<times> ('k, 'v) pad_state) res" where
  "pad_input zero cap_env key x st =
     res_bind cap_env (\<lambda>cap.
     let rows = length x; held = (case p_bufs st key of None \<Rightarrow> False | Some b \<Rightarrow> \<not> length b < rows) in
     if \<not> held \<and> int rows > cap
     then Inr (Own (put_cols x (replicate rows (replicate TGT_K zero))), st\<lparr>p_warned_big := True\<rparr>)
     else let buf = (if held then the (p_bufs st key) else replicate (nat cap) (replicate TGT_K zero))
          in Inr (InBuf key rows, st\<lparr>p_bufs := (p_bufs st)(key \<mapsto> put_cols x buf)\<rparr>))"

text \<open>The linear call; \<open>xw\<close> is the width of the input, \<open>scaled\<close> whether it comes with scales of its own.  The
  first padded call of a process only differs in what it logs.\<close>

definition linear :: "'v \<Rightarrow> int res \<Rightarrow> ('v list list \<Rightarrow> 'w list list \<Rightarrow> int list list \<Rightarrow> 'r res) \<Rightarrow> bool \<Rightarrow> 'k
    \<Rightarrow> 'w weight_tensor \<Rightarrow> scale_tensor \<Rightarrow> nat \<Rightarrow> 'v list list \<Rightarrow> ('k, 'v) pad_state \<Rightarrow> 'r res \<times> ('k, 'v) pad_state" where
  "linear zero cap_env inner scaled key w s xw x st =
     (if wt_shape w = [HID, TGT_K] \<and> xw = SRC_K
      then if scaled then (Inl RuntimeError, st)
           else case pad_input zero cap_env key x st of
                  Inl e \<Rightarrow> (Inl e, st)
                | Inr (v, st') \<Rightarrow> (inner (padded_rows st' v) (wt_rows w) (sc_rows s), st'\<lparr>p_logged_accept := True\<rparr>)
      else (inner x (wt_rows w) (sc_rows s), st))"

section \<open>The buffers\<close>

text \<open>Every buffer has rows of the padded width whose tail is zero.\<close>

definition zero_tail :: "'v \<Rightarrow> 'v list \<Rightarrow> bool" where
  "zero_tail zero r \<longleftrightarrow> length r = TGT_K \<and> drop SRC_K r = replicate (TGT_K - SRC_K) zero"

definition bufs_ok :: "'v \<Rightarrow> ('k, 'v) pad_state \<Rightarrow> bool" where
  "bufs_ok zero st \<longleftrightarrow> (\<forall>b \<in> ran (p_bufs st). \<forall>r \<in> set b. zero_tail zero r)"

definition pad_rows :: "'v \<Rightarrow> 'v list list \<Rightarrow> 'v list list" where
  "pad_rows zero x = map (\<lambda>r. r @ replicate (TGT_K - SRC_K) zero) x"

lemma put_cols_tail:
  assumes "\<forall>r \<in> set x. length r = SRC_K" "\<forall>d \<in> set dst. zero_tail zero d" "length x \<le> length dst"
  shows "take (length x) (put_cols x dst) = pad_rows zero x" "\<forall>r \<in> set (put_cols x dst). zero_tail zero r"
    "length (put_cols x dst) = length dst"
proof -
  have eq: "map2 (\<lambda>r d. r @ drop SRC_K d) x (take (length x) dst) = pad_rows zero x"
    using assms(2,3) by (intro nth_equalityI) (auto simp: pad_rows_def zero_tail_def)
  have "zero_tail zero r" if "r \<in> set (pad_rows zero x)" for r
    using that assms(1) by (auto simp: pad_rows_def zero_tail_def pad_consts)
  then show "\<forall>r \<in> set (put_cols x dst). zero_tail zero r" using assms(2) by (auto simp: put_cols_def eq dest: in_set_dropD)
  show "take (length x) (put_cols x dst) = pad_rows zero x" by (simp add: put_cols_def eq pad_rows_def)
  show "length (put_cols x dst) = length dst" using assms(3) by (simp add: put_cols_def)
qed

lemma zero_tail_zeros: "zero_tail zero (replicate TGT_K zero)"
  by (simp add: zero_tail_def pad_consts)

lemma pad_input_padded:
  assumes st: "bufs_ok zero st" and x: "\<forall>r \<in> set x. length r = SRC_K"
  obtains v st' where "pad_input zero (Inr cap) key x st = Inr (v, st')" "padded_rows st' v = pad_rows zero x" "bufs_ok zero st'"
    "\<And>k. k \<noteq> key \<Longrightarrow> p_bufs st' k = p_bufs st k" "int (length x) \<le> cap \<Longrightarrow> v = InBuf key (length x)"
proof -
  define held where "held = (case p_bufs st key of None \<Rightarrow> False | Some b \<Rightarrow> \<not> length b < length x)"
  show thesis
  proof (cases "\<not> held \<and> int (length x) > cap")
    case True
    have z: "\<forall>d \<in> set (replicate (length x) (replicate TGT_K zero)). zero_tail zero d" using zero_tail_zeros by auto
    have "put_cols x (replicate (length x) (replicate TGT_K zero)) = pad_rows zero x"
      using put_cols_tail(1,3) [OF x z] by simp
    then show thesis using True st
      by (intro that [of "Own (pad_rows zero x)" "st\<lparr>p_warned_big := True\<rparr>"]) (auto simp: pad_input_def held_def Let_def bufs_ok_def)
  next
    case False
    define buf where "buf = (if held then the (p_bufs st key) else replicate (nat cap) (replicate TGT_K zero))"
    have z: "\<forall>d \<in> set buf. zero_tail zero d"
    proof (cases held)
      case True
      then obtain b where "p_bufs st key = Some b" "buf = b" by (auto simp: held_def buf_def split: option.splits)
      then show ?thesis using st by (auto simp: bufs_ok_def ran_def)
    qed (simp add: buf_def zero_tail_zeros)
    have len: "length x \<le> length buf"
    proof (cases held)
      case True
      then show ?thesis by (auto simp: held_def buf_def split: option.splits)
    next
      case no: False
      then show ?thesis using False by (simp add: buf_def)
    qed
    note P = put_cols_tail [OF x z len]
    let ?st = "st\<lparr>p_bufs := (p_bufs st)(key \<mapsto> put_cols x buf)\<rparr>"
    have run: "pad_input zero (Inr cap) key x st = Inr (InBuf key (length x), ?st)"
      unfolding pad_input_def Let_def held_def [symmetric] res_bind_simps buf_def using False by simp
    have "bufs_ok zero ?st" using st P(2) by (auto simp: bufs_ok_def ran_def split: if_splits)
    then show thesis using run P(1) by (intro that [of "InBuf key (length x)" ?st]) simp_all
  qed
qed

text \<open>The states a process can reach: layers are prepared and linear calls of any size made, in any order.\<close>

inductive pad_reach :: "'v \<Rightarrow> 'w \<Rightarrow> ('w layer \<Rightarrow> 'p res) \<Rightarrow> ('v list list \<Rightarrow> 'w list list \<Rightarrow> int list list \<Rightarrow> 'r res) \<Rightarrow> ('k, 'v) pad_state \<Rightarrow> bool"
  for zero wzero original inner where
  start: "pad_reach zero wzero original inner pad_init"
| prep: "pad_reach zero wzero original inner st \<Longrightarrow> pad_reach zero wzero original inner (snd (snd (prepare wzero original label l st)))"
| call: "pad_reach zero wzero original inner st \<Longrightarrow> xw = SRC_K \<longrightarrow> (\<forall>r \<in> set x. length r = SRC_K)
    \<Longrightarrow> pad_reach zero wzero original inner (snd (linear zero cap_env inner scaled key w s xw x st))"

lemma prepare_bufs: "p_bufs (snd (snd (prepare wzero original label l st))) = p_bufs st"
  by (auto simp: prepare_def pad_weight_def Let_def ensure_def split: option.splits list.splits sum.splits)

lemma linear_bufs_ok:
  assumes "bufs_ok zero st" "xw = SRC_K \<longrightarrow> (\<forall>r \<in> set x. length r = SRC_K)"
  shows "bufs_ok zero (snd (linear zero cap_env inner scaled key w s xw x st))"
proof (cases "wt_shape w = [HID, TGT_K] \<and> xw = SRC_K \<and> \<not> scaled")
  case True
  then have x: "\<forall>r \<in> set x. length r = SRC_K" using assms(2) by blast
  show ?thesis
  proof (cases cap_env)
    case (Inl e)
    then show ?thesis using assms(1) by (simp add: linear_def pad_input_def)
  next
    case (Inr cap)
    obtain v st' where "pad_input zero (Inr cap) key x st = Inr (v, st')" "bufs_ok zero st'"
      by (rule pad_input_padded [OF assms(1) x, of cap key]) blast
    then show ?thesis using True Inr by (simp add: linear_def bufs_ok_def)
  qed
qed (use assms(1) in \<open>auto simp: linear_def\<close>)

lemma reach_bufs_ok: "pad_reach zero wzero original inner st \<Longrightarrow> bufs_ok zero st"
proof (induction rule: pad_reach.induct)
  case start
  show ?case by (simp add: bufs_ok_def pad_init_def)
next
  case (prep st label l)
  then show ?case by (simp add: bufs_ok_def prepare_bufs)
next
  case (call st xw x cap_env scaled key w s)
  then show ?case by (intro linear_bufs_ok) simp_all
qed

section \<open>The padded product\<close>

text \<open>The block-scaled product of the library: blocks of 32 along the contraction, \<open>blk\<close> the product of a block
  of the input with a block of the weight under its scale.\<close>

definition block_gemm :: "('v list \<Rightarrow> 'w list \<Rightarrow> int \<Rightarrow> 'a :: comm_monoid_add) \<Rightarrow> 'v list list \<Rightarrow> 'w list list \<Rightarrow> int list list \<Rightarrow> 'a list list" where
  "block_gemm blk x w s =
     map (\<lambda>xr. map (\<lambda>n. sum_list (map (\<lambda>b. blk (take 32 (drop (b * 32) xr)) (take 32 (drop (b * 32) (w ! n))) (s ! (n div 32) ! b))
        [0..<length (w ! n) div 32])) [0..<length w]) x"

lemma block_gemm_padded:
  assumes zero: "\<And>xs c. blk xs (replicate 32 wzero) c = 0"
    and w: "\<forall>r \<in> set w. length r = SRC_K" and x: "\<forall>r \<in> set x. length r = SRC_K"
    and s: "length w \<le> length s * 32" "\<forall>r \<in> set s. length r = 18"
  shows "block_gemm blk (pad_rows zero x) (map (\<lambda>r. r @ replicate (TGT_K - SRC_K) wzero) w) (map (\<lambda>r. r @ replicate 2 c) s) = block_gemm blk x w s"
proof -
  have cell: "sum_list (map (\<lambda>b. blk (take 32 (drop (b * 32) (xr @ replicate 64 zero))) (take 32 (drop (b * 32) (wr @ replicate 64 wzero))) ((sr @ replicate 2 c) ! b)) [0..<20])
      = sum_list (map (\<lambda>b. blk (take 32 (drop (b * 32) xr)) (take 32 (drop (b * 32) wr)) (sr ! b)) [0..<18])"
    if len: "length xr = 576" "length wr = 576" "length sr = 18" for xr wr sr
  proof -
    define f where "f = (\<lambda>b. blk (take 32 (drop (b * 32) (xr @ replicate 64 zero))) (take 32 (drop (b * 32) (wr @ replicate 64 wzero))) ((sr @ replicate 2 c) ! b))"
    have "[0..<20] = [0..<18] @ [18, 19 :: nat]" by (simp add: upt_rec)
    then have "sum_list (map f [0..<20]) = sum_list (map f [0..<18]) + (f 18 + f 19)" by (simp only: map_append sum_list_append) simp
    moreover have "take 32 (drop (18 * 32) (wr @ replicate 64 wzero)) = replicate 32 wzero" "take 32 (drop (19 * 32) (wr @ replicate 64 wzero)) = replicate 32 wzero"
      using len by simp_all
    then have "f 18 = 0" "f 19 = 0" unfolding f_def by (simp_all only: zero)
    moreover have "f b = blk (take 32 (drop (b * 32) xr)) (take 32 (drop (b * 32) wr)) (sr ! b)" if "b < 18" for b
      using that len by (simp add: f_def nth_append)
    then have "map f [0..<18] = map (\<lambda>b. blk (take 32 (drop (b * 32) xr)) (take 32 (drop (b * 32) wr)) (sr ! b)) [0..<18]"
      by (intro map_cong refl) simp
    ultimately show ?thesis by (simp only: f_def [symmetric] add_0_right)
  qed
  have col: "sum_list (map (\<lambda>b. blk (take 32 (drop (b * 32) (xr @ replicate 64 zero))) (take 32 (drop (b * 32) (map (\<lambda>r. r @ replicate 64 wzero) w ! n)))
        (map (\<lambda>r. r @ replicate 2 c) s ! (n div 32) ! b)) [0..<length (map (\<lambda>r. r @ replicate 64 wzero) w ! n) div 32])
      = sum_list (map (\<lambda>b. blk (take 32 (drop (b * 32) xr)) (take 32 (drop (b * 32) (w ! n))) (s ! (n div 32) ! b)) [0..<length (w ! n) div 32])"
    if "xr \<in> set x" "n < length w" for xr n
  proof -
    have n: "n div 32 < length s" using that(2) s(1) by (simp add: less_mult_imp_div_less)
    have l: "length xr = 576" "length (w ! n) = 576" "length (s ! (n div 32)) = 18" using x w s(2) that n by (auto simp: SRC_K_def)
    have "length (map (\<lambda>r. r @ replicate 64 wzero) w ! n) div 32 = 20" "length (w ! n) div 32 = 18" using l that(2) by simp_all
    then show ?thesis using cell [OF l] that(2) n by (simp only: nth_map)
  qed
  have tk: "TGT_K - SRC_K = 64" by (simp add: pad_consts)
  show ?thesis unfolding block_gemm_def pad_rows_def tk map_map comp_def length_map
    by (intro map_cong refl) (rule col; simp)
qed

section \<open>The padded layer in use\<close>

text \<open>The tensors of a layer whose scales have the 32 by 32 layout and are powers of two.\<close>

definition pad_ready :: "'w layer \<Rightarrow> 'w weight_tensor \<Rightarrow> scale_tensor \<Rightarrow> bool" where
  "pad_ready l w s \<longleftrightarrow> l_weight l = Some w \<and> l_scale l = Some s \<and> looks_like_shared_down l \<and> \<not> l_padded l
     \<and> sc_shape s = [160, 18] \<and> sc_dtype s = Float32 \<and> (\<forall>row \<in> set (sc_rows s). \<forall>b \<in> set row. pow2_bits b)
     \<and> length (wt_rows w) = HID \<and> (\<forall>r \<in> set (wt_rows w). length r = SRC_K)
     \<and> length (sc_rows s) = 160 \<and> (\<forall>r \<in> set (sc_rows s). length r = 18)"

definition padded_weight :: "'w \<Rightarrow> 'w weight_tensor \<Rightarrow> 'w weight_tensor" where
  "padded_weight wzero w = w\<lparr>wt_shape := [HID, TGT_K], wt_rows := map (\<lambda>r. r @ replicate (TGT_K - SRC_K) wzero) (wt_rows w)\<rparr>"

definition padded_scale :: "scale_tensor \<Rightarrow> scale_tensor" where
  "padded_scale s = s\<lparr>sc_shape := [160, 20], sc_rows := map (\<lambda>r. r @ replicate 2 one_bits) (sc_rows s)\<rparr>"

lemma pad_weight_ready:
  assumes "pad_ready l w s"
  shows "pad_weight wzero l st = Inr (\<lparr>l_weight = Some (padded_weight wzero w), l_scale = Some (padded_scale s), l_padded = True\<rparr>,
     st\<lparr>p_padded := p_padded st + 1, p_logged_first := True\<rparr>)"
proof -
  have "wt_shape w = [HID, SRC_K]" using assms by (auto simp: pad_ready_def looks_like_shared_down_def)
  moreover have "HID div BLOCK = 160" "SRC_K div BLOCK = 18" "TGT_K div BLOCK = 20" by (simp_all add: pad_consts)
  ultimately show ?thesis using assms
    by (simp add: pad_weight_def pad_ready_def padded_weight_def padded_scale_def Let_def)
qed

text \<open>C36. The padded layer computes the unpadded product: whatever was prepared and called before, the hook
  hands the wrapped function the padded layer, and a linear call on it returns what the block-scaled
  product of the original weight, scales and input is; up to the capacity the padded input is a view of
  the one buffer of its weight.\<close>

theorem padded_linear_exact:
  assumes l: "pad_ready l w s" and gemm: "\<And>x w s. inner x w s = Inr (block_gemm blk x w s)"
    and zero: "\<And>xs c. blk xs (replicate 32 wzero) c = 0"
    and reach: "pad_reach zero wzero original inner st" and x: "\<forall>r \<in> set x. length r = SRC_K"
  shows "\<exists>l' w' s'. prepare wzero original label l st0 = (original l', l', st0\<lparr>p_padded := p_padded st0 + 1, p_logged_first := True\<rparr>)
     \<and> l_weight l' = Some w' \<and> l_scale l' = Some s'
     \<and> fst (linear zero (Inr cap) inner False key w' s' SRC_K x st) = Inr (block_gemm blk x (wt_rows w) (sc_rows s))
     \<and> (int (length x) \<le> cap \<longrightarrow> (\<exists>st'. pad_input zero (Inr cap) key x st = Inr (InBuf key (length x), st') \<and> padded_rows st' (InBuf key (length x)) = pad_rows zero x))"
proof -
  obtain v st' where v: "pad_input zero (Inr cap) key x st = Inr (v, st')" "padded_rows st' v = pad_rows zero x"
    "int (length x) \<le> cap \<Longrightarrow> v = InBuf key (length x)"
    by (rule pad_input_padded [OF reach_bufs_ok [OF reach] x, of cap key]) blast
  have rows: "wt_rows (padded_weight wzero w) = map (\<lambda>r. r @ replicate (TGT_K - SRC_K) wzero) (wt_rows w)"
    "sc_rows (padded_scale s) = map (\<lambda>r. r @ replicate 2 one_bits) (sc_rows s)" "wt_shape (padded_weight wzero w) = [HID, TGT_K]"
    by (simp_all add: padded_weight_def padded_scale_def)
  have "block_gemm blk (pad_rows zero x) (wt_rows (padded_weight wzero w)) (sc_rows (padded_scale s)) = block_gemm blk x (wt_rows w) (sc_rows s)"
    unfolding rows by (rule block_gemm_padded) (use zero l x in \<open>simp_all add: pad_ready_def HID_def\<close>)
  then have "fst (linear zero (Inr cap) inner False key (padded_weight wzero w) (padded_scale s) SRC_K x st) = Inr (block_gemm blk x (wt_rows w) (sc_rows s))"
    by (simp add: linear_def rows(3) v(1,2) gemm)
  moreover have "looks_like_shared_down l" "\<not> l_padded l" using l by (simp_all add: pad_ready_def)
  ultimately show ?thesis using v
    by (auto simp: prepare_def pad_weight_ready [OF l])
qed

definition demo_layer :: "int layer" where
  "demo_layer = \<lparr>l_weight = Some \<lparr>wt_shape = [5120, 576], wt_dtype = Float8E4M3, wt_rows = replicate 5120 (replicate 576 2)\<rparr>,
     l_scale = Some \<lparr>sc_shape = [160, 18], sc_dtype = Float32, sc_rows = replicate 160 (replicate 18 one_bits), sc_ue8m0 = None\<rparr>, l_padded = False\<rparr>"

lemma padded_linear_exact_witness:
  "let blk = (\<lambda>xs ws c. sum_list xs * sum_list ws :: int); inner = (\<lambda>x w s. Inr (block_gemm blk x w s)) :: int list list \<Rightarrow> int list list \<Rightarrow> int list list \<Rightarrow> int list list res;
       st = pad_init :: (nat, int) pad_state
   in \<exists>l' w' s'. snd (prepare 0 Inr ''mlp.shared_experts.down_proj'' demo_layer st) = (l', st\<lparr>p_padded := 1, p_logged_first := True\<rparr>)
     \<and> l_weight l' = Some w' \<and> l_scale l' = Some s'
     \<and> fst (linear 0 (Inr 256) inner False 7 w' s' SRC_K [replicate 576 3] st)
         = Inr (block_gemm blk [replicate 576 3] (replicate 5120 (replicate 576 2)) (replicate 160 (replicate 18 one_bits)))"
proof -
  let ?blk = "\<lambda>xs ws c. sum_list xs * sum_list ws :: int"
  let ?inner = "(\<lambda>x w s. Inr (block_gemm ?blk x w s)) :: int list list \<Rightarrow> int list list \<Rightarrow> int list list \<Rightarrow> int list list res"
  let ?w = "\<lparr>wt_shape = [5120, 576], wt_dtype = Float8E4M3, wt_rows = replicate 5120 (replicate 576 2)\<rparr> :: int weight_tensor"
  let ?s = "\<lparr>sc_shape = [160, 18], sc_dtype = Float32, sc_rows = replicate 160 (replicate 18 one_bits), sc_ue8m0 = None\<rparr>"
  have "pow2_bits one_bits" by (simp add: pow2_bits_def one_bits_def)
  then have ready: "pad_ready demo_layer ?w ?s"
    by (simp add: pad_ready_def demo_layer_def looks_like_shared_down_def HID_def SRC_K_def)
  have z: "?blk xs (replicate 32 0) c = 0" for xs c by (simp add: sum_list_replicate)
  have reach: "pad_reach 0 0 (Inr :: int layer \<Rightarrow> int layer res) ?inner (pad_init :: (nat, int) pad_state)" by (rule pad_reach.start)
  have x: "\<forall>r \<in> set [replicate 576 3]. length r = SRC_K" by (simp add: SRC_K_def)
  let ?st = "pad_init :: (nat, int) pad_state"
  obtain l' w' s' where A: "prepare 0 Inr ''mlp.shared_experts.down_proj'' demo_layer ?st
      = (Inr l', l', ?st\<lparr>p_padded := p_padded ?st + 1, p_logged_first := True\<rparr>)" "l_weight l' = Some w'" "l_scale l' = Some s'"
    "fst (linear 0 (Inr 256) ?inner False 7 w' s' SRC_K [replicate 576 3] ?st) = Inr (block_gemm ?blk [replicate 576 3] (wt_rows ?w) (sc_rows ?s))"
    using padded_linear_exact [where inner = ?inner and blk = ?blk and wzero = 0 and zero = 0 and st0 = ?st and cap = 256 and key = 7
        and label = "''mlp.shared_experts.down_proj''", OF ready refl z reach x] by blast
  have "p_padded ?st = 0" by (simp add: pad_init_def)
  then show ?thesis unfolding Let_def using A(2-4) by (intro exI [of _ l'] exI [of _ w'] exI [of _ s']) (simp add: A(1))
qed

text \<open>What the hook has to check: an e4m3 weight of the shared expert's shape with fp32 scales of
  32 by 32 blocks, each with an exponent field only, that is a positive power of two (or, with the
  largest field, infinity).\<close>

definition exponent_only :: "int \<Rightarrow> bool" where
  "exponent_only b \<longleftrightarrow> (\<exists>e. 0 < e \<and> e \<le> 255 \<and> b = e * 2 ^ 23)"

definition checked :: "'w weight_tensor \<Rightarrow> scale_tensor \<Rightarrow> bool" where
  "checked w s \<longleftrightarrow> wt_shape w = [5120, 576] \<and> wt_dtype w = Float8E4M3 \<and> sc_shape s = [160, 18] \<and> sc_dtype s = Float32
     \<and> (\<forall>row \<in> set (sc_rows s). \<forall>b \<in> set row. exponent_only b)"

lemma pow2_bits_iff: "pow2_bits b \<longleftrightarrow> exponent_only b"
proof -
  have m: "b AND 0x7FFFFF = b mod 2 ^ 23"
    using take_bit_eq_mask [of 23 b] by (simp add: take_bit_eq_mod mask_eq_exp_minus_1)
  show ?thesis
  proof
    assume b: "pow2_bits b"
    then have "b mod 2 ^ 23 = 0" unfolding pow2_bits_def m by blast
    then obtain q where d: "b = q * 2 ^ 23" by (metis add_0_right div_mult_mod_eq)
    have "0 < q \<and> q \<le> 255" using b d by (simp add: pow2_bits_def)
    then show "exponent_only b" using d unfolding exponent_only_def by blast
  next
    assume "exponent_only b"
    then obtain e where e: "0 < e" "e \<le> 255" "b = e * 2 ^ 23" by (auto simp: exponent_only_def)
    then have "b mod 2 ^ 23 = 0" by simp
    then show "pow2_bits b" using e unfolding pow2_bits_def m by simp
  qed
qed

text \<open>The exponent check lets an infinite scale through.\<close>

lemma infinite_scale_passes: "pow2_bits 0x7F800000"
  by (simp add: pow2_bits_def)

lemma pad_weight_cases:
  assumes "looks_like_shared_down l"
  shows "(case pad_weight wzero l st of
       Inl e \<Rightarrow> e = RuntimeError \<and> (\<forall>w s. l_weight l = Some w \<and> l_scale l = Some s \<longrightarrow> \<not> checked w s)
     | Inr (l', st') \<Rightarrow> (\<exists>w s. l_weight l = Some w \<and> l_scale l = Some s \<and> checked w s
          \<and> l' = \<lparr>l_weight = Some (padded_weight wzero w), l_scale = Some (padded_scale s), l_padded = True\<rparr>
          \<and> st' = st\<lparr>p_padded := p_padded st + 1, p_logged_first := True\<rparr>))"
proof -
  obtain w where w: "l_weight l = Some w" "wt_shape w = [HID, SRC_K]" "wt_dtype w = Float8E4M3"
    using assms by (auto simp: looks_like_shared_down_def split: option.splits)
  have c: "HID = 5120" "SRC_K = 576" "TGT_K = 640" "BLOCK = 32" by (simp_all add: pad_consts)
  show ?thesis
  proof (cases "l_scale l")
    case None
    then show ?thesis using w by (simp add: pad_weight_def)
  next
    case (Some s)
    then show ?thesis using w
      by (simp add: pad_weight_def ensure_def checked_def pow2_bits_iff padded_weight_def padded_scale_def Let_def c)
  qed
qed

text \<open>C40. No mismatch is served: for a layer named as the shared expert's projection, the hook raises a
  RuntimeError and leaves layer and state as they were, unless the layer has exactly what is to be
  checked: an e4m3 weight of shape 5120 by 576 and fp32 scales of shape 160 by 18 that are
  exponents only.  Then the wrapped function sees the layer padded to 640 columns with zeros in the
  weight and two more columns of ones in the scales.\<close>

theorem shared_layer_never_skipped:
  assumes "sublist ''shared_experts.down_proj'' label" "\<not> l_padded l"
  shows "if \<exists>w s. l_weight l = Some w \<and> l_scale l = Some s \<and> checked w s
     then \<exists>w s. l_weight l = Some w \<and> l_scale l = Some s \<and> checked w s
        \<and> (let l' = \<lparr>l_weight = Some (padded_weight wzero w), l_scale = Some (padded_scale s), l_padded = True\<rparr>
           in prepare wzero original label l st = (original l', l', st\<lparr>p_padded := p_padded st + 1, p_logged_first := True\<rparr>))
     else prepare wzero original label l st = (Inl RuntimeError, l, st)"
proof (cases "looks_like_shared_down l")
  case False
  then have n: "\<not> (\<exists>w s. l_weight l = Some w \<and> l_scale l = Some s \<and> checked w s)"
    by (auto simp: looks_like_shared_down_def checked_def pad_consts)
  show ?thesis unfolding if_not_P [OF n] using assms(1) False by (simp add: prepare_def)
next
  case True
  note P = pad_weight_cases [OF True, of wzero st]
  show ?thesis
  proof (cases "pad_weight wzero l st")
    case (Inl e)
    then have e: "e = RuntimeError" and n: "\<not> (\<exists>w s. l_weight l = Some w \<and> l_scale l = Some s \<and> checked w s)" using P by auto
    show ?thesis unfolding if_not_P [OF n] using True assms(2) Inl e by (simp add: prepare_def)
  next
    case (Inr p)
    obtain l' st' where p: "p = (l', st')" by fastforce
    then obtain w s where ws: "l_weight l = Some w" "l_scale l = Some s" "checked w s"
      "l' = \<lparr>l_weight = Some (padded_weight wzero w), l_scale = Some (padded_scale s), l_padded = True\<rparr>"
      "st' = st\<lparr>p_padded := p_padded st + 1, p_logged_first := True\<rparr>"
      using P Inr by auto
    then show ?thesis using True assms(2) Inr p by (simp add: prepare_def)
  qed
qed

text \<open>One layer is padded; without its scales, with scales of another layout, with a scale that is no
  power of two or with a weight of another type it is refused.\<close>

lemma shared_layer_never_skipped_witness:
  "let run = (\<lambda>l. prepare 0 (\<lambda>_. Inr ()) ''mlp.shared_experts.down_proj'' l (pad_init :: (nat, int) pad_state));
       s = \<lparr>sc_shape = [160, 18], sc_dtype = Float32, sc_rows = [[one_bits]], sc_ue8m0 = None\<rparr>;
       w = \<lparr>wt_shape = [5120, 576], wt_dtype = Float8E4M3, wt_rows = [[2]]\<rparr> :: int weight_tensor;
       l = \<lparr>l_weight = Some w, l_scale = Some s, l_padded = False\<rparr>
   in fst (run l) = Inr () \<and> map_option wt_shape (l_weight (fst (snd (run l)))) = Some [5120, 640]
     \<and> map_option sc_rows (l_scale (fst (snd (run l)))) = Some [[one_bits, one_bits, one_bits]]
     \<and> (\<forall>l' \<in> {l\<lparr>l_scale := None\<rparr>, l\<lparr>l_scale := Some (s\<lparr>sc_shape := [40, 5]\<rparr>)\<rparr>, l\<lparr>l_scale := Some (s\<lparr>sc_rows := [[3]]\<rparr>)\<rparr>,
               l\<lparr>l_weight := Some (w\<lparr>wt_dtype := OtherDtype\<rparr>)\<rparr>}. run l' = (Inl RuntimeError, l', pad_init))"
proof -
  define s where "s = \<lparr>sc_shape = [160, 18], sc_dtype = Float32, sc_rows = [[one_bits]], sc_ue8m0 = None\<rparr>"
  define w where "w = (\<lparr>wt_shape = [5120, 576], wt_dtype = Float8E4M3, wt_rows = [[2]]\<rparr> :: int weight_tensor)"
  define l where "l = \<lparr>l_weight = Some w, l_scale = Some s, l_padded = False\<rparr>"
  let ?run = "\<lambda>l. prepare 0 (\<lambda>_. Inr ()) ''mlp.shared_experts.down_proj'' l (pad_init :: (nat, int) pad_state)"
  have sub: "sublist ''shared_experts.down_proj'' ''mlp.shared_experts.down_proj''" by (simp add: sublist_code)
  have one: "exponent_only one_bits" and three: "\<not> exponent_only 3"
    by (simp_all add: pow2_bits_iff [symmetric] pow2_bits_def one_bits_def)
  note T = shared_layer_never_skipped [OF sub, where wzero = "0 :: int" and original = "\<lambda>_. Inr ()" and st = "pad_init :: (nat, int) pad_state", unfolded Let_def]
  have "checked w s" using one by (simp add: checked_def s_def w_def)
  then have ok: "?run l = (Inr (), \<lparr>l_weight = Some (padded_weight 0 w), l_scale = Some (padded_scale s), l_padded = True\<rparr>,
      (pad_init :: (nat, int) pad_state)\<lparr>p_padded := p_padded (pad_init :: (nat, int) pad_state) + 1, p_logged_first := True\<rparr>)"
    using T [of l] by (simp add: l_def)
  have bad: "?run l' = (Inl RuntimeError, l', pad_init)"
    if "\<not> l_padded l'" "\<not> (\<exists>w s. l_weight l' = Some w \<and> l_scale l' = Some s \<and> checked w s)" for l' :: "int layer"
    using T [OF that(1)] that(2) by argo
  have "?run (l\<lparr>l_scale := None\<rparr>) = (Inl RuntimeError, l\<lparr>l_scale := None\<rparr>, pad_init)"
    "?run (l\<lparr>l_scale := Some (s\<lparr>sc_shape := [40, 5]\<rparr>)\<rparr>) = (Inl RuntimeError, l\<lparr>l_scale := Some (s\<lparr>sc_shape := [40, 5]\<rparr>)\<rparr>, pad_init)"
    "?run (l\<lparr>l_scale := Some (s\<lparr>sc_rows := [[3]]\<rparr>)\<rparr>) = (Inl RuntimeError, l\<lparr>l_scale := Some (s\<lparr>sc_rows := [[3]]\<rparr>)\<rparr>, pad_init)"
    "?run (l\<lparr>l_weight := Some (w\<lparr>wt_dtype := OtherDtype\<rparr>)\<rparr>) = (Inl RuntimeError, l\<lparr>l_weight := Some (w\<lparr>wt_dtype := OtherDtype\<rparr>)\<rparr>, pad_init)"
    by (rule bad; simp add: l_def checked_def three)+
  moreover have "map_option wt_shape (l_weight (fst (snd (?run l)))) = Some [5120, 640]"
    "map_option sc_rows (l_scale (fst (snd (?run l)))) = Some [[one_bits, one_bits, one_bits]]" "fst (?run l) = Inr ()"
    unfolding ok by (simp_all add: padded_weight_def padded_scale_def w_def s_def pad_consts numeral_2_eq_2)
  ultimately show ?thesis unfolding Let_def s_def [symmetric] w_def [symmetric] l_def [symmetric] by blast
qed

text \<open>Preparing a layer a second time: the padded weight no longer has the shape the name check expects, so
  the hook raises before it looks at the mark that says the layer is padded.\<close>

lemma second_prepare_raises:
  assumes "pad_ready l w s" "sublist ''shared_experts.down_proj'' label"
  shows "\<exists>l' st'. pad_weight wzero l st = Inr (l', st') \<and> l_padded l' \<and> prepare wzero original label l' st' = (Inl RuntimeError, l', st')"
proof -
  have "SRC_K \<noteq> TGT_K" by (simp add: pad_consts)
  then show ?thesis using assms(2)
    by (simp add: pad_weight_ready [OF assms(1)] prepare_def looks_like_shared_down_def padded_weight_def)
qed

end
