(* ===== verification/PrefillReuse.thy ===== *)
theory PrefillReuse
  imports Prelude
begin

text \<open>
  Reuse of top-k selections on the prefill fast path (\<open>sglang-overlay/dsv4_prefill_reuse.py\<close>): the
  presets, the counters, and the scoring of one leader row per window with the broadcast of its
  selection.  The scoring of the indexer and the top-k transforms are parameters; the scratch a
  transform gets for raw indices holds unknown values.
\<close>

section \<open>Presets and counters\<close>

record reuse_preset =
  rp_window :: int
  rp_deep_layers :: "nat list"

definition deep10_layers :: "nat list" where
  "deep10_layers = [24, 26, 28, 30, 32, 34, 36, 38, 40, 42]"

definition window_for :: "reuse_preset \<Rightarrow> nat \<Rightarrow> nat \<Rightarrow> int" where
  "window_for p layer_id query_rows = (if layer_id \<in> set (rp_deep_layers p) then int query_rows else rp_window p)"

definition presets :: "string \<rightharpoonup> reuse_preset" where
  "presets = [''uniform-w4'' \<mapsto> \<lparr>rp_window = 4, rp_deep_layers = []\<rparr>, ''deep10-inf-w4'' \<mapsto> \<lparr>rp_window = 4, rp_deep_layers = deep10_layers\<rparr>]"

definition resolve_prefill_reuse_preset :: "string option \<Rightarrow> reuse_preset option res" where
  "resolve_prefill_reuse_preset name =
     (case name of None \<Rightarrow> Inr None | Some n \<Rightarrow> (case presets n of None \<Rightarrow> Inl KeyError | Some p \<Rightarrow> Inr (Some p)))"

record dose =
  d_calls :: nat
  d_rows_total :: nat
  d_rows_saved :: int

definition record_dose :: "nat \<Rightarrow> int \<Rightarrow> dose \<Rightarrow> dose" where
  "record_dose query_rows num_leaders d =
     \<lparr>d_calls = d_calls d + 1, d_rows_total = d_rows_total d + query_rows, d_rows_saved = d_rows_saved d + (int query_rows - num_leaders)\<rparr>"

section \<open>Scoring the leaders\<close>

record topk_backend =
  tb_torch :: bool
  tb_flashinfer :: bool
  tb_v2 :: bool

text \<open>The plan of the indexer: per-row ranges \<open>ks\<close>, \<open>ke\<close> and what is shared by the rows.\<close>

record 'p iplan =
  ip_ks :: "nat list"
  ip_ke :: "nat list"
  ip_rows :: nat
  ip_rest :: 'p

record ('q, 'w, 'g, 't, 'p) indexer_ops =
  ix_forward :: "'q list \<Rightarrow> 'w list \<Rightarrow> 'p iplan \<Rightarrow> 'g list res"
  ix_paged :: "'g list \<Rightarrow> nat list \<Rightarrow> 't list \<Rightarrow> int list list \<Rightarrow> int list list option \<Rightarrow> (int list list \<times> int list list option) res"
  ix_paged_v2 :: "'g list \<Rightarrow> nat list \<Rightarrow> 't list \<Rightarrow> int list list \<Rightarrow> int list list res"

definition index_select :: "'a list \<Rightarrow> nat list \<Rightarrow> 'a list res" where
  "index_select xs idx = res_list (\<lambda>i. ensure (i < length xs) IndexError (Inr (xs ! i))) idx"

text \<open>\<open>torch.arange(0, n, step)\<close> for a positive step.\<close>

definition arange_step :: "nat \<Rightarrow> nat \<Rightarrow> nat list" where
  "arange_step n step = map (\<lambda>k. k * step) [0..<(n + step - 1) div step]"

record ('q, 'w, 't, 'p) reuse_args =
  ra_plan :: "'p iplan"
  ra_q :: "'q list"
  ra_weights :: "'w list"
  ra_seq_lens :: "nat list"
  ra_page_table :: "'t list"
  ra_width :: nat

text \<open>The leaders' selections: the rows of the two transforms before they are broadcast.\<close>

definition leader_selection :: "('q, 'w, 'g, 't, 'p) indexer_ops \<Rightarrow> topk_backend \<Rightarrow> int list list \<Rightarrow> ('q, 'w, 't, 'p) reuse_args \<Rightarrow> bool \<Rightarrow> nat list
    \<Rightarrow> (int list list \<times> int list list option) res" where
  "leader_selection X tb garbage a raw leaders =
     res_bind (index_select (ip_ke (ra_plan a)) leaders) (\<lambda>ke.
     res_bind (index_select (ra_q a) leaders) (\<lambda>q.
     res_bind (index_select (ra_weights a) leaders) (\<lambda>w.
     res_bind (ix_forward X q w ((ra_plan a)\<lparr>ip_ks := map (\<lambda>_. 0) ke, ip_ke := ke, ip_rows := length leaders\<rparr>)) (\<lambda>logits.
     res_bind (index_select (ra_seq_lens a) leaders) (\<lambda>lens.
     res_bind (index_select (ra_page_table a) leaders) (\<lambda>table.
     let pages = replicate (length leaders) (replicate (ra_width a) (- 1)) in
     if tb_v2 tb \<and> \<not> raw then res_map (\<lambda>p. (p, None)) (ix_paged_v2 X logits lens table pages)
     else ix_paged X logits lens table pages (if raw then Some garbage else None)))))))"

text \<open>\<open>pages\<close> and \<open>raw\<close> are the caller's buffers; the result is the flag with the buffers and counters left.\<close>

definition maybe_apply_reuse :: "('q, 'w, 'g, 't, 'p) indexer_ops \<Rightarrow> topk_backend \<Rightarrow> int list list \<Rightarrow> reuse_preset \<Rightarrow> nat \<Rightarrow> bool
    \<Rightarrow> ('q, 'w, 't, 'p) reuse_args \<Rightarrow> int list list \<Rightarrow> int list list option \<Rightarrow> dose
    \<Rightarrow> (bool \<times> int list list \<times> int list list option \<times> dose) res" where
  "maybe_apply_reuse X tb garbage p layer_id is_final_chunk a pages raw d =
     (if is_final_chunk \<or> tb_torch tb \<or> tb_flashinfer tb then Inr (False, pages, raw, d)
      else let rows = length (ra_q a); window = window_for p layer_id rows in
        ensure (window \<noteq> 0) ZeroDivisionError
        (let num_leaders = - (- int rows div window) in
         if num_leaders \<ge> int rows then Inr (False, pages, raw, d)
         else ensure (window > 0) RuntimeError
           (let leaders = arange_step rows (nat window); row_to_leader = map (\<lambda>r. r div nat window) [0..<rows] in
            res_bind (leader_selection X tb garbage a (raw \<noteq> None) leaders) (\<lambda>(leader_pages, leader_raw).
            res_bind (index_select leader_pages row_to_leader) (\<lambda>pages'.
            ensure (length pages = rows) RuntimeError
            (res_bind (case (leader_raw, raw) of
                (Some lr, Some rw) \<Rightarrow> res_bind (index_select lr row_to_leader) (\<lambda>rows'. ensure (rows \<le> length rw) RuntimeError (Inr (Some (rows' @ drop rows rw))))
              | _ \<Rightarrow> Inr raw) (\<lambda>raw'.
            Inr (True, pages', raw', record_dose rows num_leaders d))))))))"

section \<open>Windows and leaders\<close>

lemma index_select_Inr: "index_select xs idx = Inr ys \<longleftrightarrow> (\<forall>i \<in> set idx. i < length xs) \<and> ys = map ((!) xs) idx"
proof -
  have "index_select xs idx = Inr ys \<longleftrightarrow> length ys = length idx \<and> (\<forall>k < length idx. idx ! k < length xs \<and> ys ! k = xs ! (idx ! k))"
    by (auto simp: index_select_def res_list_Inr ensure_Inr)
  then show ?thesis by (auto simp: all_set_conv_all_nth intro!: nth_equalityI)
qed

lemma ceil_leaders:
  assumes "0 < (w :: nat)"
  shows "- (- int n div int w) = int ((n + w - 1) div w)"
proof -
  let ?q = "(n + w - 1) div w"
  have "?q * w \<le> n + w - 1" by simp
  then have lt: "?q * w < n + w" using assms by linarith
  have "n + w - 1 < w + ?q * w" by (rule dividend_less_div_times [OF assms])
  then have ge: "n \<le> ?q * w" using assms by linarith
  have "- int n div int w = - int ?q"
  proof (rule int_div_pos_eq)
    show "- int n = int w * - int ?q + (int (?q * w) - int n)" by simp
    show "0 \<le> int (?q * w) - int n" "int (?q * w) - int n < int w" using ge lt by linarith+
  qed
  then show ?thesis by simp
qed

lemma leaders_props:
  assumes "0 < w"
  shows "\<forall>l \<in> set (arange_step n w). l < n" "length (arange_step n w) = (n + w - 1) div w"
    "r < n \<Longrightarrow> r div w < length (arange_step n w)" "r < n \<Longrightarrow> arange_step n w ! (r div w) = r - r mod w"
proof -
  show len: "length (arange_step n w) = (n + w - 1) div w" by (simp add: arange_step_def)
  show "\<forall>l \<in> set (arange_step n w). l < n"
  proof
    fix l assume "l \<in> set (arange_step n w)"
    then obtain k where k: "k < (n + w - 1) div w" "l = k * w" by (auto simp: arange_step_def)
    have "Suc k * w \<le> (n + w - 1) div w * w" using k(1) by (intro mult_le_mono1) simp
    also have "\<dots> \<le> n + w - 1" by simp
    finally show "l < n" using k(2) assms by simp
  qed
  show lt: "r div w < length (arange_step n w)" if "r < n" for r
  proof -
    have "r \<le> n - 1" using that by linarith
    then have "r div w < Suc ((n - 1) div w)" by (simp add: div_le_mono less_Suc_eq_le)
    also have "\<dots> = (n + w - 1) div w" using that assms div_add_self2 [of w "n - 1"] by simp
    finally show ?thesis by (simp add: len)
  qed
  show "arange_step n w ! (r div w) = r - r mod w" if "r < n" for r
    using lt [OF that] by (simp add: arange_step_def minus_mod_eq_div_mult)
qed

section \<open>Every row takes its leader's selection\<close>

text \<open>The kernels work row by row: the scores of a row depend on its query, weights and range, its selection
  on its scores, length and page table and on what the output row held before.\<close>

definition rowwise :: "('q, 'w, 'g, 't, 'p) indexer_ops \<Rightarrow> ('q \<Rightarrow> 'w \<Rightarrow> nat \<Rightarrow> 'g) \<Rightarrow> ('g \<Rightarrow> nat \<Rightarrow> 't \<Rightarrow> int list \<Rightarrow> int list)
    \<Rightarrow> ('g \<Rightarrow> nat \<Rightarrow> 't \<Rightarrow> int list) \<Rightarrow> bool" where
  "rowwise X score sel rsel \<longleftrightarrow>
     (\<forall>q w pl. length w = length q \<longrightarrow> ip_rows pl = length q \<longrightarrow> length (ip_ke pl) = length q \<longrightarrow> ip_ks pl = replicate (length q) 0 \<longrightarrow>
        ix_forward X q w pl = Inr (map (\<lambda>i. score (q ! i) (w ! i) (ip_ke pl ! i)) [0..<length q]))
   \<and> (\<forall>g n t pg. length n = length g \<longrightarrow> length t = length g \<longrightarrow> length pg = length g \<longrightarrow>
        ix_paged_v2 X g n t pg = Inr (map (\<lambda>i. sel (g ! i) (n ! i) (t ! i) (pg ! i)) [0..<length g])
      \<and> (\<forall>raw. ix_paged X g n t pg raw = Inr (map (\<lambda>i. sel (g ! i) (n ! i) (t ! i) (pg ! i)) [0..<length g],
             map_option (\<lambda>_. map (\<lambda>i. rsel (g ! i) (n ! i) (t ! i)) [0..<length g]) raw)))"

definition args_ok :: "('q, 'w, 't, 'p) reuse_args \<Rightarrow> bool" where
  "args_ok a \<longleftrightarrow> length (ra_weights a) = length (ra_q a) \<and> length (ip_ke (ra_plan a)) = length (ra_q a)
     \<and> length (ra_seq_lens a) = length (ra_q a) \<and> length (ra_page_table a) = length (ra_q a)"

text \<open>What row \<open>r\<close> selects when it is scored itself.\<close>

definition own_scores :: "('q \<Rightarrow> 'w \<Rightarrow> nat \<Rightarrow> 'g) \<Rightarrow> ('q, 'w, 't, 'p) reuse_args \<Rightarrow> nat \<Rightarrow> 'g" where
  "own_scores score a r = score (ra_q a ! r) (ra_weights a ! r) (ip_ke (ra_plan a) ! r)"

definition own_pages :: "('q \<Rightarrow> 'w \<Rightarrow> nat \<Rightarrow> 'g) \<Rightarrow> ('g \<Rightarrow> nat \<Rightarrow> 't \<Rightarrow> int list \<Rightarrow> int list) \<Rightarrow> ('q, 'w, 't, 'p) reuse_args \<Rightarrow> nat \<Rightarrow> int list" where
  "own_pages score sel a r = sel (own_scores score a r) (ra_seq_lens a ! r) (ra_page_table a ! r) (replicate (ra_width a) (- 1))"

definition own_raw :: "('q \<Rightarrow> 'w \<Rightarrow> nat \<Rightarrow> 'g) \<Rightarrow> ('g \<Rightarrow> nat \<Rightarrow> 't \<Rightarrow> int list) \<Rightarrow> ('q, 'w, 't, 'p) reuse_args \<Rightarrow> nat \<Rightarrow> int list" where
  "own_raw score rsel a r = rsel (own_scores score a r) (ra_seq_lens a ! r) (ra_page_table a ! r)"

lemma leader_selection_rows:
  assumes X: "rowwise X score sel rsel" and a: "args_ok a" and l: "\<forall>l \<in> set leaders. l < length (ra_q a)"
  shows "leader_selection X tb garbage a raw leaders
    = Inr (map (own_pages score sel a) leaders, if raw then Some (map (own_raw score rsel a) leaders) else None)"
proof -
  have sel: "index_select xs leaders = Inr (map ((!) xs) leaders)" if "length xs = length (ra_q a)" for xs :: "'z list"
    using l that by (simp add: index_select_Inr)
  have eq: "map f leaders = map (\<lambda>i. f (leaders ! i)) [0..<length leaders]" for f :: "nat \<Rightarrow> 'z"
    by (rule nth_equalityI) simp_all
  show ?thesis
    using a X unfolding leader_selection_def Let_def args_ok_def
    by (auto simp: sel rowwise_def res_map_def map_replicate_const own_pages_def own_raw_def own_scores_def eq [of "own_pages score sel a"] eq [of "own_raw score rsel a"])
qed

text \<open>C37. Reuse never looks ahead: when selections are reused, every query row gets, page indices and raw
  indices alike, exactly what the first row of its window selects when scored itself; that row is not
  behind it and less than a window away, so with growing lengths no selection saw later tokens, the
  leaders' rows are what full scoring gives, and the counters record the rows that were saved.  Otherwise
  nothing is touched, and the final chunk is always of that kind.\<close>

theorem reuse_broadcasts_leaders:
  assumes X: "rowwise X score sel rsel" and a: "args_ok a" and w: "0 < rp_window p" and ne: "ra_q a \<noteq> []"
    and bufs: "length pages = length (ra_q a)" "\<And>rw. raw = Some rw \<Longrightarrow> length (ra_q a) \<le> length rw"
  shows "\<exists>done pages' raw' d'. maybe_apply_reuse X tb garbage p layer_id final a pages raw d = Inr (done, pages', raw', d')
     \<and> (final \<longrightarrow> \<not> done) \<and> (\<not> done \<longrightarrow> pages' = pages \<and> raw' = raw \<and> d' = d)
     \<and> (done \<longrightarrow> (\<exists>win > 0. int win = window_for p layer_id (length (ra_q a)) \<and> length pages' = length (ra_q a)
         \<and> (\<forall>r < length (ra_q a). r - r mod win \<le> r \<and> r < r - r mod win + win
              \<and> (sorted (ra_seq_lens a) \<longrightarrow> ra_seq_lens a ! (r - r mod win) \<le> ra_seq_lens a ! r)
              \<and> pages' ! r = own_pages score sel a (r - r mod win)
              \<and> (\<forall>rw. raw = Some rw \<longrightarrow> (\<exists>rw'. raw' = Some rw' \<and> rw' ! r = own_raw score rsel a (r - r mod win))))
         \<and> d_rows_saved d' = d_rows_saved d + (int (length (ra_q a)) - int ((length (ra_q a) + win - 1) div win)) \<and> d_rows_saved d < d_rows_saved d'))"
proof -
  let ?n = "length (ra_q a)"
  define win where "win = nat (window_for p layer_id ?n)"
  have n0: "0 < ?n" using ne by simp
  have win: "0 < win" "window_for p layer_id ?n = int win" using w n0 by (simp_all add: win_def window_for_def)
  have ceil: "- (- int ?n div int win) = int ((?n + win - 1) div win)" by (rule ceil_leaders [OF win(1)])
  note L = leaders_props [OF win(1)]
  show ?thesis
  proof (cases "final \<or> tb_torch tb \<or> tb_flashinfer tb \<or> (?n + win - 1) div win \<ge> ?n")
    case True
    then show ?thesis using win ceil by (auto simp: maybe_apply_reuse_def Let_def)
  next
    case False
    let ?leaders = "arange_step ?n win" and ?to = "map (\<lambda>r. r div win) [0..<?n]"
    have l: "\<forall>l \<in> set ?leaders. l < ?n" by (rule L(1))
    let ?raw = "case raw of None \<Rightarrow> None | Some rw \<Rightarrow> Some (map (\<lambda>r. own_raw score rsel a (r - r mod win)) [0..<?n] @ drop ?n rw)"
    have take: "index_select (map f ?leaders) ?to = Inr (map (\<lambda>r. f (r - r mod win)) [0..<?n])" for f :: "nat \<Rightarrow> 'z"
      using L(3,4) by (auto simp: index_select_Inr)
    have run: "maybe_apply_reuse X tb garbage p layer_id final a pages raw d
        = Inr (True, map (\<lambda>r. own_pages score sel a (r - r mod win)) [0..<?n], ?raw, record_dose ?n (int ((?n + win - 1) div win)) d)"
      using False win bufs unfolding maybe_apply_reuse_def Let_def win(2) ceil nat_int leader_selection_rows [OF X a l]
      by (auto simp: take split: option.splits)
    have rw: "?raw = Some (map (\<lambda>r. own_raw score rsel a (r - r mod win)) [0..<?n] @ drop ?n rw)" if "raw = Some rw" for rw using that by simp
    have mono: "sorted (ra_seq_lens a) \<longrightarrow> ra_seq_lens a ! (r - r mod win) \<le> ra_seq_lens a ! r" if "r < ?n" for r
      using that a by (auto simp: args_ok_def intro: sorted_nth_mono)
    have near: "r < r - r mod win + win" for r using mod_less_divisor [OF win(1), of r] by linarith
    have "\<not> final" using False by simp
    then show ?thesis unfolding run using False win mono near
      by (intro exI [of _ True] exI [of _ "map (\<lambda>r. own_pages score sel a (r - r mod win)) [0..<?n]"] exI [of _ ?raw]
          exI [of _ "record_dose ?n (int ((?n + win - 1) div win)) d"] conjI impI; (intro exI [of _ win])?)
        (auto simp: record_dose_def nth_append)
  qed
qed

definition demo_indexer :: "(nat, nat, nat, unit, unit) indexer_ops" where
  "demo_indexer = \<lparr>
     ix_forward = (\<lambda>q w pl. Inr (map (\<lambda>i. q ! i) [0..<length q])),
     ix_paged = (\<lambda>g n t pg raw. Inr (map (\<lambda>i. [int (g ! i)]) [0..<length g], map_option (\<lambda>_. map (\<lambda>i. [int (g ! i)]) [0..<length g]) raw)),
     ix_paged_v2 = (\<lambda>g n t pg. Inr (map (\<lambda>i. [int (g ! i)]) [0..<length g]))\<rparr>"

definition demo_reuse :: "(nat, nat, unit, unit) reuse_args" where
  "demo_reuse = \<lparr>ra_plan = \<lparr>ip_ks = replicate 6 0, ip_ke = [1, 2, 3, 4, 5, 6], ip_rows = 6, ip_rest = ()\<rparr>, ra_q = [10, 11, 12, 13, 14, 15],
     ra_weights = replicate 6 1, ra_seq_lens = [1, 2, 3, 4, 5, 6], ra_page_table = replicate 6 (), ra_width = 1\<rparr>"

lemma reuse_broadcasts_leaders_witness:
  "\<exists>done pages' raw' d'. maybe_apply_reuse demo_indexer \<lparr>tb_torch = False, tb_flashinfer = False, tb_v2 = True\<rparr> [] \<lparr>rp_window = 4, rp_deep_layers = []\<rparr> 24 False demo_reuse
       (replicate 6 [- 1]) None \<lparr>d_calls = 0, d_rows_total = 0, d_rows_saved = 0\<rparr> = Inr (done, pages', raw', d')
     \<and> done \<and> pages' = [[10], [10], [10], [10], [14], [14]]"
proof -
  have X: "rowwise demo_indexer (\<lambda>q w ke. q) (\<lambda>g n t pg. [int g]) (\<lambda>g n t. [int g])"
    by (simp add: rowwise_def demo_indexer_def)
  have a: "args_ok demo_reuse" "ra_q demo_reuse \<noteq> []" "length (replicate 6 [- 1 :: int]) = length (ra_q demo_reuse)" "length (ra_q demo_reuse) = 6"
    by (simp_all add: args_ok_def demo_reuse_def)
  have run: "map_sum id (\<lambda>(done, pages', rest). (done, pages')) (maybe_apply_reuse demo_indexer \<lparr>tb_torch = False, tb_flashinfer = False, tb_v2 = True\<rparr> [] \<lparr>rp_window = 4, rp_deep_layers = []\<rparr> 24 False demo_reuse
       (replicate 6 [- 1]) None \<lparr>d_calls = 0, d_rows_total = 0, d_rows_saved = 0\<rparr>) = Inr (True, [[10], [10], [10], [10], [14], [14]])"
    by code_simp
  show ?thesis
    using reuse_broadcasts_leaders [OF X a(1) _ a(2,3), of "\<lparr>rp_window = 4, rp_deep_layers = []\<rparr>" None
        "\<lparr>tb_torch = False, tb_flashinfer = False, tb_v2 = True\<rparr>" "[]" 24 False "\<lparr>d_calls = 0, d_rows_total = 0, d_rows_saved = 0\<rparr>"] run
    by fastforce
qed

text \<open>The presets: each has a positive window, so only an empty batch on a deep layer divides by zero.\<close>

lemma preset_windows: "resolve_prefill_reuse_preset (Some n) = Inr (Some p) \<Longrightarrow> 0 < rp_window p"
  by (auto simp: resolve_prefill_reuse_preset_def presets_def split: if_splits)

lemma empty_deep_batch_divides_by_zero:
  assumes "layer_id \<in> set deep10_layers" "ra_q a = []" "\<not> tb_torch tb" "\<not> tb_flashinfer tb"
  shows "maybe_apply_reuse X tb garbage \<lparr>rp_window = 4, rp_deep_layers = deep10_layers\<rparr> layer_id False a pages raw d = Inl ZeroDivisionError"
  using assms by (simp add: maybe_apply_reuse_def window_for_def Let_def)

end
