(* ===== verification/PoolLayers.thy ===== *)
theory PoolLayers
  imports KVLayout
begin

text \<open>
  The compressed pools of the token-to-KV pool (\<open>sglang-overlay/deepseek_v4_memory_pool.py\<close>, class
  \<open>DeepSeekV4TokenToKVPool\<close>): the layers of the pipeline stage, the layers that own storage, the pools
  per compression ratio, the mapping of layers to pool layers, the compressor states, the buffers
  announced for transfers, and the request-scoped resets.  Tensors are sizes and strides; the
  state buffers are lists of slots.
\<close>

section \<open>Stage and sources\<close>

record pool_cfg =
  cf_ratios :: "int list"
  cf_start :: "nat option"
  cf_end :: "nat option"
  cf_kv_sources :: "nat list"
  cf_c4 :: int
  cf_c128 :: int
  cf_full :: "int option"
  cf_page :: int
  cf_hisparse :: bool
  cf_unified :: bool
  cf_layout :: kv_layout
  cf_option :: "string option"
  cf_nope :: int
  cf_rope :: int
  cf_index_dim :: int
  cf_fp4_indexer :: bool
  cf_hip :: bool

definition stage_range :: "pool_cfg \<Rightarrow> nat \<times> nat" where
  "stage_range c =
     (case (cf_start c, cf_end c) of
        (Some s, Some e) \<Rightarrow> if length (cf_ratios c) \<ge> e then (s, e) else (0, length (cf_ratios c))
      | _ \<Rightarrow> (0, length (cf_ratios c)))"

text \<open>The dictionary is an association list in insertion order.\<close>

definition collect_sources_by_ratio :: "pool_cfg \<Rightarrow> (int \<times> nat list) list res" where
  "collect_sources_by_ratio c =
     (let (s, e) = stage_range c in
      ensure (\<forall>i \<in> set [s..<e]. cf_ratios c ! i \<in> {0, 1, 2, 4, 128}) ValueError
      (Inr (filter (\<lambda>(_, ls). ls \<noteq> [])
        (map (\<lambda>r. (r, if r \<in> {1, 2} then filter (\<lambda>l. s \<le> l \<and> l < e \<and> cf_ratios c ! l = r) (cf_kv_sources c)
                       else filter (\<lambda>l. cf_ratios c ! l = r) [s..<e])) [4, 128, 1, 2]))))"

definition dict_get :: "('k \<times> 'v) list \<Rightarrow> 'k \<Rightarrow> 'v res" where
  "dict_get d k = (case map_of d k of None \<Rightarrow> Inl KeyError | Some v \<Rightarrow> Inr v)"

definition source_layer_of :: "pool_cfg \<Rightarrow> (int \<times> nat list) list \<Rightarrow> nat \<Rightarrow> nat res" where
  "source_layer_of c sources layer =
     res_bind (dict_get sources (cf_ratios c ! layer)) (\<lambda>ls.
     let cand = filter (\<lambda>l. l \<le> layer) ls in ensure (cand \<noteq> []) AssertionError (Inr (Max (set cand))))"

section \<open>Pools\<close>

record kv_pool =
  kp_page :: int
  kp_layers :: nat
  kp_layout :: kv_layout
  kp_pages :: int
  kp_row_bytes :: int

definition make_kv_pool :: "(int \<Rightarrow> int \<Rightarrow> int) \<Rightarrow> pool_cfg \<Rightarrow> int \<Rightarrow> int \<Rightarrow> nat \<Rightarrow> bool \<Rightarrow> kv_layout \<Rightarrow> kv_pool res" where
  "make_kv_pool ceil_div c sz page layers hisparse layout =
     ensure (page \<noteq> 0 \<or> layers = 0) ZeroDivisionError
     (res_bind (create_buffer ceil_div layout (cf_nope c) (cf_rope c) page (pool_num_pages sz page)) (\<lambda>(pages, row_bytes).
     ensure (hisparse \<longrightarrow> layout = V4) AssertionError
     (Inr \<lparr>kp_page = page, kp_layers = layers, kp_layout = layout, kp_pages = pages, kp_row_bytes = row_bytes\<rparr>)))"

definition pool_layout :: "pool_cfg \<Rightarrow> int \<Rightarrow> kv_layout res" where
  "pool_layout c ratio =
     res_bind (resolve_compressed_kv_layout (cf_layout c) ratio (cf_option c)) (\<lambda>l.
     ensure (is_valid_fork_kv_layout_pair (cf_layout c) l) AssertionError (Inr l))"

record index_pool =
  xp_page :: int
  xp_layers :: nat
  xp_fp4 :: bool
  xp_rne :: bool
  xp_pages :: int
  xp_bytes_per_token :: int

definition DSV41_INDEX_PAGE_SIZE :: int where "DSV41_INDEX_PAGE_SIZE = 64"

definition make_indexer_pool :: "pool_cfg \<Rightarrow> int \<Rightarrow> int \<Rightarrow> nat \<Rightarrow> bool \<Rightarrow> index_pool res" where
  "make_indexer_pool c sz page layers force_fp4 =
     ensure (page \<noteq> 0) ZeroDivisionError
     (let fp4 = (force_fp4 \<or> cf_fp4_indexer c) in
      Inr \<lparr>xp_page = page, xp_layers = layers, xp_fp4 = fp4, xp_rne = force_fp4, xp_pages = pool_num_pages sz page,
           xp_bytes_per_token = get_dsv4_indexer_bytes_per_token (cf_index_dim c) fp4\<rparr>)"

definition kv_pool_size :: "pool_cfg \<Rightarrow> int \<Rightarrow> int" where
  "kv_pool_size c ratio = (if ratio = 4 then cf_c4 c else if ratio = 128 then cf_c128 c else the (cf_full c) div ratio)"

definition init_compressed_pools :: "(int \<Rightarrow> int \<Rightarrow> int) \<Rightarrow> pool_cfg \<Rightarrow> (int \<times> nat list) list \<Rightarrow> ((int \<times> kv_pool) list \<times> (int \<times> index_pool) list) res" where
  "init_compressed_pools ceil_div c sources =
     (let low = (\<exists>(r, _) \<in> set sources. r \<in> {1, 2}) in
      ensure (low \<longrightarrow> cf_full c \<noteq> None) AssertionError
      (ensure (low \<longrightarrow> \<not> cf_unified c) AssertionError
      (res_bind (if cf_unified c then Inr []
          else res_list (\<lambda>(r, ls). res_bind (pool_layout c r) (\<lambda>layout.
             res_map (\<lambda>p. (r, p)) (make_kv_pool ceil_div c (kv_pool_size c r) (cf_page c div r) (length ls) (r = 4 \<and> cf_hisparse c) layout))) sources) (\<lambda>kvs.
       res_map (\<lambda>idx. (kvs, idx))
         (res_list (\<lambda>(r, ls). res_map (\<lambda>p. (r, p))
            (if r = 4 then make_indexer_pool c (cf_c128 c * 32) (cf_page c div 4) (length ls) False
             else make_indexer_pool c ((the (cf_full c) + cf_page c) div r) DSV41_INDEX_PAGE_SIZE (length ls) True))
          (filter (\<lambda>(r, _). r \<noteq> 128) sources))))))"

section \<open>The mapping of layers\<close>

record layer_item =
  li_ratio :: int
  li_layer :: nat
  li_pool :: "kv_pool option"

text \<open>\<open>sources.index\<close>; the element is there when it is called.\<close>

definition index_of :: "'a list \<Rightarrow> 'a \<Rightarrow> nat" where
  "index_of xs x = length (takeWhile (\<lambda>y. y \<noteq> x) xs)"

definition layer_item_of :: "pool_cfg \<Rightarrow> (int \<times> nat list) list \<Rightarrow> (int \<times> kv_pool) list \<Rightarrow> nat \<Rightarrow> layer_item res" where
  "layer_item_of c sources kvs i =
     (let s = fst (stage_range c); r = cf_ratios c ! i in
      if r = 0 then Inr \<lparr>li_ratio = 0, li_layer = length (filter (\<lambda>k. cf_ratios c ! k = 0) [s..<i]), li_pool = None\<rparr>
      else res_bind (dict_get sources r) (\<lambda>ls. res_bind (source_layer_of c sources i) (\<lambda>src.
        Inr \<lparr>li_ratio = r, li_layer = index_of ls src, li_pool = map_of kvs r\<rparr>)))"

definition init_compressed_layer_mapping :: "pool_cfg \<Rightarrow> (int \<times> nat list) list \<Rightarrow> (int \<times> kv_pool) list \<Rightarrow> layer_item option list res" where
  "init_compressed_layer_mapping c sources kvs =
     (let (s, e) = stage_range c in
      res_map (\<lambda>items. map (\<lambda>i. if s \<le> i \<and> i < e then Some (items ! (i - s)) else None) [0..<length (cf_ratios c)])
        (res_list (layer_item_of c sources kvs) [s..<e]))"

record dsv4_pool =
  dp_sources :: "(int \<times> nat list) list"
  dp_kv :: "(int \<times> kv_pool) list"
  dp_index :: "(int \<times> index_pool) list"
  dp_map :: "layer_item option list"

definition init_pools :: "(int \<Rightarrow> int \<Rightarrow> int) \<Rightarrow> pool_cfg \<Rightarrow> dsv4_pool res" where
  "init_pools ceil_div c =
     res_bind (collect_sources_by_ratio c) (\<lambda>sources.
     res_bind (init_compressed_pools ceil_div c sources) (\<lambda>(kvs, idx).
     res_map (\<lambda>mp. \<lparr>dp_sources = sources, dp_kv = kvs, dp_index = idx, dp_map = mp\<rparr>) (init_compressed_layer_mapping c sources kvs)))"

text \<open>The accessors of a layer's compressed cache and of its index pool.\<close>

definition mapped_item :: "dsv4_pool \<Rightarrow> nat \<Rightarrow> layer_item res" where
  "mapped_item P layer = (case dp_map P ! layer of None \<Rightarrow> Inl TypeError | Some it \<Rightarrow> Inr it)"

definition extra_key_pool :: "dsv4_pool \<Rightarrow> nat \<Rightarrow> (kv_pool \<times> nat) res" where
  "extra_key_pool P layer =
     res_bind (mapped_item P layer) (\<lambda>it. case li_pool it of None \<Rightarrow> Inl AssertionError | Some p \<Rightarrow> Inr (p, li_layer it))"

definition get_extra_key_page_size :: "dsv4_pool \<Rightarrow> nat \<Rightarrow> int res" where
  "get_extra_key_page_size P layer = res_map (\<lambda>(p, _). kp_page p) (extra_key_pool P layer)"

definition get_extra_key_layout :: "dsv4_pool \<Rightarrow> nat \<Rightarrow> kv_layout res" where
  "get_extra_key_layout P layer = res_map (\<lambda>(p, _). kp_layout p) (extra_key_pool P layer)"

definition get_extra_key_bytes_per_token :: "dsv4_pool \<Rightarrow> nat \<Rightarrow> int res" where
  "get_extra_key_bytes_per_token P layer = res_map bytes_per_token (get_extra_key_layout P layer)"

definition indexer_pool :: "dsv4_pool \<Rightarrow> int \<Rightarrow> index_pool res" where
  "indexer_pool P ratio = (case map_of (dp_index P) ratio of None \<Rightarrow> Inl AssertionError | Some p \<Rightarrow> Inr p)"

definition layer_index_pool :: "dsv4_pool \<Rightarrow> nat \<Rightarrow> (index_pool \<times> nat) res" where
  "layer_index_pool P layer = res_bind (mapped_item P layer) (\<lambda>it. res_map (\<lambda>p. (p, li_layer it)) (indexer_pool P (li_ratio it)))"

section \<open>Sources and the mapping\<close>

lemma index_of_nth: "x \<in> set xs \<Longrightarrow> index_of xs x < length xs \<and> xs ! index_of xs x = x"
  unfolding index_of_def by (induction xs) auto

lemma stage_end: "stage_range c = (s, e) \<Longrightarrow> e \<le> length (cf_ratios c)"
  by (auto simp: stage_range_def split: option.splits if_splits)

definition source_list :: "pool_cfg \<Rightarrow> int \<Rightarrow> nat list" where
  "source_list c r = (let (s, e) = stage_range c in
     if r \<in> {1, 2} then filter (\<lambda>l. s \<le> l \<and> l < e \<and> cf_ratios c ! l = r) (cf_kv_sources c)
     else filter (\<lambda>l. cf_ratios c ! l = r) [s..<e])"

lemma collected_sources:
  assumes "collect_sources_by_ratio c = Inr sources"
  shows "map_of sources r = (if r \<in> {4, 128, 1, 2} \<and> source_list c r \<noteq> [] then Some (source_list c r) else None)"
    "set sources = {(r, source_list c r) | r. r \<in> {4, 128, 1, 2} \<and> source_list c r \<noteq> []}" "distinct (map fst sources)"
    "\<And>i s e. stage_range c = (s, e) \<Longrightarrow> s \<le> i \<Longrightarrow> i < e \<Longrightarrow> cf_ratios c ! i \<in> {0, 1, 2, 4, 128}"
proof -
  have src: "sources = filter (\<lambda>(_, ls). ls \<noteq> []) (map (\<lambda>r. (r, source_list c r)) [4, 128, 1, 2])"
    using assms by (auto simp: collect_sources_by_ratio_def source_list_def ensure_Inr split: prod.splits)
  show "map_of sources r = (if r \<in> {4, 128, 1, 2} \<and> source_list c r \<noteq> [] then Some (source_list c r) else None)"
    unfolding src by (auto simp del: filter.simps) (auto split: if_splits)
  show "set sources = {(r, source_list c r) | r. r \<in> {4, 128, 1, 2} \<and> source_list c r \<noteq> []}" unfolding src by auto
  show "distinct (map fst sources)" unfolding src by auto
  show "cf_ratios c ! i \<in> {0, 1, 2, 4, 128}" if "stage_range c = (s, e)" "s \<le> i" "i < e" for i s e
    using assms that by (auto simp: collect_sources_by_ratio_def ensure_Inr)
qed

lemma map_of_res_list:
  assumes "res_list (\<lambda>(r, ls). res_map (\<lambda>p. (r, p)) (f r ls)) xs = Inr ys"
  shows "map_of ys r = (case map_of xs r of None \<Rightarrow> None | Some ls \<Rightarrow> (case f r ls of Inl _ \<Rightarrow> None | Inr p \<Rightarrow> Some p))"
  using assms by (induction xs arbitrary: ys) (auto simp: res_simps split: if_splits)

lemma map_of_filter_fst: "P r \<Longrightarrow> map_of (filter (\<lambda>(k, _). P k) xs) r = map_of xs r"
  by (induction xs) auto

text \<open>The two registries of a construction, ratio by ratio.\<close>

definition kv_pool_of :: "(int \<Rightarrow> int \<Rightarrow> int) \<Rightarrow> pool_cfg \<Rightarrow> int \<Rightarrow> nat list \<Rightarrow> kv_pool res" where
  "kv_pool_of ceil_div c r ls = res_bind (pool_layout c r) (\<lambda>layout.
     make_kv_pool ceil_div c (kv_pool_size c r) (cf_page c div r) (length ls) (r = 4 \<and> cf_hisparse c) layout)"

definition index_pool_of :: "pool_cfg \<Rightarrow> int \<Rightarrow> nat list \<Rightarrow> index_pool res" where
  "index_pool_of c r ls = (if r = 4 then make_indexer_pool c (cf_c128 c * 32) (cf_page c div 4) (length ls) False
     else make_indexer_pool c ((the (cf_full c) + cf_page c) div r) DSV41_INDEX_PAGE_SIZE (length ls) True)"

lemma init_pools_facts:
  assumes "init_compressed_pools ceil_div c sources = Inr (kvs, idx)"
  shows "(\<exists>(r, _) \<in> set sources. r \<in> {1, 2}) \<longrightarrow> cf_full c \<noteq> None \<and> \<not> cf_unified c"
    "(if cf_unified c then Inr [] else res_list (\<lambda>(r, ls). res_map (\<lambda>p. (r, p)) (kv_pool_of ceil_div c r ls)) sources) = Inr kvs"
    "res_list (\<lambda>(r, ls). res_map (\<lambda>p. (r, p)) (index_pool_of c r ls)) (filter (\<lambda>(r, _). r \<noteq> 128) sources) = Inr idx"
proof -
  have mk: "res_bind (pool_layout c r) (\<lambda>layout. res_map (\<lambda>p. (r, p)) (make_kv_pool ceil_div c (kv_pool_size c r) (cf_page c div r) (length ls) (r = 4 \<and> cf_hisparse c) layout))
      = res_map (\<lambda>p. (r, p)) (kv_pool_of ceil_div c r ls)" for r and ls :: "nat list"
    by (cases "pool_layout c r") (simp_all add: res_map_def kv_pool_of_def)
  show "(\<exists>(r, _) \<in> set sources. r \<in> {1, 2}) \<longrightarrow> cf_full c \<noteq> None \<and> \<not> cf_unified c"
    "(if cf_unified c then Inr [] else res_list (\<lambda>(r, ls). res_map (\<lambda>p. (r, p)) (kv_pool_of ceil_div c r ls)) sources) = Inr kvs"
    "res_list (\<lambda>(r, ls). res_map (\<lambda>p. (r, p)) (index_pool_of c r ls)) (filter (\<lambda>(r, _). r \<noteq> 128) sources) = Inr idx"
    using assms unfolding init_compressed_pools_def Let_def mk index_pool_of_def [symmetric] by (auto simp: res_simps)
qed

lemma registry_keys:
  assumes "init_compressed_pools ceil_div c sources = Inr (kvs, idx)"
  shows "map_of kvs r = Some p \<Longrightarrow> \<not> cf_unified c \<and> (\<exists>ls. map_of sources r = Some ls \<and> kv_pool_of ceil_div c r ls = Inr p)"
    "map_of idx r = Some x \<Longrightarrow> r \<noteq> 128 \<and> (\<exists>ls. map_of sources r = Some ls \<and> index_pool_of c r ls = Inr x)"
proof -
  note F = init_pools_facts [OF assms]
  show "\<not> cf_unified c \<and> (\<exists>ls. map_of sources r = Some ls \<and> kv_pool_of ceil_div c r ls = Inr p)" if k: "map_of kvs r = Some p"
  proof (cases "cf_unified c")
    case False
    then have "res_list (\<lambda>(r, ls). res_map (\<lambda>p. (r, p)) (kv_pool_of ceil_div c r ls)) sources = Inr kvs" using F(2) by simp
    from map_of_res_list [OF this, of r] show ?thesis using k False by (auto split: option.splits sum.splits)
  qed (use F(2) k in auto)
  show "r \<noteq> 128 \<and> (\<exists>ls. map_of sources r = Some ls \<and> index_pool_of c r ls = Inr x)" if k: "map_of idx r = Some x"
  proof -
    obtain ls where ls: "map_of (filter (\<lambda>(r, _). r \<noteq> 128) sources) r = Some ls" "index_pool_of c r ls = Inr x"
      using map_of_res_list [OF F(3), of r] k by (auto split: option.splits sum.splits)
    have "r \<noteq> 128" using map_of_SomeD [OF ls(1)] by simp
    then show ?thesis using ls map_of_filter_fst [of "\<lambda>k. k \<noteq> 128" r sources] by simp
  qed
qed

text \<open>The pools a construction leaves, per ratio.\<close>

lemma pools_of_ratio:
  assumes "init_compressed_pools ceil_div c sources = Inr (kvs, idx)" and src: "map_of sources r = Some ls" "r \<in> {1, 2, 4, 128}"
  shows "\<not> cf_unified c \<Longrightarrow> \<exists>p. map_of kvs r = Some p \<and> kv_pool_of ceil_div c r ls = Inr p"
    and "r \<noteq> 128 \<Longrightarrow> \<exists>x. map_of idx r = Some x \<and> index_pool_of c r ls = Inr x"
proof -
  note F = init_pools_facts [OF assms(1)]
  have mem: "(r, ls) \<in> set sources" by (rule map_of_SomeD [OF src(1)])
  have found: "\<exists>y. f r ls = Inr y \<and> map_of ys r = Some y"
    if run: "res_list (\<lambda>(r, ls). res_map (\<lambda>p. (r, p)) (f r ls)) xs = Inr ys" and mem: "(r, ls) \<in> set xs" "map_of xs r = Some ls"
    for f :: "int \<Rightarrow> nat list \<Rightarrow> 'z res" and xs ys
  proof -
    obtain k where "k < length xs" "xs ! k = (r, ls)" using mem(1) by (metis in_set_conv_nth)
    then have "res_map (\<lambda>p. (r, p)) (f r ls) = Inr (ys ! k)" using run unfolding res_list_Inr by fastforce
    then obtain y where "f r ls = Inr y" unfolding res_map_Inr by blast
    then show ?thesis using map_of_res_list [OF run, of r] mem(2) by simp
  qed
  show "\<exists>p. map_of kvs r = Some p \<and> kv_pool_of ceil_div c r ls = Inr p" if "\<not> cf_unified c"
    using found [of "kv_pool_of ceil_div c" sources kvs] F(2) that mem src(1) by auto
  show "\<exists>x. map_of idx r = Some x \<and> index_pool_of c r ls = Inr x" if "r \<noteq> 128"
    using found [OF F(3)] mem that src(1) map_of_filter_fst [of "\<lambda>k. k \<noteq> 128" r sources] by auto
qed

lemma source_of_layer:
  assumes col: "collect_sources_by_ratio c = Inr sources" and run: "source_layer_of c sources i = Inr src"
  shows "\<exists>ls. map_of sources (cf_ratios c ! i) = Some ls \<and> src \<in> set ls \<and> src \<le> i \<and> (\<forall>l \<in> set ls. l \<le> i \<longrightarrow> l \<le> src)"
proof -
  obtain ls where ls: "map_of sources (cf_ratios c ! i) = Some ls" "filter (\<lambda>l. l \<le> i) ls \<noteq> []" "src = Max (set (filter (\<lambda>l. l \<le> i) ls))"
    using run by (auto simp: source_layer_of_def dict_get_def res_simps split: option.splits)
  let ?S = "set (filter (\<lambda>l. l \<le> i) ls)"
  have "finite ?S" "?S \<noteq> {}" using ls(2) by (simp_all only: set_empty finite_set not_False_eq_True)
  then have "src \<in> ?S" "\<forall>l \<in> ?S. l \<le> src" unfolding ls(3) using Max_in Max_ge by blast+
  then show ?thesis using ls(1) by auto
qed

text \<open>C33. The layer mapping resolves: in a pool that is constructed, every layer of the stage that
  compresses is mapped to the pool layer of the nearest layer at or before it that owns storage of its
  ratio (itself for ratios 4 and 128; for ratios 1 and 2 the configured source layers of the stage), within the layers its pool and its index pool were allocated with;
  the accessors therefore find a pool of the layer's page size; a layer without compression has an item
  of its own number, and layers outside the stage have none.\<close>

theorem layer_mapping_resolves:
  assumes init: "init_pools ceil_div c = Inr P" and stage: "stage_range c = (s, e)" and i: "i < length (cf_ratios c)"
  shows "(if s \<le> i \<and> i < e then \<exists>it. dp_map P ! i = Some it \<and> li_ratio it = cf_ratios c ! i
     \<and> (if li_ratio it = 0 then li_pool it = None \<and> li_layer it = length (filter (\<lambda>k. cf_ratios c ! k = 0) [s..<i])
        else \<exists>ls src. map_of (dp_sources P) (li_ratio it) = Some ls \<and> li_layer it < length ls \<and> ls ! li_layer it = src
          \<and> set ls = {l. s \<le> l \<and> l < e \<and> cf_ratios c ! l = li_ratio it \<and> (li_ratio it \<in> {1, 2} \<longrightarrow> l \<in> set (cf_kv_sources c))}
          \<and> s \<le> src \<and> src \<le> i \<and> cf_ratios c ! src = cf_ratios c ! i \<and> (\<forall>l \<in> set ls. l \<le> i \<longrightarrow> l \<le> src)
          \<and> (li_ratio it \<in> {4, 128} \<longrightarrow> src = i)
          \<and> (\<not> cf_unified c \<longrightarrow> (\<exists>p. extra_key_pool P i = Inr (p, li_layer it) \<and> kp_layers p = length ls
                \<and> get_extra_key_page_size P i = Inr (cf_page c div cf_ratios c ! i)))
          \<and> (li_ratio it \<noteq> 128 \<longrightarrow> (\<exists>x. layer_index_pool P i = Inr (x, li_layer it) \<and> xp_layers x = length ls)))
   else dp_map P ! i = None)"
proof -
  obtain sources kvs idx mp where run: "collect_sources_by_ratio c = Inr sources" "init_compressed_pools ceil_div c sources = Inr (kvs, idx)"
    "init_compressed_layer_mapping c sources kvs = Inr mp" and P: "P = \<lparr>dp_sources = sources, dp_kv = kvs, dp_index = idx, dp_map = mp\<rparr>"
    using init by (auto simp: init_pools_def res_simps)
  obtain items where items: "res_list (layer_item_of c sources kvs) [s..<e] = Inr items"
    "mp = map (\<lambda>i. if s \<le> i \<and> i < e then Some (items ! (i - s)) else None) [0..<length (cf_ratios c)]"
    using run(3) stage by (auto simp: init_compressed_layer_mapping_def res_simps)
  note col = collected_sources [OF run(1)]
  show ?thesis
  proof (cases "s \<le> i \<and> i < e")
    case False
    have "dp_map P ! i = None" unfolding P items(2) using False i by auto
    then show ?thesis unfolding if_not_P [OF False] .
  next
    case True
    let ?r = "cf_ratios c ! i" and ?it = "items ! (i - s)"
    have mapped: "dp_map P ! i = Some ?it" using True i by (simp add: P items(2))
    have item: "layer_item_of c sources kvs i = Inr ?it"
      using items(1) True unfolding res_list_Inr by (metis add_diff_inverse_nat diff_less_mono length_upt not_less nth_upt)
    have rs: "?r \<in> {0, 1, 2, 4, 128}" using col(4) [OF stage] True by blast
    show ?thesis
    proof (cases "?r = 0")
      case zero: True
      then have "?it = \<lparr>li_ratio = 0, li_layer = length (filter (\<lambda>k. cf_ratios c ! k = 0) [s..<i]), li_pool = None\<rparr>"
        using item stage by (simp add: layer_item_of_def Let_def)
      then show ?thesis using True mapped zero by simp
    next
      case nz: False
      obtain ls src where ls: "map_of sources ?r = Some ls" "source_layer_of c sources i = Inr src"
        "?it = \<lparr>li_ratio = ?r, li_layer = index_of ls src, li_pool = map_of kvs ?r\<rparr>"
        using item nz stage by (auto simp: layer_item_of_def Let_def res_simps dict_get_def split: option.splits)
      obtain ls' where src: "map_of sources ?r = Some ls'" "src \<in> set ls'" "src \<le> i" "\<forall>l \<in> set ls'. l \<le> i \<longrightarrow> l \<le> src"
        using source_of_layer [OF run(1) ls(2)] by blast
      have same: "ls' = ls" using src(1) ls(1) by simp
      note src = src(2-4) [unfolded same]
      have list: "ls = source_list c ?r" using ls(1) col(1) by (auto split: if_splits)
      have owners: "set ls = {l. s \<le> l \<and> l < e \<and> cf_ratios c ! l = ?r \<and> (?r \<in> {1, 2} \<longrightarrow> l \<in> set (cf_kv_sources c))}"
        using stage by (auto simp: list source_list_def)
      have own: "s \<le> src \<and> cf_ratios c ! src = ?r" using src(1) stage by (auto simp: list source_list_def split: if_splits)
      have self: "src = i" if "?r \<in> {4, 128}"
      proof -
        have "i \<in> set ls" using that True stage by (auto simp: list source_list_def)
        then show ?thesis using src(2,3) by auto
      qed
      have ix: "index_of ls src < length ls" "ls ! index_of ls src = src" using index_of_nth [OF src(1)] by simp_all
      have rr: "?r \<in> {1, 2, 4, 128}" using rs nz by auto
      note pools = pools_of_ratio [OF run(2) ls(1) rr]
      have kv: "\<exists>p. extra_key_pool P i = Inr (p, index_of ls src) \<and> kp_layers p = length ls \<and> get_extra_key_page_size P i = Inr (cf_page c div ?r)"
        if "\<not> cf_unified c"
        using pools(1) [OF that]
        by (auto simp: extra_key_pool_def get_extra_key_page_size_def mapped_item_def mapped ls(3) res_map_def kv_pool_of_def make_kv_pool_def res_simps)
      have xp: "\<exists>x. layer_index_pool P i = Inr (x, index_of ls src) \<and> xp_layers x = length ls" if nr: "?r \<noteq> 128"
      proof -
        obtain x where "map_of idx ?r = Some x" "xp_layers x = length ls"
          using pools(2) [OF nr] by (auto simp: index_pool_of_def make_indexer_pool_def ensure_Inr Let_def split: if_splits)
        then show ?thesis unfolding layer_index_pool_def mapped_item_def mapped by (simp add: ls(3) indexer_pool_def P res_map_def)
      qed
      have "li_ratio ?it = ?r" "li_layer ?it = index_of ls src" "map_of (dp_sources P) ?r = Some ls" using ls by (simp_all add: P)
      moreover have "ls ! index_of ls i = i" if "?r \<in> {4, 128}" using self [OF that] ix(2) by simp
      ultimately show ?thesis using True mapped nz ix own src self kv xp owners by simp
    qed
  qed
qed

definition demo_cfg :: pool_cfg where
  "demo_cfg = \<lparr>cf_ratios = [0, 1, 1, 4, 128, 4], cf_start = None, cf_end = None, cf_kv_sources = [1], cf_c4 = 256, cf_c128 = 8,
     cf_full = Some 1024, cf_page = 256, cf_hisparse = False, cf_unified = False, cf_layout = V4, cf_option = Some ''fp4'',
     cf_nope = 448, cf_rope = 64, cf_index_dim = 128, cf_fp4_indexer = False, cf_hip = False\<rparr>"

definition demo_ceil :: "int \<Rightarrow> int \<Rightarrow> int" where "demo_ceil a b = - ((- a) div b)"

lemma demo_pool_built: "case init_pools demo_ceil demo_cfg of Inr P \<Rightarrow> map_of (dp_sources P) 1 = Some [1] | Inl _ \<Rightarrow> False"
  by code_simp

lemma layer_mapping_resolves_witness:
  "\<exists>P it. init_pools demo_ceil demo_cfg = Inr P \<and> dp_map P ! 2 = Some it \<and> li_ratio it = 1"
proof -
  obtain P where P: "init_pools demo_ceil demo_cfg = Inr P" using demo_pool_built by (cases "init_pools demo_ceil demo_cfg") auto
  have "stage_range demo_cfg = (0, 6)" "length (cf_ratios demo_cfg) = 6" "cf_ratios demo_cfg ! 2 = 1" by (simp_all add: stage_range_def demo_cfg_def)
  then show ?thesis using layer_mapping_resolves [OF P, of 0 6 2] P by auto
qed

section \<open>Buffers announced for a transfer\<close>

text \<open>The path without the unified pool.  One entry per buffer: the slots and the bytes of a row of the buffer, its bytes in all and the bytes of
  one item of the transfer.  On ROCm an fp4 index pool keeps payload and scales in buffers of their own.\<close>

record transfer_entry =
  te_ratio :: int
  te_slots :: int
  te_row :: int
  te_bytes :: int
  te_item :: int

definition contiguous_page_row_buffers :: "pool_cfg \<Rightarrow> index_pool \<Rightarrow> int list" where
  "contiguous_page_row_buffers c x =
     (if cf_hip c \<and> xp_fp4 x then replicate (xp_layers x) (4 * xp_page x * 16) @ replicate (xp_layers x) (4 * xp_page x)
      else replicate (xp_layers x) (xp_page x * xp_bytes_per_token x))"

definition ratio_infos :: "pool_cfg \<Rightarrow> dsv4_pool \<Rightarrow> int \<Rightarrow> transfer_entry list res" where
  "ratio_infos c P r =
     (case map_of (dp_kv P) r of None \<Rightarrow> Inr []
      | Some p \<Rightarrow>
        let kv = replicate (kp_layers p) \<lparr>te_ratio = r, te_slots = kp_page p, te_row = kp_row_bytes p, te_bytes = kp_pages p * kp_row_bytes p, te_item = kp_row_bytes p\<rparr>
        in (case map_of (dp_index P) r of None \<Rightarrow> Inr kv
            | Some x \<Rightarrow>
              let slots = cf_page c div r
              in ensure (slots mod xp_page x = 0) AssertionError
                 (Inr (kv @ map (\<lambda>row. \<lparr>te_ratio = r, te_slots = xp_page x, te_row = row, te_bytes = xp_pages x * row,
                                         te_item = row * (slots div xp_page x)\<rparr>) (contiguous_page_row_buffers c x)))))"

definition contiguous_buf_infos :: "pool_cfg \<Rightarrow> dsv4_pool \<Rightarrow> transfer_entry list res" where
  "contiguous_buf_infos c P = res_map concat (res_list (ratio_infos c P) [4, 128, 1, 2])"

text \<open>The sizes a configurator hands over: whole pages, each ratio dividing a page.\<close>

definition sizes_ok :: "pool_cfg \<Rightarrow> int \<Rightarrow> bool" where
  "sizes_ok c n \<longleftrightarrow> 0 < cf_page c \<and> 128 dvd cf_page c \<and> 0 \<le> n \<and> cf_c4 c = n * (cf_page c div 4) \<and> cf_c128 c = n * (cf_page c div 128)
     \<and> (cf_full c \<noteq> None \<longrightarrow> cf_full c = Some (n * cf_page c)) \<and> 0 \<le> cf_index_dim c"

lemma pool_pages_ge:
  assumes "0 < p" "n * p \<le> sz" shows "n + 1 \<le> pool_num_pages sz p"
proof -
  have "(n + 1) * p \<le> sz + p + 1" using assms by (simp add: algebra_simps)
  then have "(n + 1) * p div p \<le> (sz + p + 1) div p" using assms(1) by (rule zdiv_mono1)
  then show ?thesis using assms(1) by (simp add: pool_num_pages_def)
qed

text \<open>What an entry has to satisfy: item \<open>q\<close> of the transfer holds the rows of all tokens of full page \<open>q\<close>, and
  no item reaches behind the buffer.\<close>

definition covers_pages :: "pool_cfg \<Rightarrow> int \<Rightarrow> transfer_entry \<Rightarrow> bool" where
  "covers_pages c n e \<longleftrightarrow> (\<forall>loc. 0 \<le> loc \<longrightarrow> loc < (n + 1) * cf_page c \<longrightarrow>
     (let q = loc div cf_page c; row = loc div te_ratio e div te_slots e
      in te_item e * q \<le> row * te_row e \<and> (row + 1) * te_row e \<le> te_item e * (q + 1) \<and> te_item e * (q + 1) \<le> te_bytes e))"

lemma covers_pagesI:
  assumes page: "cf_page c = r * (t * k)" "0 < r" "0 < t" "0 < k" and e: "te_ratio e = r" "te_slots e = t" "te_item e = te_row e * k"
    and row: "0 \<le> te_row e" and pages: "te_bytes e = m * te_row e" "(n + 1) * k \<le> m"
  shows "covers_pages c n e"
  unfolding covers_pages_def Let_def
proof (intro allI impI)
  fix loc assume loc: "0 \<le> loc" "loc < (n + 1) * cf_page c"
  let ?q = "loc div cf_page c" and ?row = "loc div te_ratio e div te_slots e"
  have pos: "0 < r * t" "0 < cf_page c" using page by simp_all
  have row_eq: "?row = loc div (r * t)" using page(3) by (simp add: e(1,2) zdiv_zmult2_eq)
  have q: "?q = ?row div k" using page(4) by (simp add: row_eq page(1) zdiv_zmult2_eq mult.assoc [symmetric])
  have lo: "?q * k \<le> ?row" using page(4) by (simp add: q div_mult_le_self)
  have "?row < ?q * k + k" using page(4) div_mult_gt [of k ?row] by (simp add: q)
  then have hi: "?row + 1 \<le> (?q + 1) * k" by (simp add: algebra_simps)
  have "?q < n + 1"
  proof (rule ccontr)
    assume "\<not> ?q < n + 1"
    then have "(n + 1) * cf_page c \<le> ?q * cf_page c" using pos(2) by (intro mult_right_mono) simp_all
    also have "\<dots> \<le> loc" using pos(2) by (simp add: div_mult_le_self)
    finally show False using loc(2) by simp
  qed
  then have "(?q + 1) * k \<le> (n + 1) * k" using page(4) by (intro mult_right_mono) simp_all
  then have le: "(?q + 1) * k \<le> m" using pages(2) by linarith
  have scale: "x \<le> y \<Longrightarrow> x * te_row e \<le> y * te_row e" for x y using row by (simp add: mult_right_mono)
  show "te_item e * ?q \<le> ?row * te_row e \<and> (?row + 1) * te_row e \<le> te_item e * (?q + 1) \<and> te_item e * (?q + 1) \<le> te_bytes e"
    using scale [OF lo] scale [OF hi] scale [OF le] by (simp add: e(3) pages(1) ac_simps)
qed

lemma create_buffer_Inr:
  "create_buffer ceil_div l nope rope page pages = Inr (m, row) \<Longrightarrow> m = pages \<and> row = page_bytes l page"
  by (auto simp: create_buffer_def res_simps Let_def)

lemma kv_pool_of_Inr:
  assumes "kv_pool_of ceil_div c r ls = Inr p"
  shows "kp_page p = cf_page c div r \<and> kp_pages p = pool_num_pages (kv_pool_size c r) (cf_page c div r)
     \<and> kp_row_bytes p = page_bytes (kp_layout p) (cf_page c div r)"
proof -
  obtain l m row where "create_buffer ceil_div l (cf_nope c) (cf_rope c) (cf_page c div r) (pool_num_pages (kv_pool_size c r) (cf_page c div r)) = Inr (m, row)"
    "p = \<lparr>kp_page = cf_page c div r, kp_layers = length ls, kp_layout = l, kp_pages = m, kp_row_bytes = row\<rparr>"
    using assms by (auto simp: kv_pool_of_def make_kv_pool_def res_simps)
  then show ?thesis using create_buffer_Inr [of ceil_div l] by auto
qed

text \<open>C34. A transferred item is a full page: with sizes as the configurator hands them over, every buffer the
  pool announces, whichever ratio and kind, holds in item \<open>q\<close> exactly the rows of the tokens of full page
  \<open>q\<close> (several index pages where those are smaller), the reserved page included, and the items end
  within the buffer; so a peer that addresses every buffer by full page id copies whole pages.\<close>

theorem transfer_items_are_pages:
  assumes init: "init_pools ceil_div c = Inr P" and infos: "contiguous_buf_infos c P = Inr es" and sizes: "sizes_ok c n"
  shows "\<forall>e \<in> set es. covers_pages c n e"
proof
  fix e assume e: "e \<in> set es"
  obtain sources kvs idx mp where run: "collect_sources_by_ratio c = Inr sources" "init_compressed_pools ceil_div c sources = Inr (kvs, idx)"
    and P: "P = \<lparr>dp_sources = sources, dp_kv = kvs, dp_index = idx, dp_map = mp\<rparr>"
    using init by (auto simp: init_pools_def res_simps)
  obtain yss where yss: "res_list (ratio_infos c P) [4, 128, 1, 2] = Inr yss" "es = concat yss"
    using infos by (auto simp: contiguous_buf_infos_def res_map_Inr)
  then obtain ys where ys: "ys \<in> set yss" "e \<in> set ys" using e by auto
  obtain r where r: "r \<in> set [4, 128, 1, 2]" "ratio_infos c P r = Inr ys"
    using yss(1) ys(1) unfolding res_list_Inr in_set_conv_nth by metis
  obtain p where p: "map_of kvs r = Some p" using r(2) ys(2) by (auto simp: ratio_infos_def P split: option.splits)
  have cases: "e = \<lparr>te_ratio = r, te_slots = kp_page p, te_row = kp_row_bytes p, te_bytes = kp_pages p * kp_row_bytes p, te_item = kp_row_bytes p\<rparr>
      \<or> (\<exists>x row. map_of idx r = Some x \<and> cf_page c div r mod xp_page x = 0 \<and> row \<in> set (contiguous_page_row_buffers c x)
           \<and> e = \<lparr>te_ratio = r, te_slots = xp_page x, te_row = row, te_bytes = xp_pages x * row, te_item = row * (cf_page c div r div xp_page x)\<rparr>)"
  proof (cases "map_of idx r")
    case None
    then show ?thesis using r(2) ys(2) p by (auto simp: ratio_infos_def P Let_def)
  next
    case (Some x)
    then show ?thesis using r(2) ys(2) p by (auto simp: ratio_infos_def P Let_def ensure_Inr)
  qed
  have r4: "r \<in> {1, 2, 4, 128}" using r(1) by auto
  obtain a where a: "cf_page c = 128 * a" "0 < a" using sizes by (auto simp: sizes_ok_def dvd_def zero_less_mult_iff)
  have n: "0 \<le> n" using sizes by (simp add: sizes_ok_def)
  obtain ls where ls: "map_of sources r = Some ls" "kv_pool_of ceil_div c r ls = Inr p" using registry_keys(1) [OF run(2) p] by blast
  have low: "cf_full c = Some (n * cf_page c)" if "r \<in> {1, 2}"
  proof -
    have "(r, ls) \<in> set sources" by (rule map_of_SomeD [OF ls(1)])
    then have "cf_full c \<noteq> None" using init_pools_facts(1) [OF run(2)] that by fastforce
    then show ?thesis using sizes by (simp add: sizes_ok_def)
  qed
  have page: "cf_page c = r * (cf_page c div r)" "0 < r" "0 < cf_page c div r" using r4 a by auto
  from cases show "covers_pages c n e"
  proof
    assume e: "e = \<lparr>te_ratio = r, te_slots = kp_page p, te_row = kp_row_bytes p, te_bytes = kp_pages p * kp_row_bytes p, te_item = kp_row_bytes p\<rparr>"
    have kp: "kp_page p = cf_page c div r" "kp_pages p = pool_num_pages (kv_pool_size c r) (cf_page c div r)"
      "kp_row_bytes p = page_bytes (kp_layout p) (cf_page c div r)" using kv_pool_of_Inr [OF ls(2)] by blast+
    have "0 \<le> kp_row_bytes p" using page_bytes_ge [of "cf_page c div r" "kp_layout p"] page(3) layout_pos [of "kp_layout p"]
      by (metis kp(3) less_imp_le mult_nonneg_nonneg order.trans)
    moreover have "n * (cf_page c div r) \<le> kv_pool_size c r"
      using r4 sizes low a by (auto simp: kv_pool_size_def sizes_ok_def)
    then have "(n + 1) * 1 \<le> kp_pages p" using pool_pages_ge [OF page(3)] by (simp add: kp(2))
    ultimately show ?thesis using page kp(1) by (intro covers_pagesI [where r = r and t = "cf_page c div r" and k = 1]) (simp_all add: e)
  next
    assume "\<exists>x row. map_of idx r = Some x \<and> cf_page c div r mod xp_page x = 0 \<and> row \<in> set (contiguous_page_row_buffers c x)
           \<and> e = \<lparr>te_ratio = r, te_slots = xp_page x, te_row = row, te_bytes = xp_pages x * row, te_item = row * (cf_page c div r div xp_page x)\<rparr>"
    then obtain x row where x: "map_of idx r = Some x" "cf_page c div r mod xp_page x = 0" "row \<in> set (contiguous_page_row_buffers c x)"
      "e = \<lparr>te_ratio = r, te_slots = xp_page x, te_row = row, te_bytes = xp_pages x * row, te_item = row * (cf_page c div r div xp_page x)\<rparr>" by (elim exE conjE) (rule that)
    have ix: "r \<noteq> 128" "index_pool_of c r ls = Inr x" using registry_keys(2) [OF run(2) x(1)] ls(1) by auto
    let ?k = "cf_page c div r div xp_page x"
    have xp: "0 < xp_page x" "xp_bytes_per_token x \<ge> 0" "(n + 1) * ?k \<le> xp_pages x"
    proof -
      have "0 \<le> cf_index_dim c" using sizes by (simp add: sizes_ok_def)
      then have b: "0 \<le> get_dsv4_indexer_bytes_per_token (cf_index_dim c) f" for f by (simp add: get_dsv4_indexer_bytes_per_token_def)
      show "xp_bytes_per_token x \<ge> 0" using ix(2) b by (auto simp: index_pool_of_def make_indexer_pool_def Let_def ensure_Inr split: if_splits)
      show "0 < xp_page x" using ix(2) page(3) by (auto simp: index_pool_of_def make_indexer_pool_def Let_def ensure_Inr DSV41_INDEX_PAGE_SIZE_def split: if_splits)
      show "(n + 1) * ?k \<le> xp_pages x"
      proof (cases "r = 4")
        case True
        then have "xp_page x = cf_page c div r" "xp_pages x = pool_num_pages (cf_c128 c * 32) (cf_page c div r)"
          using ix(2) by (auto simp: index_pool_of_def make_indexer_pool_def Let_def ensure_Inr)
        moreover have "n * (cf_page c div r) \<le> cf_c128 c * 32" using True sizes a by (simp add: sizes_ok_def)
        ultimately show ?thesis using pool_pages_ge [OF page(3)] page(3) by simp
      next
        case False
        then have r12: "r \<in> {1, 2}" using r4 ix(1) by auto
        have xx: "xp_page x = 64" "xp_pages x = pool_num_pages ((the (cf_full c) + cf_page c) div r) 64"
          using ix(2) False by (auto simp: index_pool_of_def make_indexer_pool_def Let_def ensure_Inr DSV41_INDEX_PAGE_SIZE_def)
        have "?k * 64 = cf_page c div r" using x(2) by (simp add: xx(1) mod_eq_0_iff_dvd)
        moreover have "(the (cf_full c) + cf_page c) div r = (n + 1) * (cf_page c div r)"
          using low [OF r12] r12 a by (auto simp: algebra_simps)
        ultimately have "(n + 1) * ?k * 64 \<le> (the (cf_full c) + cf_page c) div r" by (simp add: mult.assoc)
        then have "(n + 1) * ?k + 1 \<le> pool_num_pages ((the (cf_full c) + cf_page c) div r) 64" by (intro pool_pages_ge) simp_all
        then show ?thesis by (simp add: xx(2))
      qed
    qed
    have "0 \<le> row" using x(3) xp(1,2) by (auto simp: contiguous_page_row_buffers_def split: if_splits)
    moreover have mk: "cf_page c div r = xp_page x * ?k" using x(2) by (metis add.right_neutral mult_div_mod_eq)
    then have "0 < ?k" using page(3) xp(1) by (metis zero_less_mult_pos)
    moreover have "cf_page c = r * (xp_page x * ?k)" using page(1) mk by simp
    ultimately show ?thesis using page(2) xp by (intro covers_pagesI [where r = r and t = "xp_page x" and k = ?k]) (simp_all add: x(4))
  qed
qed

lemma demo_infos_built: "case init_pools demo_ceil demo_cfg of Inr P \<Rightarrow> (case contiguous_buf_infos demo_cfg P of Inr es \<Rightarrow> length es = 7 | Inl _ \<Rightarrow> False) | Inl _ \<Rightarrow> False"
  by code_simp

lemma transfer_items_are_pages_witness:
  "\<exists>P es. init_pools demo_ceil demo_cfg = Inr P \<and> contiguous_buf_infos demo_cfg P = Inr es \<and> es \<noteq> [] \<and> covers_pages demo_cfg 4 (hd es)"
proof -
  obtain P where P: "init_pools demo_ceil demo_cfg = Inr P" using demo_infos_built by (cases "init_pools demo_ceil demo_cfg") auto
  obtain es where es: "contiguous_buf_infos demo_cfg P = Inr es" "length es = 7" using demo_infos_built P by (cases "contiguous_buf_infos demo_cfg P") auto
  have "sizes_ok demo_cfg 4" by (simp add: sizes_ok_def demo_cfg_def)
  then have "\<forall>e \<in> set es. covers_pages demo_cfg 4 e" by (rule transfer_items_are_pages [OF P es(1)])
  moreover have "es \<noteq> []" using es(2) by auto
  ultimately show ?thesis using P es(1) by (intro exI [of _ P] exI [of _ es]) simp
qed

section \<open>Compressor states\<close>

record state_cfg =
  st_online :: bool
  st_mtp :: bool
  st_spec :: bool
  st_draft :: int
  st_slots :: nat
  st_c4 :: int
  st_c128 :: int

record state_pool =
  sp_ratio :: int
  sp_ring :: nat
  sp_size :: int

definition ring_size :: "state_cfg \<Rightarrow> int \<Rightarrow> nat res" where
  "ring_size k r = res_map nat (get_compress_state_ring_size (st_online k) (st_mtp k) r (st_spec k) (st_draft k))"

definition c128_pool_size :: "state_cfg \<Rightarrow> nat \<Rightarrow> int" where
  "c128_pool_size k ring = (if st_online k then max (st_c128 k) (int (st_slots k)) else max (st_c128 k) (int (st_slots k * ring)))"

definition state_pool_of :: "pool_cfg \<Rightarrow> state_cfg \<Rightarrow> (int \<times> nat list) list \<Rightarrow> nat \<Rightarrow> nat \<Rightarrow> state_pool option res" where
  "state_pool_of c k sources ring128 i =
     (let r = cf_ratios c ! i; pair = (case map_of sources 2 of None \<Rightarrow> [] | Some ls \<Rightarrow> ls) in
      if r \<in> {0, 1} then Inr None
      else if r = 2 then
        (if i \<in> set pair then res_map (\<lambda>ring. Some \<lparr>sp_ratio = 2, sp_ring = ring, sp_size = int (st_slots k * ring)\<rparr>) (ring_size k 2) else Inr None)
      else res_map (\<lambda>ring. Some \<lparr>sp_ratio = r, sp_ring = ring, sp_size = (if r = 4 then st_c4 k else c128_pool_size k ring128)\<rparr>) (ring_size k r))"

definition init_paged_compress_states :: "pool_cfg \<Rightarrow> state_cfg \<Rightarrow> (int \<times> nat list) list \<Rightarrow> state_pool option list res" where
  "init_paged_compress_states c k sources =
     (let (s, e) = stage_range c in
      res_bind (ring_size k 128) (\<lambda>ring128.
      res_list (\<lambda>i. if s \<le> i \<and> i < e then state_pool_of c k sources ring128 i else Inr None) [0..<length (cf_ratios c)]))"

text \<open>\<open>buf[a : a + n].clear()\<close> on a list of slots; the slice ends at the end of the buffer.\<close>

definition clear_slice :: "'v \<Rightarrow> nat \<Rightarrow> nat \<Rightarrow> 'v list \<Rightarrow> 'v list" where
  "clear_slice z a n buf = map (\<lambda>i. if a \<le> i \<and> i < a + n then z else buf ! i) [0..<length buf]"

text \<open>The reset of a request: \<open>z\<close> a cleared slot, \<open>row_reset\<close> the online row with its maximum and sums reset.\<close>

definition clear_pool :: "bool \<Rightarrow> 'v \<Rightarrow> ('v \<Rightarrow> 'v) \<Rightarrow> nat \<Rightarrow> state_pool \<Rightarrow> 'v list \<Rightarrow> 'v list res" where
  "clear_pool online z row_reset req p buf =
     (if sp_ratio p \<notin> {2, 128} then Inr buf
      else if sp_ratio p = 128 \<and> online then ensure (req < length buf) IndexError (Inr (buf[req := row_reset (buf ! req)]))
      else Inr (clear_slice z (req * sp_ring p) (sp_ring p) buf))"

definition clear_c128_req_state :: "bool \<Rightarrow> 'v \<Rightarrow> ('v \<Rightarrow> 'v) \<Rightarrow> nat \<Rightarrow> state_pool option list \<Rightarrow> 'v list list \<Rightarrow> 'v list list res" where
  "clear_c128_req_state online z row_reset req pools bufs =
     res_list (\<lambda>(p, buf). case p of None \<Rightarrow> Inr buf | Some p \<Rightarrow> clear_pool online z row_reset req p buf) (zip pools bufs)"

text \<open>The slots of a request in a pool that keeps request-scoped state.\<close>

definition req_slots :: "bool \<Rightarrow> state_pool \<Rightarrow> nat \<Rightarrow> nat set" where
  "req_slots online p req =
     (if sp_ratio p = 128 \<and> online then {req} else {req * sp_ring p ..< req * sp_ring p + sp_ring p})"

lemma ring_length_pos: "ring_size k r = Inr n \<Longrightarrow> 0 < n"
  by (auto simp: ring_size_def get_compress_state_ring_size_def res_simps split: if_splits)

lemma slot_in_ring:
  assumes "req < slots" "i < req * ring + ring" shows "i < slots * (ring :: nat)"
proof -
  have "req * ring + ring \<le> slots * ring" using mult_le_mono1 [of "Suc req" slots ring] assms(1) by simp
  then show ?thesis using assms(2) by linarith
qed

lemma rings_apart: "req \<noteq> req' \<Longrightarrow> {req * ring ..< req * ring + ring} \<inter> {req' * ring ..< req' * ring + ring} = {}" for ring :: nat
proof -
  have "i div ring = q" if "i \<in> {q * ring ..< q * ring + ring}" for i q
    using that by (intro div_nat_eqI) (auto simp: mult.commute)
  then show "req \<noteq> req' \<Longrightarrow> {req * ring ..< req * ring + ring} \<inter> {req' * ring ..< req' * ring + ring} = {}" by blast
qed

text \<open>What a reset does to the slots of one pool.\<close>

definition reset_only :: "bool \<Rightarrow> 'v \<Rightarrow> ('v \<Rightarrow> 'v) \<Rightarrow> nat \<Rightarrow> state_pool \<Rightarrow> 'v list \<Rightarrow> 'v list \<Rightarrow> bool" where
  "reset_only online z row_reset req p buf buf' \<longleftrightarrow>
     (if sp_ratio p \<in> {2, 128}
      then req_slots online p req \<subseteq> {..<length buf} \<and> length buf' = length buf
        \<and> (\<forall>q \<in> req_slots online p req. buf' ! q = (if sp_ratio p = 128 \<and> online then row_reset (buf ! q) else z))
        \<and> (\<forall>q < length buf. q \<notin> req_slots online p req \<longrightarrow> buf' ! q = buf ! q)
        \<and> (\<forall>other. other \<noteq> req \<longrightarrow> req_slots online p other \<inter> req_slots online p req = {})
      else buf' = buf)"

text \<open>C35. Request states are isolated: every pool with request-scoped state is allocated with the slots of
  every request slot; resetting a request succeeds, clears (or resets, for the online row) exactly its
  slots and leaves the slots of every other request, and every pool without such state, as they were.\<close>

theorem request_states_isolated:
  assumes init: "init_paged_compress_states c k sources = Inr pools" and req: "req < st_slots k"
    and bufs: "length bufs = length pools" "\<And>i p. i < length pools \<Longrightarrow> pools ! i = Some p \<Longrightarrow> sp_size p \<le> int (length (bufs ! i))"
  shows "\<exists>bufs'. clear_c128_req_state (st_online k) z row_reset req pools bufs = Inr bufs' \<and> length bufs' = length bufs
     \<and> (\<forall>i < length pools. case pools ! i of None \<Rightarrow> bufs' ! i = bufs ! i
         | Some p \<Rightarrow> reset_only (st_online k) z row_reset req p (bufs ! i) (bufs' ! i))"
proof -
  obtain s e ring128 where run: "stage_range c = (s, e)" "ring_size k 128 = Inr ring128"
    "res_list (\<lambda>i. if s \<le> i \<and> i < e then state_pool_of c k sources ring128 i else Inr None) [0..<length (cf_ratios c)] = Inr pools"
    using init by (auto simp: init_paged_compress_states_def res_simps split: prod.splits)
  have pool: "int (st_slots k * (if sp_ratio p = 128 \<and> st_online k then 1 else sp_ring p)) \<le> sp_size p" if i: "i < length pools" "pools ! i = Some p" "sp_ratio p \<in> {2, 128}" for i p
  proof -
    have "(if s \<le> i \<and> i < e then state_pool_of c k sources ring128 i else Inr None) = Inr (Some p)"
      using run(3) i(1,2) unfolding res_list_Inr by (metis add_0 diff_zero length_upt nth_upt)
    then have "state_pool_of c k sources ring128 i = Inr (Some p)" by (simp split: if_splits)
    then show ?thesis using i(3) run(2)
      by (auto simp: state_pool_of_def Let_def res_simps c128_pool_size_def split: if_splits)
  qed
  define upd where "upd = (\<lambda>(p :: state_pool option, buf). case p of None \<Rightarrow> buf | Some p \<Rightarrow>
    if sp_ratio p \<notin> {2, 128} then buf else if sp_ratio p = 128 \<and> st_online k then buf[req := row_reset (buf ! req)]
    else clear_slice z (req * sp_ring p) (sp_ring p) buf)"
  have inside: "req_slots (st_online k) p req \<subseteq> {..<length (bufs ! i)}" if i: "i < length pools" "pools ! i = Some p" "sp_ratio p \<in> {2, 128}" for i p
  proof
    fix q assume "q \<in> req_slots (st_online k) p req"
    then have "q < st_slots k * (if sp_ratio p = 128 \<and> st_online k then 1 else sp_ring p)"
      using slot_in_ring [OF req] req by (auto simp: req_slots_def split: if_splits)
    then have "int q < int (st_slots k * (if sp_ratio p = 128 \<and> st_online k then 1 else sp_ring p))" by (simp only: of_nat_less_iff)
    then show "q \<in> {..<length (bufs ! i)}" using pool [OF i] bufs(2) [OF i(1,2)] by simp
  qed
  have run': "clear_c128_req_state (st_online k) z row_reset req pools bufs = Inr (map upd (zip pools bufs))"
    unfolding clear_c128_req_state_def res_list_Inr
  proof (intro conjI allI impI)
    fix i assume "i < length (zip pools bufs)"
    then have i: "i < length pools" using bufs(1) by simp
    show "(case zip pools bufs ! i of (p, buf) \<Rightarrow> case p of None \<Rightarrow> Inr buf | Some p \<Rightarrow> clear_pool (st_online k) z row_reset req p buf)
        = Inr (map upd (zip pools bufs) ! i)"
      using i bufs(1) inside [OF i]
      by (cases "pools ! i") (auto simp: upd_def clear_pool_def req_slots_def ensure_def)
  qed simp
  show ?thesis
  proof (intro exI [of _ "map upd (zip pools bufs)"] conjI allI impI)
    show "clear_c128_req_state (st_online k) z row_reset req pools bufs = Inr (map upd (zip pools bufs))" by (rule run')
    show "length (map upd (zip pools bufs)) = length bufs" using bufs(1) by simp
    fix i assume i: "i < length pools"
    have at: "map upd (zip pools bufs) ! i = upd (pools ! i, bufs ! i)" using i bufs(1) by simp
    have "reset_only (st_online k) z row_reset req p (bufs ! i) (upd (pools ! i, bufs ! i))" if p: "pools ! i = Some p" for p
    proof -
      have apart: "other \<noteq> req \<Longrightarrow> req_slots (st_online k) p other \<inter> req_slots (st_online k) p req = {}" for other
        using rings_apart [of other req "sp_ring p"] by (simp add: req_slots_def)
      consider "sp_ratio p \<notin> {2, 128}" | "sp_ratio p = 128" "st_online k" | "sp_ratio p \<in> {2, 128}" "\<not> (sp_ratio p = 128 \<and> st_online k)" by blast
      then show ?thesis
      proof cases
        case 1
        then show ?thesis using p by (simp add: reset_only_def upd_def)
      next
        case 2
        then have "req_slots (st_online k) p req \<subseteq> {..<length (bufs ! i)}" using inside [OF i p] by simp
        then show ?thesis using 2 p apart by (simp add: reset_only_def upd_def req_slots_def)
      next
        case 3
        have u: "upd (pools ! i, bufs ! i) = clear_slice z (req * sp_ring p) (sp_ring p) (bufs ! i)" using 3 p unfolding upd_def by auto
        have rs: "req_slots (st_online k) p req = {req * sp_ring p ..< req * sp_ring p + sp_ring p}"
          using 3(2) unfolding req_slots_def by (rule if_not_P)
        show ?thesis unfolding reset_only_def u if_P [OF 3(1)] if_not_P [OF 3(2)]
          using inside [OF i p 3(1)] apart unfolding rs by (auto simp: clear_slice_def subset_iff)
      qed
    qed
    moreover have "upd (None, buf) = buf" for buf by (simp add: upd_def)
    ultimately show "case pools ! i of None \<Rightarrow> map upd (zip pools bufs) ! i = bufs ! i
         | Some p \<Rightarrow> reset_only (st_online k) z row_reset req p (bufs ! i) (map upd (zip pools bufs) ! i)"
      unfolding at by (cases "pools ! i") simp_all
  qed
qed

definition demo_states :: state_cfg where
  "demo_states = \<lparr>st_online = False, st_mtp = False, st_spec = False, st_draft = 0, st_slots = 3, st_c4 = 64, st_c128 = 16\<rparr>"

lemma demo_states_built:
  "case init_paged_compress_states demo_cfg demo_states [(4, [3, 5]), (128, [4]), (1, [1])] of Inr ps \<Rightarrow> length ps = 6 \<and> ps ! 4 = Some \<lparr>sp_ratio = 128, sp_ring = 128, sp_size = 384\<rparr>
     \<and> (\<forall>p \<in> set ps. case p of None \<Rightarrow> True | Some p \<Rightarrow> sp_size p \<le> 400) | Inl _ \<Rightarrow> False"
  by code_simp

lemma request_states_isolated_witness:
  "\<exists>ps bufs'. init_paged_compress_states demo_cfg demo_states [(4, [3, 5]), (128, [4]), (1, [1])] = Inr ps
     \<and> clear_c128_req_state False (0 :: int) id 1 ps (replicate 6 (replicate 400 7)) = Inr bufs' \<and> bufs' ! 4 ! 130 = 0 \<and> bufs' ! 4 ! 5 = 7"
proof -
  obtain ps where ps: "init_paged_compress_states demo_cfg demo_states [(4, [3, 5]), (128, [4]), (1, [1])] = Inr ps" "length ps = 6"
    "ps ! 4 = Some \<lparr>sp_ratio = 128, sp_ring = 128, sp_size = 384\<rparr>" "\<forall>p \<in> set ps. case p of None \<Rightarrow> True | Some p \<Rightarrow> sp_size p \<le> 400"
    using demo_states_built by (cases "init_paged_compress_states demo_cfg demo_states [(4, [3, 5]), (128, [4]), (1, [1])]") auto
  let ?bufs = "replicate 6 (replicate 400 (7 :: int))"
  have room: "sp_size p \<le> int (length (?bufs ! i))" if "i < length ps" "ps ! i = Some p" for i p
  proof -
    have "Some p \<in> set ps" using that by (metis nth_mem)
    then have "sp_size p \<le> 400" using ps(4) by (metis option.simps(5))
    then show ?thesis using that(1) ps(2) by simp
  qed
  have len: "length ?bufs = length ps" using ps(2) by simp
  have slots: "1 < st_slots demo_states" "st_online demo_states = False" by (simp_all add: demo_states_def)
  obtain bufs' where b: "clear_c128_req_state False 0 id 1 ps ?bufs = Inr bufs'"
    "\<forall>i < length ps. case ps ! i of None \<Rightarrow> bufs' ! i = ?bufs ! i | Some p \<Rightarrow> reset_only False 0 id 1 p (?bufs ! i) (bufs' ! i)"
    using request_states_isolated [OF ps(1) slots(1) len room, of 0 id] unfolding slots(2) by blast
  have "(\<forall>q \<in> {128..<256}. bufs' ! 4 ! q = 0) \<and> (\<forall>q < 400. q \<notin> {128..<256} \<longrightarrow> bufs' ! 4 ! q = 7)"
    using b(2) [THEN spec, of 4] ps(2,3) by (simp add: reset_only_def req_slots_def)
  then show ?thesis using ps(1) b(1) by (intro exI [of _ ps] exI [of _ bufs']) auto
qed

end
