(* ===== verification/KDequant.thy ===== *)
theory KDequant
  imports Fp4Quant KVLayout
begin

text \<open>
  Reading the quantised cache (\<open>sglang-overlay/dequant_k_cache.py\<close>): the kernels that dequantise the rows
  of a list of tokens from a paged cache in its three layouts, the kernel that casts them to fp8 for the
  sparse prefill, their launchers and torch references, and the padding of query heads.  The cache is a
  list of bytes; a bf16 value is its two bytes.  A destination is the memory from the tensor's data
  pointer on, with a number of rows and a row stride, so that it may be a slice of a larger workspace.
  Triton's and torch's power of two are separate parameters: they differ on subnormal results.
\<close>

definition DIM_NOPE :: nat where "DIM_NOPE = 448"
definition DIM_ROPE :: nat where "DIM_ROPE = 64"
definition TILE_SIZE :: nat where "TILE_SIZE = 64"
definition NUM_SCALE_TILES :: nat where "NUM_SCALE_TILES = DIM_NOPE div TILE_SIZE"
definition NOPE_ROPE_BYTES :: int where "NOPE_ROPE_BYTES = int DIM_NOPE + int DIM_ROPE * 2"
definition PADDED_SCALE_PER_TOKEN :: int where "PADDED_SCALE_PER_TOKEN = int NUM_SCALE_TILES + 1"

lemmas dq_consts = DIM_NOPE_def DIM_ROPE_def TILE_SIZE_def NUM_SCALE_TILES_def NOPE_ROPE_BYTES_def PADDED_SCALE_PER_TOKEN_def

text \<open>\<open>dq_tiny\<close>: below the least normal fp32; \<open>dq_bf16_fp8_tl\<close> and \<open>dq_bf16_fp8\<close>: the casts of a bf16
  to fp8 in Triton and in torch.\<close>

record 'f dq_ops =
  dq_exp2_tl :: "int \<Rightarrow> 'f"
  dq_exp2 :: "int \<Rightarrow> 'f"
  dq_tiny :: "'f \<Rightarrow> bool"
  dq_nan :: 'f
  dq_bf16_fp8_tl :: "nat \<times> nat \<Rightarrow> nat"
  dq_bf16_fp8 :: "nat \<times> nat \<Rightarrow> nat"

section \<open>Kernels\<close>

record tok_base =
  tb_data :: int
  tb_scale :: int

definition tok_at :: "int \<Rightarrow> int \<Rightarrow> int \<Rightarrow> int \<Rightarrow> int \<Rightarrow> int \<Rightarrow> tok_base" where
  "tok_at bytes_per_page page_size data scale scale_off loc =
     (let page_idx = loc div page_size; in_page = loc mod page_size; base = page_idx * bytes_per_page
      in \<lparr>tb_data = base + in_page * data, tb_scale = base + scale_off + in_page * scale\<rparr>)"

definition v4_at :: "int \<Rightarrow> int \<Rightarrow> int \<Rightarrow> tok_base" where
  "v4_at bpp ps = tok_at bpp ps NOPE_ROPE_BYTES PADDED_SCALE_PER_TOKEN (ps * NOPE_ROPE_BYTES)"

definition bf16_view :: "nat list \<Rightarrow> (nat \<times> nat) list" where
  "bf16_view src = map (\<lambda>i. (src ! (2 * i), src ! (2 * i + 1))) [0..<length src div 2]"

definition put_all :: "(int \<times> 'o) list \<Rightarrow> 'o list \<Rightarrow> 'o list" where
  "put_all ps m = fold (\<lambda>(a, v) m. m[nat a := v]) ps m"

text \<open>The stores of a program over a V4 row: \<open>cast\<close> and \<open>rope\<close> convert to the output's type, \<open>addr\<close> adds
  an offset to the row's base at the width the kernel has it.\<close>

definition v4_nope :: "'f fops \<Rightarrow> 'f dq_ops \<Rightarrow> nat list \<Rightarrow> tok_base \<Rightarrow> nat \<Rightarrow> nat \<Rightarrow> 'f" where
  "v4_nope F D src t tile_id off =
     f_mul F (f_e4m3 F (tl_load src (tb_data t + int (tile_id * TILE_SIZE) + int off)))
       (dq_exp2_tl D (int (tl_load src (tb_scale t + int tile_id)) - 127))"

definition v4_rope :: "nat list \<Rightarrow> tok_base \<Rightarrow> nat \<Rightarrow> nat \<times> nat" where
  "v4_rope src t j = tl_load (bf16_view src) ((tb_data t + int DIM_NOPE) div 2 + int j)"

definition v4_stores :: "'f fops \<Rightarrow> 'f dq_ops \<Rightarrow> ('f \<Rightarrow> 'o) \<Rightarrow> (nat \<times> nat \<Rightarrow> 'o) \<Rightarrow> nat list \<Rightarrow> tok_base \<Rightarrow> (nat \<Rightarrow> int) \<Rightarrow> (int \<times> 'o) list" where
  "v4_stores F D cast rope src t addr =
     concat (map (\<lambda>tile_id. map (\<lambda>off. (addr (tile_id * TILE_SIZE + off), cast (v4_nope F D src t tile_id off))) [0..<TILE_SIZE]) [0..<NUM_SCALE_TILES])
     @ map (\<lambda>j. (addr (DIM_NOPE + j), rope (v4_rope src t j))) [0..<DIM_ROPE]"

definition dequantize_k_cache_paged_kernel :: "'f fops \<Rightarrow> 'f dq_ops \<Rightarrow> nat list \<Rightarrow> int list \<Rightarrow> int \<Rightarrow> int \<Rightarrow> nat \<Rightarrow> nat \<Rightarrow> (nat \<times> nat) list \<Rightarrow> (nat \<times> nat) list" where
  "dequantize_k_cache_paged_kernel F D src table bpp ps stride token_id =
     put_all (v4_stores F D (f_to_bf16 F) (\<lambda>b. b) src (v4_at bpp ps (tl_load table (int token_id))) (\<lambda>o'. int (token_id * stride) + int o'))"

text \<open>This kernel leaves the program id at 32 bits, so the row's base wraps there.\<close>

definition gather_row_base :: "nat \<Rightarrow> nat \<Rightarrow> int" where
  "gather_row_base token_id stride = i32 (int token_id * int stride)"

definition gather_dequant_requant_fp8_paged_kernel :: "'f fops \<Rightarrow> 'f dq_ops \<Rightarrow> nat list \<Rightarrow> int list \<Rightarrow> int \<Rightarrow> int \<Rightarrow> nat \<Rightarrow> nat \<Rightarrow> nat list \<Rightarrow> nat list" where
  "gather_dequant_requant_fp8_paged_kernel F D src table bpp ps stride token_id =
     put_all (v4_stores F D (f_to_fp8 F) (dq_bf16_fp8_tl D) src (v4_at bpp ps (tl_load table (int token_id))) (\<lambda>o'. i32 (gather_row_base token_id stride + int o')))"

definition ue8m0_to_fp32 :: "'f fops \<Rightarrow> 'f dq_ops \<Rightarrow> nat \<Rightarrow> 'f" where
  "ue8m0_to_fp32 F D scale_u8 =
     (let normal = f_of_bits F (push_bit 23 (int scale_u8)); denormal = f_of_bits F 0x00400000;
          scale = (if scale_u8 = 0 then denormal else normal)
      in if scale_u8 = 255 then dq_nan D else scale)"

definition v41_at :: "kv_layout \<Rightarrow> int \<Rightarrow> int \<Rightarrow> int \<Rightarrow> tok_base" where
  "v41_at l bpp ps = tok_at bpp ps (data_bytes l) (scale_bytes l) (scale_offset l ps)"

definition dequantize_k_cache_paged_v41_fp8_kernel :: "'f fops \<Rightarrow> 'f dq_ops \<Rightarrow> nat list \<Rightarrow> int list \<Rightarrow> int \<Rightarrow> int \<Rightarrow> nat \<Rightarrow> nat \<Rightarrow> (nat \<times> nat) list \<Rightarrow> (nat \<times> nat) list" where
  "dequantize_k_cache_paged_v41_fp8_kernel F D src table bpp ps stride token_id =
     (let t = v41_at V41 bpp ps (tl_load table (int token_id)) in
      put_all (map (\<lambda>j. (int (token_id * stride) + int j,
        f_to_bf16 F (f_mul F (f_e4m3 F (tl_load src (tb_data t + int j))) (ue8m0_to_fp32 F D (tl_load src (tb_scale t + int (j div 32))))))) [0..<512]))"

definition dequantize_k_cache_paged_v41_fp4_kernel :: "'f fops \<Rightarrow> nat list \<Rightarrow> int list \<Rightarrow> int \<Rightarrow> int \<Rightarrow> nat \<Rightarrow> nat \<Rightarrow> (nat \<times> nat) list \<Rightarrow> (nat \<times> nat) list" where
  "dequantize_k_cache_paged_v41_fp4_kernel F src table bpp ps stride token_id =
     (let t = v41_at V41_FP4 bpp ps (tl_load table (int token_id));
          packed = (\<lambda>b. tl_load src (tb_data t + int b)); scale = (\<lambda>b. f_e4m3 F (tl_load src (tb_scale t + int (2 * b div 16))));
          out_base = int (token_id * stride)
      in put_all (map (\<lambda>b. (out_base + 2 * int b, f_to_bf16 F (f_mul F (e2m1_code_to_fp32 F (nibble False (packed b))) (scale b)))) [0..<256]
                @ map (\<lambda>b. (out_base + 2 * int b + 1, f_to_bf16 F (f_mul F (e2m1_code_to_fp32 F (nibble True (packed b))) (scale b)))) [0..<256]))"

section \<open>Launchers\<close>

text \<open>\<open>pids\<close> is the order in which the programs run, \<open>fresh\<close> the contents of a new tensor.\<close>

record 'o dest =
  ds_mem :: "'o list"
  ds_rows :: nat
  ds_stride :: nat

definition pick_dest :: "(nat \<Rightarrow> 'o list) \<Rightarrow> nat \<Rightarrow> 'o dest option \<Rightarrow> 'o dest res" where
  "pick_dest fresh n out =
     (case out of None \<Rightarrow> Inr \<lparr>ds_mem = fresh (n * (DIM_NOPE + DIM_ROPE)), ds_rows = n, ds_stride = DIM_NOPE + DIM_ROPE\<rparr>
      | Some d \<Rightarrow> ensure (ds_rows d = n) AssertionError (Inr d))"

definition dequantize_k_cache_paged_v41 ::
    "'f fops \<Rightarrow> 'f dq_ops \<Rightarrow> (nat \<Rightarrow> (nat \<times> nat) list) \<Rightarrow> nat list \<Rightarrow> nat list \<Rightarrow> int \<Rightarrow> int list \<Rightarrow> int \<Rightarrow> (nat \<times> nat) dest option \<Rightarrow> layout_arg \<Rightarrow> (nat \<times> nat) dest res" where
  "dequantize_k_cache_paged_v41 F D fresh pids src bpp table ps out layout =
     res_bind (parse_layout layout) (\<lambda>l.
     ensure (l \<in> {V41, V41_FP4}) AssertionError
     (ensure (bpp \<ge> ps * bytes_per_token l) AssertionError
     (res_bind (pick_dest fresh (length table) out) (\<lambda>d.
      if table = [] then Inr d
      else let kernel = (if l = V41 then dequantize_k_cache_paged_v41_fp8_kernel F D else dequantize_k_cache_paged_v41_fp4_kernel F)
           in Inr (d\<lparr>ds_mem := fold (kernel src table bpp ps (ds_stride d)) pids (ds_mem d)\<rparr>)))))"

text \<open>The bf16 view needs an even number of bytes per page.\<close>

definition dequantize_k_cache_paged ::
    "'f fops \<Rightarrow> 'f dq_ops \<Rightarrow> (nat \<Rightarrow> (nat \<times> nat) list) \<Rightarrow> nat list \<Rightarrow> nat list \<Rightarrow> int \<Rightarrow> int list \<Rightarrow> int \<Rightarrow> (nat \<times> nat) dest option \<Rightarrow> layout_arg \<Rightarrow> (nat \<times> nat) dest res" where
  "dequantize_k_cache_paged F D fresh pids src bpp table ps out layout =
     res_bind (parse_layout layout) (\<lambda>l.
     if l \<noteq> V4 then dequantize_k_cache_paged_v41 F D fresh pids src bpp table ps out (LayoutVal l)
     else ensure (even bpp) RuntimeError
       (res_bind (pick_dest fresh (length table) out) (\<lambda>d.
        Inr (d\<lparr>ds_mem := fold (dequantize_k_cache_paged_kernel F D src table bpp ps (ds_stride d)) pids (ds_mem d)\<rparr>))))"

text \<open>\<open>out[n:].zero_()\<close>: the rows behind the gathered ones, not the gaps between rows.\<close>

definition zero_rows :: "nat \<Rightarrow> nat dest \<Rightarrow> nat dest" where
  "zero_rows n d = d\<lparr>ds_mem := put_all (concat (map (\<lambda>r. map (\<lambda>j. (int (r * ds_stride d) + int j, 0)) [0..<DIM_NOPE + DIM_ROPE]) [n..<ds_rows d])) (ds_mem d)\<rparr>"

definition gather_dequant_requant_fp8_paged ::
    "'f fops \<Rightarrow> 'f dq_ops \<Rightarrow> nat list \<Rightarrow> nat list \<Rightarrow> int \<Rightarrow> int list \<Rightarrow> int \<Rightarrow> int \<Rightarrow> nat dest option \<Rightarrow> nat dest res" where
  "gather_dequant_requant_fp8_paged F D pids src bpp table ps extra_rows out =
     ensure (extra_rows \<ge> 0) AssertionError
     (let total = length table + nat extra_rows in
      ensure (even bpp) RuntimeError
      (res_bind (case out of
           None \<Rightarrow> Inr \<lparr>ds_mem = replicate (total * (DIM_NOPE + DIM_ROPE)) 0, ds_rows = total, ds_stride = DIM_NOPE + DIM_ROPE\<rparr>
         | Some d \<Rightarrow> ensure (ds_rows d = total) AssertionError (Inr (if extra_rows \<noteq> 0 then zero_rows (length table) d else d))) (\<lambda>d.
       if table = [] then Inr d
       else Inr (d\<lparr>ds_mem := fold (gather_dequant_requant_fp8_paged_kernel F D src table bpp ps (ds_stride d)) pids (ds_mem d)\<rparr>))))"

section \<open>Torch references\<close>

text \<open>Flat indices; torch raises when one is out of range.\<close>

definition ref_scale :: "'f fops \<Rightarrow> 'f dq_ops \<Rightarrow> nat \<Rightarrow> 'f" where
  "ref_scale F D scale_u8 = (let s = dq_exp2 D (int scale_u8 - 127) in if dq_tiny D s then f_lit F 0 else s)"

definition ref_token :: "'f fops \<Rightarrow> 'f dq_ops \<Rightarrow> nat list \<Rightarrow> int \<Rightarrow> int \<Rightarrow> int \<Rightarrow> (nat \<times> nat) list res" where
  "ref_token F D src bpp ps loc =
     (let base = loc div ps * bpp; data_base = base + loc mod ps * NOPE_ROPE_BYTES;
          scale_base = base + ps * NOPE_ROPE_BYTES + loc mod ps * PADDED_SCALE_PER_TOKEN in
      res_bind (res_list (\<lambda>j. py_get src (data_base + int j)) [0..<DIM_NOPE]) (\<lambda>nope.
      res_bind (res_list (\<lambda>t. py_get src (scale_base + int t)) [0..<NUM_SCALE_TILES]) (\<lambda>scales.
      res_bind (res_list (\<lambda>j. py_get (bf16_view src) ((data_base + int DIM_NOPE) div 2 + int j)) [0..<DIM_ROPE]) (\<lambda>rope.
      Inr (map (\<lambda>j. f_to_bf16 F (f_mul F (f_e4m3 F (nope ! j)) (ref_scale F D (scales ! (j div TILE_SIZE))))) [0..<DIM_NOPE] @ rope)))))"

definition dequantize_k_cache_paged_ref :: "'f fops \<Rightarrow> 'f dq_ops \<Rightarrow> nat list \<Rightarrow> int \<Rightarrow> int list \<Rightarrow> int \<Rightarrow> (nat \<times> nat) list list res" where
  "dequantize_k_cache_paged_ref F D src bpp table ps = ensure (even bpp) RuntimeError (res_list (ref_token F D src bpp ps) table)"

definition gather_dequant_requant_fp8_paged_ref :: "'f fops \<Rightarrow> 'f dq_ops \<Rightarrow> nat list \<Rightarrow> int \<Rightarrow> int list \<Rightarrow> int \<Rightarrow> nat \<Rightarrow> nat list list res" where
  "gather_dequant_requant_fp8_paged_ref F D src bpp table ps extra_rows =
     res_bind (dequantize_k_cache_paged_ref F D src bpp table ps) (\<lambda>rows.
     let active = map (map (dq_bf16_fp8 D)) rows
     in Inr (if extra_rows = 0 then active else active @ replicate extra_rows (replicate (DIM_NOPE + DIM_ROPE) 0)))"

section \<open>Query heads\<close>

definition q8kv8_padded_num_heads :: "int \<Rightarrow> int res" where
  "q8kv8_padded_num_heads num_heads =
     (if num_heads \<le> 0 then Inl ValueError else if num_heads \<le> 64 then Inr 64
      else if num_heads \<le> 128 then Inr 128 else Inl ValueError)"

text \<open>The output the caller gives: its shape, whether dtype and device fit, and its contents.\<close>

record q_out =
  qo_shape :: "int \<times> int \<times> int"
  qo_like :: bool
  qo_rows :: "nat list list list"

definition cast_q_fp8_for_q8kv8_prefill ::
    "('v \<Rightarrow> nat) \<Rightarrow> 'v list list list \<Rightarrow> int \<Rightarrow> int option \<Rightarrow> q_out option \<Rightarrow> nat list list list res" where
  "cast_q_fp8_for_q8kv8_prefill cast q num_heads padded_num_heads out =
     res_bind (case padded_num_heads of None \<Rightarrow> q8kv8_padded_num_heads num_heads | Some p \<Rightarrow> Inr p) (\<lambda>p.
     ensure (p \<in> {64, 128} \<and> p \<ge> num_heads) ValueError
     (res_bind (case out of
          None \<Rightarrow> Inr (replicate (length q) (replicate (nat p) (replicate 512 0)))
        | Some o' \<Rightarrow> ensure (qo_shape o' = (int (length q), p, 512) \<and> qo_like o') ValueError
            (Inr (if p > num_heads then map (\<lambda>heads. take (nat num_heads) heads @ replicate (nat p - nat num_heads) (replicate 512 0)) (qo_rows o') else qo_rows o'))) (\<lambda>q_fp8.
      Inr (map2 (\<lambda>heads toks. map (map cast) toks @ drop (nat num_heads) heads) q_fp8 q))))"

section \<open>A launch of row programs\<close>

text \<open>The rows of a destination, and when it has room for them without overlap.\<close>

definition dest_row :: "'o dest \<Rightarrow> nat \<Rightarrow> 'o list" where
  "dest_row d i = take 512 (drop (i * ds_stride d) (ds_mem d))"

definition dest_ok :: "'o dest \<Rightarrow> bool" where
  "dest_ok d \<longleftrightarrow> 512 \<le> ds_stride d \<and> (0 < ds_rows d \<longrightarrow> (ds_rows d - 1) * ds_stride d + 512 \<le> length (ds_mem d))"

lemma put_all_simps:
  "length (put_all ps m) = length m" "put_all ps (put_all qs m) = put_all (qs @ ps) m"
  by (simp_all add: put_all_def)

lemma fold_put_all: "fold (\<lambda>p. put_all (st p)) ids m = put_all (concat (map st ids)) m"
  by (induction ids arbitrary: m) (simp_all add: put_all_simps put_all_def)

lemma row_addr_inj: "512 \<le> (s :: nat) \<Longrightarrow> j < 512 \<Longrightarrow> j' < 512 \<Longrightarrow> p * s + j = p' * s + j' \<Longrightarrow> p = p' \<and> j = j'"
  using mixed_radix [of p s j p' j'] by simp

lemma dest_room: "dest_ok d \<Longrightarrow> i < ds_rows d \<Longrightarrow> j < 512 \<Longrightarrow> i * ds_stride d + j < length (ds_mem d)"
proof -
  assume "dest_ok d" "i < ds_rows d" "j < 512"
  moreover have "i * ds_stride d \<le> (ds_rows d - 1) * ds_stride d" using \<open>i < ds_rows d\<close> by (intro mult_le_mono1) simp
  ultimately show "i * ds_stride d + j < length (ds_mem d)" unfolding dest_ok_def by linarith
qed

text \<open>Programs that store whole rows of their own leave these rows, and nothing else changed, in any order.\<close>

lemma row_launch:
  assumes d: "dest_ok d" and ids: "set pids \<subseteq> {..<ds_rows d}"
    and st: "\<And>p. p \<in> set pids \<Longrightarrow> set (st p) = (\<lambda>j. (int (p * ds_stride d + j), row p j)) ` {..<512}"
  defines "d' \<equiv> d\<lparr>ds_mem := put_all (concat (map st pids)) (ds_mem d)\<rparr>"
  shows "i \<in> set pids \<Longrightarrow> dest_row d' i = map (row i) [0..<512]"
    "(\<And>i j. i \<in> set pids \<Longrightarrow> j < 512 \<Longrightarrow> k \<noteq> i * ds_stride d + j) \<Longrightarrow> ds_mem d' ! k = ds_mem d ! k"
    "dest_ok d'" "ds_rows d' = ds_rows d" "ds_stride d' = ds_stride d" "length (ds_mem d') = length (ds_mem d)"
proof -
  let ?ps = "concat (map st pids)"
  have in_ps: "(a, v) \<in> set ?ps \<longleftrightarrow> (\<exists>p \<in> set pids. \<exists>j < 512. a = int (p * ds_stride d + j) \<and> v = row p j)" for a v
    using st by auto
  show len: "length (ds_mem d') = length (ds_mem d)" and r: "ds_rows d' = ds_rows d" and s: "ds_stride d' = ds_stride d"
    by (simp_all add: d'_def put_all_simps)
  show "dest_ok d'" using d by (simp add: dest_ok_def len r s)
  show "ds_mem d' ! k = ds_mem d ! k" if "\<And>i j. i \<in> set pids \<Longrightarrow> j < 512 \<Longrightarrow> k \<noteq> i * ds_stride d + j"
    unfolding d'_def put_all_def using in_ps that by (auto intro!: fold_scatter_other simp del: of_nat_add of_nat_mult) (metis nat_int)
  show "dest_row d' i = map (row i) [0..<512]" if i: "i \<in> set pids"
  proof -
    have rows: "i < ds_rows d" using i ids by auto
    have cell: "ds_mem d' ! (i * ds_stride d + j) = row i j" if j: "j < 512" for j
    proof -
      have "fold (\<lambda>(a, v) m. m[nat a := v]) ?ps (ds_mem d) ! nat (int (i * ds_stride d + j)) = row i j"
      proof (rule fold_scatter_own)
        show "(int (i * ds_stride d + j), row i j) \<in> set ?ps" using in_ps i j by blast
        show "nat (int (i * ds_stride d + j)) < length (ds_mem d)" using dest_room [OF d rows j] by (simp only: nat_int)
        show "\<forall>(a, v)\<in>set ?ps. nat a = nat (int (i * ds_stride d + j)) \<longrightarrow> v = row i j"
        proof clarify
          fix a v assume "(a, v) \<in> set ?ps" and a: "nat a = nat (int (i * ds_stride d + j))"
          then obtain p j' where p: "j' < 512" "a = int (p * ds_stride d + j')" "v = row p j'" using in_ps by blast
          have "p * ds_stride d + j' = i * ds_stride d + j" using a unfolding p(2) nat_int .
          then show "v = row i j" using row_addr_inj [of "ds_stride d" j' j p i] p j d by (simp add: dest_ok_def)
        qed
      qed
      moreover have "ds_mem d' = fold (\<lambda>(a, v) m. m[nat a := v]) ?ps (ds_mem d)" by (simp add: d'_def put_all_def)
      ultimately show ?thesis by (simp only: nat_int)
    qed
    have room: "i * ds_stride d + 512 \<le> length (ds_mem d)" using dest_room [OF d rows, of 511] by simp
    show ?thesis
      by (rule nth_equalityI) (use room cell len in \<open>simp_all add: dest_row_def s del: upt_rec_numeral\<close>)
  qed
qed

section \<open>The V4 kernels\<close>

text \<open>An element of a row as the kernel computes it.\<close>

definition v4_elem :: "'f fops \<Rightarrow> 'f dq_ops \<Rightarrow> ('f \<Rightarrow> 'o) \<Rightarrow> (nat \<times> nat \<Rightarrow> 'o) \<Rightarrow> nat list \<Rightarrow> tok_base \<Rightarrow> nat \<Rightarrow> 'o" where
  "v4_elem F D cast rope src t j =
     (if j < DIM_NOPE then cast (v4_nope F D src t (j div TILE_SIZE) (j mod TILE_SIZE)) else rope (v4_rope src t (j - DIM_NOPE)))"

lemma v4_stores_set:
  "set (v4_stores F D cast rope src t addr) = (\<lambda>j. (addr j, v4_elem F D cast rope src t j)) ` {..<512}"
proof -
  have split: "{..<512 :: nat} = (\<lambda>(t, j). t * 64 + j) ` ({..<7} \<times> {..<64}) \<union> (\<lambda>j. 448 + j) ` {..<64}"
  proof (rule set_eqI, rule iffI)
    fix j :: nat assume j: "j \<in> {..<512}"
    show "j \<in> (\<lambda>(t, j). t * 64 + j) ` ({..<7} \<times> {..<64}) \<union> (\<lambda>j. 448 + j) ` {..<64}"
    proof (cases "j < 448")
      case True
      then show ?thesis by (intro UnI1 image_eqI [of _ _ "(j div 64, j mod 64)"]) auto
    qed (use j in \<open>auto intro!: image_eqI [of _ _ "j - 448"]\<close>)
  qed auto
  have nope: "(tile_id * 64 + off) div 64 = tile_id" "(tile_id * 64 + off) mod 64 = off" "tile_id * 64 + off < 448"
    if "tile_id < 7" "off < 64" for tile_id off :: nat using that by simp_all
  show ?thesis unfolding split
    by (force simp: v4_stores_def v4_elem_def dq_consts nope image_Un image_image)
qed

lemma v4_range:
  fixes loc :: int
  assumes "0 < ps" "ps * 584 \<le> bpp" "int (length src) = np * bpp" "0 \<le> loc" "loc < np * ps"
  shows "0 \<le> tb_data (v4_at bpp ps loc)" "tb_data (v4_at bpp ps loc) + 576 \<le> int (length src)"
    "0 \<le> tb_scale (v4_at bpp ps loc)" "tb_scale (v4_at bpp ps loc) + 8 \<le> int (length src)"
    "even bpp \<Longrightarrow> even (tb_data (v4_at bpp ps loc))"
proof -
  let ?p = "loc div ps" and ?s = "loc mod ps"
  have "?p * ps < np * ps" using div_mult_le_self [OF assms(1), of loc] assms(5) by linarith
  then have p: "0 \<le> ?p" "?p + 1 \<le> np" using assms(1,4) by (simp_all add: pos_imp_zdiv_nonneg_iff)
  have s: "0 \<le> ?s" "?s + 1 \<le> ps" using pos_mod_bound [OF assms(1), of loc] assms(1) by (simp, linarith)
  have b: "0 \<le> bpp" using assms(1,2) by simp
  have pb: "0 \<le> ?p * bpp" "(?p + 1) * bpp \<le> np * bpp" using p b by (simp_all add: mult_right_mono)
  have sb: "(?s + 1) * 576 \<le> ps * 576" "(?s + 1) * 8 \<le> ps * 8" using s by simp_all
  have d: "tb_data (v4_at bpp ps loc) = ?p * bpp + ?s * 576" "tb_scale (v4_at bpp ps loc) = ?p * bpp + ps * 576 + ?s * 8"
    by (simp_all add: v4_at_def tok_at_def Let_def dq_consts)
  have e: "(?p + 1) * bpp = ?p * bpp + bpp" by (simp add: algebra_simps)
  show "0 \<le> tb_data (v4_at bpp ps loc)" "0 \<le> tb_scale (v4_at bpp ps loc)" using pb s assms(1) by (simp_all add: d)
  show "tb_data (v4_at bpp ps loc) + 576 \<le> int (length src)" "tb_scale (v4_at bpp ps loc) + 8 \<le> int (length src)"
    using pb(2) sb assms(2,3) s assms(1) unfolding d e by linarith+
  show "even (tb_data (v4_at bpp ps loc))" if "even bpp" using that by (simp add: d)
qed

text \<open>The two powers of two agree on scale bytes, up to torch's explicit flush.\<close>

definition exp2_flushes :: "'f fops \<Rightarrow> 'f dq_ops \<Rightarrow> bool" where
  "exp2_flushes F D \<longleftrightarrow> (\<forall>s < 256. dq_exp2_tl D (int s - 127) = (if dq_tiny D (dq_exp2 D (int s - 127)) then f_lit F 0 else dq_exp2 D (int s - 127)))"

lemma ref_token_elems:
  assumes "0 < ps" "ps * 584 \<le> bpp" "int (length src) = np * bpp" "0 \<le> loc" "loc < np * ps" "even bpp"
    and bytes: "\<forall>b \<in> set src. b < 256" and e: "exp2_flushes F D"
  shows "ref_token F D src bpp ps loc = Inr (map (v4_elem F D (f_to_bf16 F) (\<lambda>b. b) src (v4_at bpp ps loc)) [0..<512])"
proof -
  let ?t = "v4_at bpp ps loc"
  note R = v4_range [OF assms(1-5)]
  have tb: "loc div ps * bpp + loc mod ps * NOPE_ROPE_BYTES = tb_data ?t"
    "loc div ps * bpp + ps * NOPE_ROPE_BYTES + loc mod ps * PADDED_SCALE_PER_TOKEN = tb_scale ?t"
    by (simp_all add: v4_at_def tok_at_def Let_def)
  have n: "res_list (\<lambda>j. py_get src (tb_data ?t + int j)) [0..<DIM_NOPE] = Inr (map (\<lambda>j. tl_load src (tb_data ?t + int j)) [0..<DIM_NOPE])"
    using R(1,2) by (intro res_list_Inr [THEN iffD2]) (auto simp: dq_consts py_get_nonneg tl_load_def)
  have s: "res_list (\<lambda>j. py_get src (tb_scale ?t + int j)) [0..<NUM_SCALE_TILES] = Inr (map (\<lambda>j. tl_load src (tb_scale ?t + int j)) [0..<NUM_SCALE_TILES])"
    using R(3,4) by (intro res_list_Inr [THEN iffD2]) (auto simp: dq_consts py_get_nonneg tl_load_def)
  have r: "res_list (\<lambda>j. py_get (bf16_view src) ((tb_data ?t + int DIM_NOPE) div 2 + int j)) [0..<DIM_ROPE] = Inr (map (v4_rope src ?t) [0..<DIM_ROPE])"
    using R(1,2) by (intro res_list_Inr [THEN iffD2]) (auto simp: dq_consts v4_rope_def py_get_nonneg tl_load_def bf16_view_def)
  have sc: "tl_load src (tb_scale ?t + int c) < 256" if "c < 8" for c
    using R(3,4) bytes that by (simp add: tl_load_def nat_less_iff)
  have el: "f_to_bf16 F (f_mul F (f_e4m3 F (tl_load src (tb_data ?t + int j)))
      (ref_scale F D (map (\<lambda>j. tl_load src (tb_scale ?t + int j)) [0..<NUM_SCALE_TILES] ! (j div TILE_SIZE))))
     = f_to_bf16 F (v4_nope F D src ?t (j div TILE_SIZE) (j mod TILE_SIZE))" if j: "j < DIM_NOPE" for j
  proof -
    have c: "j div 64 < 7" "j div 64 < 8" "j < 448" using j by (simp_all add: dq_consts)
    have off: "int (j div 64 * 64) + int (j mod 64) = int j" by (simp only: of_nat_add [symmetric] div_mult_mod_eq)
    show ?thesis using e [unfolded exp2_flushes_def, rule_format, OF sc [OF c(2)]] c j off
      by (simp add: v4_nope_def ref_scale_def Let_def dq_consts add.assoc del: upt_rec_numeral)
  qed
  have "[448..<512] = map (\<lambda>j. 448 + j) [0..<64]" by (rule nth_equalityI) (simp_all del: upt_rec_numeral)
  then have up: "[0..<512] = [0..<DIM_NOPE] @ map (\<lambda>j. DIM_NOPE + j) [0..<DIM_ROPE]"
    using upt_split [of 0 448 512] by (simp add: dq_consts del: upt_rec_numeral)
  show ?thesis unfolding ref_token_def Let_def tb n s r res_bind_simps up map_append map_map
    by (intro arg_cong [of _ _ Inr] arg_cong2 [of _ _ _ _ "(@)"] map_cong [OF refl]) (auto simp: el v4_elem_def)
qed

text \<open>A V4 cache of \<open>np\<close> pages that holds the tokens of a table.\<close>

definition v4_cache :: "nat list \<Rightarrow> int \<Rightarrow> int \<Rightarrow> int \<Rightarrow> int list \<Rightarrow> bool" where
  "v4_cache src bpp ps np table \<longleftrightarrow> 0 < ps \<and> ps * 584 \<le> bpp \<and> even bpp \<and> int (length src) = np * bpp
     \<and> (\<forall>b \<in> set src. b < 256) \<and> (\<forall>loc \<in> set table. 0 \<le> loc \<and> loc < np * ps)"

lemma ref_rows:
  assumes "v4_cache src bpp ps np table" "exp2_flushes F D"
  shows "dequantize_k_cache_paged_ref F D src bpp table ps
     = Inr (map (\<lambda>loc. map (v4_elem F D (f_to_bf16 F) (\<lambda>b. b) src (v4_at bpp ps loc)) [0..<512]) table)"
  using assms unfolding dequantize_k_cache_paged_ref_def v4_cache_def
  by (auto simp: res_list_Inr intro!: ref_token_elems simp del: upt_rec_numeral)

lemma dequant_launch:
  "fold (dequantize_k_cache_paged_kernel F D src table bpp ps stride) pids m
     = put_all (concat (map (\<lambda>p. v4_stores F D (f_to_bf16 F) (\<lambda>b. b) src (v4_at bpp ps (tl_load table (int p))) (\<lambda>o'. int (p * stride) + int o')) pids)) m"
  unfolding fold_put_all [symmetric] by (intro arg_cong2 [of _ _ _ _ "\<lambda>f. fold f pids"] ext refl) (simp add: dequantize_k_cache_paged_kernel_def)

lemma gather_launch:
  "fold (gather_dequant_requant_fp8_paged_kernel F D src table bpp ps stride) pids m
     = put_all (concat (map (\<lambda>p. v4_stores F D (f_to_fp8 F) (dq_bf16_fp8_tl D) src (v4_at bpp ps (tl_load table (int p))) (\<lambda>o'. i32 (gather_row_base p stride + int o'))) pids)) m"
  unfolding fold_put_all [symmetric] by (intro arg_cong2 [of _ _ _ _ "\<lambda>f. fold f pids"] ext refl) (simp add: gather_dequant_requant_fp8_paged_kernel_def)

text \<open>C22. Reading the V4 cache: for the tokens of any table, in whatever order the programs run, the rows of
  the destination hold exactly what the torch reference returns, and the rest of the workspace the
  destination is a slice of, gaps between rows included, stays as it was.\<close>

theorem paged_v4_matches_reference:
  assumes cache: "v4_cache src bpp ps np table" and e: "exp2_flushes F D" and l: "parse_layout layout = Inr V4"
    and d: "pick_dest fresh (length table) out = Inr d" "dest_ok d" and pids: "set pids = {..<length table}"
  shows "\<exists>d'. dequantize_k_cache_paged F D fresh pids src bpp table ps out layout = Inr d'
     \<and> dequantize_k_cache_paged_ref F D src bpp table ps = Inr (map (dest_row d') [0..<length table])
     \<and> length (ds_mem d') = length (ds_mem d)
     \<and> (\<forall>k. (\<forall>i < length table. \<forall>j < 512. k \<noteq> i * ds_stride d + j) \<longrightarrow> ds_mem d' ! k = ds_mem d ! k)"
proof -
  let ?st = "\<lambda>p. v4_stores F D (f_to_bf16 F) (\<lambda>b. b) src (v4_at bpp ps (tl_load table (int p))) (\<lambda>o'. int (p * ds_stride d) + int o')"
  let ?row = "\<lambda>p. v4_elem F D (f_to_bf16 F) (\<lambda>b. b) src (v4_at bpp ps (tl_load table (int p)))"
  let ?d' = "d\<lparr>ds_mem := put_all (concat (map ?st pids)) (ds_mem d)\<rparr>"
  have n: "ds_rows d = length table" using d(1) by (auto simp: pick_dest_def ensure_Inr split: option.splits)
  have st: "set (?st p) = (\<lambda>j. (int (p * ds_stride d + j), ?row p j)) ` {..<512}" for p
    unfolding v4_stores_set by simp
  note L = row_launch [OF d(2) _ st, of pids, unfolded n pids, simplified]
  have run: "dequantize_k_cache_paged F D fresh pids src bpp table ps out layout = Inr ?d'"
    using cache by (simp add: dequantize_k_cache_paged_def l d(1) v4_cache_def dequant_launch)
  have rows: "map (dest_row ?d') [0..<length table]
      = map (\<lambda>loc. map (v4_elem F D (f_to_bf16 F) (\<lambda>b. b) src (v4_at bpp ps loc)) [0..<512]) table"
    by (rule nth_equalityI) (use L(1) in \<open>simp_all add: tl_load_in del: upt_rec_numeral\<close>)
  show ?thesis
    by (intro exI [of _ ?d'] conjI allI impI) (use run ref_rows [OF cache e] rows L in \<open>auto simp del: upt_rec_numeral\<close>)
qed

section \<open>The fp8 workspace\<close>

text \<open>Triton casts a row's values to fp8 as torch casts them from bf16: the products directly, the rope
  tail from the bf16 it is stored in.\<close>

definition casts_agree :: "'f fops \<Rightarrow> 'f dq_ops \<Rightarrow> nat list \<Rightarrow> tok_base \<Rightarrow> bool" where
  "casts_agree F D src t \<longleftrightarrow> (\<forall>c < 7. \<forall>off < 64. f_to_fp8 F (v4_nope F D src t c off) = dq_bf16_fp8 D (f_to_bf16 F (v4_nope F D src t c off)))
     \<and> (\<forall>j < 64. dq_bf16_fp8_tl D (v4_rope src t j) = dq_bf16_fp8 D (v4_rope src t j))"

lemma casts_agree_elem:
  "casts_agree F D src t \<Longrightarrow> j < 512 \<Longrightarrow> v4_elem F D (f_to_fp8 F) (dq_bf16_fp8_tl D) src t j = dq_bf16_fp8 D (v4_elem F D (f_to_bf16 F) (\<lambda>b. b) src t j)"
  unfolding casts_agree_def v4_elem_def dq_consts by (simp add: less_mult_imp_div_less)

lemma zero_rows_result:
  assumes "dest_ok d" "n \<le> ds_rows d"
  shows "dest_ok (zero_rows n d)" "ds_rows (zero_rows n d) = ds_rows d" "ds_stride (zero_rows n d) = ds_stride d"
    "length (ds_mem (zero_rows n d)) = length (ds_mem d)" "n \<le> i \<Longrightarrow> i < ds_rows d \<Longrightarrow> dest_row (zero_rows n d) i = replicate 512 0"
    "(\<And>i j. n \<le> i \<Longrightarrow> i < ds_rows d \<Longrightarrow> j < 512 \<Longrightarrow> k \<noteq> i * ds_stride d + j) \<Longrightarrow> ds_mem (zero_rows n d) ! k = ds_mem d ! k"
proof -
  let ?st = "\<lambda>r. map (\<lambda>j. (int (r * ds_stride d) + int j, 0 :: nat)) [0..<DIM_NOPE + DIM_ROPE]"
  have st: "set (?st p) = (\<lambda>j. (int (p * ds_stride d + j), (0 :: nat))) ` {..<512}" for p by (auto simp: dq_consts)
  have "set [n..<ds_rows d] \<subseteq> {..<ds_rows d}" by auto
  note L = row_launch [OF assms(1) this, of ?st "\<lambda>_ _. 0", OF st, folded zero_rows_def]
  show "dest_ok (zero_rows n d)" "ds_rows (zero_rows n d) = ds_rows d" "ds_stride (zero_rows n d) = ds_stride d"
    "length (ds_mem (zero_rows n d)) = length (ds_mem d)" using L(3-6) by simp_all
  show "dest_row (zero_rows n d) i = replicate 512 0" if "n \<le> i" "i < ds_rows d"
    using L(1) [of i] that by (simp add: map_replicate_const del: upt_rec_numeral)
  show "ds_mem (zero_rows n d) ! k = ds_mem d ! k" if "\<And>i j. n \<le> i \<Longrightarrow> i < ds_rows d \<Longrightarrow> j < 512 \<Longrightarrow> k \<noteq> i * ds_stride d + j"
    using L(2) [of k] that by auto
qed

text \<open>Where a row of the destination is when other cells changed only.\<close>

lemma dest_row_same:
  assumes "ds_stride d' = ds_stride d" "length (ds_mem d') = length (ds_mem d)"
    "\<And>j. j < 512 \<Longrightarrow> ds_mem d' ! (i * ds_stride d + j) = ds_mem d ! (i * ds_stride d + j)"
  shows "dest_row d' i = dest_row d i"
  unfolding dest_row_def by (rule nth_equalityI) (use assms in \<open>auto simp: nth_drop\<close>)

text \<open>The 32 bit base is exact for rows that end within two gigabytes.\<close>

lemma gather_addr:
  assumes "p < n" "(n - 1) * st + 512 \<le> 2 ^ 31" "j < 512"
  shows "i32 (gather_row_base p st + int j) = int (p * st + j)"
proof -
  have "p * st \<le> (n - 1) * st" using assms(1) by (intro mult_le_mono1) simp
  then have "p * st + j < 2 ^ 31" "p * st < 2 ^ 31" using assms(2,3) by linarith+
  then have "int (p * st + j) < 2 ^ 31" "int p * int st < 2 ^ 31" by (metis of_nat_less_numeral_power_cancel_iff, metis of_nat_less_numeral_power_cancel_iff of_nat_mult)
  then show ?thesis by (simp add: gather_row_base_def i32_id)
qed

definition gather_dest :: "int \<Rightarrow> nat \<Rightarrow> nat dest option \<Rightarrow> nat dest" where
  "gather_dest extra n out = (case out of
     None \<Rightarrow> \<lparr>ds_mem = replicate ((n + nat extra) * 512) 0, ds_rows = n + nat extra, ds_stride = 512\<rparr>
   | Some d \<Rightarrow> if extra \<noteq> 0 then zero_rows n d else d)"

lemma gather_dest_tail:
  assumes "0 \<le> extra" "\<And>d. out = Some d \<Longrightarrow> dest_ok d \<and> ds_rows d = n + nat extra" "n \<le> i" "i < n + nat extra"
  shows "dest_row (gather_dest extra n out) i = replicate 512 0"
proof (cases out)
  case None
  have "i * 512 + 512 \<le> (n + nat extra) * 512" using assms(4) by simp
  then show ?thesis using None by (simp add: gather_dest_def dest_row_def)
next
  case (Some d)
  then show ?thesis using assms zero_rows_result(5) [of d n i] by (auto simp: gather_dest_def)
qed

lemma gather_dest_props:
  assumes "\<And>d. out = Some d \<Longrightarrow> dest_ok d \<and> ds_rows d = n + nat extra"
  shows "dest_ok (gather_dest extra n out)" "ds_rows (gather_dest extra n out) = n + nat extra"
    "ds_stride (gather_dest extra n out) = (case out of None \<Rightarrow> 512 | Some d \<Rightarrow> ds_stride d)"
proof -
  let ?k = "n + nat extra"
  have "0 < ?k \<longrightarrow> (?k - 1) * 512 + 512 \<le> ?k * 512" by (cases ?k) simp_all
  then show "dest_ok (gather_dest extra n out)"
    using assms zero_rows_result(1) by (cases out) (auto simp: gather_dest_def dest_ok_def [of "\<lparr>ds_mem = _, ds_rows = _, ds_stride = _\<rparr>"])
  show "ds_rows (gather_dest extra n out) = n + nat extra"
    "ds_stride (gather_dest extra n out) = (case out of None \<Rightarrow> 512 | Some d \<Rightarrow> ds_stride d)"
    using assms zero_rows_result(2,3) by (cases out; simp add: gather_dest_def)+
qed

text \<open>C23. The fp8 workspace of the sparse prefill: as long as the workspace ends within the two gigabytes its
  32 bit row base can address, and Triton casts the values of the rows to fp8 as
  torch casts them from bf16, the gather leaves the rows of the torch reference followed by the zero landing pad, in any order of the
  programs, whether it allocates the workspace or is given a slice that holds something else.\<close>

theorem gather_workspace_matches_reference:
  assumes cache: "v4_cache src bpp ps np table" and e: "exp2_flushes F D"
    and casts: "\<And>loc. loc \<in> set table \<Longrightarrow> casts_agree F D src (v4_at bpp ps loc)"
    and out: "\<And>d. out = Some d \<Longrightarrow> dest_ok d \<and> ds_rows d = length table + extra"
    and fits: "(length table - 1) * (case out of None \<Rightarrow> 512 | Some d \<Rightarrow> ds_stride d) + 512 \<le> 2 ^ 31"
    and pids: "set pids = {..<length table}"
  shows "\<exists>d'. gather_dequant_requant_fp8_paged F D pids src bpp table ps (int extra) out = Inr d'
     \<and> gather_dequant_requant_fp8_paged_ref F D src bpp table ps extra = Inr (map (dest_row d') [0..<length table + extra])"
proof -
  let ?n = "length table" and ?d = "gather_dest (int extra) (length table) out"
  let ?at = "\<lambda>p. v4_at bpp ps (tl_load table (int p))"
  let ?st = "\<lambda>p. v4_stores F D (f_to_fp8 F) (dq_bf16_fp8_tl D) src (?at p) (\<lambda>o'. i32 (gather_row_base p (ds_stride ?d) + int o'))"
  let ?row = "\<lambda>p. v4_elem F D (f_to_fp8 F) (dq_bf16_fp8_tl D) src (?at p)"
  let ?d' = "?d\<lparr>ds_mem := put_all (concat (map ?st pids)) (ds_mem ?d)\<rparr>"
  have P: "dest_ok ?d" "ds_rows ?d = ?n + extra" "ds_stride ?d = (case out of None \<Rightarrow> 512 | Some d \<Rightarrow> ds_stride d)"
    using gather_dest_props [of out ?n "int extra"] out by simp_all
  have st: "set (?st p) = (\<lambda>j. (int (p * ds_stride ?d + j), ?row p j)) ` {..<512}" if "p \<in> set pids" for p
    unfolding v4_stores_set using gather_addr [of p ?n "ds_stride ?d"] fits that pids
    by (intro image_cong [OF refl]) (simp add: P(3))
  have sub: "set pids \<subseteq> {..<ds_rows ?d}" using pids by (auto simp: P(2))
  note L = row_launch [OF P(1) sub st]
  have run: "gather_dequant_requant_fp8_paged F D pids src bpp table ps (int extra) out = Inr ?d'"
  proof (cases "table = []")
    case True
    then show ?thesis using pids cache out
      by (auto simp: gather_dequant_requant_fp8_paged_def gather_dest_def v4_cache_def put_all_def dq_consts Let_def split: option.splits)
  next
    case False
    then show ?thesis using cache out
      by (auto simp: gather_dequant_requant_fp8_paged_def gather_dest_def v4_cache_def gather_launch dq_consts Let_def split: option.splits)
  qed
  have active: "dest_row ?d' i = map (dq_bf16_fp8 D) (map (v4_elem F D (f_to_bf16 F) (\<lambda>b. b) src (v4_at bpp ps (table ! i))) [0..<512])"
    if i: "i < ?n" for i
  proof -
    have at: "?at i = v4_at bpp ps (table ! i)" and ca: "casts_agree F D src (v4_at bpp ps (table ! i))"
      using i casts by (simp_all add: tl_load_in)
    have "dest_row ?d' i = map (?row i) [0..<512]" by (rule L(1)) (use i pids in auto)
    also have "\<dots> = map (dq_bf16_fp8 D) (map (v4_elem F D (f_to_bf16 F) (\<lambda>b. b) src (v4_at bpp ps (table ! i))) [0..<512])"
      unfolding at map_map by (rule map_cong [OF refl]) (simp add: casts_agree_elem [OF ca] del: upt_rec_numeral)
    finally show ?thesis .
  qed
  have tail: "dest_row ?d' i = replicate 512 0" if i: "?n \<le> i" "i < ?n + extra" for i
  proof -
    have "dest_row ?d' i = dest_row ?d i"
    proof (rule dest_row_same)
      fix j :: nat assume j: "j < 512"
      show "ds_mem ?d' ! (i * ds_stride ?d + j) = ds_mem ?d ! (i * ds_stride ?d + j)"
      proof (rule L(2))
        fix p j' :: nat assume "p \<in> set pids" "j' < 512"
        then show "i * ds_stride ?d + j \<noteq> p * ds_stride ?d + j'"
          using row_addr_inj [of "ds_stride ?d" j j' i p] j P(1) i pids by (auto simp: dest_ok_def)
      qed
    qed (use L(5,6) in simp_all)
    then show ?thesis using gather_dest_tail [of "int extra" out ?n i] out i by simp
  qed
  have rows: "map (dest_row ?d') [0..<?n + extra]
      = map (map (dq_bf16_fp8 D)) (map (\<lambda>loc. map (v4_elem F D (f_to_bf16 F) (\<lambda>b. b) src (v4_at bpp ps loc)) [0..<512]) table)
        @ replicate extra (replicate 512 0)"
  proof (rule nth_equalityI)
    fix i assume "i < length (map (dest_row ?d') [0..<?n + extra])"
    then have "i < ?n + extra" by simp
    then show "map (dest_row ?d') [0..<?n + extra] ! i = (map (map (dq_bf16_fp8 D)) (map (\<lambda>loc. map (v4_elem F D (f_to_bf16 F) (\<lambda>b. b) src (v4_at bpp ps loc)) [0..<512]) table)
        @ replicate extra (replicate 512 0)) ! i"
      using active [of i] tail [of i] by (cases "i < ?n") (simp_all add: nth_append del: upt_rec_numeral)
  qed simp
  show ?thesis
    by (intro exI [of _ ?d'] conjI run) (simp add: gather_dequant_requant_fp8_paged_ref_def ref_rows [OF cache e] Let_def rows dq_consts del: upt_rec_numeral)
qed

text \<open>Beyond it the base wraps: program 4194304 of a packed workspace stores below its start.\<close>

lemma gather_base_wraps: "gather_row_base 4194304 512 = - (2 ^ 31)"
  by (simp add: gather_row_base_def i32_def signed_take_bit_eq_take_bit_shift take_bit_eq_mod)

section \<open>The compressed layouts\<close>

lemma page_load:
  assumes pages: "\<forall>page \<in> set pages. length page = pb" and loc: "0 \<le> loc" "loc < int (length pages * ps)" and off: "off < pb"
  shows "tl_load (concat pages) (loc div int ps * int pb + int off) = pages ! (nat loc div ps) ! off"
proof -
  have l: "loc = int (nat loc)" using loc(1) by simp
  have p: "nat loc div ps < length pages" using loc by (intro less_mult_imp_div_less) (simp add: nat_less_iff)
  have "loc div int ps * int pb + int off = int (nat loc div ps * pb + off)" by (subst l) (simp add: zdiv_int)
  moreover have "nat loc div ps * pb + off < length (concat pages)"
    using mult_le_mono1 [of "Suc (nat loc div ps)" "length pages" pb] p off length_concat_uniform [of pages "\<lambda>x. x" pb] pages by simp
  ultimately show ?thesis using concat_rect_nth [OF pages p off] tl_load_in by metis
qed

text \<open>An element of a row in either layout, from the bytes of its page.\<close>

definition v41_elem :: "'f fops \<Rightarrow> 'f dq_ops \<Rightarrow> kv_layout \<Rightarrow> nat list \<Rightarrow> nat \<Rightarrow> nat \<Rightarrow> nat \<Rightarrow> nat \<times> nat" where
  "v41_elem F D l page ps t j = f_to_bf16 F
     (if l = V41 then f_mul F (f_e4m3 F (page ! (t * 512 + j))) (ue8m0_to_fp32 F D (page ! (ps * 512 + t * 16 + j div 32)))
      else f_mul F (e2m1_code_to_fp32 F (nibble (odd j) (page ! (t * 256 + j div 2)))) (f_e4m3 F (page ! (ps * 256 + t * 32 + j div 16))))"

text \<open>A cache of written pages and a table of its tokens.\<close>

definition v41_cache :: "kv_layout \<Rightarrow> nat list list \<Rightarrow> nat \<Rightarrow> nat \<Rightarrow> int list \<Rightarrow> bool" where
  "v41_cache l pages pb ps table \<longleftrightarrow> 0 < ps \<and> int ps * bytes_per_token l \<le> int pb
     \<and> (\<forall>page \<in> set pages. length page = pb \<and> (\<forall>b \<in> set page. b < 256))
     \<and> (\<forall>loc \<in> set table. 0 \<le> loc \<and> loc < int (length pages * ps))"

lemma v41_loads:
  assumes c: "v41_cache l pages pb ps table" "loc \<in> set table"
  defines "t \<equiv> v41_at l (int pb) (int ps) loc"
  shows "int k < data_bytes l \<Longrightarrow> tl_load (concat pages) (tb_data t + int k) = pages ! (nat loc div ps) ! (nat loc mod ps * nat (data_bytes l) + k)"
    "int k < scale_bytes l \<Longrightarrow> tl_load (concat pages) (tb_scale t + int k) = pages ! (nat loc div ps) ! (ps * nat (data_bytes l) + nat loc mod ps * nat (scale_bytes l) + k)"
proof -
  have loc: "0 \<le> loc" "loc < int (length pages * ps)" and ps: "0 < ps" and pages: "\<forall>page \<in> set pages. length page = pb"
    using c by (auto simp: v41_cache_def)
  have l: "loc = int (nat loc)" using loc(1) by simp
  have m: "loc mod int ps = int (nat loc mod ps)" by (subst l) (simp add: zmod_int)
  let ?d = "nat (data_bytes l)" and ?s = "nat (scale_bytes l)"
  have ds: "data_bytes l = int ?d" "scale_bytes l = int ?s" by (simp_all add: less_imp_le)
  have "int (ps * ?d + ps * ?s) \<le> int pb" using c(1) ds by (simp add: v41_cache_def bytes_per_token_def algebra_simps)
  then have fit: "ps * ?d + ps * ?s \<le> pb" by (simp only: of_nat_le_iff)
  have "nat loc mod ps < ps" using ps by simp
  then have room: "nat loc mod ps * ?d + ?d \<le> ps * ?d" "nat loc mod ps * ?s + ?s \<le> ps * ?s"
    using mult_le_mono1 [of "Suc (nat loc mod ps)" ps ?d] mult_le_mono1 [of "Suc (nat loc mod ps)" ps ?s] by simp_all
  have tb: "tb_data t + int k = loc div int ps * int pb + int (nat loc mod ps * ?d + k)"
    "tb_scale t + int k = loc div int ps * int pb + int (ps * ?d + nat loc mod ps * ?s + k)"
    using layout_pos(1,2) [of l] by (simp_all add: t_def v41_at_def tok_at_def Let_def scale_offset_def m less_imp_le)
  show "tl_load (concat pages) (tb_data t + int k) = pages ! (nat loc div ps) ! (nat loc mod ps * ?d + k)" if "int k < data_bytes l"
    unfolding tb by (rule page_load [OF pages loc]) (use that room fit ds in linarith)
  show "tl_load (concat pages) (tb_scale t + int k) = pages ! (nat loc div ps) ! (ps * ?d + nat loc mod ps * ?s + k)" if "int k < scale_bytes l"
    unfolding tb by (rule page_load [OF pages loc]) (use that room fit ds in linarith)
qed

definition v41_stores :: "'f fops \<Rightarrow> 'f dq_ops \<Rightarrow> kv_layout \<Rightarrow> nat list list \<Rightarrow> nat \<Rightarrow> int \<Rightarrow> int \<Rightarrow> (int \<times> nat \<times> nat) list" where
  "v41_stores F D l pages ps loc out_base =
     (let el = v41_elem F D l (pages ! (nat loc div ps)) ps (nat loc mod ps) in
      if l = V41 then map (\<lambda>j. (out_base + int j, el j)) [0..<512]
      else map (\<lambda>b. (out_base + 2 * int b, el (2 * b))) [0..<256] @ map (\<lambda>b. (out_base + 2 * int b + 1, el (2 * b + 1))) [0..<256])"

lemma v41_kernel_stores:
  assumes "v41_cache V41 pages pb ps table" "p < length table"
  shows "dequantize_k_cache_paged_v41_fp8_kernel F D (concat pages) table (int pb) (int ps) stride p = put_all (v41_stores F D V41 pages ps (table ! p) (int (p * stride)))"
proof -
  have "table ! p \<in> set table" using assms(2) by simp
  note L = v41_loads [OF assms(1) this, simplified layout_defs kv_layout.case]
  have d: "tl_load (concat pages) (tb_data (v41_at V41 (int pb) (int ps) (table ! p)) + int j) = pages ! (nat (table ! p) div ps) ! (nat (table ! p) mod ps * 512 + j)"
    "tl_load (concat pages) (tb_scale (v41_at V41 (int pb) (int ps) (table ! p)) + int (j div 32)) = pages ! (nat (table ! p) div ps) ! (ps * 512 + nat (table ! p) mod ps * 16 + j div 32)"
    if "j \<in> set [0..<512]" for j
    using L(1) [of j] L(2) [of "j div 32"] that by (simp_all del: upt_rec_numeral)
  show ?thesis unfolding dequantize_k_cache_paged_v41_fp8_kernel_def v41_stores_def v41_elem_def Let_def tl_load_in [OF assms(2)] if_True simp_thms
    by (intro arg_cong [of _ _ put_all] map_cong refl) (simp only: d)
qed

lemma v41_fp4_kernel_stores:
  assumes "v41_cache V41_FP4 pages pb ps table" "p < length table"
  shows "dequantize_k_cache_paged_v41_fp4_kernel F (concat pages) table (int pb) (int ps) stride p = put_all (v41_stores F D V41_FP4 pages ps (table ! p) (int (p * stride)))"
proof -
  have "table ! p \<in> set table" using assms(2) by simp
  note L = v41_loads [OF assms(1) this, simplified layout_defs kv_layout.case]
  have d: "tl_load (concat pages) (tb_data (v41_at V41_FP4 (int pb) (int ps) (table ! p)) + int b) = pages ! (nat (table ! p) div ps) ! (nat (table ! p) mod ps * 256 + b)"
    "tl_load (concat pages) (tb_scale (v41_at V41_FP4 (int pb) (int ps) (table ! p)) + int (2 * b div 16)) = pages ! (nat (table ! p) div ps) ! (ps * 256 + nat (table ! p) mod ps * 32 + 2 * b div 16)"
    "(2 * b + 1) div 16 = 2 * b div 16"
    if "b \<in> set [0..<256]" for b
  proof -
    have "b < 256" "2 * b div 16 < 32" using that by (simp_all del: upt_rec_numeral)
    then show "tl_load (concat pages) (tb_data (v41_at V41_FP4 (int pb) (int ps) (table ! p)) + int b) = pages ! (nat (table ! p) div ps) ! (nat (table ! p) mod ps * 256 + b)"
      "tl_load (concat pages) (tb_scale (v41_at V41_FP4 (int pb) (int ps) (table ! p)) + int (2 * b div 16)) = pages ! (nat (table ! p) div ps) ! (ps * 256 + nat (table ! p) mod ps * 32 + 2 * b div 16)"
      using L(1) [of b] L(2) [of "2 * b div 16"] by (simp_all only: of_nat_less_numeral_iff simp_thms nat_numeral)
    show "(2 * b + 1) div 16 = 2 * b div 16" by presburger
  qed
  have nib: "(2 * b) div 2 = b" "(2 * b + 1) div 2 = b" "odd (2 * b) = False" "odd (2 * b + 1) = True" "(V41_FP4 = V41) = False" for b :: nat by simp_all
  show ?thesis unfolding dequantize_k_cache_paged_v41_fp4_kernel_def v41_stores_def v41_elem_def Let_def tl_load_in [OF assms(2)] if_False nib
    by (intro arg_cong [of _ _ put_all] arg_cong2 [of _ _ _ _ "(@)"] map_cong refl) (simp_all only: d)
qed

lemma v41_stores_set:
  "set (v41_stores F D l pages ps loc (int base))
     = (\<lambda>j. (int (base + j), v41_elem F D l (pages ! (nat loc div ps)) ps (nat loc mod ps) j)) ` {..<512}"
proof (cases "l = V41")
  case False
  have split: "{..<512 :: nat} = (\<lambda>b. 2 * b) ` {..<256} \<union> (\<lambda>b. 2 * b + 1) ` {..<256}"
  proof (rule set_eqI, rule iffI)
    fix j :: nat assume "j \<in> {..<512}"
    then show "j \<in> (\<lambda>b. 2 * b) ` {..<256} \<union> (\<lambda>b. 2 * b + 1) ` {..<256}"
      by (cases "even j") (auto elim!: evenE oddE)
  qed auto
  show ?thesis unfolding split using False
    by (simp add: v41_stores_def Let_def image_Un image_image atLeast0LessThan add_ac del: upt_rec_numeral)
qed (simp add: v41_stores_def Let_def image_image atLeast0LessThan del: upt_rec_numeral)

text \<open>The torch readers of theory Fp4Quant, element by element.\<close>

lemma slice_nth:
  assumes "t < n" "k < w" "off + n * w \<le> length xs"
  shows "take w (drop (t * w) (take (n * w) (drop off xs))) ! k = xs ! (off + t * w + k)"
proof -
  have "t * w + w \<le> n * w" using mult_le_mono1 [of "Suc t" n w] assms(1) by simp
  then have "t * w + k < n * w" "off + (t * w + k) < length xs" using assms(2,3) by linarith+
  moreover have "length (take (n * w) (drop off xs)) = n * w" using assms(3) by simp
  moreover have "t * w \<le> n * w" "off \<le> length xs" using assms(1,3) by simp_all
  ultimately show ?thesis using assms(2) by (simp only: nth_take nth_drop add.assoc)
qed

lemma torch_fp4_elem:
  assumes "p < length pages" "t < ps" "ps * 288 \<le> length (pages ! p)"
  shows "dequantize_k_cache_v41_fp4 Q pages ps ! p ! t = map (\<lambda>j. q_bf16 Q (value_of (dequantize_e2m1_codes (nibble (odd j) (pages ! p ! (t * 256 + j div 2))))
      * q_e4m3_val Q (pages ! p ! (ps * 256 + t * 32 + j div 16)))) [0..<512]"
proof -
  let ?pg = "pages ! p"
  have "take 256 (drop (t * 256) (take (ps * 256) ?pg)) ! (j div 2) = ?pg ! (t * 256 + j div 2)"
    "take 32 (drop (t * 32) (take (ps * 32) (drop (ps * 256) ?pg))) ! (j div 16) = ?pg ! (ps * 256 + t * 32 + j div 16)"
    if "j < 512" for j
    using slice_nth [of t ps "j div 2" 256 0 ?pg] slice_nth [of t ps "j div 16" 32 "ps * 256" ?pg] assms that by simp_all
  then show ?thesis using assms(1,2)
    by (simp add: dequantize_k_cache_v41_fp4_def Let_def cong: map_cong del: upt_rec_numeral)
qed

lemma torch_fp8_elem:
  assumes "p < length pages" "t < ps" "ps * 528 \<le> length (pages ! p)"
  shows "dequantize_k_cache_v41 V pages ps ! p ! t
    = map (\<lambda>j. v_mul V (v_fp8_val V (pages ! p ! (t * 512 + j))) (v_e8m0_val V (pages ! p ! (ps * 512 + t * 16 + j div 32)))) [0..<512]"
proof -
  let ?pg = "pages ! p"
  have "take 512 (drop (t * 512) (take (ps * 512) ?pg)) ! j = ?pg ! (t * 512 + j)"
    "take 16 (drop (t * 16) (take (ps * 16) (drop (ps * 512) ?pg))) ! (j div 32) = ?pg ! (ps * 512 + t * 16 + j div 32)"
    if "j < 512" for j
    using slice_nth [of t ps j 512 0 ?pg] slice_nth [of t ps "j div 32" 16 "ps * 512" ?pg] assms that by simp_all
  then show ?thesis using assms(1,2)
    by (simp add: dequantize_k_cache_v41_def Let_def cong: map_cong del: upt_rec_numeral)
qed

lemma v41_rows:
  assumes c: "v41_cache l pages pb ps table" and l: "l \<in> {V41, V41_FP4}" "parse_layout layout = Inr l"
    and d: "pick_dest fresh (length table) out = Inr d" "dest_ok d" and pids: "set pids = {..<length table}"
  shows "\<exists>d'. dequantize_k_cache_paged F D fresh pids (concat pages) (int pb) table (int ps) out layout = Inr d'
     \<and> (\<forall>i < length table. dest_row d' i = map (v41_elem F D l (pages ! (nat (table ! i) div ps)) ps (nat (table ! i) mod ps)) [0..<512])
     \<and> (\<forall>k. (\<forall>i < length table. \<forall>j < 512. k \<noteq> i * ds_stride d + j) \<longrightarrow> ds_mem d' ! k = ds_mem d ! k)"
proof -
  let ?st = "\<lambda>p. v41_stores F D l pages ps (table ! p) (int (p * ds_stride d))"
  let ?d' = "d\<lparr>ds_mem := put_all (concat (map ?st pids)) (ds_mem d)\<rparr>"
  have n: "ds_rows d = length table" using d(1) by (auto simp: pick_dest_def ensure_Inr split: option.splits)
  let ?row = "\<lambda>p. v41_elem F D l (pages ! (nat (table ! p) div ps)) ps (nat (table ! p) mod ps)"
  have sub: "set pids \<subseteq> {..<ds_rows d}" using pids n by simp
  note L = row_launch [OF d(2) sub, of ?st ?row, OF v41_stores_set]
  have k: "(if l = V41 then dequantize_k_cache_paged_v41_fp8_kernel F D else dequantize_k_cache_paged_v41_fp4_kernel F) (concat pages) table (int pb) (int ps) (ds_stride d) p = put_all (?st p)"
    if "p < length table" for p
    using v41_kernel_stores [of pages pb ps table p F D "ds_stride d"] v41_fp4_kernel_stores [of pages pb ps table p F "ds_stride d" D] c l(1) that by auto
  have "fold ((if l = V41 then dequantize_k_cache_paged_v41_fp8_kernel F D else dequantize_k_cache_paged_v41_fp4_kernel F) (concat pages) table (int pb) (int ps) (ds_stride d)) pids m
      = fold (\<lambda>p. put_all (?st p)) pids m" for m
    by (rule List.fold_cong) (use k pids in auto)
  then have f: "fold ((if l = V41 then dequantize_k_cache_paged_v41_fp8_kernel F D else dequantize_k_cache_paged_v41_fp4_kernel F) (concat pages) table (int pb) (int ps) (ds_stride d)) pids (ds_mem d)
      = put_all (concat (map ?st pids)) (ds_mem d)" by (simp only: fold_put_all)
  have size: "int ps * bytes_per_token l \<le> int pb" using c by (simp add: v41_cache_def)
  have same: "table = [] \<Longrightarrow> ?d' = d" using pids by (simp add: put_all_def)
  have "parse_layout (LayoutVal l) = Inr l" by (simp add: parse_layout_def)
  then have "dequantize_k_cache_paged_v41 F D fresh pids (concat pages) (int pb) table (int ps) out (LayoutVal l) = Inr ?d'"
    unfolding dequantize_k_cache_paged_v41_def Let_def using size l(1) same
    by (simp only: res_bind_simps d(1) f ensure_simps if_True if_False split: if_split) simp
  then have run: "dequantize_k_cache_paged F D fresh pids (concat pages) (int pb) table (int ps) out layout = Inr ?d'"
    unfolding dequantize_k_cache_paged_def l(2) res_bind_simps using l(1) by auto
  show ?thesis by (intro exI [of _ ?d'] conjI run allI impI L(1,2)) (use pids in auto)
qed

section \<open>The compressed formats' numbers\<close>

text \<open>The value of an fp32 bit pattern, of an e4m3 byte and of an e8m0 byte, as the formats define them.\<close>

definition f32_val :: "int \<Rightarrow> fval" where
  "f32_val b =
     (let sg = odd (b div 2 ^ 31); e = b div 2 ^ 23 mod 256; m = (of_int (b mod 2 ^ 23) / 2 ^ 23 :: rat)
      in if e = 255 then (if m = 0 then Inf sg else NaN sg)
         else Fin sg (if e = 0 then m * 2 powi (- 126) else (1 + m) * 2 powi (e - 127)))"

definition e4m3_val :: "nat \<Rightarrow> fval" where
  "e4m3_val b =
     (let sg = odd (b div 128); e = b div 8 mod 16; m = (of_nat (b mod 8) / 8 :: rat)
      in if b mod 128 = 127 then NaN sg
         else Fin sg (if e = 0 then m * 2 powi (- 6) else (1 + m) * 2 powi (int e - 7)))"

definition e8m0_val :: "nat \<Rightarrow> fval" where
  "e8m0_val b = (if b = 255 then NaN False else Fin False (2 powi (int b - 127)))"

text \<open>The primitive operations of the kernels: \<open>den\<close> is the value a register holds.  A bit cast reads the
  pattern, the literals are exact, a negation flips the sign, and an e4m3 load has the byte's value.\<close>

definition f32_ok :: "('f \<Rightarrow> fval) \<Rightarrow> 'f fops \<Rightarrow> 'f dq_ops \<Rightarrow> bool" where
  "f32_ok den F D \<longleftrightarrow> (\<forall>b. 0 \<le> b \<and> b < 2 ^ 31 \<longrightarrow> den (f_of_bits F b) = f32_val b) \<and> den (dq_nan D) = NaN False
     \<and> (\<forall>x < 256. den (f_e4m3 F x) = e4m3_val x) \<and> (\<forall>m \<in> set e2m1_magnitudes. den (f_lit F m) = Fin False m)
     \<and> (\<forall>x sg m. den x = Fin sg m \<longrightarrow> den (f_neg F x) = Fin (\<not> sg) m)"

text \<open>The primitive operations of torch on the fp8 format, and its product of two bf16 numbers against the
  kernel's product in fp32 cast to bf16, on an e4m3 and an e8m0 number (\<open>rd\<close> reads a stored bf16).\<close>

definition fp8_ops_ok :: "('f \<Rightarrow> fval) \<Rightarrow> (nat \<times> nat \<Rightarrow> fval) \<Rightarrow> 'f fops \<Rightarrow> fval v41_ops \<Rightarrow> bool" where
  "fp8_ops_ok den rd F V \<longleftrightarrow> (\<forall>x < 256. v_fp8_val V x = e4m3_val x) \<and> (\<forall>s < 256. v_e8m0_val V s = e8m0_val s)
     \<and> (\<forall>a b. \<forall>x < 256. \<forall>s < 256. den a = e4m3_val x \<and> den b = e8m0_val s
          \<longrightarrow> rd (f_to_bf16 F (f_mul F a b)) = v_mul V (e4m3_val x) (e8m0_val s))"

text \<open>The same for fp4: the product of a grid point and an e4m3 number, rounded to bf16.\<close>

definition fp4_ops_ok :: "('f \<Rightarrow> fval) \<Rightarrow> (nat \<times> nat \<Rightarrow> fval) \<Rightarrow> 'f fops \<Rightarrow> qops \<Rightarrow> bool" where
  "fp4_ops_ok den rd F Q \<longleftrightarrow> (\<forall>s < 256. s mod 128 \<noteq> 127 \<longrightarrow> q_e4m3_val Q s = value_of (e4m3_val s))
     \<and> (\<forall>a b sg. \<forall>m \<in> set e2m1_magnitudes. \<forall>s < 256. s mod 128 \<noteq> 127 \<and> den a = Fin sg m \<and> den b = e4m3_val s
          \<longrightarrow> value_of (rd (f_to_bf16 F (f_mul F a b))) = q_bf16 Q ((if sg then - m else m) * value_of (e4m3_val s)))"

text \<open>The kernel's decoding of a scale byte is that of the format: a power of two from the exponent bits, the
  denormal \<open>2 ^ -127\<close> for byte 0, NaN for byte 255.\<close>

lemma ue8m0_value:
  assumes "f32_ok den F D" "s < 256"
  shows "den (ue8m0_to_fp32 F D s) = e8m0_val s"
proof -
  have bits: "den (f_of_bits F b) = f32_val b" if "0 \<le> b" "b < 2 ^ 31" for b using assms(1) that by (simp add: f32_ok_def)
  consider (zero) "s = 0" | (nan) "s = 255" | (normal) "0 < s" "s < 255" using assms(2) by linarith
  then show ?thesis
  proof cases
    case zero
    have "f32_val 0x00400000 = Fin False (2 powi (- 127))"
      by (simp add: f32_val_def Let_def power_int_minus field_simps)
    then show ?thesis using zero bits [of "0x00400000"] by (simp add: ue8m0_to_fp32_def e8m0_val_def)
  next
    case nan
    then show ?thesis using assms(1) by (simp add: ue8m0_to_fp32_def e8m0_val_def f32_ok_def)
  next
    case normal
    have p: "push_bit 23 (int s) = int s * 2 ^ 23" by (simp add: push_bit_eq_mult)
    have "int s * 2 ^ 23 < 255 * 2 ^ 23" using normal by (intro mult_strict_right_mono) simp_all
    then have r: "0 \<le> int s * 2 ^ 23" "int s * 2 ^ 23 < 2 ^ 31" by simp_all
    then have sg: "int s * 2 ^ 23 div 2 ^ 31 = 0" by (intro div_pos_pos_trivial)
    have "f32_val (int s * 2 ^ 23) = Fin False (2 powi (int s - 127))"
      unfolding f32_val_def Let_def sg using normal by simp
    then show ?thesis using normal bits [OF r] by (simp add: ue8m0_to_fp32_def e8m0_val_def p)
  qed
qed

text \<open>The kernel's decoding of a code is the grid point, with the sign of a zero.\<close>

lemma e2m1_decoded:
  assumes "f32_ok den F D" "c < 16"
  shows "den (e2m1_code_to_fp32 F c) = dequantize_e2m1_codes c"
proof -
  have lit: "den (f_lit F m) = Fin False m" if "m \<in> set e2m1_magnitudes" for m using assms(1) that by (simp add: f32_ok_def)
  have neg: "den (f_neg F (f_lit F m)) = Fin True m" if "m \<in> set e2m1_magnitudes" for m
    using assms(1) lit [OF that] unfolding f32_ok_def by (metis (full_types))
  show ?thesis using assms(2)
    by (cases c rule: code_cases; simp add: e2m1_code_to_fp32_def dequantize_e2m1_codes_def e2m1_magnitudes_def Let_def lit neg)
qed

lemma v41_elem_fp8:
  assumes F: "f32_ok den F D" and V: "fp8_ops_ok den rd F V" and b: "page ! (t * 512 + j) < 256" "page ! (ps * 512 + t * 16 + j div 32) < 256"
  shows "rd (v41_elem F D V41 page ps t j) = v_mul V (v_fp8_val V (page ! (t * 512 + j))) (v_e8m0_val V (page ! (ps * 512 + t * 16 + j div 32)))"
  using V b ue8m0_value [OF F b(2)] F unfolding fp8_ops_ok_def f32_ok_def by (simp add: v41_elem_def)

lemma v41_elem_fp4:
  assumes F: "f32_ok den F D" and Q: "fp4_ops_ok den rd F Q" and b: "page ! (t * 256 + j div 2) < 256"
      "page ! (ps * 256 + t * 32 + j div 16) < 256" "page ! (ps * 256 + t * 32 + j div 16) mod 128 \<noteq> 127"
  shows "value_of (rd (v41_elem F D V41_FP4 page ps t j))
     = q_bf16 Q (value_of (dequantize_e2m1_codes (nibble (odd j) (page ! (t * 256 + j div 2)))) * q_e4m3_val Q (page ! (ps * 256 + t * 32 + j div 16)))"
proof -
  let ?c = "nibble (odd j) (page ! (t * 256 + j div 2))" and ?s = "page ! (ps * 256 + t * 32 + j div 16)"
  have c: "?c < 16" using b(1) by (auto simp: nibble_def)
  have m: "e2m1_magnitudes ! (?c mod 8) \<in> set e2m1_magnitudes" by (rule nth_mem) (simp add: e2m1_magnitudes_def)
  have d: "den (e2m1_code_to_fp32 F ?c) = Fin (?c div 8 mod 2 = 1) (e2m1_magnitudes ! (?c mod 8))"
    using e2m1_decoded [OF F c] by (simp add: dequantize_e2m1_codes_def)
  have s: "den (f_e4m3 F ?s) = e4m3_val ?s" using F b(2) by (simp add: f32_ok_def)
  have "value_of (rd (f_to_bf16 F (f_mul F (e2m1_code_to_fp32 F ?c) (f_e4m3 F ?s))))
      = q_bf16 Q ((if ?c div 8 mod 2 = 1 then - (e2m1_magnitudes ! (?c mod 8)) else e2m1_magnitudes ! (?c mod 8)) * value_of (e4m3_val ?s))"
    using Q m b(2,3) d s unfolding fp4_ops_ok_def by blast
  moreover have "q_e4m3_val Q ?s = value_of (e4m3_val ?s)" using Q b(2,3) by (simp add: fp4_ops_ok_def)
  ultimately show ?thesis by (simp add: v41_elem_def dequantize_e2m1_codes_def)
qed

text \<open>C21. Reading the compressed caches: for any table of the tokens of pages of bytes (any bytes for fp8; for
  fp4, pages whose scale bytes are not NaN), in whatever order the programs run, the kernel of each layout leaves in
  every row what the torch dequantiser of the format returns for that token, and the rest of the
  workspace is untouched.  The kernels' own decoding of scale bytes and codes is proved against the
  formats; assumed are only the primitive operations: bit casts, literals, negation and e4m3 loads, and
  that a product of two given numbers cast to bf16 is torch's.\<close>

theorem paged_v41_matches_torch:
  assumes c: "v41_cache l pages pb ps table" and l: "l \<in> {V41, V41_FP4}" "parse_layout layout = Inr l"
    and d: "pick_dest fresh (length table) out = Inr d" "dest_ok d" and pids: "set pids = {..<length table}"
    and F: "f32_ok den F D" and fp8: "fp8_ops_ok den rd F V" and fp4: "fp4_ops_ok den rd F Q"
    and num: "\<And>page k. l = V41_FP4 \<Longrightarrow> page \<in> set pages \<Longrightarrow> k < ps * 32 \<Longrightarrow> page ! (ps * 256 + k) mod 128 \<noteq> 127"
  shows "\<exists>d'. dequantize_k_cache_paged F D fresh pids (concat pages) (int pb) table (int ps) out layout = Inr d'
     \<and> (l = V41 \<longrightarrow> (\<forall>i < length table. map rd (dest_row d' i) = dequantize_k_cache_v41 V pages ps ! (nat (table ! i) div ps) ! (nat (table ! i) mod ps)))
     \<and> (l = V41_FP4 \<longrightarrow> (\<forall>i < length table. map (value_of \<circ> rd) (dest_row d' i) = dequantize_k_cache_v41_fp4 Q pages ps ! (nat (table ! i) div ps) ! (nat (table ! i) mod ps)))
     \<and> (\<forall>k. (\<forall>i < length table. \<forall>j < 512. k \<noteq> i * ds_stride d + j) \<longrightarrow> ds_mem d' ! k = ds_mem d ! k)"
proof -
  obtain d' where D': "dequantize_k_cache_paged F D fresh pids (concat pages) (int pb) table (int ps) out layout = Inr d'"
    "\<forall>i < length table. dest_row d' i = map (v41_elem F D l (pages ! (nat (table ! i) div ps)) ps (nat (table ! i) mod ps)) [0..<512]"
    "\<forall>k. (\<forall>i < length table. \<forall>j < 512. k \<noteq> i * ds_stride d + j) \<longrightarrow> ds_mem d' ! k = ds_mem d ! k"
    using v41_rows [OF c l d pids] by blast
  have tok: "nat (table ! i) div ps < length pages" "nat (table ! i) mod ps < ps" "pages ! (nat (table ! i) div ps) \<in> set pages"
    if "i < length table" for i
  proof -
    have "table ! i \<in> set table" using that by simp
    then show p: "nat (table ! i) div ps < length pages" and "nat (table ! i) mod ps < ps"
      using c by (auto simp: v41_cache_def nat_less_iff less_mult_imp_div_less)
    show "pages ! (nat (table ! i) div ps) \<in> set pages" using p by simp
  qed
  have len: "length page = pb" "k < pb \<Longrightarrow> page ! k < 256" if "page \<in> set pages" for page k
    using c that by (auto simp: v41_cache_def)
  have "map rd (dest_row d' i) = dequantize_k_cache_v41 V pages ps ! (nat (table ! i) div ps) ! (nat (table ! i) mod ps)"
    if V: "l = V41" and i: "i < length table" for i
  proof -
    let ?pg = "pages ! (nat (table ! i) div ps)" and ?t = "nat (table ! i) mod ps"
    have sz: "ps * 528 \<le> pb" using c V by (simp add: v41_cache_def layout_defs)
    have "?t * 512 + j < pb \<and> ps * 512 + ?t * 16 + j div 32 < pb" if "j < 512" for j
      using tok(2) [OF i] sz that by (auto simp: mult_le_mono1 less_mult_imp_div_less)
    then have "rd (v41_elem F D V41 ?pg ps ?t j) = v_mul V (v_fp8_val V (?pg ! (?t * 512 + j))) (v_e8m0_val V (?pg ! (ps * 512 + ?t * 16 + j div 32)))"
      if "j < 512" for j
      using len(2) [OF tok(3) [OF i]] that by (intro v41_elem_fp8 [OF F fp8]) blast+
    then show ?thesis using D'(2) i torch_fp8_elem [OF tok(1) [OF i] tok(2) [OF i], of V] len(1) [OF tok(3) [OF i]] sz V
      by (simp cong: map_cong del: upt_rec_numeral)
  qed
  moreover have "map (value_of \<circ> rd) (dest_row d' i) = dequantize_k_cache_v41_fp4 Q pages ps ! (nat (table ! i) div ps) ! (nat (table ! i) mod ps)"
    if V: "l = V41_FP4" and i: "i < length table" for i
  proof -
    let ?pg = "pages ! (nat (table ! i) div ps)" and ?t = "nat (table ! i) mod ps"
    have sz: "ps * 288 \<le> pb" using c V by (simp add: v41_cache_def layout_defs)
    have b: "?t * 256 + j div 2 < pb \<and> ps * 256 + ?t * 32 + j div 16 < pb \<and> ?t * 32 + j div 16 < ps * 32" if "j < 512" for j
      using tok(2) [OF i] sz that by (auto simp: mult_le_mono1 less_mult_imp_div_less)
    have "value_of (rd (v41_elem F D V41_FP4 ?pg ps ?t j)) = q_bf16 Q (value_of (dequantize_e2m1_codes (nibble (odd j) (?pg ! (?t * 256 + j div 2)))) * q_e4m3_val Q (?pg ! (ps * 256 + ?t * 32 + j div 16)))"
      if j: "j < 512" for j
      using len(2) [OF tok(3) [OF i]] b [OF j] num [OF V tok(3) [OF i], of "?t * 32 + j div 16"]
      by (intro v41_elem_fp4 [OF F fp4]) (simp_all add: add.assoc)
    then show ?thesis using D'(2) i torch_fp4_elem [OF tok(1) [OF i] tok(2) [OF i], of Q] len(1) [OF tok(3) [OF i]] sz V
      by (simp cong: map_cong del: upt_rec_numeral)
  qed
  ultimately show ?thesis using D'(1,3) by blast
qed

section \<open>Padded query heads\<close>

lemma padded_heads_supported: "q8kv8_padded_num_heads n = Inr p \<Longrightarrow> p \<in> {64, 128} \<and> n \<le> p \<and> 0 < n \<and> (p = 128 \<longrightarrow> 64 < n)"
  by (auto simp: q8kv8_padded_num_heads_def split: if_splits)

text \<open>The query that is handed on has the supported number of heads: the given ones cast, then zeros.\<close>

lemma cast_q_pads:
  assumes r: "cast_q_fp8_for_q8kv8_prefill cast q (int nh) padded out = Inr r"
    and o: "\<And>o'. out = Some o' \<Longrightarrow> int (length (qo_rows o')) = fst (qo_shape o') \<and> (\<forall>heads \<in> set (qo_rows o'). int (length heads) = fst (snd (qo_shape o')))"
  shows "\<exists>p \<in> {64, 128}. nh \<le> p \<and> r = map (\<lambda>toks. map (map cast) toks @ replicate (p - nh) (replicate 512 0)) q"
proof -
  have "\<exists>p q8. (p \<in> {64, 128} \<and> int nh \<le> p) \<and> (case out of
          None \<Rightarrow> Inr (replicate (length q) (replicate (nat p) (replicate 512 0)))
        | Some o' \<Rightarrow> ensure (qo_shape o' = (int (length q), p, 512) \<and> qo_like o') ValueError
            (Inr (if p > int nh then map (\<lambda>heads. take nh heads @ replicate (nat p - nh) (replicate 512 0)) (qo_rows o') else qo_rows o')))
        = Inr q8 \<and> map2 (\<lambda>heads toks. map (map cast) toks @ drop nh heads) q8 q = r"
    using r unfolding cast_q_fp8_for_q8kv8_prefill_def res_bind_Inr ensure_Inr nat_int sum.inject by blast
  then obtain p q8 where p: "p \<in> {64, 128}" "int nh \<le> p"
    and body: "(case out of
          None \<Rightarrow> Inr (replicate (length q) (replicate (nat p) (replicate 512 0)))
        | Some o' \<Rightarrow> ensure (qo_shape o' = (int (length q), p, 512) \<and> qo_like o') ValueError
            (Inr (if p > int nh then map (\<lambda>heads. take nh heads @ replicate (nat p - nh) (replicate 512 0)) (qo_rows o') else qo_rows o')))
        = Inr q8" "r = map2 (\<lambda>heads toks. map (map cast) toks @ drop nh heads) q8 q" by blast
  from p have pn: "nat p \<in> {64, 128}" "nh \<le> nat p" by auto
  have rows: "length q8 = length q \<and> (\<forall>heads \<in> set q8. drop nh heads = replicate (nat p - nh) (replicate 512 0))"
  proof (cases out)
    case (Some o')
    then have "length (qo_rows o') = length q" "\<forall>heads \<in> set (qo_rows o'). length heads = nat p"
      using o [OF Some] body(1) p(2) by (auto simp: ensure_Inr)
    then show ?thesis using Some body(1) p(2) pn(2) by (auto simp: ensure_Inr split: if_splits)
  qed (use body(1) pn(2) in auto)
  have "r = map (\<lambda>toks. map (map cast) toks @ replicate (nat p - nh) (replicate 512 0)) q"
    by (rule nth_equalityI) (use rows in \<open>auto simp: body(2)\<close>)
  then show ?thesis using pn by blast
qed

section \<open>A cache of one page\<close>

text \<open>bf16 as an exact encoding of sixteenths, which products of a code and a scale are.\<close>

definition demo_exact :: "rat fops" where
  "demo_exact = demo_fops\<lparr>f_to_bf16 := (\<lambda>x. (nat \<lfloor>16 * \<bar>x\<bar>\<rfloor>, if x < 0 then 1 else 0)), f_to_fp8 := (\<lambda>x. nat \<lfloor>16 * \<bar>x\<bar>\<rfloor> mod 256)\<rparr>"

definition demo_dq :: "rat dq_ops" where
  "demo_dq = \<lparr>dq_exp2_tl = (\<lambda>k. if (2 :: rat) powi k < 1 / 2 ^ 126 then 0 else 2 powi k), dq_exp2 = (\<lambda>k. 2 powi k),
     dq_tiny = (\<lambda>x. x < 1 / 2 ^ 126), dq_nan = 0, dq_bf16_fp8_tl = (\<lambda>b. fst b mod 256), dq_bf16_fp8 = (\<lambda>b. fst b mod 256)\<rparr>"

lemma demo_flushes: "exp2_flushes demo_exact demo_dq"
  by (simp add: exp2_flushes_def demo_dq_def demo_exact_def demo_fops_def)

lemma paged_v4_matches_reference_witness:
  "\<exists>d'. dequantize_k_cache_paged demo_exact demo_dq (\<lambda>n. replicate n (7, 7)) [1, 0] (replicate 1168 130) 584 [1, 0] 1 None (LayoutStr ''V4'') = Inr d'
     \<and> dequantize_k_cache_paged_ref demo_exact demo_dq (replicate 1168 130) 584 [1, 0] 1 = Inr (map (dest_row d') [0..<length [1, 0 :: int]])"
proof -
  have c: "v4_cache (replicate 1168 130) 584 1 2 [1, 0]" unfolding v4_cache_def by simp
  have d: "pick_dest (\<lambda>n. replicate n (7, 7)) (length [1, 0 :: int]) None = Inr \<lparr>ds_mem = replicate 1024 (7 :: nat, 7 :: nat), ds_rows = 2, ds_stride = 512\<rparr>"
    "dest_ok \<lparr>ds_mem = replicate 1024 (7 :: nat, 7 :: nat), ds_rows = 2, ds_stride = 512\<rparr>"
    by (simp_all add: pick_dest_def dq_consts dest_ok_def)
  have l: "parse_layout (LayoutStr ''V4'') = Inr V4" by code_simp
  have p: "set [1, 0] = {..<length [1, 0 :: int]}" by (auto simp: lessThan_Suc)
  show ?thesis using paged_v4_matches_reference [OF c demo_flushes l d p] by blast
qed

lemma gather_workspace_matches_reference_witness:
  "\<exists>d'. gather_dequant_requant_fp8_paged demo_exact demo_dq [1, 0] (replicate 1168 130) 584 [1, 0] 1 (int 1) None = Inr d'
     \<and> gather_dequant_requant_fp8_paged_ref demo_exact demo_dq (replicate 1168 130) 584 [1, 0] 1 1 = Inr (map (dest_row d') [0..<length [1, 0 :: int] + 1])"
proof -
  have c: "v4_cache (replicate 1168 130) 584 1 2 [1, 0]" unfolding v4_cache_def by simp
  have ca: "casts_agree demo_exact demo_dq src t" for src t by (simp add: casts_agree_def demo_exact_def demo_dq_def)
  have p: "set [1, 0] = {..<length [1, 0 :: int]}" by (auto simp: lessThan_Suc)
  show ?thesis by (rule gather_workspace_matches_reference [OF c demo_flushes ca _ _ p]) simp_all
qed

text \<open>A machine with exact numbers: registers hold values, and a bf16 cell holds numerator, denominator and
  sign.  The torch side multiplies the values of the formats.\<close>

fun demo_mul :: "fval \<Rightarrow> fval \<Rightarrow> fval" where
  "demo_mul (Fin s a) (Fin t b) = Fin (s \<noteq> t) (a * b)" | "demo_mul _ _ = NaN False"

fun demo_neg :: "fval \<Rightarrow> fval" where
  "demo_neg (Fin s a) = Fin (\<not> s) a" | "demo_neg (Inf s) = Inf (\<not> s)" | "demo_neg (NaN s) = NaN (\<not> s)"

fun demo_store :: "fval \<Rightarrow> nat \<times> nat" where
  "demo_store (Fin s a) = (nat (fst (quotient_of a)), 2 * nat (snd (quotient_of a)) + of_bool s)"
| "demo_store _ = (1, 0)"

definition demo_load :: "nat \<times> nat \<Rightarrow> fval" where
  "demo_load c = (if snd c = 0 then NaN False else Fin (odd (snd c)) (of_nat (fst c) / of_nat (snd c div 2)))"

lemma demo_load_store:
  assumes "0 \<le> a"
  shows "demo_load (demo_store (Fin s a)) = Fin s a"
proof -
  obtain p q where pq: "quotient_of a = (p, q)" by fastforce
  then have a: "a = of_int p / of_int q" "0 < q" using quotient_of_div quotient_of_denom_pos by blast+
  then have p: "0 \<le> p" using assms by (simp add: zero_le_divide_iff)
  have q: "(2 * nat q + of_bool s) div 2 = nat q" "2 * nat q + of_bool s \<noteq> 0" "odd (2 * nat q + of_bool s) = s"
    using a(2) by (cases s; simp)+
  have "demo_load (demo_store (Fin s a)) = Fin s (of_nat (nat p) / of_nat (nat q))" using q by (simp add: demo_load_def pq)
  also have "of_nat (nat p) / of_nat (nat q) = a" using p a(2) by (simp add: a(1))
  finally show ?thesis .
qed

definition demo_f32 :: "fval fops" where
  "demo_f32 = \<lparr>f_lit = (\<lambda>m. Fin (m < 0) \<bar>m\<bar>), f_e4m3 = e4m3_val, f_mul = demo_mul, f_div = demo_mul, f_neg = demo_neg, f_abs = id,
     f_tlmax = (\<lambda>x y. x), f_amax = (\<lambda>x y. x), f_bits = (\<lambda>_. 0), f_of_bits = f32_val, f_to_fp8 = (\<lambda>_. 0), f_to_bf16 = demo_store,
     f_num = finite_val\<rparr>"

definition demo_f32_dq :: "fval dq_ops" where
  "demo_f32_dq = \<lparr>dq_exp2_tl = (\<lambda>_. NaN False), dq_exp2 = (\<lambda>_. NaN False), dq_tiny = (\<lambda>_. False), dq_nan = NaN False, dq_bf16_fp8_tl = fst, dq_bf16_fp8 = fst\<rparr>"

definition demo_v :: "fval v41_ops" where
  "demo_v = \<lparr>v_448 = id, v_bits = (\<lambda>_. 0), v_fp8 = (\<lambda>_ _. 0), v_e8m0 = (\<lambda>_. 0), v_fp8_val = e4m3_val, v_e8m0_val = e8m0_val, v_mul = demo_mul\<rparr>"

definition demo_q :: qops where
  "demo_q = \<lparr>q_sixth = (\<lambda>a. a / 6), q_div = (/), q_e4m3 = (\<lambda>_. 56), q_e4m3_val = (\<lambda>s. value_of (e4m3_val s)), q_bf16 = id\<rparr>"

lemma format_values:
  "e4m3_val x = NaN (odd (x div 128)) \<or> (\<exists>sg m. e4m3_val x = Fin sg m \<and> 0 \<le> m)"
  "x mod 128 \<noteq> 127 \<Longrightarrow> \<exists>sg m. e4m3_val x = Fin sg m \<and> 0 \<le> m"
  "e8m0_val x = NaN False \<or> (\<exists>m. e8m0_val x = Fin False m \<and> 0 \<le> m)"
  by (auto simp: e4m3_val_def e8m0_val_def Let_def)

lemma demo_f32_ok: "f32_ok id demo_f32 demo_f32_dq" "fp8_ops_ok id demo_load demo_f32 demo_v" "fp4_ops_ok id demo_load demo_f32 demo_q"
proof -
  show "f32_ok id demo_f32 demo_f32_dq"
    by (auto simp: f32_ok_def demo_f32_def demo_f32_dq_def e2m1_magnitudes_def)
  have nan: "demo_load (demo_store (NaN False)) = NaN False" by (simp add: demo_load_def)
  have "demo_load (demo_store (demo_mul (e4m3_val x) (e8m0_val s))) = demo_mul (e4m3_val x) (e8m0_val s)" for x s
    using format_values(1) [of x] format_values(3) [of s]
    by (auto simp: demo_load_store nan simp del: demo_store.simps)
  then show "fp8_ops_ok id demo_load demo_f32 demo_v" by (auto simp: fp8_ops_ok_def demo_v_def demo_f32_def)
  have "value_of (demo_load (demo_store (demo_mul (Fin sg m) (e4m3_val s)))) = (if sg then - m else m) * value_of (e4m3_val s)"
    if m: "m \<in> set e2m1_magnitudes" and s: "s mod 128 \<noteq> 127" for sg m s
  proof -
    obtain sg' v where v: "e4m3_val s = Fin sg' v" "0 \<le> v" using format_values(2) [OF s] by blast
    have "0 \<le> m * v" using m v(2) by (auto simp: e2m1_magnitudes_def)
    then show ?thesis using demo_load_store [of "m * v" "sg \<noteq> sg'"] v(1) by simp
  qed
  then show "fp4_ops_ok id demo_load demo_f32 demo_q" by (auto simp: fp4_ops_ok_def demo_q_def demo_f32_def)
qed

text \<open>One page of one token in each layout: the fp8 byte 49 is 9/16 and the scale byte 130 is 8; the fp4 codes
  1 and 3 are 1/2 and 3/2 and the scale byte 64 is 2.\<close>

lemma paged_v41_matches_torch_witness:
  "(\<exists>d'. dequantize_k_cache_paged demo_f32 demo_f32_dq (\<lambda>n. replicate n (7, 7)) [0] (concat [replicate 512 49 @ replicate 16 130]) (int 528) [0] (int 1) None (LayoutVal V41) = Inr d'
       \<and> map demo_load (dest_row d' 0) = replicate 512 (Fin False (9 / 2)))
   \<and> (\<exists>d'. dequantize_k_cache_paged demo_f32 demo_f32_dq (\<lambda>n. replicate n (7, 7)) [0] (concat [replicate 256 49 @ replicate 32 64]) (int 288) [0] (int 1) None (LayoutVal V41_FP4) = Inr d'
       \<and> map (value_of \<circ> demo_load) (dest_row d' 0) = map (\<lambda>j. if odd j then 3 else 1) [0..<512])"
proof -
  let ?p8 = "replicate 512 49 @ replicate 16 130 :: nat list" and ?p4 = "replicate 256 49 @ replicate 32 64 :: nat list"
  have c: "v41_cache V41 [?p8] 528 1 [0]" "v41_cache V41_FP4 [?p4] 288 1 [0]" unfolding v41_cache_def by (auto simp: layout_defs)
  have d: "pick_dest (\<lambda>n. replicate n (7, 7)) (length [0 :: int]) None = Inr \<lparr>ds_mem = replicate 512 (7 :: nat, 7 :: nat), ds_rows = 1, ds_stride = 512\<rparr>"
    "dest_ok \<lparr>ds_mem = replicate 512 (7 :: nat, 7 :: nat), ds_rows = 1, ds_stride = 512\<rparr>"
    by (simp_all add: pick_dest_def dq_consts dest_ok_def)
  have l: "V41 \<in> {V41, V41_FP4}" "parse_layout (LayoutVal V41) = Inr V41"
    "V41_FP4 \<in> {V41, V41_FP4}" "parse_layout (LayoutVal V41_FP4) = Inr V41_FP4" by (simp_all add: parse_layout_def)
  have p: "set [0] = {..<length [0 :: int]}" by auto
  have num8: "page ! (1 * 256 + k) mod 128 \<noteq> 127" if "V41 = V41_FP4" "page \<in> set [?p8]" "k < 1 * 32" for page k using that by simp
  have num4: "page ! (1 * 256 + k) mod 128 \<noteq> 127" if "V41_FP4 = V41_FP4" "page \<in> set [?p4]" "k < 1 * 32" for page k
    using that by (simp add: nth_append)
  have v: "e4m3_val 49 = Fin False (9 / 16)" "e8m0_val 130 = Fin False 8" "e4m3_val 64 = Fin False 2"
    by (simp_all add: e4m3_val_def e8m0_val_def Let_def power_int_def)
  have "dequantize_k_cache_v41 demo_v [?p8] 1 ! 0 ! 0 = map (\<lambda>j. demo_mul (e4m3_val (?p8 ! j)) (e8m0_val (?p8 ! (512 + j div 32)))) [0..<512]"
    using torch_fp8_elem [of 0 "[?p8]" 0 1 demo_v] by (simp add: demo_v_def del: upt_rec_numeral)
  also have "\<dots> = map (\<lambda>j. Fin False (9 / 2)) [0..<512]"
    by (intro map_cong refl) (simp add: nth_append v del: upt_rec_numeral)
  finally have r8: "dequantize_k_cache_v41 demo_v [?p8] 1 ! 0 ! 0 = replicate 512 (Fin False (9 / 2))"
    by (simp add: map_replicate_const del: upt_rec_numeral)
  have "dequantize_k_cache_v41_fp4 demo_q [?p4] 1 ! 0 ! 0
      = map (\<lambda>j. value_of (dequantize_e2m1_codes (nibble (odd j) (?p4 ! (j div 2)))) * value_of (e4m3_val (?p4 ! (256 + j div 16)))) [0..<512]"
    using torch_fp4_elem [of 0 "[?p4]" 0 1 demo_q] by (simp add: demo_q_def del: upt_rec_numeral)
  also have "\<dots> = map (\<lambda>j. if odd j then 3 else 1) [0..<512]"
    by (intro map_cong refl) (simp add: nth_append v nibble_def dequantize_e2m1_codes_def e2m1_magnitudes_def less_mult_imp_div_less del: upt_rec_numeral)
  finally have r4: "dequantize_k_cache_v41_fp4 demo_q [?p4] 1 ! 0 ! 0 = map (\<lambda>j. if odd j then 3 else 1) [0..<512]" .
  show ?thesis
    using paged_v41_matches_torch [OF c(1) l(1,2) d p demo_f32_ok num8] paged_v41_matches_torch [OF c(2) l(3,4) d p demo_f32_ok num4] r8 r4
    by fastforce
qed

end
