(* ===== verification/Spec2Isabelle.thy ===== *)
theory Spec2Isabelle
  imports KVLayout EngramEngine EngramLayout EngramTable EngramPack EngramBackend
    RequestWindow FastArgmax DsparkAccept ReqFinish ReqRounds ScheduleBatch DecodeRetract
    PoolDefault PoolSwa PoolDsv4 Fp4Quant PlanRound SpecRows TpPad SharedPadK PrefillReuse
    PoolLayers KDequant
begin

text \<open>
  A verification development of the serving overlay for DeepSeek-V4.1 (\<open>src/sglang-overlay\<close>,
  \<open>src/adapter\<close> and \<open>src/scripts\<close>).  The overlay replaces parts of an inference server: the
  scheduler's requests and batches, the sizing and the layout of the KV cache pools, the n-gram
  ("Engram") embedding and its hash kernels, the per-request sliding window, and the acceptance of
  speculated tokens.  A batch goes through these parts in this order: the pool configurator sizes
  the pools once at start-up; the scheduler builds extend and decode batches from requests, merges,
  filters and retracts them; the forward pass hashes the tokens of every row into Engram table ids,
  looks the rows up (in memory or through the file-backed gather), and reads and writes the request
  window; the acceptance step decides how many drafted tokens a row keeps; the finish checks decide
  whether a request is done.  Between two decode rounds the draft input of the speculative worker stages the next
  allocation lengths on the host.  At load time the adapters pad the configuration and the weights so
  that an odd number of ranks divides them.

  Conventions.  Python's integers are \<open>int\<close> (or \<open>nat\<close> where an index or a length cannot be negative);
  tensors of 32 and 64 bit integers have their wrap-around written out (\<open>wrap\<close> of theory Prelude)
  where the code's arithmetic can reach it.  Python's floats in the sizing code are rationals, so
  rounding of the float arithmetic is not modelled; probabilities are reals.  Exceptions are values
  (\<open>py_error\<close>, \<open>res\<close>), including assertions and out-of-range accesses.  A Triton kernel is one function per
  program (a program per token, row or lane) and the launch maps or folds it over the grid; where
  programs write shared memory the fold is over an arbitrary order.  Code that is not in the
  repository (the radix tree, allocators, samplers, tokenizers, the primality test, the native row
  store, regular expressions) is a parameter, and what a theorem needs of it is a named hypothesis.

  Theories, the source each models, and what its lemmas show.

  \<^item> Prelude: results and errors, Python list access and slices, wrap-around, powers of two,
    shared lemmas on lists, folds over disjoint writes and sums.

  Engram.
  \<^item> EngramLayout (\<open>engram.py\<close>: \<open>_find_next_prime\<close>, \<open>EngramLayout.build\<close>, \<open>build_compressed_token_map\<close>,
    \<open>compute_hash_multipliers\<close>, the constructor of \<open>EngramHasher\<close>).  The layout is always built, its
    primes are distinct and consecutive; the token map is dense; every hasher that is returned
    satisfies what the kernel assumes but for the powers of two its launch asserts, and its ids stay
    in the block of their head.  The search for
    a prime is a partial function; that it ends is proved from the infinity of the primes.
  \<^item> EngramHash, EngramHistory, EngramForward (\<open>engram_hash.py\<close>, \<open>engram.py\<close>: \<open>EngramHasher\<close>).  The kernel,
    lane by lane, against the torch path; the ids depend on the tokens of the request only; the
    in-place commit is independent of the order of the programs; commit after verification.  The
    assertions of the kernel's launch are in EngramHash; \<open>forward\<close> makes them on every CUDA batch.
  \<^item> EngramEngine: admissions, releases, extends, decodes and verifications as a step relation over
    the history table, with the invariant that makes every decode step hash what its tokens demand.
  \<^item> EngramTable (\<open>engram.py\<close>: \<open>EngramEmbedding\<close>): layouts, loading in any order of the ranks, and lookup,
    also sharded over data-parallel ranks, refined to the rows of the checkpoint.  The collectives
    are assumed to do what they document, no more.
  \<^item> EngramPack (\<open>scripts/pack_engram.py\<close>): the packed shard, byte by byte, read back.
  \<^item> EngramBackend (\<open>adapter/engram_backend.py\<close>): the file-backed gather with reused staging buffers,
    refined to the in-memory gather of EngramTable.

  KV cache.
  \<^item> KVLayout (\<open>kv_layout.py\<close> and parts of \<open>deepseek_v4_memory_pool.py\<close>): layouts, page geometry, admitted
    pairs, rings of the compressor states.
  \<^item> PagedTokens, WindowLayout, RequestWindow (\<open>dsv41_request_window.py\<close>): packed copies between pages,
    the layout of a batch's windows, and the class \<open>RequestWindow\<close> with its rings: every index resolves
    to the token it names, the workspace serves the history, commits keep the rings tagged, and a
    reset forgets.
  \<^item> PoolLayers (\<open>deepseek_v4_memory_pool.py\<close>): the constructor's compressed and index pools, the mapping
    of layers to storage owners, the buffers announced for transfers and the compressor states of
    requests with their reset.
  \<^item> Fp4Repack (\<open>repack_fp4_to_v4.py\<close>): the kernel that rewrites rows of an fp4 page as rows of the V4
    layout, its launcher with the grow-only buffers, and the torch reference it equals.
  \<^item> Fp4Quant (\<open>torch_quant.py\<close>): rounding to the e2m1 grid over exact values, power-of-two scales, and
    the fp4 and fp8 pages; a page read back is the fake quantisation of what was written, through the
    bridge of Fp4Repack as well.
  \<^item> KDequant (\<open>dequant_k_cache.py\<close>): the kernels that read the three layouts back for a list of tokens,
    the gather into an fp8 workspace with its zero landing pad, their launchers and torch references,
    and the padding of query heads.  Rows equal the references in any order of the programs; the
    kernels' decoding of scale bytes and codes is proved against the formats, from bit casts, literals,
    negations, loads and products of two numbers.
  \<^item> PoolDefault, PoolSwa, PoolDsv4 (\<open>pool_configurator.py\<close>): bytes per token for each architecture, the
    three families of configurators with their constructors and both sizing entries, the factory.
    The configurations that are returned fit the memory budget; the binary search of the unified
    pool is optimal; the rings of a speculative configurator serve its draft count.

  Speculation and sampling.
  \<^item> FastArgmax (\<open>fast_argmax.py\<close>): the split argmax against the lowest index of the maximum.
  \<^item> DsparkAccept (\<open>dspark_accept.py\<close>): greedy and sampling acceptance, temperature softmax, the cut-off,
    finalisation, mixed selection; torch and kernel paths, each with its own softmax, agree, greedy
    acceptance is lossless.

  \<^item> PlanStaging (\<open>DecodePlanStaging\<close> of \<open>dflash_info_v2.py\<close>): a heap of host and device buffers and a
    queue of device operations in issue order.  A host row is rewritten only after the event behind
    the last copy from it, so every device read sees the plan that was shipped for it.
  \<^item> PlanRound (\<open>DFlashDraftInputV2\<close> of the same file): \<open>prepare_for_decode\<close> on the staged and the legacy
    path, idle input, filter and merge.
  \<^item> SpecRows: the draft input and the schedule batch together; filtering and merging a batch keeps the
    rows of its draft input in step with its requests.

  Adapters and prefill.
  \<^item> TpPad (\<open>adapter/tp3_pad.py\<close>): head, group, vocabulary and expert counts padded to the ranks, and the
    loaders that cut a checkpoint tensor with its padding into shards.
  \<^item> SharedPadK (\<open>adapter/shared_pad_k.py\<close>): the padded contraction of the shared expert; the hook that
    pads the weight or raises, and the persistent input buffers behind the linear call.
  \<^item> PrefillReuse (\<open>dsv4_prefill_reuse.py\<close>): leader rows, presets and counters of the reused top-k
    selections, with the indexer and the top-k transforms as parameters.

  Scheduler (\<open>schedule_batch.py\<close>).
  \<^item> ReqFinish: the finish checks of a request, in the code's order of precedence.
  \<^item> ReqRounds: fill ids, prefix matching, retraction and abort resets of a request, and the
    per-request part of \<open>prepare_for_extend\<close>.
  \<^item> ScheduleBatch: the class of the same name as a record of its per-row fields, with construction,
    extend, decode, filter, merge, mix, conversion and idle preparation.  A ledger of the rows, kept
    beside the batch, says after any sequence of these operations which request each row belongs to
    and its lengths, ranges and last-chunk flag.
  \<^item> DecodeRetract: the memory check, the retraction order and loop, with the allocator, the cache
    and the host backup as a record of parameters.  The loop ends because each pass shortens the
    order; the batch that remains fits or is empty.

  Interfaces.  Three contracts are locales, each interpreted on the code's definitions where they are
  declared: \<open>ngram_row\<close> (EngramEngine; a history row under sliding), \<open>token_store\<close> (PagedTokens; reading
  back a token after writing one, on packed pages) and \<open>row_info\<close> (SpecRows; speculation info whose rows
  are kept and joined with the requests of a batch).

  Termination and fuel.  Loops over data are structural or have a measure; the retraction loop
  decreases the order, the bisection its interval, the packing loop the rows left.  No definition
  uses fuel.

  Not modelled.
  \<^item> The vendored kernel library under \<open>b12x-site\<close>, which is most of the lines of the repository: GPU
    kernels in the CUTLASS tile DSL, whose semantics (layouts, copies, pipelines, inline PTX) is not in
    the repository, with the launchers, caches and autotuning around them.
  \<^item> The model and attention files (\<open>deepseek_v4_model.py\<close>, \<open>deepseek_v4_backend.py\<close>, \<open>deepseek_v2.py\<close>,
    \<open>dsv4_indexer.py\<close>, \<open>attn.py\<close>, \<open>c1.py\<close>, \<open>c2.py\<close>, \<open>compress.py\<close>, \<open>compressor_v2.py\<close>, \<open>elementwise.py\<close>,
    \<open>deepseek_v4_dspark.py\<close>, \<open>dspark_draft.py\<close>), which compose floating-point tensor operations of
    external libraries and compiled CUDA kernels, and \<open>moe_b12x.py\<close>, \<open>mxfp8_b12x.py\<close>, which bind them.
  \<^item> Batch metadata and graph capture (\<open>forward_batch_info.py\<close>, \<open>decode_cuda_graph_runner.py\<close>) and the
    assembly of pools for other hardware and hierarchies (\<open>kv_cache_configurator.py\<close>,
    \<open>hybrid_pool_assembler.py\<close>, \<open>npu_dsv4_memory_pool.py\<close>).
  \<^item> Configuration plumbing (\<open>server_args.py\<close>, \<open>environ.py\<close>, \<open>overrides.py\<close>, \<open>sitecustomize.py\<close>), benchmarks,
    the web site and the release scripts (I/O), and the native row store \<open>row_store.cpp\<close>.
  \<^item> Of the modelled files: multimodal inputs, mamba state tracking, encoder-decoder batches, diffusion
    LLM requests, beam members and sliding-window eviction in \<open>schedule_batch.py\<close> (the eviction frees
    slots in a method that is not in the repository); tensor allocation, the unified pool, HiSparse
    translation and the fused store kernels of the pools; shared-memory mapping of the Engram tables;
    logging everywhere.
\<close>

end
